(* ===== verification/Prelude.thy ===== *)
theory Prelude
  imports Main "HOL-Library.Word" "HOL-Library.AList"
begin

text \<open>
  What the components share.  It holds the machine integers and the part of the
  Rust standard library the sources use (\<open>Instant\<close>, \<open>Duration\<close>, saturating
  and checked arithmetic, \<open>Iterator::position\<close>, \<open>VecDeque\<close> and \<open>HashMap\<close>
  operations), the named theorem collections of the development, and two
  generic locales for state machines: one for invariants of a step function,
  one for quantities a step function never decreases.

  A \<open>HashMap\<close> is an association list used through \<^const>\<open>map_of\<close>,
  \<^const>\<open>AList.update\<close> and \<^const>\<open>AList.delete\<close>; a \<open>HashSet\<close> is a set;
  a \<open>Vec\<close> or \<open>VecDeque\<close> is a list whose head is the front.
\<close>

named_theorems rust_std \<open>definitions of the standard library operations\<close>
named_theorems frame_simps \<open>fields an operation leaves as they were\<close>
named_theorems ledger_intros \<open>moves of the supervision ledger that are legal\<close>

section \<open>Machine integers\<close>

type_synonym u8 = "8 word"
type_synonym u32 = "32 word"
type_synonym u64 = "64 word"

definition u64_max :: u64 where
  "u64_max = - 1"

definition saturating_add_u64 :: "u64 \<Rightarrow> u64 \<Rightarrow> u64" where
  [rust_std]: "saturating_add_u64 a b =
     (if unat a + unat b < 2 ^ 64 then a + b else u64_max)"

definition saturating_sub_u64 :: "u64 \<Rightarrow> u64 \<Rightarrow> u64" where
  [rust_std]: "saturating_sub_u64 a b = (if b \<le> a then a - b else 0)"

lemma unat_u64_max: "unat u64_max = 2 ^ 64 - 1"
  by (simp add: u64_max_def unsigned_minus_1_eq_mask mask_eq_exp_minus_1)

lemma u64_le_max [simp]: "a \<le> u64_max"
  by (simp add: u64_max_def)

lemma unat_lt_2_64: "unat (a :: u64) < 2 ^ 64"
  using unsigned_less [of a] by simp

lemma unat_saturating_add_u64:
  "unat (saturating_add_u64 a b) = min (unat a + unat b) (2 ^ 64 - 1)"
  by (auto simp: saturating_add_u64_def unat_u64_max unat_word_ariths)

lemma unat_saturating_sub_u64:
  "unat (saturating_sub_u64 a b) = unat a - unat b"
  by (simp add: saturating_sub_u64_def unat_sub word_le_nat_alt)

lemma saturating_add_u64_mono:
  "a \<le> a' \<Longrightarrow> b \<le> b' \<Longrightarrow> saturating_add_u64 a b \<le> saturating_add_u64 a' b'"
  unfolding word_le_nat_alt unat_saturating_add_u64 by simp

lemma saturating_add_u64_ge [simp]:
  "a \<le> saturating_add_u64 a b" "b \<le> saturating_add_u64 a b"
  using unat_lt_2_64 [of a] unat_lt_2_64 [of b]
  by (simp_all add: word_le_nat_alt unat_saturating_add_u64)

section \<open>Time\<close>

text \<open>
  A \<open>Duration\<close> is its number of nanoseconds.  An \<open>Instant\<close> is a signed number
  of nanoseconds from the platform's origin: the standard library keeps a 64-bit
  signed number of seconds and a number of nanoseconds below one second, so
  an addition or subtraction that leaves that range is \<open>None\<close>.
\<close>

type_synonym duration = nat
type_synonym instant = int

definition nanos_per_sec :: nat where
  "nanos_per_sec = 1000000000"

definition secs :: "nat \<Rightarrow> duration" where
  "secs n = n * nanos_per_sec"

definition millis :: "nat \<Rightarrow> duration" where
  "millis n = n * 1000000"

definition duration_max :: duration where
  "duration_max = 2 ^ 64 * nanos_per_sec - 1"

definition instant_bound :: instant where
  "instant_bound = 2 ^ 63 * 1000000000"

definition instant_ok :: "instant \<Rightarrow> bool" where
  "instant_ok t \<longleftrightarrow> - instant_bound \<le> t \<and> t < instant_bound"

definition checked_add_instant :: "instant \<Rightarrow> duration \<Rightarrow> instant option" where
  [rust_std]: "checked_add_instant t d =
     (if t + int d < instant_bound then Some (t + int d) else None)"

definition checked_sub_instant :: "instant \<Rightarrow> duration \<Rightarrow> instant option" where
  [rust_std]: "checked_sub_instant t d =
     (if - instant_bound \<le> t - int d then Some (t - int d) else None)"

definition saturating_add_duration :: "duration \<Rightarrow> duration \<Rightarrow> duration" where
  [rust_std]: "saturating_add_duration a b = min (a + b) duration_max"

definition saturating_duration_since :: "instant \<Rightarrow> instant \<Rightarrow> duration" where
  [rust_std]: "saturating_duration_since a b = nat (a - b)"

lemma saturating_add_duration_le: "saturating_add_duration a b \<le> a + b"
  by (simp add: saturating_add_duration_def)

lemma checked_add_instant_ge:
  "checked_add_instant t d = Some u \<Longrightarrow> t \<le> u"
  by (auto simp: checked_add_instant_def split: if_splits)

section \<open>Lists\<close>

text \<open>\<open>Iterator::position\<close>: the index of the first element that satisfies the predicate.\<close>

fun list_position :: "('a \<Rightarrow> bool) \<Rightarrow> 'a list \<Rightarrow> nat option" where
  "list_position P [] = None"
| "list_position P (x # xs) =
     (if P x then Some 0 else map_option Suc (list_position P xs))"

text \<open>\<open>Vec::remove\<close> and \<open>VecDeque::remove\<close>: drops the element at an index.\<close>

definition remove_nth :: "nat \<Rightarrow> 'a list \<Rightarrow> 'a list" where
  "remove_nth i xs = take i xs @ drop (Suc i) xs"

lemma list_position_None_iff:
  "list_position P xs = None \<longleftrightarrow> (\<forall>x \<in> set xs. \<not> P x)"
  by (induction xs) auto

lemma list_position_Some_iff:
  "list_position P xs = Some i \<longleftrightarrow>
     i < length xs \<and> P (xs ! i) \<and> (\<forall>j < i. \<not> P (xs ! j))"
proof (induction xs arbitrary: i)
  case Nil
  then show ?case by simp
next
  case (Cons x xs)
  show ?case
    by (cases i) (auto simp: Cons.IH less_Suc_eq_0_disj)
qed

lemma list_position_SomeD:
  assumes "list_position P xs = Some i"
  shows "i < length xs" "P (xs ! i)"
  using assms by (auto simp: list_position_Some_iff)

lemma set_update_cases: "x \<in> set (xs[i := y]) \<Longrightarrow> x = y \<or> x \<in> set xs"
  using set_update_subset_insert [of xs i y] by blast

lemma length_remove_nth [simp]:
  "i < length xs \<Longrightarrow> length (remove_nth i xs) = length xs - 1"
  by (simp add: remove_nth_def)

lemma remove_nth_Nil [simp]: "remove_nth i [] = []"
  by (simp add: remove_nth_def)

lemma remove_nth_0 [simp]: "remove_nth 0 (x # xs) = xs"
  by (simp add: remove_nth_def)

lemma remove_nth_Suc [simp]: "remove_nth (Suc i) (x # xs) = x # remove_nth i xs"
  by (simp add: remove_nth_def)

lemma set_remove_nth_subset: "set (remove_nth i xs) \<subseteq> set xs"
  by (auto simp: remove_nth_def dest: in_set_takeD in_set_dropD)

lemma distinct_remove_nth: "distinct xs \<Longrightarrow> distinct (remove_nth i xs)"
proof (induction xs arbitrary: i)
  case (Cons x xs)
  then show ?case
    using set_remove_nth_subset [of "i - 1" xs] by (cases i) auto
qed simp

lemma set_remove_nth_distinct:
  "distinct xs \<Longrightarrow> i < length xs \<Longrightarrow> set (remove_nth i xs) = set xs - {xs ! i}"
proof (induction xs arbitrary: i)
  case (Cons x xs)
  then show ?case by (cases i) auto
qed simp

lemma map_remove_nth: "map f (remove_nth i xs) = remove_nth i (map f xs)"
  by (simp add: remove_nth_def take_map drop_map)

lemma nth_remove_nth:
  assumes "i < length xs" "j < length xs - 1"
  shows "remove_nth i xs ! j = xs ! (if j < i then j else Suc j)"
  using assms by (auto simp: remove_nth_def nth_append min_def)

section \<open>Hash maps\<close>

abbreviation hget :: "('k \<times> 'v) list \<Rightarrow> 'k \<Rightarrow> 'v option" where
  "hget m k \<equiv> map_of m k"

abbreviation hput :: "'k \<Rightarrow> 'v \<Rightarrow> ('k \<times> 'v) list \<Rightarrow> ('k \<times> 'v) list" where
  "hput k v m \<equiv> AList.update k v m"

abbreviation hdel :: "'k \<Rightarrow> ('k \<times> 'v) list \<Rightarrow> ('k \<times> 'v) list" where
  "hdel k m \<equiv> AList.delete k m"

definition has_key :: "('k \<times> 'v) list \<Rightarrow> 'k \<Rightarrow> bool" where
  "has_key m k \<longleftrightarrow> hget m k \<noteq> None"

lemma hget_hput: "hget (hput k v m) k' = (if k' = k then Some v else hget m k')"
  by (simp add: update_conv')

lemma hget_hdel: "hget (hdel k m) k' = (if k' = k then None else hget m k')"
  by (simp add: delete_conv')

lemma update_entries:
  "set (hput k v m) \<subseteq> insert (k, v) (set m)" "distinct (map fst m) \<Longrightarrow> distinct (map fst (hput k v m))"
  by (induction m) (auto simp: distinct_update split: if_splits)

lemma has_key_hput [simp]: "has_key (hput k v m) k' \<longleftrightarrow> k' = k \<or> has_key m k'"
  by (simp add: has_key_def hget_hput)

lemma has_key_hdel [simp]: "has_key (hdel k m) k' \<longleftrightarrow> k' \<noteq> k \<and> has_key m k'"
  by (simp add: has_key_def hget_hdel)

lemma has_key_Nil [simp]: "\<not> has_key [] k"
  by (simp add: has_key_def)

lemma has_key_iff_fst: "has_key m k \<longleftrightarrow> k \<in> fst ` set m"
  by (auto simp: has_key_def map_of_eq_None_iff)

section \<open>State machines\<close>

text \<open>
  A component whose operations are the letters of an alphabet \<open>'e\<close> is a step
  function; a run is a fold of it.  A client proves once per component that a
  step keeps an invariant, or that it never lowers a quantity, and gets the
  same for every run, whatever the interleaving of the operations.
\<close>

definition run :: "('s \<Rightarrow> 'e \<Rightarrow> 's) \<Rightarrow> 's \<Rightarrow> 'e list \<Rightarrow> 's" where
  "run step s es = foldl step s es"

lemma run_Nil [simp]: "run step s [] = s"
  by (simp add: run_def)

lemma run_Cons [simp]: "run step s (e # es) = run step (step s e) es"
  by (simp add: run_def)

lemma run_append [simp]: "run step s (es @ fs) = run step (run step s es) fs"
  by (simp add: run_def)

locale invariant_machine =
  fixes step :: "'s \<Rightarrow> 'e \<Rightarrow> 's" and inv :: "'s \<Rightarrow> bool"
  assumes step_inv: "inv s \<Longrightarrow> inv (step s e)"
begin

lemma run_inv: "inv s \<Longrightarrow> inv (run step s es)"
  by (induction es arbitrary: s) (simp_all add: step_inv)

end

locale monotone_machine = invariant_machine step inv
  for step :: "'s \<Rightarrow> 'e \<Rightarrow> 's" and inv :: "'s \<Rightarrow> bool" +
  fixes level :: "'s \<Rightarrow> 'a :: preorder"
  assumes step_level: "inv s \<Longrightarrow> level s \<le> level (step s e)"
begin

lemma run_level: "inv s \<Longrightarrow> level s \<le> level (run step s es)"
proof (induction es arbitrary: s)
  case (Cons e es)
  have "level s \<le> level (step s e)"
    by (rule step_level) (rule Cons.prems)
  also have "\<dots> \<le> level (run step (step s e) es)"
    by (rule Cons.IH) (rule step_inv, rule Cons.prems)
  finally show ?case by simp
qed simp

lemma run_level_prefix:
  "inv s \<Longrightarrow> level (run step s es) \<le> level (run step s (es @ fs))"
  by (simp add: run_level run_inv)

end

end
