(* ===== verification/Types.thy ===== *)
theory Types
  imports Prelude
begin

text \<open>
  The shared types of the crate (\<open>src/src/types/mod.rs\<close>) and its errors
  (\<open>src/src/error.rs\<close>): identifiers, stop reasons, restart and shutdown
  policies, the status plane's value and the records reports travel in.
  Constructors keep the names of the Rust variants; where two enums share a
  variant name the later one carries a prefix of its own enum.
\<close>

section \<open>Identifiers\<close>

type_synonym actor_id = string

text \<open>
  \<open>RecurringIdGenerator\<close>: one atomic counter hands out the ids of the timers and
  of the streams; \<open>fetch_add\<close> returns the old value and wraps.
\<close>

record recurring_id_generator =
  rig_next :: u64

definition next_id :: "recurring_id_generator \<Rightarrow> u64 \<times> recurring_id_generator" where
  "next_id g = (rig_next g, g\<lparr>rig_next := rig_next g + 1\<rparr>)"

definition next_stream_id :: "recurring_id_generator \<Rightarrow> u64 \<times> recurring_id_generator" where
  "next_stream_id g = (rig_next g, g\<lparr>rig_next := rig_next g + 1\<rparr>)"

section \<open>Errors\<close>

datatype timer_error = TimerNotFound | ZeroInterval

datatype stream_error = StreamNotFound

datatype supervision_error =
    ChildNotFound actor_id
  | BudgetExhausted
  | FactoryFailed string
  | SupNotASupervisor
  | ChildRunning actor_id
  | ChildRestarting actor_id
  | ChildUnresponsive actor_id
  | SupSupervisorStopping

datatype actor_error =
    User string
  | Panic string
  | SpawnErr spawn_error
  | TimerErr timer_error
  | StreamErr stream_error
  | SupervisionErr supervision_error
and spawn_error =
    MissingRuntime
  | ZeroMailboxCapacity
  | DuplicateChild actor_id
  | NameTaken string string
  | SystemNameTaken string
  | SystemShuttingDown string
  | Init actor_error
  | StartTimeout
  | Killed
  | NotASupervisor
  | SpawnSupervisorStopping
  | SpawnChildUnresponsive actor_id

datatype send_error = SendClosed | SendNotFound

datatype try_send_error = TryFull | TryClosed

fun display_timer_error :: "timer_error \<Rightarrow> string" where
  "display_timer_error TimerNotFound = ''timer id not found''"
| "display_timer_error ZeroInterval = ''recurring interval must be greater than zero''"

fun display_stream_error :: "stream_error \<Rightarrow> string" where
  "display_stream_error StreamNotFound = ''stream id not found''"

fun display_supervision_error :: "supervision_error \<Rightarrow> string" where
  "display_supervision_error (ChildNotFound c) = ''child `'' @ c @ ''` not found''"
| "display_supervision_error BudgetExhausted = ''restart budget exhausted''"
| "display_supervision_error (FactoryFailed e) = ''factory failed: '' @ e"
| "display_supervision_error SupNotASupervisor =
     ''actor is not configured as a supervisor''"
| "display_supervision_error (ChildRunning c) = ''child `'' @ c @ ''` is running''"
| "display_supervision_error (ChildRestarting c) = ''child `'' @ c @ ''` is restarting''"
| "display_supervision_error (ChildUnresponsive c) =
     ''child `'' @ c @ ''` or an actor it spawned did not end in time''"
| "display_supervision_error SupSupervisorStopping = ''the supervisor is stopping''"

fun display_actor_error :: "actor_error \<Rightarrow> string"
  and display_spawn_error :: "spawn_error \<Rightarrow> string" where
  "display_actor_error (User e) = ''actor logic error: '' @ e"
| "display_actor_error (Panic e) = ''actor panicked: '' @ e"
| "display_actor_error (SpawnErr e) = display_spawn_error e"
| "display_actor_error (TimerErr e) = display_timer_error e"
| "display_actor_error (StreamErr e) = display_stream_error e"
| "display_actor_error (SupervisionErr e) = display_supervision_error e"
| "display_spawn_error MissingRuntime = ''tokio runtime handle not in scope''"
| "display_spawn_error ZeroMailboxCapacity =
     ''mailbox and priority lane capacities must be at least 1, got 0''"
| "display_spawn_error (DuplicateChild c) =
     ''an actor with id `'' @ c @ ''` is already registered''"
| "display_spawn_error (NameTaken n s) =
     ''actor name `'' @ n @ ''` already taken in system `'' @ s @ ''`''"
| "display_spawn_error (SystemNameTaken s) =
     ''actor system `'' @ s @ ''` already exists''"
| "display_spawn_error (SystemShuttingDown s) =
     ''actor system `'' @ s @ ''` is shutting down''"
| "display_spawn_error (Init e) = ''actor failed to initialize: '' @ display_actor_error e"
| "display_spawn_error StartTimeout =
     ''actor did not finish initializing within the start timeout''"
| "display_spawn_error Killed = ''actor was killed before its spawn was answered''"
| "display_spawn_error NotASupervisor = ''actor is not configured as a supervisor''"
| "display_spawn_error SpawnSupervisorStopping = ''the supervisor is stopping''"
| "display_spawn_error (SpawnChildUnresponsive c) =
     ''a previous actor under `'' @ c @ ''`, or one it spawned, did not end in time''"

section \<open>Stop reasons and policies\<close>

datatype stop_reason =
    Graceful
  | ParentRequest
  | Failure actor_error
  | Cancelled
  | ParentKilled
  | Kill

fun display_stop_reason :: "stop_reason \<Rightarrow> string" where
  "display_stop_reason Graceful = ''graceful''"
| "display_stop_reason ParentRequest = ''parent requested''"
| "display_stop_reason (Failure e) = ''failure: '' @ display_actor_error e"
| "display_stop_reason Cancelled = ''cancelled''"
| "display_stop_reason ParentKilled = ''parent killed''"
| "display_stop_reason Kill = ''killed''"

datatype ask_error =
    AskClosed
  | ResponseDropped stop_reason
  | AskActor actor_error
  | AskTimeout bool

datatype actor_status = StInitializing | StRunning | StStopping | StStopped

datatype restart_strategy = OneForOne | OneForAll | RestForOne | SimpleOneForOne

datatype restart_type = Permanent | Transient | Temporary

datatype shutdown = ShutdownKill | ShutdownTimeout duration | ShutdownInfinity

definition default_shutdown :: shutdown where
  "default_shutdown = ShutdownTimeout (secs 5)"

datatype supervision_action =
    RestartInitiated
  | Removed
  | NotSupervised
  | ActionBudgetExhausted
  | SupervisorStopping

datatype stop_child_outcome = ChildStopped | ChildAbsorbed

section \<open>Reports\<close>

record child_event =
  ce_child_id :: actor_id
  ce_child_name :: "string option"
  ce_reason :: stop_reason
  ce_action :: supervision_action

record child_info =
  ci_id :: actor_id
  ci_name :: "string option"
  ci_restart_type :: restart_type
  ci_shutdown :: shutdown
  ci_is_alive :: bool
  ci_restart_pending :: bool

record child_stopped_internal =
  csi_child_id :: actor_id
  csi_reason :: stop_reason
  csi_incarnation :: u64

record child_fate =
  cf_reason :: stop_reason
  cf_incarnation :: u64

section \<open>The value of the status plane\<close>

record status_value =
  sv_status :: actor_status
  sv_reason :: "stop_reason option"
  sv_final_at :: "instant option"

definition status_value_new :: "actor_status \<Rightarrow> status_value" where
  "status_value_new s = \<lparr>sv_status = s, sv_reason = None, sv_final_at = None\<rparr>"

definition reason_or_kill :: "status_value \<Rightarrow> stop_reason" where
  "reason_or_kill v = (case sv_reason v of Some r \<Rightarrow> r | None \<Rightarrow> Kill)"

lemma reason_or_kill_new [simp]: "reason_or_kill (status_value_new s) = Kill"
  by (simp add: reason_or_kill_def status_value_new_def)

end
