(* ===== verification/Turn_Clock.thy ===== *)
theory Turn_Clock
  imports Types
begin

text \<open>
  The per-actor turn clock behind the stuck-turn watchdog (\<open>src/src/types/turn_clock.rs\<close>).
  The clock reads enter as arguments: \<open>epoch\<close> is the process-wide reference point and
  \<open>now\<close> the instant of the read.
\<close>

record turn_clock =
  tc_started :: u64
  tc_threshold_nanos :: u64

definition nanos_since_epoch :: "instant \<Rightarrow> instant \<Rightarrow> u64" where
  "nanos_since_epoch epoch now =
     (let elapsed = saturating_duration_since now epoch
      in if elapsed < 2 ^ 64 then of_nat elapsed else u64_max)"

definition turn_clock_new :: "u64 \<Rightarrow> turn_clock" where
  "turn_clock_new threshold = \<lparr>tc_started = 0, tc_threshold_nanos = threshold\<rparr>"

definition turn_begin :: "instant \<Rightarrow> instant \<Rightarrow> turn_clock \<Rightarrow> turn_clock" where
  "turn_begin epoch now c =
     (if tc_threshold_nanos c = 0 then c
      else c\<lparr>tc_started := saturating_add_u64 (nanos_since_epoch epoch now) 1\<rparr>)"

definition turn_end :: "turn_clock \<Rightarrow> turn_clock" where
  "turn_end c = (if tc_started c \<noteq> 0 then c\<lparr>tc_started := 0\<rparr> else c)"

definition turn_token :: "turn_clock \<Rightarrow> u64" where
  "turn_token c = tc_started c"

definition turn_elapsed :: "instant \<Rightarrow> instant \<Rightarrow> turn_clock \<Rightarrow> duration option" where
  "turn_elapsed epoch now c =
     (let token = turn_token c in
      if token = 0 then None
      else Some (unat (saturating_sub_u64 (nanos_since_epoch epoch now) (token - 1))))"

definition turn_snapshot :: "instant \<Rightarrow> instant \<Rightarrow> turn_clock \<Rightarrow> (u64 \<times> duration) option" where
  "turn_snapshot epoch now c =
     (let token = tc_started c in
      if token = 0 then None
      else Some (token, unat (saturating_sub_u64 (nanos_since_epoch epoch now) (token - 1))))"

lemma unat_nanos_since_epoch:
  "unat (nanos_since_epoch epoch now) = min (nat (now - epoch)) (2 ^ 64 - 1)"
  by (auto simp: nanos_since_epoch_def saturating_duration_since_def Let_def unat_u64_max
      unat_of_nat)

lemma begin_token_nonzero:
  "tc_threshold_nanos c \<noteq> 0 \<Longrightarrow> tc_started (turn_begin epoch now c) \<noteq> 0"
  using unat_saturating_add_u64 [of "nanos_since_epoch epoch now" 1]
  by (auto simp: turn_begin_def)

text \<open>
  A timed turn reports its own length: after \<open>begin\<close> at an instant less than \<open>2 ^ 64 - 1\<close>
  nanoseconds past the epoch, a later read in that range gives exactly the time between the two,
  \<open>snapshot\<close> pairs it with the turn's token, and \<open>end\<close> clears both.  With the
  threshold off, a clock with no turn in flight stays without one.
\<close>

lemma turn_elapsed_exact:
  assumes "epoch \<le> t0" "t0 \<le> t1" "t1 < epoch + (2 ^ 64 - 1)" "tc_threshold_nanos c \<noteq> 0"
  shows "turn_elapsed epoch t1 (turn_begin epoch t0 c) = Some (nat (t1 - t0)) \<and>
    turn_snapshot epoch t1 (turn_begin epoch t0 c) =
      Some (turn_token (turn_begin epoch t0 c), nat (t1 - t0)) \<and>
    turn_elapsed epoch t1 (turn_end (turn_begin epoch t0 c)) = None \<and>
    (tc_started d = 0 \<and> tc_threshold_nanos d = 0 \<longrightarrow>
       turn_elapsed epoch t1 (turn_begin epoch t0 d) = None)"
proof -
  let ?tok = "tc_started (turn_begin epoch t0 c)"
  have tok: "unat ?tok = nat (t0 - epoch) + 1"
    using assms by (simp add: turn_begin_def unat_saturating_add_u64 unat_nanos_since_epoch)
  have nz: "?tok \<noteq> 0"
    using begin_token_nonzero [OF assms(4)] .
  have "unat (?tok - 1) = nat (t0 - epoch)"
    using tok nz by (simp add: unat_minus_one)
  then have "unat (saturating_sub_u64 (nanos_since_epoch epoch t1) (?tok - 1)) = nat (t1 - t0)"
    using assms by (simp add: unat_saturating_sub_u64 unat_nanos_since_epoch)
  then show ?thesis
    using nz by (simp add: turn_elapsed_def turn_snapshot_def turn_token_def turn_end_def
        turn_begin_def [of _ _ d])
qed

end
