(* ===== verification/Stop_Lane.thy ===== *)
theory Stop_Lane
  imports Types
begin

text \<open>
  The stop lane of one actor incarnation (\<open>src/src/types/stop_lane.rs\<close>, with
  the pure decision \<open>lane_accept\<close> of \<open>src/src/actor/supervision/rules.rs\<close>): the
  cell a stop request is raised on, the run loop's receiving half, and the
  single-reader wake slot.

  Every operation of the source is one critical section of the cell's mutex, so
  an operation is one function on the cell and a concurrent execution is
  a sequence of operations (\<open>lane_op\<close>).  The wake-up protocol, where the run loop
  and a raising thread interleave between their critical sections, is the step
  relation \<open>wake_step\<close>.
\<close>

section \<open>Severity and rank\<close>

datatype stop_severity = SevRequested | SevForced | SevKill

fun severity_index :: "stop_severity \<Rightarrow> nat" where
  "severity_index SevRequested = 0"
| "severity_index SevForced = 1"
| "severity_index SevKill = 2"

instantiation stop_severity :: linorder
begin

definition less_eq_stop_severity :: "stop_severity \<Rightarrow> stop_severity \<Rightarrow> bool" where
  "a \<le> b \<longleftrightarrow> severity_index a \<le> severity_index b"

definition less_stop_severity :: "stop_severity \<Rightarrow> stop_severity \<Rightarrow> bool" where
  "a < b \<longleftrightarrow> severity_index a < severity_index b"

instance
proof
  fix a b :: stop_severity
  show "a \<le> b \<Longrightarrow> b \<le> a \<Longrightarrow> a = b"
    by (cases a; cases b) (simp_all add: less_eq_stop_severity_def)
qed (auto simp: less_eq_stop_severity_def less_stop_severity_def)

end

lemmas severity_order = less_eq_stop_severity_def less_stop_severity_def

fun severity_of :: "stop_reason \<Rightarrow> stop_severity" where
  "severity_of Graceful = SevRequested"
| "severity_of ParentRequest = SevRequested"
| "severity_of (Failure _) = SevForced"
| "severity_of ParentKilled = SevForced"
| "severity_of Cancelled = SevForced"
| "severity_of Kill = SevKill"

fun rank :: "stop_reason \<Rightarrow> u8" where
  "rank Graceful = 0"
| "rank Cancelled = 0"
| "rank Kill = 0"
| "rank ParentRequest = 1"
| "rank ParentKilled = 1"
| "rank (Failure _) = 2"

section \<open>The cell\<close>

record lane_state =
  ls_reason :: "stop_reason option"
  ls_generation :: u64
  ls_kill_only :: bool
  ls_sealed :: bool

datatype raise_result = Recorded | Superseded | Refused

record lane_cell =
  lc_state :: lane_state
  lc_version :: u64
  lc_rx_gone :: bool

record raised =
  ra_result :: raise_result
  ra_bumped :: bool
  ra_replaced :: "stop_reason option"

definition lane_accept ::
  "lane_state \<Rightarrow> stop_reason \<Rightarrow> bool \<Rightarrow> raise_result \<times> bool \<times> bool" where
  "lane_accept st new receiver_gone =
     (let kill_only_refuses = (ls_kill_only st \<and> new \<noteq> Kill) in
      if receiver_gone \<or> ls_sealed st \<or> kill_only_refuses then (Refused, False, False)
      else case ls_reason st of
        None \<Rightarrow> (Recorded, True, True)
      | Some stored \<Rightarrow>
          if severity_of new < severity_of stored then (Superseded, False, False)
          else (Recorded,
                severity_of new > severity_of stored \<or> rank new \<ge> rank stored,
                True))"

definition lane_cell_new :: lane_cell where
  "lane_cell_new =
     \<lparr>lc_state = \<lparr>ls_reason = None, ls_generation = 0, ls_kill_only = False, ls_sealed = False\<rparr>,
      lc_version = 0, lc_rx_gone = False\<rparr>"

definition lane_refuses :: "lane_cell \<Rightarrow> stop_reason \<Rightarrow> bool" where
  "lane_refuses c r = (fst (lane_accept (lc_state c) r (lc_rx_gone c)) = Refused)"

definition lane_raise :: "lane_cell \<Rightarrow> stop_reason \<Rightarrow> raised \<times> lane_cell" where
  "lane_raise c r =
     (case lane_accept (lc_state c) r (lc_rx_gone c) of
        (result, store, bump) \<Rightarrow>
          if bump then
            let st = lc_state c;
                st' = st\<lparr>ls_generation := ls_generation st + 1,
                         ls_reason := (if store then Some r else ls_reason st)\<rparr>
            in (\<lparr>ra_result = result, ra_bumped = True,
                 ra_replaced = (if store then ls_reason st else None)\<rparr>,
                c\<lparr>lc_state := st', lc_version := ls_generation st'\<rparr>)
          else (\<lparr>ra_result = result, ra_bumped = False, ra_replaced = None\<rparr>, c))"

definition lane_reason :: "lane_cell \<Rightarrow> stop_reason option" where
  "lane_reason c = ls_reason (lc_state c)"

definition close_to_non_kill :: "lane_cell \<Rightarrow> lane_cell" where
  "close_to_non_kill c = c\<lparr>lc_state := (lc_state c)\<lparr>ls_kill_only := True\<rparr>\<rparr>"

definition lane_seal :: "lane_cell \<Rightarrow> stop_reason option \<times> lane_cell" where
  "lane_seal c =
     (let c' = c\<lparr>lc_state := (lc_state c)\<lparr>ls_sealed := True\<rparr>\<rparr>
      in (ls_reason (lc_state c'), c'))"

definition lane_rx_drop :: "lane_cell \<Rightarrow> lane_cell" where
  "lane_rx_drop c = c\<lparr>lc_rx_gone := True\<rparr>"

text \<open>
  The receiving half: \<open>seen\<close> is the last version marked seen.  \<open>lane_poll_changed\<close> is one
  pass of the loop of \<open>LaneRx::changed\<close>: \<open>None\<close> when it goes on to wait.
\<close>

definition lane_borrow_and_update :: "lane_cell \<Rightarrow> lane_state \<times> u64" where
  "lane_borrow_and_update c = (lc_state c, lc_version c)"

definition lane_has_changed :: "lane_cell \<Rightarrow> u64 \<Rightarrow> bool" where
  "lane_has_changed c seen = (lc_version c \<noteq> seen)"

definition lane_poll_changed :: "lane_cell \<Rightarrow> u64 \<Rightarrow> u64 option" where
  "lane_poll_changed c seen = (if lc_version c \<noteq> seen then Some (lc_version c) else None)"

section \<open>The run loop's wake slot\<close>

type_synonym waker = nat

record wake_slot =
  ws_waker :: "waker option"
  ws_armed :: bool

definition wake_slot_new :: wake_slot where
  "wake_slot_new = \<lparr>ws_waker = None, ws_armed = False\<rparr>"

definition ws_register :: "waker \<Rightarrow> wake_slot \<Rightarrow> wake_slot" where
  "ws_register w s =
     s\<lparr>ws_waker := (if ws_waker s = Some w then ws_waker s else Some w), ws_armed := True\<rparr>"

definition ws_disarm :: "wake_slot \<Rightarrow> wake_slot" where
  "ws_disarm s = s\<lparr>ws_armed := False\<rparr>"

definition ws_wake :: "wake_slot \<Rightarrow> waker option \<times> wake_slot" where
  "ws_wake s = ((if ws_armed s then ws_waker s else None), s\<lparr>ws_armed := False\<rparr>)"

definition ws_clear :: "wake_slot \<Rightarrow> wake_slot" where
  "ws_clear s = s\<lparr>ws_waker := None, ws_armed := False\<rparr>"

text \<open>
  The part of an incarnation's abort block the lane uses: the cell, the run loop's
  slot, and how many times the waiters on the block's notification were notified.
\<close>

record lane_block =
  lb_lane :: lane_cell
  lb_reader :: wake_slot
  lb_signals :: nat

definition stop_lane_new :: "lane_block \<times> u64" where
  "stop_lane_new =
     (\<lparr>lb_lane = lane_cell_new, lb_reader = wake_slot_new, lb_signals = 0\<rparr>, 0)"

text \<open>\<open>StopLane::try_raise\<close>: the answer, the waker it wakes, and the block after it.\<close>

definition try_raise ::
  "lane_block \<Rightarrow> stop_reason \<Rightarrow> raise_result \<times> waker option \<times> lane_block" where
  "try_raise b r =
     (let (rd, c) = lane_raise (lb_lane b) r in
      if ra_bumped rd then
        let (w, s) = ws_wake (lb_reader b)
        in (ra_result rd, w,
            b\<lparr>lb_lane := c, lb_reader := s, lb_signals := lb_signals b + 1\<rparr>)
      else (ra_result rd, None, b\<lparr>lb_lane := c\<rparr>))"

section \<open>Sequences of operations\<close>

datatype lane_op =
    OpRaise stop_reason
  | OpCloseToNonKill
  | OpSeal
  | OpRxDrop

fun lane_step :: "lane_cell \<Rightarrow> lane_op \<Rightarrow> lane_cell" where
  "lane_step c (OpRaise r) = snd (lane_raise c r)"
| "lane_step c OpCloseToNonKill = close_to_non_kill c"
| "lane_step c OpSeal = snd (lane_seal c)"
| "lane_step c OpRxDrop = lane_rx_drop c"

lemmas lane_op_defs =
  lane_raise_def lane_accept_def close_to_non_kill_def lane_seal_def lane_rx_drop_def Let_def

text \<open>
  What a sequence of operations promises, stated without the cell: the requests
  the lane takes are those before it is sealed or its receiver is gone,
  and only \<open>Kill\<close> once it is open to \<open>Kill\<close> only; the pending reason is the
  last of the strongest requests taken.
\<close>

definition strength :: "stop_reason \<Rightarrow> nat" where
  "strength r = 3 * severity_index (severity_of r) + unat (rank r)"

fun taken :: "bool \<Rightarrow> lane_op list \<Rightarrow> stop_reason list" where
  "taken kill_only [] = []"
| "taken kill_only (OpRaise r # ops) =
     (if kill_only \<and> r \<noteq> Kill then taken kill_only ops else r # taken kill_only ops)"
| "taken kill_only (OpCloseToNonKill # ops) = taken True ops"
| "taken kill_only (OpSeal # ops) = []"
| "taken kill_only (OpRxDrop # ops) = []"

definition stronger :: "stop_reason \<Rightarrow> stop_reason option \<Rightarrow> stop_reason" where
  "stronger new old =
     (case old of None \<Rightarrow> new | Some o' \<Rightarrow> if strength o' \<le> strength new then new else o')"

definition strongest :: "stop_reason list \<Rightarrow> stop_reason option" where
  "strongest rs =
     (if rs = [] then None
      else Some (last (filter (\<lambda>r. \<forall>q \<in> set rs. strength q \<le> strength r) rs)))"

lemma strength_le_iff:
  "strength a \<le> strength b \<longleftrightarrow>
     severity_of a < severity_of b \<or> (severity_of a = severity_of b \<and> rank a \<le> rank b)"
  by (cases a; cases b) (simp_all add: strength_def severity_order word_le_nat_alt)

lemma strength_lt_Kill: "r \<noteq> Kill \<Longrightarrow> strength r < strength Kill"
  by (cases r) (simp_all add: strength_def)

lemma strength_le_Kill: "strength r \<le> strength Kill"
  by (cases "r = Kill") (simp_all add: strength_lt_Kill less_imp_le)

section \<open>Behaviour of the operations\<close>

lemma lane_refuses_iff:
  "lane_refuses c r \<longleftrightarrow>
     lc_rx_gone c \<or> ls_sealed (lc_state c) \<or> (ls_kill_only (lc_state c) \<and> r \<noteq> Kill)"
  by (auto simp: lane_refuses_def lane_accept_def Let_def split: option.splits)

lemma lane_raise_refused:
  "lane_refuses c r \<Longrightarrow>
     lane_raise c r = (\<lparr>ra_result = Refused, ra_bumped = False, ra_replaced = None\<rparr>, c)"
  by (auto simp: lane_refuses_iff lane_raise_def lane_accept_def Let_def)

lemma lane_raise_reason:
  "lane_reason (snd (lane_raise c r)) =
     (if lane_refuses c r then lane_reason c else Some (stronger r (lane_reason c)))"
proof (cases "lane_refuses c r")
  case True
  then show ?thesis by (simp add: lane_raise_refused)
next
  case False
  then show ?thesis
    by (auto simp: lane_refuses_iff lane_raise_def lane_accept_def Let_def lane_reason_def
          stronger_def strength_le_iff split: option.splits)
qed

lemma lane_raise_flags [frame_simps]:
  "ls_kill_only (lc_state (snd (lane_raise c r))) = ls_kill_only (lc_state c)"
  "ls_sealed (lc_state (snd (lane_raise c r))) = ls_sealed (lc_state c)"
  "lc_rx_gone (snd (lane_raise c r)) = lc_rx_gone c"
  by (auto simp: lane_raise_def Let_def split: prod.splits)

lemma lane_step_reason [simp]:
  "lane_reason (lane_step c OpCloseToNonKill) = lane_reason c"
  "lane_reason (lane_step c OpSeal) = lane_reason c"
  "lane_reason (lane_step c OpRxDrop) = lane_reason c"
  by (simp_all add: lane_reason_def lane_op_defs)

definition lane_closed :: "lane_cell \<Rightarrow> bool" where
  "lane_closed c \<longleftrightarrow> lc_rx_gone c \<or> ls_sealed (lc_state c)"

lemma lane_step_closed: "lane_closed c \<Longrightarrow> lane_closed (lane_step c e)"
  by (cases e) (auto simp: lane_closed_def frame_simps lane_op_defs)

lemma lane_closed_step_reason:
  "lane_closed c \<Longrightarrow> lane_reason (lane_step c e) = lane_reason c"
  by (cases e) (auto simp: lane_closed_def lane_raise_reason lane_refuses_iff
      simp del: lane_step.simps(2-4))

lemma lane_closed_run_reason:
  "lane_closed c \<Longrightarrow> lane_reason (run lane_step c ops) = lane_reason c"
  by (induction ops arbitrary: c)
    (simp_all add: lane_step_closed lane_closed_step_reason)

lemma strongest_maximal:
  assumes "rs \<noteq> []"
  shows "\<exists>m \<in> set rs. \<forall>q \<in> set rs. strength q \<le> strength m"
proof -
  have "Max (strength ` set rs) \<in> strength ` set rs"
    using assms by (intro Max_in) auto
  then obtain m where "m \<in> set rs" "strength m = Max (strength ` set rs)"
    by auto
  then show ?thesis by (intro bexI [of _ m]) auto
qed

lemma strongest_props:
  assumes "strongest rs = Some m"
  shows "m \<in> set rs" "\<And>q. q \<in> set rs \<Longrightarrow> strength q \<le> strength m"
proof -
  let ?top = "\<lambda>r. \<forall>q \<in> set rs. strength q \<le> strength r"
  have rs: "rs \<noteq> []" and m: "m = last (filter ?top rs)"
    using assms by (auto simp: strongest_def split: if_splits)
  have "filter ?top rs \<noteq> []"
    using strongest_maximal [OF rs] by (auto simp: filter_empty_conv)
  then have "m \<in> set (filter ?top rs)"
    unfolding m by (rule last_in_set)
  then show "m \<in> set rs" "\<And>q. q \<in> set rs \<Longrightarrow> strength q \<le> strength m"
    by auto
qed

lemma strongest_snoc: "strongest (rs @ [r]) = Some (stronger r (strongest rs))"
proof (cases "rs = []")
  case True
  then show ?thesis by (simp add: strongest_def stronger_def)
next
  case False
  then obtain m where m: "strongest rs = Some m"
    by (simp add: strongest_def)
  note mp = strongest_props [OF m]
  show ?thesis
  proof (cases "strength m \<le> strength r")
    case True
    then have "\<forall>q \<in> set rs. strength q \<le> strength r"
      using mp(2) order_trans by blast
    then have "strongest (rs @ [r]) = Some r"
      by (simp add: strongest_def)
    then show ?thesis using True by (simp add: stronger_def m)
  next
    case less: False
    have "strength r \<le> strength q" if "\<forall>p \<in> set rs. strength p \<le> strength q" for q
      using that mp(1) less by (meson le_cases order_trans)
    moreover have "\<not> (\<forall>q \<in> set rs. strength q \<le> strength r)"
      using mp(1) less by blast
    ultimately have "filter (\<lambda>q. \<forall>p \<in> set (rs @ [r]). strength p \<le> strength q) (rs @ [r]) =
        filter (\<lambda>q. \<forall>p \<in> set rs. strength p \<le> strength q) rs"
      by (auto intro!: filter_cong)
    then show ?thesis
      using less m False by (simp add: strongest_def stronger_def split: if_splits)
  qed
qed

lemma fold_stronger:
  "fold (\<lambda>r a. Some (stronger r a)) rs (strongest qs) = strongest (qs @ rs)"
proof (induction rs arbitrary: qs)
  case (Cons r rs)
  have "fold (\<lambda>r a. Some (stronger r a)) (r # rs) (strongest qs) =
      fold (\<lambda>r a. Some (stronger r a)) rs (strongest (qs @ [r]))"
    by (simp add: strongest_snoc)
  then show ?case using Cons.IH [of "qs @ [r]"] by simp
qed simp

lemma lane_run_reason_open:
  "\<not> lane_closed c \<Longrightarrow>
     lane_reason (run lane_step c ops) =
       fold (\<lambda>r a. Some (stronger r a)) (taken (ls_kill_only (lc_state c)) ops) (lane_reason c)"
proof (induction ops arbitrary: c)
  case (Cons e ops)
  show ?case
  proof (cases e)
    case (OpRaise r)
    have "\<not> lane_closed (lane_step c e)"
      using Cons.prems OpRaise by (simp add: lane_closed_def frame_simps)
    note IH = Cons.IH [OF this]
    show ?thesis
      using Cons.prems IH unfolding OpRaise
      by (simp add: frame_simps lane_raise_reason lane_refuses_iff lane_closed_def)
  next
    case OpCloseToNonKill
    have "\<not> lane_closed (lane_step c e)"
      using Cons.prems OpCloseToNonKill by (simp add: lane_closed_def lane_op_defs)
    from Cons.IH [OF this] show ?thesis
      by (simp add: OpCloseToNonKill close_to_non_kill_def lane_reason_def)
  next
    case OpSeal
    have "lane_closed (lane_step c e)"
      by (simp add: OpSeal lane_closed_def lane_op_defs)
    then show ?thesis
      using OpSeal lane_step_reason(2) by (simp add: lane_closed_run_reason del: lane_step.simps)
  next
    case OpRxDrop
    have "lane_closed (lane_step c e)"
      by (simp add: OpRxDrop lane_closed_def lane_op_defs)
    then show ?thesis
      using OpRxDrop lane_step_reason(3) by (simp add: lane_closed_run_reason del: lane_step.simps)
  qed
qed simp

section \<open>Severity never decreases, versions never repeat early\<close>

definition lane_level :: "lane_cell \<Rightarrow> nat" where
  "lane_level c = (case lane_reason c of None \<Rightarrow> 0 | Some r \<Rightarrow> Suc (strength r))"

definition version_follows_generation :: "lane_cell \<Rightarrow> bool" where
  "version_follows_generation c \<longleftrightarrow> lc_version c = ls_generation (lc_state c)"

lemma lane_step_level: "lane_level c \<le> lane_level (lane_step c e)"
proof (cases e)
  case (OpRaise r)
  then show ?thesis
    by (auto simp: lane_level_def lane_raise_reason stronger_def split: option.splits)
qed (auto simp: lane_level_def simp del: lane_step.simps)

lemma lane_step_version:
  "version_follows_generation c \<Longrightarrow> version_follows_generation (lane_step c e)"
  by (cases e) (auto simp: version_follows_generation_def lane_raise_def close_to_non_kill_def
      lane_seal_def lane_rx_drop_def Let_def split: prod.splits)

interpretation lane_mono: monotone_machine lane_step version_follows_generation lane_level
  by unfold_locales (simp_all add: lane_step_level lane_step_version)

lemma version_follows_generation_new [simp]: "version_follows_generation lane_cell_new"
  by (simp add: version_follows_generation_def lane_cell_new_def)

text \<open>How many raises of a sequence the lane answers with \<open>Recorded\<close>.\<close>

fun recorded_count :: "lane_cell \<Rightarrow> lane_op list \<Rightarrow> nat" where
  "recorded_count c [] = 0"
| "recorded_count c (e # ops) =
     (case e of
        OpRaise r \<Rightarrow> if ra_result (fst (lane_raise c r)) = Recorded then 1 else 0
      | _ \<Rightarrow> 0) + recorded_count (lane_step c e) ops"

lemma lane_raise_bumped_iff:
  "ra_bumped (fst (lane_raise c r)) \<longleftrightarrow> ra_result (fst (lane_raise c r)) = Recorded"
  by (auto simp: lane_raise_def lane_accept_def Let_def split: option.splits)

lemma lane_raise_version:
  "version_follows_generation c \<Longrightarrow>
     lc_version (snd (lane_raise c r)) =
       (if ra_bumped (fst (lane_raise c r)) then lc_version c + 1 else lc_version c)"
  by (auto simp: version_follows_generation_def lane_raise_def Let_def split: prod.splits)

lemma lane_run_version:
  "version_follows_generation c \<Longrightarrow>
     lc_version (run lane_step c ops) = lc_version c + of_nat (recorded_count c ops)"
proof (induction ops arbitrary: c)
  case (Cons e ops)
  from Cons.IH [OF lane_step_version [OF Cons.prems]]
  have "lc_version (run lane_step c (e # ops)) =
      lc_version (lane_step c e) + of_nat (recorded_count (lane_step c e) ops)"
    by simp
  then show ?case
    using Cons.prems
    by (cases e) (simp_all add: lane_raise_version lane_raise_bumped_iff
        close_to_non_kill_def lane_seal_def lane_rx_drop_def Let_def)
qed simp

lemma add_of_nat_neq_iff:
  "n < 2 ^ 64 \<Longrightarrow> (v :: u64) + of_nat n \<noteq> v \<longleftrightarrow> 0 < n"
proof -
  assume n: "n < 2 ^ 64"
  have "of_nat n = (0 :: u64) \<longleftrightarrow> n = 0"
    using n by (auto simp: word_of_nat_eq_0_iff dest: dvd_imp_le)
  then show ?thesis by simp
qed

lemma lane_step_refuses: "lane_refuses c r \<Longrightarrow> lane_refuses (lane_step c e) r"
  by (cases e) (auto simp: lane_refuses_iff frame_simps close_to_non_kill_def lane_seal_def
      lane_rx_drop_def Let_def)

interpretation lane_refusing: invariant_machine lane_step "\<lambda>c. lane_refuses c r" for r
  by unfold_locales (rule lane_step_refuses)

section \<open>The wake-up protocol\<close>

text \<open>
  The run loop waits on the lane through \<open>LaneChanged\<close> (\<open>src/src/actor/runtime.rs\<close>):
  it reads the version, registers its waker, reads the version again, and only
  then sleeps.  A raise writes the cell in one critical section and wakes the slot after it,
  so other steps may come between.  \<open>ws_pending\<close> counts the raises that moved
  the version and have still to wake the slot.
\<close>

datatype loop_pc = LoopBusy | LoopPolled | LoopRegistered | LoopAsleep

record wake_state =
  wk_cell :: lane_cell
  wk_slot :: wake_slot
  wk_seen :: u64
  wk_pc :: loop_pc
  wk_woken :: bool
  wk_pending :: nat

definition lane_unseen :: "wake_state \<Rightarrow> bool" where
  "lane_unseen s = lane_has_changed (wk_cell s) (wk_seen s)"

definition wake_init :: wake_state where
  "wake_init = \<lparr>wk_cell = lane_cell_new, wk_slot = wake_slot_new, wk_seen = 0,
     wk_pc = LoopBusy, wk_woken = False, wk_pending = 0\<rparr>"

text \<open>
  A ready poll drops the future, which disarms the slot, and the branch marks the version
  it reads as seen.  Another branch of the select that is ready drops the future too.
\<close>

inductive wake_step :: "wake_state \<Rightarrow> wake_state \<Rightarrow> bool" where
  poll_ready:
    "wk_pc s = LoopBusy \<Longrightarrow> lane_unseen s \<Longrightarrow>
     wake_step s (s\<lparr>wk_slot := ws_disarm (wk_slot s),
                    wk_seen := snd (lane_borrow_and_update (wk_cell s))\<rparr>)"
| poll_unchanged:
    "wk_pc s = LoopBusy \<Longrightarrow> \<not> lane_unseen s \<Longrightarrow>
     wake_step s (s\<lparr>wk_pc := LoopPolled\<rparr>)"
| poll_register:
    "wk_pc s = LoopPolled \<Longrightarrow>
     wake_step s (s\<lparr>wk_slot := ws_register w (wk_slot s), wk_pc := LoopRegistered\<rparr>)"
| recheck_ready:
    "wk_pc s = LoopRegistered \<Longrightarrow> lane_unseen s \<Longrightarrow>
     wake_step s (s\<lparr>wk_slot := ws_disarm (wk_slot s),
                    wk_seen := snd (lane_borrow_and_update (wk_cell s)), wk_pc := LoopBusy\<rparr>)"
| recheck_pending:
    "wk_pc s = LoopRegistered \<Longrightarrow> \<not> lane_unseen s \<Longrightarrow>
     wake_step s (s\<lparr>wk_pc := LoopAsleep\<rparr>)"
| repoll:
    "wk_pc s = LoopAsleep \<Longrightarrow> wk_woken s \<Longrightarrow>
     wake_step s (s\<lparr>wk_woken := False, wk_pc := LoopBusy\<rparr>)"
| other_branch:
    "wk_pc s = LoopAsleep \<Longrightarrow>
     wake_step s (s\<lparr>wk_slot := ws_disarm (wk_slot s), wk_pc := LoopBusy\<rparr>)"
| raise_write:
    "lane_raise (wk_cell s) r = (rd, c) \<Longrightarrow>
     wake_step s (s\<lparr>wk_cell := c,
                    wk_pending := wk_pending s + (if ra_bumped rd then 1 else 0)\<rparr>)"
| raise_wake:
    "0 < wk_pending s \<Longrightarrow> ws_wake (wk_slot s) = (w, slot) \<Longrightarrow>
     wake_step s (s\<lparr>wk_slot := slot, wk_woken := (wk_woken s \<or> w \<noteq> None),
                    wk_pending := wk_pending s - 1\<rparr>)"

inductive_cases wake_stepE: "wake_step s s'"

definition wake_reachable :: "wake_state \<Rightarrow> bool" where
  "wake_reachable s \<longleftrightarrow> wake_step\<^sup>*\<^sup>* wake_init s"

definition wake_inv :: "wake_state \<Rightarrow> bool" where
  "wake_inv s \<longleftrightarrow>
     (wk_pc s \<in> {LoopRegistered, LoopAsleep} \<and> \<not> wk_woken s \<longrightarrow>
        ws_armed (wk_slot s) \<and> ws_waker (wk_slot s) \<noteq> None) \<and>
     (wk_pc s = LoopAsleep \<and> \<not> wk_woken s \<and> lane_unseen s \<longrightarrow> 0 < wk_pending s)"

lemma wake_inv_init: "wake_inv wake_init"
  by (simp add: wake_inv_def wake_init_def)

lemma lane_unseen_raise_unbumped:
  assumes "lane_raise c r = (rd, c')" "\<not> ra_bumped rd"
  shows "c' = c"
  using assms by (auto simp: lane_raise_def Let_def split: prod.splits if_splits)

lemma wake_inv_step:
  assumes "wake_step s s'" "wake_inv s"
  shows "wake_inv s'"
  using assms
proof cases
  case (raise_write r rd c)
  then show ?thesis
    using assms(2) lane_unseen_raise_unbumped [OF raise_write(2)]
    by (cases "ra_bumped rd") (auto simp: wake_inv_def lane_unseen_def)
qed (auto simp: wake_inv_def lane_unseen_def ws_disarm_def ws_register_def ws_wake_def)

lemma wake_reachable_inv: "wake_reachable s \<Longrightarrow> wake_inv s"
  unfolding wake_reachable_def
  by (induction rule: rtranclp_induct) (auto intro: wake_inv_init wake_inv_step)

section \<open>Properties of the lane\<close>

text \<open>
  C30.  The reason pending on a lane, after any interleaving of raises with its closing to
  \<open>Kill\<close> only, its sealing and the drop of its receiver, is the last of the strongest
  requests the lane took; nothing but the order of the operations decides it.
\<close>

theorem lane_reason_is_strongest_taken:
  "lane_reason (run lane_step lane_cell_new ops) = strongest (taken False ops)"
proof -
  have "lane_reason lane_cell_new = strongest []"
    by (simp add: lane_reason_def lane_cell_new_def strongest_def)
  moreover have "\<not> lane_closed lane_cell_new" "\<not> ls_kill_only (lc_state lane_cell_new)"
    by (simp_all add: lane_closed_def lane_cell_new_def)
  ultimately show ?thesis
    using fold_stronger [of "taken False ops" "[]"] by (simp add: lane_run_reason_open)
qed

text \<open>
  A refusal is final: a lane that refuses a request refuses it after every later
  operation, and each such later raise leaves the cell as it is.
\<close>

lemma lane_refusal_is_final:
  assumes "lane_refuses c r"
  shows "lane_refuses (run lane_step c ops) r \<and>
    snd (lane_raise (run lane_step c ops) r) = run lane_step c ops"
proof -
  have "lane_refuses (run lane_step c ops) r"
    using assms by (rule lane_refusing.run_inv)
  then show ?thesis by (simp add: lane_raise_refused)
qed

text \<open>
  The severity of the pending reason never decreases, whatever operations follow; in
  particular a pending \<open>Kill\<close> is never displaced.
\<close>

theorem lane_severity_monotone:
  assumes "version_follows_generation c" "lane_reason c = Some r"
  shows "\<exists>r'. lane_reason (run lane_step c ops) = Some r' \<and> severity_of r \<le> severity_of r' \<and>
    (r = Kill \<longrightarrow> r' = Kill)"
proof -
  have "lane_level c \<le> lane_level (run lane_step c ops)"
    by (rule lane_mono.run_level [OF assms(1)])
  then obtain r' where r': "lane_reason (run lane_step c ops) = Some r'"
    and le: "strength r \<le> strength r'"
    using assms(2) by (auto simp: lane_level_def split: option.splits)
  moreover have "severity_of r \<le> severity_of r'"
    using le by (auto simp: strength_le_iff)
  moreover have "r = Kill \<Longrightarrow> r' = Kill"
    using le strength_lt_Kill [of r'] by auto
  ultimately show ?thesis by blast
qed

text \<open>
  The receiver's unlocked version check is exact: a receiver that marked the current
  version seen finds a change after a sequence of operations exactly when some raise in it was
  recorded, as long as fewer than \<open>2 ^ 64\<close> were (where the wrapping generation returns to the
  value seen).
\<close>

theorem lane_has_changed_exact:
  assumes "version_follows_generation c" "recorded_count c ops < 2 ^ 64"
  shows "lane_has_changed (run lane_step c ops) (snd (lane_borrow_and_update c)) \<longleftrightarrow>
    0 < recorded_count c ops"
  using add_of_nat_neq_iff [OF assms(2)]
  by (simp add: lane_has_changed_def lane_borrow_and_update_def lane_run_version [OF assms(1)])

text \<open>
  C31.  No stop request is lost to a sleeping run loop: in every reachable interleaving of the
  loop's polls with raises, a loop that sleeps on its lane while the lane carries an unseen
  version has either been woken already or its slot is armed with its waker and a raise is still to wake it.
\<close>

theorem no_lost_stop_wakeup:
  assumes "wake_reachable s" "wk_pc s = LoopAsleep" "lane_unseen s"
  shows "wk_woken s \<or>
    (ws_armed (wk_slot s) \<and> ws_waker (wk_slot s) \<noteq> None \<and> 0 < wk_pending s)"
  using wake_reachable_inv [OF assms(1)] assms(2,3) by (auto simp: wake_inv_def)

lemma wake_reachable_asleep_raised:
  defines "s1 \<equiv> wake_init\<lparr>wk_pc := LoopPolled\<rparr>"
  defines "s2 \<equiv> s1\<lparr>wk_slot := ws_register 7 (wk_slot s1), wk_pc := LoopRegistered\<rparr>"
  defines "s3 \<equiv> s2\<lparr>wk_pc := LoopAsleep\<rparr>"
  defines "s4 \<equiv> s3\<lparr>wk_cell := snd (lane_raise (wk_cell s3) Graceful), wk_pending := 1\<rparr>"
  shows "wake_reachable s4 \<and> wk_pc s4 = LoopAsleep \<and> lane_unseen s4"
proof -
  have "wake_step wake_init s1"
    unfolding s1_def
    by (rule poll_unchanged) (simp_all add: wake_init_def lane_unseen_def lane_has_changed_def
        lane_cell_new_def)
  moreover have "wake_step s1 s2"
    unfolding s2_def by (rule poll_register) (simp add: s1_def)
  moreover have "wake_step s2 s3"
    unfolding s3_def
    by (rule recheck_pending) (simp_all add: s2_def s1_def wake_init_def lane_unseen_def
        lane_has_changed_def lane_cell_new_def)
  moreover have "wake_step s3 s4"
    using raise_write [of s3 Graceful "fst (lane_raise (wk_cell s3) Graceful)"
        "snd (lane_raise (wk_cell s3) Graceful)"]
    by (simp add: s4_def s3_def s2_def s1_def wake_init_def lane_op_defs lane_cell_new_def)
  ultimately have "wake_step\<^sup>*\<^sup>* wake_init s4"
    by (meson rtranclp.rtrancl_into_rtrancl rtranclp.rtrancl_refl)
  then show ?thesis
    by (simp add: wake_reachable_def s4_def s3_def s2_def s1_def wake_init_def lane_unseen_def
        lane_has_changed_def lane_op_defs lane_cell_new_def)
qed

theorem no_lost_stop_wakeup_witness:
  "\<exists>s. wake_reachable s \<and> wk_pc s = LoopAsleep \<and> lane_unseen s \<and>
     (wk_woken s \<or> (ws_armed (wk_slot s) \<and> ws_waker (wk_slot s) \<noteq> None \<and> 0 < wk_pending s))"
  using wake_reachable_asleep_raised no_lost_stop_wakeup by blast

end
