(* ===== verification/Status_Plane.thy ===== *)
theory Status_Plane
  imports Types
begin

unbundle bit_operations_syntax

text \<open>
  The status plane of one incarnation (\<open>src/src/types/status_cell.rs\<close>), with the
  writes the crate makes on it: the lifecycle status, the final reason, and
  the terminal \<open>Stopped\<close> (\<open>types/mod.rs\<close>, \<open>actor/context.rs\<close>, \<open>actor/runtime.rs\<close>).

  The plane packs its version and its closed bit in one 64-bit word, mirrors
  the status in a byte, and counts its senders in a 32-bit word; all four
  are kept at their width.  An operation is one critical section (or one atomic
  read-modify-write), and an execution is a sequence of operations.
\<close>

section \<open>The cell\<close>

definition CLOSED :: u64 where
  "CLOSED = 1"

definition VERSION_STEP :: u64 where
  "VERSION_STEP = 2"

fun encode :: "actor_status \<Rightarrow> u8" where
  "encode StInitializing = 0"
| "encode StRunning = 1"
| "encode StStopping = 2"
| "encode StStopped = 3"

definition decode :: "u8 \<Rightarrow> actor_status" where
  "decode b =
     (if b = 0 then StInitializing
      else if b = 1 then StRunning
      else if b = 2 then StStopping
      else StStopped)"

record status_cell =
  sc_value :: status_value
  sc_state :: u64
  sc_senders :: u32
  sc_mirror :: u8

definition status_cell_new :: status_cell where
  "status_cell_new =
     \<lparr>sc_value = status_value_new StInitializing, sc_state = 0, sc_senders = 0,
      sc_mirror = encode StInitializing\<rparr>"

definition cell_load :: "status_cell \<Rightarrow> u64 \<times> bool" where
  "cell_load c = (sc_state c div VERSION_STEP, sc_state c AND CLOSED \<noteq> 0)"

abbreviation cell_version :: "status_cell \<Rightarrow> u64" where
  "cell_version c \<equiv> fst (cell_load c)"

abbreviation cell_closed :: "status_cell \<Rightarrow> bool" where
  "cell_closed c \<equiv> snd (cell_load c)"

section \<open>The sending half\<close>

text \<open>\<open>AbortRecord::status_channel\<close>: the first sender, and the version its receiver has seen.\<close>

definition status_subscribe :: "status_cell \<Rightarrow> u64" where
  "status_subscribe c = fst (cell_load c)"

definition status_channel :: "status_cell \<Rightarrow> u64 \<times> status_cell" where
  "status_channel c =
     (let c' = c\<lparr>sc_senders := sc_senders c + 1\<rparr> in (status_subscribe c', c'))"

definition status_tx_clone :: "status_cell \<Rightarrow> status_cell" where
  "status_tx_clone c = c\<lparr>sc_senders := sc_senders c + 1\<rparr>"

text \<open>\<open>StatusTx::drop\<close>; the flag says whether the waiters are woken.\<close>

definition status_tx_drop :: "status_cell \<Rightarrow> bool \<times> status_cell" where
  "status_tx_drop c =
     (let c' = c\<lparr>sc_senders := sc_senders c - 1\<rparr> in
      if sc_senders c = 1 then (True, c'\<lparr>sc_state := sc_state c' OR CLOSED\<rparr>)
      else (False, c'))"

definition status_read :: "status_cell \<Rightarrow> actor_status" where
  "status_read c = decode (sc_mirror c)"

text \<open>
  \<open>StatusTx::send_if_modified\<close>: \<open>modify\<close> gives the new value and whether it is one; the
  returned flag is that answer, and the waiters are woken exactly when it is set.
\<close>

definition send_if_modified ::
  "(status_value \<Rightarrow> bool \<times> status_value) \<Rightarrow> status_cell \<Rightarrow> bool \<times> status_cell" where
  "send_if_modified modify c =
     (case modify (sc_value c) of
        (modified, v) \<Rightarrow>
          (modified,
           c\<lparr>sc_value := v, sc_mirror := encode (sv_status v),
             sc_state := (if modified then sc_state c + VERSION_STEP else sc_state c)\<rparr>))"

definition write_reason ::
  "instant \<Rightarrow> stop_reason \<Rightarrow> bool \<Rightarrow> status_cell \<Rightarrow> bool \<times> status_cell" where
  "write_reason now r stopped =
     send_if_modified (\<lambda>v.
       if sv_reason v \<noteq> None then (False, v)
       else (True, v\<lparr>sv_reason := Some r, sv_final_at := Some now,
                     sv_status := (if stopped then StStopped else sv_status v)\<rparr>))"

definition set_status :: "actor_status \<Rightarrow> status_cell \<Rightarrow> status_cell" where
  "set_status s c = snd (send_if_modified (\<lambda>v. (True, v\<lparr>sv_status := s\<rparr>)) c)"

definition write_final_reason :: "instant \<Rightarrow> stop_reason \<Rightarrow> status_cell \<Rightarrow> status_cell" where
  "write_final_reason now r c = snd (write_reason now r False c)"

definition publish_stopped :: "status_cell \<Rightarrow> status_cell" where
  "publish_stopped c = snd (send_if_modified (\<lambda>v. (True, v\<lparr>sv_status := StStopped\<rparr>)) c)"

text \<open>The abort guard's drop (\<open>AbortReason\<close>): writes its reason unless one is written.\<close>

definition abort_reason_drop :: "instant \<Rightarrow> stop_reason \<Rightarrow> status_cell \<Rightarrow> status_cell" where
  "abort_reason_drop now r c =
     (if sv_reason (sc_value c) \<noteq> None then c else snd (write_reason now r False c))"

section \<open>The reading half\<close>

definition status_has_changed :: "status_cell \<Rightarrow> u64 \<Rightarrow> bool option" where
  "status_has_changed c seen =
     (case cell_load c of (version, closed) \<Rightarrow>
        if closed then None else Some (version \<noteq> seen))"

text \<open>\<open>maybe_changed\<close>: \<open>Some True\<close> for a version not seen, \<open>Some False\<close> for a closed plane.\<close>

definition maybe_changed :: "status_cell \<Rightarrow> u64 \<Rightarrow> bool option \<times> u64" where
  "maybe_changed c seen =
     (case cell_load c of (version, closed) \<Rightarrow>
        if seen \<noteq> version then (Some True, version)
        else if closed then (Some False, seen)
        else (None, seen))"

text \<open>
  The two waits read the plane again after each notification.  They are run on the list of
  the plane's states at their successive reads, and are \<open>None\<close> while the list
  ends before an answer: the wait goes on.
\<close>

fun changed_impl :: "status_cell list \<Rightarrow> u64 \<Rightarrow> (bool \<times> u64 \<times> status_cell list) option" where
  "changed_impl [] seen = None"
| "changed_impl (c # cs) seen =
     (case maybe_changed c seen of
        (Some answer, seen') \<Rightarrow> Some (answer, seen', cs)
      | (None, _) \<Rightarrow> changed_impl cs seen)"

lemma changed_impl_length:
  "changed_impl cs seen = Some (a, seen', cs') \<Longrightarrow> length cs' < length cs"
  by (induction cs seen rule: changed_impl.induct) (auto split: prod.splits option.splits)

function wait_for_impl ::
  "(status_value \<Rightarrow> bool) \<Rightarrow> bool \<Rightarrow> status_cell list \<Rightarrow> u64 \<Rightarrow> bool option" where
  "wait_for_impl accept closed [] seen = None"
| "wait_for_impl accept closed (c # cs) seen =
     (let version = fst (cell_load c);
          unseen = (seen \<noteq> version)
      in if (\<not> closed \<or> unseen) \<and> accept (sc_value c) then Some True
         else if closed then Some False
         else case changed_impl cs version of
             None \<Rightarrow> None
           | Some (ok, seen', cs') \<Rightarrow> wait_for_impl accept (\<not> ok) cs' seen')"
  by pat_completeness auto

termination
  by (relation "measure (\<lambda>(accept, closed, cs, seen). length cs)")
    (auto dest: changed_impl_length)

section \<open>Sequences of operations\<close>

datatype plane_op =
    PlaneClone
  | PlaneDrop
  | PlaneSetStatus actor_status
  | PlaneWriteReason instant stop_reason bool
  | PlanePublishStopped
  | PlaneAbortReason instant stop_reason

fun plane_step :: "status_cell \<Rightarrow> plane_op \<Rightarrow> status_cell" where
  "plane_step c PlaneClone = status_tx_clone c"
| "plane_step c PlaneDrop = snd (status_tx_drop c)"
| "plane_step c (PlaneSetStatus s) = set_status s c"
| "plane_step c (PlaneWriteReason now r stopped) = snd (write_reason now r stopped c)"
| "plane_step c PlanePublishStopped = publish_stopped c"
| "plane_step c (PlaneAbortReason now r) = abort_reason_drop now r c"

lemmas plane_op_defs =
  status_tx_clone_def status_tx_drop_def set_status_def write_reason_def send_if_modified_def
  publish_stopped_def abort_reason_drop_def write_final_reason_def Let_def

section \<open>Behaviour of the operations\<close>

lemma decode_encode [simp]: "decode (encode s) = s"
  by (cases s) (simp_all add: decode_def)

lemma plane_step_keeps_reason:
  "sv_reason (sc_value c) = Some r \<Longrightarrow>
     sv_reason (sc_value (plane_step c e)) = Some r \<and>
     sv_final_at (sc_value (plane_step c e)) = sv_final_at (sc_value c)"
  by (cases e) (auto simp: plane_op_defs)

text \<open>The reason and instant of the first write of a reason in a sequence.\<close>

fun first_reason :: "plane_op list \<Rightarrow> (instant \<times> stop_reason) option" where
  "first_reason [] = None"
| "first_reason (PlaneWriteReason now r stopped # ops) = Some (now, r)"
| "first_reason (PlaneAbortReason now r # ops) = Some (now, r)"
| "first_reason (_ # ops) = first_reason ops"

lemma plane_run_keeps_reason:
  "sv_reason (sc_value c) = Some r \<Longrightarrow>
     sv_reason (sc_value (run plane_step c ops)) = Some r \<and>
     sv_final_at (sc_value (run plane_step c ops)) = sv_final_at (sc_value c)"
proof (induction ops arbitrary: c)
  case (Cons e ops)
  then show ?case using plane_step_keeps_reason [of c r e] by simp
qed simp

lemma plane_run_first_reason:
  assumes "sv_reason (sc_value c) = None" "sv_final_at (sc_value c) = None"
  shows "sv_reason (sc_value (run plane_step c ops)) = map_option snd (first_reason ops) \<and>
    sv_final_at (sc_value (run plane_step c ops)) = map_option fst (first_reason ops)"
  using assms
proof (induction ops arbitrary: c rule: first_reason.induct)
  case (2 now r stopped ops)
  let ?c = "plane_step c (PlaneWriteReason now r stopped)"
  have "sv_reason (sc_value ?c) = Some r" "sv_final_at (sc_value ?c) = Some now"
    using 2 by (simp_all add: plane_op_defs)
  then show ?case using plane_run_keeps_reason [of ?c r ops] by simp
next
  case (3 now r ops)
  let ?c = "plane_step c (PlaneAbortReason now r)"
  have "sv_reason (sc_value ?c) = Some r" "sv_final_at (sc_value ?c) = Some now"
    using 3 by (simp_all add: plane_op_defs)
  then show ?case using plane_run_keeps_reason [of ?c r ops] by simp
qed (simp_all add: plane_op_defs)

text \<open>
  What the packed words mean: \<open>live\<close> senders and \<open>writes\<close> modifying writes so far.
\<close>

definition plane_rel :: "status_cell \<Rightarrow> nat \<Rightarrow> nat \<Rightarrow> bool" where
  "plane_rel c live writes \<longleftrightarrow>
     sc_senders c = of_nat live \<and>
     sc_state c = of_nat (2 * writes + (if live = 0 then 1 else 0)) \<and>
     sc_mirror c = encode (sv_status (sc_value c))"

definition plane_modifies :: "status_cell \<Rightarrow> plane_op \<Rightarrow> bool" where
  "plane_modifies c e =
     (case e of
        PlaneClone \<Rightarrow> False
      | PlaneDrop \<Rightarrow> False
      | PlaneSetStatus _ \<Rightarrow> True
      | PlanePublishStopped \<Rightarrow> True
      | _ \<Rightarrow> sv_reason (sc_value c) = None)"

fun plane_writes :: "status_cell \<Rightarrow> plane_op list \<Rightarrow> nat" where
  "plane_writes c [] = 0"
| "plane_writes c (e # ops) =
     (if plane_modifies c e then 1 else 0) + plane_writes (plane_step c e) ops"

text \<open>
  The senders left after a sequence in which every operation is made through a live sender;
  \<open>None\<close> when some operation is not.
\<close>

fun live_step :: "nat \<Rightarrow> plane_op \<Rightarrow> nat" where
  "live_step n PlaneClone = n + 1"
| "live_step n PlaneDrop = n - 1"
| "live_step n _ = n"

fun live_after :: "nat \<Rightarrow> plane_op list \<Rightarrow> nat option" where
  "live_after n [] = Some n"
| "live_after n (e # ops) = (if n = 0 then None else live_after (live_step n e) ops)"

lemma of_nat_u32_eq_1_iff: "n < 2 ^ 32 \<Longrightarrow> (of_nat n :: u32) = 1 \<longleftrightarrow> n = 1"
  by (simp add: word_of_nat_eq_iff [of n 1, simplified] take_bit_nat_eq_self)

lemma even_or_1: "(2 * w) OR 1 = (2 * w + 1 :: u64)"
  by (simp add: or_one_eq)

lemma plane_rel_step:
  assumes rel: "plane_rel c n w" and n: "0 < n" "n < 2 ^ 32"
  shows "plane_rel (plane_step c e) (live_step n e) (w + (if plane_modifies c e then 1 else 0))"
proof (cases e)
  case PlaneDrop
  have one: "sc_senders c = 1 \<longleftrightarrow> n = 1"
    using rel of_nat_u32_eq_1_iff [OF n(2)] by (simp add: plane_rel_def)
  have "of_nat (n - 1) = (of_nat n - 1 :: u32)"
    using n(1) by (simp add: of_nat_diff)
  then show ?thesis
    using rel n one
    by (auto simp: plane_rel_def PlaneDrop status_tx_drop_def Let_def plane_modifies_def
        CLOSED_def even_or_1)
qed (use rel n in \<open>simp_all add: plane_rel_def plane_op_defs plane_modifies_def VERSION_STEP_def\<close>)

lemma live_after_bound: "live_after n ops = Some m \<Longrightarrow> m \<le> n + length ops"
proof (induction ops arbitrary: n)
  case (Cons e ops)
  then have "live_after (live_step n e) ops = Some m"
    by (simp split: if_splits)
  then have "m \<le> live_step n e + length ops"
    by (rule Cons.IH)
  then show ?case by (cases e) simp_all
qed simp

lemma plane_rel_run:
  assumes "plane_rel c n w" "live_after n ops = Some m" "n + length ops < 2 ^ 32"
  shows "plane_rel (run plane_step c ops) m (w + plane_writes c ops)"
  using assms
proof (induction ops arbitrary: c n w)
  case (Cons e ops)
  have n: "0 < n" "live_after (live_step n e) ops = Some m" "n < 2 ^ 32"
    using Cons.prems by (auto split: if_splits)
  moreover have "live_step n e + length ops < 2 ^ 32"
    using Cons.prems(3) by (cases e) auto
  ultimately show ?case
    using Cons.IH [OF plane_rel_step [OF Cons.prems(1) n(1) n(3)]] by (simp add: add.assoc)
qed simp

lemma plane_writes_le: "plane_writes c ops \<le> length ops"
proof (induction ops arbitrary: c)
  case (Cons e ops)
  then show ?case using Cons.IH [of "plane_step c e"] by (simp add: le_SucI)
qed simp

lemma plane_rel_load:
  assumes "plane_rel c n w" "w < 2 ^ 62"
  shows "unat (cell_version c) = w" "cell_closed c \<longleftrightarrow> n = 0" "status_read c = sv_status (sc_value c)"
proof -
  let ?k = "2 * w + (if n = 0 then 1 else 0)"
  have k: "?k < 2 ^ 64" using assms(2) by simp
  have st: "sc_state c = of_nat ?k" using assms(1) by (simp add: plane_rel_def)
  have u: "unat (sc_state c) = ?k"
    unfolding st unat_of_nat using k by (simp only: mod_less len_bit0 len_num1) simp
  show "unat (cell_version c) = w"
    by (simp add: cell_load_def unat_div VERSION_STEP_def u)
  have "sc_state c AND 1 = of_bool (odd (sc_state c))"
    by (simp add: and_one_eq mod_2_eq_odd)
  moreover have "odd (sc_state c) \<longleftrightarrow> n = 0"
    unfolding st by simp
  ultimately show "cell_closed c \<longleftrightarrow> n = 0"
    by (simp add: cell_load_def CLOSED_def)
  show "status_read c = sv_status (sc_value c)"
    using assms(1) by (simp add: plane_rel_def status_read_def)
qed

lemma plane_rel_channel: "plane_rel (snd (status_channel status_cell_new)) 1 0"
  by (simp add: plane_rel_def status_channel_def status_cell_new_def status_value_new_def Let_def)

section \<open>The waits\<close>

text \<open>The plane at the operations \<open>ks\<close> of a sequence: what successive reads of a wait find.\<close>

definition plane_reads :: "plane_op list \<Rightarrow> nat list \<Rightarrow> status_cell list" where
  "plane_reads ops ks =
     map (\<lambda>k. run plane_step (snd (status_channel status_cell_new)) (take k ops)) ks"

text \<open>
  What a wait relies on: a version names one value, and a closed plane does not change.
\<close>

fun steady :: "status_cell list \<Rightarrow> bool" where
  "steady [] = True"
| "steady (c # cs) \<longleftrightarrow>
     (\<forall>d \<in> set cs. cell_version d = cell_version c \<longrightarrow> sc_value d = sc_value c) \<and>
     (cell_closed c \<longrightarrow> (\<forall>d \<in> set cs. c = d)) \<and> steady cs"

lemma changed_impl_suffix:
  "changed_impl cs seen = Some (ok, seen', cs') \<Longrightarrow>
     \<exists>pre d. cs = pre @ d # cs' \<and> seen' = cell_version d \<and>
       (\<not> ok \<longrightarrow> cell_closed d \<and> cell_version d = seen)"
proof (induction cs seen rule: changed_impl.induct)
  case (2 c cs seen)
  show ?case
  proof (cases "fst (maybe_changed c seen)")
    case None
    then have "changed_impl cs seen = Some (ok, seen', cs')"
      using 2(2) by (auto split: prod.splits option.splits)
    then obtain pre d where "cs = pre @ d # cs'" "seen' = cell_version d"
      "\<not> ok \<longrightarrow> cell_closed d \<and> cell_version d = seen"
      using 2(1) [OF _ None] by (metis prod.collapse)
    then show ?thesis by (intro exI [of _ "c # pre"] exI [of _ d]) simp
  next
    case (Some a)
    then show ?thesis
      using 2(2) by (intro exI [of _ "[]"] exI [of _ c])
        (auto simp: maybe_changed_def split: prod.splits option.splits if_splits)
  qed
qed simp

lemma steady_append: "steady (xs @ ys) \<Longrightarrow> steady ys"
  by (induction xs) auto

lemma steady_later:
  "steady (c # xs @ d # ys) \<Longrightarrow> cell_version d = cell_version c \<Longrightarrow> sc_value d = sc_value c"
  by simp

lemma wait_for_rejects:
  "steady cs \<Longrightarrow> wait_for_impl accept closed cs seen = Some False \<Longrightarrow>
     (closed \<Longrightarrow> \<exists>d. cell_closed d \<and> \<not> accept (sc_value d) \<and> (\<forall>c \<in> set cs. d = c)) \<Longrightarrow>
     \<exists>d. cell_closed d \<and> \<not> accept (sc_value d) \<and> (closed \<or> d \<in> set cs)"
proof (induction accept closed cs seen rule: wait_for_impl.induct)
  case (2 accept closed c cs seen)
  show ?case
  proof (cases closed)
    case True
    then show ?thesis using 2(4) by blast
  next
    case False
    then have rej: "\<not> accept (sc_value c)"
      using 2(3) by (auto simp: Let_def split: if_splits)
    obtain ok seen' cs' where ch: "changed_impl cs (cell_version c) = Some (ok, seen', cs')"
      and rest: "wait_for_impl accept (\<not> ok) cs' seen' = Some False"
      using 2(3) False rej by (auto simp: Let_def split: option.splits)
    obtain pre d where cs: "cs = pre @ d # cs'"
      and bad: "\<not> ok \<longrightarrow> cell_closed d \<and> cell_version d = cell_version c"
      using changed_impl_suffix [OF ch] by blast
    have "steady ((c # pre @ [d]) @ cs')"
      using 2(2) cs by (simp only: append_Cons append_assoc append_Nil)
    then have st: "steady cs'"
      by (rule steady_append)
    have d_rej: "\<not> accept (sc_value d)" if "\<not> ok"
      using steady_later [OF 2(2) [unfolded cs]] bad that rej by (simp only:) simp
    show ?thesis
    proof (cases ok)
      case True
      then have "\<exists>d. cell_closed d \<and> \<not> accept (sc_value d) \<and> (\<not> ok \<or> d \<in> set cs')"
        using False rej by (intro 2(1) [OF refl refl _ _ ch refl refl st rest]) simp_all
      then show ?thesis using cs True by auto
    next
      case no: False
      then show ?thesis using bad d_rej cs by auto
    qed
  qed
qed simp

lemma wait_for_accepts:
  "wait_for_impl accept closed cs seen = Some True \<Longrightarrow> \<exists>d \<in> set cs. accept (sc_value d)"
proof (induction accept closed cs seen rule: wait_for_impl.induct)
  case (2 accept closed c cs seen)
  show ?case
  proof (cases "(\<not> closed \<or> seen \<noteq> cell_version c) \<and> accept (sc_value c)")
    case False
    then obtain ok seen' cs' where ch: "changed_impl cs (cell_version c) = Some (ok, seen', cs')"
      and rest: "wait_for_impl accept (\<not> ok) cs' seen' = Some True" "\<not> closed"
      using 2(2) by (auto simp: Let_def split: option.splits if_splits)
    then have "\<exists>d \<in> set cs'. accept (sc_value d)"
      using 2(1) [OF refl refl] False by simp
    then show ?thesis using changed_impl_suffix [OF ch] by auto
  qed auto
qed simp

lemma live_after_append:
  "live_after n (xs @ ys) = Some m \<Longrightarrow> \<exists>k. live_after n xs = Some k \<and> live_after k ys = Some m"
  by (induction xs arbitrary: n) (auto split: if_splits)

lemma live_after_0: "live_after 0 ops = Some m \<Longrightarrow> ops = []"
  by (cases ops) auto

lemma plane_writes_append:
  "plane_writes c (xs @ ys) = plane_writes c xs + plane_writes (run plane_step c xs) ys"
  by (induction xs arbitrary: c) simp_all

lemma plane_no_writes_value:
  "plane_writes c ops = 0 \<Longrightarrow> sc_value (run plane_step c ops) = sc_value c"
proof (induction ops arbitrary: c)
  case (Cons e ops)
  then have "\<not> plane_modifies c e" "plane_writes (plane_step c e) ops = 0"
    by (auto split: if_splits)
  moreover from this(1) have "sc_value (plane_step c e) = sc_value c"
    by (cases e) (auto simp: plane_modifies_def plane_op_defs)
  ultimately show ?case using Cons.IH by simp
qed simp

lemma plane_later_read:
  assumes rel: "plane_rel c n w" and ops: "live_after n ops = Some m"
    and bound: "n + length ops < 2 ^ 32" "w + length ops < 2 ^ 62"
  defines "d \<equiv> run plane_step c ops"
  shows "cell_version d = cell_version c \<longrightarrow> sc_value d = sc_value c"
    and "cell_closed c \<longrightarrow> c = d"
proof -
  have w: "w + plane_writes c ops < 2 ^ 62"
    using plane_writes_le [of c ops] bound(2) by simp
  have "unat (cell_version d) = w + plane_writes c ops"
    unfolding d_def using plane_rel_load(1) [OF plane_rel_run [OF rel ops bound(1)] w] .
  moreover have "unat (cell_version c) = w"
    using plane_rel_load(1) [OF rel] w by simp
  ultimately show "cell_version d = cell_version c \<longrightarrow> sc_value d = sc_value c"
    unfolding d_def using plane_no_writes_value [of c ops] by auto
  show "cell_closed c \<longrightarrow> c = d"
  proof
    assume "cell_closed c"
    then have "n = 0" using plane_rel_load(2) [OF rel] w by simp
    then have "ops = []" using live_after_0 ops by blast
    then show "c = d" by (simp add: d_def)
  qed
qed

lemma plane_reads_steady:
  assumes ops: "live_after 1 ops = Some m" and bound: "1 + length ops < 2 ^ 32"
    and ks: "sorted ks"
  shows "steady (plane_reads ops ks)"
  using ks
proof (induction ks)
  case (Cons k ks)
  let ?fresh = "snd (status_channel status_cell_new)"
  let ?c = "run plane_step ?fresh (take k ops)"
  obtain n where n: "live_after 1 (take k ops) = Some n" "live_after n (drop k ops) = Some m"
    using live_after_append [of 1 "take k ops" "drop k ops"] ops by auto
  have rel: "plane_rel ?c n (plane_writes ?fresh (take k ops))"
    using plane_rel_run [OF plane_rel_channel n(1)] bound by simp
  have later: "(cell_version d = cell_version ?c \<longrightarrow> sc_value d = sc_value ?c) \<and>
      (cell_closed ?c \<longrightarrow> ?c = d)" if "d \<in> set (plane_reads ops ks)" for d
  proof -
    obtain l where l: "l \<in> set ks" "d = run plane_step ?fresh (take l ops)"
      using \<open>d \<in> set (plane_reads ops ks)\<close> by (auto simp: plane_reads_def)
    then have "k \<le> l" using Cons.prems by simp
    then have "take l ops = take k ops @ take (l - k) (drop k ops)"
      by (metis le_add_diff_inverse take_add)
    then have d: "d = run plane_step ?c (take (l - k) (drop k ops))"
      using l(2) by (simp only: run_append)
    obtain p where p: "live_after n (take (l - k) (drop k ops)) = Some p"
      using live_after_append [of n "take (l - k) (drop k ops)" "drop (l - k) (drop k ops)" m]
        n(2) unfolding append_take_drop_id by blast
    have nb: "n + length (take (l - k) (drop k ops)) < 2 ^ 32"
      "plane_writes ?fresh (take k ops) + length (take (l - k) (drop k ops)) < 2 ^ 62"
      using live_after_bound [OF n(1)] plane_writes_le [of ?fresh "take k ops"] bound by auto
    show ?thesis
      unfolding d using plane_later_read [OF rel p nb] by blast
  qed
  have reads: "plane_reads ops (k # ks) = ?c # plane_reads ops ks"
    by (simp add: plane_reads_def)
  have "steady (plane_reads ops ks)"
    using Cons by simp
  then show ?case
    unfolding reads steady.simps using later by blast
qed (simp add: plane_reads_def)

section \<open>Properties of the plane\<close>

text \<open>
  The final reason is written once: after any sequence of operations the plane carries the
  reason and the instant of the first write of a reason in it, whoever wrote it and whatever
  statuses and reasons were written after it.
\<close>

lemma plane_reason_written_once:
  "sv_reason (sc_value (run plane_step (snd (status_channel status_cell_new)) ops)) =
     map_option snd (first_reason ops) \<and>
   sv_final_at (sc_value (run plane_step (snd (status_channel status_cell_new)) ops)) =
     map_option fst (first_reason ops)"
  by (rule plane_run_first_reason)
    (simp_all add: status_channel_def status_cell_new_def status_value_new_def Let_def)

text \<open>
  The packed words of the plane say what they mean: while every operation is made through
  a live sender, the lock-free reads give the value's own status, the number of modifying
  writes as the version, and closed exactly when the last sender dropped.
\<close>

lemma plane_words_are_exact:
  assumes "live_after 1 ops = Some n" "1 + length ops < 2 ^ 32"
  defines "c \<equiv> run plane_step (snd (status_channel status_cell_new)) ops"
  shows "unat (cell_version c) = plane_writes (snd (status_channel status_cell_new)) ops \<and>
    (cell_closed c \<longleftrightarrow> n = 0) \<and> status_read c = sv_status (sc_value c)"
proof -
  let ?fresh = "snd (status_channel status_cell_new)"
  have "plane_rel c n (plane_writes ?fresh ops)"
    unfolding c_def using plane_rel_run [OF plane_rel_channel assms(1,2)] by simp
  moreover have "plane_writes ?fresh ops < 2 ^ 62"
    using plane_writes_le [of ?fresh ops] assms(2) by simp
  ultimately show ?thesis using plane_rel_load by blast
qed

text \<open>
  \<open>wait_for\<close> neither invents nor misses an end: run on the states its reads find along any
  history of the plane, an \<open>Ok\<close> means one of them was accepted, and an \<open>Err\<close> means that the
  plane was closed at one of its reads with a final value that the test rejects.  A wait that
  starts on a closed plane answers within three reads, \<open>Ok\<close> exactly when the final value is accepted.
\<close>

lemma wait_for_is_exact:
  assumes "live_after 1 ops = Some m" "1 + length ops < 2 ^ 32" "sorted ks"
  shows "(wait_for_impl accept False (plane_reads ops ks) seen = Some True \<longrightarrow>
      (\<exists>d \<in> set (plane_reads ops ks). accept (sc_value d))) \<and>
    (wait_for_impl accept False (plane_reads ops ks) seen = Some False \<longrightarrow>
      (\<exists>d \<in> set (plane_reads ops ks). cell_closed d \<and> \<not> accept (sc_value d))) \<and>
    (cell_closed c \<longrightarrow> wait_for_impl accept False (c # c # c # cs) seen = Some (accept (sc_value c)))"
proof (intro conjI impI)
  show "\<exists>d \<in> set (plane_reads ops ks). accept (sc_value d)"
    if "wait_for_impl accept False (plane_reads ops ks) seen = Some True"
    using that by (rule wait_for_accepts)
  show "\<exists>d \<in> set (plane_reads ops ks). cell_closed d \<and> \<not> accept (sc_value d)"
    if "wait_for_impl accept False (plane_reads ops ks) seen = Some False"
    using wait_for_rejects [OF plane_reads_steady [OF assms] that] by auto
  show "wait_for_impl accept False (c # c # c # cs) seen = Some (accept (sc_value c))"
    if "cell_closed c"
  proof -
    obtain v where "cell_load c = (v, True)"
      using \<open>cell_closed c\<close> by (metis prod.collapse)
    then show ?thesis by (simp add: Let_def maybe_changed_def)
  qed
qed

end
