(* ===== verification/Stop_Budgets.thy ===== *)
theory Stop_Budgets
  imports Types
begin

text \<open>
  The time arithmetic of the stops (\<open>src/src/actor/supervision/rules.rs\<close>, with the
  constants of \<open>actor/supervision.rs\<close> and the deadline helpers of \<open>actor/runtime.rs\<close>):
  deadlines that never leave the representable range, the budget an incarnation
  can outlive a killed parent, the bound of a wait on a subtree, and the
  earliest instant of an Unresponsive verdict.
\<close>

section \<open>Constants and deadlines\<close>

definition FAR_FUTURE :: duration where
  "FAR_FUTURE = secs (86400 * 365 * 30)"

definition DEFAULT_KILL_GRACE :: duration where
  "DEFAULT_KILL_GRACE = millis 120"

definition ABORT_SETTLE :: duration where
  "ABORT_SETTLE = millis 100"

definition saturating_deadline :: "instant \<Rightarrow> duration \<Rightarrow> instant" where
  "saturating_deadline base dur =
     (case checked_add_instant base (min dur FAR_FUTURE) of Some t \<Rightarrow> t | None \<Rightarrow> base)"

definition bounded_wait :: "duration \<Rightarrow> duration" where
  "bounded_wait dur = min dur FAR_FUTURE"

definition deadline_after :: "instant \<Rightarrow> duration \<Rightarrow> instant" where
  "deadline_after base after =
     (case checked_add_instant base (min after FAR_FUTURE) of Some t \<Rightarrow> t | None \<Rightarrow> base)"

text \<open>An instant with room for \<open>n\<close> far-future additions before the representable range ends.\<close>

definition roomy :: "nat \<Rightarrow> instant \<Rightarrow> bool" where
  "roomy n t \<longleftrightarrow> t + int (n * FAR_FUTURE) < instant_bound"

lemma deadline_after_bounds:
  "t \<le> deadline_after t d" "deadline_after t d \<le> t + int (min d FAR_FUTURE)"
  by (auto simp: deadline_after_def checked_add_instant_def)

lemma deadline_after_roomy:
  assumes "roomy (Suc n) t"
  shows "deadline_after t d = t + int (min d FAR_FUTURE)"
proof -
  have "min d FAR_FUTURE \<le> Suc n * FAR_FUTURE"
    by simp
  then have "t + int (min d FAR_FUTURE) < instant_bound"
    using assms unfolding roomy_def by linarith
  then show ?thesis by (simp add: deadline_after_def checked_add_instant_def)
qed

lemma roomy_deadline_after: "roomy (Suc n) t \<Longrightarrow> roomy n (deadline_after t d)"
  using deadline_after_bounds(2) [of t d] by (auto simp: roomy_def)

lemma roomy_mono: "roomy n t \<Longrightarrow> m \<le> n \<Longrightarrow> s \<le> t \<Longrightarrow> roomy m s"
proof -
  assume r: "roomy n t" and "m \<le> n" "s \<le> t"
  have "int (m * FAR_FUTURE) \<le> int (n * FAR_FUTURE)"
    using \<open>m \<le> n\<close> by (simp add: mult_right_mono)
  then show "roomy m s" using r \<open>s \<le> t\<close> by (simp add: roomy_def)
qed

lemma ABORT_SETTLE_lt_FAR_FUTURE [simp]: "min ABORT_SETTLE FAR_FUTURE = ABORT_SETTLE"
  by (simp add: ABORT_SETTLE_def FAR_FUTURE_def millis_def secs_def nanos_per_sec_def)

lemma saturating_deadline_eq: "saturating_deadline t d = deadline_after t (bounded_wait d)"
  by (simp add: saturating_deadline_def deadline_after_def bounded_wait_def)

section \<open>Budgets\<close>

definition saturating_nanos :: "duration \<Rightarrow> u64" where
  "saturating_nanos d = (if d < 2 ^ 64 then of_nat d else u64_max)"

definition own_budget :: "bool \<Rightarrow> shutdown \<Rightarrow> duration \<Rightarrow> duration option" where
  "own_budget is_supervisor sd kill_grace =
     (let tail = saturating_add_u64 (saturating_nanos kill_grace) (saturating_nanos ABORT_SETTLE)
      in case (is_supervisor, sd) of
           (True, ShutdownTimeout window) \<Rightarrow>
             (let sum = saturating_add_u64 (saturating_nanos window) tail
              in if sum \<noteq> u64_max then Some (unat sum) else None)
         | (True, ShutdownInfinity) \<Rightarrow> None
         | _ \<Rightarrow> if tail \<noteq> u64_max then Some (unat tail) else None)"

definition own_fin :: "bool \<Rightarrow> shutdown \<Rightarrow> duration \<Rightarrow> duration" where
  "own_fin is_supervisor sd kill_grace =
     (let budget =
        (if is_supervisor \<and> sd = ShutdownInfinity then own_budget False sd kill_grace
         else own_budget is_supervisor sd kill_grace)
      in case budget of Some b \<Rightarrow> b | None \<Rightarrow> duration_max)"

datatype inherited_stop =
    InheritedKill duration
  | InheritedOrderly "duration option" duration

definition inherited_stop_of :: "bool \<Rightarrow> shutdown \<Rightarrow> duration \<Rightarrow> inherited_stop" where
  "inherited_stop_of is_supervisor sd kill_grace =
     (if \<not> is_supervisor then InheritedKill kill_grace
      else InheritedOrderly
        (case sd of
           ShutdownKill \<Rightarrow> Some 0
         | ShutdownTimeout window \<Rightarrow> Some window
         | ShutdownInfinity \<Rightarrow> None)
        kill_grace)"

fun fired_stop :: "inherited_stop \<Rightarrow> bool \<Rightarrow> inherited_stop" where
  "fired_stop (InheritedOrderly window grace) kill_stored =
     (if kill_stored then InheritedKill grace else InheritedOrderly window grace)"
| "fired_stop (InheritedKill grace) kill_stored = InheritedKill grace"

definition successor_bound :: "u64 \<Rightarrow> u32 \<Rightarrow> duration option" where
  "successor_bound below_nanos inf_live =
     (if inf_live > 0 then None
      else let sum = saturating_add_u64 below_nanos (saturating_nanos ABORT_SETTLE)
           in if sum \<noteq> u64_max then Some (unat sum) else None)"

definition verdict_floor ::
  "instant \<Rightarrow> duration \<Rightarrow> instant option \<Rightarrow> bool \<Rightarrow> instant" where
  "verdict_floor budget_at cap aborted_at owed =
     (let settled =
            (case aborted_at of
               None \<Rightarrow> budget_at
             | Some at' \<Rightarrow> max budget_at (deadline_after at' ABORT_SETTLE));
          held = (if owed then max settled (deadline_after budget_at cap) else settled)
      in min held (deadline_after (deadline_after budget_at cap) ABORT_SETTLE))"

lemma verdict_floor_ge: "budget_at \<le> verdict_floor budget_at cap aborted_at owed"
proof -
  let ?cap = "deadline_after budget_at cap"
  have "budget_at \<le> ?cap" "?cap \<le> deadline_after ?cap ABORT_SETTLE"
    by (rule deadline_after_bounds(1))+
  then have "budget_at \<le> deadline_after ?cap ABORT_SETTLE"
    by (rule order_trans)
  then show ?thesis
    by (auto simp: verdict_floor_def Let_def le_max_iff_disj split: option.splits)
qed

datatype wait_action = WaitKeep | WaitProceed | WaitCancel | WaitEscalate

definition successor_wait_step :: "bool \<Rightarrow> bool \<Rightarrow> bool \<Rightarrow> wait_action" where
  "successor_wait_step gone order expired =
     (if order then WaitCancel
      else if gone then WaitProceed
      else if expired then WaitEscalate
      else WaitKeep)"

lemma unat_saturating_nanos: "unat (saturating_nanos d) = min d (2 ^ 64 - 1)"
  by (auto simp: saturating_nanos_def unat_u64_max unat_of_nat)

lemma unat_eq_u64_max_iff: "a = u64_max \<longleftrightarrow> unat a = 2 ^ 64 - 1"
proof
  show "unat a = 2 ^ 64 - 1 \<Longrightarrow> a = u64_max"
    by (metis unat_u64_max unsigned_word_eqI)
qed (simp add: unat_u64_max)

lemma ABORT_SETTLE_nanos [simp]: "unat (saturating_nanos ABORT_SETTLE) = ABORT_SETTLE"
  by (simp add: unat_saturating_nanos ABORT_SETTLE_def millis_def)

text \<open>The unbounded sum the saturated ones approximate.\<close>

definition plain_budget :: "bool \<Rightarrow> shutdown \<Rightarrow> duration \<Rightarrow> nat option" where
  "plain_budget is_supervisor sd kill_grace =
     (case (is_supervisor, sd) of
        (True, ShutdownTimeout window) \<Rightarrow> Some (window + kill_grace + ABORT_SETTLE)
      | (True, ShutdownInfinity) \<Rightarrow> None
      | _ \<Rightarrow> Some (kill_grace + ABORT_SETTLE))"

lemma own_budget_plain:
  "own_budget is_supervisor sd kill_grace =
     (case plain_budget is_supervisor sd kill_grace of
        None \<Rightarrow> None
      | Some b \<Rightarrow> if b < 2 ^ 64 - 1 then Some b else None)"
  by (cases is_supervisor; cases sd)
    (auto simp: own_budget_def plain_budget_def Let_def unat_eq_u64_max_iff
      unat_saturating_add_u64 unat_saturating_nanos)

section \<open>Properties of the budgets\<close>

text \<open>
  The earliest verdict of a wait lies between its own deadline and that deadline plus the cap
  plus the settle time; with nothing owed and nothing recorded it is the deadline itself;
  while an abort is owed it is held at least to the cap; and an abort recorded up
  to the cap keeps its whole settle time.
\<close>

lemma verdict_floor_bounds:
  assumes "roomy 3 budget_at" "\<forall>a. aborted_at = Some a \<longrightarrow> roomy 1 a"
  shows "budget_at \<le> verdict_floor budget_at cap aborted_at owed \<and>
    verdict_floor budget_at cap aborted_at owed \<le>
      budget_at + int (bounded_wait cap) + int ABORT_SETTLE \<and>
    verdict_floor budget_at cap None False = budget_at \<and>
    (owed \<longrightarrow> budget_at + int (bounded_wait cap) \<le> verdict_floor budget_at cap aborted_at owed) \<and>
    (\<forall>a. aborted_at = Some a \<and> a \<le> budget_at + int (bounded_wait cap) \<longrightarrow>
       a + int ABORT_SETTLE \<le> verdict_floor budget_at cap aborted_at owed)"
proof -
  have cap: "deadline_after budget_at cap = budget_at + int (bounded_wait cap)"
    using deadline_after_roomy [of 2 budget_at cap] assms(1) by (simp add: bounded_wait_def)
  have "roomy (Suc 1) (deadline_after budget_at cap)"
    using assms(1) by (simp add: roomy_deadline_after numeral_3_eq_3)
  from deadline_after_roomy [OF this, of ABORT_SETTLE]
  have ceiling: "deadline_after (deadline_after budget_at cap) ABORT_SETTLE =
      budget_at + int (bounded_wait cap) + int ABORT_SETTLE"
    by (simp add: cap)
  have settle: "deadline_after a ABORT_SETTLE = a + int ABORT_SETTLE" if "aborted_at = Some a" for a
    using deadline_after_roomy [of 0 a ABORT_SETTLE] assms(2) that by simp
  show ?thesis
    unfolding verdict_floor_def Let_def ceiling unfolding cap
    using settle by (cases aborted_at) auto
qed

text \<open>
  The budget of an incarnation is the exact sum of the phases of its inherited stop (its
  window when it is a supervisor with a timeout, its kill grace, the settle time), or none when
  that sum does not fit below the value that reads as unbounded; the 64-bit saturating
  additions never produce a smaller finite budget.
\<close>

theorem own_budget_exact:
  "own_budget is_supervisor sd kill_grace =
     (case inherited_stop_of is_supervisor sd kill_grace of
        InheritedKill grace \<Rightarrow>
          if grace + ABORT_SETTLE < 2 ^ 64 - 1 then Some (grace + ABORT_SETTLE) else None
      | InheritedOrderly None grace \<Rightarrow> None
      | InheritedOrderly (Some window) grace \<Rightarrow>
          if window + grace + ABORT_SETTLE < 2 ^ 64 - 1
          then Some (window + grace + ABORT_SETTLE) else None)"
  by (cases is_supervisor; cases sd)
    (simp_all add: own_budget_plain plain_budget_def inherited_stop_of_def)

end
