(* ===== verification/Subtree.thy ===== *)
theory Subtree
  imports Stop_Budgets
begin

text \<open>
  The subtree tokens, the abort records and the waits on a subtree (\<open>src/src/actor/subtree.rs\<close>).

  A token is a value whose parent is part of it, as the \<open>Arc\<close> of the source; the state a token and its
  watches share lives in a store indexed by the token's identity, since every ancestor's state is
  changed through a descendant.  An abort record holds the mark of the abort it is owed, with the
  identities of the tokens the mark is counted on.  Wakes of the waiters are counted in
  \<open>sh_wakes\<close>.
\<close>

section \<open>Tokens and their shared state\<close>

type_synonym token_id = nat

record subtree_signal =
  ss_gone :: bool
  ss_inf_live :: u32
  ss_inf_gen :: u64
  ss_below_gen :: u64

record subtree_aborts =
  sa_owed :: u32
  sa_latest :: "instant option"

record subtree_shared =
  sh_below_nanos :: u64
  sh_released :: bool
  sh_signal :: subtree_signal
  sh_aborts :: subtree_aborts
  sh_wakes :: nat

type_synonym store = "token_id \<Rightarrow> subtree_shared"

definition subtree_shared_new :: subtree_shared where
  "subtree_shared_new =
     \<lparr>sh_below_nanos = 0, sh_released = False,
      sh_signal = \<lparr>ss_gone = False, ss_inf_live = 0, ss_inf_gen = 0, ss_below_gen = 0\<rparr>,
      sh_aborts = \<lparr>sa_owed = 0, sa_latest = None\<rparr>, sh_wakes = 0\<rparr>"

definition wake_waits :: "subtree_shared \<Rightarrow> subtree_shared" where
  "wake_waits s = s\<lparr>sh_wakes := sh_wakes s + 1\<rparr>"

definition modify_signal ::
  "(subtree_signal \<Rightarrow> subtree_signal) \<Rightarrow> subtree_shared \<Rightarrow> subtree_shared" where
  "modify_signal change s = wake_waits (s\<lparr>sh_signal := change (sh_signal s)\<rparr>)"

definition update_aborts ::
  "(subtree_aborts \<Rightarrow> subtree_aborts) \<Rightarrow> subtree_shared \<Rightarrow> subtree_shared" where
  "update_aborts change s =
     wake_waits (s\<lparr>sh_aborts := change (sh_aborts s),
                   sh_signal := (sh_signal s)\<lparr>ss_below_gen := ss_below_gen (sh_signal s) + 1\<rparr>\<rparr>)"

definition saturating_add_u32 :: "u32 \<Rightarrow> u32 \<Rightarrow> u32" where
  [rust_std]: "saturating_add_u32 a b = (if unat a + unat b < 2 ^ 32 then a + b else - 1)"

definition saturating_sub_u32 :: "u32 \<Rightarrow> u32 \<Rightarrow> u32" where
  [rust_std]: "saturating_sub_u32 a b = (if b \<le> a then a - b else 0)"

datatype subtree_token = SubtreeToken token_id u64 "subtree_token option"

fun token_id_of :: "subtree_token \<Rightarrow> token_id" where
  "token_id_of (SubtreeToken s own parent) = s"

fun token_own :: "subtree_token \<Rightarrow> u64" where
  "token_own (SubtreeToken s own parent) = own"

fun token_parent :: "subtree_token \<Rightarrow> subtree_token option" where
  "token_parent (SubtreeToken s own parent) = parent"

text \<open>\<open>AbortRecord::chain\<close> from a token: the token and every ancestor.\<close>

fun token_chain :: "subtree_token \<Rightarrow> token_id list" where
  "token_chain (SubtreeToken s own None) = [s]"
| "token_chain (SubtreeToken s own (Some parent)) = s # token_chain parent"

fun raise_below :: "subtree_token \<Rightarrow> u64 \<Rightarrow> store \<Rightarrow> store" where
  "raise_below (SubtreeToken s own parent) candidate st =
     (let previous = sh_below_nanos (st s);
          st1 = st(s := (st s)\<lparr>sh_below_nanos := max previous candidate\<rparr>)
      in if candidate > previous then
           let st2 = st1(s := modify_signal
                 (\<lambda>g. g\<lparr>ss_below_gen := ss_below_gen g + 1\<rparr>) (st1 s))
           in (case parent of
                 None \<Rightarrow> st2
               | Some p \<Rightarrow> raise_below p (saturating_add_u64 own candidate) st2)
         else st1)"

fun shift_infinity :: "subtree_token \<Rightarrow> bool \<Rightarrow> store \<Rightarrow> store" where
  "shift_infinity (SubtreeToken s own parent) up st =
     (let st1 = st(s := modify_signal (\<lambda>g.
            g\<lparr>ss_inf_live :=
                 (if up then saturating_add_u32 (ss_inf_live g) 1
                  else saturating_sub_u32 (ss_inf_live g) 1),
              ss_inf_gen := ss_inf_gen g + 1\<rparr>) (st s))
      in (case parent of None \<Rightarrow> st1 | Some p \<Rightarrow> shift_infinity p up st1))"

definition token_drop :: "token_id \<Rightarrow> store \<Rightarrow> store" where
  "token_drop s st = st(s := modify_signal (\<lambda>g. g\<lparr>ss_gone := True\<rparr>) (st s))"

record subtree_link =
  sl_parent :: subtree_token
  sl_own :: duration
  sl_infinity :: bool

text \<open>
  \<open>SubtreeHold::build\<close>: the token of a new actor under the fresh identity \<open>s\<close>, and the
  token its \<open>InfinityMark\<close> counts above, if it has one.
\<close>

definition hold_build ::
  "token_id \<Rightarrow> subtree_link option \<Rightarrow> store \<Rightarrow> subtree_token \<times> subtree_token option \<times> store" where
  "hold_build s link st =
     (let st0 = st(s := subtree_shared_new) in
      case link of
        None \<Rightarrow> (SubtreeToken s 0 None, None, st0)
      | Some l \<Rightarrow>
          let own_nanos = saturating_nanos (sl_own l);
              st1 = raise_below (sl_parent l) own_nanos st0
          in if sl_infinity l
             then (SubtreeToken s own_nanos (Some (sl_parent l)), Some (sl_parent l),
                   shift_infinity (sl_parent l) True st1)
             else (SubtreeToken s own_nanos (Some (sl_parent l)), None, st1))"

definition infinity_mark_drop :: "subtree_token \<Rightarrow> store \<Rightarrow> store" where
  "infinity_mark_drop over st = shift_infinity over False st"

definition release_signal_drop :: "token_id \<Rightarrow> store \<Rightarrow> store" where
  "release_signal_drop s st = st(s := wake_waits ((st s)\<lparr>sh_released := True\<rparr>))"

section \<open>Abort records\<close>

record owed =
  ow_at :: "instant option"
  ow_mark :: "token_id list option"
  ow_ended :: bool

record abort_record =
  ar_linked :: "subtree_token option"
  ar_owed :: owed

definition abort_record_new :: abort_record where
  "abort_record_new =
     \<lparr>ar_linked = None, ar_owed = \<lparr>ow_at = None, ow_mark = None, ow_ended = False\<rparr>\<rparr>"

text \<open>\<open>AbortRecord::link\<close>: a \<open>OnceLock\<close>, so the first link stands.\<close>

definition record_link :: "subtree_token \<Rightarrow> abort_record \<Rightarrow> abort_record" where
  "record_link t r = (case ar_linked r of None \<Rightarrow> r\<lparr>ar_linked := Some t\<rparr> | Some _ \<Rightarrow> r)"

text \<open>The chain of a record; \<open>live\<close> says whether the weak token can still be upgraded.\<close>

definition record_chain :: "bool \<Rightarrow> abort_record \<Rightarrow> token_id list" where
  "record_chain live r =
     (case ar_linked r of Some t \<Rightarrow> if live then token_chain t else [] | None \<Rightarrow> [])"

definition add_owed :: "subtree_aborts \<Rightarrow> subtree_aborts" where
  "add_owed a = a\<lparr>sa_owed := saturating_add_u32 (sa_owed a) 1\<rparr>"

definition drop_owed :: "subtree_aborts \<Rightarrow> subtree_aborts" where
  "drop_owed a = a\<lparr>sa_owed := saturating_sub_u32 (sa_owed a) 1\<rparr>"

definition raise_latest :: "instant \<Rightarrow> subtree_aborts \<Rightarrow> subtree_aborts" where
  "raise_latest now a =
     a\<lparr>sa_latest := Some (case sa_latest a of None \<Rightarrow> now | Some l \<Rightarrow> max l now)\<rparr>"

definition each_token ::
  "(subtree_aborts \<Rightarrow> subtree_aborts) \<Rightarrow> token_id list \<Rightarrow> store \<Rightarrow> store" where
  "each_token change chain st = fold (\<lambda>s st. st(s := update_aborts change (st s))) chain st"

text \<open>\<open>OwedMark::drop\<close>.\<close>

definition mark_drop :: "token_id list option \<Rightarrow> store \<Rightarrow> store" where
  "mark_drop mark st = (case mark of None \<Rightarrow> st | Some chain \<Rightarrow> each_token drop_owed chain st)"

definition owe :: "bool \<Rightarrow> abort_record \<Rightarrow> store \<Rightarrow> abort_record \<times> store" where
  "owe live r st =
     (let o' = ar_owed r in
      if ow_ended o' \<or> ow_mark o' \<noteq> None \<or> ow_at o' \<noteq> None then (r, st)
      else let chain = record_chain live r
           in (r\<lparr>ar_owed := o'\<lparr>ow_mark := Some chain\<rparr>\<rparr>, each_token add_owed chain st))"

definition record_abort ::
  "instant \<Rightarrow> bool \<Rightarrow> abort_record \<Rightarrow> store \<Rightarrow> abort_record \<times> store" where
  "record_abort now live r st =
     (let o' = ar_owed r in
      if ow_at o' \<noteq> None then (r, st)
      else let mark = ow_mark o';
               chain = (case mark of
                   Some chain \<Rightarrow> chain
                 | None \<Rightarrow> if ow_ended o' then [] else record_chain live r)
           in (r\<lparr>ar_owed := o'\<lparr>ow_at := Some now, ow_mark := None\<rparr>\<rparr>,
               mark_drop mark (each_token (raise_latest now) chain st)))"

definition release :: "instant \<Rightarrow> abort_record \<Rightarrow> store \<Rightarrow> abort_record \<times> store" where
  "release now r st =
     (let o' = ar_owed r; mark = ow_mark o';
          st1 = (case mark of None \<Rightarrow> st | Some chain \<Rightarrow> each_token (raise_latest now) chain st)
      in (r\<lparr>ar_owed := o'\<lparr>ow_ended := True, ow_mark := None\<rparr>\<rparr>, mark_drop mark st1))"

definition owe_for :: "instant \<Rightarrow> bool \<Rightarrow> bool \<Rightarrow> abort_record \<Rightarrow> store \<Rightarrow> abort_record \<times> store" where
  "owe_for now finished live r st = (if finished then release now r st else owe live r st)"

definition task_ended :: "instant \<Rightarrow> abort_record \<Rightarrow> store \<Rightarrow> abort_record \<times> store" where
  "task_ended now r st = release now r st"

text \<open>\<open>AbortRecord::abort\<close>; the first component says whether the task is aborted.\<close>

definition abort ::
  "instant \<Rightarrow> bool \<Rightarrow> bool \<Rightarrow> abort_record \<Rightarrow> store \<Rightarrow> bool \<times> abort_record \<times> store" where
  "abort now finished live r st =
     (if finished then (False, release now r st) else (True, record_abort now live r st))"

definition record_view :: "abort_record \<Rightarrow> instant option \<times> bool" where
  "record_view r = (ow_at (ar_owed r), ow_mark (ar_owed r) \<noteq> None)"

section \<open>Watches and waits\<close>

definition watch_is_gone :: "token_id \<Rightarrow> store \<Rightarrow> bool" where
  "watch_is_gone s st = ss_gone (sh_signal (st s))"

definition release_bound :: "token_id \<Rightarrow> store \<Rightarrow> duration option" where
  "release_bound s st =
     map_option bounded_wait
       (successor_bound (sh_below_nanos (st s)) (ss_inf_live (sh_signal (st s))))"

definition abort_view :: "token_id \<Rightarrow> store \<Rightarrow> instant option \<times> bool" where
  "abort_view s st = (sa_latest (sh_aborts (st s)), sa_owed (sh_aborts (st s)) > 0)"

record subtree_wait =
  sw_seen :: subtree_signal
  sw_deadline :: "instant option"
  sw_bound :: duration
  sw_below_seen :: u64

definition wait_rearm :: "token_id \<Rightarrow> store \<Rightarrow> instant \<Rightarrow> subtree_wait \<Rightarrow> subtree_wait" where
  "wait_rearm s st now w =
     (let w' = w\<lparr>sw_below_seen := sh_below_nanos (st s)\<rparr> in
      case release_bound s st of
        None \<Rightarrow> w'\<lparr>sw_deadline := None\<rparr>
      | Some bound \<Rightarrow>
          let at' = saturating_deadline now bound
          in w'\<lparr>sw_deadline := Some (case sw_deadline w of None \<Rightarrow> at' | Some armed \<Rightarrow> max armed at'),
                sw_bound := max (sw_bound w) bound\<rparr>)"

definition wait_new :: "token_id \<Rightarrow> store \<Rightarrow> instant \<Rightarrow> subtree_wait" where
  "wait_new s st now =
     wait_rearm s st now
       \<lparr>sw_seen = sh_signal (st s), sw_deadline = None, sw_bound = 0, sw_below_seen = 0\<rparr>"

definition wait_rearm_if_raised ::
  "token_id \<Rightarrow> store \<Rightarrow> instant \<Rightarrow> subtree_wait \<Rightarrow> subtree_wait" where
  "wait_rearm_if_raised s st now w =
     (if sh_below_nanos (st s) \<noteq> sw_below_seen w then wait_rearm s st now w else w)"

definition wait_verdict_at :: "token_id \<Rightarrow> store \<Rightarrow> subtree_wait \<Rightarrow> instant option" where
  "wait_verdict_at s st w =
     (case sw_deadline w of
        None \<Rightarrow> None
      | Some deadline \<Rightarrow>
          (case abort_view s st of
             (latest, is_owed) \<Rightarrow> Some (verdict_floor deadline (sw_bound w) latest is_owed)))"

definition wait_expired :: "token_id \<Rightarrow> store \<Rightarrow> instant \<Rightarrow> subtree_wait \<Rightarrow> bool" where
  "wait_expired s st now w =
     (case wait_verdict_at s st w of None \<Rightarrow> False | Some at' \<Rightarrow> at' \<le> now)"

text \<open>\<open>SubtreeWait::changed\<close> after a wake on the signal: what the wait re-reads and re-arms.\<close>

definition wait_below :: "token_id \<Rightarrow> store \<Rightarrow> instant \<Rightarrow> subtree_wait \<Rightarrow> subtree_wait" where
  "wait_below s st now w =
     (let was = sw_seen w; g = sh_signal (st s); w' = w\<lparr>sw_seen := g\<rparr>
      in if ss_gone g then w'
         else if ss_inf_gen g \<noteq> ss_inf_gen was then wait_rearm s st now w'
         else if ss_below_gen g \<noteq> ss_below_gen was then wait_rearm_if_raised s st now w'
         else w')"

section \<open>The budget below a token\<close>

fun ancestors :: "subtree_token \<Rightarrow> subtree_token list" where
  "ancestors (SubtreeToken s own None) = [SubtreeToken s own None]"
| "ancestors (SubtreeToken s own (Some parent)) = SubtreeToken s own (Some parent) # ancestors parent"

lemma token_chain_ancestors: "token_chain t = map token_id_of (ancestors t)"
  by (induction t rule: token_chain.induct) simp_all

lemma ancestors_refl [simp]: "t \<in> set (ancestors t)"
  by (induction t rule: ancestors.induct) simp_all

lemma ancestors_parent:
  "token_parent t = Some p \<Longrightarrow> ancestors t = t # ancestors p"
  by (cases t) auto

lemma ancestors_trans:
  "u \<in> set (ancestors t) \<Longrightarrow> set (ancestors u) \<subseteq> set (ancestors t)"
  by (induction t rule: ancestors.induct) auto

abbreviation below :: "store \<Rightarrow> subtree_token \<Rightarrow> u64" where
  "below st t \<equiv> sh_below_nanos (st (token_id_of t))"

text \<open>A parent's budget covers each child: the child's own time and the budget below it.\<close>

definition edge_ok :: "store \<Rightarrow> subtree_token \<Rightarrow> bool" where
  "edge_ok st t =
     (case token_parent t of
        None \<Rightarrow> True
      | Some p \<Rightarrow> saturating_add_u64 (token_own t) (below st t) \<le> below st p)"

lemma below_modify_signal [simp]:
  "sh_below_nanos (modify_signal f s) = sh_below_nanos s"
  by (simp add: modify_signal_def wake_waits_def)

text \<open>The store after the budget of one token rose, before the parent's is raised.\<close>

definition bump_below :: "token_id \<Rightarrow> u64 \<Rightarrow> store \<Rightarrow> store" where
  "bump_below s c st =
     st(s := modify_signal (\<lambda>g. g\<lparr>ss_below_gen := ss_below_gen g + 1\<rparr>)
               ((st s)\<lparr>sh_below_nanos := c\<rparr>))"

lemma bump_below_simps [simp]:
  "sh_below_nanos (bump_below s c st x) = (if x = s then c else sh_below_nanos (st x))"
  "x \<noteq> s \<Longrightarrow> bump_below s c st x = st x"
  by (simp_all add: bump_below_def)

lemma raise_below_simps:
  "raise_below (SubtreeToken s own None) c st =
     (if sh_below_nanos (st s) < c then bump_below s c st else st)"
  "raise_below (SubtreeToken s own (Some p)) c st =
     (if sh_below_nanos (st s) < c
      then raise_below p (saturating_add_u64 own c) (bump_below s c st) else st)"
  by (auto simp: Let_def bump_below_def max_def)

declare raise_below.simps [simp del]

lemma raise_below_mono: "sh_below_nanos (st x) \<le> sh_below_nanos (raise_below t c st x)"
proof (induction t arbitrary: c st rule: token_chain.induct)
  case (2 s own p)
  have "sh_below_nanos (st x) \<le> sh_below_nanos (bump_below s c st x)" if "sh_below_nanos (st s) < c"
    using that by (simp add: less_imp_le)
  also have "sh_below_nanos (bump_below s c st x) \<le>
      sh_below_nanos (raise_below p (saturating_add_u64 own c) (bump_below s c st) x)"
    by (rule 2)
  finally show ?case by (simp add: raise_below_simps)
qed (simp add: raise_below_simps less_imp_le)

lemma raise_below_other: "x \<notin> set (token_chain t) \<Longrightarrow> raise_below t c st x = st x"
  by (induction t arbitrary: c st rule: token_chain.induct) (simp_all add: raise_below_simps)

lemma raise_below_at_least: "c \<le> below (raise_below t c st) t"
proof (cases t rule: token_chain.cases)
  case (2 s own p)
  have "c \<le> sh_below_nanos (raise_below p (saturating_add_u64 own c) (bump_below s c st) s)"
    using raise_below_mono [of "bump_below s c st" s p] by simp
  then show ?thesis by (simp add: 2 raise_below_simps not_less)
qed (simp add: raise_below_simps not_less)

lemma edge_ok_bump:
  assumes "s \<notin> set (token_chain p)" "v \<in> set (ancestors p)"
  shows "edge_ok (bump_below s c st) v = edge_ok st v"
proof -
  have ids: "token_id_of u \<noteq> s" if "u \<in> set (ancestors p)" for u
    using that assms(1) by (auto simp: token_chain_ancestors)
  have "q \<in> set (ancestors p)" if "token_parent v = Some q" for q
    using ancestors_trans [OF assms(2)] ancestors_parent [OF that] by auto
  then show ?thesis
    using ids assms(2) by (auto simp: edge_ok_def split: option.splits)
qed

lemma raise_below_edges:
  assumes "distinct (token_chain t)" "\<forall>v \<in> set (ancestors t). edge_ok st v"
  shows "\<forall>v \<in> set (ancestors t). edge_ok (raise_below t c st) v"
  using assms
proof (induction t arbitrary: c st rule: token_chain.induct)
  case (1 s own)
  then show ?case by (simp add: edge_ok_def)
next
  case (2 s own p)
  show ?case
  proof (cases "sh_below_nanos (st s) < c")
    case False
    then show ?thesis using 2(3) by (simp add: raise_below_simps)
  next
    case True
    let ?st = "raise_below p (saturating_add_u64 own c) (bump_below s c st)"
    have s: "s \<notin> set (token_chain p)" "distinct (token_chain p)"
      using 2(2) by auto
    have "\<forall>v \<in> set (ancestors p). edge_ok (bump_below s c st) v"
      using 2(3) edge_ok_bump [OF s(1)] by simp
    then have IH: "\<forall>v \<in> set (ancestors p). edge_ok ?st v"
      by (rule 2(1) [OF s(2)])
    have "?st s = bump_below s c st s"
      using s(1) by (rule raise_below_other)
    then have "edge_ok ?st (SubtreeToken s own (Some p))"
      using raise_below_at_least by (simp add: edge_ok_def)
    then show ?thesis using IH True by (simp add: raise_below_simps)
  qed
qed

lemma shift_infinity_below [simp]: "sh_below_nanos (shift_infinity t up st x) = sh_below_nanos (st x)"
proof (induction t arbitrary: st rule: token_chain.induct)
  case (2 s own p)
  then show ?case by (simp add: Let_def)
qed (simp add: Let_def)

text \<open>
  The forest of the actors of a system as its spawns build it: a token's identity is its index.
\<close>

record forest =
  fo_tokens :: "subtree_token list"
  fo_store :: store

datatype forest_op =
    SpawnRoot
  | SpawnUnder nat duration bool

definition forest_add :: "subtree_link option \<Rightarrow> forest \<Rightarrow> forest" where
  "forest_add link f =
     (case hold_build (length (fo_tokens f)) link (fo_store f) of
        (t, mark, st) \<Rightarrow> \<lparr>fo_tokens = fo_tokens f @ [t], fo_store = st\<rparr>)"

fun forest_step :: "forest \<Rightarrow> forest_op \<Rightarrow> forest" where
  "forest_step f SpawnRoot = forest_add None f"
| "forest_step f (SpawnUnder i own infinity) =
     (if i < length (fo_tokens f)
      then forest_add
        (Some \<lparr>sl_parent = fo_tokens f ! i, sl_own = own, sl_infinity = infinity\<rparr>) f
      else f)"

definition forest_empty :: forest where
  "forest_empty = \<lparr>fo_tokens = [], fo_store = (\<lambda>_. subtree_shared_new)\<rparr>"

definition forest_inv :: "forest \<Rightarrow> bool" where
  "forest_inv f \<longleftrightarrow>
     (\<forall>k < length (fo_tokens f). token_id_of (fo_tokens f ! k) = k) \<and>
     (\<forall>t \<in> set (fo_tokens f). set (ancestors t) \<subseteq> set (fo_tokens f) \<and>
        distinct (token_chain t) \<and> edge_ok (fo_store f) t)"

lemma forest_id:
  assumes "forest_inv f" "t \<in> set (fo_tokens f)"
  shows "token_id_of t < length (fo_tokens f)" "fo_tokens f ! token_id_of t = t"
  using assms by (auto simp: forest_inv_def in_set_conv_nth)

lemma forest_id_inj:
  assumes "forest_inv f" "t \<in> set (fo_tokens f)" "u \<in> set (fo_tokens f)"
    "token_id_of t = token_id_of u"
  shows "t = u"
  using forest_id(2) [OF assms(1)] assms(2-4) by metis

lemma forest_parent:
  assumes "forest_inv f" "u \<in> set (fo_tokens f)" "token_parent u = Some q"
  shows "q \<in> set (fo_tokens f)"
proof -
  have "set (ancestors u) \<subseteq> set (fo_tokens f)"
    using assms(1,2) by (simp add: forest_inv_def)
  moreover have "q \<in> set (ancestors u)"
    using ancestors_parent [OF assms(3)] by simp
  ultimately show ?thesis ..
qed

lemma edge_ok_parent_mono:
  assumes "edge_ok st v" "below st' v = below st v"
    "\<And>p. token_parent v = Some p \<Longrightarrow> below st p \<le> below st' p"
  shows "edge_ok st' v"
  using assms by (auto simp: edge_ok_def split: option.splits intro: order_trans)

lemma forest_raise_edge:
  assumes inv: "forest_inv f" and p: "p \<in> set (fo_tokens f)" and v: "v \<in> set (fo_tokens f)"
    and same: "\<And>u. u \<in> set (fo_tokens f) \<Longrightarrow> st (token_id_of u) = fo_store f (token_id_of u)"
  shows "edge_ok (raise_below p c st) v"
proof -
  have edges: "edge_ok st u" if "u \<in> set (fo_tokens f)" for u
  proof -
    have "q \<in> set (fo_tokens f)" if "token_parent u = Some q" for q
      using forest_parent [OF inv \<open>u \<in> set (fo_tokens f)\<close> that] .
    then have up: "below (fo_store f) q \<le> below st q" if "token_parent u = Some q" for q
      using same that by simp
    have "edge_ok (fo_store f) u" "below st u = below (fo_store f) u"
      using inv that same by (simp_all add: forest_inv_def)
    then show ?thesis
      using up by (rule edge_ok_parent_mono)
  qed
  have anc: "set (ancestors p) \<subseteq> set (fo_tokens f)" "distinct (token_chain p)"
    using inv p by (auto simp: forest_inv_def)
  show ?thesis
  proof (cases "v \<in> set (ancestors p)")
    case True
    then show ?thesis using raise_below_edges [OF anc(2)] anc(1) edges by blast
  next
    case False
    then have "token_id_of v \<notin> set (token_chain p)"
      using forest_id_inj [OF inv v] anc(1) by (auto simp: token_chain_ancestors)
    then have "below (raise_below p c st) v = below st v"
      by (simp add: raise_below_other)
    from edges [OF v] this raise_below_mono show ?thesis
      by (rule edge_ok_parent_mono)
  qed
qed

lemma saturating_add_u64_0 [simp]: "saturating_add_u64 a 0 = a"
  using unat_lt_2_64 [of a] by (simp add: saturating_add_u64_def)

lemma forest_inv_add_child:
  fixes own :: u64
  assumes inv: "forest_inv f" and p: "p \<in> set (fo_tokens f)"
  defines "s \<equiv> length (fo_tokens f)"
  defines "t \<equiv> SubtreeToken s own (Some p)"
  defines "st \<equiv> raise_below p own ((fo_store f)(s := subtree_shared_new))"
  assumes st': "\<And>x. sh_below_nanos (st' x) = sh_below_nanos (st x)"
  shows "forest_inv \<lparr>fo_tokens = fo_tokens f @ [t], fo_store = st'\<rparr>"
proof -
  have fresh: "token_id_of v \<noteq> s" if "v \<in> set (fo_tokens f)" for v
    using forest_id(1) [OF inv that] by (simp add: s_def)
  have chain_p: "s \<notin> set (token_chain p)" "set (ancestors p) \<subseteq> set (fo_tokens f)"
      "distinct (token_chain p)"
    using inv p fresh by (auto simp: forest_inv_def token_chain_ancestors)
  have st_edge: "edge_ok st' v \<longleftrightarrow> edge_ok st v" for v
    by (simp add: edge_ok_def st' split: option.splits)
  have old: "edge_ok st' v" if "v \<in> set (fo_tokens f)" for v
    unfolding st_edge st_def using fresh by (intro forest_raise_edge [OF inv p that]) simp
  have "st s = subtree_shared_new"
    unfolding st_def using chain_p(1) by (simp add: raise_below_other)
  moreover have "own \<le> below st p"
    unfolding st_def by (rule raise_below_at_least)
  ultimately have new: "edge_ok st' t"
    unfolding st_edge by (simp add: edge_ok_def t_def subtree_shared_new_def)
  show ?thesis
    using inv old new chain_p
    by (auto simp: forest_inv_def t_def s_def nth_append less_Suc_eq)
qed

lemma forest_inv_add_root:
  assumes inv: "forest_inv f"
  defines "s \<equiv> length (fo_tokens f)"
  shows "forest_inv \<lparr>fo_tokens = fo_tokens f @ [SubtreeToken s 0 None],
      fo_store = (fo_store f)(s := subtree_shared_new)\<rparr>"
proof -
  have fresh: "token_id_of v \<noteq> s" if "v \<in> set (fo_tokens f)" for v
    using forest_id(1) [OF inv that] by (simp add: s_def)
  have "edge_ok ((fo_store f)(s := subtree_shared_new)) v" if v: "v \<in> set (fo_tokens f)" for v
  proof -
    have up: "below (fo_store f) q \<le> below ((fo_store f)(s := subtree_shared_new)) q"
      if "token_parent v = Some q" for q
      using fresh [OF forest_parent [OF inv v that]] by simp
    have "edge_ok (fo_store f) v"
      "below ((fo_store f)(s := subtree_shared_new)) v = below (fo_store f) v"
      using inv v fresh [OF v] by (simp_all add: forest_inv_def)
    then show ?thesis
      using up by (rule edge_ok_parent_mono)
  qed
  then show ?thesis
    using inv by (auto simp: forest_inv_def s_def nth_append less_Suc_eq edge_ok_def)
qed

lemma forest_inv_step: "forest_inv f \<Longrightarrow> forest_inv (forest_step f op)"
proof (cases op)
  case SpawnRoot
  assume "forest_inv f"
  then show ?thesis
    using forest_inv_add_root by (simp add: SpawnRoot forest_add_def hold_build_def Let_def)
next
  case (SpawnUnder i own infinity)
  assume inv: "forest_inv f"
  show ?thesis
  proof (cases "i < length (fo_tokens f)")
    case True
    then have "fo_tokens f ! i \<in> set (fo_tokens f)" by simp
    note child = forest_inv_add_child [OF inv this, where own = "saturating_nanos own"]
    show ?thesis
      using True child by (simp add: SpawnUnder forest_add_def hold_build_def Let_def)
  qed (simp add: SpawnUnder inv)
qed

interpretation forest: invariant_machine forest_step forest_inv
  by unfold_locales (rule forest_inv_step)

lemma forest_inv_empty: "forest_inv forest_empty"
  by (simp add: forest_inv_def forest_empty_def)

text \<open>The time of the actors on the path from \<open>u\<close> up to but not including its ancestor \<open>t\<close>.\<close>

definition path_nanos :: "subtree_token \<Rightarrow> subtree_token \<Rightarrow> nat" where
  "path_nanos u t = sum_list (map (unat \<circ> token_own) (takeWhile (\<lambda>v. v \<noteq> t) (ancestors u)))"

lemma path_nanos_covered:
  assumes "\<forall>v \<in> set (ancestors u). edge_ok st v" "t \<in> set (ancestors u)"
  shows "min (path_nanos u t + unat (below st u)) (2 ^ 64 - 1) \<le> unat (below st t)"
  using assms
proof (induction u rule: token_chain.induct)
  case (1 s own)
  then show ?case by (auto simp: path_nanos_def)
next
  case (2 s own p)
  let ?u = "SubtreeToken s own (Some p)"
  show ?case
  proof (cases "?u = t")
    case True
    then show ?thesis by (auto simp: path_nanos_def)
  next
    case False
    have path: "path_nanos ?u t = unat own + path_nanos p t"
      using False by (simp add: path_nanos_def)
    have IH: "min (path_nanos p t + unat (below st p)) (2 ^ 64 - 1) \<le> unat (below st t)"
      using 2 False by auto
    have "saturating_add_u64 own (sh_below_nanos (st s)) \<le> below st p"
      using 2(2) by (simp add: edge_ok_def)
    then have "min (unat own + unat (sh_below_nanos (st s))) (2 ^ 64 - 1) \<le> unat (below st p)"
      by (simp add: word_le_nat_alt unat_saturating_add_u64)
    then show ?thesis using IH path by simp
  qed
qed

section \<open>Owed aborts\<close>

lemma sh_aborts_update [simp]: "sh_aborts (update_aborts f s) = f (sh_aborts s)"
  by (simp add: update_aborts_def wake_waits_def)

lemma each_token_apply:
  "distinct chain \<Longrightarrow>
     each_token change chain st t = (if t \<in> set chain then update_aborts change (st t) else st t)"
  by (induction chain arbitrary: st) (auto simp: each_token_def)

lemma aborts_each_token:
  "distinct chain \<Longrightarrow>
     sh_aborts (each_token change chain st t) =
       (if t \<in> set chain then change (sh_aborts (st t)) else sh_aborts (st t))"
  by (simp add: each_token_apply)

lemma unat_saturating_add_u32_1: "unat a + 1 < 2 ^ 32 \<Longrightarrow> unat (saturating_add_u32 a 1) = unat a + 1"
  by (simp add: saturating_add_u32_def unat_word_ariths)

lemma unat_saturating_sub_u32_1: "unat (saturating_sub_u32 a 1) = unat a - 1"
proof (cases "1 \<le> a")
  case True
  then show ?thesis by (simp add: saturating_sub_u32_def unat_sub)
next
  case False
  then have "a = 0" by (simp add: word_le_nat_alt unat_eq_0 not_le)
  then show ?thesis by (simp add: saturating_sub_u32_def)
qed

definition marked :: "abort_record \<Rightarrow> token_id set" where
  "marked r = (case ow_mark (ar_owed r) of None \<Rightarrow> {} | Some chain \<Rightarrow> set chain)"

definition owed_count :: "abort_record list \<Rightarrow> token_id \<Rightarrow> nat" where
  "owed_count rs t = sum_list (map (\<lambda>r. of_bool (t \<in> marked r)) rs)"

record abort_state =
  as_records :: "abort_record list"
  as_store :: store

datatype abort_op =
    OpOwe nat bool
  | OpOweFor nat instant bool bool
  | OpAbort nat instant bool bool
  | OpTaskEnded nat instant

text \<open>One operation on the record at an index; an index out of range changes nothing.\<close>

definition on_record ::
  "nat \<Rightarrow> (abort_record \<Rightarrow> store \<Rightarrow> abort_record \<times> store) \<Rightarrow> abort_state \<Rightarrow> abort_state" where
  "on_record i f s =
     (if i < length (as_records s)
      then case f (as_records s ! i) (as_store s) of
          (r, st) \<Rightarrow> \<lparr>as_records = (as_records s)[i := r], as_store = st\<rparr>
      else s)"

fun abort_step :: "abort_state \<Rightarrow> abort_op \<Rightarrow> abort_state" where
  "abort_step s (OpOwe i live) = on_record i (owe live) s"
| "abort_step s (OpOweFor i now finished live) = on_record i (owe_for now finished live) s"
| "abort_step s (OpAbort i now finished live) =
     on_record i (\<lambda>r st. snd (abort now finished live r st)) s"
| "abort_step s (OpTaskEnded i now) = on_record i (task_ended now) s"

definition record_ok :: "abort_record \<Rightarrow> bool" where
  "record_ok r \<longleftrightarrow>
     (\<forall>chain. ow_mark (ar_owed r) = Some chain \<longrightarrow> distinct chain) \<and>
     (\<forall>t. ar_linked r = Some t \<longrightarrow> distinct (token_chain t)) \<and>
     (ow_at (ar_owed r) \<noteq> None \<longrightarrow> ow_mark (ar_owed r) = None)"

definition abort_inv :: "abort_state \<Rightarrow> bool" where
  "abort_inv s \<longleftrightarrow>
     length (as_records s) < 2 ^ 32 \<and>
     (\<forall>r \<in> set (as_records s). record_ok r) \<and>
     (\<forall>t. unat (sa_owed (sh_aborts (as_store s t))) = owed_count (as_records s) t)"

lemma owed_count_update:
  "i < length rs \<Longrightarrow>
     owed_count (rs[i := r]) t + of_bool (t \<in> marked (rs ! i)) = owed_count rs t + of_bool (t \<in> marked r)"
proof (induction rs arbitrary: i)
  case (Cons q rs)
  then show ?case
    by (cases i) (auto simp: owed_count_def)
qed simp

lemma owed_count_le: "owed_count rs t \<le> length rs"
  by (induction rs) (auto simp: owed_count_def)

lemma owed_count_marked_pos:
  "i < length rs \<Longrightarrow> t \<in> marked (rs ! i) \<Longrightarrow> 0 < owed_count rs t"
proof (induction rs arbitrary: i)
  case (Cons q rs)
  then show ?case by (cases i) (auto simp: owed_count_def)
qed simp

lemma owed_count_unmarked_lt:
  "i < length rs \<Longrightarrow> t \<notin> marked (rs ! i) \<Longrightarrow> owed_count rs t < length rs"
proof (induction rs arbitrary: i)
  case (Cons q rs)
  then show ?case
    using owed_count_le [of rs t] by (cases i) (auto simp: owed_count_def)
qed simp

text \<open>
  What one operation does, seen from the counts: it keeps the record well formed, and changes
  the count of each token by what it changes of the record's mark.
\<close>

definition conserves ::
  "(abort_record \<Rightarrow> store \<Rightarrow> abort_record \<times> store) \<Rightarrow> bool" where
  "conserves f \<longleftrightarrow> (\<forall>r st r' st'. f r st = (r', st') \<longrightarrow> record_ok r \<longrightarrow>
     record_ok r' \<and>
     (\<forall>t. unat (sa_owed (sh_aborts (st t))) + of_bool (t \<in> marked r' - marked r) < 2 ^ 32 \<longrightarrow>
          of_bool (t \<in> marked r) \<le> unat (sa_owed (sh_aborts (st t))) \<longrightarrow>
          unat (sa_owed (sh_aborts (st' t))) + of_bool (t \<in> marked r) =
          unat (sa_owed (sh_aborts (st t))) + of_bool (t \<in> marked r')))"

lemma record_chain_distinct: "record_ok r \<Longrightarrow> distinct (record_chain live r)"
  by (auto simp: record_ok_def record_chain_def split: option.splits)

lemma sa_owed_simps [simp]:
  "sa_owed (add_owed a) = saturating_add_u32 (sa_owed a) 1"
  "sa_owed (drop_owed a) = saturating_sub_u32 (sa_owed a) 1"
  "sa_owed (raise_latest now a) = sa_owed a"
  by (simp_all add: add_owed_def drop_owed_def raise_latest_def)

lemma owed_each_latest [simp]:
  "sa_owed (sh_aborts (each_token (raise_latest now) chain st t)) = sa_owed (sh_aborts (st t))"
  by (induction chain arbitrary: st) (auto simp: each_token_def)

lemma owed_mark_drop:
  assumes "record_ok r"
  shows "unat (sa_owed (sh_aborts (mark_drop (ow_mark (ar_owed r)) st t))) =
    unat (sa_owed (sh_aborts (st t))) - of_bool (t \<in> marked r)"
  using assms
  by (auto simp: mark_drop_def marked_def record_ok_def aborts_each_token unat_saturating_sub_u32_1
      split: option.splits)

lemma conserves_owe: "conserves (owe live)"
  unfolding conserves_def
proof (intro allI impI)
  fix r st r' st'
  assume eq: "owe live r st = (r', st')" and ok: "record_ok r"
  show "record_ok r' \<and>
     (\<forall>t. unat (sa_owed (sh_aborts (st t))) + of_bool (t \<in> marked r' - marked r) < 2 ^ 32 \<longrightarrow>
          of_bool (t \<in> marked r) \<le> unat (sa_owed (sh_aborts (st t))) \<longrightarrow>
          unat (sa_owed (sh_aborts (st' t))) + of_bool (t \<in> marked r) =
          unat (sa_owed (sh_aborts (st t))) + of_bool (t \<in> marked r'))"
  proof (cases "ow_ended (ar_owed r) \<or> ow_mark (ar_owed r) \<noteq> None \<or> ow_at (ar_owed r) \<noteq> None")
    case True
    then show ?thesis using eq ok by (auto simp: owe_def Let_def)
  next
    case False
    then show ?thesis
      using eq ok record_chain_distinct [OF ok, of live]
      by (auto simp: owe_def Let_def marked_def record_ok_def aborts_each_token
          unat_saturating_add_u32_1)
  qed
qed

lemma conserves_release: "conserves (release now)"
  unfolding conserves_def
proof (intro allI impI)
  fix r st r' st'
  assume eq: "release now r st = (r', st')" and ok: "record_ok r"
  have st': "st' = mark_drop (ow_mark (ar_owed r))
      (case ow_mark (ar_owed r) of None \<Rightarrow> st | Some chain \<Rightarrow> each_token (raise_latest now) chain st)"
    and r': "marked r' = {}" "record_ok r'"
    using eq ok by (auto simp: release_def Let_def marked_def record_ok_def)
  have "unat (sa_owed (sh_aborts (st' t))) = unat (sa_owed (sh_aborts (st t))) - of_bool (t \<in> marked r)" for t
    unfolding st' owed_mark_drop [OF ok] by (simp split: option.splits)
  then show "record_ok r' \<and>
     (\<forall>t. unat (sa_owed (sh_aborts (st t))) + of_bool (t \<in> marked r' - marked r) < 2 ^ 32 \<longrightarrow>
          of_bool (t \<in> marked r) \<le> unat (sa_owed (sh_aborts (st t))) \<longrightarrow>
          unat (sa_owed (sh_aborts (st' t))) + of_bool (t \<in> marked r) =
          unat (sa_owed (sh_aborts (st t))) + of_bool (t \<in> marked r'))"
    using r' by simp
qed

lemma conserves_record_abort: "conserves (record_abort now live)"
  unfolding conserves_def
proof (intro allI impI)
  fix r st r' st'
  assume eq: "record_abort now live r st = (r', st')" and ok: "record_ok r"
  show "record_ok r' \<and>
     (\<forall>t. unat (sa_owed (sh_aborts (st t))) + of_bool (t \<in> marked r' - marked r) < 2 ^ 32 \<longrightarrow>
          of_bool (t \<in> marked r) \<le> unat (sa_owed (sh_aborts (st t))) \<longrightarrow>
          unat (sa_owed (sh_aborts (st' t))) + of_bool (t \<in> marked r) =
          unat (sa_owed (sh_aborts (st t))) + of_bool (t \<in> marked r'))"
  proof (cases "ow_at (ar_owed r)")
    case (Some a)
    then show ?thesis using eq ok by (auto simp: record_abort_def Let_def)
  next
    case None
    have r': "marked r' = {}" "record_ok r'"
      using eq ok None by (auto simp: record_abort_def Let_def marked_def record_ok_def)
    have "unat (sa_owed (sh_aborts (st' t))) = unat (sa_owed (sh_aborts (st t))) - of_bool (t \<in> marked r)" for t
      using eq None owed_mark_drop [OF ok] by (auto simp: record_abort_def Let_def)
    then show ?thesis using r' by simp
  qed
qed

lemma conserves_owe_for: "conserves (owe_for now finished live)"
  by (cases finished) (simp_all add: owe_for_def [abs_def] conserves_owe conserves_release)

lemma conserves_abort: "conserves (\<lambda>r st. snd (abort now finished live r st))"
  by (cases finished) (simp_all add: abort_def conserves_record_abort conserves_release)

lemmas conserves_all =
  conserves_owe conserves_release conserves_record_abort conserves_owe_for conserves_abort

lemma abort_inv_on_record:
  assumes inv: "abort_inv s" and f: "conserves f"
  shows "abort_inv (on_record i f s)"
proof (cases "i < length (as_records s)")
  case True
  let ?rs = "as_records s"
  obtain r' st' where eq: "f (?rs ! i) (as_store s) = (r', st')"
    by (metis prod.exhaust)
  have ok: "record_ok (?rs ! i)" and len: "length ?rs < 2 ^ 32"
    and cnt: "\<And>t. unat (sa_owed (sh_aborts (as_store s t))) = owed_count ?rs t"
    using inv True by (auto simp: abort_inv_def)
  from f eq ok have ok': "record_ok r'"
    and owed: "\<And>t. unat (sa_owed (sh_aborts (as_store s t))) +
        of_bool (t \<in> marked r' - marked (?rs ! i)) < 2 ^ 32 \<Longrightarrow>
      of_bool (t \<in> marked (?rs ! i)) \<le> unat (sa_owed (sh_aborts (as_store s t))) \<Longrightarrow>
      unat (sa_owed (sh_aborts (st' t))) + of_bool (t \<in> marked (?rs ! i)) =
      unat (sa_owed (sh_aborts (as_store s t))) + of_bool (t \<in> marked r')"
    unfolding conserves_def by blast+
  have "unat (sa_owed (sh_aborts (st' t))) = owed_count (?rs[i := r']) t" for t
  proof -
    have "owed_count ?rs t + of_bool (t \<in> marked r' - marked (?rs ! i)) < 2 ^ 32"
      using owed_count_le [of ?rs t] owed_count_unmarked_lt [OF True, of t] len by auto
    moreover have "of_bool (t \<in> marked (?rs ! i)) \<le> owed_count ?rs t"
      using owed_count_marked_pos [OF True, of t] by auto
    ultimately show ?thesis
      using owed [of t] owed_count_update [OF True, of r' t] by (simp add: cnt)
  qed
  moreover have "record_ok q" if "q \<in> set (?rs[i := r'])" for q
    using that ok' inv set_update_subset_insert [of ?rs i r'] by (auto simp: abort_inv_def)
  ultimately show ?thesis
    using True len eq by (simp add: on_record_def abort_inv_def)
qed (simp add: on_record_def inv)

lemma abort_inv_step: "abort_inv s \<Longrightarrow> abort_inv (abort_step s op)"
  by (cases op) (simp_all add: abort_inv_on_record conserves_all task_ended_def [abs_def])

interpretation aborts: invariant_machine abort_step abort_inv
  by unfold_locales (rule abort_inv_step)

text \<open>Records that were just linked, and a store in which nothing is owed yet.\<close>

definition abort_start :: "subtree_token list \<Rightarrow> abort_state" where
  "abort_start ts =
     \<lparr>as_records = map (\<lambda>t. record_link t abort_record_new) ts, as_store = (\<lambda>_. subtree_shared_new)\<rparr>"

lemma abort_inv_start:
  assumes "\<forall>t \<in> set ts. distinct (token_chain t)" "length ts < 2 ^ 32"
  shows "abort_inv (abort_start ts)"
proof -
  have "owed_count (map (\<lambda>t. record_link t abort_record_new) ts) x = 0" for x
    by (induction ts)
      (auto simp: owed_count_def marked_def record_link_def abort_record_new_def)
  then show ?thesis
    using assms by (auto simp: abort_inv_def abort_start_def record_ok_def record_link_def
        abort_record_new_def subtree_shared_new_def)
qed

lemma owed_count_pos_iff: "0 < owed_count rs t \<longleftrightarrow> (\<exists>r \<in> set rs. t \<in> marked r)"
  by (induction rs) (auto simp: owed_count_def)

text \<open>The store after each update of one token in a sequence of them, in order.\<close>

fun token_states ::
  "(subtree_aborts \<Rightarrow> subtree_aborts) \<Rightarrow> token_id list \<Rightarrow> store \<Rightarrow> store list" where
  "token_states change [] st = [st]"
| "token_states change (s # chain) st =
     st # token_states change chain (st(s := update_aborts change (st s)))"

definition release_states :: "instant \<Rightarrow> abort_record \<Rightarrow> store \<Rightarrow> store list" where
  "release_states now r st =
     (case ow_mark (ar_owed r) of
        None \<Rightarrow> [st]
      | Some chain \<Rightarrow>
          token_states (raise_latest now) chain st @
          token_states drop_owed chain (each_token (raise_latest now) chain st))"

lemma last_token_states: "last (token_states change chain st) = each_token change chain st"
proof (induction chain arbitrary: st)
  case (Cons s chain)
  have "token_states change chain st' \<noteq> []" for st'
    by (cases chain) simp_all
  then show ?case using Cons by (simp add: each_token_def)
qed (simp add: each_token_def)

lemma token_states_nonempty [simp]: "token_states change chain st \<noteq> []"
  by (cases chain) simp_all

lemma last_release_states: "last (release_states now r st) = snd (release now r st)"
  by (simp add: release_states_def release_def mark_drop_def Let_def last_token_states
      split: option.splits)

lemma token_states_latest:
  "st' \<in> set (token_states (raise_latest now) chain st) \<Longrightarrow>
     sa_owed (sh_aborts (st' t)) = sa_owed (sh_aborts (st t))"
  by (induction chain arbitrary: st) auto

lemma token_states_drop:
  "st' \<in> set (token_states drop_owed chain st) \<Longrightarrow>
     sa_latest (sh_aborts (st' t)) = sa_latest (sh_aborts (st t))"
  by (induction chain arbitrary: st) (auto simp: drop_owed_def)

lemma each_latest_at_least:
  "t \<in> set chain \<or> (\<exists>l. sa_latest (sh_aborts (st t)) = Some l \<and> now \<le> l) \<Longrightarrow>
     \<exists>l. sa_latest (sh_aborts (each_token (raise_latest now) chain st t)) = Some l \<and> now \<le> l"
proof (induction chain arbitrary: st)
  case (Cons s chain)
  have "t \<in> set chain \<or> (\<exists>l. sa_latest (sh_aborts ((st(s := update_aborts (raise_latest now) (st s))) t)) =
      Some l \<and> now \<le> l)"
    using Cons.prems by (auto simp: raise_latest_def split: option.splits)
  then have "\<exists>l. sa_latest (sh_aborts (each_token (raise_latest now) chain
      (st(s := update_aborts (raise_latest now) (st s))) t)) = Some l \<and> now \<le> l"
    by (rule Cons.IH)
  then show ?case by (simp add: each_token_def)
qed (auto simp: each_token_def)

section \<open>Properties of the subtree\<close>

lemma path_nanos_le_below:
  assumes "forest_inv f" "u \<in> set (fo_tokens f)" "t \<in> set (ancestors u)"
    and "below (fo_store f) t \<noteq> u64_max"
  shows "path_nanos u t \<le> unat (below (fo_store f) t)"
proof -
  have "\<forall>v \<in> set (ancestors u). edge_ok (fo_store f) v"
    using assms(1,2) unfolding forest_inv_def by blast
  from path_nanos_covered [OF this assms(3)]
  have "min (path_nanos u t) (2 ^ 64 - 1) \<le> unat (below (fo_store f) t)"
    by simp
  moreover have "unat (below (fo_store f) t) < 2 ^ 64 - 1"
    using assms(4) unat_lt_2_64 [of "below (fo_store f) t"] unat_eq_u64_max_iff by fastforce
  ultimately show ?thesis by simp
qed

lemma wait_expired_after_bound:
  assumes "wait_expired s st later (wait_new s st0 now)" "roomy 1 now"
  shows "\<exists>bound. release_bound s st0 = Some bound \<and> now + int (bounded_wait bound) \<le> later"
proof -
  obtain bound where b: "release_bound s st0 = Some bound"
    using assms(1) by (cases "release_bound s st0")
      (auto simp: wait_expired_def wait_verdict_at_def wait_new_def wait_rearm_def Let_def)
  let ?d = "saturating_deadline now bound"
  have "\<exists>cap latest is_owed. verdict_floor ?d cap latest is_owed \<le> later"
    using assms(1) b
    by (auto simp: wait_expired_def wait_verdict_at_def wait_new_def wait_rearm_def Let_def
        split: prod.splits)
  moreover have "?d \<le> verdict_floor ?d cap latest is_owed" for cap latest is_owed
    by (rule verdict_floor_ge)
  moreover have "?d = now + int (bounded_wait bound)"
    using deadline_after_roomy [of 0 now "bounded_wait bound"] assms(2)
    by (simp add: saturating_deadline_eq bounded_wait_def)
  ultimately show ?thesis using b order_trans by metis
qed

text \<open>
  C32.  A wait on a subtree never gives its verdict before any chain of actors below could have ended:
  in a forest built by any sequence of spawns, a wait started on the token \<open>t\<close> that has expired at
  \<open>later\<close> has lasted at least the sum of the times of the actors on the path from any descendant \<open>u\<close>
  up to \<open>t\<close>, plus the settle time (all capped at the far-future horizon), whatever aborts were owed
  or recorded meanwhile.
\<close>

theorem subtree_wait_covers_descendants:
  assumes "f = run forest_step forest_empty ops"
    and "u \<in> set (fo_tokens f)" "t \<in> set (ancestors u)"
    and "wait_expired (token_id_of t) st later (wait_new (token_id_of t) (fo_store f) now)"
    and "roomy 1 now"
  shows "now + int (bounded_wait (path_nanos u t + ABORT_SETTLE)) \<le> later"
proof -
  have inv: "forest_inv f"
    unfolding assms(1) by (rule forest.run_inv [OF forest_inv_empty])
  obtain bound where b: "release_bound (token_id_of t) (fo_store f) = Some bound"
    and later: "now + int (bounded_wait bound) \<le> later"
    using wait_expired_after_bound [OF assms(4,5)] by blast
  let ?sum = "saturating_add_u64 (below (fo_store f) t) (saturating_nanos ABORT_SETTLE)"
  have sum: "?sum \<noteq> u64_max" and bound: "bound = bounded_wait (unat ?sum)"
    using b by (auto simp: release_bound_def successor_bound_def Let_def split: if_splits)
  then have exact: "unat ?sum = unat (below (fo_store f) t) + ABORT_SETTLE"
    by (simp add: unat_eq_u64_max_iff unat_saturating_add_u64 min_def split: if_splits)
  have "below (fo_store f) t \<noteq> u64_max"
    using sum exact unat_u64_max unat_lt_2_64 [of ?sum] by (auto simp: ABORT_SETTLE_def millis_def)
  then have "path_nanos u t + ABORT_SETTLE \<le> unat ?sum"
    using path_nanos_le_below [OF inv assms(2,3)] exact by simp
  then have "bounded_wait (path_nanos u t + ABORT_SETTLE) \<le> bounded_wait bound"
    by (auto simp: bound bounded_wait_def)
  then show ?thesis using later by simp
qed

theorem subtree_wait_covers_descendants_witness:
  "(0 :: instant) + int (bounded_wait
     (path_nanos (SubtreeToken 1 5 (Some (SubtreeToken 0 0 None))) (SubtreeToken 0 0 None) + ABORT_SETTLE))
   \<le> 200000005"
proof (rule subtree_wait_covers_descendants [OF refl])
  let ?f = "run forest_step forest_empty [SpawnRoot, SpawnUnder 0 5 False]"
  let ?u = "SubtreeToken 1 5 (Some (SubtreeToken 0 0 None))"
  have nanos: "saturating_nanos 5 = 5"
    by (simp add: saturating_nanos_def)
  have f: "?f = \<lparr>fo_tokens = [SubtreeToken 0 0 None, ?u],
      fo_store = bump_below 0 5 ((\<lambda>_. subtree_shared_new)(0 := subtree_shared_new, 1 := subtree_shared_new))\<rparr>"
    by (simp add: forest_empty_def forest_add_def hold_build_def raise_below_simps nanos
        subtree_shared_new_def Let_def)
  show "?u \<in> set (fo_tokens ?f)" "SubtreeToken 0 0 None \<in> set (ancestors ?u)"
    unfolding f by simp_all
  have far: "FAR_FUTURE = 946080000000000000"
    by (simp add: FAR_FUTURE_def secs_def nanos_per_sec_def)
  have sum: "saturating_add_u64 5 (saturating_nanos ABORT_SETTLE) = 100000005"
    by (simp add: saturating_add_u64_def saturating_nanos_def ABORT_SETTLE_def millis_def)
  have inf: "ss_inf_live (sh_signal (bump_below 0 5 ((\<lambda>_. subtree_shared_new)
      (0 := subtree_shared_new, 1 := subtree_shared_new)) 0)) = 0"
    by (simp add: bump_below_def modify_signal_def wake_waits_def subtree_shared_new_def)
  have "release_bound 0 (fo_store ?f) = Some 100000005"
    unfolding f by (simp add: release_bound_def successor_bound_def inf [simplified] sum u64_max_def far
        bounded_wait_def)
  then show "wait_expired (token_id_of (SubtreeToken 0 0 None)) (\<lambda>_. subtree_shared_new) 200000005
      (wait_new (token_id_of (SubtreeToken 0 0 None)) (fo_store ?f) 0)"
    by (simp add: wait_expired_def wait_verdict_at_def wait_new_def wait_rearm_def Let_def
        abort_view_def subtree_shared_new_def verdict_floor_def saturating_deadline_def
        deadline_after_def checked_add_instant_def instant_bound_def far ABORT_SETTLE_def millis_def)
  show "roomy 1 0"
    by (simp add: roomy_def far instant_bound_def)
qed



text \<open>
  The end of an actor that is owed an abort leaves no gap for the waits on its subtree: while its mark is
  taken back from the token and every ancestor, one critical section at a time, each of them reads
  either the mark still counted or a latest abort at least as late as the end.
\<close>

lemma release_leaves_no_gap:
  assumes "ow_mark (ar_owed r) = Some chain" "t \<in> set chain" "st' \<in> set (release_states now r st)"
  shows "sa_owed (sh_aborts (st' t)) = sa_owed (sh_aborts (st t)) \<or>
    (\<exists>l. sa_latest (sh_aborts (st' t)) = Some l \<and> now \<le> l)"
  using assms token_states_latest [of st' now chain st t] each_latest_at_least [of t chain st now]
    token_states_drop [of st' chain "each_token (raise_latest now) chain st" t]
  by (auto simp: release_states_def)

end
