(* ===== verification/Ledger.thy ===== *)
theory Ledger
  imports Types
begin

text \<open>
  The ledger entry of one child spec (\<open>src/src/actor/supervision.rs\<close>) and the decisions that
  read it (\<open>src/src/actor/supervision/rules.rs\<close>): the table of legal moves, the class of
  a report, what \<open>children()\<close> shows, and what a restart chain does with its front.
\<close>

section \<open>The entry\<close>

datatype manual_stop = Bounce | Terminate

datatype down_pending = OwesNothing | OwesSnapshot | OwesEvaluate

datatype origin = OriginInitial | OriginStrategy | OriginBounce | OriginManual | OriginChain

datatype child_lifecycle =
    Running u64
  | Stopping u64 manual_stop
  | Restarting u64 u64
  | Down u64 down_pending

fun occupant :: "child_lifecycle \<Rightarrow> u64 option" where
  "occupant (Running n) = Some n"
| "occupant (Stopping n _) = Some n"
| "occupant (Restarting _ nxt) = Some nxt"
| "occupant (Down _ _) = None"

fun held_token :: "child_lifecycle \<Rightarrow> u64" where
  "held_token (Running n) = n"
| "held_token (Stopping n _) = n"
| "held_token (Down n _) = n"
| "held_token (Restarting _ nxt) = nxt"

fun is_legal :: "child_lifecycle \<Rightarrow> child_lifecycle \<Rightarrow> bool" where
  "is_legal (Running n) (Stopping m _) = (n = m)"
| "is_legal (Running n) (Down m _) = (n = m)"
| "is_legal (Stopping n _) (Down m _) = (n = m)"
| "is_legal (Stopping n Bounce) (Stopping m Terminate) = (n = m)"
| "is_legal (Restarting _ nxt) (Running m) = (nxt = m)"
| "is_legal (Restarting _ nxt) (Down m _) = (nxt = m)"
| "is_legal (Down n _) (Restarting p nxt) = (n = p \<and> nxt > n)"
| "is_legal (Down n _) (Down m _) = (n = m)"
| "is_legal _ _ = False"

text \<open>\<open>ChildState::transition\<close> on the entry: the move if it is legal, else the entry as it was.\<close>

definition transition_life :: "child_lifecycle \<Rightarrow> child_lifecycle \<Rightarrow> bool \<times> child_lifecycle" where
  "transition_life l to' = (if is_legal l to' then (True, to') else (False, l))"

datatype report_class = Occupant | OwedEvaluation | Stale

definition report_class_of :: "child_lifecycle \<Rightarrow> u64 \<Rightarrow> report_class" where
  "report_class_of l n =
     (if occupant l = Some n then Occupant
      else if l = Down n OwesEvaluate then OwedEvaluation
      else Stale)"

fun child_info_flags :: "child_lifecycle \<Rightarrow> bool \<Rightarrow> bool \<Rightarrow> bool \<times> bool" where
  "child_info_flags (Running _) fate_present in_restart_set = (\<not> fate_present, fate_present)"
| "child_info_flags (Stopping _ _) fate_present in_restart_set = (\<not> fate_present, False)"
| "child_info_flags (Restarting _ _) fate_present in_restart_set = (False, True)"
| "child_info_flags (Down _ pending) fate_present in_restart_set =
     (False, pending = OwesEvaluate \<or> in_restart_set)"

datatype front_action = Fresh | Initiate | StopThenInitiate | Hold

fun chain_front :: "child_lifecycle \<Rightarrow> u64 option \<Rightarrow> front_action" where
  "chain_front (Down _ _) started = Initiate"
| "chain_front (Running k) started = (if started = Some k then Fresh else StopThenInitiate)"
| "chain_front (Stopping _ _) started = Hold"
| "chain_front (Restarting _ _) started = Hold"

section \<open>The legal moves\<close>

fun_cases is_legal_RunningE: "is_legal (Running n) l"
fun_cases is_legal_StoppingE: "is_legal (Stopping n k) l"
fun_cases is_legal_RestartingE: "is_legal (Restarting p nxt) l"
fun_cases is_legal_DownE: "is_legal (Down n p) l"

lemmas is_legal_elims =
  is_legal_RunningE is_legal_StoppingE is_legal_RestartingE is_legal_DownE

lemma is_legal_stop [ledger_intros]: "is_legal (Running n) (Stopping n k)"
  by (cases k) simp_all

lemma is_legal_upgrade [ledger_intros]: "is_legal (Stopping n Bounce) (Stopping n Terminate)"
  by simp

lemma is_legal_down [ledger_intros]:
  "occupant l = Some n \<Longrightarrow> is_legal l (Down n p)"
  by (cases l rule: occupant.cases; cases p) auto

lemma is_legal_pending [ledger_intros]: "is_legal (Down n p) (Down n q)"
  by simp

lemma is_legal_restart [ledger_intros]: "n < nxt \<Longrightarrow> is_legal (Down n p) (Restarting n nxt)"
  by simp

lemma is_legal_adopt [ledger_intros]: "is_legal (Restarting p n) (Running n)"
  by simp

definition ledger_step :: "child_lifecycle \<Rightarrow> child_lifecycle \<Rightarrow> child_lifecycle" where
  "ledger_step l to' = snd (transition_life l to')"

lemma is_legal_token: "is_legal l m \<Longrightarrow> held_token l \<le> held_token m"
  by (induction l m rule: is_legal.induct) auto

lemma is_legal_new_token:
  "is_legal l m \<Longrightarrow> held_token l < held_token m \<Longrightarrow> \<exists>n p. l = Down n p \<and> m = Restarting n (held_token m)"
  by (induction l m rule: is_legal.induct) auto

lemma ledger_step_token: "held_token l \<le> held_token (ledger_step l m)"
  by (auto simp: ledger_step_def transition_life_def is_legal_token)

interpretation ledger: monotone_machine ledger_step "\<lambda>_. True" held_token
  by unfold_locales (simp_all add: ledger_step_token)

definition retired :: "u64 \<Rightarrow> child_lifecycle \<Rightarrow> bool" where
  "retired n l \<longleftrightarrow> n \<le> held_token l \<and> (\<forall>m. occupant l = Some m \<longrightarrow> n < m)"

lemma is_legal_retired: "is_legal l m \<Longrightarrow> retired n l \<Longrightarrow> retired n m"
  by (induction l m rule: is_legal.induct) (auto simp: retired_def)

lemma ledger_step_retired: "retired n l \<Longrightarrow> retired n (ledger_step l m)"
  by (auto simp: ledger_step_def transition_life_def intro: is_legal_retired)

interpretation ledger_retired: invariant_machine ledger_step "retired n" for n
  by unfold_locales (rule ledger_step_retired)

lemma retired_Down: "retired n (Down n p)"
  by (simp add: retired_def)

lemma report_class_token: "report_class_of l n \<noteq> Stale \<Longrightarrow> n = held_token l"
  by (cases l) (auto simp: report_class_of_def split: if_splits)

section \<open>Properties of the ledger\<close>

text \<open>
  A retired incarnation never returns: once a spec is down after incarnation \<open>n\<close>, no sequence of
  moves, accepted or rejected, makes an incarnation up to \<open>n\<close> the occupant again, and every
  later occupant holds a strictly larger token.
\<close>

lemma ledger_retired_never_returns:
  assumes "occupant (run ledger_step (Down n p) ms) = Some k"
  shows "n < k"
proof -
  have "retired n (run ledger_step (Down n p) ms)"
    by (rule ledger_retired.run_inv) (rule retired_Down)
  then show ?thesis using assms by (simp add: retired_def)
qed

text \<open>
  A report of an incarnation the entry has moved past is stale for good: once the entry holds a
  larger token than the report's, every later class of that report is \<open>Stale\<close>, so no
  superseded incarnation's end is ever applied to the spec.
\<close>

theorem stale_report_stays_stale:
  assumes "n < held_token l"
  shows "report_class_of (run ledger_step l ms) n = Stale"
proof (rule ccontr)
  assume "report_class_of (run ledger_step l ms) n \<noteq> Stale"
  then have "n = held_token (run ledger_step l ms)"
    by (rule report_class_token)
  moreover have "held_token l \<le> held_token (run ledger_step l ms)"
    by (rule ledger.run_level) simp
  ultimately show False using assms by simp
qed

end
