(* ===== verification/Manual_Stop.thy ===== *)
theory Manual_Stop
  imports Ledger
begin

text \<open>
  The decisions of the manual calls (\<open>src/src/actor/supervision/rules.rs\<close>): what \<open>stop_child\<close>
  and \<open>terminate_child\<close> commit, what \<open>restart_child\<close> and \<open>delete_child\<close> answer, and
  how a completed stop and a failed restart attempt are classified.
\<close>

section \<open>Facts and decisions\<close>

datatype group_membership =
    MemberNone
  | MemberAwaited bool
  | MemberQueued
  | MemberReleased

datatype task_state = TaskLive | TaskRunnerLost | TaskEnded

datatype manual_reply =
    ReplyOk
  | ReplyChildNotFound
  | ReplyChildRestarting
  | ReplyChildRunning
  | ReplyAbsorbed

datatype commit_effect =
    RaiseFirst
  | WriteOrder
  | RecordOverride
  | LeaveRestartOrder
  | Join
  | Reask
  | ReaskOnce
  | Classify
  | Dismiss
  | RewriteSnapshot
  | Answer manual_reply

record commit =
  cm_to :: "child_lifecycle option"
  cm_effects :: "commit_effect list"

definition answer :: "manual_reply \<Rightarrow> commit" where
  "answer reply = \<lparr>cm_to = None, cm_effects = [Answer reply]\<rparr>"

record manual_facts =
  mf_life :: "child_lifecycle option"
  mf_task :: task_state
  mf_membership :: group_membership
  mf_restart_type :: restart_type
  mf_pool :: bool
  mf_restarted :: bool
  mf_in_keep_scope :: bool
  mf_policy :: shutdown
  mf_lane_vetoable :: bool
  mf_reasked :: bool
  mf_has_order :: bool

definition prunable :: "manual_facts \<Rightarrow> bool" where
  "prunable f \<longleftrightarrow> mf_pool f \<or> mf_restart_type f = Temporary"

definition permanent :: "manual_facts \<Rightarrow> bool" where
  "permanent f \<longleftrightarrow> mf_restart_type f = Permanent"

definition ask_possible :: "manual_facts \<Rightarrow> bool" where
  "ask_possible f \<longleftrightarrow>
     mf_task f \<noteq> TaskEnded \<and> mf_policy f = ShutdownInfinity \<and> mf_lane_vetoable f"

datatype stop_route = RouteBounce | RouteAsTerminate | RouteAbsorbed | RouteRefused

fun is_restarting :: "child_lifecycle option \<Rightarrow> bool" where
  "is_restarting (Some (Restarting _ _)) = True"
| "is_restarting _ = False"

definition stop_route_of :: "manual_facts \<Rightarrow> stop_route" where
  "stop_route_of f =
     (let attempt = is_restarting (mf_life f);
          own_policy = (if permanent f then RouteRefused else RouteAsTerminate);
          held = (if permanent f then RouteAbsorbed else RouteAsTerminate)
      in case mf_membership f of
           MemberQueued \<Rightarrow> if attempt then RouteRefused else held
         | MemberAwaited False \<Rightarrow> held
         | MemberAwaited True \<Rightarrow> own_policy
         | MemberReleased \<Rightarrow> own_policy
         | MemberNone \<Rightarrow>
             if mf_restarted f then own_policy
             else if \<not> permanent f \<and> mf_in_keep_scope f then RouteAsTerminate
             else RouteBounce)"

fun bounce_commit :: "child_lifecycle \<Rightarrow> manual_facts \<Rightarrow> commit" where
  "bounce_commit (Restarting _ _) f = answer ReplyChildRestarting"
| "bounce_commit (Running incarnation) f =
     (case mf_task f of
        TaskEnded \<Rightarrow> \<lparr>cm_to = None, cm_effects = [Classify, Answer ReplyOk]\<rparr>
      | TaskLive \<Rightarrow>
          \<lparr>cm_to = Some (Stopping incarnation Bounce), cm_effects = [RaiseFirst, WriteOrder, Join]\<rparr>
      | TaskRunnerLost \<Rightarrow>
          \<lparr>cm_to = Some (Stopping incarnation Bounce), cm_effects = [WriteOrder, Join]\<rparr>)"
| "bounce_commit (Stopping _ _) f =
     \<lparr>cm_to = None, cm_effects = (if ask_possible f then [Reask, Join] else [Join])\<rparr>"
| "bounce_commit (Down _ OwesEvaluate) f = answer ReplyChildRestarting"
| "bounce_commit (Down _ _) f = answer ReplyOk"

text \<open>The helpers \<open>ask\<close>, \<open>with\<close>, \<open>record\<close> and \<open>upgraded\<close> of \<open>terminate_commit\<close>.\<close>

definition ask :: "manual_facts \<Rightarrow> bool \<Rightarrow> commit_effect option" where
  "ask f shared =
     (if \<not> ask_possible f then None
      else if shared then (if \<not> mf_reasked f then Some ReaskOnce else None)
      else Some Reask)"

fun with_head :: "commit_effect option \<Rightarrow> commit_effect list \<Rightarrow> commit_effect list" where
  "with_head None tail = tail"
| "with_head (Some h) tail = h # tail"

definition record_override :: "manual_facts \<Rightarrow> bool \<Rightarrow> commit_effect option" where
  "record_override f spec_kept =
     (if mf_in_keep_scope f \<and> spec_kept then Some RecordOverride else None)"

fun upgraded :: "u64 \<Rightarrow> manual_stop \<Rightarrow> child_lifecycle option" where
  "upgraded incarnation Bounce = Some (Stopping incarnation Terminate)"
| "upgraded incarnation Terminate = None"

fun terminate_none :: "child_lifecycle \<Rightarrow> manual_facts \<Rightarrow> commit" where
  "terminate_none (Restarting _ _) f = answer ReplyChildRestarting"
| "terminate_none (Running incarnation) f =
     (case mf_task f of
        TaskEnded \<Rightarrow>
          \<lparr>cm_to = None,
           cm_effects = with_head (Some Classify)
             (with_head (record_override f (\<not> prunable f)) [Answer ReplyOk])\<rparr>
      | TaskLive \<Rightarrow>
          \<lparr>cm_to = Some (Stopping incarnation Terminate),
           cm_effects = with_head (Some RaiseFirst)
             (with_head (Some WriteOrder) (with_head (record_override f True) [Join]))\<rparr>
      | TaskRunnerLost \<Rightarrow>
          \<lparr>cm_to = Some (Stopping incarnation Terminate),
           cm_effects = with_head (Some WriteOrder) (with_head (record_override f True) [Join])\<rparr>)"
| "terminate_none (Stopping incarnation in_flight) f =
     \<lparr>cm_to = upgraded incarnation in_flight,
      cm_effects = with_head (ask f (mf_in_keep_scope f))
        (with_head (record_override f True) [Join])\<rparr>"
| "terminate_none (Down _ OwesEvaluate) f =
     \<lparr>cm_to = None,
      cm_effects = with_head (Some Dismiss)
        (with_head (record_override f (\<not> prunable f)) [Answer ReplyOk])\<rparr>"
| "terminate_none (Down _ _) f =
     \<lparr>cm_to = None, cm_effects = with_head (record_override f True) [Answer ReplyOk]\<rparr>"

fun terminate_awaited :: "child_lifecycle \<Rightarrow> manual_facts \<Rightarrow> commit" where
  "terminate_awaited (Running _) f =
     \<lparr>cm_to = None,
      cm_effects =
        [RecordOverride, LeaveRestartOrder] @
        (case (mf_task f, mf_has_order f) of
           (TaskEnded, _) \<Rightarrow> []
         | (TaskLive, False) \<Rightarrow> [RaiseFirst, WriteOrder]
         | (TaskRunnerLost, False) \<Rightarrow> [WriteOrder]
         | (_, True) \<Rightarrow> with_head (ask f True) []) @
        [Join]\<rparr>"
| "terminate_awaited (Stopping incarnation in_flight) f =
     \<lparr>cm_to = upgraded incarnation in_flight,
      cm_effects = [RecordOverride, LeaveRestartOrder] @ with_head (ask f True) [] @ [Join]\<rparr>"
| "terminate_awaited _ f = answer ReplyChildRestarting"

fun terminate_queued :: "child_lifecycle \<Rightarrow> commit" where
  "terminate_queued (Down _ OwesEvaluate) =
     \<lparr>cm_to = None,
      cm_effects = [Dismiss, RecordOverride, LeaveRestartOrder, Answer ReplyOk]\<rparr>"
| "terminate_queued (Down _ OwesSnapshot) =
     \<lparr>cm_to = None,
      cm_effects = [RecordOverride, LeaveRestartOrder, RewriteSnapshot, Answer ReplyOk]\<rparr>"
| "terminate_queued (Down _ OwesNothing) =
     \<lparr>cm_to = None, cm_effects = [RecordOverride, LeaveRestartOrder, Answer ReplyOk]\<rparr>"
| "terminate_queued _ = answer ReplyChildRestarting"

fun terminate_released :: "child_lifecycle \<Rightarrow> manual_facts \<Rightarrow> commit" where
  "terminate_released (Down _ _) f = answer ReplyOk"
| "terminate_released (Stopping _ Terminate) f =
     \<lparr>cm_to = None, cm_effects = with_head (ask f True) [Join]\<rparr>"
| "terminate_released _ f = answer ReplyChildRestarting"

definition terminate_commit :: "child_lifecycle \<Rightarrow> manual_facts \<Rightarrow> commit" where
  "terminate_commit life f =
     (if is_restarting (Some life) then answer ReplyChildRestarting
      else case mf_membership f of
          MemberNone \<Rightarrow> terminate_none life f
        | MemberAwaited _ \<Rightarrow> terminate_awaited life f
        | MemberQueued \<Rightarrow> terminate_queued life
        | MemberReleased \<Rightarrow> terminate_released life f)"

definition manual_commit :: "manual_stop \<Rightarrow> manual_facts \<Rightarrow> commit" where
  "manual_commit kind f =
     (case mf_life f of
        None \<Rightarrow> answer ReplyChildNotFound
      | Some life \<Rightarrow>
          (case kind of
             Terminate \<Rightarrow> terminate_commit life f
           | Bounce \<Rightarrow>
               (case stop_route_of f of
                  RouteAbsorbed \<Rightarrow> answer ReplyAbsorbed
                | RouteRefused \<Rightarrow> answer ReplyChildRestarting
                | RouteAsTerminate \<Rightarrow> terminate_commit life f
                | RouteBounce \<Rightarrow> bounce_commit life f)))"

definition effective_kind :: "manual_stop \<Rightarrow> manual_facts \<Rightarrow> manual_stop" where
  "effective_kind kind f =
     (if kind = Bounce \<and> stop_route_of f = RouteAsTerminate then Terminate else kind)"

section \<open>Answers and classifications\<close>

datatype manual_op = StopChild | TerminateChild | RestartChild | DeleteChild

fun bare_answer :: "commit_effect list \<Rightarrow> manual_reply" where
  "bare_answer [Answer reply] = reply"
| "bare_answer _ = ReplyOk"

definition answer_by_life :: "manual_op \<Rightarrow> manual_facts \<Rightarrow> child_lifecycle \<Rightarrow> manual_reply" where
  "answer_by_life op f life =
     (case life of
        Running _ \<Rightarrow>
          if mf_task f = TaskEnded then ReplyChildRestarting
          else if op = RestartChild \<and> mf_restarted f then ReplyChildRestarting
          else ReplyChildRunning
      | Stopping _ _ \<Rightarrow> ReplyChildRestarting
      | Restarting _ _ \<Rightarrow> ReplyChildRestarting
      | Down _ pending \<Rightarrow> if pending = OwesEvaluate then ReplyChildRestarting else ReplyOk)"

definition manual_answer :: "manual_op \<Rightarrow> manual_facts \<Rightarrow> manual_reply" where
  "manual_answer op f =
     (case op of
        StopChild \<Rightarrow> bare_answer (cm_effects (manual_commit Bounce f))
      | TerminateChild \<Rightarrow> bare_answer (cm_effects (manual_commit Terminate f))
      | _ \<Rightarrow>
          (case mf_life f of
             None \<Rightarrow> ReplyChildNotFound
           | Some life \<Rightarrow>
               if (case mf_membership f of
                     MemberAwaited _ \<Rightarrow> True
                   | MemberQueued \<Rightarrow> True
                   | MemberReleased \<Rightarrow> op = RestartChild
                   | MemberNone \<Rightarrow> False)
               then ReplyChildRestarting
               else answer_by_life op f life))"

record manual_outcome =
  mo_action :: "supervision_action option"
  mo_pending :: down_pending
  mo_remove :: bool
  mo_initiate :: bool

fun is_failure :: "stop_reason \<Rightarrow> bool" where
  "is_failure (Failure _) = True"
| "is_failure _ = False"

definition classify_manual ::
  "manual_stop \<Rightarrow> stop_reason \<Rightarrow> restart_type \<Rightarrow> bool \<Rightarrow> bool \<Rightarrow> manual_outcome" where
  "classify_manual kind reason restart_type pool in_restart_set =
     (let is_prunable = (pool \<or> restart_type = Temporary);
          stays_down =
            \<lparr>mo_action = Some Removed,
             mo_pending = (if is_prunable then OwesNothing else OwesSnapshot),
             mo_remove = is_prunable, mo_initiate = False\<rparr>
      in if kind = Bounce \<and> is_failure reason then
           \<lparr>mo_action = None, mo_pending = OwesEvaluate, mo_remove = False, mo_initiate = False\<rparr>
         else if in_restart_set then
           \<lparr>mo_action = Some RestartInitiated, mo_pending = OwesSnapshot,
            mo_remove = False, mo_initiate = False\<rparr>
         else case kind of
             Terminate \<Rightarrow> stays_down
           | Bounce \<Rightarrow>
               if pool then stays_down
               else if restart_type = Permanent then
                 \<lparr>mo_action = Some RestartInitiated, mo_pending = OwesSnapshot,
                  mo_remove = False, mo_initiate = True\<rparr>
               else stays_down)"

datatype route = ChainRetry | RouteMember | RouteRemoved | RouteEvaluate

definition attempt_failure_route :: "bool \<Rightarrow> group_membership \<Rightarrow> origin \<Rightarrow> route" where
  "attempt_failure_route chain_front_own membership origin =
     (if chain_front_own then ChainRetry
      else if (case membership of MemberAwaited _ \<Rightarrow> True | MemberQueued \<Rightarrow> True | _ \<Rightarrow> False)
      then RouteMember
      else if origin = OriginManual then RouteRemoved
      else RouteEvaluate)"

section \<open>Soundness of a commit\<close>

fun is_end :: "commit_effect \<Rightarrow> bool" where
  "is_end Join = True"
| "is_end (Answer _) = True"
| "is_end _ = False"

text \<open>The effects end with the one wait or answer of the call.\<close>

definition ends_once :: "commit_effect list \<Rightarrow> bool" where
  "ends_once es \<longleftrightarrow> es \<noteq> [] \<and> is_end (last es) \<and> (\<forall>e \<in> set (butlast es). \<not> is_end e)"

text \<open>
  A call waits on a running occupant only when a stop order for it exists or is written by the call,
  after the first signal when the occupant's runner is there to escalate it.
\<close>

definition waits_on_order :: "child_lifecycle \<Rightarrow> manual_facts \<Rightarrow> commit_effect list \<Rightarrow> bool" where
  "waits_on_order l f es \<longleftrightarrow>
     (\<forall>n. l = Running n \<and> Join \<in> set es \<and> mf_task f \<noteq> TaskEnded \<longrightarrow>
        (WriteOrder \<in> set es \<or> mf_has_order f) \<and>
        (WriteOrder \<in> set es \<and> mf_task f = TaskLive \<longrightarrow> RaiseFirst \<in> set es))"

definition commit_ok :: "child_lifecycle \<Rightarrow> manual_facts \<Rightarrow> commit \<Rightarrow> bool" where
  "commit_ok l f c \<longleftrightarrow>
     (\<forall>t. cm_to c = Some t \<longrightarrow> is_legal l t) \<and>
     ends_once (cm_effects c) \<and> waits_on_order l f (cm_effects c)"

lemma commit_ok_answer [simp]: "commit_ok l f (answer r)"
  by (simp add: commit_ok_def answer_def ends_once_def waits_on_order_def)

lemma set_with_head [simp]:
  "set (with_head h es) = (case h of None \<Rightarrow> {} | Some e \<Rightarrow> {e}) \<union> set es"
  by (cases h) auto

lemma ends_once_with_head [simp]:
  "(\<And>e. h = Some e \<Longrightarrow> \<not> is_end e) \<Longrightarrow> ends_once (with_head h es) = ends_once es"
  by (cases h; cases es) (auto simp: ends_once_def)

lemma ends_once_single [simp]: "ends_once [e] = is_end e"
  by (simp add: ends_once_def)

lemma ends_once_Cons [simp]:
  "\<not> is_end e \<Longrightarrow> ends_once (e # es) = ends_once es"
  by (cases es) (auto simp: ends_once_def)

lemma ask_not_end: "ask f b = Some e \<Longrightarrow> \<not> is_end e \<and> e \<noteq> WriteOrder \<and> e \<noteq> RaiseFirst"
  by (auto simp: ask_def split: if_splits)

lemma record_override_not_end:
  "record_override f b = Some e \<Longrightarrow> \<not> is_end e \<and> e \<noteq> WriteOrder \<and> e \<noteq> RaiseFirst"
  by (auto simp: record_override_def split: if_splits)

lemma upgraded_legal: "upgraded n k = Some t \<Longrightarrow> is_legal (Stopping n k) t"
  by (cases k) auto

lemmas commit_ok_simps =
  commit_ok_def waits_on_order_def answer_def ask_not_end record_override_not_end upgraded_legal
  is_legal_stop

lemma bounce_commit_ok: "commit_ok l f (bounce_commit l f)"
  by (induction l f rule: bounce_commit.induct)
    (auto simp: commit_ok_simps split: task_state.splits)

lemma terminate_none_ok: "commit_ok l f (terminate_none l f)"
  by (induction l f rule: terminate_none.induct)
    (auto simp: commit_ok_simps split: task_state.splits option.splits)

lemma terminate_awaited_ok: "commit_ok l f (terminate_awaited l f)"
proof (cases l)
  case (Running n)
  then show ?thesis
    by (cases "mf_task f"; cases "mf_has_order f"; cases "ask f True")
      (auto simp: commit_ok_simps dest: ask_not_end)
next
  case (Stopping n k)
  then show ?thesis
    by (cases "ask f True") (auto simp: commit_ok_simps)
qed simp_all

lemma terminate_queued_ok: "commit_ok l f (terminate_queued l)"
  by (induction l rule: terminate_queued.induct) (auto simp: commit_ok_simps)

lemma terminate_released_ok: "commit_ok l f (terminate_released l f)"
  by (induction l f rule: terminate_released.induct)
    (auto simp: commit_ok_simps split: option.splits)

lemmas terminate_ok =
  bounce_commit_ok terminate_none_ok terminate_awaited_ok terminate_queued_ok terminate_released_ok

lemma terminate_commit_ok: "commit_ok l f (terminate_commit l f)"
  by (simp add: terminate_commit_def terminate_ok split: group_membership.splits)

lemma manual_commit_ok: "mf_life f = Some l \<Longrightarrow> commit_ok l f (manual_commit kind f)"
  by (simp add: manual_commit_def terminate_ok terminate_commit_ok
      split: manual_stop.splits stop_route.splits)

text \<open>
  What the supervisor's state guarantees of the facts of a member: a member the group awaits is running
  or being stopped, one it will restart is down, and one released from it is down or being terminated,
  unless an attempt for it is in flight.
\<close>

fun facts_consistent :: "manual_facts \<Rightarrow> bool" where
  "facts_consistent f =
     (case (mf_membership f, mf_life f) of
        (MemberAwaited _, Some (Down _ _)) \<Rightarrow> False
      | (MemberQueued, Some (Running _)) \<Rightarrow> False
      | (MemberQueued, Some (Stopping _ _)) \<Rightarrow> False
      | (MemberReleased, Some (Running _)) \<Rightarrow> False
      | (MemberReleased, Some (Stopping _ Bounce)) \<Rightarrow> False
      | _ \<Rightarrow> True)"

lemma bare_answer_two: "bare_answer (a # b # es) = ReplyOk"
  by (cases a) simp_all

lemma with_head_Nil_iff [simp]: "with_head h es = [] \<longleftrightarrow> h = None \<and> es = []"
  by (cases h) simp_all

lemma bare_answer_with_head:
  "es \<noteq> [] \<Longrightarrow> bare_answer es = ReplyOk \<Longrightarrow> bare_answer (with_head h es) = ReplyOk"
  by (cases h; cases es) (simp_all add: bare_answer_two)

section \<open>Properties of the manual calls\<close>

text \<open>
  Every decision of \<open>stop_child\<close> and \<open>terminate_child\<close> is sound: the ledger move it commits is legal
  from the entry it read, its effects end with exactly one answer or wait, and it never waits on a
  running child that has no stop order, writing one itself (after the first signal when the
  child's runner lives) where none exists.
\<close>

lemma manual_commit_sound:
  assumes "mf_life f = Some l"
  shows "(\<forall>t. cm_to (manual_commit kind f) = Some t \<longrightarrow> is_legal l t) \<and>
    ends_once (cm_effects (manual_commit kind f)) \<and>
    waits_on_order l f (cm_effects (manual_commit kind f))"
  using manual_commit_ok [OF assms] by (simp add: commit_ok_def)

definition example_facts :: manual_facts where
  "example_facts =
     \<lparr>mf_life = Some (Running 3), mf_task = TaskLive, mf_membership = MemberAwaited False,
      mf_restart_type = Transient, mf_pool = False, mf_restarted = False, mf_in_keep_scope = True,
      mf_policy = ShutdownInfinity, mf_lane_vetoable = False, mf_reasked = False,
      mf_has_order = False\<rparr>"

text \<open>
  \<open>terminate_child\<close> is total: for a known child whose facts are consistent it is refused exactly when
  a restart attempt is in flight, and succeeds or goes on to wait in every other state.
\<close>

lemma terminate_child_total:
  assumes "mf_life f = Some l" "facts_consistent f"
  shows "manual_answer TerminateChild f =
    (if is_restarting (Some l) then ReplyChildRestarting else ReplyOk)"
proof (cases "is_restarting (Some l)")
  case True
  then show ?thesis
    using assms(1) by (simp add: manual_answer_def manual_commit_def terminate_commit_def answer_def)
next
  case False
  have "bare_answer (cm_effects (terminate_commit l f)) = ReplyOk"
  proof (cases "mf_membership f")
    case MemberNone
    then show ?thesis
      using False
      by (cases l rule: terminate_none.cases [where x = "(l, f)" for l])
        (simp_all add: terminate_commit_def bare_answer_with_head split: task_state.splits)
  next
    case (MemberAwaited o')
    then show ?thesis
      using False assms by (cases l) (simp_all add: terminate_commit_def)
  next
    case MemberQueued
    then show ?thesis
      using False assms by (cases l rule: terminate_queued.cases) (simp_all add: terminate_commit_def)
  next
    case MemberReleased
    then show ?thesis
      using False assms
      by (cases l rule: terminate_released.cases [where x = "(l, f)" for l])
        (auto simp: terminate_commit_def answer_def bare_answer_with_head)
  qed
  then show ?thesis
    using assms(1) False by (simp add: manual_answer_def manual_commit_def)
qed

text \<open>
  A completed manual stop restarts the child only when it should: a restart is initiated exactly for
  a bounced \<open>Permanent\<close> child of a supervisor that is no pool, that did not crash and that no pending
  group restart holds; the spec is removed exactly when the stop neither met a crash nor belongs to the
  group and the child is \<open>Temporary\<close> or in a pool; and a crash met by a bounce is always evaluated.
\<close>

lemma classify_manual_exact:
  "(mo_initiate (classify_manual kind reason rt pool in_set) \<longleftrightarrow>
      kind = Bounce \<and> \<not> is_failure reason \<and> \<not> in_set \<and> \<not> pool \<and> rt = Permanent) \<and>
   (mo_remove (classify_manual kind reason rt pool in_set) \<longleftrightarrow>
      \<not> (kind = Bounce \<and> is_failure reason) \<and> \<not> in_set \<and> (pool \<or> rt = Temporary)) \<and>
   (mo_pending (classify_manual kind reason rt pool in_set) = OwesEvaluate \<longleftrightarrow>
      kind = Bounce \<and> is_failure reason) \<and>
   (mo_action (classify_manual kind reason rt pool in_set) = None \<longleftrightarrow>
      kind = Bounce \<and> is_failure reason)"
  by (cases kind; cases rt) (auto simp: classify_manual_def Let_def)

end
