(* ===== verification/Stop_Ladder.thy ===== *)
theory Stop_Ladder
  imports Stop_Budgets
begin

text \<open>
  The stop ladder of one incarnation (\<open>src/src/actor/supervision/rules.rs\<close>): the pure
  decision \<open>ladder_step\<close>, its deadlines, and its executions as sequences of timed events.
\<close>

section \<open>Signals\<close>

datatype signal = SignalParentRequest | SignalKill

fun signal_reason :: "signal \<Rightarrow> stop_reason" where
  "signal_reason SignalParentRequest = ParentRequest"
| "signal_reason SignalKill = Kill"

fun first_signal :: "shutdown \<Rightarrow> signal" where
  "first_signal ShutdownKill = SignalKill"
| "first_signal (ShutdownTimeout _) = SignalParentRequest"
| "first_signal ShutdownInfinity = SignalParentRequest"

section \<open>The ladder\<close>

datatype ladder_step =
    LadderIdle
  | LadderGraceful "instant option"
  | LadderKillGrace instant
  | LadderAbortGrace instant
  | LadderSpent

text \<open>Where the ladder stands without its deadlines (\<open>AttemptLadder\<close>).\<close>

datatype attempt_ladder = AtOff | AtWindow | AtKillGrace | AtAbortGrace | AtSpent

fun ladder_position :: "ladder_step \<Rightarrow> attempt_ladder" where
  "ladder_position LadderIdle = AtOff"
| "ladder_position (LadderGraceful _) = AtWindow"
| "ladder_position (LadderKillGrace _) = AtKillGrace"
| "ladder_position (LadderAbortGrace _) = AtAbortGrace"
| "ladder_position LadderSpent = AtSpent"

fun ladder_deadline :: "ladder_step \<Rightarrow> instant option" where
  "ladder_deadline (LadderGraceful deadline) = deadline"
| "ladder_deadline (LadderKillGrace deadline) = Some deadline"
| "ladder_deadline (LadderAbortGrace deadline) = Some deadline"
| "ladder_deadline LadderIdle = None"
| "ladder_deadline LadderSpent = None"

datatype ladder_event =
    LadderOrder shutdown instant bool
  | DeadlineReached
  | LadderTaskEnded

datatype ladder_action =
    LadderNone
  | LadderRaise signal
  | LadderAbort
  | LadderWriteVerdict
  | LadderReleaseMark

definition kill_grace_from :: "instant \<Rightarrow> duration \<Rightarrow> ladder_step" where
  "kill_grace_from now grace = LadderKillGrace (deadline_after now grace)"

fun ladder_step_fn ::
  "ladder_step \<Rightarrow> ladder_event \<Rightarrow> instant \<Rightarrow> duration \<Rightarrow> ladder_step \<times> ladder_action" where
  "ladder_step_fn step LadderTaskEnded now grace = (step, LadderReleaseMark)"
| "ladder_step_fn LadderIdle (LadderOrder policy issued_at initial_raised) now grace =
     (let (base, action) =
            (if initial_raised then (issued_at, LadderNone)
             else (now, LadderRaise (first_signal policy)));
          next =
            (case policy of
               ShutdownKill \<Rightarrow> LadderKillGrace (deadline_after base grace)
             | ShutdownTimeout window \<Rightarrow> LadderGraceful (Some (deadline_after base window))
             | ShutdownInfinity \<Rightarrow> LadderGraceful None)
      in (next, action))"
| "ladder_step_fn (LadderGraceful (Some _)) DeadlineReached now grace =
     (LadderKillGrace (deadline_after now grace), LadderRaise SignalKill)"
| "ladder_step_fn (LadderKillGrace _) DeadlineReached now grace =
     (LadderAbortGrace (deadline_after now ABORT_SETTLE), LadderAbort)"
| "ladder_step_fn (LadderAbortGrace _) DeadlineReached now grace =
     (LadderSpent, LadderWriteVerdict)"
| "ladder_step_fn step _ now grace = (step, LadderNone)"

section \<open>Executions\<close>

type_synonym timed_event = "ladder_event \<times> instant"

fun ladder_exec ::
  "duration \<Rightarrow> ladder_step \<Rightarrow> timed_event list \<Rightarrow> (ladder_action \<times> instant) list" where
  "ladder_exec grace step [] = []"
| "ladder_exec grace step ((e, now) # evs) =
     (case ladder_step_fn step e now grace of
        (next, action) \<Rightarrow> (action, now) # ladder_exec grace next evs)"

text \<open>The executor reports a deadline only once it has passed.\<close>

fun on_time :: "duration \<Rightarrow> ladder_step \<Rightarrow> timed_event list \<Rightarrow> bool" where
  "on_time grace step [] = True"
| "on_time grace step ((e, now) # evs) \<longleftrightarrow>
     (e = DeadlineReached \<longrightarrow> (\<exists>d. ladder_deadline step = Some d \<and> d \<le> now)) \<and>
     on_time grace (fst (ladder_step_fn step e now grace)) evs"

fun escalation :: "ladder_action \<Rightarrow> nat option" where
  "escalation (LadderRaise SignalParentRequest) = Some 1"
| "escalation (LadderRaise SignalKill) = Some 2"
| "escalation LadderAbort = Some 3"
| "escalation LadderWriteVerdict = Some 4"
| "escalation _ = None"

fun ladder_rung :: "ladder_step \<Rightarrow> nat" where
  "ladder_rung LadderIdle = 0"
| "ladder_rung (LadderGraceful _) = 1"
| "ladder_rung (LadderKillGrace _) = 2"
| "ladder_rung (LadderAbortGrace _) = 3"
| "ladder_rung LadderSpent = 4"

definition escalations :: "(ladder_action \<times> instant) list \<Rightarrow> nat list" where
  "escalations acts = List.map_filter (\<lambda>(a, _). escalation a) acts"

lemma ladder_step_rung:
  assumes "ladder_step_fn step e now grace = (next, action)"
  shows "ladder_rung step \<le> ladder_rung next"
    and "escalation action = Some k \<Longrightarrow> ladder_rung step < k \<and> k = ladder_rung next"
    and "escalation action = None \<Longrightarrow> 2 \<le> ladder_rung step \<Longrightarrow> ladder_rung next = ladder_rung step"
  using assms
  by (induction step e now grace rule: ladder_step_fn.induct)
    (auto simp: Let_def split: if_splits shutdown.splits)

lemma ladder_step_climb:
  assumes "ladder_step_fn step e now grace = (next, action)" "ladder_rung step < k"
    "k \<le> ladder_rung next" "2 < k"
  shows "k = ladder_rung next \<and> k = Suc (ladder_rung step)"
  using assms
  by (induction step e now grace rule: ladder_step_fn.induct)
    (auto simp: Let_def split: if_splits shutdown.splits)

lemma escalations_Cons:
  "escalations ((a, t) # acts) =
     (case escalation a of None \<Rightarrow> escalations acts | Some k \<Rightarrow> k # escalations acts)"
  by (simp add: escalations_def map_filter_simps split: option.splits)

lemma ladder_exec_escalations:
  "sorted_wrt (<) (escalations (ladder_exec grace step evs)) \<and>
   (\<forall>k \<in> set (escalations (ladder_exec grace step evs)). ladder_rung step < k)"
proof (induction grace step evs rule: ladder_exec.induct)
  case (2 grace step e now evs)
  obtain "next" action where st: "ladder_step_fn step e now grace = (next, action)"
    by (metis prod.exhaust)
  note IH = 2 [OF st [symmetric]]
  note rung = ladder_step_rung [OF st]
  show ?case
  proof (cases "escalation action")
    case None
    then show ?thesis
      using IH rung(1) by (auto simp: st escalations_Cons intro: le_less_trans)
  next
    case (Some k)
    then show ?thesis
      using IH rung(2) [OF Some] rung(1) by (auto simp: st escalations_Cons intro: le_less_trans)
  qed
qed (simp add: escalations_def map_filter_simps)

lemma ladder_exec_verdict_aborts:
  "4 \<in> set (escalations (ladder_exec grace step evs)) \<Longrightarrow> ladder_rung step < 3 \<Longrightarrow>
     3 \<in> set (escalations (ladder_exec grace step evs))"
proof (induction grace step evs rule: ladder_exec.induct)
  case (2 grace step e now evs)
  obtain "next" action where st: "ladder_step_fn step e now grace = (next, action)"
    by (metis prod.exhaust)
  note IH = 2(1) [OF st [symmetric]]
  show ?case
  proof (cases "ladder_rung next < 3")
    case True
    then have "escalation action \<noteq> Some 4"
      using ladder_step_rung(2) [OF st] by fastforce
    then show ?thesis
      using 2(2) IH True by (auto simp: st escalations_Cons split: option.splits)
  next
    case False
    then have "ladder_rung next = 3" "escalation action \<noteq> None"
      using ladder_step_climb [OF st, of 3] ladder_step_climb [OF st, of 4] 2(3) st
      by (induction step e now grace rule: ladder_step_fn.induct;
          auto simp: Let_def split: if_splits shutdown.splits)+
    then have "escalation action = Some 3"
      using ladder_step_rung(2) [OF st] by fastforce
    then show ?thesis by (simp add: st escalations_Cons)
  qed
qed (simp add: escalations_def map_filter_simps)

text \<open>The earliest verdict from a step, when its deadlines are kept.\<close>

fun verdict_due :: "duration \<Rightarrow> ladder_step \<Rightarrow> instant option" where
  "verdict_due grace LadderIdle = None"
| "verdict_due grace (LadderGraceful None) = None"
| "verdict_due grace (LadderGraceful (Some d)) =
     Some (d + int (bounded_wait grace) + int ABORT_SETTLE)"
| "verdict_due grace (LadderKillGrace d) = Some (d + int ABORT_SETTLE)"
| "verdict_due grace (LadderAbortGrace d) = Some d"
| "verdict_due grace LadderSpent = None"

lemma verdict_due_step:
  assumes st: "ladder_step_fn step e now grace = (next, action)" and armed: "step \<noteq> LadderIdle"
    and on: "e = DeadlineReached \<Longrightarrow> \<exists>d. ladder_deadline step = Some d \<and> d \<le> now"
    and room: "roomy 1 now"
  shows "next \<noteq> LadderIdle"
    and "action = LadderWriteVerdict \<Longrightarrow> \<exists>due. verdict_due grace step = Some due \<and> due \<le> now"
    and "verdict_due grace next = Some due' \<Longrightarrow>
      \<exists>due. verdict_due grace step = Some due \<and> due \<le> due'"
  using assms deadline_after_roomy [of 0 now grace] deadline_after_roomy [of 0 now ABORT_SETTLE]
  by (induction step e now grace rule: ladder_step_fn.induct)
    (auto simp: bounded_wait_def)

lemma ladder_exec_verdict_due:
  assumes "step \<noteq> LadderIdle" "on_time grace step evs" "\<forall>(e, now) \<in> set evs. roomy 1 now"
    "(LadderWriteVerdict, t) \<in> set (ladder_exec grace step evs)"
  shows "\<exists>due. verdict_due grace step = Some due \<and> due \<le> t"
  using assms
proof (induction grace step evs rule: ladder_exec.induct)
  case (2 grace step e now evs)
  obtain "next" action where st: "ladder_step_fn step e now grace = (next, action)"
    by (metis prod.exhaust)
  have on: "e = DeadlineReached \<Longrightarrow> \<exists>d. ladder_deadline step = Some d \<and> d \<le> now"
    and room: "roomy 1 now"
    using 2(3,4) by auto
  note due = verdict_due_step [OF st 2(2) on room]
  show ?case
  proof (cases "action = LadderWriteVerdict \<and> t = now")
    case True
    then show ?thesis using due(2) by blast
  next
    case False
    then have "(LadderWriteVerdict, t) \<in> set (ladder_exec grace next evs)"
      using 2(5) by (auto simp: st)
    then show ?thesis
      using 2(1) [OF st [symmetric] due(1)] 2(3,4) due(3) st by fastforce
  qed
qed simp

section \<open>Properties of the ladder\<close>

text \<open>
  The ladder escalates in order: whatever events reach it and whenever, it asks, kills,
  aborts and gives the verdict in that order, each at most once, and it never gives the verdict
  without having aborted the task.
\<close>

lemma ladder_escalates_in_order:
  "sorted_wrt (<) (escalations (ladder_exec grace LadderIdle evs)) \<and>
   (4 \<in> set (escalations (ladder_exec grace LadderIdle evs)) \<longrightarrow>
    3 \<in> set (escalations (ladder_exec grace LadderIdle evs)))"
  using ladder_exec_escalations ladder_exec_verdict_aborts [of grace LadderIdle evs] by simp

text \<open>
  The ladder never gives up early: however late its events are handled, a verdict comes at the
  earliest one whole budget after the order's clock started, the budget being the exact sum of the
  policy's window, the kill grace and the settle time, and under \<open>Infinity\<close> it never comes.
\<close>

lemma ladder_verdict_not_early:
  assumes "on_time grace LadderIdle ((LadderOrder policy issued_at raised, now) # evs)"
    and "\<forall>(e, t) \<in> set evs. roomy 1 t" and "roomy 1 base"
    and "base = (if raised then issued_at else now)"
    and "policy = ShutdownTimeout window \<or> policy = ShutdownKill \<and> window = 0 \<or> policy = ShutdownInfinity"
    and "(LadderWriteVerdict, t) \<in>
      set (ladder_exec grace LadderIdle ((LadderOrder policy issued_at raised, now) # evs))"
  shows "policy \<noteq> ShutdownInfinity \<and>
    base + int (bounded_wait window) + int (bounded_wait grace) + int ABORT_SETTLE \<le> t"
proof -
  let ?next = "fst (ladder_step_fn LadderIdle (LadderOrder policy issued_at raised) now grace)"
  have "?next \<noteq> LadderIdle"
    by (simp add: Let_def split: shutdown.splits)
  moreover have "on_time grace ?next evs"
    using assms(1) by simp
  moreover have "(LadderWriteVerdict, t) \<in> set (ladder_exec grace ?next evs)"
    using assms(6) by (auto simp: Let_def split: prod.splits if_splits)
  ultimately obtain due where "verdict_due grace ?next = Some due" "due \<le> t"
    using ladder_exec_verdict_due assms(2) by blast
  then show ?thesis
    using assms(4,5) deadline_after_roomy [of 0 base] assms(3)
    by (auto simp: bounded_wait_def split: if_splits)
qed

text \<open>
  Kept on time, the whole ladder of an order takes exactly the budget \<open>own_budget\<close> gives a
  supervisor child with that policy: the request at the order, \<open>Kill\<close> at the end of the
  window, the abort at the end of the kill grace and the verdict one settle time later.
\<close>

lemma ladder_takes_its_budget:
  assumes "roomy 4 now" "window \<le> FAR_FUTURE" "grace \<le> FAR_FUTURE"
    and "own_budget True (ShutdownTimeout window) grace = Some budget"
  shows "ladder_exec grace LadderIdle
      [(LadderOrder (ShutdownTimeout window) issued_at False, now),
       (DeadlineReached, now + int window),
       (DeadlineReached, now + int window + int grace),
       (DeadlineReached, now + int budget)] =
    [(LadderRaise SignalParentRequest, now),
     (LadderRaise SignalKill, now + int window),
     (LadderAbort, now + int window + int grace),
     (LadderWriteVerdict, now + int budget)] \<and>
    on_time grace LadderIdle
      [(LadderOrder (ShutdownTimeout window) issued_at False, now),
       (DeadlineReached, now + int window),
       (DeadlineReached, now + int window + int grace),
       (DeadlineReached, now + int budget)]"
proof -
  have budget: "budget = window + grace + ABORT_SETTLE"
    using assms(4) by (simp add: own_budget_plain plain_budget_def split: if_splits)
  have room: "roomy (Suc 0) now" "roomy (Suc 0) (now + int window)"
    "roomy (Suc 0) (now + int window + int grace)"
    using assms(1-3) by (auto simp: roomy_def)
  have "min window FAR_FUTURE = window" "min grace FAR_FUTURE = grace"
    using assms(2,3) by simp_all
  then show ?thesis
    using deadline_after_roomy [OF room(1), of window] deadline_after_roomy [OF room(2), of grace]
      deadline_after_roomy [OF room(3), of ABORT_SETTLE] by (simp add: budget)
qed

end
