(* ===== verification/Group_Rules.thy ===== *)
theory Group_Rules
  imports Manual_Stop Stop_Ladder
begin

text \<open>
  The decisions of group restarts, of the supervisor's teardown and of a restart attempt
  (\<open>src/src/actor/supervision/rules.rs\<close>): who a group covers and restarts, what its stop queue
  does with its head, what an evaluation absorbs, and what an attempt's executor does next.
\<close>

section \<open>Commit and retry\<close>

record group_member =
  gm_id :: actor_id
  gm_life :: child_lifecycle
  gm_restart_type :: restart_type

record member_action =
  ma_held :: bool
  ma_cancel :: bool
  ma_restarts :: bool

type_synonym committed = "actor_id \<times> u64 \<times> member_action"

fun commit_token :: "child_lifecycle \<Rightarrow> u64" where
  "commit_token (Running n) = n"
| "commit_token (Stopping n _) = n"
| "commit_token (Down n _) = n"
| "commit_token (Restarting _ nxt) = nxt"

fun is_down :: "child_lifecycle \<Rightarrow> bool" where
  "is_down (Down _ _) = True"
| "is_down _ = False"

definition commit_member :: "actor_id \<Rightarrow> group_member \<Rightarrow> committed" where
  "commit_member failed child =
     (let held = (gm_id child \<noteq> failed \<and> \<not> is_down (gm_life child))
      in (gm_id child, commit_token (gm_life child),
          \<lparr>ma_held = held, ma_cancel = (held \<and> is_restarting (Some (gm_life child))),
           ma_restarts = (gm_restart_type child \<noteq> Temporary)\<rparr>))"

definition group_commit ::
  "restart_strategy \<Rightarrow> group_member list \<Rightarrow> actor_id \<Rightarrow> committed list" where
  "group_commit strategy children failed =
     (let start =
        (case strategy of
           RestForOne \<Rightarrow>
             (case list_position (\<lambda>child. gm_id child = failed) children of Some i \<Rightarrow> i | None \<Rightarrow> 0)
         | _ \<Rightarrow> 0)
      in map (commit_member failed) (drop start children))"

record retry_plan =
  rp_commit :: "committed list"
  rp_restart_order :: "actor_id list"

definition retry_plan_of ::
  "restart_strategy \<Rightarrow> group_member list \<Rightarrow> actor_id list \<Rightarrow> actor_id \<Rightarrow> retry_plan" where
  "retry_plan_of strategy registry overrides failed =
     (let commit =
            map (\<lambda>(k, n, action).
                   (k, n, if k \<in> set overrides then action\<lparr>ma_restarts := False\<rparr> else action))
              (group_commit strategy registry failed);
          restart_order = map fst (filter (\<lambda>(k, n, action). ma_restarts action) commit)
      in \<lparr>rp_commit = commit, rp_restart_order = restart_order\<rparr>)"

section \<open>The stop queue\<close>

record queue_head =
  qh_awaited :: bool
  qh_verdict :: bool
  qh_signalled :: bool
  qh_handled :: bool
  qh_life :: "child_lifecycle option"
  qh_has_order :: bool
  qh_ask_possible :: bool
  qh_reasked :: bool
  qh_attempt_past_init :: bool
  qh_attempt_spawned :: bool

datatype queue_step =
    QueuePop
  | QueueWait
  | QueueAwait
  | QueueOrder
  | QueueOrderAttempt bool
  | QueueOrderUnpublished
  | QueueJoin bool

definition stop_queue_next :: "queue_head \<Rightarrow> queue_step" where
  "stop_queue_next h =
     (if \<not> qh_awaited h \<or> qh_verdict h \<or> (\<not> qh_signalled h \<and> qh_handled h) then QueuePop
      else if qh_signalled h then QueueWait
      else let ask = (qh_ask_possible h \<and> \<not> qh_reasked h) in
        (case qh_life h of
           Some (Running _) \<Rightarrow> if \<not> qh_has_order h then QueueOrder else QueueJoin ask
         | Some (Stopping _ _) \<Rightarrow> QueueJoin ask
         | Some (Restarting _ _) \<Rightarrow>
             if \<not> qh_attempt_spawned h then QueueOrderUnpublished
             else QueueOrderAttempt (qh_has_order h \<and> qh_attempt_past_init h \<and> ask)
         | Some (Down _ _) \<Rightarrow> QueueAwait
         | None \<Rightarrow> QueueAwait))"

fun queue_head_reached_after :: "queue_step \<Rightarrow> bool \<Rightarrow> bool" where
  "queue_head_reached_after QueuePop reached = False"
| "queue_head_reached_after QueueWait reached = reached"
| "queue_head_reached_after _ reached = True"

datatype member_end = RestartInSlot | PruneAndRemove

definition group_member_end :: "restart_type \<Rightarrow> member_end" where
  "group_member_end rt = (if rt = Temporary then PruneAndRemove else RestartInSlot)"

section \<open>The teardown\<close>

record walk_child =
  wc_life :: "child_lifecycle option"
  wc_has_order :: bool
  wc_ask_possible :: bool
  wc_reasked :: bool
  wc_attempt_past_init :: bool

datatype teardown_action =
    TeardownSkip
  | TeardownOrder
  | TeardownJoin bool
  | TeardownOrderAttempt bool

definition teardown_action_of :: "walk_child \<Rightarrow> teardown_action" where
  "teardown_action_of c =
     (case wc_life c of
        Some (Running _) \<Rightarrow>
          if \<not> wc_has_order c then TeardownOrder else TeardownJoin (wc_ask_possible c)
      | Some (Stopping _ _) \<Rightarrow> TeardownJoin (wc_ask_possible c)
      | Some (Restarting _ _) \<Rightarrow>
          TeardownOrderAttempt (wc_has_order c \<and> wc_attempt_past_init c \<and> wc_ask_possible c)
      | Some (Down _ _) \<Rightarrow> TeardownSkip
      | None \<Rightarrow> TeardownSkip)"

definition teardown_walk ::
  "restart_strategy \<Rightarrow> (actor_id \<times> walk_child) list \<Rightarrow> (actor_id \<times> teardown_action) list" where
  "teardown_walk strategy children =
     map (\<lambda>(k, child). (k, teardown_action_of child)) (rev children)"

datatype report_place = PlaceQueued | PlaceWorklist | PlaceDeathPlane

datatype absorption = AbsorbKeep | AbsorbDeliver | AbsorbSnapshot

fun owes_evaluation :: "child_lifecycle option \<Rightarrow> bool" where
  "owes_evaluation (Some (Down _ OwesEvaluate)) = True"
| "owes_evaluation _ = False"

definition absorbable :: "report_place \<Rightarrow> bool \<Rightarrow> child_lifecycle option \<Rightarrow> absorption" where
  "absorbable place in_plan life =
     (if \<not> in_plan \<or> \<not> owes_evaluation life then AbsorbKeep
      else case place of
          PlaceQueued \<Rightarrow> AbsorbDeliver
        | PlaceWorklist \<Rightarrow> AbsorbDeliver
        | PlaceDeathPlane \<Rightarrow> AbsorbSnapshot)"

definition barrier_blocked_only_by_verdicts :: "(actor_id \<times> bool) list \<Rightarrow> actor_id option" where
  "barrier_blocked_only_by_verdicts entries =
     (if entries = [] \<or> \<not> list_all snd entries then None else Some (fst (hd entries)))"

definition teardown_end_is_orderly ::
  "stop_reason \<Rightarrow> restart_type \<Rightarrow> shutdown \<Rightarrow> bool" where
  "teardown_end_is_orderly reason rt sd =
     (case reason of
        ParentRequest \<Rightarrow> True
      | Graceful \<Rightarrow> rt \<noteq> Permanent
      | Kill \<Rightarrow> sd = ShutdownKill
      | _ \<Rightarrow> False)"

datatype init_step = InitContinue | InitKillNow

definition init_kill_check :: "stop_reason option \<Rightarrow> init_step" where
  "init_kill_check lane_reason = (if lane_reason = Some Kill then InitKillNow else InitContinue)"

section \<open>The restart attempt\<close>

datatype attempt_stage = StageFactory | StageInit | StageInTransit

datatype attempt_event =
    AttemptBegin bool
  | AttemptOrder
  | AttemptAck bool bool
  | AttemptInitEnded
  | AttemptStartTimeout
  | AttemptLadderSpent
  | AttemptEnded bool bool

record attempt_view =
  av_ladder :: attempt_ladder
  av_kill_stored :: bool
  av_acked :: bool

datatype attempt_report = ReportStopped | ReportStartTimeout | ReportFailed

datatype attempt_action =
    AttemptNone
  | AttemptCancel
  | AttemptSpawn
  | AttemptArmLadder
  | AttemptAdopt
  | AttemptKillPath bool
  | AttemptWriteVerdict
  | AttemptReport attempt_report

fun attempt_step :: "attempt_stage \<Rightarrow> attempt_event \<Rightarrow> attempt_view \<Rightarrow> attempt_action" where
  "attempt_step StageFactory (AttemptBegin ordered) view =
     (if ordered then AttemptCancel else AttemptSpawn)"
| "attempt_step StageInit AttemptOrder view = AttemptArmLadder"
| "attempt_step StageInit (AttemptAck ordered ended) view =
     (if \<not> ordered \<and> av_ladder view = AtOff then AttemptAdopt else AttemptNone)"
| "attempt_step StageInit AttemptInitEnded view =
     (if av_ladder view = AtOff then AttemptKillPath (\<not> av_kill_stored view) else AttemptNone)"
| "attempt_step StageInit AttemptStartTimeout view =
     (if \<not> av_acked view \<and> (av_ladder view = AtOff \<or> av_ladder view = AtWindow)
      then AttemptKillPath (\<not> av_kill_stored view) else AttemptNone)"
| "attempt_step StageInit AttemptLadderSpent view = AttemptWriteVerdict"
| "attempt_step StageInit (AttemptEnded ordered timeout_raised) view =
     AttemptReport
       (if timeout_raised then ReportStartTimeout else if ordered then ReportStopped else ReportFailed)"
| "attempt_step _ _ view = AttemptNone"

section \<open>Who a group covers\<close>

text \<open>The members a group restart is meant to cover, in start order.\<close>

definition covered ::
  "restart_strategy \<Rightarrow> group_member list \<Rightarrow> actor_id \<Rightarrow> group_member list" where
  "covered strategy registry failed =
     (if strategy = RestForOne \<and> failed \<in> gm_id ` set registry
      then dropWhile (\<lambda>m. gm_id m \<noteq> failed) registry else registry)"

lemma commit_token_held: "commit_token l = held_token l"
  by (cases l) simp_all

lemma is_down_occupant: "is_down l \<longleftrightarrow> occupant l = None"
  by (cases l) simp_all

lemma drop_position_dropWhile:
  "list_position P xs = Some i \<Longrightarrow> drop i xs = dropWhile (\<lambda>x. \<not> P x) xs"
  by (induction xs arbitrary: i) (auto split: if_splits)

lemma group_commit_covered:
  "group_commit strategy registry failed = map (commit_member failed) (covered strategy registry failed)"
proof (cases "strategy = RestForOne")
  case True
  show ?thesis
  proof (cases "list_position (\<lambda>m. gm_id m = failed) registry")
    case None
    then have "failed \<notin> gm_id ` set registry"
      by (auto simp: list_position_None_iff)
    then show ?thesis
      by (simp add: True None group_commit_def covered_def)
  next
    case (Some i)
    then have "failed \<in> gm_id ` set registry"
      using list_position_SomeD [OF Some] by (metis image_eqI nth_mem)
    then show ?thesis
      using drop_position_dropWhile [OF Some] by (simp add: True Some group_commit_def covered_def)
  qed
next
  case False
  then show ?thesis
    by (cases strategy) (simp_all add: group_commit_def covered_def)
qed

text \<open>
  A group restart covers, waits for and restarts exactly the members it should: its scope is every
  child, or under \<open>RestForOne\<close> the failed child and those started after it, in start order; it waits
  for the occupant of each member but the failed one, under the token the ledger holds; and it starts
  again, in start order, exactly the members that are neither \<open>Temporary\<close> nor released by a
  \<open>terminate_child\<close>, on the first plan and on every retry.
\<close>

lemma retry_plan_exact:
  "map (\<lambda>(k, n, action). (k, n, ma_held action))
     (rp_commit (retry_plan_of strategy registry overrides failed)) =
   map (\<lambda>m. (gm_id m, held_token (gm_life m), gm_id m \<noteq> failed \<and> occupant (gm_life m) \<noteq> None))
     (covered strategy registry failed) \<and>
   rp_restart_order (retry_plan_of strategy registry overrides failed) =
   map gm_id (filter (\<lambda>m. gm_restart_type m \<noteq> Temporary \<and> gm_id m \<notin> set overrides)
     (covered strategy registry failed))"
proof -
  let ?plan = "\<lambda>(k, n, action). (k, n, if k \<in> set overrides then action\<lparr>ma_restarts := False\<rparr> else action)"
  have "map fst (filter (\<lambda>(k, n, a). ma_restarts a) (map ?plan (map (commit_member failed) ms))) =
      map gm_id (filter (\<lambda>m. gm_restart_type m \<noteq> Temporary \<and> gm_id m \<notin> set overrides) ms)" for ms
    by (induction ms) (auto simp: commit_member_def Let_def)
  then show ?thesis
    by (auto simp: retry_plan_of_def group_commit_covered Let_def commit_member_def
        commit_token_held is_down_occupant)
qed

text \<open>
  The teardown reaches every child, newest first, and leaves none running: it visits the registry in
  reverse start order, skips exactly the children with no occupant, orders exactly the running ones
  that hold no order, and joins every stop already in progress instead of starting a second ladder.
\<close>

lemma teardown_walk_exact:
  "map fst (teardown_walk strategy children) = rev (map fst children) \<and>
   (\<forall>(k, child) \<in> set children. \<exists>action.
      (k, action) \<in> set (teardown_walk strategy children) \<and>
      (action = TeardownSkip \<longleftrightarrow> Option.bind (wc_life child) occupant = None) \<and>
      (action = TeardownOrder \<longleftrightarrow> (\<exists>n. wc_life child = Some (Running n)) \<and> \<not> wc_has_order child))"
proof -
  have "map fst (teardown_walk strategy children) = rev (map fst children)"
    by (simp add: teardown_walk_def rev_map case_prod_unfold)
  moreover have "(teardown_action_of c = TeardownSkip \<longleftrightarrow> Option.bind (wc_life c) occupant = None) \<and>
      (teardown_action_of c = TeardownOrder \<longleftrightarrow>
        (\<exists>n. wc_life c = Some (Running n)) \<and> \<not> wc_has_order c)" for c
    by (auto simp: teardown_action_of_def split: option.splits child_lifecycle.splits)
  moreover have "(k, teardown_action_of c) \<in> set (teardown_walk strategy children)"
    if "(k, c) \<in> set children" for k c
    using that by (force simp: teardown_walk_def)
  ultimately show ?thesis by blast
qed

end
