(* ===== verification/Slot.thy ===== *)
theory Slot
  imports Stop_Lane Status_Plane Subtree Group_Rules
begin

text \<open>
  The slot of one incarnation (\<open>src/src/actor/supervision/slot.rs\<close>): the command the supervisor writes, the cell
  the executor writes, the verdict flag both share, the ladder that stops the incarnation, and the
  executor of a restart attempt.

  The two watch channels of the source are two fields of one record; \<open>sl_closed\<close> says that the executor
  dropped its half.  The incarnation's stop lane and status plane are shared by every holder, so the
  record holds their current state.  The executors' \<open>select!\<close> loops are step functions that take what each
  branch finds ready and pick the first enabled one, as \<open>biased\<close> does.
\<close>

section \<open>Commands, cells and slots\<close>

record stop_order =
  so_policy :: shutdown
  so_issued_at :: instant
  so_initial_raised :: bool

record slot_command =
  cmd_stop :: "stop_order option"
  cmd_reasked :: bool
  cmd_cancel :: bool

record own_stop =
  os_is_supervisor :: bool
  os_shutdown :: shutdown
  os_kill_grace :: duration

definition own_stop_worker :: "duration \<Rightarrow> own_stop" where
  "own_stop_worker kill_grace =
     \<lparr>os_is_supervisor = False, os_shutdown = default_shutdown, os_kill_grace = kill_grace\<rparr>"

definition own_stop_default :: own_stop where
  "own_stop_default = own_stop_worker DEFAULT_KILL_GRACE"

record slot_cell =
  cell_fate :: "child_fate option"
  cell_unresponsive :: bool
  cell_cancelled :: bool
  cell_lane :: "lane_cell option"
  cell_status :: "status_cell option"
  cell_own :: "own_stop option"
  cell_subtree :: "token_id option"

record slot =
  sl_cmd :: slot_command
  sl_cell :: slot_cell
  sl_closed :: bool
  sl_lost :: bool
  sl_key :: "(actor_id \<times> u64) option"

record predecessor =
  pd_subtree :: token_id
  pd_key :: "(actor_id \<times> u64) option"

definition slot_pair_for :: "(actor_id \<times> u64) option \<Rightarrow> slot" where
  "slot_pair_for key =
     \<lparr>sl_cmd = \<lparr>cmd_stop = None, cmd_reasked = False, cmd_cancel = False\<rparr>,
      sl_cell = \<lparr>cell_fate = None, cell_unresponsive = False, cell_cancelled = False,
                 cell_lane = None, cell_status = None, cell_own = None, cell_subtree = None\<rparr>,
      sl_closed = False, sl_lost = False, sl_key = key\<rparr>"

definition initial_signal :: "shutdown \<Rightarrow> stop_reason" where
  "initial_signal sd = signal_reason (first_signal sd)"

definition vetoable :: "stop_reason \<Rightarrow> bool" where
  "vetoable r \<longleftrightarrow> r = Graceful \<or> r = ParentRequest"

text \<open>\<open>VerdictFlag::record\<close>: whether this call recorded the verdict.\<close>

definition verdict_record :: "slot \<Rightarrow> bool \<times> slot" where
  "verdict_record s = (\<not> sl_lost s, s\<lparr>sl_lost := True\<rparr>)"

section \<open>The executor's side\<close>

definition plane_reason :: "slot \<Rightarrow> stop_reason option" where
  "plane_reason s = Option.bind (cell_status (sl_cell s)) (\<lambda>st. sv_reason (sc_value st))"

definition record_fate :: "child_fate \<Rightarrow> slot \<Rightarrow> slot" where
  "record_fate fate s = s\<lparr>sl_cell := (sl_cell s)\<lparr>cell_fate := Some fate\<rparr>\<rparr>"

definition publish ::
  "lane_cell \<Rightarrow> status_cell \<Rightarrow> own_stop \<Rightarrow> token_id option \<Rightarrow> slot \<Rightarrow> slot" where
  "publish lane status own subtree s =
     s\<lparr>sl_cell := (sl_cell s)\<lparr>cell_lane := Some lane, cell_status := Some status,
                              cell_own := Some own, cell_subtree := subtree\<rparr>\<rparr>"

definition write_verdict :: "slot \<Rightarrow> slot" where
  "write_verdict s =
     (let s' = snd (verdict_record s)
      in s'\<lparr>sl_cell := (sl_cell s')\<lparr>cell_unresponsive := True\<rparr>\<rparr>)"

definition mark_cancelled :: "slot \<Rightarrow> slot" where
  "mark_cancelled s = s\<lparr>sl_cell := (sl_cell s)\<lparr>cell_cancelled := True\<rparr>\<rparr>"

definition io_order :: "slot \<Rightarrow> stop_order option" where
  "io_order s = cmd_stop (sl_cmd s)"

definition cancel_or_order :: "slot \<Rightarrow> bool" where
  "cancel_or_order s \<longleftrightarrow> cmd_stop (sl_cmd s) \<noteq> None \<or> cmd_cancel (sl_cmd s)"

section \<open>The supervisor's side\<close>

definition slot_predecessor :: "slot \<Rightarrow> token_id \<Rightarrow> predecessor" where
  "slot_predecessor s subtree = \<lparr>pd_subtree = subtree, pd_key = sl_key s\<rparr>"

definition recorded_predecessor :: "slot \<Rightarrow> predecessor option" where
  "recorded_predecessor s = map_option (slot_predecessor s) (cell_subtree (sl_cell s))"

definition plane_ended :: "status_cell \<Rightarrow> bool" where
  "plane_ended st \<longleftrightarrow> sv_status (sc_value st) = StStopped \<or> cell_closed st"

definition status_ended :: "slot \<Rightarrow> bool" where
  "status_ended s =
     (case cell_status (sl_cell s) of Some st \<Rightarrow> plane_ended st | None \<Rightarrow> sl_closed s)"

definition mark_reasked :: "slot \<Rightarrow> slot" where
  "mark_reasked s = s\<lparr>sl_cmd := (sl_cmd s)\<lparr>cmd_reasked := True\<rparr>\<rparr>"

definition reasked :: "slot \<Rightarrow> bool" where
  "reasked s = cmd_reasked (sl_cmd s)"

definition slot_fate :: "slot \<Rightarrow> child_fate option" where
  "slot_fate s = cell_fate (sl_cell s)"

definition is_unresponsive :: "slot \<Rightarrow> bool" where
  "is_unresponsive s \<longleftrightarrow> cell_unresponsive (sl_cell s) \<or> sl_lost s"

definition has_order :: "slot \<Rightarrow> bool" where
  "has_order s \<longleftrightarrow> cmd_stop (sl_cmd s) \<noteq> None"

definition lane_vetoable :: "slot \<Rightarrow> bool" where
  "lane_vetoable s =
     (case Option.bind (cell_lane (sl_cell s)) lane_reason of
        Some r \<Rightarrow> vetoable r
      | None \<Rightarrow> False)"

definition slot_task_state :: "slot \<Rightarrow> task_state" where
  "slot_task_state s =
     (if cell_fate (sl_cell s) \<noteq> None then TaskEnded
      else if \<not> sl_closed s then TaskLive
      else case cell_status (sl_cell s) of
          Some st \<Rightarrow> if plane_ended st then TaskEnded else TaskRunnerLost
        | None \<Rightarrow> TaskEnded)"

definition end_reason :: "slot \<Rightarrow> stop_reason" where
  "end_reason s =
     (case slot_fate s of
        Some fate \<Rightarrow> cf_reason fate
      | None \<Rightarrow>
          (case cell_status (sl_cell s) of
             Some st \<Rightarrow> reason_or_kill (sc_value st)
           | None \<Rightarrow> Kill))"

text \<open>A raise on the lane the cell holds, if it holds one.\<close>

definition slot_raise :: "stop_reason \<Rightarrow> slot \<Rightarrow> slot" where
  "slot_raise r s =
     s\<lparr>sl_cell := (sl_cell s)\<lparr>cell_lane :=
         map_option (\<lambda>lane. snd (lane_raise lane r)) (cell_lane (sl_cell s))\<rparr>\<rparr>"

definition raise_first :: "shutdown \<Rightarrow> slot \<Rightarrow> bool \<times> slot" where
  "raise_first policy s =
     (case cell_lane (sl_cell s) of
        Some lane \<Rightarrow> (True, slot_raise (initial_signal policy) s)
      | None \<Rightarrow> (False, s))"

definition write_order :: "instant \<Rightarrow> shutdown \<Rightarrow> bool \<Rightarrow> slot \<Rightarrow> slot" where
  "write_order now policy initial_raised s =
     (if cmd_stop (sl_cmd s) = None
      then s\<lparr>sl_cmd := (sl_cmd s)\<lparr>cmd_stop :=
             Some \<lparr>so_policy = policy, so_issued_at = now, so_initial_raised = initial_raised\<rparr>\<rparr>\<rparr>
      else s)"

definition order_stop :: "instant \<Rightarrow> shutdown \<Rightarrow> bool \<Rightarrow> slot \<Rightarrow> slot" where
  "order_stop now policy raise s =
     (if has_order s then s
      else let (raised, s') = (if raise then raise_first policy s else (False, s))
           in write_order now policy raised s')"

definition cancel_unspawned :: "slot \<Rightarrow> slot" where
  "cancel_unspawned s = s\<lparr>sl_cmd := (sl_cmd s)\<lparr>cmd_cancel := True\<rparr>\<rparr>"

definition ask_again :: "slot \<Rightarrow> slot" where
  "ask_again s = slot_raise ParentRequest s"

section \<open>Lost runners and closed cells\<close>

definition lost_end_bound :: "own_stop \<Rightarrow> duration" where
  "lost_end_bound own =
     bounded_wait
       (case own_budget (os_is_supervisor own) (os_shutdown own) (os_kill_grace own) of
          Some b \<Rightarrow> b
        | None \<Rightarrow> duration_max)"

datatype cell_outcome =
    CellFate child_fate
  | CellUnresponsive
  | CellCancelled
  | CellNoIncarnation

text \<open>
  The wait of \<open>await_cell\<close> on an open cell: \<open>None\<close> while nothing settled and the cell is open.
  \<open>closed_cell\<close> is the decision on a cell whose executor is gone; \<open>ended\<close> is what its wait for the end of the
  incarnation or the verdict's floor answered.
\<close>

definition cell_settled :: "slot_cell \<Rightarrow> cell_outcome option" where
  "cell_settled c =
     (case cell_fate c of
        Some fate \<Rightarrow> Some (CellFate fate)
      | None \<Rightarrow>
          if cell_unresponsive c then Some CellUnresponsive
          else if cell_cancelled c then Some CellCancelled
          else None)"

definition closed_cell :: "bool \<Rightarrow> u64 \<Rightarrow> slot \<Rightarrow> cell_outcome \<times> slot" where
  "closed_cell ended incarnation s =
     (case cell_status (sl_cell s) of
        None \<Rightarrow> (CellNoIncarnation, s)
      | Some st \<Rightarrow>
          if \<not> plane_ended st \<and> sl_lost s then (CellUnresponsive, s)
          else if ended then
            (CellFate \<lparr>cf_reason = reason_or_kill (sc_value st), cf_incarnation = incarnation\<rparr>, s)
          else (CellUnresponsive, snd (verdict_record s)))"

datatype join_result =
    JoinOk stop_reason
  | JoinPanic string
  | JoinCancelled

fun map_join :: "join_result \<Rightarrow> stop_reason" where
  "map_join (JoinOk r) = r"
| "map_join (JoinPanic payload) = Failure (Panic payload)"
| "map_join JoinCancelled = Kill"

fun joined_reason :: "join_result \<Rightarrow> stop_reason option \<Rightarrow> stop_reason" where
  "joined_reason (JoinPanic payload) plane =
     (case plane of Some r \<Rightarrow> r | None \<Rightarrow> map_join (JoinPanic payload))"
| "joined_reason res plane = map_join res"

section \<open>The ladder's executor\<close>

text \<open>What the executor of an incarnation holds: its slot, and its abort record with the tokens it reaches.\<close>

record executor =
  ex_slot :: slot
  ex_record :: abort_record
  ex_store :: store

text \<open>What a step finds of the task and the clock.\<close>

record moment =
  mt_now :: instant
  mt_finished :: bool
  mt_live :: bool

definition ex_owe_for :: "moment \<Rightarrow> executor \<Rightarrow> executor" where
  "ex_owe_for m e =
     (let (r, st) = owe_for (mt_now m) (mt_finished m) (mt_live m) (ex_record e) (ex_store e)
      in e\<lparr>ex_record := r, ex_store := st\<rparr>)"

definition raise_owing :: "moment \<Rightarrow> stop_reason \<Rightarrow> executor \<Rightarrow> executor" where
  "raise_owing m r e =
     (case cell_lane (sl_cell (ex_slot e)) of
        None \<Rightarrow> e
      | Some lane \<Rightarrow>
          let e' = e\<lparr>ex_slot := slot_raise r (ex_slot e)\<rparr>
          in if ra_result (fst (lane_raise lane r)) = Recorded \<and> r = Kill then ex_owe_for m e' else e')"

definition owe_kill_grace :: "moment \<Rightarrow> bool \<Rightarrow> executor \<Rightarrow> executor" where
  "owe_kill_grace m raise e = (if raise then raise_owing m Kill e else ex_owe_for m e)"

definition ex_abort :: "moment \<Rightarrow> executor \<Rightarrow> executor" where
  "ex_abort m e =
     (let (aborted, r, st) =
        abort (mt_now m) (mt_finished m) (mt_live m) (ex_record e) (ex_store e)
      in e\<lparr>ex_record := r, ex_store := st\<rparr>)"

definition ex_task_ended :: "moment \<Rightarrow> executor \<Rightarrow> executor" where
  "ex_task_ended m e =
     (let (r, st) = task_ended (mt_now m) (ex_record e) (ex_store e)
      in e\<lparr>ex_record := r, ex_store := st\<rparr>)"

definition advance ::
  "duration \<Rightarrow> moment \<Rightarrow> ladder_step \<Rightarrow> ladder_event \<Rightarrow> executor \<Rightarrow> ladder_step \<times> executor" where
  "advance grace m step event e =
     (let (next, action) = ladder_step_fn step event (mt_now m) grace
      in (next,
          case action of
            LadderNone \<Rightarrow> e
          | LadderRaise sig \<Rightarrow> raise_owing m (signal_reason sig) e
          | LadderAbort \<Rightarrow> ex_abort m e
          | LadderWriteVerdict \<Rightarrow> e\<lparr>ex_slot := write_verdict (ex_slot e)\<rparr>
          | LadderReleaseMark \<Rightarrow> ex_task_ended m e))"

fun order_event :: "stop_order \<Rightarrow> ladder_event" where
  "order_event o' = LadderOrder (so_policy o') (so_issued_at o') (so_initial_raised o')"

record ladder_state =
  la_step :: ladder_step
  la_open :: bool
  la_ex :: executor

text \<open>
  What the three branches of the select find ready: the task's join, a change of the command cell
  (\<open>Some False\<close> when its sender is gone), and the deadline's timer.
\<close>

record ladder_poll =
  lp_joined :: "join_result option"
  lp_command :: "bool option"
  lp_deadline :: bool
  lp_moment :: moment

definition ladder_read_order :: "duration \<Rightarrow> moment \<Rightarrow> ladder_state \<Rightarrow> ladder_state" where
  "ladder_read_order grace m s =
     (case io_order (ex_slot (la_ex s)) of
        None \<Rightarrow> s
      | Some order \<Rightarrow>
          let (step, e) = advance grace m (la_step s) (order_event order) (la_ex s)
          in s\<lparr>la_step := step, la_ex := e\<rparr>)"

definition ladder_iter ::
  "duration \<Rightarrow> ladder_poll \<Rightarrow> ladder_state \<Rightarrow> stop_reason option \<times> ladder_state" where
  "ladder_iter grace p s =
     (let m = lp_moment p in
      case lp_joined p of
        Some res \<Rightarrow>
          let reason = joined_reason res (plane_reason (ex_slot (la_ex s)));
              (step, e) = advance grace m (la_step s) LadderTaskEnded (la_ex s)
          in (Some reason, s\<lparr>la_ex := e\<rparr>)
      | None \<Rightarrow>
          if la_open s \<and> la_step s = LadderIdle \<and> lp_command p \<noteq> None then
            (if lp_command p = Some True then (None, ladder_read_order grace m s)
             else (None, s\<lparr>la_open := False\<rparr>))
          else if ladder_deadline (la_step s) \<noteq> None \<and> lp_deadline p then
            let (step, e) = advance grace m (la_step s) DeadlineReached (la_ex s)
            in (None, s\<lparr>la_step := step, la_ex := e\<rparr>)
          else (None, s))"

text \<open>\<open>run_ladder\<close>: the first read of the command cell, then the loop, run on a list of polls.\<close>

definition ladder_start :: "duration \<Rightarrow> moment \<Rightarrow> executor \<Rightarrow> ladder_state" where
  "ladder_start grace m e =
     ladder_read_order grace m \<lparr>la_step = LadderIdle, la_open = True, la_ex = e\<rparr>"

fun ladder_loop ::
  "duration \<Rightarrow> ladder_poll list \<Rightarrow> ladder_state \<Rightarrow> stop_reason option \<times> ladder_state" where
  "ladder_loop grace [] s = (None, s)"
| "ladder_loop grace (p # ps) s =
     (case ladder_iter grace p s of
        (Some reason, s') \<Rightarrow> (Some reason, s')
      | (None, s') \<Rightarrow> ladder_loop grace ps s')"

definition run_ladder ::
  "duration \<Rightarrow> moment \<Rightarrow> ladder_poll list \<Rightarrow> executor \<Rightarrow> stop_reason option \<times> ladder_state" where
  "run_ladder grace m ps e = ladder_loop grace ps (ladder_start grace m e)"

section \<open>The executor of a restart attempt\<close>

datatype restart_outcome =
    Adopted actor_id u64
  | OutcomeFailed actor_id u64 stop_reason
  | OutcomeCancelled actor_id u64 "string option"
  | PredecessorUnresponsive actor_id u64
  | OutcomeStopped actor_id u64 stop_reason

record attempt_state =
  at_child :: actor_id
  at_incarnation :: u64
  at_step :: ladder_step
  at_ordered :: bool
  at_acked :: bool
  at_ack_open :: bool
  at_open :: bool
  at_timeout_raised :: bool
  at_timer_pending :: bool
  at_ex :: executor

definition attempt_view_of :: "attempt_state \<Rightarrow> attempt_view" where
  "attempt_view_of s =
     \<lparr>av_ladder = ladder_position (at_step s),
      av_kill_stored =
        (Option.bind (cell_lane (sl_cell (ex_slot (at_ex s)))) lane_reason = Some Kill),
      av_acked = at_acked s\<rparr>"

text \<open>\<open>advance_attempt\<close>: as \<open>advance\<close>, the verdict only when the attempt's decision says so.\<close>

definition advance_attempt ::
  "duration \<Rightarrow> moment \<Rightarrow> ladder_step \<Rightarrow> ladder_event \<Rightarrow> executor \<Rightarrow> ladder_step \<times> executor" where
  "advance_attempt grace m step event e =
     (let (next, action) = ladder_step_fn step event (mt_now m) grace
      in (next,
          case action of
            LadderNone \<Rightarrow> e
          | LadderRaise sig \<Rightarrow> raise_owing m (signal_reason sig) e
          | LadderAbort \<Rightarrow> ex_abort m e
          | LadderWriteVerdict \<Rightarrow>
              if attempt_step StageInit AttemptLadderSpent
                   \<lparr>av_ladder = ladder_position step, av_kill_stored = False, av_acked = True\<rparr>
                 = AttemptWriteVerdict
              then e\<lparr>ex_slot := write_verdict (ex_slot e)\<rparr> else e
          | LadderReleaseMark \<Rightarrow> ex_task_ended m e))"

definition attempt_advance ::
  "duration \<Rightarrow> moment \<Rightarrow> ladder_event \<Rightarrow> attempt_state \<Rightarrow> attempt_state" where
  "attempt_advance grace m event s =
     (let (step, e) = advance_attempt grace m (at_step s) event (at_ex s)
      in s\<lparr>at_step := step, at_ex := e\<rparr>)"

definition attempt_read_order :: "duration \<Rightarrow> moment \<Rightarrow> stop_order \<Rightarrow> attempt_state \<Rightarrow> attempt_state" where
  "attempt_read_order grace m order s =
     (let s' = s\<lparr>at_ordered := True\<rparr>
      in if attempt_step StageInit AttemptOrder (attempt_view_of s') = AttemptArmLadder
         then attempt_advance grace m (order_event order) s' else s')"

definition attempt_check_order :: "duration \<Rightarrow> moment \<Rightarrow> attempt_state \<Rightarrow> attempt_state" where
  "attempt_check_order grace m s =
     (case io_order (ex_slot (at_ex s)) of
        None \<Rightarrow> s
      | Some order \<Rightarrow> attempt_read_order grace m order s)"

definition attempt_kill_path :: "duration \<Rightarrow> moment \<Rightarrow> bool \<Rightarrow> attempt_state \<Rightarrow> attempt_state" where
  "attempt_kill_path grace m raise s =
     s\<lparr>at_ex := owe_kill_grace m raise (at_ex s), at_step := kill_grace_from (mt_now m) grace\<rparr>"

text \<open>
  What the five branches of the select find ready: a change of the command cell, the acknowledgment
  (\<open>Some True\<close> for \<open>Ok(Ok(()))\<close>), the task's join, the ladder's deadline and the start timeout.
\<close>

record attempt_poll =
  ap_command :: "bool option"
  ap_ack :: "bool option"
  ap_joined :: "join_result option"
  ap_deadline :: bool
  ap_timer :: bool
  ap_moment :: moment

definition attempt_on_ack ::
  "duration \<Rightarrow> moment \<Rightarrow> bool \<Rightarrow> attempt_state \<Rightarrow> restart_outcome option \<times> attempt_state" where
  "attempt_on_ack grace m ok s0 =
     (let s = s0\<lparr>at_ack_open := False\<rparr> in
      if ok then
        let s1 = s\<lparr>at_acked := True\<rparr>;
            s2 = (if at_ordered s1 then s1 else attempt_check_order grace m s1);
            event = AttemptAck (at_ordered s2 \<or> io_order (ex_slot (at_ex s2)) \<noteq> None) (mt_finished m)
        in (if attempt_step StageInit event (attempt_view_of s2) = AttemptAdopt
            then Some (Adopted (at_child s2) (at_incarnation s2)) else None, s2)
      else
        (None,
         case attempt_step StageInit AttemptInitEnded (attempt_view_of s) of
           AttemptKillPath raise \<Rightarrow> attempt_kill_path grace m raise s
         | _ \<Rightarrow> s))"

definition attempt_on_join ::
  "duration \<Rightarrow> moment \<Rightarrow> join_result \<Rightarrow> attempt_state \<Rightarrow> restart_outcome \<times> attempt_state" where
  "attempt_on_join grace m res s =
     (let reason = joined_reason res (plane_reason (ex_slot (at_ex s)));
          e = snd (advance_attempt grace m (at_step s) LadderTaskEnded (at_ex s));
          s1 = s\<lparr>at_ex := e\<rparr>;
          event = AttemptEnded (at_ordered s1 \<or> io_order (ex_slot e) \<noteq> None) (at_timeout_raised s1);
          report = (case attempt_step StageInit event (attempt_view_of s1) of
              AttemptReport r \<Rightarrow> r
            | _ \<Rightarrow> ReportFailed);
          fate = \<lparr>cf_reason = reason, cf_incarnation = at_incarnation s1\<rparr>;
          s2 = s1\<lparr>at_ex := e\<lparr>ex_slot := record_fate fate (ex_slot e)\<rparr>\<rparr>
      in (case report of
            ReportStopped \<Rightarrow> OutcomeStopped (at_child s) (at_incarnation s) reason
          | ReportStartTimeout \<Rightarrow>
              OutcomeFailed (at_child s) (at_incarnation s) (Failure (SpawnErr StartTimeout))
          | ReportFailed \<Rightarrow> OutcomeFailed (at_child s) (at_incarnation s) reason,
          s2))"

definition attempt_iter ::
  "duration \<Rightarrow> attempt_poll \<Rightarrow> attempt_state \<Rightarrow> restart_outcome option \<times> attempt_state" where
  "attempt_iter grace p s =
     (let m = ap_moment p in
      if at_open s \<and> \<not> at_ordered s \<and> ap_command p \<noteq> None then
        (None, if ap_command p = Some True then attempt_check_order grace m s
               else s\<lparr>at_open := False\<rparr>)
      else if at_ack_open s \<and> ap_ack p \<noteq> None then
        attempt_on_ack grace m (ap_ack p = Some True) s
      else (case ap_joined p of
          Some res \<Rightarrow> (case attempt_on_join grace m res s of (out, s') \<Rightarrow> (Some out, s'))
        | None \<Rightarrow>
            if ladder_deadline (at_step s) \<noteq> None \<and> ap_deadline p then
              (None, attempt_advance grace m DeadlineReached s)
            else if at_timer_pending s \<and> ap_timer p then
              (let s' = s\<lparr>at_timer_pending := False\<rparr> in
               (None,
                case attempt_step StageInit AttemptStartTimeout (attempt_view_of s') of
                  AttemptKillPath raise \<Rightarrow>
                    attempt_kill_path grace m raise (s'\<lparr>at_timeout_raised := raise\<rparr>)
                | _ \<Rightarrow> s'))
            else (None, s)))"

definition attempt_start ::
  "duration \<Rightarrow> moment \<Rightarrow> actor_id \<Rightarrow> u64 \<Rightarrow> bool \<Rightarrow> executor \<Rightarrow> attempt_state" where
  "attempt_start grace m child incarnation timed e =
     attempt_check_order grace m
       \<lparr>at_child = child, at_incarnation = incarnation, at_step = LadderIdle, at_ordered = False,
        at_acked = False, at_ack_open = True, at_open = True, at_timeout_raised = False,
        at_timer_pending = timed, at_ex = e\<rparr>"

text \<open>\<open>cancelled_before_factory\<close>: the check before the factory is called.\<close>

definition cancelled_before_factory :: "slot \<Rightarrow> bool \<times> slot" where
  "cancelled_before_factory s =
     (let view = \<lparr>av_ladder = AtOff, av_kill_stored = False, av_acked = False\<rparr>;
          cancel = (attempt_step StageFactory (AttemptBegin (cancel_or_order s)) view = AttemptCancel)
      in (cancel, if cancel then mark_cancelled s else s))"

text \<open>
  \<open>await_predecessor\<close>: one pass of its loop, on what the wait on the previous incarnation's subtree reads;
  the flag says whether the previous incarnation's verdict is recorded.
\<close>

definition predecessor_pass :: "bool \<Rightarrow> bool \<Rightarrow> slot \<Rightarrow> wait_action \<times> bool \<times> slot" where
  "predecessor_pass gone expired s =
     (case successor_wait_step gone (cancel_or_order s) expired of
        WaitCancel \<Rightarrow> (WaitCancel, False, mark_cancelled s)
      | WaitEscalate \<Rightarrow> (WaitEscalate, True, s)
      | a \<Rightarrow> (a, False, s))"

section \<open>Sequences of operations on a slot\<close>

datatype slot_op =
    SlotOrderStop instant shutdown bool
  | SlotWriteOrder instant shutdown
  | SlotAskAgain
  | SlotMarkReasked
  | SlotCancelUnspawned
  | SlotLaneOp lane_op
  | SlotPlaneOp plane_op
  | SlotWriteVerdict
  | SlotVerdictFlag
  | SlotRecordFate child_fate
  | SlotMarkCancelled
  | SlotClose

definition slot_lane_op :: "lane_op \<Rightarrow> slot \<Rightarrow> slot" where
  "slot_lane_op e s =
     s\<lparr>sl_cell := (sl_cell s)\<lparr>cell_lane := map_option (\<lambda>c. lane_step c e) (cell_lane (sl_cell s))\<rparr>\<rparr>"

definition slot_plane_op :: "plane_op \<Rightarrow> slot \<Rightarrow> slot" where
  "slot_plane_op e s =
     s\<lparr>sl_cell := (sl_cell s)\<lparr>cell_status := map_option (\<lambda>c. plane_step c e) (cell_status (sl_cell s))\<rparr>\<rparr>"

fun slot_step :: "slot \<Rightarrow> slot_op \<Rightarrow> slot" where
  "slot_step s (SlotOrderStop now policy raise) = order_stop now policy raise s"
| "slot_step s (SlotWriteOrder now policy) = write_order now policy False s"
| "slot_step s SlotAskAgain = ask_again s"
| "slot_step s SlotMarkReasked = mark_reasked s"
| "slot_step s SlotCancelUnspawned = cancel_unspawned s"
| "slot_step s (SlotLaneOp e) = slot_lane_op e s"
| "slot_step s (SlotPlaneOp e) = slot_plane_op e s"
| "slot_step s SlotWriteVerdict = write_verdict s"
| "slot_step s SlotVerdictFlag = snd (verdict_record s)"
| "slot_step s (SlotRecordFate fate) = record_fate fate s"
| "slot_step s SlotMarkCancelled = mark_cancelled s"
| "slot_step s SlotClose = s\<lparr>sl_closed := True\<rparr>"

text \<open>A lane that has taken a request: it holds one at least as strong, or refuses it for good.\<close>

definition lane_took :: "lane_cell \<Rightarrow> stop_reason \<Rightarrow> bool" where
  "lane_took c r \<longleftrightarrow>
     lane_refuses c r \<or> (\<exists>r'. lane_reason c = Some r' \<and> strength r \<le> strength r')"

definition slot_took :: "slot \<Rightarrow> stop_reason \<Rightarrow> bool" where
  "slot_took s r \<longleftrightarrow> (\<exists>lane. cell_lane (sl_cell s) = Some lane \<and> lane_took lane r)"

definition order_sound :: "slot \<Rightarrow> bool" where
  "order_sound s \<longleftrightarrow>
     (\<forall>o'. cmd_stop (sl_cmd s) = Some o' \<and> so_initial_raised o' \<longrightarrow>
        slot_took s (initial_signal (so_policy o')))"

section \<open>Requests a slot has taken\<close>

lemma lane_took_level:
  "lane_took c r \<longleftrightarrow> lane_refuses c r \<or> Suc (strength r) \<le> lane_level c"
  by (auto simp: lane_took_def lane_level_def split: option.splits)

lemma lane_took_step: "lane_took c r \<Longrightarrow> lane_took (lane_step c e) r"
  using lane_step_level [of c e] lane_step_refuses [of c r e]
  by (auto simp: lane_took_level intro: order_trans)

lemma lane_took_raise: "lane_took c q \<Longrightarrow> lane_took (snd (lane_raise c r)) q"
  using lane_took_step [of c q "OpRaise r"] by simp

lemma lane_took_raised: "lane_took (snd (lane_raise c r)) r"
proof (cases "lane_refuses c r")
  case True
  then show ?thesis by (simp add: lane_took_def lane_raise_refused)
next
  case False
  then show ?thesis
    by (auto simp: lane_took_def lane_raise_reason stronger_def split: option.splits)
qed

lemma slot_took_raise: "slot_took s q \<Longrightarrow> slot_took (slot_raise r s) q"
  by (auto simp: slot_took_def slot_raise_def lane_took_raise)

lemma slot_took_raised: "cell_lane (sl_cell s) \<noteq> None \<Longrightarrow> slot_took (slot_raise r s) r"
  by (auto simp: slot_took_def slot_raise_def lane_took_raised)

lemma slot_raise_frame [frame_simps]:
  "sl_cmd (slot_raise r s) = sl_cmd s"
  "cell_lane (sl_cell (slot_raise r s)) = None \<longleftrightarrow> cell_lane (sl_cell s) = None"
  "cell_unresponsive (sl_cell (slot_raise r s)) = cell_unresponsive (sl_cell s)"
  "sl_lost (slot_raise r s) = sl_lost s"
  by (simp_all add: slot_raise_def)

lemma write_order_frame [frame_simps]: "sl_cell (write_order now policy raised s) = sl_cell s"
  by (simp add: write_order_def)

lemma write_order_stop:
  "cmd_stop (sl_cmd (write_order now policy raised s)) =
     (case cmd_stop (sl_cmd s) of
        Some o' \<Rightarrow> Some o'
      | None \<Rightarrow> Some \<lparr>so_policy = policy, so_issued_at = now, so_initial_raised = raised\<rparr>)"
  by (auto simp: write_order_def split: option.splits)

lemma order_stop_eq:
  "order_stop now policy raise s =
     (if has_order s then s
      else if raise \<and> cell_lane (sl_cell s) \<noteq> None
      then write_order now policy True (slot_raise (initial_signal policy) s)
      else write_order now policy False s)"
  by (auto simp: order_stop_def raise_first_def Let_def split: option.splits)

lemma order_stop_took: "slot_took s q \<Longrightarrow> slot_took (order_stop now policy raise s) q"
  by (auto simp: order_stop_eq slot_took_raise frame_simps slot_took_def [of "write_order _ _ _ _"]
      simp flip: slot_took_def)

lemma slot_step_took: "slot_took s q \<Longrightarrow> slot_took (slot_step s e) q"
proof (cases e)
  case (SlotLaneOp l)
  assume "slot_took s q"
  then show ?thesis
    using lane_took_step by (auto simp: SlotLaneOp slot_took_def slot_lane_op_def)
next
  case (SlotOrderStop now policy raise)
  assume "slot_took s q"
  then show ?thesis by (simp add: SlotOrderStop order_stop_took)
next
  case SlotAskAgain
  assume "slot_took s q"
  then show ?thesis by (simp add: SlotAskAgain ask_again_def slot_took_raise)
qed (simp_all add: slot_took_def frame_simps mark_reasked_def cancel_unspawned_def slot_plane_op_def
      write_verdict_def verdict_record_def record_fate_def mark_cancelled_def Let_def)

lemma slot_step_order:
  "cmd_stop (sl_cmd s) = Some o' \<Longrightarrow> cmd_stop (sl_cmd (slot_step s e)) = Some o'"
  by (cases e) (auto simp: order_stop_def has_order_def write_order_def ask_again_def slot_raise_def
      mark_reasked_def cancel_unspawned_def slot_lane_op_def slot_plane_op_def write_verdict_def
      verdict_record_def record_fate_def mark_cancelled_def Let_def)

lemma order_sound_new_order:
  assumes "cmd_stop (sl_cmd s) = None" "\<not> (\<exists>now policy raise. e = SlotOrderStop now policy raise)"
    "\<not> (\<exists>now policy. e = SlotWriteOrder now policy)"
  shows "cmd_stop (sl_cmd (slot_step s e)) = None"
  using assms by (cases e) (auto simp: ask_again_def slot_raise_def mark_reasked_def
      cancel_unspawned_def slot_lane_op_def slot_plane_op_def write_verdict_def verdict_record_def
      record_fate_def mark_cancelled_def Let_def)

lemma order_sound_step: "order_sound s \<Longrightarrow> order_sound (slot_step s e)"
proof (cases "cmd_stop (sl_cmd s)")
  case (Some o')
  assume "order_sound s"
  then show ?thesis
    using slot_step_order [OF Some, of e] slot_step_took Some by (auto simp: order_sound_def)
next
  case None
  show ?thesis
  proof (cases e)
    case (SlotOrderStop now policy raise)
    have "slot_took (slot_raise (initial_signal policy) s) (initial_signal policy)"
      if "cell_lane (sl_cell s) \<noteq> None"
      using that by (rule slot_took_raised)
    then show ?thesis
      using None by (auto simp: SlotOrderStop order_stop_eq has_order_def order_sound_def
          write_order_stop frame_simps slot_took_def)
  next
    case (SlotWriteOrder now policy)
    then show ?thesis
      using None by (simp add: order_sound_def write_order_stop)
  qed (use None order_sound_new_order [OF None, of e] in \<open>auto simp: order_sound_def\<close>)
qed

interpretation slot_orders: invariant_machine slot_step order_sound
  by unfold_locales (rule order_sound_step)

interpretation slot_first_order: invariant_machine slot_step "\<lambda>s. cmd_stop (sl_cmd s) = Some o'" for o'
  by unfold_locales (rule slot_step_order)

end
