(* ===== verification/Slot_Executors.thy ===== *)
theory Slot_Executors
  imports Slot
begin

text \<open>
  What the two executors of a slot guarantee while the supervisor, the actor and every other holder of the
  lane and the plane interleave with them: the runner's ladder really performed the escalations its
  position stands for, and a restart attempt never hands an incarnation over under a stop order.
\<close>

section \<open>Effects of one ladder step\<close>

definition abort_settled :: "abort_record \<Rightarrow> bool" where
  "abort_settled r \<longleftrightarrow> ow_at (ar_owed r) \<noteq> None \<or> ow_ended (ar_owed r)"

lemma abort_settled_owe: "abort_settled r \<Longrightarrow> abort_settled (fst (owe live r st))"
  by (auto simp: abort_settled_def owe_def Let_def)

lemma abort_settled_release: "abort_settled (fst (release now r st))"
  by (simp add: abort_settled_def release_def Let_def)

lemma abort_settled_record: "abort_settled (fst (record_abort now live r st))"
  by (auto simp: abort_settled_def record_abort_def Let_def)

lemma abort_settled_owe_for: "abort_settled r \<Longrightarrow> abort_settled (fst (owe_for now finished live r st))"
  by (simp add: owe_for_def abort_settled_owe abort_settled_release)

lemma abort_settled_abort: "abort_settled (fst (snd (abort now finished live r st)))"
  by (simp add: abort_def abort_settled_record abort_settled_release)

lemma ex_owe_for_frame [frame_simps]: "ex_slot (ex_owe_for m e) = ex_slot e"
  by (simp add: ex_owe_for_def split: prod.splits)

lemma ex_abort_frame [frame_simps]: "ex_slot (ex_abort m e) = ex_slot e"
  by (simp add: ex_abort_def split: prod.splits)

lemma ex_task_ended_frame [frame_simps]: "ex_slot (ex_task_ended m e) = ex_slot e"
  by (simp add: ex_task_ended_def split: prod.splits)

lemma raise_owing_slot [frame_simps]:
  "ex_slot (raise_owing m r e) =
     (if cell_lane (sl_cell (ex_slot e)) = None then ex_slot e else slot_raise r (ex_slot e))"
  by (auto simp: raise_owing_def Let_def frame_simps split: option.splits)

lemma abort_settled_ex:
  "abort_settled (ex_record e) \<Longrightarrow> abort_settled (ex_record (ex_owe_for m e))"
  "abort_settled (ex_record e) \<Longrightarrow> abort_settled (ex_record (raise_owing m r e))"
  "abort_settled (ex_record (ex_abort m e))"
  "abort_settled (ex_record (ex_task_ended m e))"
proof -
  show owe: "abort_settled (ex_record e) \<Longrightarrow> abort_settled (ex_record (ex_owe_for m e))" for e
    using abort_settled_owe_for by (auto simp: ex_owe_for_def split: prod.splits)
      (metis fst_conv)
  show "abort_settled (ex_record e) \<Longrightarrow> abort_settled (ex_record (raise_owing m r e))"
    using owe by (auto simp: raise_owing_def Let_def split: option.splits)
  show "abort_settled (ex_record (ex_abort m e))"
    using abort_settled_abort by (auto simp: ex_abort_def split: prod.splits) (metis fst_conv snd_conv)
  show "abort_settled (ex_record (ex_task_ended m e))"
    using abort_settled_release by (auto simp: ex_task_ended_def task_ended_def split: prod.splits)
      (metis fst_conv)
qed

definition published :: "slot \<Rightarrow> bool" where
  "published s \<longleftrightarrow> cell_lane (sl_cell s) \<noteq> None"

lemma published_raise [simp]: "published (slot_raise r s) = published s"
  by (simp add: published_def frame_simps)

lemma published_verdict [simp]: "published (write_verdict s) = published s"
  by (simp add: published_def write_verdict_def verdict_record_def Let_def)

lemma slot_took_raised_published: "published s \<Longrightarrow> slot_took (slot_raise r s) r"
  by (simp add: published_def slot_took_raised)

lemma raise_owing_published:
  "published (ex_slot e) \<Longrightarrow> ex_slot (raise_owing m r e) = slot_raise r (ex_slot e)"
  by (auto simp: published_def frame_simps)

lemma ladder_rung_le: "ladder_rung step \<le> 4"
  by (cases step) simp_all

text \<open>
  What a ladder at a rung has done: \<open>Kill\<close> taken by the lane from the kill grace on, the abort issued or the
  task's end seen from the abort's wait on, and the verdict readable once it is spent.
\<close>

definition rung_ok :: "ladder_step \<Rightarrow> executor \<Rightarrow> bool" where
  "rung_ok step e \<longleftrightarrow>
     published (ex_slot e) \<and> order_sound (ex_slot e) \<and>
     (2 \<le> ladder_rung step \<longrightarrow> slot_took (ex_slot e) Kill) \<and>
     (3 \<le> ladder_rung step \<longrightarrow> abort_settled (ex_record e)) \<and>
     (ladder_rung step = 4 \<longrightarrow> cell_unresponsive (sl_cell (ex_slot e)) \<and> is_unresponsive (ex_slot e))"

lemma order_sound_raise: "order_sound s \<Longrightarrow> order_sound (slot_raise r s)"
  by (auto simp: order_sound_def frame_simps slot_took_raise)

lemma write_verdict_frame [frame_simps]:
  "cell_lane (sl_cell (write_verdict s)) = cell_lane (sl_cell s)"
  "sl_cmd (write_verdict s) = sl_cmd s"
  "cell_unresponsive (sl_cell (write_verdict s))"
  "is_unresponsive (write_verdict s)"
  by (simp_all add: write_verdict_def verdict_record_def is_unresponsive_def Let_def)

lemma slot_took_cong: "cell_lane (sl_cell s) = cell_lane (sl_cell s') \<Longrightarrow> slot_took s r = slot_took s' r"
  by (simp add: slot_took_def)

lemma order_sound_verdict: "order_sound s \<Longrightarrow> order_sound (write_verdict s)"
  by (simp add: order_sound_def frame_simps slot_took_cong [of "write_verdict s" s])

lemma rung_ok_raise:
  assumes "rung_ok step e" "ladder_rung next \<le> 2" "ladder_rung next = 2 \<longrightarrow> r = Kill \<or> slot_took (ex_slot e) Kill"
  shows "rung_ok next (raise_owing m r e)"
  using assms slot_took_raised_published [of "ex_slot e" Kill] slot_took_raise [of "ex_slot e" Kill r]
  by (auto simp: rung_ok_def raise_owing_published order_sound_raise)

lemma rung_ok_settled:
  "rung_ok step e \<Longrightarrow> abort_settled (ex_record e') \<Longrightarrow> ex_slot e' = ex_slot e \<Longrightarrow>
     ladder_rung next \<le> max (ladder_rung step) 3 \<Longrightarrow> 2 \<le> ladder_rung step \<or> ladder_rung next < 2 \<Longrightarrow>
     rung_ok next e'"
  using ladder_rung_le [of step] by (auto simp: rung_ok_def max_def split: if_splits)

lemma rung_ok_task_ended: "rung_ok step e \<Longrightarrow> rung_ok step (ex_task_ended m e)"
  using abort_settled_ex(4) [of m e] by (simp add: rung_ok_def frame_simps)

lemma rung_ok_verdict:
  "rung_ok step e \<Longrightarrow> 3 \<le> ladder_rung step \<Longrightarrow>
     rung_ok LadderSpent (e\<lparr>ex_slot := write_verdict (ex_slot e)\<rparr>)"
  by (auto simp: rung_ok_def frame_simps order_sound_verdict slot_took_cong [of "write_verdict (ex_slot e)" "ex_slot e"])

lemma initial_signal_Kill [simp]: "initial_signal ShutdownKill = Kill"
  by (simp add: initial_signal_def)

lemma rung_ok_order:
  assumes ok: "rung_ok LadderIdle e" and order: "io_order (ex_slot e) = Some order"
    and adv: "advance grace m LadderIdle (order_event order) e = (next, e')"
  shows "rung_ok next e'"
proof -
  have raised: "so_initial_raised order \<Longrightarrow> slot_took (ex_slot e) (initial_signal (so_policy order))"
    using ok order by (auto simp: rung_ok_def order_sound_def io_order_def)
  show ?thesis
  proof (cases "so_initial_raised order")
    case True
    then have e: "e' = e"
      using adv by (auto simp: advance_def Let_def)
    show ?thesis
      unfolding e using ok adv raised [OF True] True
      by (auto simp: rung_ok_def advance_def Let_def split: shutdown.splits)
  next
    case False
    then have e: "e' = raise_owing m (signal_reason (first_signal (so_policy order))) e"
      and n: "ladder_rung next \<le> 2" "ladder_rung next = 2 \<longrightarrow> so_policy order = ShutdownKill"
      using adv by (auto simp: advance_def Let_def split: shutdown.splits)
    show ?thesis
      unfolding e using n by (intro rung_ok_raise [OF ok]) auto
  qed
qed

lemma rung_ok_deadline:
  assumes "rung_ok step e" "advance grace m step DeadlineReached e = (next, e')"
  shows "rung_ok next e'"
  using assms
proof (cases step)
  case (LadderGraceful d)
  then show ?thesis
    using assms by (cases d) (auto simp: advance_def intro: rung_ok_raise)
next
  case (LadderKillGrace d)
  then show ?thesis
    using assms abort_settled_ex(3) [of m e]
    by (auto simp: advance_def frame_simps intro: rung_ok_settled)
next
  case (LadderAbortGrace d)
  then show ?thesis
    using assms rung_ok_verdict by (auto simp: advance_def)
qed (use assms in \<open>auto simp: advance_def\<close>)

section \<open>The runner's ladder among the other holders\<close>

datatype ladder_move =
    LadderPoll ladder_poll
  | LadderEnv slot_op

fun ladder_move_step :: "duration \<Rightarrow> ladder_state \<Rightarrow> ladder_move \<Rightarrow> ladder_state" where
  "ladder_move_step grace s (LadderPoll p) = snd (ladder_iter grace p s)"
| "ladder_move_step grace s (LadderEnv op) =
     s\<lparr>la_ex := (la_ex s)\<lparr>ex_slot := slot_step (ex_slot (la_ex s)) op\<rparr>\<rparr>"

definition ladder_inv :: "ladder_state \<Rightarrow> bool" where
  "ladder_inv s = rung_ok (la_step s) (la_ex s)"

lemma published_write_order [simp]: "published (write_order now policy raised s) = published s"
  by (simp add: published_def frame_simps)

lemma slot_step_published: "published s \<Longrightarrow> published (slot_step s e)"
  by (cases e) (simp_all add: order_stop_eq ask_again_def,
      simp_all add: published_def mark_reasked_def cancel_unspawned_def
      slot_lane_op_def slot_plane_op_def verdict_record_def record_fate_def mark_cancelled_def)

lemma slot_step_unresponsive:
  "cell_unresponsive (sl_cell s) \<Longrightarrow> cell_unresponsive (sl_cell (slot_step s e))"
  by (cases e) (auto simp: order_stop_eq frame_simps ask_again_def mark_reasked_def cancel_unspawned_def
      slot_lane_op_def slot_plane_op_def verdict_record_def record_fate_def mark_cancelled_def)

lemma rung_ok_env: "rung_ok step e \<Longrightarrow> rung_ok step (e\<lparr>ex_slot := slot_step (ex_slot e) op\<rparr>)"
  using slot_step_published slot_step_unresponsive order_sound_step slot_step_took
  by (auto simp: rung_ok_def is_unresponsive_def)

lemma ladder_inv_read_order:
  "ladder_inv s \<Longrightarrow> la_step s = LadderIdle \<Longrightarrow> ladder_inv (ladder_read_order grace m s)"
  by (auto simp: ladder_inv_def ladder_read_order_def rung_ok_order simp del: order_event.simps
      split: option.splits prod.splits)

lemma ladder_inv_iter: "ladder_inv s \<Longrightarrow> ladder_inv (snd (ladder_iter grace p s))"
proof (cases "lp_joined p")
  case (Some res)
  assume "ladder_inv s"
  then show ?thesis
    using Some by (auto simp: ladder_iter_def ladder_inv_def advance_def rung_ok_task_ended)
next
  case None
  assume "ladder_inv s"
  then show ?thesis
    using None ladder_inv_read_order
    by (auto simp: ladder_iter_def Let_def ladder_inv_def rung_ok_deadline split: prod.splits)
qed

lemma ladder_inv_move: "ladder_inv s \<Longrightarrow> ladder_inv (ladder_move_step grace s mv)"
  by (cases mv) (simp_all add: ladder_inv_iter, simp add: ladder_inv_def rung_ok_env)

interpretation ladder_moves: invariant_machine "ladder_move_step grace" ladder_inv for grace
  by unfold_locales (rule ladder_inv_move)

text \<open>
  C28.  The ladder does what its position says, whoever else acts: from an executor whose incarnation
  published its lane, under any interleaving of the ladder's own steps with stop orders, requests,
  status writes and the actor's own end, a ladder in its kill grace or later has \<open>Kill\<close> pending on the lane
  (or the lane refuses it for good), one that waits after its abort has an abort recorded or the end of
  the task seen, and one that is spent shows the Unresponsive verdict to the supervisor.
\<close>

theorem ladder_position_is_truthful:
  assumes "published (ex_slot e)" "order_sound (ex_slot e)"
    and "s = run (ladder_move_step grace) (ladder_start grace m e) moves"
  shows "(ladder_position (la_step s) \<in> {AtKillGrace, AtAbortGrace, AtSpent} \<longrightarrow>
      slot_took (ex_slot (la_ex s)) Kill) \<and>
    (ladder_position (la_step s) \<in> {AtAbortGrace, AtSpent} \<longrightarrow>
      abort_settled (ex_record (la_ex s))) \<and>
    (ladder_position (la_step s) = AtSpent \<longrightarrow> is_unresponsive (ex_slot (la_ex s)))"
proof -
  have "ladder_inv (ladder_start grace m e)"
    unfolding ladder_start_def
    by (rule ladder_inv_read_order) (use assms(1,2) in \<open>simp_all add: ladder_inv_def rung_ok_def\<close>)
  then have "ladder_inv s"
    unfolding assms(3) by (rule ladder_moves.run_inv)
  then show ?thesis
    by (cases "la_step s") (auto simp: ladder_inv_def rung_ok_def)
qed

definition started_executor :: executor where
  "started_executor =
     \<lparr>ex_slot = publish lane_cell_new status_cell_new own_stop_default None (slot_pair_for None),
      ex_record = abort_record_new, ex_store = (\<lambda>_. subtree_shared_new)\<rparr>"

lemma started_executor_ok:
  "published (ex_slot started_executor)" "order_sound (ex_slot started_executor)"
  by (simp_all add: started_executor_def published_def publish_def slot_pair_for_def order_sound_def)

definition moment_at :: "instant \<Rightarrow> moment" where
  "moment_at t = \<lparr>mt_now = t, mt_finished = False, mt_live = True\<rparr>"

lemmas slot_eval = started_executor_def publish_def slot_pair_for_def moment_at_def io_order_def
  order_stop_eq has_order_def write_order_def slot_raise_def slot_lane_op_def

lemmas ladder_eval = slot_eval ladder_start_def ladder_read_order_def ladder_iter_def advance_def
  raise_owing_def ex_owe_for_def kill_grace_from_def first_signal.simps Let_def case_prod_beta

theorem ladder_position_is_truthful_witness:
  fixes s :: ladder_state
  defines "s \<equiv> run (ladder_move_step 7) (ladder_start 7 (moment_at 0) started_executor)
    [LadderEnv (SlotOrderStop 1 (ShutdownTimeout 5) True),
     LadderPoll \<lparr>lp_joined = None, lp_command = Some True, lp_deadline = False, lp_moment = moment_at 1\<rparr>,
     LadderPoll \<lparr>lp_joined = None, lp_command = None, lp_deadline = True, lp_moment = moment_at 6\<rparr>]"
  shows "ladder_position (la_step s) = AtKillGrace \<and> slot_took (ex_slot (la_ex s)) Kill"
proof -
  have "ladder_position (la_step s) = AtKillGrace"
    unfolding s_def by (simp add: ladder_eval)
  then show ?thesis
    using ladder_position_is_truthful
      [OF started_executor_ok s_def [THEN meta_eq_to_obj_eq]] by simp
qed

section \<open>The attempt among the other holders\<close>

datatype attempt_move =
    AttemptPoll attempt_poll
  | AttemptEnv slot_op

fun attempt_move_step :: "duration \<Rightarrow> attempt_state \<Rightarrow> attempt_move \<Rightarrow> attempt_state" where
  "attempt_move_step grace s (AttemptPoll p) = snd (attempt_iter grace p s)"
| "attempt_move_step grace s (AttemptEnv op) =
     s\<lparr>at_ex := (at_ex s)\<lparr>ex_slot := slot_step (ex_slot (at_ex s)) op\<rparr>\<rparr>"

definition attempt_inv :: "attempt_state \<Rightarrow> bool" where
  "attempt_inv s \<longleftrightarrow>
     rung_ok (at_step s) (at_ex s) \<and>
     (at_ordered s \<longrightarrow> io_order (ex_slot (at_ex s)) \<noteq> None) \<and>
     (at_timeout_raised s \<longrightarrow> slot_took (ex_slot (at_ex s)) Kill)"

lemma advance_attempt_eq: "advance_attempt grace m step event e = advance grace m step event e"
  by (simp add: advance_attempt_def advance_def Let_def cong: ladder_action.case_cong)

lemma advance_cmd: "sl_cmd (ex_slot (snd (advance grace m step event e))) = sl_cmd (ex_slot e)"
  by (auto simp: advance_def Let_def frame_simps split: prod.splits ladder_action.splits)

lemma advance_took:
  "slot_took (ex_slot e) Kill \<Longrightarrow> slot_took (ex_slot (snd (advance grace m step event e))) Kill"
  by (auto simp: advance_def Let_def frame_simps slot_took_raise
      slot_took_cong [of "write_verdict _" "ex_slot e"] split: prod.splits ladder_action.splits)

lemma io_order_cmd: "sl_cmd s = sl_cmd s' \<Longrightarrow> io_order s = io_order s'"
  by (simp add: io_order_def)

lemma advance_order_armed:
  "step \<noteq> LadderIdle \<Longrightarrow> advance grace m step (order_event o') e = (step, e)"
  by (cases step) (simp_all add: advance_def)

lemma rung_ok_order_any:
  assumes "rung_ok step e" "io_order (ex_slot e) = Some order"
  shows "rung_ok (fst (advance grace m step (order_event order) e))
    (snd (advance grace m step (order_event order) e))"
proof (cases "step = LadderIdle")
  case True
  then show ?thesis
    using rung_ok_order [of e order grace m] assms by (metis prod.collapse)
next
  case False
  then show ?thesis
    using assms(1) advance_order_armed by (metis fst_conv snd_conv)
qed

lemma attempt_inv_read_order:
  assumes "attempt_inv s" "io_order (ex_slot (at_ex s)) = Some order"
  shows "attempt_inv (attempt_read_order grace m order s)"
proof -
  let ?a = "advance grace m (at_step s) (order_event order) (at_ex s)"
  have eq: "attempt_read_order grace m order s =
      s\<lparr>at_ordered := True, at_step := fst ?a, at_ex := snd ?a\<rparr>"
    by (simp add: attempt_read_order_def attempt_advance_def advance_attempt_eq Let_def
        del: order_event.simps split: prod.splits)
  have "io_order (ex_slot (snd ?a)) = Some order"
    using assms(2) io_order_cmd [OF advance_cmd] by metis
  then show ?thesis
    unfolding eq using assms rung_ok_order_any advance_took
    by (simp add: attempt_inv_def del: order_event.simps)
qed

lemma attempt_inv_check_order: "attempt_inv s \<Longrightarrow> attempt_inv (attempt_check_order grace m s)"
  by (simp add: attempt_check_order_def attempt_inv_read_order split: option.splits)

lemma attempt_inv_advance:
  assumes "attempt_inv s"
  shows "attempt_inv (attempt_advance grace m DeadlineReached s)"
proof -
  let ?a = "advance grace m (at_step s) DeadlineReached (at_ex s)"
  have eq: "attempt_advance grace m DeadlineReached s = s\<lparr>at_step := fst ?a, at_ex := snd ?a\<rparr>"
    by (simp add: attempt_advance_def advance_attempt_eq split: prod.splits)
  have "io_order (ex_slot (snd ?a)) = io_order (ex_slot (at_ex s))"
    by (rule io_order_cmd) (rule advance_cmd)
  then show ?thesis
    unfolding eq using assms rung_ok_deadline advance_took
    by (simp add: attempt_inv_def) (metis prod.collapse)
qed

lemma kill_stored_took:
  "av_kill_stored (attempt_view_of s) \<Longrightarrow> slot_took (ex_slot (at_ex s)) Kill"
  by (auto simp: attempt_view_of_def slot_took_def lane_took_def bind_eq_Some_conv)

lemma owe_kill_grace_cmd [frame_simps]: "sl_cmd (ex_slot (owe_kill_grace m raise e)) = sl_cmd (ex_slot e)"
  by (simp add: owe_kill_grace_def frame_simps)

lemma owe_kill_grace_took:
  assumes "published (ex_slot e)" "\<not> raise \<Longrightarrow> slot_took (ex_slot e) Kill"
  shows "slot_took (ex_slot (owe_kill_grace m raise e)) Kill"
proof (cases raise)
  case True
  then show ?thesis
    using assms(1) slot_took_raised_published [OF assms(1)]
    by (simp add: owe_kill_grace_def raise_owing_published [OF assms(1)])
qed (use assms(2) in \<open>simp add: owe_kill_grace_def frame_simps\<close>)

lemma attempt_inv_kill_path:
  assumes inv: "attempt_inv s" and low: "ladder_rung (at_step s) \<le> 1"
    and raise: "\<not> raise \<Longrightarrow> slot_took (ex_slot (at_ex s)) Kill"
  shows "attempt_inv (attempt_kill_path grace m raise (s\<lparr>at_timeout_raised := b\<rparr>))"
proof -
  let ?e = "owe_kill_grace m raise (at_ex s)"
  have pub: "published (ex_slot (at_ex s))" and ord: "order_sound (ex_slot (at_ex s))"
    using inv by (auto simp: attempt_inv_def rung_ok_def)
  have took: "slot_took (ex_slot ?e) Kill"
    using owe_kill_grace_took [OF pub raise] .
  have "published (ex_slot ?e)" "order_sound (ex_slot ?e)"
    using pub ord by (auto simp: owe_kill_grace_def raise_owing_published frame_simps order_sound_raise)
  then have "rung_ok (kill_grace_from (mt_now m) grace) ?e"
    using took by (simp add: rung_ok_def kill_grace_from_def)
  moreover have "io_order (ex_slot ?e) = io_order (ex_slot (at_ex s))"
    by (rule io_order_cmd) (rule owe_kill_grace_cmd)
  ultimately show ?thesis
    using inv took by (simp add: attempt_inv_def attempt_kill_path_def)
qed

lemma position_low: "ladder_position step = AtOff \<or> ladder_position step = AtWindow \<Longrightarrow> ladder_rung step \<le> 1"
  by (cases step) auto

lemma attempt_inv_env:
  assumes "attempt_inv s"
  shows "attempt_inv (s\<lparr>at_ex := (at_ex s)\<lparr>ex_slot := slot_step (ex_slot (at_ex s)) op\<rparr>\<rparr>)"
  using assms slot_step_order slot_step_took rung_ok_env
  by (auto simp: attempt_inv_def io_order_def)

lemma advance_task_ended:
  "snd (advance grace m step LadderTaskEnded e) = e \<or>
   snd (advance grace m step LadderTaskEnded e) = ex_task_ended m e"
  by (cases step) (auto simp: advance_def)

lemma attempt_inv_task_ended: "attempt_inv s \<Longrightarrow> attempt_inv (s\<lparr>at_ex := ex_task_ended m (at_ex s)\<rparr>)"
  by (simp add: attempt_inv_def rung_ok_task_ended frame_simps)

lemma attempt_inv_joined:
  assumes "attempt_inv s"
  shows "attempt_inv (snd (attempt_on_join grace m res s))"
proof -
  let ?s = "s\<lparr>at_ex := snd (advance grace m (at_step s) LadderTaskEnded (at_ex s))\<rparr>"
  have "attempt_inv ?s"
    using advance_task_ended [of grace m "at_step s" "at_ex s"] attempt_inv_task_ended [OF assms] assms
    by auto
  then show ?thesis
    using attempt_inv_env [of ?s "SlotRecordFate _"]
    by (simp add: attempt_on_join_def advance_attempt_eq Let_def)
qed

lemma attempt_inv_acked:
  assumes "attempt_inv s"
  shows "attempt_inv (snd (attempt_on_ack grace m ok s))"
proof (cases ok)
  case True
  have "attempt_inv (s\<lparr>at_ack_open := False, at_acked := True\<rparr>)"
    using assms by (simp add: attempt_inv_def)
  then show ?thesis
    using True attempt_inv_check_order by (auto simp: attempt_on_ack_def Let_def)
next
  case False
  let ?s = "s\<lparr>at_ack_open := False\<rparr>"
  have inv: "attempt_inv ?s"
    using assms by (simp add: attempt_inv_def)
  have same: "?s\<lparr>at_timeout_raised := at_timeout_raised ?s\<rparr> = ?s"
    by simp
  show ?thesis
  proof (cases "av_ladder (attempt_view_of ?s) = AtOff")
    case True
    then have low: "ladder_rung (at_step ?s) \<le> 1"
      using position_low [of "at_step ?s"] by (simp add: attempt_view_of_def)
    have "attempt_inv (attempt_kill_path grace m (\<not> av_kill_stored (attempt_view_of ?s))
        (?s\<lparr>at_timeout_raised := at_timeout_raised ?s\<rparr>))"
      by (rule attempt_inv_kill_path [OF inv low]) (use kill_stored_took [of ?s] in blast)
    then show ?thesis
      using True \<open>\<not> ok\<close> by (simp add: attempt_on_ack_def Let_def)
  qed (use inv \<open>\<not> ok\<close> in \<open>simp add: attempt_on_ack_def Let_def\<close>)
qed

lemma attempt_inv_timer:
  assumes "attempt_inv s" "attempt_step StageInit AttemptStartTimeout (attempt_view_of s) = AttemptKillPath raise"
  shows "attempt_inv (attempt_kill_path grace m raise (s\<lparr>at_timeout_raised := raise\<rparr>))"
proof (rule attempt_inv_kill_path [OF assms(1)])
  show "ladder_rung (at_step s) \<le> 1"
    using assms(2) position_low [of "at_step s"] by (auto simp: attempt_view_of_def split: if_splits)
  show "slot_took (ex_slot (at_ex s)) Kill" if "\<not> raise"
    using assms(2) that kill_stored_took [of s] by (auto split: if_splits)
qed

lemma attempt_inv_timeout:
  assumes "attempt_inv s"
  shows "attempt_inv (case attempt_step StageInit AttemptStartTimeout (attempt_view_of s) of
      AttemptKillPath raise \<Rightarrow> attempt_kill_path grace m raise (s\<lparr>at_timeout_raised := raise\<rparr>)
    | _ \<Rightarrow> s)"
  using assms attempt_inv_timer [OF assms]
  by (cases "attempt_step StageInit AttemptStartTimeout (attempt_view_of s)")
    (simp_all del: attempt_step.simps)

lemma attempt_inv_iter:
  assumes "attempt_inv s"
  shows "attempt_inv (snd (attempt_iter grace p s))"
proof -
  have "attempt_inv (s\<lparr>at_open := False\<rparr>)" "attempt_inv (s\<lparr>at_timer_pending := False\<rparr>)"
    using assms by (simp_all add: attempt_inv_def)
  then show ?thesis
    using assms attempt_inv_check_order attempt_inv_acked attempt_inv_joined attempt_inv_advance
      attempt_inv_timeout
    by (simp add: attempt_iter_def Let_def case_prod_beta del: attempt_step.simps split: option.split)
qed

interpretation attempt_moves: invariant_machine "attempt_move_step grace" attempt_inv for grace
proof (unfold_locales)
  fix s e
  show "attempt_inv s \<Longrightarrow> attempt_inv (attempt_move_step grace s e)"
    by (cases e) (simp_all add: attempt_inv_iter attempt_inv_env)
qed

lemma attempt_iter_names:
  "at_child (snd (attempt_iter grace p s)) = at_child s \<and>
   at_incarnation (snd (attempt_iter grace p s)) = at_incarnation s"
  by (simp add: attempt_iter_def attempt_on_ack_def attempt_on_join_def attempt_check_order_def
      attempt_read_order_def attempt_advance_def attempt_kill_path_def Let_def case_prod_beta
      split: option.split attempt_action.split)

interpretation attempt_named: invariant_machine "attempt_move_step grace"
  "\<lambda>s. at_child s = child \<and> at_incarnation s = incarnation" for grace child incarnation
proof (unfold_locales)
  fix s :: attempt_state and e
  assume "at_child s = child \<and> at_incarnation s = incarnation"
  then show "at_child (attempt_move_step grace s e) = child \<and>
      at_incarnation (attempt_move_step grace s e) = incarnation"
    by (cases e) (simp_all add: attempt_iter_names)
qed

lemma attempt_start_names:
  "at_child (attempt_start grace m child incarnation timed e) = child \<and>
   at_incarnation (attempt_start grace m child incarnation timed e) = incarnation"
  by (simp add: attempt_start_def attempt_check_order_def attempt_read_order_def attempt_advance_def
      Let_def case_prod_beta split: option.split)

lemma attempt_iter_outcome:
  assumes "attempt_iter grace p s = (Some out, s')"
  obtains (Acked) m where "attempt_on_ack grace m True s = (Some out, s')"
  | (Joined) m res where "attempt_on_join grace m res s = (out, s')"
  using assms
  by (auto simp: attempt_iter_def attempt_on_ack_def Let_def split: if_splits option.splits prod.splits)

lemma acked_adopts:
  assumes "attempt_on_ack grace m True s = (Some out, s')"
  shows "out = Adopted (at_child s') (at_incarnation s') \<and> io_order (ex_slot (at_ex s')) = None \<and>
    \<not> at_ordered s' \<and> ladder_position (at_step s') = AtOff \<and> at_acked s'"
  using assms by (auto simp: attempt_on_ack_def Let_def attempt_view_of_def attempt_check_order_def
      attempt_read_order_def attempt_advance_def case_prod_beta split: if_splits option.splits)

text \<open>What an outcome of the attempt says of the state it is returned in.\<close>

fun outcome_sound :: "attempt_state \<Rightarrow> restart_outcome \<Rightarrow> bool" where
  "outcome_sound s (Adopted c n) \<longleftrightarrow>
     c = at_child s \<and> n = at_incarnation s \<and> io_order (ex_slot (at_ex s)) = None \<and>
     at_step s = LadderIdle \<and> at_acked s"
| "outcome_sound s (OutcomeStopped c n r) \<longleftrightarrow>
     c = at_child s \<and> n = at_incarnation s \<and> io_order (ex_slot (at_ex s)) \<noteq> None \<and>
     slot_fate (ex_slot (at_ex s)) = Some \<lparr>cf_reason = r, cf_incarnation = n\<rparr>"
| "outcome_sound s (OutcomeFailed c n r) \<longleftrightarrow>
     c = at_child s \<and> n = at_incarnation s \<and>
     (case slot_fate (ex_slot (at_ex s)) of
        None \<Rightarrow> False
      | Some fate \<Rightarrow>
          cf_incarnation fate = n \<and>
          (cf_reason fate = r \<and> io_order (ex_slot (at_ex s)) = None \<or>
           r = Failure (SpawnErr StartTimeout) \<and> slot_took (ex_slot (at_ex s)) Kill))"
| "outcome_sound s _ \<longleftrightarrow> False"

lemma joined_outcome_sound:
  assumes inv: "attempt_inv s" and join: "attempt_on_join grace m res s = (out, s')"
  shows "outcome_sound s' out"
proof -
  have "attempt_inv s'"
    using attempt_inv_joined [OF inv] join by (metis snd_conv)
  then have kill: "at_timeout_raised s \<Longrightarrow> slot_took (ex_slot (at_ex s')) Kill"
    using join by (auto simp: attempt_inv_def attempt_on_join_def Let_def)
  have ordered: "at_ordered s \<Longrightarrow> io_order (ex_slot (at_ex s')) \<noteq> None"
    using \<open>attempt_inv s'\<close> join by (auto simp: attempt_inv_def attempt_on_join_def Let_def)
  let ?e = "snd (advance grace m (at_step s) LadderTaskEnded (at_ex s))"
  have same: "io_order (ex_slot (at_ex s')) = io_order (ex_slot ?e)"
    using join by (auto simp: attempt_on_join_def advance_attempt_eq Let_def io_order_def record_fate_def)
  show ?thesis
    using join kill ordered same
    by (auto simp: attempt_on_join_def advance_attempt_eq Let_def slot_fate_def record_fate_def)
qed

lemma position_idle: "ladder_position step = AtOff \<Longrightarrow> step = LadderIdle"
  by (cases step) auto

text \<open>
  C29.  A restart attempt reports only what its slot shows, under any interleaving with stop orders,
  requests and the actor's own end: it is adopted only if it acknowledged its start, no stop order is in
  the cell and its ladder never left idle; it is reported stopped only under an order and with the fate it
  recorded; and it is reported failed with the recorded reason when no order stands, or as a start timeout
  whose Kill the lane has taken.
\<close>

theorem attempt_outcome_sound:
  assumes "published (ex_slot e)" "order_sound (ex_slot e)"
    and "s = run (attempt_move_step grace) (attempt_start grace m child incarnation timed e) moves"
    and "attempt_iter grace p s = (Some out, s')"
  shows "outcome_sound s' out \<and> at_child s' = child \<and> at_incarnation s' = incarnation"
proof -
  have "at_child s = child \<and> at_incarnation s = incarnation"
    unfolding assms(3) by (rule attempt_named.run_inv) (rule attempt_start_names)
  then have names: "at_child s' = child \<and> at_incarnation s' = incarnation"
    using attempt_iter_names [of grace p s] assms(4) by simp
  have "attempt_inv (attempt_start grace m child incarnation timed e)"
    unfolding attempt_start_def
    by (rule attempt_inv_check_order) (use assms(1,2) in \<open>simp add: attempt_inv_def rung_ok_def\<close>)
  then have inv: "attempt_inv s"
    unfolding assms(3) by (rule attempt_moves.run_inv)
  from assms(4) show ?thesis
  proof (cases rule: attempt_iter_outcome)
    case (Acked m)
    then show ?thesis
      using acked_adopts [OF Acked] position_idle names by auto
  next
    case (Joined m res)
    then show ?thesis
      using joined_outcome_sound [OF inv Joined] names by simp
  qed
qed

theorem attempt_outcome_sound_witness:
  fixes s :: attempt_state and p :: attempt_poll
  defines "s \<equiv> run (attempt_move_step 7) (attempt_start 7 (moment_at 0) ''a'' 3 False started_executor)
    [AttemptEnv (SlotOrderStop 1 (ShutdownTimeout 5) True)]"
  defines "p \<equiv> \<lparr>ap_command = None, ap_ack = None, ap_joined = Some JoinCancelled, ap_deadline = False,
    ap_timer = False, ap_moment = moment_at 2\<rparr>"
  shows "fst (attempt_iter 7 p s) = Some (OutcomeStopped ''a'' 3 Kill) \<and>
    outcome_sound (snd (attempt_iter 7 p s)) (OutcomeStopped ''a'' 3 Kill)"
proof -
  have "fst (attempt_iter 7 p s) = Some (OutcomeStopped ''a'' 3 Kill)"
    unfolding s_def p_def
    by (simp add: ladder_eval attempt_start_def attempt_check_order_def attempt_iter_def attempt_on_join_def
        advance_attempt_eq frame_simps)
  then show ?thesis
    using attempt_outcome_sound
      [OF started_executor_ok s_def [THEN meta_eq_to_obj_eq], of p _ "snd (attempt_iter 7 p s)"]
    by (metis prod.collapse)
qed

text \<open>
  A stop order is final: whatever the supervisor, the executor, the actor and other handles do to the slot
  afterwards, the order in the cell stays the first one written, and an order marked as raised
  has its first signal pending on the incarnation's lane, or refused by it for good.
\<close>

lemma slot_order_is_final:
  assumes "order_sound s" "t = run slot_step s ops"
  shows "(\<forall>o'. io_order s = Some o' \<longrightarrow> io_order t = Some o') \<and>
    (\<forall>o'. io_order t = Some o' \<and> so_initial_raised o' \<longrightarrow>
       slot_took t (initial_signal (so_policy o')))"
proof -
  have "io_order s = Some o' \<Longrightarrow> io_order t = Some o'" for o'
    using slot_first_order.run_inv [of s o' ops] by (simp add: assms(2) io_order_def)
  moreover have "order_sound t"
    unfolding assms(2) using assms(1) by (rule slot_orders.run_inv)
  ultimately show ?thesis
    by (simp add: order_sound_def io_order_def)
qed

end
