(* ===== verification/Child_Registry.thy ===== *)
theory Child_Registry
  imports Slot
begin

text \<open>
  The supervised child and the registry that holds the children in start order (\<open>ChildSpec\<close>, \<open>ChildState\<close>
  and \<open>ChildRegistry\<close> of \<open>src/src/actor/supervision.rs\<close>).  The registry is a vector and an index from
  ids to positions; the locale \<open>keyed_registry\<close> states what the supervisor relies on, and the
  interpretation shows that the vector and its index provide it.

  \<open>get_mut\<close> with a write through the reference is \<open>registry_modify\<close>.  An index outside the vector would
  panic in the source; under the invariant the index never points outside.
\<close>

section \<open>Children\<close>

record child_spec =
  cs_restart_type :: restart_type
  cs_shutdown :: shutdown
  cs_start_timeout :: "duration option"
  cs_kill_grace :: duration
  cs_is_supervisor :: bool

record child_state =
  ch_id :: actor_id
  ch_name :: "string option"
  ch_spec :: child_spec
  ch_ctl :: slot
  ch_lifecycle :: child_lifecycle
  ch_origin :: origin
  ch_predecessor :: "predecessor option"

definition note_subtree :: "child_state \<Rightarrow> child_state" where
  "note_subtree c =
     (case recorded_predecessor (ch_ctl c) of
        Some p \<Rightarrow> c\<lparr>ch_predecessor := Some p\<rparr>
      | None \<Rightarrow> c)"

definition slot_of :: "child_state \<Rightarrow> u64 \<Rightarrow> slot option" where
  "slot_of c n =
     (let owns = (case ch_lifecycle c of
          Running k \<Rightarrow> k = n
        | Stopping k _ \<Rightarrow> k = n
        | Down k _ \<Rightarrow> k = n
        | Restarting _ k \<Rightarrow> k = n)
      in if owns then Some (ch_ctl c) else None)"

definition child_transition :: "child_lifecycle \<Rightarrow> child_state \<Rightarrow> bool \<times> child_state" where
  "child_transition to' c =
     (case transition_life (ch_lifecycle c) to' of (moved, l) \<Rightarrow> (moved, c\<lparr>ch_lifecycle := l\<rparr>))"

section \<open>The registry\<close>

record child_registry =
  cr_children :: "child_state list"
  cr_index :: "(actor_id \<times> nat) list"

definition registry_new :: child_registry where
  "registry_new = \<lparr>cr_children = [], cr_index = []\<rparr>"

definition registry_register :: "child_state \<Rightarrow> child_registry \<Rightarrow> child_registry" where
  "registry_register c r =
     \<lparr>cr_children = cr_children r @ [c],
      cr_index = hput (ch_id c) (length (cr_children r)) (cr_index r)\<rparr>"

text \<open>The rebuild of the index from position \<open>i\<close> on.\<close>

definition reindex :: "nat \<Rightarrow> child_state list \<Rightarrow> (actor_id \<times> nat) list \<Rightarrow> (actor_id \<times> nat) list" where
  "reindex i cs m = foldl (\<lambda>m' (j, c). hput (ch_id c) j m') m (drop i (List.enumerate 0 cs))"

definition registry_remove :: "actor_id \<Rightarrow> child_registry \<Rightarrow> child_state option \<times> child_registry" where
  "registry_remove k r =
     (case hget (cr_index r) k of
        None \<Rightarrow> (None, r)
      | Some i \<Rightarrow>
          let rest = remove_nth i (cr_children r)
          in (Some (cr_children r ! i),
              \<lparr>cr_children = rest, cr_index = reindex i rest (hdel k (cr_index r))\<rparr>))"

definition registry_get :: "child_registry \<Rightarrow> actor_id \<Rightarrow> child_state option" where
  "registry_get r k = map_option (\<lambda>i. cr_children r ! i) (hget (cr_index r) k)"

definition registry_modify ::
  "actor_id \<Rightarrow> (child_state \<Rightarrow> child_state) \<Rightarrow> child_registry \<Rightarrow> child_registry" where
  "registry_modify k f r =
     (case hget (cr_index r) k of
        None \<Rightarrow> r
      | Some i \<Rightarrow> r\<lparr>cr_children := (cr_children r)[i := f (cr_children r ! i)]\<rparr>)"

definition children_after :: "child_registry \<Rightarrow> actor_id \<Rightarrow> actor_id list" where
  "children_after r k =
     (case hget (cr_index r) k of
        Some i \<Rightarrow> map ch_id (drop (Suc i) (cr_children r))
      | None \<Rightarrow> [])"

definition all_ids :: "child_registry \<Rightarrow> actor_id list" where
  "all_ids r = map ch_id (cr_children r)"

definition registry_len :: "child_registry \<Rightarrow> nat" where
  "registry_len r = length (cr_children r)"

definition update_restarted :: "actor_id \<Rightarrow> u64 \<Rightarrow> child_registry \<Rightarrow> bool \<times> child_registry" where
  "update_restarted k seq r =
     (case registry_get r k of
        None \<Rightarrow> (False, r)
      | Some c \<Rightarrow>
          let pending = (case ch_lifecycle c of Restarting _ nxt \<Rightarrow> nxt = seq | _ \<Rightarrow> False)
          in if pending
             then (case child_transition (Running seq) c of
                     (moved, c') \<Rightarrow> (moved, registry_modify k (\<lambda>_. c') r))
             else (False, r))"

section \<open>Positions of distinct keys\<close>

lemma position_distinct:
  assumes "distinct (map f xs)"
  shows "list_position (\<lambda>x. f x = k) xs = Some j \<longleftrightarrow> j < length xs \<and> f (xs ! j) = k"
  using assms by (auto simp: list_position_Some_iff distinct_conv_nth)

lemma position_append_new:
  "list_position (\<lambda>x. f x = j) (xs @ [y]) =
     (if f y = j \<and> j \<notin> f ` set xs then Some (length xs) else list_position (\<lambda>x. f x = j) xs)"
  by (induction xs) auto

lemma position_update:
  assumes "f y = f (xs ! i)"
  shows "list_position (\<lambda>x. f x = k) (xs[i := y]) = list_position (\<lambda>x. f x = k) xs"
  using assms
proof (induction xs arbitrary: i)
  case (Cons x xs)
  then show ?case by (cases i) auto
qed simp

lemma map_key_update: "f y = f (xs ! i) \<Longrightarrow> map f (xs[i := y]) = map f xs"
proof (induction xs arbitrary: i)
  case (Cons x xs)
  then show ?case by (cases i) auto
qed simp

text \<open>The same question of a list with one element taken out.\<close>

lemma position_remove_nth:
  assumes "distinct (map f xs)" "i < length xs"
  shows "list_position (\<lambda>x. f x = k) (remove_nth i xs) = Some j \<longleftrightarrow>
    j < length xs - 1 \<and> f (xs ! (if j < i then j else Suc j)) = k"
proof -
  have "distinct (map f (remove_nth i xs))"
    using distinct_remove_nth [OF assms(1), of i] by (simp add: map_remove_nth)
  then show ?thesis
    using nth_remove_nth [OF assms(2), of j] assms(2) by (auto simp: position_distinct)
qed

lemma hget_puts:
  assumes "distinct (map (\<lambda>(j, c). ch_id c) jcs)"
  shows "(j, c) \<in> set jcs \<Longrightarrow> hget (foldl (\<lambda>m' (j, c). hput (ch_id c) j m') m jcs) (ch_id c) = Some j"
    and "k \<notin> (\<lambda>(j, c). ch_id c) ` set jcs \<Longrightarrow>
      hget (foldl (\<lambda>m' (j, c). hput (ch_id c) j m') m jcs) k = hget m k"
proof -
  show other: "hget (foldl (\<lambda>m' (j, c). hput (ch_id c) j m') m jcs) k = hget m k"
    if "k \<notin> (\<lambda>(j, c). ch_id c) ` set jcs" for jcs m k
    using that by (induction jcs arbitrary: m) (auto simp: hget_hput)
  show "hget (foldl (\<lambda>m' (j, c). hput (ch_id c) j m') m jcs) (ch_id c) = Some j"
    if "(j, c) \<in> set jcs"
    using assms that
  proof (induction jcs arbitrary: m)
    case (Cons a as)
    show ?case
    proof (cases "(j, c) \<in> set as")
      case True
      then show ?thesis using Cons by auto
    next
      case False
      then have "a = (j, c)" "ch_id c \<notin> (\<lambda>(j, c). ch_id c) ` set as"
        using Cons.prems by auto
      then show ?thesis using other [of "ch_id c" as] by (simp add: hget_hput)
    qed
  qed simp
qed

lemma hget_reindex:
  assumes "distinct (map ch_id cs)"
  shows "hget (reindex i cs m) k =
    (case list_position (\<lambda>c. ch_id c = k) cs of
       Some j \<Rightarrow> if i \<le> j then Some j else hget m k
     | None \<Rightarrow> hget m k)"
proof -
  let ?jcs = "drop i (List.enumerate 0 cs)"
  have keys: "map (\<lambda>(j, c). ch_id c) ?jcs = drop i (map ch_id cs)"
    by (simp add: drop_map [symmetric] enumerate_eq_zip case_prod_unfold map_snd_zip
        flip: map_map [of ch_id snd, unfolded comp_def])
  have dist: "distinct (map (\<lambda>(j, c). ch_id c) ?jcs)"
    unfolding keys using assms by (rule distinct_drop)
  have mem: "(j, cs ! j) \<in> set ?jcs" if "i \<le> j" "j < length cs" for j
    using that nth_mem [of "j - i" ?jcs] by (simp add: nth_enumerate_eq)
  show ?thesis
  proof (cases "list_position (\<lambda>c. ch_id c = k) cs")
    case None
    then have "k \<notin> set (map (\<lambda>(j, c). ch_id c) ?jcs)"
      unfolding keys by (auto simp: list_position_None_iff dest!: in_set_dropD)
    then show ?thesis
      using None hget_puts(2) [OF dist] by (simp add: reindex_def)
  next
    case (Some j)
    then have j: "j < length cs" "ch_id (cs ! j) = k"
      by (auto dest: list_position_SomeD)
    show ?thesis
    proof (cases "i \<le> j")
      case True
      then show ?thesis
        using Some j hget_puts(1) [OF dist mem [OF True j(1)], of m] by (simp add: reindex_def)
    next
      case False
      have "k \<notin> set (drop i (map ch_id cs))"
        using False j assms by (auto simp: in_set_conv_nth distinct_conv_nth)
      then show ?thesis
        using False Some hget_puts(2) [OF dist, of k m] unfolding keys [symmetric] by (simp add: reindex_def)
    qed
  qed
qed

section \<open>The invariant of the vector and its index\<close>

definition registry_ok :: "child_registry \<Rightarrow> bool" where
  "registry_ok r \<longleftrightarrow>
     distinct (all_ids r) \<and>
     (\<forall>k. hget (cr_index r) k = list_position (\<lambda>c. ch_id c = k) (cr_children r))"

lemma registry_ok_distinct: "registry_ok r \<Longrightarrow> distinct (map ch_id (cr_children r))"
  by (simp add: registry_ok_def all_ids_def)

lemma registry_ok_index:
  "registry_ok r \<Longrightarrow> hget (cr_index r) k = list_position (\<lambda>c. ch_id c = k) (cr_children r)"
  by (simp add: registry_ok_def)

text \<open>The reference: the child under an id in the list, looked up from the front.\<close>

lemma registry_get_find:
  "registry_ok r \<Longrightarrow> registry_get r k = List.find (\<lambda>c. ch_id c = k) (cr_children r)"
proof -
  have "map_option (\<lambda>i. xs ! i) (list_position P xs) = List.find P xs" for P and xs :: "child_state list"
    by (induction xs) (auto simp: option.map_comp comp_def)
  then show "registry_ok r \<Longrightarrow> ?thesis"
    by (simp add: registry_get_def registry_ok_index)
qed

lemma registry_get_SomeD:
  assumes "registry_ok r" "registry_get r k = Some c"
  shows "ch_id c = k" "c \<in> set (cr_children r)"
  using assms by (auto simp: registry_get_find find_Some_iff)

lemma registry_get_iff: "registry_ok r \<Longrightarrow> registry_get r k = None \<longleftrightarrow> k \<notin> set (all_ids r)"
  by (auto simp: registry_get_find find_None_iff all_ids_def)

lemma registry_ok_new: "registry_ok registry_new"
  by (simp add: registry_ok_def registry_new_def all_ids_def)

lemma registry_ok_register:
  "registry_ok r \<Longrightarrow> registry_get r (ch_id c) = None \<Longrightarrow> registry_ok (registry_register c r)"
  unfolding registry_get_iff
  by (auto simp: registry_ok_def registry_register_def all_ids_def hget_hput position_append_new
      list_position_None_iff)

lemma registry_index_cases:
  assumes "registry_ok r"
  obtains (Absent) "hget (cr_index r) k = None" "k \<notin> set (all_ids r)" "registry_get r k = None"
  | (Present) i where "hget (cr_index r) k = Some i" "i < length (cr_children r)"
      "ch_id (cr_children r ! i) = k" "registry_get r k = Some (cr_children r ! i)"
proof (cases "hget (cr_index r) k")
  case None
  then show thesis
    using Absent registry_get_iff [OF assms, of k] by (simp add: registry_get_def)
next
  case (Some i)
  then have "list_position (\<lambda>c. ch_id c = k) (cr_children r) = Some i"
    using registry_ok_index [OF assms] by simp
  then show thesis
    using Present [OF Some] Some by (auto simp: registry_get_def dest: list_position_SomeD)
qed

definition keeps_key :: "(child_state \<Rightarrow> child_state) \<Rightarrow> bool" where
  "keeps_key f \<longleftrightarrow> (\<forall>c. ch_id (f c) = ch_id c)"

lemma registry_modify_children:
  assumes "registry_ok r" "keeps_key f"
  shows "cr_children (registry_modify k f r) = map (\<lambda>c. if ch_id c = k then f c else c) (cr_children r)"
  using assms(1)
proof (cases rule: registry_index_cases [where k = k])
  case Absent
  then show ?thesis
    by (auto simp: registry_modify_def all_ids_def intro!: map_idI [symmetric])
next
  case (Present i)
  have "ch_id (cr_children r ! j) = k \<longleftrightarrow> j = i" if "j < length (cr_children r)" for j
    using registry_ok_distinct [OF assms(1)] Present that by (auto simp: distinct_conv_nth)
  then show ?thesis
    using Present by (auto simp: registry_modify_def nth_list_update intro!: nth_equalityI)
qed

lemma registry_ok_modify:
  assumes "registry_ok r" "keeps_key f"
  shows "registry_ok (registry_modify k f r)"
  using assms(1)
proof (cases rule: registry_index_cases [where k = k])
  case (Present i)
  have "ch_id (f (cr_children r ! i)) = ch_id (cr_children r ! i)"
    using assms(2) by (simp add: keeps_key_def)
  then show ?thesis
    using Present assms(1)
    by (simp add: registry_ok_def registry_modify_def all_ids_def map_key_update position_update)
qed (use assms in \<open>simp add: registry_modify_def\<close>)

lemma all_ids_modify: "registry_ok r \<Longrightarrow> keeps_key f \<Longrightarrow> all_ids (registry_modify k f r) = all_ids r"
  by (simp add: all_ids_def registry_modify_children keeps_key_def)

lemma registry_get_modify:
  assumes "registry_ok r" "keeps_key f"
  shows "registry_get (registry_modify k f r) j =
    (if j = k then map_option f (registry_get r k) else registry_get r j)"
proof -
  have *: "List.find (\<lambda>c. ch_id c = j) (map (\<lambda>c. if ch_id c = k then f c else c) cs) =
      (if j = k then map_option f (List.find (\<lambda>c. ch_id c = k) cs) else List.find (\<lambda>c. ch_id c = j) cs)"
    for cs
    using assms(2) by (induction cs) (auto simp: keeps_key_def)
  show ?thesis
    by (simp add: registry_get_find assms registry_ok_modify registry_modify_children *)
qed

lemma registry_remove_children:
  assumes "registry_ok r"
  shows "fst (registry_remove k r) = registry_get r k"
    and "cr_children (snd (registry_remove k r)) = filter (\<lambda>c. ch_id c \<noteq> k) (cr_children r)"
proof -
  show "fst (registry_remove k r) = registry_get r k"
    by (simp add: registry_remove_def registry_get_def Let_def split: option.splits)
  show "cr_children (snd (registry_remove k r)) = filter (\<lambda>c. ch_id c \<noteq> k) (cr_children r)"
    using assms
  proof (cases rule: registry_index_cases [where k = k])
    case Absent
    then show ?thesis
      by (auto simp: registry_remove_def all_ids_def intro!: filter_True [symmetric])
  next
    case (Present i)
    have eq: "distinct (map ch_id cs) \<Longrightarrow> i < length cs \<Longrightarrow>
        remove_nth i cs = filter (\<lambda>c. ch_id c \<noteq> ch_id (cs ! i)) cs" for cs
    proof (induction cs arbitrary: i)
      case (Cons c cs)
      show ?case
      proof (cases i)
        case 0
        then show ?thesis
          using Cons.prems by (auto intro!: filter_True [symmetric]) (metis imageI)
      qed (use Cons in auto)
    qed simp
    from eq [OF registry_ok_distinct [OF assms] Present(2)] show ?thesis
      using Present by (simp add: registry_remove_def Let_def)
  qed
qed

lemma registry_ok_remove:
  assumes "registry_ok r"
  shows "registry_ok (snd (registry_remove k r))"
  using assms
proof (cases rule: registry_index_cases [where k = k])
  case (Present i)
  let ?xs = "cr_children r" and ?rest = "remove_nth i (cr_children r)"
  have dist: "distinct (map ch_id ?xs)" and dist': "distinct (map ch_id ?rest)"
    using registry_ok_distinct [OF assms] by (simp_all add: map_remove_nth distinct_remove_nth)
  have "hget (reindex i ?rest (hdel k (cr_index r))) j = list_position (\<lambda>c. ch_id c = j) ?rest" for j
  proof (rule option.expand)
    have pos: "list_position (\<lambda>c. ch_id c = j) ?rest = Some n \<Longrightarrow> n < i \<Longrightarrow>
        j \<noteq> k \<and> list_position (\<lambda>c. ch_id c = j) ?xs = Some n" for n
      using position_remove_nth [OF dist Present(2), of j n] dist Present(2,3)
      by (auto simp: position_distinct distinct_conv_nth)
    have gone: "list_position (\<lambda>c. ch_id c = j) ?rest = None \<Longrightarrow> j = k \<or> hget (cr_index r) j = None"
    proof -
      assume none: "list_position (\<lambda>c. ch_id c = j) ?rest = None"
      have "ch_id ` set ?rest = ch_id ` set ?xs - {k}"
        using set_remove_nth_distinct [of "map ch_id ?xs" i] dist Present(2,3)
        by (simp add: map_remove_nth [symmetric])
      moreover have "j \<notin> ch_id ` set ?rest"
        using none by (auto simp: list_position_None_iff)
      ultimately show ?thesis
        by (auto simp: registry_ok_index [OF assms] list_position_None_iff)
    qed
    show "(hget (reindex i ?rest (hdel k (cr_index r))) j = None) =
        (list_position (\<lambda>c. ch_id c = j) ?rest = None)"
      using pos gone by (auto simp: hget_reindex [OF dist'] hget_hdel registry_ok_index [OF assms]
          split: option.splits)
    show "the (hget (reindex i ?rest (hdel k (cr_index r))) j) = the (list_position (\<lambda>c. ch_id c = j) ?rest)"
      if "hget (reindex i ?rest (hdel k (cr_index r))) j \<noteq> None"
        "list_position (\<lambda>c. ch_id c = j) ?rest \<noteq> None"
      using that pos by (auto simp: hget_reindex [OF dist'] hget_hdel registry_ok_index [OF assms]
          split: option.splits)
  qed
  then show ?thesis
    using dist' Present by (simp add: registry_ok_def registry_remove_def all_ids_def Let_def)
qed (use assms in \<open>simp add: registry_remove_def\<close>)

section \<open>What the supervisor relies on\<close>

locale keyed_registry =
  fixes ok :: "'r \<Rightarrow> bool"
    and get :: "'r \<Rightarrow> 'k \<Rightarrow> 'c option"
    and modify :: "'k \<Rightarrow> ('c \<Rightarrow> 'c) \<Rightarrow> 'r \<Rightarrow> 'r"
    and remove :: "'k \<Rightarrow> 'r \<Rightarrow> 'r"
    and keys :: "'r \<Rightarrow> 'k list"
    and keeps :: "('c \<Rightarrow> 'c) \<Rightarrow> bool"
  assumes ok_modify: "ok r \<Longrightarrow> keeps f \<Longrightarrow> ok (modify k f r)"
    and ok_remove: "ok r \<Longrightarrow> ok (remove k r)"
    and keys_distinct: "ok r \<Longrightarrow> distinct (keys r)"
    and get_None: "ok r \<Longrightarrow> get r k = None \<longleftrightarrow> k \<notin> set (keys r)"
    and get_modify: "ok r \<Longrightarrow> keeps f \<Longrightarrow>
      get (modify k f r) j = (if j = k then map_option f (get r k) else get r j)"
    and get_remove: "ok r \<Longrightarrow> get (remove k r) j = (if j = k then None else get r j)"
    and keys_modify: "ok r \<Longrightarrow> keeps f \<Longrightarrow> keys (modify k f r) = keys r"
    and keys_remove: "ok r \<Longrightarrow> keys (remove k r) = filter (\<lambda>j. j \<noteq> k) (keys r)"
begin

lemma get_modify_other: "ok r \<Longrightarrow> keeps f \<Longrightarrow> j \<noteq> k \<Longrightarrow> get (modify k f r) j = get r j"
  by (simp add: get_modify)

lemma present_modify: "ok r \<Longrightarrow> keeps f \<Longrightarrow> get (modify k f r) j = None \<longleftrightarrow> get r j = None"
  by (simp add: get_modify)

lemma modify_absent: "ok r \<Longrightarrow> keeps f \<Longrightarrow> get r k = None \<Longrightarrow> get (modify k f r) = get r"
  by (auto simp: fun_eq_iff get_modify)

lemma keys_prefix_modify:
  "ok r \<Longrightarrow> keeps f \<Longrightarrow> takeWhile P (keys (modify k f r)) = takeWhile P (keys r)"
  by (simp add: keys_modify)

text \<open>A predicate that holds of every child after a write holds of the written one and of the others before.\<close>

lemma all_modify:
  assumes "ok r" "keeps f" "\<And>j c. get r j = Some c \<Longrightarrow> P j c"
    and "\<And>c. get r k = Some c \<Longrightarrow> P k (f c)"
  shows "get (modify k f r) j = Some c \<Longrightarrow> P j c"
  using assms by (auto simp: get_modify split: if_splits)

end

interpretation registry: keyed_registry registry_ok registry_get registry_modify
  "\<lambda>k r. snd (registry_remove k r)" all_ids keeps_key
proof (unfold_locales)
  fix r k j f
  assume ok: "registry_ok r"
  show "keeps_key f \<Longrightarrow> registry_ok (registry_modify k f r)"
    by (rule registry_ok_modify [OF ok])
  show "registry_ok (snd (registry_remove k r))"
    by (rule registry_ok_remove [OF ok])
  show "distinct (all_ids r)"
    using ok by (simp add: registry_ok_def)
  show "registry_get r k = None \<longleftrightarrow> k \<notin> set (all_ids r)"
    by (rule registry_get_iff [OF ok])
  show "keeps_key f \<Longrightarrow> registry_get (registry_modify k f r) j =
      (if j = k then map_option f (registry_get r k) else registry_get r j)"
    by (rule registry_get_modify [OF ok])
  show "registry_get (snd (registry_remove k r)) j = (if j = k then None else registry_get r j)"
  proof -
    have "List.find (\<lambda>c. ch_id c = j) (filter (\<lambda>c. ch_id c \<noteq> k) cs) =
        (if j = k then None else List.find (\<lambda>c. ch_id c = j) cs)" for cs
      by (induction cs) auto
    from this [of "cr_children r"] show ?thesis
      by (simp only: registry_get_find ok registry_ok_remove registry_remove_children(2))
  qed
  show "keeps_key f \<Longrightarrow> all_ids (registry_modify k f r) = all_ids r"
    by (rule all_ids_modify [OF ok])
  show "all_ids (snd (registry_remove k r)) = filter (\<lambda>j. j \<noteq> k) (all_ids r)"
    by (simp add: all_ids_def registry_remove_children(2) ok filter_map comp_def)
qed

section \<open>Refinement to a list of children\<close>

text \<open>
  The registry's operations as a supervisor uses them.  A child is registered only under an id the
  registry does not hold (\<open>ActorContext::refuse_spawn\<close>), and a write through \<open>get_mut\<close> never changes the
  child's id.
\<close>

datatype registry_op =
    OpRegister child_state
  | OpRemove actor_id
  | OpTransition actor_id child_lifecycle
  | OpNoteSubtree actor_id
  | OpUpdateRestarted actor_id u64

fun registry_step :: "child_registry \<Rightarrow> registry_op \<Rightarrow> child_registry" where
  "registry_step r (OpRegister c) =
     (if registry_get r (ch_id c) = None then registry_register c r else r)"
| "registry_step r (OpRemove k) = snd (registry_remove k r)"
| "registry_step r (OpTransition k l) = registry_modify k (\<lambda>c. snd (child_transition l c)) r"
| "registry_step r (OpNoteSubtree k) = registry_modify k note_subtree r"
| "registry_step r (OpUpdateRestarted k seq) = snd (update_restarted k seq r)"

fun list_step :: "child_state list \<Rightarrow> registry_op \<Rightarrow> child_state list" where
  "list_step cs (OpRegister c) = (if ch_id c \<in> ch_id ` set cs then cs else cs @ [c])"
| "list_step cs (OpRemove k) = filter (\<lambda>c. ch_id c \<noteq> k) cs"
| "list_step cs (OpTransition k l) =
     map (\<lambda>c. if ch_id c = k \<and> is_legal (ch_lifecycle c) l then c\<lparr>ch_lifecycle := l\<rparr> else c) cs"
| "list_step cs (OpNoteSubtree k) = map (\<lambda>c. if ch_id c = k then note_subtree c else c) cs"
| "list_step cs (OpUpdateRestarted k seq) =
     map (\<lambda>c. case ch_lifecycle c of
                Restarting _ nxt \<Rightarrow> if ch_id c = k \<and> nxt = seq then c\<lparr>ch_lifecycle := Running seq\<rparr> else c
              | _ \<Rightarrow> c) cs"

lemma keeps_key_transition [simp]: "keeps_key (\<lambda>c. snd (child_transition l c))"
  by (simp add: keeps_key_def child_transition_def split: prod.splits)

lemma keeps_key_note_subtree [simp]: "keeps_key note_subtree"
  by (simp add: keeps_key_def note_subtree_def split: option.splits)

lemma update_restarted_modify:
  assumes "registry_ok r"
  shows "snd (update_restarted k seq r) =
    registry_modify k (\<lambda>c. case ch_lifecycle c of
      Restarting _ nxt \<Rightarrow> if nxt = seq then c\<lparr>ch_lifecycle := Running seq\<rparr> else c | _ \<Rightarrow> c) r"
  using assms
proof (cases rule: registry_index_cases [where k = k])
  case (Present i)
  have "r\<lparr>cr_children := (cr_children r)[i := cr_children r ! i]\<rparr> = r"
    by simp
  then show ?thesis
    using Present(1,4) by (auto simp: update_restarted_def registry_modify_def child_transition_def
        transition_life_def split: child_lifecycle.splits)
qed (simp add: update_restarted_def registry_modify_def)

lemma keeps_key_adopt [simp]:
  "keeps_key (\<lambda>c. case ch_lifecycle c of
     Restarting _ nxt \<Rightarrow> if nxt = seq then c\<lparr>ch_lifecycle := Running seq\<rparr> else c | _ \<Rightarrow> c)"
  by (simp add: keeps_key_def split: child_lifecycle.splits)

lemma registry_step_ok: "registry_ok r \<Longrightarrow> registry_ok (registry_step r e)"
  by (cases e) (simp_all add: registry_ok_register registry_ok_remove registry_ok_modify update_restarted_modify)

interpretation registry_runs: invariant_machine registry_step registry_ok
  by unfold_locales (rule registry_step_ok)

lemma registry_step_children:
  assumes "registry_ok r"
  shows "cr_children (registry_step r e) = list_step (cr_children r) e"
proof (cases e)
  case (OpRegister c)
  then show ?thesis
    using registry_get_iff [OF assms, of "ch_id c"] by (simp add: all_ids_def registry_register_def)
next
  case (OpTransition k l)
  then show ?thesis
    using registry_modify_children [OF assms keeps_key_transition, of k l]
    by (auto simp: child_transition_def transition_life_def)
next
  case (OpUpdateRestarted k seq)
  then show ?thesis
    by (auto simp: registry_modify_children assms update_restarted_modify split: child_lifecycle.splits)
qed (simp_all add: registry_remove_children assms registry_modify_children)

lemma registry_run_children:
  "registry_ok r \<Longrightarrow> cr_children (run registry_step r ops) = run list_step (cr_children r) ops"
  by (induction ops arbitrary: r) (simp_all add: registry_step_children registry_step_ok)

text \<open>
  C38.  The registry's vector and its id index are one ordered list of children: after any sequence of
  registrations, removals, ledger moves and adoptions, the children are those of the list the same
  operations give, in start order and with distinct ids; the index never points outside the vector; and
  a lookup by id finds exactly the child the list has under it.
\<close>

theorem registry_refines_list:
  assumes "r = run registry_step registry_new ops"
  shows "cr_children r = run list_step [] ops \<and>
    distinct (all_ids r) \<and>
    (\<forall>k i. hget (cr_index r) k = Some i \<longrightarrow> i < registry_len r) \<and>
    (\<forall>k. registry_get r k = List.find (\<lambda>c. ch_id c = k) (run list_step [] ops))"
proof -
  have ok: "registry_ok r"
    unfolding assms by (rule registry_runs.run_inv) (rule registry_ok_new)
  have children: "cr_children r = run list_step [] ops"
    using registry_run_children [OF registry_ok_new, of ops] assms by (simp add: registry_new_def)
  moreover have "hget (cr_index r) k = Some i \<Longrightarrow> i < registry_len r" for k i
    using registry_ok_index [OF ok, of k] by (auto simp: registry_len_def dest: list_position_SomeD(1))
  moreover have "registry_get r k = List.find (\<lambda>c. ch_id c = k) (run list_step [] ops)" for k
    using registry_get_find [OF ok] children by simp
  ultimately show ?thesis
    using registry.keys_distinct [OF ok] by blast
qed

definition example_child :: "actor_id \<Rightarrow> u64 \<Rightarrow> child_state" where
  "example_child k n =
     \<lparr>ch_id = k, ch_name = None,
      ch_spec = \<lparr>cs_restart_type = Permanent, cs_shutdown = default_shutdown, cs_start_timeout = None,
                 cs_kill_grace = DEFAULT_KILL_GRACE, cs_is_supervisor = False\<rparr>,
      ch_ctl = slot_pair_for (Some (k, n)), ch_lifecycle = Running n, ch_origin = OriginInitial,
      ch_predecessor = None\<rparr>"

theorem registry_refines_list_witness:
  fixes r :: child_registry
  defines "r \<equiv> run registry_step registry_new
    [OpRegister (example_child ''a'' 1), OpRegister (example_child ''b'' 2), OpRemove ''a'']"
  shows "all_ids r = [''b''] \<and> registry_get r ''b'' = Some (example_child ''b'' 2)"
proof -
  have "run list_step [] [OpRegister (example_child ''a'' 1), OpRegister (example_child ''b'' 2),
      OpRemove ''a''] = [example_child ''b'' 2]"
    by (simp add: example_child_def)
  then show ?thesis
    using registry_refines_list [OF r_def [THEN meta_eq_to_obj_eq]]
    by (simp add: all_ids_def example_child_def)
qed

end
