(* ===== verification/Restart_Budget.thy ===== *)
theory Restart_Budget
  imports Types
begin

text \<open>
  The supervisor's configuration and its restart budget (\<open>SupervisionConfig\<close> and \<open>RestartBudget\<close> of
  \<open>src/src/actor/supervision.rs\<close>): a sliding window over the instants of the restarts made.  The clock
  reading of a call is an argument.
\<close>

section \<open>Configuration\<close>

record supervision_config =
  cfg_strategy :: restart_strategy
  cfg_max_restarts :: u32
  cfg_restart_window :: duration

definition default_supervision_config :: supervision_config where
  "default_supervision_config =
     \<lparr>cfg_strategy = OneForOne, cfg_max_restarts = 3, cfg_restart_window = secs 5\<rparr>"

definition one_for_one :: supervision_config where
  "one_for_one = default_supervision_config"

definition one_for_all :: supervision_config where
  "one_for_all = default_supervision_config\<lparr>cfg_strategy := OneForAll\<rparr>"

definition rest_for_one :: supervision_config where
  "rest_for_one = default_supervision_config\<lparr>cfg_strategy := RestForOne\<rparr>"

definition simple_one_for_one :: supervision_config where
  "simple_one_for_one = default_supervision_config\<lparr>cfg_strategy := SimpleOneForOne\<rparr>"

definition max_restarts :: "u32 \<Rightarrow> duration \<Rightarrow> supervision_config \<Rightarrow> supervision_config" where
  "max_restarts mx window c = c\<lparr>cfg_max_restarts := mx, cfg_restart_window := window\<rparr>"

section \<open>Budget\<close>

record restart_budget =
  rb_max_restarts :: u32
  rb_restart_window :: duration
  rb_timestamps :: "instant list"

definition restart_budget_new :: "u32 \<Rightarrow> duration \<Rightarrow> restart_budget" where
  "restart_budget_new mx window =
     \<lparr>rb_max_restarts = mx, rb_restart_window = window, rb_timestamps = []\<rparr>"

text \<open>The loop that pops expired entries from the front.\<close>

fun prune_before :: "instant \<Rightarrow> instant list \<Rightarrow> instant list" where
  "prune_before cutoff [] = []"
| "prune_before cutoff (front # rest) =
     (if front < cutoff then prune_before cutoff rest else front # rest)"

definition check_and_record :: "instant \<Rightarrow> restart_budget \<Rightarrow> bool \<times> restart_budget" where
  "check_and_record now b =
     (let stamps =
        (case checked_sub_instant now (rb_restart_window b) of
           Some cutoff \<Rightarrow> prune_before cutoff (rb_timestamps b)
         | None \<Rightarrow> rb_timestamps b)
      in if unat (rb_max_restarts b) \<le> length stamps
         then (False, b\<lparr>rb_timestamps := stamps\<rparr>)
         else (True, b\<lparr>rb_timestamps := stamps @ [now]\<rparr>))"

text \<open>The answers of a sequence of checks.\<close>

fun check_all :: "restart_budget \<Rightarrow> instant list \<Rightarrow> bool list" where
  "check_all b [] = []"
| "check_all b (t # ts) = (case check_and_record t b of (ok, b') \<Rightarrow> ok # check_all b' ts)"

section \<open>The window it implements\<close>

text \<open>
  The reference: every restart granted so far is remembered, and one more is granted while fewer than
  \<open>mx\<close> of them are no older than the window, its end included.
\<close>

fun sliding :: "nat \<Rightarrow> duration \<Rightarrow> instant list \<Rightarrow> instant list \<Rightarrow> bool list" where
  "sliding mx window granted [] = []"
| "sliding mx window granted (t # ts) =
     (let ok = length (filter (\<lambda>g. t - int window \<le> g) granted) < mx
      in ok # sliding mx window (if ok then granted @ [t] else granted) ts)"

definition granted_of :: "bool list \<Rightarrow> instant list \<Rightarrow> instant list" where
  "granted_of oks ts = map snd (filter fst (zip oks ts))"

lemma prune_before_filter: "sorted xs \<Longrightarrow> prune_before cutoff xs = filter (\<lambda>x. cutoff \<le> x) xs"
proof (induction xs)
  case (Cons x xs)
  show ?case
  proof (cases "x < cutoff")
    case False
    then have "\<forall>y \<in> set (x # xs). cutoff \<le> y"
      using Cons.prems by auto
    then have "filter (\<lambda>y. cutoff \<le> y) (x # xs) = x # xs"
      by (simp only: filter_id_conv)
    then show ?thesis using False by simp
  qed (use Cons in auto)
qed simp

text \<open>The entries a budget keeps are the granted restarts from some instant no later cutoff precedes.\<close>

definition window_rel :: "restart_budget \<Rightarrow> instant list \<Rightarrow> instant \<Rightarrow> bool" where
  "window_rel b granted now \<longleftrightarrow>
     sorted granted \<and> (\<forall>g \<in> set granted. - instant_bound \<le> g \<and> g \<le> now) \<and>
     (\<exists>low \<le> now - int (rb_restart_window b). rb_timestamps b = filter (\<lambda>g. low \<le> g) granted)"

lemma window_rel_pruned:
  assumes "window_rel b granted now" "now \<le> t" "- instant_bound \<le> t"
  shows "(case checked_sub_instant t (rb_restart_window b) of
      Some cutoff \<Rightarrow> prune_before cutoff (rb_timestamps b) | None \<Rightarrow> rb_timestamps b) =
    filter (\<lambda>g. t - int (rb_restart_window b) \<le> g) granted"
proof -
  let ?w = "int (rb_restart_window b)"
  obtain low where low: "low \<le> now - ?w" and kept: "rb_timestamps b = filter (\<lambda>g. low \<le> g) granted"
    using assms(1) by (auto simp: window_rel_def)
  have srt: "sorted (rb_timestamps b)"
    unfolding kept using assms(1) by (simp add: window_rel_def sorted_filter [of id, simplified])
  have le: "low \<le> t - ?w"
    using low assms(2) by simp
  show ?thesis
  proof (cases "- instant_bound \<le> t - ?w")
    case True
    have "prune_before (t - ?w) (rb_timestamps b) = filter (\<lambda>g. t - ?w \<le> g) (rb_timestamps b)"
      by (rule prune_before_filter [OF srt])
    also have "\<dots> = filter (\<lambda>g. t - ?w \<le> g) granted"
      unfolding kept filter_filter by (rule filter_cong) (use le in auto)
    finally show ?thesis
      using True by (simp add: checked_sub_instant_def)
  next
    case False
    have "\<forall>g \<in> set granted. t - ?w \<le> g \<and> low \<le> g"
      using assms(1) False le by (fastforce simp: window_rel_def)
    then show ?thesis
      using False by (simp add: checked_sub_instant_def kept cong: filter_cong)
  qed
qed

lemma check_and_record_sliding:
  assumes rel: "window_rel b granted now" and time: "now \<le> t" "- instant_bound \<le> t"
    and "check_and_record t b = (ok, b')"
  shows "ok \<longleftrightarrow> length (filter (\<lambda>g. t - int (rb_restart_window b) \<le> g) granted) < unat (rb_max_restarts b)"
    and "window_rel b' (if ok then granted @ [t] else granted) t"
    and "rb_max_restarts b' = rb_max_restarts b" "rb_restart_window b' = rb_restart_window b"
proof -
  let ?kept = "filter (\<lambda>g. t - int (rb_restart_window b) \<le> g) granted"
  have eq: "(ok, b') = (if unat (rb_max_restarts b) \<le> length ?kept then (False, b\<lparr>rb_timestamps := ?kept\<rparr>)
      else (True, b\<lparr>rb_timestamps := ?kept @ [t]\<rparr>))"
    using assms(4) unfolding check_and_record_def window_rel_pruned [OF rel time] Let_def by simp
  show "ok \<longleftrightarrow> length ?kept < unat (rb_max_restarts b)"
    "rb_max_restarts b' = rb_max_restarts b" "rb_restart_window b' = rb_restart_window b"
    using eq by (auto split: if_splits)
  show "window_rel b' (if ok then granted @ [t] else granted) t"
    using eq rel time
    by (fastforce simp: window_rel_def sorted_append split: if_splits
        intro!: exI [of _ "t - int (rb_restart_window b)"])
qed

lemma check_all_sliding:
  assumes "window_rel b granted now" "sorted (now # ts)" "- instant_bound \<le> now"
  shows "check_all b ts = sliding (unat (rb_max_restarts b)) (rb_restart_window b) granted ts"
  using assms
proof (induction ts arbitrary: b granted now)
  case (Cons t ts)
  obtain ok b' where step: "check_and_record t b = (ok, b')"
    by (cases "check_and_record t b")
  have time: "now \<le> t" "- instant_bound \<le> t"
    using Cons.prems by auto
  note after = check_and_record_sliding [OF Cons.prems(1) time step]
  have "check_all b' ts = sliding (unat (rb_max_restarts b)) (rb_restart_window b)
      (if ok then granted @ [t] else granted) ts"
    using Cons.IH [OF after(2)] Cons.prems(2) time after(3,4) by simp
  then show ?case
    using after(1) by (simp add: step Let_def)
qed simp

text \<open>The granted restarts of any window, counted.\<close>

definition in_window :: "duration \<Rightarrow> instant \<Rightarrow> instant \<Rightarrow> bool" where
  "in_window window t g \<longleftrightarrow> t - int window \<le> g \<and> g \<le> t"

lemma sliding_length [simp]: "length (sliding mx window granted ts) = length ts"
  by (induction ts arbitrary: granted) (simp_all add: Let_def)

lemma granted_of_Cons:
  "granted_of (ok # oks) (t # ts) = (if ok then t # granted_of oks ts else granted_of oks ts)"
  by (simp add: granted_of_def)

lemma length_filter_le_filter:
  "(\<And>x. x \<in> set xs \<Longrightarrow> P x \<Longrightarrow> Q x) \<Longrightarrow> length (filter P xs) \<le> length (filter Q xs)"
  by (induction xs) auto

lemma sliding_bound:
  assumes "sorted ts" "\<forall>g \<in> set granted. \<forall>t \<in> set ts. g \<le> t"
    and "length (filter (in_window window t) granted) \<le> mx"
  shows "length (filter (in_window window t) (granted @ granted_of (sliding mx window granted ts) ts)) \<le> mx"
  using assms
proof (induction ts arbitrary: granted)
  case (Cons u us)
  let ?ok = "length (filter (\<lambda>g. u - int window \<le> g) granted) < mx"
  let ?granted = "if ?ok then granted @ [u] else granted"
  have order: "\<forall>g \<in> set ?granted. \<forall>t \<in> set us. g \<le> t"
    using Cons.prems(1,2) by auto
  have "length (filter (in_window window t) ?granted) \<le> mx"
  proof (cases "?ok \<and> in_window window t u")
    case True
    have "length (filter (in_window window t) granted) \<le>
        length (filter (\<lambda>g. u - int window \<le> g) granted)"
      using True by (intro length_filter_le_filter) (auto simp: in_window_def)
    then show ?thesis using True by simp
  qed (use Cons.prems(3) in auto)
  from Cons.IH [OF _ order this] Cons.prems(1)
  show ?case
    by (simp add: Let_def granted_of_Cons split: if_splits)
qed (simp add: granted_of_def)

text \<open>
  C37.  The restart budget is an exact sliding window: on a clock that never goes back, the pruned queue
  answers each check as if every restart ever granted were remembered, granting one more while fewer than
  \<open>max_restarts\<close> of them are within the window; so no window of that length, wherever it ends, holds
  more than \<open>max_restarts\<close> granted restarts.
\<close>

theorem restart_budget_is_sliding_window:
  assumes "sorted ts" "\<forall>t \<in> set ts. - instant_bound \<le> t"
  shows "check_all (restart_budget_new mx window) ts = sliding (unat mx) window [] ts \<and>
    length (filter (in_window window t)
      (granted_of (check_all (restart_budget_new mx window) ts) ts)) \<le> unat mx"
proof -
  have eq: "check_all (restart_budget_new mx window) ts = sliding (unat mx) window [] ts"
  proof (cases ts)
    case (Cons u us)
    have "window_rel (restart_budget_new mx window) [] u"
      by (auto simp: window_rel_def restart_budget_new_def)
    from check_all_sliding [OF this, of ts] show ?thesis
      using assms Cons by (simp add: restart_budget_new_def del: check_all.simps sliding.simps)
  qed simp
  then show ?thesis
    using sliding_bound [OF assms(1), of "[]" window t "unat mx"] by simp
qed

theorem restart_budget_is_sliding_window_witness:
  "check_all (restart_budget_new 2 10) [0, 4, 10, 11] = [True, True, False, True] \<and>
   length (filter (in_window 10 11)
     (granted_of (check_all (restart_budget_new 2 10) [0, 4, 10, 11]) [0, 4, 10, 11])) \<le> 2"
proof -
  have "sorted [0, 4, 10, 11 :: instant]" "\<forall>t \<in> set [0, 4, 10, 11]. - instant_bound \<le> t"
    by (simp_all add: instant_bound_def)
  from restart_budget_is_sliding_window [OF this, of 2 10 11]
  show ?thesis by (auto simp del: check_all.simps)
qed

end
