(* ===== verification/Supervisor.thy ===== *)
theory Supervisor
  imports Child_Registry Restart_Budget
begin

text \<open>
  The supervision state a supervisor holds (\<open>GroupRestart\<close>, \<open>GroupPhase\<close>, \<open>SupervisionState\<close>,
  \<open>evaluate_strategy\<close> and \<open>advance_restart_chain\<close> of \<open>src/src/actor/supervision.rs\<close>).

  A restart factory is user code: the state holds its identity, a number.  Whether a subtree has ended is
  read from the subtree's shared block, so the operations that read it take the answer as a function
  \<open>gone\<close>.  The ids tokio gives the tasks it spawns are arguments.  The two join sets map the id of a
  task to what the task follows; the notifier of the verdicts has no state of its own and is left out.
\<close>

section \<open>Group restarts\<close>

record group_scope =
  gs_restarted :: "actor_id set"
  gs_outside :: "actor_id set"

record group_restart =
  gr_awaiting :: "(actor_id \<times> u64) list"
  gr_stop_queue :: "actor_id list"
  gr_head_reached :: bool
  gr_restart_order :: "actor_id list"
  gr_manual_overrides :: "(actor_id \<times> u64) list"
  gr_scope :: group_scope

definition settle_awaited :: "actor_id \<Rightarrow> u64 \<Rightarrow> group_restart \<Rightarrow> bool \<times> group_restart" where
  "settle_awaited k n g =
     (if hget (gr_awaiting g) k = Some n then (True, g\<lparr>gr_awaiting := hdel k (gr_awaiting g)\<rparr>)
      else (False, g))"

text \<open>The fields of \<open>GroupPhase::Restarting\<close>.\<close>

record group_chain =
  gc_queue :: "actor_id list"
  gc_overrides :: "(actor_id \<times> u64) list"
  gc_started :: "(actor_id \<times> u64) list"
  gc_scope :: group_scope

datatype group_phase = GroupStopping group_restart | GroupRestarting group_chain

section \<open>State\<close>

type_synonym task_id = nat
type_synonym factory = nat

datatype task_plane = PlaneDeath | PlaneRestart

text \<open>
  A task of the death plane: the runner of an incarnation, the wait on the end of one whose runner failed
  (\<open>LostEnd::wait\<close>), or a task that returns a reason at once.
\<close>

datatype death_task =
    RunnerTask actor_id u64
  | LostEndTask actor_id u64
  | ReportTask actor_id stop_reason u64

record restart_task =
  rt_factory :: factory
  rt_child :: actor_id
  rt_seq :: u64
  rt_predecessor :: "predecessor option"

record supervision_state =
  ss_config :: supervision_config
  ss_registry :: child_registry
  ss_budget :: restart_budget
  ss_restart_fns :: "(actor_id \<times> factory) list"
  ss_pending_group :: "group_phase option"
  ss_queued_triggers :: "child_stopped_internal list"
  ss_pending_manual_events :: "((actor_id \<times> u64) \<times> child_event) list"
  ss_death_set :: "(task_id \<times> death_task) list"
  ss_restart_set :: "(task_id \<times> restart_task) list"
  ss_task_owner :: "(task_id \<times> actor_id \<times> u64 \<times> task_plane) list"
  ss_final_delivery :: bool
  ss_owed :: "child_stopped_internal list"
  ss_owed_names :: "((actor_id \<times> u64) \<times> string) list"
  ss_retired :: "(actor_id \<times> predecessor) list"

definition supervision_state_new :: "supervision_config \<Rightarrow> supervision_state" where
  "supervision_state_new config =
     \<lparr>ss_config = config, ss_registry = registry_new,
      ss_budget = restart_budget_new (cfg_max_restarts config) (cfg_restart_window config),
      ss_restart_fns = [], ss_pending_group = None, ss_queued_triggers = [],
      ss_pending_manual_events = [], ss_death_set = [], ss_restart_set = [], ss_task_owner = [],
      ss_final_delivery = False, ss_owed = [], ss_owed_names = [], ss_retired = []\<rparr>"

abbreviation sup_child :: "supervision_state \<Rightarrow> actor_id \<Rightarrow> child_state option" where
  "sup_child sv k \<equiv> registry_get (ss_registry sv) k"

text \<open>A write through \<open>registry.get_mut\<close>.\<close>

definition sup_modify :: "actor_id \<Rightarrow> (child_state \<Rightarrow> child_state) \<Rightarrow> supervision_state \<Rightarrow> supervision_state" where
  "sup_modify k f sv = sv\<lparr>ss_registry := registry_modify k f (ss_registry sv)\<rparr>"

definition sup_life :: "supervision_state \<Rightarrow> actor_id \<Rightarrow> child_lifecycle option" where
  "sup_life sv k = map_option ch_lifecycle (sup_child sv k)"

definition is_pool :: "supervision_state \<Rightarrow> bool" where
  "is_pool sv \<longleftrightarrow> cfg_strategy (ss_config sv) = SimpleOneForOne"

section \<open>Reports and predecessors\<close>

definition sup_owe :: "child_stopped_internal \<Rightarrow> string option \<Rightarrow> supervision_state \<Rightarrow> supervision_state" where
  "sup_owe report name sv =
     (let sv' = (case name of
          Some nm \<Rightarrow> sv\<lparr>ss_owed_names :=
            hput (csi_child_id report, csi_incarnation report) nm (ss_owed_names sv)\<rparr>
        | None \<Rightarrow> sv)
      in sv'\<lparr>ss_owed := ss_owed sv' @ [report]\<rparr>)"

definition prune_retired :: "(token_id \<Rightarrow> bool) \<Rightarrow> supervision_state \<Rightarrow> supervision_state" where
  "prune_retired gone sv =
     sv\<lparr>ss_retired := filter (\<lambda>(k, p). \<not> gone (pd_subtree p)) (ss_retired sv)\<rparr>"

definition retired_subtree ::
  "(token_id \<Rightarrow> bool) \<Rightarrow> actor_id \<Rightarrow> supervision_state \<Rightarrow> predecessor option \<times> supervision_state" where
  "retired_subtree gone k sv =
     (let sv' = prune_retired gone sv in (hget (ss_retired sv') k, sv'))"

definition predecessor_of ::
  "(token_id \<Rightarrow> bool) \<Rightarrow> actor_id \<Rightarrow> supervision_state \<Rightarrow> predecessor option \<times> supervision_state" where
  "predecessor_of gone k sv =
     (case sup_child sv k of
        Some child \<Rightarrow> (ch_predecessor child, sv)
      | None \<Rightarrow> retired_subtree gone k sv)"

section \<open>Starting a restart\<close>

definition note_chain_start :: "actor_id \<Rightarrow> u64 \<Rightarrow> origin \<Rightarrow> supervision_state \<Rightarrow> supervision_state" where
  "note_chain_start k seq origin sv =
     (case (origin, ss_pending_group sv) of
        (OriginChain, Some (GroupRestarting c)) \<Rightarrow>
          sv\<lparr>ss_pending_group := Some (GroupRestarting (c\<lparr>gc_started := hput k seq (gc_started c)\<rparr>))\<rparr>
      | _ \<Rightarrow> sv)"

definition initiate ::
  "task_id \<Rightarrow> actor_id \<Rightarrow> u64 \<Rightarrow> origin \<Rightarrow> supervision_state \<Rightarrow> bool \<times> supervision_state" where
  "initiate tid k seq origin sv =
     (case sup_child sv k of
        None \<Rightarrow> (False, sv)
      | Some child \<Rightarrow>
          (case ch_lifecycle child of
             Down n _ \<Rightarrow>
               (case child_transition (Restarting n seq) child of
                  (False, _) \<Rightarrow> (False, sv)
                | (True, child') \<Rightarrow>
                    let sv1 = sup_modify k
                      (\<lambda>_. child'\<lparr>ch_ctl := slot_pair_for (Some (k, seq)), ch_origin := origin\<rparr>) sv
                    in (case hget (ss_restart_fns sv1) k of
                          None \<Rightarrow> (False, sv1)
                        | Some f \<Rightarrow>
                            (True, note_chain_start k seq origin
                              (sv1\<lparr>ss_restart_set := hput tid
                                  \<lparr>rt_factory = f, rt_child = k, rt_seq = seq,
                                   rt_predecessor = ch_predecessor child\<rparr> (ss_restart_set sv1),
                                ss_task_owner := hput tid (k, seq, PlaneRestart) (ss_task_owner sv1)\<rparr>))))
           | _ \<Rightarrow> (False, sv)))"

section \<open>Removing a spec\<close>

definition scope_without :: "actor_id \<Rightarrow> group_scope \<Rightarrow> group_scope" where
  "scope_without k s = s\<lparr>gs_restarted := gs_restarted s - {k}, gs_outside := gs_outside s - {k}\<rparr>"

fun group_without :: "actor_id \<Rightarrow> group_phase \<Rightarrow> group_phase" where
  "group_without k (GroupStopping g) =
     GroupStopping (g\<lparr>gr_restart_order := filter (\<lambda>j. j \<noteq> k) (gr_restart_order g),
                      gr_manual_overrides := hdel k (gr_manual_overrides g),
                      gr_scope := scope_without k (gr_scope g)\<rparr>)"
| "group_without k (GroupRestarting c) =
     GroupRestarting (c\<lparr>gc_queue := filter (\<lambda>j. j \<noteq> k) (gc_queue c),
                        gc_overrides := hdel k (gc_overrides c),
                        gc_started := hdel k (gc_started c),
                        gc_scope := scope_without k (gc_scope c)\<rparr>)"

definition remove_spec ::
  "(token_id \<Rightarrow> bool) \<Rightarrow> actor_id \<Rightarrow> supervision_state \<Rightarrow> factory option \<times> supervision_state" where
  "remove_spec gone k sv0 =
     (let sv = prune_retired gone sv0;
          (removed, registry) = registry_remove k (ss_registry sv);
          sv1 = sv\<lparr>ss_registry := registry\<rparr>;
          sv2 = (case Option.bind removed ch_predecessor of
              Some p \<Rightarrow> if gone (pd_subtree p) then sv1
                else sv1\<lparr>ss_retired := hput k p (ss_retired sv1)\<rparr>
            | None \<Rightarrow> sv1)
      in (hget (ss_restart_fns sv2) k,
          sv2\<lparr>ss_restart_fns := hdel k (ss_restart_fns sv2),
               ss_pending_group := map_option (group_without k) (ss_pending_group sv2)\<rparr>))"

section \<open>A child and the pending group\<close>

definition in_restart_set :: "supervision_state \<Rightarrow> actor_id \<Rightarrow> bool" where
  "in_restart_set sv k =
     (case ss_pending_group sv of
        Some (GroupStopping g) \<Rightarrow> k \<in> set (gr_restart_order g) \<and> \<not> has_key (gr_manual_overrides g) k
      | Some (GroupRestarting c) \<Rightarrow> k \<in> set (gc_queue c) \<and> \<not> has_key (gc_overrides c) k
      | None \<Rightarrow> False)"

text \<open>Whether the ledger holds the incarnation a \<open>terminate_child\<close> released, down or stopping for good.\<close>

definition released_by :: "(actor_id \<times> u64) list \<Rightarrow> actor_id \<Rightarrow> child_lifecycle option \<Rightarrow> bool" where
  "released_by overrides k life =
     (case hget overrides k of
        None \<Rightarrow> False
      | Some n \<Rightarrow>
          (case life of
             Some (Down m _) \<Rightarrow> m = n
           | Some (Stopping m Terminate) \<Rightarrow> m = n
           | _ \<Rightarrow> False))"

definition queued_or_released ::
  "actor_id list \<Rightarrow> (actor_id \<times> u64) list \<Rightarrow> actor_id \<Rightarrow> child_lifecycle option \<Rightarrow> group_membership" where
  "queued_or_released queue overrides k life =
     (if life \<noteq> None \<and> k \<in> set queue then MemberQueued
      else if released_by overrides k life then MemberReleased
      else MemberNone)"

definition group_membership_of :: "supervision_state \<Rightarrow> actor_id \<Rightarrow> group_membership" where
  "group_membership_of sv k =
     (let life = sup_life sv k in
      case ss_pending_group sv of
        Some (GroupStopping g) \<Rightarrow>
          let rest = queued_or_released (gr_restart_order g) (gr_manual_overrides g) k life in
          (case hget (gr_awaiting g) k of
             Some n \<Rightarrow>
               if map_option held_token life \<noteq> Some n then MemberNone
               else if \<not> has_key (ss_pending_manual_events sv) (k, n)
                 then MemberAwaited (hget (gr_manual_overrides g) k = Some n)
               else rest
           | None \<Rightarrow> rest)
      | Some (GroupRestarting c) \<Rightarrow> queued_or_released (gc_queue c) (gc_overrides c) k life
      | None \<Rightarrow> MemberNone)"

definition group_scope_of :: "supervision_state \<Rightarrow> group_scope option" where
  "group_scope_of sv =
     (case ss_pending_group sv of
        Some (GroupStopping g) \<Rightarrow> Some (gr_scope g)
      | Some (GroupRestarting c) \<Rightarrow> Some (gc_scope c)
      | None \<Rightarrow> None)"

definition first_plan_outside :: "supervision_state \<Rightarrow> actor_id \<Rightarrow> actor_id set" where
  "first_plan_outside sv failed =
     (if cfg_strategy (ss_config sv) \<noteq> RestForOne then {}
      else set (takeWhile (\<lambda>k. k \<noteq> failed) (all_ids (ss_registry sv))))"

definition in_keep_scope :: "supervision_state \<Rightarrow> actor_id \<Rightarrow> bool" where
  "in_keep_scope sv k =
     (case group_scope_of sv of
        None \<Rightarrow> False
      | Some scope \<Rightarrow>
          (case cfg_strategy (ss_config sv) of
             OneForAll \<Rightarrow> True
           | RestForOne \<Rightarrow> k \<notin> gs_outside scope
           | _ \<Rightarrow> False))"

definition sup_record_override :: "actor_id \<Rightarrow> supervision_state \<Rightarrow> supervision_state" where
  "sup_record_override k sv =
     (case sup_life sv k of
        None \<Rightarrow> sv
      | Some life \<Rightarrow>
          let token = held_token life in
          (case ss_pending_group sv of
             Some (GroupStopping g) \<Rightarrow>
               sv\<lparr>ss_pending_group := Some (GroupStopping
                 (g\<lparr>gr_manual_overrides := hput k token (gr_manual_overrides g)\<rparr>))\<rparr>
           | Some (GroupRestarting c) \<Rightarrow>
               sv\<lparr>ss_pending_group := Some (GroupRestarting
                 (c\<lparr>gc_overrides := hput k token (gc_overrides c)\<rparr>))\<rparr>
           | None \<Rightarrow> sv))"

fun group_leave :: "actor_id \<Rightarrow> group_phase \<Rightarrow> group_phase" where
  "group_leave k (GroupStopping g) =
     GroupStopping (g\<lparr>gr_restart_order := filter (\<lambda>j. j \<noteq> k) (gr_restart_order g)\<rparr>)"
| "group_leave k (GroupRestarting c) =
     GroupRestarting (c\<lparr>gc_queue := filter (\<lambda>j. j \<noteq> k) (gc_queue c)\<rparr>)"

definition leave_restart_set :: "actor_id \<Rightarrow> supervision_state \<Rightarrow> supervision_state" where
  "leave_restart_set k sv =
     sv\<lparr>ss_pending_group := map_option (group_leave k) (ss_pending_group sv)\<rparr>"

definition dismiss_owed_evaluation ::
  "(token_id \<Rightarrow> bool) \<Rightarrow> actor_id \<Rightarrow> supervision_state \<Rightarrow> factory option \<times> supervision_state" where
  "dismiss_owed_evaluation gone k sv =
     (case sup_child sv k of
        None \<Rightarrow> (None, sv)
      | Some child \<Rightarrow>
          (case ch_lifecycle child of
             Down n OwesEvaluate \<Rightarrow>
               let reason =
                     (case List.find (\<lambda>e. csi_child_id e = k \<and> csi_incarnation e = n)
                        (ss_queued_triggers sv) of
                        None \<Rightarrow> end_reason (ch_ctl child)
                      | Some e \<Rightarrow> csi_reason e);
                   event = \<lparr>ce_child_id = k, ce_child_name = ch_name child, ce_reason = reason,
                            ce_action = Removed\<rparr>;
                   prunable = (is_pool sv \<or> cs_restart_type (ch_spec child) = Temporary);
                   sv1 = sv\<lparr>ss_pending_manual_events := hput (k, n) event (ss_pending_manual_events sv)\<rparr>
               in if prunable then remove_spec gone k sv1
                  else (None, sup_modify k (\<lambda>c. snd (child_transition (Down n OwesSnapshot) c)) sv1)
           | _ \<Rightarrow> (None, sv)))"

definition rewrite_restart_snapshot :: "actor_id \<Rightarrow> supervision_state \<Rightarrow> supervision_state" where
  "rewrite_restart_snapshot k sv =
     (case sup_life sv k of
        None \<Rightarrow> sv
      | Some life \<Rightarrow>
          (case hget (ss_pending_manual_events sv) (k, held_token life) of
             Some event \<Rightarrow>
               if ce_action event = RestartInitiated
               then sv\<lparr>ss_pending_manual_events :=
                 hput (k, held_token life) (event\<lparr>ce_action := Removed\<rparr>) (ss_pending_manual_events sv)\<rparr>
               else sv
           | None \<Rightarrow> sv))"

definition sup_manual_facts :: "supervision_state \<Rightarrow> actor_id \<Rightarrow> manual_facts" where
  "sup_manual_facts sv k =
     (let child = sup_child sv k in
      \<lparr>mf_life = map_option ch_lifecycle child,
       mf_task = (case child of None \<Rightarrow> TaskEnded | Some c \<Rightarrow> slot_task_state (ch_ctl c)),
       mf_membership = group_membership_of sv k,
       mf_restart_type = (case child of None \<Rightarrow> Permanent | Some c \<Rightarrow> cs_restart_type (ch_spec c)),
       mf_pool = is_pool sv,
       mf_restarted = (case group_scope_of sv of None \<Rightarrow> False | Some s \<Rightarrow> k \<in> gs_restarted s),
       mf_in_keep_scope = in_keep_scope sv k,
       mf_policy = (case child of None \<Rightarrow> default_shutdown | Some c \<Rightarrow> cs_shutdown (ch_spec c)),
       mf_lane_vetoable = (case child of None \<Rightarrow> False | Some c \<Rightarrow> lane_vetoable (ch_ctl c)),
       mf_reasked = (case child of None \<Rightarrow> False | Some c \<Rightarrow> reasked (ch_ctl c)),
       mf_has_order = (case child of None \<Rightarrow> False | Some c \<Rightarrow> has_order (ch_ctl c))\<rparr>)"

definition sup_manual_answer :: "manual_op \<Rightarrow> supervision_state \<Rightarrow> actor_id \<Rightarrow> manual_reply" where
  "sup_manual_answer op sv k = manual_answer op (sup_manual_facts sv k)"

definition children_info :: "supervision_state \<Rightarrow> child_info list" where
  "children_info sv =
     map (\<lambda>child.
        let fate_present = (slot_task_state (ch_ctl child) = TaskEnded);
            (is_alive, restart_pending) =
              child_info_flags (ch_lifecycle child) fate_present (in_restart_set sv (ch_id child))
        in \<lparr>ci_id = ch_id child, ci_name = ch_name child,
            ci_restart_type = cs_restart_type (ch_spec child), ci_shutdown = cs_shutdown (ch_spec child),
            ci_is_alive = is_alive, ci_restart_pending = restart_pending\<rparr>)
       (cr_children (ss_registry sv))"

section \<open>Tasks that failed\<close>

text \<open>
  A task that failed leaves a join error: its id, and the panic's payload when it panicked.  \<open>tid\<close> is the id of
  the replacement task.
\<close>

definition join_error_panic :: "string option \<Rightarrow> actor_error option" where
  "join_error_panic payload = map_option Panic payload"

definition spawn_death ::
  "task_id \<Rightarrow> actor_id \<Rightarrow> u64 \<Rightarrow> death_task \<Rightarrow> supervision_state \<Rightarrow> supervision_state" where
  "spawn_death tid k n task sv =
     sv\<lparr>ss_death_set := hput tid task (ss_death_set sv),
        ss_task_owner := hput tid (k, n, PlaneDeath) (ss_task_owner sv)\<rparr>"

definition has_lost_end :: "slot \<Rightarrow> bool" where
  "has_lost_end s \<longleftrightarrow> cell_status (sl_cell s) \<noteq> None"

definition owner_slot :: "supervision_state \<Rightarrow> actor_id \<Rightarrow> u64 \<Rightarrow> slot option" where
  "owner_slot sv k n = Option.bind (sup_child sv k) (\<lambda>child. slot_of child n)"

definition lost_death_task ::
  "task_id \<Rightarrow> task_id \<Rightarrow> string option \<Rightarrow> supervision_state \<Rightarrow>
   actor_error option \<times> task_id option \<times> supervision_state" where
  "lost_death_task tid failed payload sv0 =
     (let panic = join_error_panic payload;
          sv = sv0\<lparr>ss_task_owner := hdel failed (ss_task_owner sv0)\<rparr>
      in (case hget (ss_task_owner sv0) failed of
            None \<Rightarrow> (panic, None, sv)
          | Some (k, n, _) \<Rightarrow>
              let slot = owner_slot sv k n;
                  ended = (case slot of None \<Rightarrow> False | Some s \<Rightarrow> status_ended s);
                  lost = (case slot of None \<Rightarrow> False | Some s \<Rightarrow> has_lost_end s);
                  task = (if lost then LostEndTask k n
                          else ReportTask k (case panic of Some e \<Rightarrow> Failure e | None \<Rightarrow> Kill) n)
              in (panic, if ended \<or> slot = None then Some tid else None, spawn_death tid k n task sv)))"

definition lost_restart_task ::
  "task_id \<Rightarrow> task_id \<Rightarrow> string option \<Rightarrow> supervision_state \<Rightarrow>
   restart_outcome option \<times> actor_error option \<times> task_id option \<times> supervision_state" where
  "lost_restart_task tid failed payload sv0 =
     (let panic = join_error_panic payload;
          sv = sv0\<lparr>ss_task_owner := hdel failed (ss_task_owner sv0)\<rparr>
      in (case hget (ss_task_owner sv0) failed of
            None \<Rightarrow> (None, panic, None, sv)
          | Some (k, n, _) \<Rightarrow>
              let slot = owner_slot sv k n;
                  ended = (case slot of None \<Rightarrow> False | Some s \<Rightarrow> status_ended s);
                  lost = (case slot of None \<Rightarrow> False | Some s \<Rightarrow> has_lost_end s)
              in if lost
                 then (None, panic, if ended then Some tid else None, spawn_death tid k n (LostEndTask k n) sv)
                 else (Some (OutcomeFailed k n (Failure (case panic of
                           Some e \<Rightarrow> e | None \<Rightarrow> Panic ''restart attempt task failed''))),
                       panic, None, sv)))"

text \<open>\<open>final_await_sets\<close>: the tasks whose results the final collection waits for, runners and attempts.\<close>

fun awaited_entry :: "supervision_state \<Rightarrow> task_id \<times> actor_id \<times> u64 \<times> task_plane \<Rightarrow> bool \<times> bool" where
  "awaited_entry sv (task, k, n, plane) =
     (case (plane, map_option (\<lambda>c. (ch_lifecycle c, ch_ctl c)) (sup_child sv k)) of
        (PlaneRestart, Some (Restarting _ nxt, ctl)) \<Rightarrow> (False, nxt = n \<and> status_ended ctl)
      | (PlaneRestart, _) \<Rightarrow> (False, False)
      | (PlaneDeath, Some (Running m, ctl)) \<Rightarrow> (m = n \<longrightarrow> status_ended ctl, False)
      | (PlaneDeath, Some (Stopping m _, ctl)) \<Rightarrow> (m = n \<longrightarrow> status_ended ctl, False)
      | (PlaneDeath, Some (Restarting _ nxt, ctl)) \<Rightarrow> (nxt = n \<longrightarrow> status_ended ctl, False)
      | (PlaneDeath, _) \<Rightarrow> (True, False))"

definition final_await_sets :: "supervision_state \<Rightarrow> task_id set \<times> task_id set" where
  "final_await_sets sv =
     (set (map fst (filter (\<lambda>e. fst (awaited_entry sv e)) (ss_task_owner sv))),
      set (map fst (filter (\<lambda>e. snd (awaited_entry sv e)) (ss_task_owner sv))))"

section \<open>Strategy\<close>

datatype strategy_outcome =
    RestartOne actor_id
  | RestartGroup "committed list"
  | StrategyRemove
  | StrategyBudgetExhausted

definition group_member_of :: "child_state \<Rightarrow> group_member" where
  "group_member_of child =
     \<lparr>gm_id = ch_id child, gm_life = ch_lifecycle child, gm_restart_type = cs_restart_type (ch_spec child)\<rparr>"

fun should_restart :: "restart_type \<Rightarrow> stop_reason \<Rightarrow> bool" where
  "should_restart Permanent reason = True"
| "should_restart Transient reason = (reason \<notin> {Graceful, ParentRequest, ParentKilled})"
| "should_restart Temporary reason = False"

definition evaluate_strategy ::
  "instant \<Rightarrow> actor_id \<Rightarrow> stop_reason \<Rightarrow> supervision_state \<Rightarrow> strategy_outcome \<times> supervision_state" where
  "evaluate_strategy now failed reason sv =
     (case sup_child sv failed of
        None \<Rightarrow> (StrategyRemove, sv)
      | Some child \<Rightarrow>
          if \<not> should_restart (cs_restart_type (ch_spec child)) reason then (StrategyRemove, sv)
          else (case check_and_record now (ss_budget sv) of
                  (ok, budget) \<Rightarrow>
                    let sv1 = sv\<lparr>ss_budget := budget\<rparr>;
                        strategy = cfg_strategy (ss_config sv1)
                    in if \<not> ok then (StrategyBudgetExhausted, sv1)
                       else if strategy \<in> {OneForOne, SimpleOneForOne} then (RestartOne failed, sv1)
                       else (RestartGroup (group_commit strategy
                               (map group_member_of (cr_children (ss_registry sv1))) failed), sv1)))"

definition named_overrides :: "supervision_state \<Rightarrow> (actor_id \<times> u64) list \<Rightarrow> actor_id list" where
  "named_overrides sv overrides =
     map fst (filter (\<lambda>(k, token). map_option held_token (sup_life sv k) = Some token) overrides)"

definition plan_retry :: "supervision_state \<Rightarrow> actor_id \<Rightarrow> retry_plan" where
  "plan_retry sv failed =
     (let released = (case ss_pending_group sv of
          Some (GroupRestarting c) \<Rightarrow> named_overrides sv (gc_overrides c)
        | Some (GroupStopping g) \<Rightarrow> named_overrides sv (gr_manual_overrides g)
        | None \<Rightarrow> [])
      in retry_plan_of (cfg_strategy (ss_config sv))
           (map group_member_of (cr_children (ss_registry sv))) released failed)"

section \<open>The restart chain\<close>

datatype chain_step = ChainInitiate actor_id | ChainHold | ChainDone

definition chain_length :: "supervision_state \<Rightarrow> nat" where
  "chain_length sv =
     (case ss_pending_group sv of Some (GroupRestarting c) \<Rightarrow> length (gc_queue c) | _ \<Rightarrow> 0)"

definition set_chain :: "group_chain \<Rightarrow> supervision_state \<Rightarrow> supervision_state" where
  "set_chain c sv = sv\<lparr>ss_pending_group := Some (GroupRestarting c)\<rparr>"

text \<open>
  The loop of \<open>advance_restart_chain\<close>; the assertions of its last two branches are checked in debug builds
  only, and the branches go on as written.
\<close>

function advance_restart_chain ::
  "instant \<Rightarrow> supervision_state \<Rightarrow> child_stopped_internal list \<Rightarrow>
   chain_step \<times> supervision_state \<times> child_stopped_internal list" where
  "advance_restart_chain now sv work =
     (case ss_pending_group sv of
        Some (GroupRestarting c) \<Rightarrow>
          (case gc_queue c of
             [] \<Rightarrow> (ChainDone, sv\<lparr>ss_pending_group := None, ss_queued_triggers := []\<rparr>,
                   work @ ss_queued_triggers sv)
           | k # rest \<Rightarrow>
               (case sup_child sv k of
                  None \<Rightarrow> advance_restart_chain now (set_chain (c\<lparr>gc_queue := rest\<rparr>) sv) work
                | Some child \<Rightarrow>
                    (case chain_front (ch_lifecycle child) (hget (gc_started c) k) of
                       Fresh \<Rightarrow>
                         advance_restart_chain now
                           (set_chain (c\<lparr>gc_queue := rest, gc_scope := (gc_scope c)\<lparr>gs_restarted :=
                              insert k (gs_restarted (gc_scope c))\<rparr>\<rparr>) sv) work
                     | Initiate \<Rightarrow> (ChainInitiate k, sv, work)
                     | StopThenInitiate \<Rightarrow>
                         (ChainHold,
                          sup_modify k (\<lambda>ch. ch\<lparr>ch_ctl :=
                            order_stop now (cs_shutdown (ch_spec ch)) True (ch_ctl ch)\<rparr>) sv, work)
                     | Hold \<Rightarrow> (ChainHold, sv, work))))
      | _ \<Rightarrow> (ChainDone, sv, work))"
  by pat_completeness auto

termination
  by (relation "measure (\<lambda>(now, sv, work). chain_length sv)") (simp_all add: chain_length_def set_chain_def)

declare advance_restart_chain.simps [simp del]

text \<open>The loop's branches: what relates the state before the loop to its result.\<close>

lemma advance_chain_induct [case_names Idle Done Skip Fresh Initiate Stop Hold]:
  assumes Idle: "\<And>sv. (\<And>c. ss_pending_group sv \<noteq> Some (GroupRestarting c)) \<Longrightarrow> P sv (ChainDone, sv, work)"
    and Done: "\<And>sv c. ss_pending_group sv = Some (GroupRestarting c) \<Longrightarrow> gc_queue c = [] \<Longrightarrow>
      P sv (ChainDone, sv\<lparr>ss_pending_group := None, ss_queued_triggers := []\<rparr>, work @ ss_queued_triggers sv)"
    and Skip: "\<And>sv c k rest r. ss_pending_group sv = Some (GroupRestarting c) \<Longrightarrow> gc_queue c = k # rest \<Longrightarrow>
      sup_child sv k = None \<Longrightarrow> P (set_chain (c\<lparr>gc_queue := rest\<rparr>) sv) r \<Longrightarrow> P sv r"
    and Fresh: "\<And>sv c k rest child r. ss_pending_group sv = Some (GroupRestarting c) \<Longrightarrow> gc_queue c = k # rest \<Longrightarrow>
      sup_child sv k = Some child \<Longrightarrow> chain_front (ch_lifecycle child) (hget (gc_started c) k) = Fresh \<Longrightarrow>
      P (set_chain (c\<lparr>gc_queue := rest, gc_scope := (gc_scope c)\<lparr>gs_restarted :=
        insert k (gs_restarted (gc_scope c))\<rparr>\<rparr>) sv) r \<Longrightarrow> P sv r"
    and Initiate: "\<And>sv c k rest child. ss_pending_group sv = Some (GroupRestarting c) \<Longrightarrow> gc_queue c = k # rest \<Longrightarrow>
      sup_child sv k = Some child \<Longrightarrow> chain_front (ch_lifecycle child) (hget (gc_started c) k) = Initiate \<Longrightarrow>
      P sv (ChainInitiate k, sv, work)"
    and Stop: "\<And>sv c k rest child. ss_pending_group sv = Some (GroupRestarting c) \<Longrightarrow> gc_queue c = k # rest \<Longrightarrow>
      sup_child sv k = Some child \<Longrightarrow> chain_front (ch_lifecycle child) (hget (gc_started c) k) = StopThenInitiate \<Longrightarrow>
      P sv (ChainHold, sup_modify k (\<lambda>ch. ch\<lparr>ch_ctl :=
        order_stop now (cs_shutdown (ch_spec ch)) True (ch_ctl ch)\<rparr>) sv, work)"
    and Hold: "\<And>sv c k rest child. ss_pending_group sv = Some (GroupRestarting c) \<Longrightarrow> gc_queue c = k # rest \<Longrightarrow>
      sup_child sv k = Some child \<Longrightarrow> chain_front (ch_lifecycle child) (hget (gc_started c) k) = Hold \<Longrightarrow>
      P sv (ChainHold, sv, work)"
  shows "P sv (advance_restart_chain now sv work)"
proof (induction "chain_length sv" arbitrary: sv rule: less_induct)
  case less
  show ?case
  proof (cases "\<exists>c. ss_pending_group sv = Some (GroupRestarting c)")
    case False
    then have "advance_restart_chain now sv work = (ChainDone, sv, work)"
      by (subst advance_restart_chain.simps) (auto split: option.splits group_phase.splits)
    with False show ?thesis by (simp add: Idle)
  next
    case True
    then obtain c where group: "ss_pending_group sv = Some (GroupRestarting c)" ..
    show ?thesis
    proof (cases "gc_queue c")
      case Nil
      with group show ?thesis by (subst advance_restart_chain.simps) (simp add: Done)
    next
      case (Cons k rest)
      have shorter: "chain_length (set_chain (c'\<lparr>gc_queue := rest\<rparr>) sv) < chain_length sv" for c'
        using group Cons by (simp add: chain_length_def set_chain_def)
      note loop = group Cons
      show ?thesis
      proof (cases "sup_child sv k")
        case None
        have "P sv (advance_restart_chain now (set_chain (c\<lparr>gc_queue := rest\<rparr>) sv) work)"
          by (rule Skip [OF loop None less [OF shorter]])
        with loop None show ?thesis by (subst advance_restart_chain.simps) simp
      next
        case (Some child)
        show ?thesis
        proof (cases "chain_front (ch_lifecycle child) (hget (gc_started c) k)")
          case front: Fresh
          have "P sv (advance_restart_chain now (set_chain (c\<lparr>gc_queue := rest, gc_scope :=
              (gc_scope c)\<lparr>gs_restarted := insert k (gs_restarted (gc_scope c))\<rparr>\<rparr>) sv) work)"
            by (rule Fresh [OF loop Some front less])
              (use loop in \<open>simp add: chain_length_def set_chain_def\<close>)
          with loop Some front show ?thesis by (subst advance_restart_chain.simps) simp
        qed (use loop Some Initiate Stop Hold in \<open>subst advance_restart_chain.simps; simp\<close>)+
      qed
    qed
  qed
qed

end
