(* ===== verification/Group_Restart.thy ===== *)
theory Group_Restart
  imports Supervisor
begin

text \<open>
  The supervisor's handling of its children's ends (\<open>src/src/actor/runtime.rs\<close>): the stop queue of a group
  restart, the route of a report, the absorption of owed reports, the worklist of
  \<open>handle_child_stopped\<close>, the retry of a group, and the outcomes of restart attempts.

  The context a handler works on holds the supervision state, the system's incarnation counter, the next
  task id, the clock reading of the current turn, which subtrees have ended, the last recorded
  failure and the last panic of a supervision task.  What is user code is a parameter: the callback \<open>on_child_stopped\<close>, which may call back into the
  context, and the drop of a removed child's factory, which may panic.  The handlers run in the loop
  of a supervisor, so the context always has a supervision state.
\<close>

section \<open>The context\<close>

record sup_ctx =
  cx_sup :: supervision_state
  cx_next_incarnation :: u64
  cx_next_task :: task_id
  cx_now :: instant
  cx_gone :: "token_id \<Rightarrow> bool"
  cx_last_error :: "actor_error option"
  cx_last_task_error :: "actor_error option"

datatype hook_result = HookOk | HookErr actor_error | HookPanic string

record sup_env =
  env_on_child_stopped :: "child_event \<Rightarrow> sup_ctx \<Rightarrow> hook_result \<times> sup_ctx"
  env_drop :: "factory \<Rightarrow> string option"

datatype flow = Continue | Break stop_reason

type_synonym worklist = "child_stopped_internal list"

definition on_sup :: "(supervision_state \<Rightarrow> supervision_state) \<Rightarrow> sup_ctx \<Rightarrow> sup_ctx" where
  "on_sup f cx = cx\<lparr>cx_sup := f (cx_sup cx)\<rparr>"

definition record_failure :: "actor_error \<Rightarrow> sup_ctx \<Rightarrow> sup_ctx" where
  "record_failure e cx = cx\<lparr>cx_last_error := Some e\<rparr>"

definition next_incarnation :: "sup_ctx \<Rightarrow> u64 \<times> sup_ctx" where
  "next_incarnation cx = (cx_next_incarnation cx, cx\<lparr>cx_next_incarnation := cx_next_incarnation cx + 1\<rparr>)"

definition take_task_id :: "sup_ctx \<Rightarrow> task_id \<times> sup_ctx" where
  "take_task_id cx = (cx_next_task cx, cx\<lparr>cx_next_task := Suc (cx_next_task cx)\<rparr>)"

definition initiate_restart :: "actor_id \<Rightarrow> origin \<Rightarrow> sup_ctx \<Rightarrow> sup_ctx" where
  "initiate_restart k origin cx =
     (let (seq, cx1) = next_incarnation cx;
          (tid, cx2) = take_task_id cx1
      in on_sup (\<lambda>sv. snd (initiate tid k seq origin sv)) cx2)"

definition child_name_of :: "supervision_state \<Rightarrow> actor_id \<Rightarrow> string option" where
  "child_name_of sv k = Option.bind (sup_child sv k) ch_name"

definition record_down :: "actor_id \<Rightarrow> u64 \<Rightarrow> down_pending \<Rightarrow> supervision_state \<Rightarrow> supervision_state" where
  "record_down k n pending sv = sup_modify k (\<lambda>c. snd (child_transition (Down n pending) c)) sv"

section \<open>The stop queue\<close>

definition slot_held :: "supervision_state \<Rightarrow> group_restart \<Rightarrow> actor_id \<Rightarrow> (child_state \<times> slot) option" where
  "slot_held sv g k =
     Option.bind (hget (gr_awaiting g) k)
       (\<lambda>token. Option.bind (sup_child sv k)
          (\<lambda>child. map_option (\<lambda>ctl. (child, ctl)) (slot_of child token)))"

definition is_restarting_child :: "child_state \<Rightarrow> bool" where
  "is_restarting_child child = is_restarting (Some (ch_lifecycle child))"

definition infinity_ask_possible :: "child_state \<Rightarrow> slot \<Rightarrow> bool" where
  "infinity_ask_possible child ctl \<longleftrightarrow>
     cs_shutdown (ch_spec child) = ShutdownInfinity \<and> lane_vetoable ctl \<and> slot_task_state ctl \<noteq> TaskEnded"

definition past_init :: "slot \<Rightarrow> bool" where
  "past_init ctl =
     (case cell_status (sl_cell ctl) of
        Some st \<Rightarrow> sv_status (sc_value st) \<noteq> StInitializing
      | None \<Rightarrow> False)"

definition queue_head_of :: "supervision_state \<Rightarrow> group_restart \<Rightarrow> actor_id \<Rightarrow> queue_head" where
  "queue_head_of sv g k =
     (let awaited = hget (gr_awaiting g) k;
          slot = slot_held sv g k;
          of_slot = (\<lambda>d f. case slot of None \<Rightarrow> d | Some (child, ctl) \<Rightarrow> f child ctl)
      in \<lparr>qh_awaited = (awaited \<noteq> None),
          qh_verdict = of_slot False (\<lambda>_ ctl. is_unresponsive ctl),
          qh_signalled = gr_head_reached g,
          qh_handled = (case awaited of None \<Rightarrow> False
            | Some token \<Rightarrow> has_key (ss_pending_manual_events sv) (k, token)),
          qh_life = map_option (\<lambda>(child, _). ch_lifecycle child) slot,
          qh_has_order = of_slot False (\<lambda>_ ctl. has_order ctl),
          qh_ask_possible = of_slot False infinity_ask_possible,
          qh_reasked = of_slot False (\<lambda>_ ctl. reasked ctl),
          qh_attempt_past_init = of_slot False (\<lambda>child ctl. is_restarting_child child \<and> past_init ctl),
          qh_attempt_spawned = of_slot True
            (\<lambda>child ctl. \<not> is_restarting_child child \<or> cell_lane (sl_cell ctl) \<noteq> None)\<rparr>)"

definition ask_and_mark :: "slot \<Rightarrow> slot" where
  "ask_and_mark s = mark_reasked (ask_again s)"

fun queue_effect :: "instant \<Rightarrow> queue_step \<Rightarrow> child_state \<Rightarrow> child_state" where
  "queue_effect now QueueOrder c =
     c\<lparr>ch_ctl := order_stop now (cs_shutdown (ch_spec c)) True (ch_ctl c)\<rparr>"
| "queue_effect now QueueOrderUnpublished c =
     c\<lparr>ch_ctl := order_stop now (cs_shutdown (ch_spec c)) False (ch_ctl c)\<rparr>"
| "queue_effect now (QueueOrderAttempt again) c =
     (let ctl = order_stop now (cs_shutdown (ch_spec c)) True (ch_ctl c)
      in c\<lparr>ch_ctl := (if again then ask_and_mark ctl else ctl)\<rparr>)"
| "queue_effect now (QueueJoin again) c = (if again then c\<lparr>ch_ctl := ask_and_mark (ch_ctl c)\<rparr> else c)"
| "queue_effect now _ c = c"

definition set_stopping :: "group_restart \<Rightarrow> supervision_state \<Rightarrow> supervision_state" where
  "set_stopping g sv = sv\<lparr>ss_pending_group := Some (GroupStopping g)\<rparr>"

definition stop_queue_measure :: "supervision_state \<Rightarrow> nat" where
  "stop_queue_measure sv =
     (case ss_pending_group sv of
        Some (GroupStopping g) \<Rightarrow> 2 * length (gr_stop_queue g) + of_bool (\<not> gr_head_reached g)
      | _ \<Rightarrow> 0)"

lemma stop_queue_next_signalled:
  "qh_signalled h \<Longrightarrow> stop_queue_next h = QueuePop \<or> stop_queue_next h = QueueWait"
  by (simp add: stop_queue_next_def)

lemma queue_head_of_signalled [simp]: "qh_signalled (queue_head_of sv g k) = gr_head_reached g"
  by (simp add: queue_head_of_def Let_def)

lemma reached_after:
  "queue_head_reached_after step before =
     (if step = QueuePop then False else if step = QueueWait then before else True)"
  by (cases step) simp_all

lemma stop_queue_step_less:
  assumes "ss_pending_group sv = Some (GroupStopping g)" "gr_stop_queue g = k # rest"
    and "step = stop_queue_next (queue_head_of sv g k)" "step \<noteq> QueueWait"
  shows "stop_queue_measure
      (set_stopping
         (g\<lparr>gr_stop_queue := (if step = QueuePop then rest else k # rest),
            gr_head_reached := queue_head_reached_after step (gr_head_reached g)\<rparr>)
         (sup_modify k f sv))
    < stop_queue_measure sv"
  using assms stop_queue_next_signalled [of "queue_head_of sv g k"] reached_after [of step "gr_head_reached g"]
  by (auto simp: stop_queue_measure_def set_stopping_def)

function advance_stop_queue :: "instant \<Rightarrow> supervision_state \<Rightarrow> supervision_state" where
  "advance_stop_queue now sv =
     (case ss_pending_group sv of
        Some (GroupStopping g) \<Rightarrow>
          (case gr_stop_queue g of
             [] \<Rightarrow> sv
           | k # rest \<Rightarrow>
               let step = stop_queue_next (queue_head_of sv g k) in
               if step = QueueWait then sv
               else advance_stop_queue now
                 (set_stopping
                    (g\<lparr>gr_stop_queue := (if step = QueuePop then rest else k # rest),
                       gr_head_reached := queue_head_reached_after step (gr_head_reached g)\<rparr>)
                    (sup_modify k (queue_effect now step) sv)))
      | _ \<Rightarrow> sv)"
  by pat_completeness auto

termination
  by (relation "measure (\<lambda>(now, sv). stop_queue_measure sv)") (simp_all add: stop_queue_step_less)

declare advance_stop_queue.simps [simp del]

lemma advance_stop_queue_induct [case_names Idle Empty Wait Step]:
  assumes Idle: "\<And>sv. (\<And>g. ss_pending_group sv \<noteq> Some (GroupStopping g)) \<Longrightarrow> P sv sv"
    and Empty: "\<And>sv g. ss_pending_group sv = Some (GroupStopping g) \<Longrightarrow> gr_stop_queue g = [] \<Longrightarrow> P sv sv"
    and Wait: "\<And>sv g k rest. ss_pending_group sv = Some (GroupStopping g) \<Longrightarrow> gr_stop_queue g = k # rest \<Longrightarrow>
      stop_queue_next (queue_head_of sv g k) = QueueWait \<Longrightarrow> P sv sv"
    and Step: "\<And>sv g k rest step r. ss_pending_group sv = Some (GroupStopping g) \<Longrightarrow> gr_stop_queue g = k # rest \<Longrightarrow>
      stop_queue_next (queue_head_of sv g k) = step \<Longrightarrow> step \<noteq> QueueWait \<Longrightarrow>
      P (set_stopping (g\<lparr>gr_stop_queue := (if step = QueuePop then rest else k # rest),
            gr_head_reached := queue_head_reached_after step (gr_head_reached g)\<rparr>)
          (sup_modify k (queue_effect now step) sv)) r \<Longrightarrow> P sv r"
  shows "P sv (advance_stop_queue now sv)"
proof (induction "stop_queue_measure sv" arbitrary: sv rule: less_induct)
  case less
  show ?case
  proof (cases "\<exists>g. ss_pending_group sv = Some (GroupStopping g)")
    case False
    then have "advance_stop_queue now sv = sv"
      by (subst advance_stop_queue.simps) (auto split: option.splits group_phase.splits)
    with False show ?thesis by (simp add: Idle)
  next
    case True
    then obtain g where group: "ss_pending_group sv = Some (GroupStopping g)" ..
    show ?thesis
    proof (cases "gr_stop_queue g")
      case Nil
      with group show ?thesis by (subst advance_stop_queue.simps) (simp add: Empty)
    next
      case (Cons k rest)
      note loop = group Cons
      show ?thesis
      proof (cases "stop_queue_next (queue_head_of sv g k) = QueueWait")
        case True
        with loop show ?thesis by (subst advance_stop_queue.simps) (simp add: Wait)
      next
        case False
        note next_state = stop_queue_step_less [OF loop refl False]
        show ?thesis
          using Step [OF loop refl False less [OF next_state]] loop False
          by (subst advance_stop_queue.simps) (simp add: Let_def)
      qed
    qed
  qed
qed

definition settle_barrier :: "actor_id \<Rightarrow> u64 \<Rightarrow> supervision_state \<Rightarrow> bool \<times> supervision_state" where
  "settle_barrier k n sv =
     (case ss_pending_group sv of
        Some (GroupStopping g) \<Rightarrow>
          (case settle_awaited k n g of (settled, g') \<Rightarrow> (settled, set_stopping g' sv))
      | _ \<Rightarrow> (False, sv))"

record chain_start =
  cst_order :: "actor_id list"
  cst_overrides :: "(actor_id \<times> u64) list"
  cst_scope :: group_scope

definition take_chain_order :: "supervision_state \<Rightarrow> chain_start option \<times> supervision_state" where
  "take_chain_order sv =
     (case ss_pending_group sv of
        Some (GroupStopping g) \<Rightarrow>
          (Some \<lparr>cst_order = filter (\<lambda>k. \<not> has_key (gr_manual_overrides g) k) (gr_restart_order g),
                 cst_overrides = gr_manual_overrides g, cst_scope = gr_scope g\<rparr>,
           sv\<lparr>ss_pending_group := None\<rparr>)
      | _ \<Rightarrow> (None, sv))"

definition advance_group_stop :: "instant \<Rightarrow> supervision_state \<Rightarrow> chain_start option \<times> supervision_state" where
  "advance_group_stop now sv0 =
     (let sv = advance_stop_queue now sv0;
          finished = (case ss_pending_group sv of
            Some (GroupStopping g) \<Rightarrow> gr_stop_queue g = [] \<and> gr_awaiting g = []
          | _ \<Rightarrow> False)
      in if finished then take_chain_order sv else (None, sv))"

definition plan_group_stop ::
  "committed list \<Rightarrow> supervision_state \<Rightarrow> (actor_id \<times> u64) list \<times> actor_id list \<times> supervision_state" where
  "plan_group_stop commit sv =
     (let held = filter (\<lambda>(k, n, action). ma_held action) commit
      in (foldl (\<lambda>m (k, n, action). hput k n m) [] held,
          map fst (rev held),
          foldl (\<lambda>sv (k, n, action).
              if ma_cancel action
              then sup_modify k (\<lambda>c. c\<lparr>ch_ctl := cancel_unspawned (ch_ctl c)\<rparr>) sv else sv) sv commit))"

section \<open>The route of a report\<close>

datatype routed = RoutedQueued | RoutedDeliver supervision_action | RoutedChainRetry | RoutedEvaluate

record group_steps =
  gst_begin_chain :: "chain_start option"
  gst_advance_chain :: bool
  gst_manual_override :: bool

definition no_steps :: group_steps where
  "no_steps = \<lparr>gst_begin_chain = None, gst_advance_chain = False, gst_manual_override = False\<rparr>"

text \<open>The incarnation the chain started for its front, when the child is the front.\<close>

definition chain_front_started :: "supervision_state \<Rightarrow> actor_id \<Rightarrow> u64 option option" where
  "chain_front_started sv k =
     (case ss_pending_group sv of
        Some (GroupRestarting c) \<Rightarrow>
          (case gc_queue c of
             j # _ \<Rightarrow> if j = k then Some (hget (gc_started c) k) else None
           | [] \<Rightarrow> None)
      | _ \<Rightarrow> None)"

definition queue_trigger :: "child_stopped_internal \<Rightarrow> supervision_state \<Rightarrow> supervision_state" where
  "queue_trigger ev sv = sv\<lparr>ss_queued_triggers := ss_queued_triggers sv @ [ev]\<rparr>"

definition route_attempt ::
  "instant \<Rightarrow> child_stopped_internal \<Rightarrow> child_state \<Rightarrow> supervision_state \<Rightarrow>
   routed \<times> group_steps \<times> supervision_state" where
  "route_attempt now ev child sv0 =
     (let k = csi_child_id ev; n = csi_incarnation ev;
          membership = group_membership_of sv0 k;
          pruned = (group_member_end (cs_restart_type (ch_spec child)) = PruneAndRemove);
          front = chain_front_started sv0 k;
          sv = sup_modify k note_subtree sv0
      in (case attempt_failure_route (front = Some (Some n)) membership (ch_origin child) of
            ChainRetry \<Rightarrow> (RoutedChainRetry, no_steps, record_down k n OwesNothing sv)
          | RouteMember \<Rightarrow>
              (case settle_barrier k n (record_down k n OwesNothing sv) of
                 (settled, sv1) \<Rightarrow>
                   (case (if settled then advance_group_stop now sv1 else (None, sv1)) of
                      (begin_chain, sv2) \<Rightarrow>
                        (RoutedDeliver RestartInitiated,
                         \<lparr>gst_begin_chain = begin_chain, gst_advance_chain = (front \<noteq> None),
                          gst_manual_override = pruned\<rparr>, sv2)))
          | RouteRemoved \<Rightarrow> (RoutedDeliver Removed, no_steps, record_down k n OwesNothing sv)
          | RouteEvaluate \<Rightarrow>
              if ss_pending_group sv \<noteq> None
              then (RoutedQueued, no_steps, queue_trigger ev (record_down k n OwesEvaluate sv))
              else (RoutedEvaluate, no_steps, record_down k n OwesNothing sv)))"

definition route_end ::
  "instant \<Rightarrow> child_stopped_internal \<Rightarrow> child_state \<Rightarrow> supervision_state \<Rightarrow>
   routed \<times> group_steps \<times> supervision_state" where
  "route_end now ev child sv =
     (let k = csi_child_id ev; n = csi_incarnation ev;
          membership = group_membership_of sv k;
          pruned = (group_member_end (cs_restart_type (ch_spec child)) = PruneAndRemove);
          front = chain_front_started sv k;
          settled = (case ss_pending_group sv of
            Some (GroupStopping g) \<Rightarrow>
              (case settle_awaited k n g of
                 (True, g') \<Rightarrow> Some (hget (gr_manual_overrides g') k = Some n, g')
               | (False, _) \<Rightarrow> None)
          | _ \<Rightarrow> None)
      in if ss_pending_group sv = None then (RoutedEvaluate, no_steps, record_down k n OwesNothing sv)
         else (case settled of
             Some (overridden, g') \<Rightarrow>
               (case advance_group_stop now (record_down k n OwesNothing (set_stopping g' sv)) of
                  (begin_chain, sv1) \<Rightarrow>
                    (RoutedDeliver RestartInitiated,
                     \<lparr>gst_begin_chain = begin_chain, gst_advance_chain = False,
                      gst_manual_override = (overridden \<or> pruned)\<rparr>, sv1))
           | None \<Rightarrow>
               if membership = MemberQueued
               then (RoutedDeliver RestartInitiated,
                     \<lparr>gst_begin_chain = None, gst_advance_chain = (front \<noteq> None),
                      gst_manual_override = pruned\<rparr>, record_down k n OwesNothing sv)
               else (RoutedQueued, no_steps, queue_trigger ev (record_down k n OwesEvaluate sv))))"

definition route_report ::
  "instant \<Rightarrow> child_stopped_internal \<Rightarrow> supervision_state \<Rightarrow> routed \<times> group_steps \<times> supervision_state" where
  "route_report now ev sv =
     (case sup_child sv (csi_child_id ev) of
        None \<Rightarrow> (RoutedEvaluate, no_steps, sv)
      | Some child \<Rightarrow>
          if (case ch_lifecycle child of Restarting _ nxt \<Rightarrow> nxt = csi_incarnation ev | _ \<Rightarrow> False)
          then route_attempt now ev child sv
          else route_end now ev child sv)"

section \<open>Deliveries and drops\<close>

definition deliver_child_event :: "sup_env \<Rightarrow> child_event \<Rightarrow> sup_ctx \<Rightarrow> flow \<times> sup_ctx" where
  "deliver_child_event env event cx =
     (case env_on_child_stopped env event cx of
        (HookOk, cx') \<Rightarrow> (Continue, cx')
      | (HookErr e, cx') \<Rightarrow> (Break (Failure e), record_failure e cx')
      | (HookPanic p, cx') \<Rightarrow> (Break (Failure (Panic p)), record_failure (Panic p) cx'))"

text \<open>\<open>drop_removed\<close>: every factory is dropped; the first panic among the drops is the turn's.\<close>

definition drop_removed :: "sup_env \<Rightarrow> factory list \<Rightarrow> sup_ctx \<Rightarrow> actor_error option \<times> sup_ctx" where
  "drop_removed env removed cx =
     (case List.map_filter (env_drop env) removed of
        [] \<Rightarrow> (None, cx)
      | p # _ \<Rightarrow> (Some (Panic p), record_failure (Panic p) cx))"

definition owe_deliveries :: "(child_event \<times> u64) list \<Rightarrow> sup_ctx \<Rightarrow> sup_ctx" where
  "owe_deliveries deliveries cx =
     on_sup (\<lambda>sv. foldl (\<lambda>sv (event, n). sup_owe
         \<lparr>csi_child_id = ce_child_id event, csi_reason = ce_reason event, csi_incarnation = n\<rparr>
         (ce_child_name event) sv) sv deliveries) cx"

fun deliver_absorbed :: "sup_env \<Rightarrow> (child_event \<times> u64) list \<Rightarrow> sup_ctx \<Rightarrow> flow \<times> sup_ctx" where
  "deliver_absorbed env [] cx = (Continue, cx)"
| "deliver_absorbed env ((event, _) # rest) cx =
     (case deliver_child_event env event cx of
        (Break r, cx') \<Rightarrow> (Break r, owe_deliveries rest cx')
      | (Continue, cx') \<Rightarrow> deliver_absorbed env rest cx')"

definition prune_spec_if_needed :: "actor_id \<Rightarrow> sup_ctx \<Rightarrow> factory option \<times> sup_ctx" where
  "prune_spec_if_needed k cx =
     (let sv = cx_sup cx;
          prune = (is_pool sv \<or>
            (case sup_child sv k of Some c \<Rightarrow> cs_restart_type (ch_spec c) = Temporary | None \<Rightarrow> False))
      in if prune
         then (case remove_spec (cx_gone cx) k sv of (f, sv') \<Rightarrow> (f, cx\<lparr>cx_sup := sv'\<rparr>))
         else (None, cx))"

abbreviation opt_list :: "'a option \<Rightarrow> 'a list" where
  "opt_list x \<equiv> (case x of None \<Rightarrow> [] | Some y \<Rightarrow> [y])"

section \<open>Absorption\<close>

record absorb_state =
  ab_sup :: supervision_state
  ab_work :: worklist
  ab_deliveries :: "(child_event \<times> u64) list"
  ab_removed :: "factory list"

definition report_of :: "actor_id \<Rightarrow> u64 \<Rightarrow> child_stopped_internal \<Rightarrow> bool" where
  "report_of k n ev \<longleftrightarrow> csi_child_id ev = k \<and> csi_incarnation ev = n"

definition absorb_prune :: "(token_id \<Rightarrow> bool) \<Rightarrow> bool \<Rightarrow> actor_id \<Rightarrow> absorb_state \<Rightarrow> absorb_state" where
  "absorb_prune gone prune k a =
     (if prune
      then (case remove_spec gone k (ab_sup a) of
              (f, sv) \<Rightarrow> a\<lparr>ab_sup := sv, ab_removed := ab_removed a @ opt_list f\<rparr>)
      else a)"

definition absorb_event :: "actor_id \<Rightarrow> child_state \<Rightarrow> bool \<Rightarrow> stop_reason \<Rightarrow> child_event" where
  "absorb_event k child prune reason =
     \<lparr>ce_child_id = k, ce_child_name = ch_name child, ce_reason = reason,
      ce_action = (if prune then Removed else RestartInitiated)\<rparr>"

text \<open>A completed manual stop that kept the member down rejoins the restart the group makes.\<close>

definition rejoin_snapshot :: "actor_id \<Rightarrow> u64 \<Rightarrow> supervision_state \<Rightarrow> supervision_state" where
  "rejoin_snapshot k n sv =
     (case hget (ss_pending_manual_events sv) (k, n) of
        Some event \<Rightarrow>
          if ce_action event = Removed
          then sv\<lparr>ss_pending_manual_events :=
            hput (k, n) (event\<lparr>ce_action := RestartInitiated\<rparr>) (ss_pending_manual_events sv)\<rparr>
          else sv
      | None \<Rightarrow> sv)"

definition absorb_deliver ::
  "(token_id \<Rightarrow> bool) \<Rightarrow> actor_id \<Rightarrow> child_state \<Rightarrow> u64 \<Rightarrow> child_stopped_internal \<Rightarrow> absorb_state \<Rightarrow>
   absorb_state" where
  "absorb_deliver gone k child n report a =
     (let prune = (group_member_end (cs_restart_type (ch_spec child)) = PruneAndRemove);
          a1 = absorb_prune gone prune k (a\<lparr>ab_sup := record_down k n OwesNothing (ab_sup a)\<rparr>)
      in a1\<lparr>ab_deliveries := ab_deliveries a1 @ [(absorb_event k child prune (csi_reason report), n)]\<rparr>)"

definition absorb_snapshot ::
  "(token_id \<Rightarrow> bool) \<Rightarrow> actor_id \<Rightarrow> child_state \<Rightarrow> u64 \<Rightarrow> absorb_state \<Rightarrow> absorb_state" where
  "absorb_snapshot gone k child n a =
     (let prune = (group_member_end (cs_restart_type (ch_spec child)) = PruneAndRemove);
          event = absorb_event k child prune (end_reason (ch_ctl child));
          a1 = absorb_prune gone prune k (a\<lparr>ab_sup := record_down k n OwesSnapshot (ab_sup a)\<rparr>)
      in a1\<lparr>ab_sup := (ab_sup a1)\<lparr>ss_pending_manual_events :=
           hput (k, n) event (ss_pending_manual_events (ab_sup a1))\<rparr>\<rparr>)"

definition absorb_one :: "(token_id \<Rightarrow> bool) \<Rightarrow> absorb_state \<Rightarrow> committed \<Rightarrow> absorb_state" where
  "absorb_one gone a entry =
     (case entry of (k, _, action) \<Rightarrow>
        (case sup_child (ab_sup a) k of
           None \<Rightarrow> a
         | Some child \<Rightarrow>
             (case ch_lifecycle child of
                Down n _ \<Rightarrow>
                  let queued = list_position (report_of k n) (ss_queued_triggers (ab_sup a));
                      waiting = list_position (report_of k n) (ab_work a);
                      place = (if queued \<noteq> None then PlaceQueued
                               else if waiting \<noteq> None then PlaceWorklist else PlaceDeathPlane)
                  in (case absorbable place True (Some (ch_lifecycle child)) of
                        AbsorbKeep \<Rightarrow>
                          if ma_restarts action then a\<lparr>ab_sup := rejoin_snapshot k n (ab_sup a)\<rparr> else a
                      | AbsorbDeliver \<Rightarrow>
                          (case (queued, waiting) of
                             (Some i, _) \<Rightarrow>
                               absorb_deliver gone k child n (ss_queued_triggers (ab_sup a) ! i)
                                 (a\<lparr>ab_sup := (ab_sup a)\<lparr>ss_queued_triggers :=
                                    remove_nth i (ss_queued_triggers (ab_sup a))\<rparr>\<rparr>)
                           | (None, Some i) \<Rightarrow>
                               absorb_deliver gone k child n (ab_work a ! i)
                                 (a\<lparr>ab_work := remove_nth i (ab_work a)\<rparr>)
                           | (None, None) \<Rightarrow> a)
                      | AbsorbSnapshot \<Rightarrow> absorb_snapshot gone k child n a)
              | _ \<Rightarrow> a)))"

definition absorb_records :: "(token_id \<Rightarrow> bool) \<Rightarrow> worklist \<Rightarrow> committed list \<Rightarrow> supervision_state \<Rightarrow> absorb_state" where
  "absorb_records gone work commit sv =
     foldl (absorb_one gone) \<lparr>ab_sup = sv, ab_work = work, ab_deliveries = [], ab_removed = []\<rparr> commit"

definition absorb_owed ::
  "sup_env \<Rightarrow> committed list \<Rightarrow> worklist \<Rightarrow> sup_ctx \<Rightarrow> flow \<times> worklist \<times> sup_ctx" where
  "absorb_owed env commit work cx =
     (let a = absorb_records (cx_gone cx) work commit (cx_sup cx)
      in (case drop_removed env (ab_removed a) (cx\<lparr>cx_sup := ab_sup a\<rparr>) of
            (Some e, cx1) \<Rightarrow> (Break (Failure e), ab_work a, owe_deliveries (ab_deliveries a) cx1)
          | (None, cx1) \<Rightarrow>
              (case deliver_absorbed env (ab_deliveries a) cx1 of (fl, cx2) \<Rightarrow> (fl, ab_work a, cx2))))"

section \<open>Chains and retries\<close>

definition run_chain_step :: "worklist \<Rightarrow> sup_ctx \<Rightarrow> worklist \<times> sup_ctx" where
  "run_chain_step work cx =
     (case advance_restart_chain (cx_now cx) (cx_sup cx) work of
        (step, sv, work') \<Rightarrow>
          (work', case step of
             ChainInitiate front \<Rightarrow> initiate_restart front OriginChain (cx\<lparr>cx_sup := sv\<rparr>)
           | _ \<Rightarrow> cx\<lparr>cx_sup := sv\<rparr>))"

definition advance_and_initiate :: "worklist \<Rightarrow> sup_ctx \<Rightarrow> worklist \<times> sup_ctx" where
  "advance_and_initiate work cx = run_chain_step work cx"

definition start_restart_chain :: "chain_start \<Rightarrow> worklist \<Rightarrow> sup_ctx \<Rightarrow> worklist \<times> sup_ctx" where
  "start_restart_chain start work cx =
     run_chain_step work
       (on_sup (set_chain \<lparr>gc_queue = cst_order start, gc_overrides = cst_overrides start, gc_started = [],
                           gc_scope = cst_scope start\<rparr>) cx)"

text \<open>The group's stop phase, or its chain at once when no member has an occupant.\<close>

definition begin_group ::
  "(actor_id \<times> u64) list \<Rightarrow> actor_id list \<Rightarrow> actor_id list \<Rightarrow> (actor_id \<times> u64) list \<Rightarrow> group_scope \<Rightarrow>
   worklist \<Rightarrow> sup_ctx \<Rightarrow> worklist \<times> sup_ctx" where
  "begin_group awaiting stop_queue restart_order overrides scope work cx =
     (if awaiting = []
      then start_restart_chain
        \<lparr>cst_order = restart_order, cst_overrides = overrides, cst_scope = scope\<rparr> work cx
      else (work, on_sup (\<lambda>sv. advance_stop_queue (cx_now cx)
        (set_stopping \<lparr>gr_awaiting = awaiting, gr_stop_queue = stop_queue, gr_head_reached = False,
           gr_restart_order = restart_order, gr_manual_overrides = overrides, gr_scope = scope\<rparr> sv)) cx))"

definition empty_scope :: group_scope where
  "empty_scope = \<lparr>gs_restarted = {}, gs_outside = {}\<rparr>"

definition retry_group ::
  "sup_env \<Rightarrow> child_stopped_internal \<Rightarrow> worklist \<Rightarrow> sup_ctx \<Rightarrow> flow \<times> worklist \<times> sup_ctx" where
  "retry_group env failed work cx =
     (let k = csi_child_id failed;
          sv = cx_sup cx;
          own = (\<lparr>ce_child_id = k, ce_child_name = child_name_of sv k, ce_reason = csi_reason failed,
                  ce_action = RestartInitiated\<rparr>, csi_incarnation failed);
          a = absorb_records (cx_gone cx) work (rp_commit (plan_retry sv k)) sv;
          deliveries = own # ab_deliveries a;
          plan = plan_retry (ab_sup a) k;
          (overrides, scope) = (case ss_pending_group (ab_sup a) of
              Some (GroupRestarting c) \<Rightarrow> (gc_overrides c, gc_scope c)
            | _ \<Rightarrow> ([], empty_scope));
          (awaiting, stop_queue, sv1) = plan_group_stop (rp_commit plan) (ab_sup a);
          (work1, cx1) = begin_group awaiting stop_queue (rp_restart_order plan) overrides scope
            (ab_work a) (cx\<lparr>cx_sup := sv1\<rparr>)
      in (case drop_removed env (ab_removed a) cx1 of
            (Some e, cx2) \<Rightarrow> (Break (Failure e), work1, owe_deliveries deliveries cx2)
          | (None, cx2) \<Rightarrow>
              (case deliver_absorbed env deliveries cx2 of (fl, cx3) \<Rightarrow> (fl, work1, cx3))))"

section \<open>Manual stops that ended\<close>

text \<open>\<open>ActorContext::classify_manual_completion\<close>; the factory it returns is dropped by its caller.\<close>

definition classify_manual_completion ::
  "actor_id \<Rightarrow> u64 \<Rightarrow> manual_stop \<Rightarrow> stop_reason \<Rightarrow> sup_ctx \<Rightarrow> factory option \<times> sup_ctx" where
  "classify_manual_completion k n kind reason cx =
     (let sv = cx_sup cx in
      case sup_child sv k of
        None \<Rightarrow> (None, cx)
      | Some child \<Rightarrow>
          let outcome = classify_manual kind reason (cs_restart_type (ch_spec child)) (is_pool sv)
                (in_restart_set sv k);
              (f, sv1) = (if mo_remove outcome then remove_spec (cx_gone cx) k sv
                          else (None, record_down k n (mo_pending outcome) sv))
          in (case mo_action outcome of
                None \<Rightarrow> (f, cx\<lparr>cx_sup := sv1\<rparr>)
              | Some action \<Rightarrow>
                  let event = \<lparr>ce_child_id = k, ce_child_name = ch_name child, ce_reason = reason,
                               ce_action = action\<rparr>;
                      cx1 = cx\<lparr>cx_sup := sv1\<lparr>ss_pending_manual_events :=
                              hput (k, n) event (ss_pending_manual_events sv1)\<rparr>\<rparr>
                  in (f, if mo_initiate outcome then initiate_restart k OriginBounce cx1 else cx1)))"

section \<open>The worklist\<close>

text \<open>
  One iteration of \<open>handle_worklist\<close>, in the order of its checks: the snapshot of a completed manual stop, a
  manual stop nobody classified, a stale report, and the route of the report.
\<close>

definition take_snapshot :: "child_stopped_internal \<Rightarrow> supervision_state \<Rightarrow> child_event option \<times> supervision_state" where
  "take_snapshot ev sv =
     (let key = (csi_child_id ev, csi_incarnation ev) in
      if (case sup_life sv (csi_child_id ev) of
            Some l \<Rightarrow> report_class_of l (csi_incarnation ev) \<noteq> Stale | None \<Rightarrow> False)
      then (None, sv)
      else (hget (ss_pending_manual_events sv) key,
            sv\<lparr>ss_pending_manual_events := hdel key (ss_pending_manual_events sv)\<rparr>))"

definition clear_snapshot_marker :: "actor_id \<Rightarrow> u64 \<Rightarrow> supervision_state \<Rightarrow> supervision_state" where
  "clear_snapshot_marker k n sv =
     (if sup_life sv k = Some (Down n OwesSnapshot) then record_down k n OwesNothing sv else sv)"

definition handle_snapshot ::
  "sup_env \<Rightarrow> child_stopped_internal \<Rightarrow> child_event \<Rightarrow> worklist \<Rightarrow> sup_ctx \<Rightarrow> flow \<times> worklist \<times> sup_ctx" where
  "handle_snapshot env ev event work cx =
     (let k = csi_child_id ev; n = csi_incarnation ev;
          (settled, sv1) = settle_barrier k n (clear_snapshot_marker k n (cx_sup cx));
          (begin_chain, sv2) = (if settled then advance_group_stop (cx_now cx) sv1 else (None, sv1));
          cx1 = cx\<lparr>cx_sup := sv2\<rparr>;
          (work1, cx2) = (case begin_chain of
              Some start \<Rightarrow> start_restart_chain start work cx1
            | None \<Rightarrow> if chain_front_started sv2 k \<noteq> None then advance_and_initiate work cx1 else (work, cx1));
          (fl, cx3) = deliver_child_event env event cx2
      in (fl, work1, cx3))"

definition uncommitted_manual :: "supervision_state \<Rightarrow> child_stopped_internal \<Rightarrow> manual_stop option" where
  "uncommitted_manual sv ev =
     (case sup_life sv (csi_child_id ev) of
        Some (Stopping n kind) \<Rightarrow> if n = csi_incarnation ev then Some kind else None
      | _ \<Rightarrow> None)"

definition finish_manual ::
  "sup_env \<Rightarrow> child_stopped_internal \<Rightarrow> manual_stop \<Rightarrow> worklist \<Rightarrow> sup_ctx \<Rightarrow> flow \<times> worklist \<times> sup_ctx" where
  "finish_manual env ev kind work cx =
     (case classify_manual_completion (csi_child_id ev) (csi_incarnation ev) kind (csi_reason ev) cx of
        (f, cx1) \<Rightarrow>
          (case drop_removed env (opt_list f) cx1 of
             (Some e, cx2) \<Rightarrow> (Break (Failure e), ev # work, cx2)
           | (None, cx2) \<Rightarrow> (Continue, ev # work, cx2)))"

definition deliver_report ::
  "sup_env \<Rightarrow> child_stopped_internal \<Rightarrow> string option \<Rightarrow> supervision_action \<Rightarrow> factory option \<Rightarrow> worklist \<Rightarrow>
   sup_ctx \<Rightarrow> flow \<times> worklist \<times> sup_ctx" where
  "deliver_report env ev name action removed work cx =
     (case drop_removed env (opt_list removed) cx of
        (Some e, cx1) \<Rightarrow> (Break (Failure e), work, on_sup (sup_owe ev name) cx1)
      | (None, cx1) \<Rightarrow>
          (case deliver_child_event env
             \<lparr>ce_child_id = csi_child_id ev, ce_child_name = name, ce_reason = csi_reason ev,
              ce_action = action\<rparr> cx1 of
             (fl, cx2) \<Rightarrow> (fl, work, cx2)))"

text \<open>The deliveries that end the supervisor with an exhausted budget.\<close>

definition budget_exhausted_flow :: "flow \<times> worklist \<times> sup_ctx \<Rightarrow> flow \<times> worklist \<times> sup_ctx" where
  "budget_exhausted_flow r =
     (case r of
        (Continue, work, cx) \<Rightarrow>
          (Break ParentRequest, work, record_failure (SupervisionErr BudgetExhausted) cx)
      | _ \<Rightarrow> r)"

definition handle_deliver ::
  "sup_env \<Rightarrow> child_stopped_internal \<Rightarrow> supervision_action \<Rightarrow> group_steps \<Rightarrow> worklist \<Rightarrow> sup_ctx \<Rightarrow>
   flow \<times> worklist \<times> sup_ctx" where
  "handle_deliver env ev action steps work cx =
     (let k = csi_child_id ev;
          (work1, cx1) = (case gst_begin_chain steps of
              Some start \<Rightarrow> start_restart_chain start work cx
            | None \<Rightarrow> if gst_advance_chain steps then advance_and_initiate work cx else (work, cx));
          name = child_name_of (cx_sup cx1) k;
          (removed, cx2) = (if gst_manual_override steps then prune_spec_if_needed k cx1 else (None, cx1))
      in deliver_report env ev name (if gst_manual_override steps then Removed else action) removed work1 cx2)"

definition handle_chain_retry ::
  "sup_env \<Rightarrow> child_stopped_internal \<Rightarrow> worklist \<Rightarrow> sup_ctx \<Rightarrow> flow \<times> worklist \<times> sup_ctx" where
  "handle_chain_retry env ev work cx =
     (case check_and_record (cx_now cx) (ss_budget (cx_sup cx)) of
        (ok, budget) \<Rightarrow>
          let cx1 = on_sup (\<lambda>sv. sv\<lparr>ss_budget := budget\<rparr>) cx in
          if ok then retry_group env ev work cx1
          else budget_exhausted_flow (deliver_report env ev (child_name_of (cx_sup cx1) (csi_child_id ev))
                 ActionBudgetExhausted None work cx1))"

definition handle_group ::
  "sup_env \<Rightarrow> child_stopped_internal \<Rightarrow> committed list \<Rightarrow> worklist \<Rightarrow> sup_ctx \<Rightarrow> flow \<times> worklist \<times> sup_ctx" where
  "handle_group env ev commit work cx =
     (case absorb_owed env commit work cx of
        (Break r, work1, cx1) \<Rightarrow>
          (Break r, work1, on_sup (\<lambda>sv. sv\<lparr>ss_owed := ev # ss_owed sv\<rparr>) cx1)
      | (Continue, work1, cx1) \<Rightarrow>
          let restart_order = map fst (filter (\<lambda>(k, n, action). ma_restarts action) commit);
              scope = \<lparr>gs_restarted = {}, gs_outside = first_plan_outside (cx_sup cx1) (csi_child_id ev)\<rparr>;
              (awaiting, stop_queue, sv2) = plan_group_stop commit (cx_sup cx1);
              (work2, cx2) = begin_group awaiting stop_queue restart_order [] scope work1
                (cx1\<lparr>cx_sup := sv2\<rparr>)
          in (Continue, work2, cx2))"

definition handle_evaluate ::
  "sup_env \<Rightarrow> child_stopped_internal \<Rightarrow> worklist \<Rightarrow> sup_ctx \<Rightarrow> flow \<times> worklist \<times> sup_ctx" where
  "handle_evaluate env ev work cx =
     (let k = csi_child_id ev;
          name = child_name_of (cx_sup cx) k;
          (outcome, sv1) = evaluate_strategy (cx_now cx) k (csi_reason ev) (cx_sup cx);
          cx1 = cx\<lparr>cx_sup := sv1\<rparr>
      in (case outcome of
            RestartOne j \<Rightarrow>
              deliver_report env ev name RestartInitiated None work (initiate_restart j OriginStrategy cx1)
          | RestartGroup commit \<Rightarrow>
              (case handle_group env ev commit work cx1 of
                 (Break r, work2, cx2) \<Rightarrow> (Break r, work2, cx2)
               | (Continue, work2, cx2) \<Rightarrow> deliver_report env ev name RestartInitiated None work2 cx2)
          | StrategyRemove \<Rightarrow>
              (case prune_spec_if_needed k cx1 of
                 (removed, cx2) \<Rightarrow> deliver_report env ev name Removed removed work cx2)
          | StrategyBudgetExhausted \<Rightarrow>
              budget_exhausted_flow (deliver_report env ev name ActionBudgetExhausted None work cx1)))"

definition worklist_step ::
  "sup_env \<Rightarrow> child_stopped_internal \<Rightarrow> worklist \<Rightarrow> sup_ctx \<Rightarrow> flow \<times> worklist \<times> sup_ctx" where
  "worklist_step env ev work cx =
     (case take_snapshot ev (cx_sup cx) of
        (Some event, sv1) \<Rightarrow> handle_snapshot env ev event work (cx\<lparr>cx_sup := sv1\<rparr>)
      | (None, sv1) \<Rightarrow>
          (case uncommitted_manual sv1 ev of
             Some kind \<Rightarrow> finish_manual env ev kind work (cx\<lparr>cx_sup := sv1\<rparr>)
           | None \<Rightarrow>
               if (case sup_life sv1 (csi_child_id ev) of
                     Some l \<Rightarrow> report_class_of l (csi_incarnation ev) = Stale | None \<Rightarrow> False)
               then (Continue, work, cx\<lparr>cx_sup := sv1\<rparr>)
               else (case route_report (cx_now cx) ev sv1 of
                       (routed, steps, sv2) \<Rightarrow>
                         let cx2 = cx\<lparr>cx_sup := sv2\<rparr> in
                         (case routed of
                            RoutedQueued \<Rightarrow> (Continue, work, cx2)
                          | RoutedDeliver action \<Rightarrow> handle_deliver env ev action steps work cx2
                          | RoutedChainRetry \<Rightarrow> handle_chain_retry env ev work cx2
                          | RoutedEvaluate \<Rightarrow> handle_evaluate env ev work cx2))))"

fun next_report :: "child_stopped_internal option \<Rightarrow> worklist \<Rightarrow> (child_stopped_internal \<times> worklist) option" where
  "next_report (Some ev) work = Some (ev, work)"
| "next_report None [] = None"
| "next_report None (ev # work) = Some (ev, work)"

text \<open>The loop: not returning is \<open>None\<close>.\<close>

partial_function (option) handle_worklist ::
  "sup_env \<Rightarrow> child_stopped_internal option \<Rightarrow> worklist \<Rightarrow> sup_ctx \<Rightarrow> (flow \<times> worklist \<times> sup_ctx) option" where
  "handle_worklist env first work cx =
     (case next_report first work of
        None \<Rightarrow> Some (Continue, work, cx)
      | Some (ev, rest) \<Rightarrow>
          (case worklist_step env ev rest cx of (fl, work', cx') \<Rightarrow>
             (case fl of
                Break r \<Rightarrow> Some (Break r, work', cx')
              | Continue \<Rightarrow> handle_worklist env None work' cx')))"

definition owe_rest :: "flow \<times> worklist \<times> sup_ctx \<Rightarrow> flow \<times> sup_ctx" where
  "owe_rest r =
     (case r of (fl, work, cx) \<Rightarrow>
        (fl, if fl = Continue then cx else on_sup (\<lambda>sv. sv\<lparr>ss_owed := ss_owed sv @ work\<rparr>) cx))"

definition handle_child_stopped :: "sup_env \<Rightarrow> child_stopped_internal \<Rightarrow> sup_ctx \<Rightarrow> (flow \<times> sup_ctx) option" where
  "handle_child_stopped env ev cx = map_option owe_rest (handle_worklist env (Some ev) [] cx)"

definition handle_released :: "sup_env \<Rightarrow> worklist \<Rightarrow> sup_ctx \<Rightarrow> (flow \<times> sup_ctx) option" where
  "handle_released env released cx = map_option owe_rest (handle_worklist env None released cx)"

section \<open>Outcomes of restart attempts\<close>

definition record_cancelled :: "actor_id \<Rightarrow> u64 \<Rightarrow> supervision_state \<Rightarrow> supervision_state" where
  "record_cancelled k n sv =
     (case sup_life sv k of
        Some (Restarting _ nxt) \<Rightarrow> if nxt = n then record_down k n OwesNothing sv else sv
      | _ \<Rightarrow> sv)"

definition attempt_accepted :: "supervision_state \<Rightarrow> actor_id \<Rightarrow> u64 \<Rightarrow> bool" where
  "attempt_accepted sv k seq = (case sup_life sv k of Some (Restarting _ nxt) \<Rightarrow> nxt = seq | _ \<Rightarrow> False)"

text \<open>The runner of the adopted incarnation, and its ledger entry.\<close>

definition adopt_runner :: "task_id \<Rightarrow> actor_id \<Rightarrow> u64 \<Rightarrow> supervision_state \<Rightarrow> supervision_state" where
  "adopt_runner tid k seq sv =
     (let sv1 = spawn_death tid k seq (RunnerTask k seq) sv;
          sv2 = sv1\<lparr>ss_registry := snd (update_restarted k seq (ss_registry sv1))\<rparr>
      in sup_modify k note_subtree sv2)"

definition adopt_restart :: "sup_env \<Rightarrow> actor_id \<Rightarrow> u64 \<Rightarrow> sup_ctx \<Rightarrow> (flow \<times> sup_ctx) option" where
  "adopt_restart env k seq cx =
     (if \<not> attempt_accepted (cx_sup cx) k seq then Some (Continue, cx)
      else
        let (tid, cx1) = take_task_id cx;
            sv = adopt_runner tid k seq (cx_sup cx1);
            holder = Option.bind (sup_life sv k) occupant
        in (case ss_pending_group sv of
              Some (GroupStopping g) \<Rightarrow>
                if k \<in> set (gr_restart_order g)
                then handle_released env []
                  (cx1\<lparr>cx_sup := (case holder of
                     Some n \<Rightarrow> set_stopping (g\<lparr>gr_awaiting := hput k n (gr_awaiting g)\<rparr>) sv | None \<Rightarrow> sv)\<rparr>)
                else handle_released env [] (cx1\<lparr>cx_sup := sv\<rparr>)
            | Some (GroupRestarting c) \<Rightarrow>
                if gc_queue c \<noteq> [] \<and> hd (gc_queue c) = k
                then (case run_chain_step [] (cx1\<lparr>cx_sup := sv\<rparr>) of
                        (drained, cx2) \<Rightarrow> handle_released env drained cx2)
                else handle_released env [] (cx1\<lparr>cx_sup := sv\<rparr>)
            | None \<Rightarrow> handle_released env [] (cx1\<lparr>cx_sup := sv\<rparr>)))"

definition handle_cancelled ::
  "sup_env \<Rightarrow> actor_id \<Rightarrow> u64 \<Rightarrow> string option \<Rightarrow> sup_ctx \<Rightarrow> (flow \<times> sup_ctx) option" where
  "handle_cancelled env k n drop_panic cx =
     (let (settled, sv1) = settle_barrier k n (record_cancelled k n (cx_sup cx));
          (begin_chain, sv2) = (if settled then advance_group_stop (cx_now cx) sv1 else (None, sv1));
          cx1 = cx\<lparr>cx_sup := sv2\<rparr>;
          (released, cx2) = (case begin_chain of
              Some start \<Rightarrow> start_restart_chain start [] cx1
            | None \<Rightarrow> ([], cx1))
      in (case drop_panic of
            Some p \<Rightarrow>
              Some (Break (Failure (Panic p)),
                    on_sup (\<lambda>sv. sv\<lparr>ss_owed := ss_owed sv @ released\<rparr>) (record_failure (Panic p) cx2))
          | None \<Rightarrow> if begin_chain = None then Some (Continue, cx2) else handle_released env released cx2))"

fun handle_restart_outcome :: "sup_env \<Rightarrow> restart_outcome \<Rightarrow> sup_ctx \<Rightarrow> (flow \<times> sup_ctx) option" where
  "handle_restart_outcome env (Adopted k n) cx = adopt_restart env k n cx"
| "handle_restart_outcome env (OutcomeFailed k n reason) cx =
     handle_child_stopped env \<lparr>csi_child_id = k, csi_reason = reason, csi_incarnation = n\<rparr> cx"
| "handle_restart_outcome env (OutcomeStopped k n reason) cx =
     handle_child_stopped env \<lparr>csi_child_id = k, csi_reason = reason, csi_incarnation = n\<rparr> cx"
| "handle_restart_outcome env (OutcomeCancelled k n drop_panic) cx = handle_cancelled env k n drop_panic cx"
| "handle_restart_outcome env (PredecessorUnresponsive k n) cx =
     (let err = SupervisionErr (ChildUnresponsive k)
      in Some (Break (Failure err), record_failure err (on_sup (record_cancelled k n) cx)))"

section \<open>Verdicts\<close>

definition verdict_entries :: "supervision_state \<Rightarrow> (actor_id \<times> bool) list option" where
  "verdict_entries sv =
     (case ss_pending_group sv of
        None \<Rightarrow> None
      | Some (GroupStopping g) \<Rightarrow>
          Some (rev (List.map_filter (\<lambda>child.
             map_option (\<lambda>n. (ch_id child,
                 case slot_of child n of Some ctl \<Rightarrow> is_unresponsive ctl | None \<Rightarrow> False))
               (hget (gr_awaiting g) (ch_id child)))
             (cr_children (ss_registry sv))))
      | Some (GroupRestarting c) \<Rightarrow>
          (case gc_queue c of
             [] \<Rightarrow> None
           | front # _ \<Rightarrow>
               (case sup_child sv front of
                  None \<Rightarrow> None
                | Some child \<Rightarrow>
                    (case ch_lifecycle child of
                       Restarting _ nxt \<Rightarrow>
                         if hget (gc_started c) front = Some nxt
                         then Some [(front, is_unresponsive (ch_ctl child))] else Some []
                     | _ \<Rightarrow> Some []))))"

definition check_verdicts :: "sup_ctx \<Rightarrow> stop_reason option \<times> sup_ctx" where
  "check_verdicts cx =
     (case Option.bind (verdict_entries (cx_sup cx)) barrier_blocked_only_by_verdicts of
        None \<Rightarrow> (None, cx)
      | Some k \<Rightarrow>
          let err = SupervisionErr (ChildUnresponsive k)
          in (Some (Failure err), record_failure err cx))"

end
