(* ===== verification/Manual_Calls.thy ===== *)
theory Manual_Calls
  imports Group_Restart
begin

text \<open>
  The supervision calls a handler makes on its context (\<open>src/src/actor/context.rs\<close>): \<open>spawn_child\<close>,
  \<open>stop_child\<close> and \<open>terminate_child\<close> (\<open>manual_stop_child\<close>), \<open>restart_child\<close> and \<open>delete_child\<close>.  A manual stop is
  its synchronous commit, up to the point where the call waits on the child's cell, and what it does
  with the outcome of that wait; the caller may drop the call in between.  The factories a call removes are
  returned: the call drops them as its last step.
\<close>

fun manual_reply_result :: "manual_reply \<Rightarrow> actor_id \<Rightarrow> supervision_error + stop_child_outcome" where
  "manual_reply_result ReplyOk k = Inr ChildStopped"
| "manual_reply_result ReplyAbsorbed k = Inr ChildAbsorbed"
| "manual_reply_result ReplyChildNotFound k = Inl (ChildNotFound k)"
| "manual_reply_result ReplyChildRestarting k = Inl (ChildRestarting k)"
| "manual_reply_result ReplyChildRunning k = Inl (ChildRunning k)"

section \<open>Spawning\<close>

definition refuse_spawn :: "actor_id option \<Rightarrow> supervision_state \<Rightarrow> spawn_error option" where
  "refuse_spawn named sv =
     (if ss_final_delivery sv then Some SpawnSupervisorStopping
      else case named of
          Some k \<Rightarrow> if sup_child sv k \<noteq> None then Some (DuplicateChild k) else None
        | None \<Rightarrow> None)"

text \<open>
  A spawn under the id of a removed child waits for the subtree of that child's last incarnation; \<open>action\<close> is the
  step \<open>await_subtree\<close> ended with.
\<close>

definition await_retired_subtree :: "actor_id option \<Rightarrow> sup_ctx \<Rightarrow> (spawn_error + predecessor option) \<times> sup_ctx" where
  "await_retired_subtree named cx =
     (case named of
        None \<Rightarrow> (Inr None, cx)
      | Some k \<Rightarrow>
          (case refuse_spawn (Some k) (cx_sup cx) of
             Some e \<Rightarrow> (Inl e, cx)
           | None \<Rightarrow>
               (case retired_subtree (cx_gone cx) k (cx_sup cx) of
                  (p, sv) \<Rightarrow> (Inr p, cx\<lparr>cx_sup := sv\<rparr>))))"

definition retired_subtree_waited :: "actor_id \<Rightarrow> wait_action \<Rightarrow> spawn_error option" where
  "retired_subtree_waited k action = (if action = WaitEscalate then Some (SpawnChildUnresponsive k) else None)"

text \<open>
  \<open>spawn_child_internal\<close>: \<open>k\<close> is the child's id, its name or a fresh one; \<open>spawned\<close> is what \<open>spawn_actor_in\<close> gave,
  an error or the new incarnation's lane, status plane and subtree.
\<close>

definition spawn_child_internal ::
  "actor_id \<Rightarrow> string option \<Rightarrow> child_spec \<Rightarrow> factory \<Rightarrow>
   (spawn_error + lane_cell \<times> status_cell \<times> token_id) \<Rightarrow> sup_ctx \<Rightarrow> (spawn_error + u64) \<times> sup_ctx" where
  "spawn_child_internal k name spec f spawned cx =
     (case refuse_spawn (if name = None then None else Some k) (cx_sup cx) of
        Some e \<Rightarrow> (Inl e, cx)
      | None \<Rightarrow>
          (case spawned of
             Inl e \<Rightarrow> (Inl e, cx)
           | Inr (lane, status, subtree) \<Rightarrow>
               let (n, cx1) = next_incarnation cx;
                   own = \<lparr>os_is_supervisor = cs_is_supervisor spec, os_shutdown = cs_shutdown spec,
                          os_kill_grace = cs_kill_grace spec\<rparr>;
                   ctl = publish lane status own (Some subtree) (slot_pair_for (Some (k, n)));
                   (tid, cx2) = take_task_id cx1;
                   sv1 = spawn_death tid k n (RunnerTask k n) (cx_sup cx2);
                   child = \<lparr>ch_id = k, ch_name = name, ch_spec = spec, ch_ctl = ctl,
                            ch_lifecycle = Running n, ch_origin = OriginInitial,
                            ch_predecessor = Some (slot_predecessor ctl subtree)\<rparr>;
                   sv2 = sv1\<lparr>ss_registry := registry_register child (ss_registry sv1),
                             ss_restart_fns := hput k f (ss_restart_fns sv1)\<rparr>
               in (Inr n, cx2\<lparr>cx_sup := sv2\<rparr>)))"

section \<open>Manual stops\<close>

definition finish_manual_stop ::
  "actor_id \<Rightarrow> u64 \<Rightarrow> manual_stop \<Rightarrow> stop_reason \<Rightarrow> sup_ctx \<Rightarrow> factory option \<times> sup_ctx" where
  "finish_manual_stop k n kind reason cx =
     (case sup_life (cx_sup cx) k of
        Some (Stopping m in_flight) \<Rightarrow>
          if m = n then classify_manual_completion k n in_flight reason cx else (None, cx)
      | Some (Running m) \<Rightarrow>
          if m = n then classify_manual_completion k n kind reason cx else (None, cx)
      | _ \<Rightarrow> (None, cx))"

datatype manual_stage =
    ManualReturned "supervision_error + stop_child_outcome \<times> manual_stop" "factory list"
  | ManualJoining u64 manual_stop "factory list"

definition on_child_ctl :: "actor_id \<Rightarrow> (slot \<Rightarrow> slot) \<Rightarrow> sup_ctx \<Rightarrow> sup_ctx" where
  "on_child_ctl k f cx = on_sup (sup_modify k (\<lambda>c. c\<lparr>ch_ctl := f (ch_ctl c)\<rparr>)) cx"

definition child_raise_first :: "actor_id \<Rightarrow> shutdown \<Rightarrow> supervision_state \<Rightarrow> bool" where
  "child_raise_first k policy sv =
     (case sup_child sv k of Some c \<Rightarrow> fst (raise_first policy (ch_ctl c)) | None \<Rightarrow> False)"

text \<open>The effects of a commit, in order, up to the one that ends the call or starts its wait.\<close>

fun run_effects ::
  "actor_id \<Rightarrow> u64 \<Rightarrow> manual_stop \<Rightarrow> shutdown \<Rightarrow> bool \<Rightarrow> factory list \<Rightarrow> commit_effect list \<Rightarrow> sup_ctx \<Rightarrow>
   manual_stage \<times> sup_ctx" where
  "run_effects k n kind policy raised removed [] cx =
     (ManualReturned (Inr (ChildStopped, kind)) removed, cx)"
| "run_effects k n kind policy raised removed (RaiseFirst # es) cx =
     run_effects k n kind policy (child_raise_first k policy (cx_sup cx)) removed es
       (on_child_ctl k (\<lambda>s. snd (raise_first policy s)) cx)"
| "run_effects k n kind policy raised removed (WriteOrder # es) cx =
     run_effects k n kind policy raised removed es
       (on_child_ctl k (write_order (cx_now cx) policy raised) cx)"
| "run_effects k n kind policy raised removed (RecordOverride # es) cx =
     run_effects k n kind policy raised removed es (on_sup (sup_record_override k) cx)"
| "run_effects k n kind policy raised removed (LeaveRestartOrder # es) cx =
     run_effects k n kind policy raised removed es (on_sup (leave_restart_set k) cx)"
| "run_effects k n kind policy raised removed (Reask # es) cx =
     run_effects k n kind policy raised removed es (on_child_ctl k ask_again cx)"
| "run_effects k n kind policy raised removed (ReaskOnce # es) cx =
     run_effects k n kind policy raised removed es (on_child_ctl k ask_and_mark cx)"
| "run_effects k n kind policy raised removed (Dismiss # es) cx =
     (case dismiss_owed_evaluation (cx_gone cx) k (cx_sup cx) of
        (f, sv) \<Rightarrow> run_effects k n kind policy raised (removed @ opt_list f) es (cx\<lparr>cx_sup := sv\<rparr>))"
| "run_effects k n kind policy raised removed (RewriteSnapshot # es) cx =
     run_effects k n kind policy raised removed es (on_sup (rewrite_restart_snapshot k) cx)"
| "run_effects k n kind policy raised removed (Classify # es) cx =
     (case sup_child (cx_sup cx) k of
        None \<Rightarrow> run_effects k n kind policy raised removed es cx
      | Some child \<Rightarrow>
          (case finish_manual_stop k n kind (end_reason (ch_ctl child)) cx of
             (f, cx1) \<Rightarrow> run_effects k n kind policy raised (removed @ opt_list f) es cx1))"
| "run_effects k n kind policy raised removed (Join # es) cx = (ManualJoining n kind removed, cx)"
| "run_effects k n kind policy raised removed (Answer reply # es) cx =
     (ManualReturned (case manual_reply_result reply k of
         Inl e \<Rightarrow> Inl e | Inr out \<Rightarrow> Inr (out, kind)) removed, cx)"

definition manual_stop_commit :: "actor_id \<Rightarrow> manual_stop \<Rightarrow> sup_ctx \<Rightarrow> manual_stage \<times> sup_ctx" where
  "manual_stop_commit k kind0 cx =
     (if ss_final_delivery (cx_sup cx) then (ManualReturned (Inl SupSupervisorStopping) [], cx)
      else
        let facts = sup_manual_facts (cx_sup cx) k;
            n = (case Option.bind (mf_life facts) occupant of Some m \<Rightarrow> m | None \<Rightarrow> 0);
            commit = manual_commit kind0 facts;
            kind = effective_kind kind0 facts;
            cx1 = (case cm_to commit of
                None \<Rightarrow> cx
              | Some to' \<Rightarrow> on_sup (sup_modify k (\<lambda>c. snd (child_transition to' c))) cx)
        in run_effects k n kind (mf_policy facts) False [] (cm_effects commit) cx1)"

text \<open>What the call does once the cell it waits on resolved.\<close>

fun manual_stop_joined ::
  "actor_id \<Rightarrow> manual_stage \<Rightarrow> cell_outcome \<Rightarrow> sup_ctx \<Rightarrow>
   ((supervision_error + stop_child_outcome \<times> manual_stop) \<times> factory list) \<times> sup_ctx" where
  "manual_stop_joined k (ManualReturned r removed) out cx = ((r, removed), cx)"
| "manual_stop_joined k (ManualJoining n kind removed) (CellFate fate) cx =
     (case finish_manual_stop k n kind (cf_reason fate) cx of
        (f, cx1) \<Rightarrow> ((Inr (ChildStopped, kind), removed @ opt_list f), cx1))"
| "manual_stop_joined k (ManualJoining n kind removed) CellUnresponsive cx =
     ((Inl (ChildUnresponsive k), removed), cx)"
| "manual_stop_joined k (ManualJoining n kind removed) _ cx = ((Inr (ChildStopped, kind), removed), cx)"

text \<open>
  A call handled as a \<open>terminate_child\<close> then waits for the child's subtree: the predecessor it waits on, if any
  is left, and the answer by the step \<open>await_subtree\<close> ended with.  \<open>decided\<close> is the result of the commit and the wait.
\<close>

definition await_child_subtree :: "actor_id \<Rightarrow> sup_ctx \<Rightarrow> predecessor option \<times> sup_ctx" where
  "await_child_subtree k cx =
     (case predecessor_of (cx_gone cx) k (cx_sup cx) of
        (None, sv) \<Rightarrow> (None, cx\<lparr>cx_sup := sv\<rparr>)
      | (Some p, sv) \<Rightarrow>
          (if successor_wait_step (cx_gone cx (pd_subtree p)) False False = WaitProceed then None else Some p,
           cx\<lparr>cx_sup := sv\<rparr>))"

definition manual_stop_child ::
  "actor_id \<Rightarrow> supervision_error + stop_child_outcome \<times> manual_stop \<Rightarrow> wait_action \<Rightarrow> sup_ctx \<Rightarrow>
   (supervision_error + stop_child_outcome) \<times> sup_ctx" where
  "manual_stop_child k decided action cx =
     (case decided of
        Inl e \<Rightarrow> (Inl e, cx)
      | Inr (out, effective) \<Rightarrow>
          if effective \<noteq> Terminate then (Inr out, cx)
          else (case await_child_subtree k cx of
                  (None, cx1) \<Rightarrow> (Inr out, cx1)
                | (Some _, cx1) \<Rightarrow>
                    (if action = WaitEscalate then Inl (ChildUnresponsive k) else Inr out, cx1)))"

section \<open>Restarting and deleting\<close>

definition restart_child :: "actor_id \<Rightarrow> sup_ctx \<Rightarrow> supervision_error option \<times> sup_ctx" where
  "restart_child k cx =
     (if ss_final_delivery (cx_sup cx) then (Some SupSupervisorStopping, cx)
      else
        let (seq, cx1) = next_incarnation cx in
        (case manual_reply_result (sup_manual_answer RestartChild (cx_sup cx1) k) k of
           Inl e \<Rightarrow> (Some e, cx1)
         | Inr _ \<Rightarrow>
             (case take_task_id cx1 of
                (tid, cx2) \<Rightarrow> (None, on_sup (\<lambda>sv. snd (initiate tid k seq OriginManual sv)) cx2))))"

definition delete_child :: "actor_id \<Rightarrow> sup_ctx \<Rightarrow> supervision_error option \<times> factory option \<times> sup_ctx" where
  "delete_child k cx =
     (if ss_final_delivery (cx_sup cx) then (Some SupSupervisorStopping, None, cx)
      else (case manual_reply_result (sup_manual_answer DeleteChild (cx_sup cx) k) k of
              Inl e \<Rightarrow> (Some e, None, cx)
            | Inr _ \<Rightarrow>
                (case remove_spec (cx_gone cx) k (cx_sup cx) of
                   (f, sv) \<Rightarrow> (None, f, cx\<lparr>cx_sup := sv\<rparr>))))"

end
