(* ===== verification/Supervisor_Inv.thy ===== *)
theory Supervisor_Inv
  imports Manual_Calls
begin

text \<open>
  The invariant of a supervisor's state, and that every operation on the state keeps it.  It says that the
  registry is indexed by its children's ids; that exactly the registered children have a restart factory;
  that what a pending group restart holds by id (releases, starts, scope) names registered children only and
  its orders hold no child twice; and that the owner table gives every task it lists the incarnation the task
  of that join set follows.
\<close>

section \<open>The invariant\<close>

definition sup_ids :: "supervision_state \<Rightarrow> actor_id set" where
  "sup_ids sv = set (all_ids (ss_registry sv))"

definition scope_ok :: "actor_id set \<Rightarrow> group_scope \<Rightarrow> bool" where
  "scope_ok K s \<longleftrightarrow> gs_restarted s \<subseteq> K \<and> gs_outside s \<subseteq> K"

definition keys_in :: "actor_id set \<Rightarrow> (actor_id \<times> 'v) list \<Rightarrow> bool" where
  "keys_in K m \<longleftrightarrow> (\<forall>k. has_key m k \<longrightarrow> k \<in> K)"

fun group_ok :: "actor_id set \<Rightarrow> group_phase \<Rightarrow> bool" where
  "group_ok K (GroupStopping g) =
     (distinct (gr_stop_queue g) \<and> distinct (gr_restart_order g) \<and> keys_in K (gr_manual_overrides g) \<and>
      scope_ok K (gr_scope g))"
| "group_ok K (GroupRestarting c) =
     (distinct (gc_queue c) \<and> keys_in K (gc_overrides c) \<and> keys_in K (gc_started c) \<and>
      scope_ok K (gc_scope c))"

fun death_key :: "death_task \<Rightarrow> actor_id \<times> u64" where
  "death_key (RunnerTask k n) = (k, n)"
| "death_key (LostEndTask k n) = (k, n)"
| "death_key (ReportTask k r n) = (k, n)"

definition restart_key :: "restart_task \<Rightarrow> actor_id \<times> u64" where
  "restart_key r = (rt_child r, rt_seq r)"

fun task_key ::
  "(task_id \<times> death_task) list \<Rightarrow> (task_id \<times> restart_task) list \<Rightarrow> task_plane \<Rightarrow> task_id \<Rightarrow>
   (actor_id \<times> u64) option" where
  "task_key death restart PlaneDeath t = map_option death_key (hget death t)"
| "task_key death restart PlaneRestart t = map_option restart_key (hget restart t)"

definition owner_table_ok ::
  "(task_id \<times> death_task) list \<Rightarrow> (task_id \<times> restart_task) list \<Rightarrow>
   (task_id \<times> actor_id \<times> u64 \<times> task_plane) list \<Rightarrow> bool" where
  "owner_table_ok death restart owner \<longleftrightarrow> distinct (map fst owner) \<and>
     (\<forall>t k n plane. hget owner t = Some (k, n, plane) \<longrightarrow> task_key death restart plane t = Some (k, n))"

abbreviation owners_ok :: "supervision_state \<Rightarrow> bool" where
  "owners_ok sv \<equiv> owner_table_ok (ss_death_set sv) (ss_restart_set sv) (ss_task_owner sv)"

definition sup_inv :: "supervision_state \<Rightarrow> bool" where
  "sup_inv sv \<longleftrightarrow> registry_ok (ss_registry sv) \<and>
     (\<forall>k. has_key (ss_restart_fns sv) k \<longleftrightarrow> k \<in> sup_ids sv) \<and>
     (\<forall>g. ss_pending_group sv = Some g \<longrightarrow> group_ok (sup_ids sv) g) \<and>
     owners_ok sv"

named_theorems sup_frame \<open>operations that leave the supervisor's invariant as it was\<close>
named_theorems sup_intros \<open>operations that keep the supervisor's invariant\<close>

section \<open>Parts\<close>

lemma owner_table_put:
  assumes "owner_table_ok d r ow" "task_key d' r' plane tid = Some (k, n)"
    and "\<And>p t. t \<noteq> tid \<Longrightarrow> task_key d' r' p t = task_key d r p t"
  shows "owner_table_ok d' r' (hput tid (k, n, plane) ow)"
  using assms unfolding owner_table_ok_def by (simp add: distinct_update hget_hput)

lemma owner_table_del:
  assumes "owner_table_ok d r ow" "\<And>p t. t \<noteq> tid \<Longrightarrow> task_key d' r' p t = task_key d r p t"
  shows "owner_table_ok d' r' (hdel tid ow)"
  using assms unfolding owner_table_ok_def by (simp add: distinct_delete hget_hdel)

lemma task_key_other [simp]:
  "t \<noteq> tid \<Longrightarrow> task_key (hput tid x d) r p t = task_key d r p t"
  "t \<noteq> tid \<Longrightarrow> task_key d (hput tid y r) p t = task_key d r p t"
  "t \<noteq> tid \<Longrightarrow> task_key (hdel tid d) r p t = task_key d r p t"
  "t \<noteq> tid \<Longrightarrow> task_key d (hdel tid r) p t = task_key d r p t"
  by (cases p; simp add: hget_hput hget_hdel)+

lemma keys_in_Nil [simp]: "keys_in K []"
  by (simp add: keys_in_def)

lemma keys_in_hput: "keys_in K m \<Longrightarrow> k \<in> K \<Longrightarrow> keys_in K (hput k v m)"
  by (auto simp: keys_in_def)

lemma keys_in_hdel: "keys_in K m \<Longrightarrow> keys_in (K - {k}) (hdel k m)"
  by (auto simp: keys_in_def)

lemma scope_ok_without: "scope_ok K s \<Longrightarrow> scope_ok (K - {k}) (scope_without k s)"
  by (auto simp: scope_ok_def scope_without_def)

lemma group_ok_without: "group_ok K g \<Longrightarrow> group_ok (K - {k}) (group_without k g)"
  by (cases g) (simp_all add: keys_in_hdel scope_ok_without)

lemma group_ok_leave: "group_ok K g \<Longrightarrow> group_ok K (group_leave k g)"
  by (cases g) simp_all

lemma group_ok_mono: "group_ok K g \<Longrightarrow> K \<subseteq> L \<Longrightarrow> group_ok L g"
  by (cases g) (auto simp: keys_in_def scope_ok_def)

lemma sup_inv_new: "sup_inv (supervision_state_new config)"
  by (simp add: sup_inv_def supervision_state_new_def sup_ids_def registry_ok_new owner_table_ok_def)
    (simp add: registry_new_def all_ids_def)

lemma sup_inv_frames [sup_frame]:
  "sup_inv (sv\<lparr>ss_queued_triggers := a\<rparr>) = sup_inv sv"
  "sup_inv (sv\<lparr>ss_pending_manual_events := b\<rparr>) = sup_inv sv"
  "sup_inv (sv\<lparr>ss_owed := c\<rparr>) = sup_inv sv"
  "sup_inv (sv\<lparr>ss_owed_names := d\<rparr>) = sup_inv sv"
  "sup_inv (sv\<lparr>ss_retired := e\<rparr>) = sup_inv sv"
  "sup_inv (sv\<lparr>ss_budget := f\<rparr>) = sup_inv sv"
  "sup_inv (sv\<lparr>ss_final_delivery := h\<rparr>) = sup_inv sv"
  by (simp_all add: sup_inv_def sup_ids_def)

lemma sup_inv_group:
  assumes "sup_inv sv" "\<And>g. p = Some g \<Longrightarrow> group_ok (sup_ids sv) g"
  shows "sup_inv (sv\<lparr>ss_pending_group := p\<rparr>)"
  using assms by (auto simp: sup_inv_def sup_ids_def)

lemma sup_inv_groupD: "sup_inv sv \<Longrightarrow> ss_pending_group sv = Some g \<Longrightarrow> group_ok (sup_ids sv) g"
  by (simp add: sup_inv_def)

lemma sup_inv_registry: "sup_inv sv \<Longrightarrow> registry_ok (ss_registry sv)"
  by (simp add: sup_inv_def)

lemma sup_inv_child: "sup_inv sv \<Longrightarrow> sup_child sv k = Some c \<Longrightarrow> k \<in> sup_ids sv"
  using registry_get_iff [of "ss_registry sv" k] by (simp add: sup_inv_def sup_ids_def)

lemma sup_inv_factory: "sup_inv sv \<Longrightarrow> sup_child sv k = Some c \<Longrightarrow> \<exists>f. hget (ss_restart_fns sv) k = Some f"
  using sup_inv_child [of sv k c] by (auto simp: sup_inv_def has_key_def)

section \<open>Writes to a child\<close>

lemma sup_ids_modify: "sup_inv sv \<Longrightarrow> keeps_key f \<Longrightarrow> sup_ids (sup_modify k f sv) = sup_ids sv"
  by (simp add: sup_ids_def sup_modify_def all_ids_modify sup_inv_registry)

lemma sup_inv_modify [sup_intros]: "sup_inv sv \<Longrightarrow> keeps_key f \<Longrightarrow> sup_inv (sup_modify k f sv)"
  unfolding sup_inv_def
  by (auto simp: sup_modify_def registry_ok_modify sup_ids_def all_ids_modify)

lemma sup_child_modify:
  "sup_inv sv \<Longrightarrow> keeps_key f \<Longrightarrow>
   sup_child (sup_modify k f sv) j = (if j = k then map_option f (sup_child sv k) else sup_child sv j)"
  by (simp add: sup_modify_def registry_get_modify sup_inv_registry)

lemma sup_modify_fields [frame_simps]:
  "ss_pending_group (sup_modify k f sv) = ss_pending_group sv"
  "ss_queued_triggers (sup_modify k f sv) = ss_queued_triggers sv"
  "ss_pending_manual_events (sup_modify k f sv) = ss_pending_manual_events sv"
  "ss_restart_fns (sup_modify k f sv) = ss_restart_fns sv"
  "ss_task_owner (sup_modify k f sv) = ss_task_owner sv"
  "ss_death_set (sup_modify k f sv) = ss_death_set sv"
  "ss_restart_set (sup_modify k f sv) = ss_restart_set sv"
  "ss_config (sup_modify k f sv) = ss_config sv"
  "ss_budget (sup_modify k f sv) = ss_budget sv"
  "ss_owed (sup_modify k f sv) = ss_owed sv"
  "ss_final_delivery (sup_modify k f sv) = ss_final_delivery sv"
  by (simp_all add: sup_modify_def)

lemma keeps_key_ctl [simp]: "keeps_key (\<lambda>c. c\<lparr>ch_ctl := g c\<rparr>)"
  by (simp add: keeps_key_def)

lemma keeps_key_effect [simp]: "keeps_key (queue_effect now step)"
  unfolding keeps_key_def
  by (intro allI) (cases step; simp add: Let_def)

lemma sup_inv_record_down [sup_intros]: "sup_inv sv \<Longrightarrow> sup_inv (record_down k n p sv)"
  by (simp add: record_down_def sup_inv_modify)

section \<open>Operations of the state\<close>

lemma sup_inv_prune_retired [sup_frame]: "sup_inv (prune_retired gone sv) = sup_inv sv"
  by (simp add: prune_retired_def sup_frame)

lemma sup_inv_retired_subtree [sup_intros]: "sup_inv sv \<Longrightarrow> sup_inv (snd (retired_subtree gone k sv))"
  by (simp add: retired_subtree_def sup_frame Let_def)

lemma sup_inv_predecessor_of [sup_intros]: "sup_inv sv \<Longrightarrow> sup_inv (snd (predecessor_of gone k sv))"
  by (simp add: predecessor_of_def sup_inv_retired_subtree split: option.splits)

lemma sup_inv_owe [sup_intros]: "sup_inv sv \<Longrightarrow> sup_inv (sup_owe report name sv)"
  by (simp add: sup_owe_def Let_def sup_frame split: option.splits)

lemma remove_spec_fields:
  assumes "sup_inv sv"
  shows "all_ids (ss_registry (snd (remove_spec gone k sv))) = filter (\<lambda>j. j \<noteq> k) (all_ids (ss_registry sv))"
    and "ss_registry (snd (remove_spec gone k sv)) = snd (registry_remove k (ss_registry sv))"
    and "ss_restart_fns (snd (remove_spec gone k sv)) = hdel k (ss_restart_fns sv)"
    and "ss_pending_group (snd (remove_spec gone k sv)) = map_option (group_without k) (ss_pending_group sv)"
    and "ss_task_owner (snd (remove_spec gone k sv)) = ss_task_owner sv"
    and "ss_death_set (snd (remove_spec gone k sv)) = ss_death_set sv"
    and "ss_restart_set (snd (remove_spec gone k sv)) = ss_restart_set sv"
    and "ss_queued_triggers (snd (remove_spec gone k sv)) = ss_queued_triggers sv"
    and "fst (remove_spec gone k sv) = hget (ss_restart_fns sv) k"
proof -
  show reg: "ss_registry (snd (remove_spec gone k sv)) = snd (registry_remove k (ss_registry sv))"
    by (simp add: remove_spec_def prune_retired_def Let_def split: prod.splits option.splits)
  show "all_ids (ss_registry (snd (remove_spec gone k sv))) = filter (\<lambda>j. j \<noteq> k) (all_ids (ss_registry sv))"
    unfolding reg using registry_remove_children(2) [OF sup_inv_registry [OF assms], of k]
    by (simp add: all_ids_def filter_map o_def)
qed (simp_all add: remove_spec_def prune_retired_def Let_def split: prod.splits option.splits)

lemma sup_ids_remove_spec: "sup_inv sv \<Longrightarrow> sup_ids (snd (remove_spec gone k sv)) = sup_ids sv - {k}"
  by (auto simp: sup_ids_def remove_spec_fields(1))

lemma sup_inv_remove_spec [sup_intros]:
  assumes "sup_inv sv"
  shows "sup_inv (snd (remove_spec gone k sv))"
  using assms unfolding sup_inv_def sup_ids_remove_spec [OF assms]
  by (auto simp: remove_spec_fields [OF assms] registry_ok_remove group_ok_without)

lemma sup_inv_record_override [sup_intros]:
  assumes "sup_inv sv"
  shows "sup_inv (sup_record_override k sv)"
proof (cases "sup_life sv k")
  case (Some l)
  then have "k \<in> sup_ids sv"
    using assms by (auto simp: sup_life_def dest: sup_inv_child)
  then show ?thesis
    using assms Some
    by (auto simp: sup_record_override_def Let_def keys_in_hput dest: sup_inv_groupD
        intro!: sup_inv_group split: option.splits group_phase.splits)
qed (use assms in \<open>simp add: sup_record_override_def\<close>)

lemma sup_inv_leave [sup_intros]: "sup_inv sv \<Longrightarrow> sup_inv (leave_restart_set k sv)"
  by (auto simp: leave_restart_set_def group_ok_leave dest: sup_inv_groupD intro!: sup_inv_group)

lemma sup_inv_dismiss [sup_intros]:
  "sup_inv sv \<Longrightarrow> sup_inv (snd (dismiss_owed_evaluation gone k sv))"
  by (simp add: dismiss_owed_evaluation_def Let_def sup_inv_remove_spec sup_inv_modify sup_frame
      split: option.splits child_lifecycle.splits down_pending.splits)

lemma sup_inv_rewrite [sup_intros]: "sup_inv sv \<Longrightarrow> sup_inv (rewrite_restart_snapshot k sv)"
  by (simp add: rewrite_restart_snapshot_def sup_frame split: option.splits)

lemma sup_inv_spawn_death [sup_intros]:
  assumes "sup_inv sv" "death_key task = (k, n)"
  shows "sup_inv (spawn_death tid k n task sv)"
proof -
  have "owners_ok (spawn_death tid k n task sv)"
    using assms owner_table_put [of "ss_death_set sv" "ss_restart_set sv" "ss_task_owner sv"
        "hput tid task (ss_death_set sv)" "ss_restart_set sv" PlaneDeath tid k n]
    by (simp add: spawn_death_def sup_inv_def hget_hput)
  with assms(1) show ?thesis
    by (simp add: sup_inv_def spawn_death_def sup_ids_def)
qed

lemma initiate_cases:
  assumes "sup_inv sv"
  obtains (Refused) "initiate tid k seq origin sv = (False, sv)"
  | (Started) child n p f where
      "sup_child sv k = Some child" "ch_lifecycle child = Down n p" "n < seq"
      "hget (ss_restart_fns sv) k = Some f"
      "initiate tid k seq origin sv =
        (True, note_chain_start k seq origin
          ((sup_modify k (\<lambda>c. c\<lparr>ch_lifecycle := Restarting n seq, ch_ctl := slot_pair_for (Some (k, seq)),
               ch_origin := origin\<rparr>) sv)
           \<lparr>ss_restart_set := hput tid \<lparr>rt_factory = f, rt_child = k, rt_seq = seq,
               rt_predecessor = ch_predecessor child\<rparr> (ss_restart_set sv),
            ss_task_owner := hput tid (k, seq, PlaneRestart) (ss_task_owner sv)\<rparr>))"
proof (cases "sup_child sv k")
  case None
  then show ?thesis by (intro Refused) (simp add: initiate_def)
next
  case (Some child)
  obtain f where f: "hget (ss_restart_fns sv) k = Some f"
    using sup_inv_factory [OF assms Some] by blast
  show ?thesis
  proof (cases "\<exists>n p. ch_lifecycle child = Down n p \<and> n < seq")
    case True
    then obtain n p where life: "ch_lifecycle child = Down n p" "n < seq" by blast
    have "sup_modify k (\<lambda>_. child\<lparr>ch_lifecycle := Restarting n seq, ch_ctl := slot_pair_for (Some (k, seq)),
        ch_origin := origin\<rparr>) sv =
      sup_modify k (\<lambda>c. c\<lparr>ch_lifecycle := Restarting n seq, ch_ctl := slot_pair_for (Some (k, seq)),
        ch_origin := origin\<rparr>) sv"
      using Some by (auto simp: sup_modify_def registry_modify_def registry_get_def split: option.splits)
    with life Some f show ?thesis
      by (intro Started) (simp_all add: initiate_def child_transition_def transition_life_def
          frame_simps Let_def)
  next
    case False
    with Some show ?thesis
      by (intro Refused) (auto simp: initiate_def child_transition_def transition_life_def
          split: child_lifecycle.splits)
  qed
qed

lemma keeps_key_start [simp]:
  "keeps_key (\<lambda>c. c\<lparr>ch_lifecycle := l, ch_ctl := s, ch_origin := origin\<rparr>)"
  by (simp add: keeps_key_def)

lemma sup_inv_note_chain_start [sup_intros]:
  "sup_inv sv \<Longrightarrow> k \<in> sup_ids sv \<Longrightarrow> sup_inv (note_chain_start k seq origin sv)"
  by (auto simp: note_chain_start_def keys_in_hput dest: sup_inv_groupD intro!: sup_inv_group
      split: origin.splits option.splits group_phase.splits)

lemma sup_inv_restart_tasks:
  assumes "sup_inv sv" "owner_table_ok (ss_death_set sv) r ow"
  shows "sup_inv (sv\<lparr>ss_restart_set := r, ss_task_owner := ow\<rparr>)"
  using assms by (simp add: sup_inv_def sup_ids_def)

lemma sup_inv_death_tasks:
  assumes "sup_inv sv" "owner_table_ok d (ss_restart_set sv) ow"
  shows "sup_inv (sv\<lparr>ss_death_set := d, ss_task_owner := ow\<rparr>)"
  using assms by (simp add: sup_inv_def sup_ids_def)

lemma sup_inv_disown [sup_intros]: "sup_inv sv \<Longrightarrow> sup_inv (sv\<lparr>ss_task_owner := hdel t (ss_task_owner sv)\<rparr>)"
  by (simp add: sup_inv_def sup_ids_def owner_table_del [of "ss_death_set sv" "ss_restart_set sv"])

lemma sup_inv_initiate [sup_intros]:
  assumes "sup_inv sv"
  shows "sup_inv (snd (initiate tid k seq origin sv))"
  using assms
proof (cases rule: initiate_cases [where tid = tid and k = k and seq = seq and origin = origin])
  case Refused
  with assms show ?thesis by simp
next
  case (Started child n p f)
  let ?sv = "sup_modify k (\<lambda>c. c\<lparr>ch_lifecycle := Restarting n seq, ch_ctl := slot_pair_for (Some (k, seq)),
    ch_origin := origin\<rparr>) sv"
  have inv: "sup_inv ?sv"
    using assms by (simp add: sup_inv_modify)
  have "k \<in> sup_ids ?sv"
    using sup_inv_child [OF assms Started(1)] assms by (simp add: sup_ids_modify)
  moreover have "owner_table_ok (ss_death_set ?sv) (hput tid \<lparr>rt_factory = f, rt_child = k, rt_seq = seq,
      rt_predecessor = ch_predecessor child\<rparr> (ss_restart_set ?sv))
      (hput tid (k, seq, PlaneRestart) (ss_task_owner ?sv))"
    using inv by (intro owner_table_put [of "ss_death_set ?sv" "ss_restart_set ?sv"])
      (simp_all add: sup_inv_def hget_hput restart_key_def)
  note sup_inv_restart_tasks [OF inv this]
  ultimately show ?thesis
    unfolding Started(5) snd_conv
    by (intro sup_inv_note_chain_start) (simp_all add: frame_simps sup_ids_def)
qed

lemma sup_inv_lost_death_task [sup_intros]:
  "sup_inv sv \<Longrightarrow> sup_inv (snd (snd (lost_death_task tid failed payload sv)))"
  by (auto simp: lost_death_task_def Let_def intro!: sup_intros split: option.splits)

lemma sup_inv_lost_restart_task [sup_intros]:
  "sup_inv sv \<Longrightarrow> sup_inv (snd (snd (snd (lost_restart_task tid failed payload sv))))"
  by (auto simp: lost_restart_task_def Let_def intro!: sup_intros split: option.splits)

lemma sup_inv_evaluate_strategy [sup_intros]:
  "sup_inv sv \<Longrightarrow> sup_inv (snd (evaluate_strategy now failed reason sv))"
  by (auto simp: evaluate_strategy_def Let_def sup_frame split: option.splits prod.splits)

section \<open>The chain and the stop queue\<close>

lemma sup_inv_set_chain:
  "sup_inv sv \<Longrightarrow> group_ok (sup_ids sv) (GroupRestarting c) \<Longrightarrow> sup_inv (set_chain c sv)"
  unfolding set_chain_def by (rule sup_inv_group) auto

lemma sup_inv_set_stopping:
  "sup_inv sv \<Longrightarrow> group_ok (sup_ids sv) (GroupStopping g) \<Longrightarrow> sup_inv (set_stopping g sv)"
  unfolding set_stopping_def by (rule sup_inv_group) auto

lemma sup_ids_frames [frame_simps]:
  "sup_ids (set_chain c sv) = sup_ids sv"
  "sup_ids (set_stopping g sv) = sup_ids sv"
  "sup_ids (sv\<lparr>ss_pending_group := p\<rparr>) = sup_ids sv"
  "sup_ids (sv\<lparr>ss_pending_manual_events := e\<rparr>) = sup_ids sv"
  "sup_ids (sv\<lparr>ss_queued_triggers := q\<rparr>) = sup_ids sv"
  by (simp_all add: sup_ids_def set_chain_def set_stopping_def)

lemma sup_inv_no_group [sup_intros]: "sup_inv sv \<Longrightarrow> sup_inv (sv\<lparr>ss_pending_group := None\<rparr>)"
  by (rule sup_inv_group) auto

lemma sup_inv_skip_front:
  assumes "sup_inv sv" "ss_pending_group sv = Some (GroupRestarting c)" "gc_queue c = k # rest"
  shows "sup_inv (set_chain (c\<lparr>gc_queue := rest\<rparr>) sv)"
  using assms sup_inv_groupD [OF assms(1,2)] by (intro sup_inv_set_chain) auto

lemma sup_inv_fresh_front:
  assumes "sup_inv sv" "ss_pending_group sv = Some (GroupRestarting c)" "gc_queue c = k # rest"
    and "sup_child sv k = Some child"
  shows "sup_inv (set_chain (c\<lparr>gc_queue := rest, gc_scope := (gc_scope c)\<lparr>gs_restarted :=
    insert k (gs_restarted (gc_scope c))\<rparr>\<rparr>) sv)"
  using assms sup_inv_groupD [OF assms(1,2)] sup_inv_child [OF assms(1,4)]
  by (intro sup_inv_set_chain) (auto simp: scope_ok_def)

lemma advance_restart_chain_inv:
  "sup_inv sv \<longrightarrow> sup_inv (fst (snd (advance_restart_chain now sv work))) \<and>
     sup_ids (fst (snd (advance_restart_chain now sv work))) = sup_ids sv"
  by (induction rule: advance_chain_induct [where sv = sv and now = now and work = work])
    (simp_all add: frame_simps sup_frame sup_inv_no_group sup_inv_modify sup_ids_modify
      sup_inv_skip_front sup_inv_fresh_front)

lemma sup_inv_advance_restart_chain [sup_intros]:
  "sup_inv sv \<Longrightarrow> sup_inv (fst (snd (advance_restart_chain now sv work)))"
  using advance_restart_chain_inv by simp

lemma sup_ids_advance_restart_chain:
  "sup_inv sv \<Longrightarrow> sup_ids (fst (snd (advance_restart_chain now sv work))) = sup_ids sv"
  using advance_restart_chain_inv by simp

lemma sup_inv_stop_queue_step:
  assumes "sup_inv sv" "ss_pending_group sv = Some (GroupStopping g)" "gr_stop_queue g = k # rest"
  shows "sup_inv (set_stopping (g\<lparr>gr_stop_queue := (if b then rest else k # rest), gr_head_reached := h\<rparr>)
    (sup_modify k (queue_effect now step) sv))"
  using assms sup_inv_groupD [OF assms(1,2)]
  by (intro sup_inv_set_stopping) (auto simp: sup_inv_modify sup_ids_modify)

lemma sup_inv_advance_stop_queue [sup_intros]: "sup_inv sv \<Longrightarrow> sup_inv (advance_stop_queue now sv)"
  by (induction rule: advance_stop_queue_induct [where sv = sv and now = now])
    (simp_all add: sup_inv_stop_queue_step)

lemma sup_ids_advance_stop_queue: "sup_inv sv \<Longrightarrow> sup_ids (advance_stop_queue now sv) = sup_ids sv"
  by (induction rule: advance_stop_queue_induct [where sv = sv and now = now])
    (simp_all add: sup_inv_stop_queue_step frame_simps sup_ids_modify)

lemma settle_barrier_inv:
  assumes "sup_inv sv"
  shows "sup_inv (snd (settle_barrier k n sv))" "sup_ids (snd (settle_barrier k n sv)) = sup_ids sv"
proof -
  have "sup_inv (set_stopping (snd (settle_awaited k n g)) sv)"
    if "ss_pending_group sv = Some (GroupStopping g)" for g
    using sup_inv_groupD [OF assms that] assms
    by (intro sup_inv_set_stopping) (simp_all add: settle_awaited_def)
  then show "sup_inv (snd (settle_barrier k n sv))" "sup_ids (snd (settle_barrier k n sv)) = sup_ids sv"
    using assms
    by (auto simp: settle_barrier_def frame_simps split: option.splits group_phase.splits prod.splits)
qed

text \<open>What a chain may start with.\<close>

definition start_ok :: "actor_id set \<Rightarrow> chain_start \<Rightarrow> bool" where
  "start_ok K start \<longleftrightarrow> distinct (cst_order start) \<and> keys_in K (cst_overrides start) \<and>
     scope_ok K (cst_scope start)"

lemma take_chain_order_inv:
  assumes "sup_inv sv"
  shows "sup_inv (snd (take_chain_order sv))" "sup_ids (snd (take_chain_order sv)) = sup_ids sv"
    and "fst (take_chain_order sv) = Some start \<Longrightarrow> start_ok (sup_ids sv) start"
  using assms sup_inv_groupD [OF assms]
  by (auto simp: take_chain_order_def start_ok_def sup_inv_no_group frame_simps
      split: option.splits group_phase.splits)

lemma advance_group_stop_inv:
  assumes "sup_inv sv"
  shows "sup_inv (snd (advance_group_stop now sv))" "sup_ids (snd (advance_group_stop now sv)) = sup_ids sv"
    and "fst (advance_group_stop now sv) = Some start \<Longrightarrow> start_ok (sup_ids sv) start"
  using take_chain_order_inv [OF sup_inv_advance_stop_queue [OF assms]] sup_inv_advance_stop_queue [OF assms]
    sup_ids_advance_stop_queue [OF assms]
  by (auto simp: advance_group_stop_def Let_def split: if_splits)

lemma plan_group_stop_inv:
  assumes "sup_inv sv"
  shows "sup_inv (snd (snd (plan_group_stop commit sv)))"
    "sup_ids (snd (snd (plan_group_stop commit sv))) = sup_ids sv"
    "distinct (map fst commit) \<Longrightarrow> distinct (fst (snd (plan_group_stop commit sv)))"
proof -
  let ?cancel = "\<lambda>sv (k, n, action). if ma_cancel action
    then sup_modify k (\<lambda>c. c\<lparr>ch_ctl := cancel_unspawned (ch_ctl c)\<rparr>) sv else sv"
  have "sup_inv (foldl ?cancel sv commit) \<and> sup_ids (foldl ?cancel sv commit) = sup_ids sv"
    using assms by (induction commit arbitrary: sv) (simp_all add: sup_inv_modify sup_ids_modify split: prod.splits)
  then show "sup_inv (snd (snd (plan_group_stop commit sv)))"
    "sup_ids (snd (snd (plan_group_stop commit sv))) = sup_ids sv"
    by (simp_all add: plan_group_stop_def Let_def)
  show "distinct (fst (snd (plan_group_stop commit sv)))" if "distinct (map fst commit)"
    using that by (simp add: plan_group_stop_def Let_def rev_map [symmetric] distinct_map_filter)
qed

end
