(* ===== verification/Worklist.thy ===== *)
theory Worklist
  imports Supervisor_Inv
begin

text \<open>
  The worklist of a supervisor's turn (\<open>handle_worklist\<close> of \<open>src/src/actor/runtime.rs\<close>) keeps the supervisor's
  invariant and returns.  A report is in the worklist or among the deferred triggers.  Every iteration
  consumes one report, or defers one, or classifies a manual stop and takes the same report again; the
  end of a chain moves the deferred triggers to the worklist and is reached only in an iteration that
  consumes its report.
\<close>

named_theorems queued_frame \<open>operations that leave the deferred triggers as they were\<close>

section \<open>Deferred triggers\<close>

lemma queued_modify [queued_frame]: "ss_queued_triggers (sup_modify k f sv) = ss_queued_triggers sv"
  by (simp add: frame_simps)

lemma queued_record_down [queued_frame]: "ss_queued_triggers (record_down k n p sv) = ss_queued_triggers sv"
  by (simp add: record_down_def queued_frame)

lemma queued_owe [queued_frame]: "ss_queued_triggers (sup_owe r name sv) = ss_queued_triggers sv"
  by (simp add: sup_owe_def Let_def split: option.splits)

lemma queued_remove_spec [queued_frame]: "ss_queued_triggers (snd (remove_spec gone k sv)) = ss_queued_triggers sv"
  by (simp add: remove_spec_def prune_retired_def Let_def split: prod.splits option.splits)

lemma queued_set [queued_frame]:
  "ss_queued_triggers (set_chain c sv) = ss_queued_triggers sv"
  "ss_queued_triggers (set_stopping g sv) = ss_queued_triggers sv"
  by (simp_all add: set_chain_def set_stopping_def)

lemma queued_note_chain_start [queued_frame]:
  "ss_queued_triggers (note_chain_start k seq origin sv) = ss_queued_triggers sv"
  by (simp add: note_chain_start_def split: origin.splits option.splits group_phase.splits)

lemma queued_initiate [queued_frame]:
  "ss_queued_triggers (snd (initiate tid k seq origin sv)) = ss_queued_triggers sv"
  by (simp add: initiate_def Let_def queued_frame split: option.splits child_lifecycle.splits prod.splits bool.splits)

lemma queued_settle_barrier [queued_frame]:
  "ss_queued_triggers (snd (settle_barrier k n sv)) = ss_queued_triggers sv"
  by (simp add: settle_barrier_def queued_frame split: option.splits group_phase.splits prod.splits)

lemma queued_advance_stop_queue [queued_frame]:
  "ss_queued_triggers (advance_stop_queue now sv) = ss_queued_triggers sv"
  by (induction rule: advance_stop_queue_induct [where sv = sv and now = now]) (simp_all add: queued_frame)

lemma queued_take_chain_order [queued_frame]:
  "ss_queued_triggers (snd (take_chain_order sv)) = ss_queued_triggers sv"
  by (simp add: take_chain_order_def split: option.splits group_phase.splits)

lemma queued_advance_group_stop [queued_frame]:
  "ss_queued_triggers (snd (advance_group_stop now sv)) = ss_queued_triggers sv"
  by (simp add: advance_group_stop_def Let_def queued_frame)

lemma queued_plan_group_stop [queued_frame]:
  "ss_queued_triggers (snd (snd (plan_group_stop commit sv))) = ss_queued_triggers sv"
proof -
  have "ss_queued_triggers (foldl (\<lambda>sv (k, n, action). if ma_cancel action
      then sup_modify k (\<lambda>c. c\<lparr>ch_ctl := cancel_unspawned (ch_ctl c)\<rparr>) sv else sv) sv commit) =
    ss_queued_triggers sv"
    by (induction commit arbitrary: sv) (simp_all add: queued_frame split: prod.splits)
  then show ?thesis by (simp add: plan_group_stop_def Let_def)
qed

lemma queued_evaluate_strategy [queued_frame]:
  "ss_queued_triggers (snd (evaluate_strategy now failed reason sv)) = ss_queued_triggers sv"
  by (auto simp: evaluate_strategy_def Let_def split: option.splits prod.splits)

lemma queued_record_override [queued_frame]:
  "ss_queued_triggers (sup_record_override k sv) = ss_queued_triggers sv"
  by (simp add: sup_record_override_def Let_def split: option.splits group_phase.splits)

lemma queued_leave [queued_frame]: "ss_queued_triggers (leave_restart_set k sv) = ss_queued_triggers sv"
  by (simp add: leave_restart_set_def)

lemma queued_dismiss [queued_frame]:
  "ss_queued_triggers (snd (dismiss_owed_evaluation gone k sv)) = ss_queued_triggers sv"
  by (simp add: dismiss_owed_evaluation_def Let_def queued_frame
      split: option.splits child_lifecycle.splits down_pending.splits)

lemma queued_rewrite [queued_frame]: "ss_queued_triggers (rewrite_restart_snapshot k sv) = ss_queued_triggers sv"
  by (simp add: rewrite_restart_snapshot_def split: option.splits)

lemma queued_spawn_death [queued_frame]: "ss_queued_triggers (spawn_death t k n d sv) = ss_queued_triggers sv"
  by (simp add: spawn_death_def)

lemma queued_predecessor [queued_frame]:
  "ss_queued_triggers (snd (retired_subtree gone k sv)) = ss_queued_triggers sv"
  "ss_queued_triggers (snd (predecessor_of gone k sv)) = ss_queued_triggers sv"
  by (simp_all add: predecessor_of_def retired_subtree_def prune_retired_def Let_def split: option.splits)

lemma advance_restart_chain_total:
  "length (snd (snd (advance_restart_chain now sv work))) +
     length (ss_queued_triggers (fst (snd (advance_restart_chain now sv work)))) =
   length work + length (ss_queued_triggers sv)"
  by (induction rule: advance_chain_induct [where sv = sv and now = now and work = work])
    (simp_all add: queued_frame)

section \<open>Steps of the context\<close>

abbreviation cx_inv :: "sup_ctx \<Rightarrow> bool" where
  "cx_inv cx \<equiv> sup_inv (cx_sup cx)"

abbreviation cx_queued :: "sup_ctx \<Rightarrow> worklist" where
  "cx_queued cx \<equiv> ss_queued_triggers (cx_sup cx)"

text \<open>
  \<open>calm cx cx'\<close>: the context went from one that holds the invariant to another, and the deferred triggers are the
  same.
\<close>

definition calm :: "sup_ctx \<Rightarrow> sup_ctx \<Rightarrow> bool" where
  "calm cx cx' \<longleftrightarrow> (cx_inv cx \<longrightarrow> cx_inv cx') \<and> cx_queued cx' = cx_queued cx"

lemma calm_refl [simp]: "calm cx cx"
  by (simp add: calm_def)

lemma calm_trans [trans]: "calm a b \<Longrightarrow> calm b c \<Longrightarrow> calm a c"
  by (simp add: calm_def)

lemma calmI: "(cx_inv cx \<Longrightarrow> sup_inv sv) \<Longrightarrow> ss_queued_triggers sv = cx_queued cx \<Longrightarrow> calm cx (cx\<lparr>cx_sup := sv\<rparr>)"
  by (simp add: calm_def)

lemma cx_sup_on_sup [simp]: "cx_sup (on_sup f cx) = f (cx_sup cx)"
  by (simp add: on_sup_def)

lemma cx_sup_record_failure [simp]: "cx_sup (record_failure e cx) = cx_sup cx"
  by (simp add: record_failure_def)

lemma cx_sup_draws [simp]:
  "cx_sup (snd (next_incarnation cx)) = cx_sup cx"
  "cx_sup (snd (take_task_id cx)) = cx_sup cx"
  by (simp_all add: next_incarnation_def take_task_id_def)

lemma calm_sup_eq: "cx_sup cx' = cx_sup cx \<Longrightarrow> calm cx cx'"
  by (simp add: calm_def)

lemma initiate_restart_calm: "calm cx (initiate_restart k origin cx)"
  by (simp add: calm_def initiate_restart_def next_incarnation_def take_task_id_def sup_inv_initiate queued_frame)

lemma sup_ids_initiate:
  assumes "sup_inv sv"
  shows "sup_ids (snd (initiate tid k seq origin sv)) = sup_ids sv"
  using assms
proof (cases rule: initiate_cases [where tid = tid and k = k and seq = seq and origin = origin])
  case (Started child n p f)
  have "sup_ids (note_chain_start k seq origin sv') = sup_ids sv'" for sv'
    by (simp add: note_chain_start_def sup_ids_def split: origin.splits option.splits group_phase.splits)
  then show ?thesis
    unfolding Started(5) using sup_ids_modify [OF assms, of "\<lambda>c. c\<lparr>ch_lifecycle := Restarting n seq,
      ch_ctl := slot_pair_for (Some (k, seq)), ch_origin := origin\<rparr>" k]
    by (simp add: sup_ids_def)
qed simp

text \<open>\<open>conserves (work, cx) (work', cx')\<close>: the invariant is kept and no report is added.\<close>

definition conserves :: "worklist \<times> sup_ctx \<Rightarrow> worklist \<times> sup_ctx \<Rightarrow> bool" where
  "conserves a b \<longleftrightarrow> (cx_inv (snd a) \<longrightarrow> cx_inv (snd b)) \<and>
     length (fst b) + length (cx_queued (snd b)) \<le> length (fst a) + length (cx_queued (snd a))"

lemma conserves_refl [simp]: "conserves a a"
  by (simp add: conserves_def)

lemma conserves_trans [trans]: "conserves a b \<Longrightarrow> conserves b c \<Longrightarrow> conserves a c"
  by (simp add: conserves_def)

lemma calm_conserves: "calm cx cx' \<Longrightarrow> conserves (work, cx) (work, cx')"
  by (simp add: calm_def conserves_def)

lemma conserves_calm: "conserves a r \<Longrightarrow> calm (snd r) cx' \<Longrightarrow> conserves a (fst r, cx')"
  by (simp add: calm_def conserves_def)

lemma run_chain_step_conserves: "conserves (work, cx) (run_chain_step work cx)"
proof -
  obtain step sv work' where adv: "advance_restart_chain (cx_now cx) (cx_sup cx) work = (step, sv, work')"
    by (cases "advance_restart_chain (cx_now cx) (cx_sup cx) work") auto
  then have total: "length work' + length (ss_queued_triggers sv) = length work + length (cx_queued cx)"
    using advance_restart_chain_total [of "cx_now cx" "cx_sup cx" work] by simp
  have inv: "cx_inv cx \<longrightarrow> sup_inv sv"
    using advance_restart_chain_inv [of "cx_sup cx" "cx_now cx" work] adv by simp
  show ?thesis
    using total inv initiate_restart_calm [of "cx\<lparr>cx_sup := sv\<rparr>"]
    by (cases step) (simp_all add: run_chain_step_def adv conserves_def calm_def)
qed

lemma start_restart_chain_conserves:
  assumes "cx_inv cx \<Longrightarrow> start_ok (sup_ids (cx_sup cx)) start"
  shows "conserves (work, cx) (start_restart_chain start work cx)"
proof -
  let ?cx = "on_sup (set_chain \<lparr>gc_queue = cst_order start, gc_overrides = cst_overrides start, gc_started = [],
    gc_scope = cst_scope start\<rparr>) cx"
  have "calm cx ?cx"
    using assms by (auto simp: calm_def queued_frame start_ok_def intro!: sup_inv_set_chain)
  then show ?thesis
    unfolding start_restart_chain_def
    by (blast intro: conserves_trans calm_conserves run_chain_step_conserves)
qed

lemma begin_group_conserves:
  assumes "cx_inv cx \<Longrightarrow> distinct stop_queue \<and> distinct restart_order \<and>
    keys_in (sup_ids (cx_sup cx)) overrides \<and> scope_ok (sup_ids (cx_sup cx)) scope"
  shows "conserves (work, cx) (begin_group awaiting stop_queue restart_order overrides scope work cx)"
proof (cases "awaiting = []")
  case True
  then show ?thesis
    using assms by (simp add: begin_group_def start_restart_chain_conserves start_ok_def)
next
  case False
  then show ?thesis
    using assms
    by (auto simp: begin_group_def conserves_def queued_frame intro!: sup_inv_advance_stop_queue sup_inv_set_stopping)
qed

section \<open>Routing\<close>

text \<open>What a route keeps: the invariant, the deferred triggers but for a deferred report, a sound chain start.\<close>

definition route_ok :: "child_stopped_internal \<Rightarrow> supervision_state \<Rightarrow> routed \<times> group_steps \<times> supervision_state \<Rightarrow> bool" where
  "route_ok ev sv r \<longleftrightarrow>
     (case r of (routed, steps, sv') \<Rightarrow> sup_inv sv' \<and>
        ss_queued_triggers sv' = ss_queued_triggers sv @ (if routed = RoutedQueued then [ev] else []) \<and>
        (\<forall>start. gst_begin_chain steps = Some start \<longrightarrow> start_ok (sup_ids sv') start))"

lemma no_steps_begin [simp]: "gst_begin_chain no_steps = None"
  by (simp add: no_steps_def)

lemma sup_inv_queue_trigger [sup_frame]: "sup_inv (queue_trigger ev sv) = sup_inv sv"
  by (simp add: queue_trigger_def sup_frame)

lemma route_ok_plain: "sup_inv sv \<Longrightarrow> r \<noteq> RoutedQueued \<Longrightarrow> sup_inv sv' \<Longrightarrow>
    ss_queued_triggers sv' = ss_queued_triggers sv \<Longrightarrow> gst_begin_chain steps = None \<Longrightarrow> route_ok ev sv (r, steps, sv')"
  by (simp add: route_ok_def)

lemma route_ok_queued: "sup_inv sv' \<Longrightarrow> ss_queued_triggers sv' = ss_queued_triggers sv \<Longrightarrow>
    route_ok ev sv (RoutedQueued, no_steps, queue_trigger ev sv')"
  by (simp add: route_ok_def sup_frame) (simp add: queue_trigger_def)

lemma route_ok_advance:
  assumes "sup_inv sv'" "ss_queued_triggers sv' = ss_queued_triggers sv" "r \<noteq> RoutedQueued"
  shows "route_ok ev sv (r, \<lparr>gst_begin_chain = fst (advance_group_stop now sv'), gst_advance_chain = a,
      gst_manual_override = b\<rparr>, snd (advance_group_stop now sv'))"
  using assms advance_group_stop_inv [OF assms(1), of now] by (auto simp: route_ok_def queued_frame)

lemma route_attempt_ok:
  assumes "sup_inv sv"
  shows "route_ok ev sv (route_attempt now ev child sv)"
proof -
  let ?k = "csi_child_id ev" and ?n = "csi_incarnation ev"
  define sv1 where "sv1 p = record_down ?k ?n p (sup_modify ?k note_subtree sv)" for p
  have sv1: "sup_inv (sv1 p)" "ss_queued_triggers (sv1 p) = ss_queued_triggers sv" for p
    using assms by (simp_all add: sv1_def sup_inv_record_down sup_inv_modify queued_frame)
  have settled: "sup_inv (snd (settle_barrier ?k ?n (sv1 p)))"
    "ss_queued_triggers (snd (settle_barrier ?k ?n (sv1 p))) = ss_queued_triggers sv" for p
    using sv1 by (simp_all add: settle_barrier_inv queued_frame)
  show ?thesis
    unfolding route_attempt_def Let_def sv1_def [symmetric]
    using sv1 settled assms
    by (auto simp: route_ok_plain route_ok_queued split_def intro!: route_ok_advance [where r = "RoutedDeliver a" for a]
        split: route.splits)
qed

lemma settle_awaited_ok: "group_ok K (GroupStopping g) \<Longrightarrow> group_ok K (GroupStopping (snd (settle_awaited k n g)))"
  by (simp add: settle_awaited_def)

lemma route_end_ok:
  assumes "sup_inv sv"
  shows "route_ok ev sv (route_end now ev child sv)"
proof -
  let ?k = "csi_child_id ev" and ?n = "csi_incarnation ev"
  have down: "sup_inv (record_down ?k ?n p sv)"
    "ss_queued_triggers (record_down ?k ?n p sv) = ss_queued_triggers sv" for p
    using assms by (simp_all add: sup_inv_record_down queued_frame)
  show ?thesis
  proof (cases "ss_pending_group sv")
    case None
    then show ?thesis
      using assms down by (simp add: route_end_def Let_def route_ok_plain)
  next
    case (Some phase)
    show ?thesis
    proof (cases phase)
      case (GroupStopping g)
      then have "group_ok (sup_ids sv) (GroupStopping (snd (settle_awaited ?k ?n g)))"
        using sup_inv_groupD [OF assms Some] by (simp only: settle_awaited_ok)
      then have "sup_inv (record_down ?k ?n OwesNothing (set_stopping (snd (settle_awaited ?k ?n g)) sv))"
        using assms by (intro sup_inv_record_down sup_inv_set_stopping)
      note barrier = route_ok_advance [OF this, of sv "RoutedDeliver RestartInitiated"]
      show ?thesis
        using Some GroupStopping assms down barrier
        by (auto simp: route_end_def Let_def route_ok_plain route_ok_queued split_def queued_frame
            split: prod.splits bool.splits)
    next
      case (GroupRestarting c)
      then show ?thesis
        using Some assms down by (auto simp: route_end_def Let_def route_ok_plain route_ok_queued)
    qed
  qed
qed

lemma route_report_ok:
  assumes "sup_inv sv"
  shows "route_ok ev sv (route_report now ev sv)"
  using assms
  by (auto simp: route_report_def route_attempt_ok route_end_ok route_ok_plain split: option.splits)

section \<open>Deliveries\<close>

text \<open>
  The callback acts on the supervisor only through the context's methods; what the worklist relies on is that
  each keeps the invariant and the deferred triggers.
\<close>

definition tame :: "sup_env \<Rightarrow> bool" where
  "tame env \<longleftrightarrow> (\<forall>event cx. calm cx (snd (env_on_child_stopped env event cx)))"

lemma deliver_child_event_calm: "tame env \<Longrightarrow> calm cx (snd (deliver_child_event env event cx))"
proof -
  assume "tame env"
  then have "calm cx (snd (env_on_child_stopped env event cx))"
    by (simp add: tame_def)
  then show ?thesis
    by (auto simp: deliver_child_event_def calm_def split: prod.splits hook_result.splits)
qed

lemma drop_removed_calm: "calm cx (snd (drop_removed env removed cx))"
  by (simp add: drop_removed_def calm_def split: list.splits)

lemma owe_deliveries_calm: "calm cx (owe_deliveries deliveries cx)"
proof -
  have "(sup_inv sv \<longrightarrow> sup_inv (foldl (\<lambda>sv (event, n). sup_owe \<lparr>csi_child_id = ce_child_id event,
      csi_reason = ce_reason event, csi_incarnation = n\<rparr> (ce_child_name event) sv) sv deliveries)) \<and>
    ss_queued_triggers (foldl (\<lambda>sv (event, n). sup_owe \<lparr>csi_child_id = ce_child_id event,
      csi_reason = ce_reason event, csi_incarnation = n\<rparr> (ce_child_name event) sv) sv deliveries) =
    ss_queued_triggers sv" for sv
    by (induction deliveries arbitrary: sv) (simp_all add: sup_inv_owe queued_frame split: prod.splits)
  then show ?thesis by (simp add: calm_def owe_deliveries_def)
qed

lemma deliver_absorbed_calm: "tame env \<Longrightarrow> calm cx (snd (deliver_absorbed env deliveries cx))"
proof (induction deliveries arbitrary: cx)
  case (Cons d ds)
  obtain event n where d: "d = (event, n)" by (cases d)
  obtain fl cx' where del: "deliver_child_event env event cx = (fl, cx')"
    by (cases "deliver_child_event env event cx")
  have "calm cx cx'"
    using deliver_child_event_calm [OF Cons.prems, of cx event] del by simp
  then show ?case
    using Cons.IH [OF Cons.prems, of cx'] owe_deliveries_calm [of cx' ds]
    by (cases fl) (auto simp: d del intro: calm_trans)
qed simp

lemma prune_spec_calm: "calm cx (snd (prune_spec_if_needed k cx))"
  by (simp add: prune_spec_if_needed_def Let_def calm_def sup_inv_remove_spec [simplified] queued_frame
      split_def)

lemma deliver_report_conserves:
  assumes "tame env"
  shows "conserves (work, cx) (snd (deliver_report env ev name action removed work cx))"
proof -
  obtain e cx1 where drop: "drop_removed env (opt_list removed) cx = (e, cx1)"
    by (cases "drop_removed env (opt_list removed) cx")
  have calm1: "calm cx cx1"
    using drop_removed_calm [of cx env "opt_list removed"] drop by simp
  show ?thesis
  proof (cases e)
    case None
    then show ?thesis
      using calm_trans [OF calm1 deliver_child_event_calm [OF assms]]
      by (simp add: deliver_report_def drop split_def calm_conserves)
  next
    case (Some err)
    have "calm cx1 (on_sup (sup_owe ev name) cx1)"
      by (simp add: calm_def sup_inv_owe queued_frame)
    with Some show ?thesis
      using calm_trans [OF calm1] by (simp add: deliver_report_def drop calm_conserves)
  qed
qed

section \<open>Absorption\<close>

lemma absorb_prune_ok:
  assumes "sup_inv (ab_sup a)"
  shows "sup_inv (ab_sup (absorb_prune gone prune k a))"
    "ss_queued_triggers (ab_sup (absorb_prune gone prune k a)) = ss_queued_triggers (ab_sup a)"
    "ab_work (absorb_prune gone prune k a) = ab_work a"
    "ab_deliveries (absorb_prune gone prune k a) = ab_deliveries a"
  using sup_inv_remove_spec [OF assms, of gone k]
  by (simp_all add: absorb_prune_def assms queued_frame split_def)

lemma absorb_deliver_ok:
  assumes "sup_inv (ab_sup a)"
  shows "sup_inv (ab_sup (absorb_deliver gone k child n report a))"
    "ss_queued_triggers (ab_sup (absorb_deliver gone k child n report a)) = ss_queued_triggers (ab_sup a)"
    "ab_work (absorb_deliver gone k child n report a) = ab_work a"
    "length (ab_deliveries (absorb_deliver gone k child n report a)) = Suc (length (ab_deliveries a))"
  using absorb_prune_ok [of "a\<lparr>ab_sup := record_down k n OwesNothing (ab_sup a)\<rparr>"] assms
  by (simp_all add: absorb_deliver_def Let_def sup_inv_record_down queued_frame)

lemma absorb_snapshot_ok:
  assumes "sup_inv (ab_sup a)"
  shows "sup_inv (ab_sup (absorb_snapshot gone k child n a))"
    "ss_queued_triggers (ab_sup (absorb_snapshot gone k child n a)) = ss_queued_triggers (ab_sup a)"
    "ab_work (absorb_snapshot gone k child n a) = ab_work a"
    "ab_deliveries (absorb_snapshot gone k child n a) = ab_deliveries a"
  using absorb_prune_ok [of "a\<lparr>ab_sup := record_down k n OwesSnapshot (ab_sup a)\<rparr>"] assms
  by (simp_all add: absorb_snapshot_def Let_def sup_inv_record_down queued_frame sup_frame)

lemma rejoin_snapshot_ok:
  "sup_inv (rejoin_snapshot k n sv) = sup_inv sv"
  "ss_queued_triggers (rejoin_snapshot k n sv) = ss_queued_triggers sv"
  by (simp_all add: rejoin_snapshot_def sup_frame split: option.splits)

abbreviation absorb_reports :: "absorb_state \<Rightarrow> nat" where
  "absorb_reports a \<equiv> length (ab_work a) + length (ss_queued_triggers (ab_sup a)) + length (ab_deliveries a)"

text \<open>Every report the absorption takes from the worklist or the deferred triggers becomes one delivery.\<close>

lemma absorb_one_ok:
  assumes "sup_inv (ab_sup a)"
  shows "sup_inv (ab_sup (absorb_one gone a entry)) \<and> absorb_reports (absorb_one gone a entry) = absorb_reports a"
proof -
  obtain k m action where entry: "entry = (k, m, action)" by (cases entry)
  show ?thesis
  proof (cases "\<exists>child n p. sup_child (ab_sup a) k = Some child \<and> ch_lifecycle child = Down n p")
    case False
    then show ?thesis
      using assms by (auto simp: entry absorb_one_def split: option.splits child_lifecycle.splits)
  next
    case True
    then obtain child n p where child: "sup_child (ab_sup a) k = Some child" "ch_lifecycle child = Down n p"
      by blast
    have pos: "i < length xs" "Suc (length (remove_nth i xs)) = length xs"
      if "list_position P xs = Some i" for P i and xs :: worklist
      using list_position_SomeD(1) [OF that] by simp_all
    show ?thesis
      using assms child
      by (auto simp: entry absorb_one_def Let_def absorb_deliver_ok absorb_snapshot_ok rejoin_snapshot_ok
          sup_frame split: absorption.splits option.splits dest!: pos)
  qed
qed

lemma absorb_records_ok:
  assumes "sup_inv sv"
  shows "sup_inv (ab_sup (absorb_records gone work commit sv)) \<and>
    absorb_reports (absorb_records gone work commit sv) = length work + length (ss_queued_triggers sv)"
proof -
  have "sup_inv (ab_sup (foldl (absorb_one gone) a commit)) \<and>
      absorb_reports (foldl (absorb_one gone) a commit) = absorb_reports a"
    if "sup_inv (ab_sup a)" for a
    using that
  proof (induction commit arbitrary: a)
    case (Cons entry commit)
    show ?case
      using Cons.IH [of "absorb_one gone a entry"] absorb_one_ok [OF Cons.prems, of gone entry] by simp
  qed simp
  from this [of "\<lparr>ab_sup = sv, ab_work = work, ab_deliveries = [], ab_removed = []\<rparr>"] assms show ?thesis
    by (simp add: absorb_records_def)
qed

lemma absorb_owed_conserves:
  assumes "tame env" "cx_inv cx"
  shows "conserves (work, cx) (snd (absorb_owed env commit work cx))"
proof -
  let ?a = "absorb_records (cx_gone cx) work commit (cx_sup cx)"
  let ?cx = "cx\<lparr>cx_sup := ab_sup ?a\<rparr>"
  have rec: "conserves (work, cx) (ab_work ?a, ?cx)"
    using absorb_records_ok [OF assms(2), of "cx_gone cx" work commit] by (auto simp: conserves_def)
  obtain e cx1 where drop: "drop_removed env (ab_removed ?a) ?cx = (e, cx1)"
    by (cases "drop_removed env (ab_removed ?a) ?cx")
  have calm1: "calm ?cx cx1"
    using drop_removed_calm [of ?cx env "ab_removed ?a"] drop by simp
  have "calm ?cx (case e of None \<Rightarrow> snd (deliver_absorbed env (ab_deliveries ?a) cx1)
      | Some _ \<Rightarrow> owe_deliveries (ab_deliveries ?a) cx1)"
    using calm_trans [OF calm1] owe_deliveries_calm deliver_absorbed_calm [OF assms(1)]
    by (auto split: option.splits)
  from conserves_trans [OF rec calm_conserves [OF this]] show ?thesis
    by (simp add: absorb_owed_def Let_def drop split_def split: option.splits)
qed

section \<open>Groups\<close>

lemma distinct_group_commit:
  "distinct (map gm_id members) \<Longrightarrow> distinct (map fst (group_commit strategy members failed))"
proof -
  have "map fst (map (commit_member failed) ms) = map gm_id ms" for ms
    by (simp add: commit_member_def Let_def)
  then show "distinct (map gm_id members) \<Longrightarrow> ?thesis"
    unfolding group_commit_def Let_def by (simp only: drop_map [symmetric] distinct_drop)
qed

lemma distinct_members: "sup_inv sv \<Longrightarrow> distinct (map gm_id (map group_member_of (cr_children (ss_registry sv))))"
  using registry_ok_distinct [OF sup_inv_registry] by (simp add: group_member_of_def o_def)

lemma distinct_retry_plan:
  "distinct (map gm_id members) \<Longrightarrow> distinct (map fst (rp_commit (retry_plan_of strategy members ov failed))) \<and>
     distinct (rp_restart_order (retry_plan_of strategy members ov failed))"
proof -
  assume "distinct (map gm_id members)"
  then have "distinct (map fst (map (\<lambda>(k, n, action). (k, n, if k \<in> set ov then action\<lparr>ma_restarts := False\<rparr> else action))
      (group_commit strategy members failed)))"
    using distinct_group_commit [of members strategy failed] by (simp add: o_def split_def)
  then show ?thesis
    by (simp add: retry_plan_of_def Let_def distinct_map_filter)
qed

lemma evaluate_strategy_commit:
  "sup_inv sv \<Longrightarrow> fst (evaluate_strategy now k reason sv) = RestartGroup commit \<Longrightarrow> distinct (map fst commit)"
  using distinct_group_commit [OF distinct_members, of sv]
  by (auto simp: evaluate_strategy_def Let_def split: option.splits prod.splits if_splits)

lemma first_plan_outside_ok: "first_plan_outside sv failed \<subseteq> sup_ids sv"
  by (auto simp: first_plan_outside_def sup_ids_def dest: set_takeWhileD)

lemma handle_group_conserves:
  assumes "tame env" "cx_inv cx" "distinct (map fst commit)"
  shows "conserves (work, cx) (snd (handle_group env ev commit work cx))"
proof -
  obtain fl work1 cx1 where absorb: "absorb_owed env commit work cx = (fl, work1, cx1)"
    by (cases "absorb_owed env commit work cx") auto
  have st: "conserves (work, cx) (work1, cx1)"
    using absorb_owed_conserves [OF assms(1,2), of work commit] absorb by simp
  show ?thesis
  proof (cases fl)
    case (Break r)
    have "conserves (work1, cx1) (work1, on_sup (\<lambda>sv. sv\<lparr>ss_owed := ev # ss_owed sv\<rparr>) cx1)"
      by (simp add: conserves_def sup_frame)
    with Break st show ?thesis
      by (auto simp: handle_group_def absorb intro: conserves_trans)
  next
    case Continue
    let ?plan = "plan_group_stop commit (cx_sup cx1)"
    let ?cx = "cx1\<lparr>cx_sup := snd (snd ?plan)\<rparr>"
    have inv1: "cx_inv cx1" using st assms(2) by (simp add: conserves_def)
    note plan = plan_group_stop_inv [OF inv1, of commit]
    have calm1: "calm cx1 ?cx"
      using plan by (auto simp: calm_def queued_frame)
    have started: "conserves (work1, ?cx) (begin_group (fst ?plan) (fst (snd ?plan))
        (map fst (filter (\<lambda>(k, n, action). ma_restarts action) commit)) []
        \<lparr>gs_restarted = {}, gs_outside = first_plan_outside (cx_sup cx1) (csi_child_id ev)\<rparr> work1 ?cx)"
      using plan assms(3) first_plan_outside_ok [of "cx_sup cx1"]
      by (intro begin_group_conserves) (simp add: distinct_map_filter scope_ok_def)
    show ?thesis
      using conserves_trans [OF conserves_trans [OF st calm_conserves [OF calm1]] started] Continue
      by (simp add: handle_group_def absorb Let_def split_def)
  qed
qed

lemma group_overrides_ok:
  assumes "sup_inv sv"
  shows "(case ss_pending_group sv of
      Some (GroupRestarting c) \<Rightarrow> keys_in (sup_ids sv) (gc_overrides c) \<and> scope_ok (sup_ids sv) (gc_scope c)
    | _ \<Rightarrow> True)"
  using sup_inv_groupD [OF assms] by (auto split: option.splits group_phase.splits)

lemma retry_group_conserves:
  assumes "tame env" "cx_inv cx"
  shows "conserves (work, cx) (snd (retry_group env failed work cx))"
proof -
  let ?k = "csi_child_id failed"
  define a where "a = absorb_records (cx_gone cx) work (rp_commit (plan_retry (cx_sup cx) ?k)) (cx_sup cx)"
  define plan where "plan = plan_retry (ab_sup a) ?k"
  define ov where "ov = (case ss_pending_group (ab_sup a) of
      Some (GroupRestarting c) \<Rightarrow> (gc_overrides c, gc_scope c) | _ \<Rightarrow> ([], empty_scope))"
  define stops where "stops = plan_group_stop (rp_commit plan) (ab_sup a)"
  define cx0 where "cx0 = cx\<lparr>cx_sup := snd (snd stops)\<rparr>"
  define b where "b = begin_group (fst stops) (fst (snd stops)) (rp_restart_order plan) (fst ov) (snd ov) (ab_work a) cx0"
  define deliveries where "deliveries = (\<lparr>ce_child_id = ?k, ce_child_name = child_name_of (cx_sup cx) ?k,
    ce_reason = csi_reason failed, ce_action = RestartInitiated\<rparr>, csi_incarnation failed) # ab_deliveries a"
  have a: "sup_inv (ab_sup a)" "absorb_reports a = length work + length (cx_queued cx)"
    using absorb_records_ok [OF assms(2)] by (simp_all add: a_def)
  have distinct: "distinct (map fst (rp_commit plan))" "distinct (rp_restart_order plan)"
    using distinct_retry_plan [OF distinct_members [OF a(1)]] by (simp_all add: plan_def plan_retry_def Let_def)
  note stop = plan_group_stop_inv [OF a(1), of "rp_commit plan", folded stops_def]
  have started: "conserves (ab_work a, cx0) b"
    unfolding b_def using group_overrides_ok [OF a(1)] stop distinct
    by (intro begin_group_conserves)
      (auto simp: cx0_def ov_def empty_scope_def scope_ok_def split: option.splits group_phase.splits)
  have "conserves (work, cx) (ab_work a, cx0)"
    using a stop queued_plan_group_stop [of "rp_commit plan" "ab_sup a"]
    by (simp add: conserves_def cx0_def stops_def)
  note to_b = conserves_trans [OF this started]
  obtain e cx2 where drop: "drop_removed env (ab_removed a) (snd b) = (e, cx2)"
    by (cases "drop_removed env (ab_removed a) (snd b)")
  have calm1: "calm (snd b) cx2"
    using drop_removed_calm [of "snd b" env "ab_removed a"] drop by simp
  have "calm (snd b) (case e of None \<Rightarrow> snd (deliver_absorbed env deliveries cx2)
      | Some _ \<Rightarrow> owe_deliveries deliveries cx2)"
    using calm_trans [OF calm1] owe_deliveries_calm deliver_absorbed_calm [OF assms(1)]
    by (auto split: option.splits)
  from calm_conserves [OF this, of "fst b"] to_b
  have "conserves (work, cx) (fst b, case e of None \<Rightarrow> snd (deliver_absorbed env deliveries cx2)
      | Some _ \<Rightarrow> owe_deliveries deliveries cx2)"
    by (cases b) (auto intro: conserves_trans)
  then show ?thesis
    using drop
    by (simp add: retry_group_def Let_def split_def a_def [symmetric] plan_def [symmetric] ov_def [symmetric]
        stops_def [symmetric] cx0_def [symmetric] b_def [symmetric] deliveries_def [symmetric] split: option.splits)
qed

section \<open>Manual stops\<close>

lemma sup_life_record_down:
  assumes "sup_inv sv" "sup_life sv k = Some l" "is_legal l (Down n p)"
  shows "sup_life (record_down k n p sv) k = Some (Down n p)"
proof -
  obtain c where "sup_child sv k = Some c" "ch_lifecycle c = l"
    using assms(2) by (auto simp: sup_life_def)
  then have "sup_child (record_down k n p sv) k = Some (snd (child_transition (Down n p) c))"
    using assms(1) by (simp add: record_down_def sup_child_modify)
  then show ?thesis
    using assms(3) \<open>ch_lifecycle c = l\<close> by (simp add: sup_life_def child_transition_def transition_life_def)
qed

lemma sup_life_initiate:
  assumes "sup_inv sv" "sup_life sv k = Some (Down n p)"
  shows "\<exists>l. sup_life (snd (initiate tid k seq origin sv)) k = Some l \<and> (l = Down n p \<or> l = Restarting n seq)"
  using assms(1)
proof (cases rule: initiate_cases [where tid = tid and k = k and seq = seq and origin = origin])
  case Refused
  with assms(2) show ?thesis by simp
next
  case (Started child m q f)
  have reg: "ss_registry (note_chain_start k seq origin sv') = ss_registry sv'" for sv'
    by (simp add: note_chain_start_def split: origin.splits option.splits group_phase.splits)
  have "m = n" using Started(1,2) assms(2) by (simp add: sup_life_def)
  then show ?thesis
    using Started assms(1) sup_child_modify [OF assms(1), of "\<lambda>c. c\<lparr>ch_lifecycle := Restarting n seq,
      ch_ctl := slot_pair_for (Some (k, seq)), ch_origin := origin\<rparr>" k k]
    by (simp add: sup_life_def reg)
qed

lemma classify_unfold:
  assumes "sup_child (cx_sup cx) k = Some child"
    and "out = classify_manual kind reason (cs_restart_type (ch_spec child)) (is_pool (cx_sup cx))
      (in_restart_set (cx_sup cx) k)"
    and "sv = (if mo_remove out then snd (remove_spec (cx_gone cx) k (cx_sup cx))
      else record_down k n (mo_pending out) (cx_sup cx))"
  shows "snd (classify_manual_completion k n kind reason cx) =
    (case mo_action out of
       None \<Rightarrow> cx\<lparr>cx_sup := sv\<rparr>
     | Some action \<Rightarrow>
         let cx1 = cx\<lparr>cx_sup := sv\<lparr>ss_pending_manual_events := hput (k, n)
               \<lparr>ce_child_id = k, ce_child_name = ch_name child, ce_reason = reason, ce_action = action\<rparr>
               (ss_pending_manual_events sv)\<rparr>\<rparr>
         in if mo_initiate out then initiate_restart k OriginBounce cx1 else cx1)"
  using assms by (simp add: classify_manual_completion_def Let_def split_def split: option.splits)

lemma classify_calm: "calm cx (snd (classify_manual_completion k n kind reason cx))"
proof (cases "sup_child (cx_sup cx) k")
  case (Some child)
  define out where "out = classify_manual kind reason (cs_restart_type (ch_spec child)) (is_pool (cx_sup cx))
    (in_restart_set (cx_sup cx) k)"
  define sv where "sv = (if mo_remove out then snd (remove_spec (cx_gone cx) k (cx_sup cx))
    else record_down k n (mo_pending out) (cx_sup cx))"
  have sv: "cx_inv cx \<Longrightarrow> sup_inv sv" "ss_queued_triggers sv = cx_queued cx"
    by (simp_all add: sv_def sup_inv_remove_spec sup_inv_record_down queued_frame)
  then have ev: "calm cx (cx\<lparr>cx_sup := sv\<lparr>ss_pending_manual_events := e\<rparr>\<rparr>)" for e
    by (simp add: calm_def sup_frame)
  show ?thesis
    unfolding classify_unfold [OF Some out_def sv_def]
    using sv ev calm_trans [OF ev initiate_restart_calm]
    by (auto simp: Let_def calm_def [of cx "cx\<lparr>cx_sup := sv\<rparr>"] split: option.splits)
qed (simp add: classify_manual_completion_def)

text \<open>Once a manual stop is classified, the ledger no longer holds it as in progress.\<close>

lemma classify_commits:
  assumes "cx_inv cx" "uncommitted_manual (cx_sup cx) ev = Some kind"
  shows "uncommitted_manual (cx_sup (snd (classify_manual_completion (csi_child_id ev) (csi_incarnation ev)
    kind reason cx))) ev = None"
proof -
  let ?k = "csi_child_id ev" and ?n = "csi_incarnation ev"
  have life: "sup_life (cx_sup cx) ?k = Some (Stopping ?n kind)"
    using assms(2) by (auto simp: uncommitted_manual_def split: option.splits child_lifecycle.splits if_splits)
  then obtain child where child: "sup_child (cx_sup cx) ?k = Some child"
    by (auto simp: sup_life_def)
  define out where "out = classify_manual kind reason (cs_restart_type (ch_spec child)) (is_pool (cx_sup cx))
    (in_restart_set (cx_sup cx) ?k)"
  define sv where "sv = (if mo_remove out then snd (remove_spec (cx_gone cx) ?k (cx_sup cx))
    else record_down ?k ?n (mo_pending out) (cx_sup cx))"
  have frame: "uncommitted_manual (sv\<lparr>ss_pending_manual_events := e\<rparr>) ev = uncommitted_manual sv ev" for e
    by (simp add: uncommitted_manual_def sup_life_def)
  show ?thesis
  proof (cases "mo_remove out")
    case True
    then have "sup_child sv ?k = None"
      using registry_get_iff [OF sup_inv_registry [OF sup_inv_remove_spec [OF assms(1)]], of "cx_gone cx" ?k ?k]
      by (simp add: sv_def remove_spec_fields(1) [OF assms(1)])
    then have "uncommitted_manual sv ev = None"
      by (simp add: uncommitted_manual_def sup_life_def)
    moreover have "\<not> mo_initiate out"
      using True by (simp add: out_def classify_manual_def Let_def split: manual_stop.splits if_splits)
    ultimately show ?thesis
      unfolding classify_unfold [OF child out_def sv_def] by (simp add: frame Let_def split: option.splits)
  next
    case False
    have sv: "sup_inv (sv\<lparr>ss_pending_manual_events := e\<rparr>)"
      "sup_life (sv\<lparr>ss_pending_manual_events := e\<rparr>) ?k = Some (Down ?n (mo_pending out))"
      "sup_life sv ?k = Some (Down ?n (mo_pending out))" for e
      using False sup_life_record_down [OF assms(1) life, of ?n "mo_pending out"] assms(1)
      by (simp_all add: sv_def sup_frame sup_inv_record_down sup_life_def)
    have "uncommitted_manual (cx_sup (initiate_restart ?k OriginBounce
        (cx\<lparr>cx_sup := sv\<lparr>ss_pending_manual_events := e\<rparr>\<rparr>))) ev = None" for e
      using sup_life_initiate [OF sv(1) [of e] sv(2) [of e], of "cx_next_task cx" "cx_next_incarnation cx" OriginBounce]
      by (auto simp: uncommitted_manual_def initiate_restart_def next_incarnation_def take_task_id_def)
    then show ?thesis
      unfolding classify_unfold [OF child out_def sv_def] using sv
      by (simp add: Let_def uncommitted_manual_def [of "sv\<lparr>ss_pending_manual_events := e\<rparr>" for e]
          uncommitted_manual_def [of sv] split: option.splits)
  qed
qed

section \<open>One iteration\<close>

lemma handle_snapshot_conserves:
  assumes "tame env" "cx_inv cx"
  shows "conserves (work, cx) (snd (handle_snapshot env ev event work cx))"
proof -
  let ?k = "csi_child_id ev" and ?n = "csi_incarnation ev"
  define sv0 where "sv0 = clear_snapshot_marker ?k ?n (cx_sup cx)"
  define settle where "settle = settle_barrier ?k ?n sv0"
  define adv where "adv = (if fst settle then advance_group_stop (cx_now cx) (snd settle) else (None, snd settle))"
  define cx1 where "cx1 = cx\<lparr>cx_sup := snd adv\<rparr>"
  have "sup_inv sv0" "ss_queued_triggers sv0 = cx_queued cx"
    using assms(2) by (simp_all add: sv0_def clear_snapshot_marker_def sup_inv_record_down queued_frame)
  then have settle: "sup_inv (snd settle)" "ss_queued_triggers (snd settle) = cx_queued cx"
    by (simp_all add: settle_def settle_barrier_inv queued_frame)
  then have adv: "sup_inv (snd adv)" "ss_queued_triggers (snd adv) = cx_queued cx"
    "fst adv = Some start \<Longrightarrow> start_ok (sup_ids (snd adv)) start" for start
    using advance_group_stop_inv [OF settle(1), of "cx_now cx"]
    by (auto simp: adv_def queued_frame split: if_splits)
  then have "calm cx cx1"
    by (simp add: cx1_def calm_def)
  note st1 = calm_conserves [OF this, of work]
  define r where "r = (case fst adv of Some start \<Rightarrow> start_restart_chain start work cx1
    | None \<Rightarrow> if chain_front_started (snd adv) ?k \<noteq> None then advance_and_initiate work cx1 else (work, cx1))"
  have "conserves (work, cx1) r"
    unfolding r_def advance_and_initiate_def
    by (auto intro!: start_restart_chain_conserves run_chain_step_conserves simp: adv(3) cx1_def split: option.splits)
  note st2 = conserves_trans [OF st1 this]
  from conserves_calm [OF st2 deliver_child_event_calm [OF assms(1)]] show ?thesis
    unfolding handle_snapshot_def Let_def split_def sv0_def [symmetric]
    unfolding settle_def [symmetric]
    unfolding adv_def [symmetric]
    unfolding cx1_def [symmetric]
    unfolding r_def [symmetric] by simp
qed

lemma handle_deliver_conserves:
  assumes "tame env" "\<And>start. gst_begin_chain steps = Some start \<Longrightarrow> start_ok (sup_ids (cx_sup cx)) start"
  shows "conserves (work, cx) (snd (handle_deliver env ev action steps work cx))"
proof -
  define r where "r = (case gst_begin_chain steps of Some start \<Rightarrow> start_restart_chain start work cx
    | None \<Rightarrow> if gst_advance_chain steps then advance_and_initiate work cx else (work, cx))"
  define p where "p = (if gst_manual_override steps then prune_spec_if_needed (csi_child_id ev) (snd r) else (None, snd r))"
  have "conserves (work, cx) r"
    unfolding r_def advance_and_initiate_def using assms(2)
    by (auto intro!: start_restart_chain_conserves run_chain_step_conserves split: option.splits)
  moreover have "calm (snd r) (snd p)"
    by (simp add: p_def prune_spec_calm)
  ultimately have "conserves (work, cx) (fst r, snd p)"
    by (rule conserves_calm)
  from conserves_trans [OF this deliver_report_conserves [OF assms(1)]] show ?thesis
    by (simp add: handle_deliver_def Let_def split_def r_def [symmetric] p_def [symmetric])
qed

lemma budget_exhausted_conserves: "conserves a (snd r) \<Longrightarrow> conserves a (snd (budget_exhausted_flow r))"
  by (auto simp: budget_exhausted_flow_def conserves_def split: prod.splits flow.splits)

lemma handle_chain_retry_conserves:
  assumes "tame env" "cx_inv cx"
  shows "conserves (work, cx) (snd (handle_chain_retry env ev work cx))"
proof -
  define b where "b = check_and_record (cx_now cx) (ss_budget (cx_sup cx))"
  define cx1 where "cx1 = on_sup (\<lambda>sv. sv\<lparr>ss_budget := snd b\<rparr>) cx"
  have calm1: "calm cx cx1"
    by (simp add: cx1_def calm_def sup_frame)
  then have "cx_inv cx1" using assms(2) by (simp add: calm_def)
  from retry_group_conserves [OF assms(1) this] deliver_report_conserves [OF assms(1)]
  have "conserves (work, cx1) (snd (if fst b then retry_group env ev work cx1
    else budget_exhausted_flow (deliver_report env ev (child_name_of (cx_sup cx1) (csi_child_id ev))
      ActionBudgetExhausted None work cx1)))"
    by (auto intro: budget_exhausted_conserves)
  from conserves_trans [OF calm_conserves [OF calm1] this] show ?thesis
    by (auto simp: handle_chain_retry_def Let_def split_def b_def [symmetric] cx1_def [symmetric] split: if_splits)
qed

lemma handle_evaluate_conserves:
  assumes "tame env" "cx_inv cx"
  shows "conserves (work, cx) (snd (handle_evaluate env ev work cx))"
proof -
  let ?k = "csi_child_id ev" and ?name = "child_name_of (cx_sup cx) (csi_child_id ev)"
  obtain out sv1 where eval: "evaluate_strategy (cx_now cx) ?k (csi_reason ev) (cx_sup cx) = (out, sv1)"
    by (cases "evaluate_strategy (cx_now cx) ?k (csi_reason ev) (cx_sup cx)")
  define cx1 where "cx1 = cx\<lparr>cx_sup := sv1\<rparr>"
  have calm1: "calm cx cx1"
    using sup_inv_evaluate_strategy [of "cx_sup cx" "cx_now cx" ?k "csi_reason ev"]
      queued_evaluate_strategy [of "cx_now cx" ?k "csi_reason ev" "cx_sup cx"]
    by (simp add: cx1_def eval calm_def)
  then have inv1: "cx_inv cx1" using assms(2) by (simp add: calm_def)
  note deliver = deliver_report_conserves [OF assms(1)]
  have "conserves (work, cx1) (snd (case out of
      RestartOne j \<Rightarrow> deliver_report env ev ?name RestartInitiated None work (initiate_restart j OriginStrategy cx1)
    | RestartGroup commit \<Rightarrow>
        (case handle_group env ev commit work cx1 of
           (Break r, work2, cx2) \<Rightarrow> (Break r, work2, cx2)
         | (Continue, work2, cx2) \<Rightarrow> deliver_report env ev ?name RestartInitiated None work2 cx2)
    | StrategyRemove \<Rightarrow>
        (case prune_spec_if_needed ?k cx1 of
           (removed, cx2) \<Rightarrow> deliver_report env ev ?name Removed removed work cx2)
    | StrategyBudgetExhausted \<Rightarrow>
        budget_exhausted_flow (deliver_report env ev ?name ActionBudgetExhausted None work cx1)))"
  proof (cases "out")
    case (RestartOne j)
    then show ?thesis
      using conserves_trans [OF calm_conserves [OF initiate_restart_calm] deliver] by simp
  next
    case (RestartGroup commit)
    have "distinct (map fst commit)"
      using evaluate_strategy_commit [OF assms(2), of "cx_now cx" ?k "csi_reason ev" commit] RestartGroup eval by simp
    note group = handle_group_conserves [OF assms(1) inv1 this, of work ev]
    obtain fl work2 cx2 where r: "handle_group env ev commit work cx1 = (fl, work2, cx2)"
      by (cases "handle_group env ev commit work cx1")
    show ?thesis
      using RestartGroup group conserves_trans [OF _ deliver] by (cases fl) (auto simp: r)
  next
    case StrategyRemove
    then show ?thesis
      using conserves_trans [OF calm_conserves [OF prune_spec_calm] deliver] by (simp add: split_def)
  next
    case StrategyBudgetExhausted
    then show ?thesis by (simp add: budget_exhausted_conserves deliver)
  qed
  from conserves_trans [OF calm_conserves [OF calm1] this] show ?thesis
    unfolding handle_evaluate_def Let_def eval prod.case cx1_def [symmetric] .
qed

lemma take_snapshot_ok:
  "sup_inv (snd (take_snapshot ev sv)) = sup_inv sv"
  "ss_queued_triggers (snd (take_snapshot ev sv)) = ss_queued_triggers sv"
  "uncommitted_manual (snd (take_snapshot ev sv)) ev = uncommitted_manual sv ev"
  by (simp_all add: take_snapshot_def Let_def sup_frame uncommitted_manual_def sup_life_def)

text \<open>
  What one iteration does to the reports: it consumes its own, defers it, or keeps it in front once its manual stop
  is classified.
\<close>

definition iteration_ok :: "child_stopped_internal \<Rightarrow> worklist \<Rightarrow> sup_ctx \<Rightarrow> worklist \<Rightarrow> sup_ctx \<Rightarrow> bool" where
  "iteration_ok ev work cx work' cx' \<longleftrightarrow> cx_inv cx' \<and>
     (length work' + length (cx_queued cx') \<le> length work + length (cx_queued cx) \<or>
      work' = work \<and> length (cx_queued cx') = Suc (length (cx_queued cx)) \<or>
      work' = ev # work \<and> cx_queued cx' = cx_queued cx \<and>
        uncommitted_manual (cx_sup cx) ev \<noteq> None \<and> uncommitted_manual (cx_sup cx') ev = None)"

lemma iteration_consumes:
  "conserves (work, cx1) (snd r) \<Longrightarrow> cx_inv cx1 \<Longrightarrow> cx_queued cx1 = cx_queued cx \<Longrightarrow>
   iteration_ok ev work cx (fst (snd r)) (snd (snd r))"
  by (simp add: conserves_def iteration_ok_def)

lemma finish_manual_iteration:
  assumes "cx_inv cx1" "cx_queued cx1 = cx_queued cx" "uncommitted_manual (cx_sup cx1) ev = Some kind"
    and "uncommitted_manual (cx_sup cx) ev = Some kind"
  shows "iteration_ok ev work cx (fst (snd (finish_manual env ev kind work cx1)))
    (snd (snd (finish_manual env ev kind work cx1)))"
proof -
  define c where "c = classify_manual_completion (csi_child_id ev) (csi_incarnation ev) kind (csi_reason ev) cx1"
  define d where "d = drop_removed env (opt_list (fst c)) (snd c)"
  have sup_d: "cx_sup (snd d) = cx_sup (snd c)"
    by (simp add: d_def drop_removed_def split: list.splits)
  have "calm cx1 (snd c)"
    by (simp add: c_def classify_calm)
  moreover have "uncommitted_manual (cx_sup (snd c)) ev = None"
    unfolding c_def by (rule classify_commits [OF assms(1,3)])
  moreover have "finish_manual env ev kind work cx1 =
      (case fst d of Some e \<Rightarrow> Break (Failure e) | None \<Rightarrow> Continue, ev # work, snd d)"
    by (simp add: finish_manual_def split_def c_def d_def split: option.splits)
  ultimately show ?thesis
    using assms by (simp add: iteration_ok_def calm_def sup_d)
qed

lemma worklist_step_ok:
  assumes "tame env" "cx_inv cx"
  shows "iteration_ok ev work cx (fst (snd (worklist_step env ev work cx))) (snd (snd (worklist_step env ev work cx)))"
proof -
  obtain snap sv1 where take: "take_snapshot ev (cx_sup cx) = (snap, sv1)"
    by (cases "take_snapshot ev (cx_sup cx)")
  define cx1 where "cx1 = cx\<lparr>cx_sup := sv1\<rparr>"
  have cx1: "cx_inv cx1" "cx_queued cx1 = cx_queued cx" "uncommitted_manual sv1 ev = uncommitted_manual (cx_sup cx) ev"
    using take_snapshot_ok [of ev "cx_sup cx"] take assms(2) by (simp_all add: cx1_def)
  show ?thesis
  proof (cases snap)
    case (Some event)
    then show ?thesis
      using iteration_consumes [OF handle_snapshot_conserves [OF assms(1) cx1(1)] cx1(1,2)]
      by (simp add: worklist_step_def take cx1_def)
  next
    case None
    note snap = None
    show ?thesis
    proof (cases "uncommitted_manual sv1 ev")
      case (Some kind)
      then show ?thesis
        using finish_manual_iteration [OF cx1(1,2), of ev kind work env] cx1(3) snap
        by (simp add: worklist_step_def take cx1_def)
    next
      case None
      note manual = None
      show ?thesis
      proof (cases "case sup_life sv1 (csi_child_id ev) of
          Some l \<Rightarrow> report_class_of l (csi_incarnation ev) = Stale | None \<Rightarrow> False")
        case True
        then show ?thesis
          using snap manual cx1 by (simp add: worklist_step_def take cx1_def iteration_ok_def)
      next
        case False
        obtain routed steps sv2 where route: "route_report (cx_now cx) ev sv1 = (routed, steps, sv2)"
          by (cases "route_report (cx_now cx) ev sv1") auto
        define cx2 where "cx2 = cx\<lparr>cx_sup := sv2\<rparr>"
        have ok: "sup_inv sv2" "ss_queued_triggers sv2 = cx_queued cx @ (if routed = RoutedQueued then [ev] else [])"
          "gst_begin_chain steps = Some start \<Longrightarrow> start_ok (sup_ids sv2) start" for start
          using route_report_ok [of sv1 ev "cx_now cx"] cx1(1,2) route by (auto simp: route_ok_def cx1_def)
        have step: "worklist_step env ev work cx =
            (case routed of RoutedQueued \<Rightarrow> (Continue, work, cx2)
             | RoutedDeliver action \<Rightarrow> handle_deliver env ev action steps work cx2
             | RoutedChainRetry \<Rightarrow> handle_chain_retry env ev work cx2
             | RoutedEvaluate \<Rightarrow> handle_evaluate env ev work cx2)"
          using snap manual False unfolding cx2_def by (simp add: worklist_step_def take route Let_def)
        have cx2: "cx_inv cx2" "routed \<noteq> RoutedQueued \<Longrightarrow> cx_queued cx2 = cx_queued cx"
          using ok by (simp_all add: cx2_def)
        show ?thesis
        proof (cases routed)
          case RoutedQueued
          then show ?thesis
            unfolding step using ok by (simp add: iteration_ok_def cx2_def)
        next
          case (RoutedDeliver action)
          have "gst_begin_chain steps = Some start \<Longrightarrow> start_ok (sup_ids (cx_sup cx2)) start" for start
            using ok(3) by (simp add: cx2_def)
          with RoutedDeliver show ?thesis
            unfolding step
            using iteration_consumes [OF handle_deliver_conserves [OF assms(1), of steps cx2 work ev action] cx2(1)] cx2(2)
            by simp
        next
          case RoutedChainRetry
          then show ?thesis
            unfolding step
            using iteration_consumes [OF handle_chain_retry_conserves [OF assms(1) cx2(1)] cx2(1)] cx2(2) by simp
        next
          case RoutedEvaluate
          then show ?thesis
            unfolding step
            using iteration_consumes [OF handle_evaluate_conserves [OF assms(1) cx2(1)] cx2(1)] cx2(2) by simp
        qed
      qed
    qed
  qed
qed

section \<open>The loop\<close>

text \<open>The measure: reports anywhere, reports in the worklist, and whether the next one ends a manual stop.\<close>

definition loop_reports :: "child_stopped_internal option \<Rightarrow> worklist \<Rightarrow> worklist" where
  "loop_reports first work = opt_list first @ work"

definition loop_rank :: "(child_stopped_internal option \<times> worklist \<times> sup_ctx) rel" where
  "loop_rank = measures
     [\<lambda>(first, work, cx). length (loop_reports first work) + length (cx_queued cx),
      \<lambda>(first, work, cx). length (loop_reports first work),
      \<lambda>(first, work, cx). of_bool (case loop_reports first work of
          [] \<Rightarrow> False | ev # _ \<Rightarrow> uncommitted_manual (cx_sup cx) ev \<noteq> None)]"

lemma next_report_reports: "next_report first work = Some (ev, rest) \<longleftrightarrow> loop_reports first work = ev # rest"
  by (cases "(first, work)" rule: next_report.cases) (auto simp: loop_reports_def)

lemma loop_reports_None [simp]: "loop_reports None work = work"
  by (simp add: loop_reports_def)

lemma iteration_descends:
  assumes "next_report first work = Some (ev, rest)" "iteration_ok ev rest cx work' cx'"
  shows "((None, work', cx'), (first, work, cx)) \<in> loop_rank"
  using assms by (auto simp: loop_rank_def next_report_reports iteration_ok_def)

lemma handle_worklist_returns:
  assumes "tame env" "cx_inv cx"
  shows "\<exists>fl work' cx'. handle_worklist env first work cx = Some (fl, work', cx') \<and> cx_inv cx' \<and>
    (fl = Continue \<longrightarrow> work' = [])"
proof -
  have "wf loop_rank" by (simp add: loop_rank_def)
  then have "cx_inv (snd (snd s)) \<longrightarrow> (\<exists>fl work' cx'.
      handle_worklist env (fst s) (fst (snd s)) (snd (snd s)) = Some (fl, work', cx') \<and> cx_inv cx' \<and>
      (fl = Continue \<longrightarrow> work' = []))" for s
  proof (induction s rule: wf_induct_rule)
    case (less s)
    obtain first work cx where s: "s = (first, work, cx)" by (cases s)
    show ?case
    proof (cases "next_report first work")
      case None
      then have "work = []" by (cases "(first, work)" rule: next_report.cases) auto
      with None show ?thesis by (simp add: s handle_worklist.simps)
    next
      case (Some nr)
      obtain ev rest where ev: "nr = (ev, rest)" by (cases nr)
      obtain fl work' cx' where step: "worklist_step env ev rest cx = (fl, work', cx')"
        by (cases "worklist_step env ev rest cx")
      show ?thesis
      proof (intro impI)
        assume "cx_inv (snd (snd s))"
        then have it: "iteration_ok ev rest cx work' cx'"
          using worklist_step_ok [OF assms(1), of cx ev rest] step by (simp add: s)
        note descends = iteration_descends [OF Some [unfolded ev] it]
        show "\<exists>fl work' cx'. handle_worklist env (fst s) (fst (snd s)) (snd (snd s)) = Some (fl, work', cx') \<and>
            cx_inv cx' \<and> (fl = Continue \<longrightarrow> work' = [])"
          using less [OF descends [folded s]] it Some ev step
          by (cases fl) (auto simp: s iteration_ok_def handle_worklist.simps [of env first])
      qed
    qed
  qed
  from this [of "(first, work, cx)"] assms(2) show ?thesis by simp
qed

lemma owe_rest_inv: "cx_inv cx \<Longrightarrow> cx_inv (snd (owe_rest (fl, work, cx)))"
  by (simp add: owe_rest_def sup_frame)

lemma handle_child_stopped_returns:
  assumes "tame env" "cx_inv cx"
  shows "\<exists>fl cx'. handle_child_stopped env ev cx = Some (fl, cx') \<and> cx_inv cx'"
  using handle_worklist_returns [OF assms, of "Some ev" "[]"] owe_rest_inv
  by (fastforce simp: handle_child_stopped_def owe_rest_def sup_frame)

lemma handle_released_returns:
  assumes "tame env" "cx_inv cx"
  shows "\<exists>fl cx'. handle_released env released cx = Some (fl, cx') \<and> cx_inv cx'"
  using handle_worklist_returns [OF assms, of None released] owe_rest_inv
  by (fastforce simp: handle_released_def owe_rest_def sup_frame)

end
