(* ===== verification/Supervision_Loop.thy ===== *)
theory Supervision_Loop
  imports Worklist
begin

text \<open>
  A supervisor's turns (\<open>next_supervision_event\<close> and its arm of the loop in \<open>src/src/actor/runtime.rs\<close>) and the
  calls its callbacks make.  The results: a turn returns whatever the callbacks call, and every state a
  supervisor reaches holds the invariant of \<open>Supervisor_Inv\<close>.
\<close>

section \<open>Calls of a callback\<close>

text \<open>
  What changes the context while a callback runs: the calls it makes, and what the executors, the clock and the
  descendants do meanwhile.  A manual stop is its commit, what happens during its wait, and the outcome
  of the wait.  The id of an unnamed child is a new UUID, so it is not registered.
\<close>

datatype env_op = EnvSlot actor_id slot | EnvTime instant | EnvGone "token_id \<Rightarrow> bool"

fun env_step :: "sup_ctx \<Rightarrow> env_op \<Rightarrow> sup_ctx" where
  "env_step cx (EnvSlot k s) = on_child_ctl k (\<lambda>_. s) cx"
| "env_step cx (EnvTime t) = cx\<lparr>cx_now := t\<rparr>"
| "env_step cx (EnvGone g) = cx\<lparr>cx_gone := g\<rparr>"

datatype ctx_op =
    OpEnv env_op
  | OpSpawn actor_id "string option" child_spec factory "spawn_error + lane_cell \<times> status_cell \<times> token_id"
  | OpAwaitRetired "actor_id option"
  | OpManual actor_id manual_stop "env_op list" cell_outcome wait_action
  | OpManualDropped actor_id manual_stop
  | OpRestart actor_id
  | OpDelete actor_id
  | OpFail actor_error

definition manual_call ::
  "actor_id \<Rightarrow> manual_stop \<Rightarrow> env_op list \<Rightarrow> cell_outcome \<Rightarrow> wait_action \<Rightarrow> sup_ctx \<Rightarrow>
   (supervision_error + stop_child_outcome) \<times> sup_ctx" where
  "manual_call k kind during out action cx =
     (case manual_stop_commit k kind cx of
        (stage, cx1) \<Rightarrow>
          (case manual_stop_joined k stage out (run env_step cx1 during) of
             ((decided, _), cx2) \<Rightarrow> manual_stop_child k decided action cx2))"

fun ctx_step :: "sup_ctx \<Rightarrow> ctx_op \<Rightarrow> sup_ctx" where
  "ctx_step cx (OpEnv e) = env_step cx e"
| "ctx_step cx (OpSpawn k name spec f spawned) =
     (if name = None \<and> sup_child (cx_sup cx) k \<noteq> None then cx
      else snd (spawn_child_internal k name spec f spawned cx))"
| "ctx_step cx (OpAwaitRetired named) = snd (await_retired_subtree named cx)"
| "ctx_step cx (OpManual k kind during out action) = snd (manual_call k kind during out action cx)"
| "ctx_step cx (OpManualDropped k kind) = snd (manual_stop_commit k kind cx)"
| "ctx_step cx (OpRestart k) = snd (restart_child k cx)"
| "ctx_step cx (OpDelete k) = snd (snd (delete_child k cx))"
| "ctx_step cx (OpFail e) = record_failure e cx"

text \<open>
  A callback reaches the supervisor only through the context's methods: whatever it computes, its effect is a
  sequence of them, which may depend on the event and on all it reads.
\<close>

type_synonym script = "child_event \<Rightarrow> sup_ctx \<Rightarrow> hook_result \<times> ctx_op list"

definition scripted :: "script \<Rightarrow> (factory \<Rightarrow> string option) \<Rightarrow> sup_env" where
  "scripted script drops =
     \<lparr>env_on_child_stopped = (\<lambda>event cx. case script event cx of (r, ops) \<Rightarrow> (r, run ctx_step cx ops)),
      env_drop = drops\<rparr>"

section \<open>Turns\<close>

datatype sup_event =
    RestartDone task_id restart_outcome
  | RestartLost task_id "string option"
  | DeathDone task_id child_stopped_internal
  | DeathLost task_id "string option"
  | VerdictEvent

text \<open>A finished task leaves its join set and the owner table.\<close>

definition join_death :: "task_id \<Rightarrow> supervision_state \<Rightarrow> supervision_state" where
  "join_death t sv = sv\<lparr>ss_death_set := hdel t (ss_death_set sv), ss_task_owner := hdel t (ss_task_owner sv)\<rparr>"

definition join_restart :: "task_id \<Rightarrow> supervision_state \<Rightarrow> supervision_state" where
  "join_restart t sv = sv\<lparr>ss_restart_set := hdel t (ss_restart_set sv), ss_task_owner := hdel t (ss_task_owner sv)\<rparr>"

definition note_task_error :: "actor_error option \<Rightarrow> sup_ctx \<Rightarrow> sup_ctx" where
  "note_task_error panic cx =
     (case panic of Some e \<Rightarrow> cx\<lparr>cx_last_task_error := Some e\<rparr> | None \<Rightarrow> cx)"

text \<open>
  \<open>ActorContext::lost_death_task\<close> and \<open>lost_restart_task\<close>: the join set gave up the failed task before they run, and its
  owner is still recorded.
\<close>

definition ctx_lost_death_task :: "task_id \<Rightarrow> string option \<Rightarrow> sup_ctx \<Rightarrow> task_id option \<times> sup_ctx" where
  "ctx_lost_death_task failed payload cx =
     (let (tid, cx1) = take_task_id cx;
          sv0 = (cx_sup cx1)\<lparr>ss_death_set := hdel failed (ss_death_set (cx_sup cx1))\<rparr>;
          (panic, replacement, sv) = lost_death_task tid failed payload sv0
      in (replacement, note_task_error panic (cx1\<lparr>cx_sup := sv\<rparr>)))"

definition ctx_lost_restart_task ::
  "task_id \<Rightarrow> string option \<Rightarrow> sup_ctx \<Rightarrow> restart_outcome option \<times> task_id option \<times> sup_ctx" where
  "ctx_lost_restart_task failed payload cx =
     (let (tid, cx1) = take_task_id cx;
          sv0 = (cx_sup cx1)\<lparr>ss_restart_set := hdel failed (ss_restart_set (cx_sup cx1))\<rparr>;
          (outcome, panic, replacement, sv) = lost_restart_task tid failed payload sv0
      in (outcome, replacement, note_task_error panic (cx1\<lparr>cx_sup := sv\<rparr>)))"

fun supervision_event :: "sup_env \<Rightarrow> sup_event \<Rightarrow> sup_ctx \<Rightarrow> (flow \<times> sup_ctx) option" where
  "supervision_event env (RestartDone t outcome) cx =
     handle_restart_outcome env outcome (on_sup (join_restart t) cx)"
| "supervision_event env (RestartLost t payload) cx =
     (case ctx_lost_restart_task t payload cx of
        (Some outcome, _, cx') \<Rightarrow> handle_restart_outcome env outcome cx'
      | (None, _, cx') \<Rightarrow> Some (Continue, cx'))"
| "supervision_event env (DeathDone t report) cx =
     handle_child_stopped env report (on_sup (join_death t) cx)"
| "supervision_event env (DeathLost t payload) cx = Some (Continue, snd (ctx_lost_death_task t payload cx))"
| "supervision_event env VerdictEvent cx = Some (Continue, on_sup (advance_stop_queue (cx_now cx)) cx)"

definition supervision_turn :: "sup_env \<Rightarrow> sup_event \<Rightarrow> sup_ctx \<Rightarrow> (flow \<times> sup_ctx) option" where
  "supervision_turn env e cx =
     map_option (\<lambda>(fl, cx').
        case fl of
          Break r \<Rightarrow> (Break r, cx')
        | Continue \<Rightarrow>
            (case check_verdicts cx' of
               (Some r, cx'') \<Rightarrow> (Break r, cx'')
             | (None, cx'') \<Rightarrow> (Continue, cx'')))
       (supervision_event env e cx)"

section \<open>Every call is calm\<close>

lemma on_child_ctl_calm: "calm cx (on_child_ctl k f cx)"
  by (simp add: calm_def on_child_ctl_def sup_inv_modify queued_frame)

lemma finish_manual_stop_calm: "calm cx (snd (finish_manual_stop k n kind reason cx))"
  by (simp add: finish_manual_stop_def classify_calm split: option.splits child_lifecycle.splits)

lemma run_effects_calm: "calm cx (snd (run_effects k n kind policy raised removed es cx))"
proof (induction k n kind policy raised removed es cx rule: run_effects.induct)
  case (8 k n kind policy raised removed es cx)
  obtain f sv where dis: "dismiss_owed_evaluation (cx_gone cx) k (cx_sup cx) = (f, sv)"
    by (cases "dismiss_owed_evaluation (cx_gone cx) k (cx_sup cx)")
  have "calm cx (cx\<lparr>cx_sup := sv\<rparr>)"
    using sup_inv_dismiss [of "cx_sup cx" "cx_gone cx" k] queued_dismiss [of "cx_gone cx" k "cx_sup cx"]
    by (simp add: calm_def dis)
  with 8 [OF dis [symmetric]] show ?case by (auto simp: dis intro: calm_trans)
next
  case (10 k n kind policy raised removed es cx)
  show ?case
  proof (cases "sup_child (cx_sup cx) k")
    case None
    with 10(1) show ?thesis by simp
  next
    case (Some child)
    obtain f cx1 where fin: "finish_manual_stop k n kind (end_reason (ch_ctl child)) cx = (f, cx1)"
      by (cases "finish_manual_stop k n kind (end_reason (ch_ctl child)) cx")
    have "calm cx cx1"
      using finish_manual_stop_calm [of cx k n kind "end_reason (ch_ctl child)"] fin by simp
    with 10(2) [OF Some fin [symmetric]] Some fin show ?thesis by (auto intro: calm_trans)
  qed
qed (simp_all add: calm_def on_child_ctl_def sup_inv_modify sup_inv_record_override sup_inv_leave sup_inv_rewrite
    queued_frame)

lemma manual_stop_commit_calm: "calm cx (snd (manual_stop_commit k kind cx))"
proof -
  have "calm cx (case t of None \<Rightarrow> cx | Some l \<Rightarrow> on_sup (sup_modify k (\<lambda>c. snd (child_transition l c))) cx)" for t
    by (simp add: calm_def sup_inv_modify queued_frame split: option.splits)
  from calm_trans [OF this run_effects_calm] show ?thesis
    by (simp add: manual_stop_commit_def Let_def)
qed

lemma env_step_calm: "calm cx (env_step cx e)"
  by (cases e) (simp_all add: on_child_ctl_calm calm_sup_eq)

lemma env_run_calm: "calm cx (run env_step cx es)"
  by (induction es arbitrary: cx) (auto intro: calm_trans env_step_calm)

lemma manual_stop_joined_calm: "calm cx (snd (manual_stop_joined k stage out cx))"
  by (cases "(k, stage, out, cx)" rule: manual_stop_joined.cases)
    (simp_all add: split_def finish_manual_stop_calm)

lemma await_child_subtree_calm: "calm cx (snd (await_child_subtree k cx))"
  using sup_inv_predecessor_of [of "cx_sup cx" "cx_gone cx" k] queued_predecessor(2) [of "cx_gone cx" k "cx_sup cx"]
  by (auto simp: await_child_subtree_def calm_def split: prod.splits option.splits)

lemma manual_stop_child_calm: "calm cx (snd (manual_stop_child k decided action cx))"
  using await_child_subtree_calm [of cx k]
  by (auto simp: manual_stop_child_def split: sum.splits prod.splits option.splits)

lemma manual_call_calm: "calm cx (snd (manual_call k kind during out action cx))"
proof -
  obtain stage cx1 where c: "manual_stop_commit k kind cx = (stage, cx1)"
    by (cases "manual_stop_commit k kind cx")
  obtain d fs cx2 where j: "manual_stop_joined k stage out (run env_step cx1 during) = ((d, fs), cx2)"
    by (cases "manual_stop_joined k stage out (run env_step cx1 during)") auto
  have "calm cx cx1" using manual_stop_commit_calm [of cx k kind] c by simp
  also have "calm cx1 (run env_step cx1 during)" by (rule env_run_calm)
  also have "calm \<dots> cx2" using manual_stop_joined_calm [of "run env_step cx1 during" k stage out] j by simp
  also have "calm cx2 (snd (manual_stop_child k d action cx2))" by (rule manual_stop_child_calm)
  finally show ?thesis by (simp add: manual_call_def c j)
qed

lemma sup_inv_register:
  assumes "sup_inv sv" "ch_id child = k" "sup_child sv k = None"
  shows "sup_inv (sv\<lparr>ss_registry := registry_register child (ss_registry sv),
    ss_restart_fns := hput k f (ss_restart_fns sv)\<rparr>)"
proof -
  have ids: "set (all_ids (registry_register child (ss_registry sv))) = insert k (sup_ids sv)"
    using assms(2) by (auto simp: all_ids_def registry_register_def sup_ids_def)
  have "registry_ok (registry_register child (ss_registry sv))"
    using assms by (simp add: registry_ok_register sup_inv_registry)
  then show ?thesis
    using assms(1) group_ok_mono [OF _ subset_insertI]
    by (auto simp: sup_inv_def sup_ids_def [of "sv\<lparr>ss_registry := r, ss_restart_fns := g\<rparr>" for r g] ids)
qed

lemma spawn_child_calm:
  assumes "name \<noteq> None \<or> sup_child (cx_sup cx) k = None"
  shows "calm cx (snd (spawn_child_internal k name spec f spawned cx))"
proof (cases "refuse_spawn (if name = None then None else Some k) (cx_sup cx)")
  case (Some e)
  then show ?thesis by (simp add: spawn_child_internal_def)
next
  case None
  then have absent: "sup_child (cx_sup cx) k = None"
    using assms by (auto simp: refuse_spawn_def split: if_splits)
  show ?thesis
  proof (cases spawned)
    case (Inl e)
    with None show ?thesis by (simp add: spawn_child_internal_def)
  next
    case (Inr parts)
    obtain lane status subtree where parts: "parts = (lane, status, subtree)" by (cases parts)
    have "sup_child (spawn_death t k n d sv) k = sup_child sv k" for t n d sv
      by (simp add: spawn_death_def)
    then show ?thesis
      using None Inr parts absent
      by (simp add: spawn_child_internal_def Let_def next_incarnation_def take_task_id_def calm_def
          sup_inv_register sup_inv_spawn_death queued_frame)
  qed
qed

lemma restart_child_calm: "calm cx (snd (restart_child k cx))"
  by (simp add: restart_child_def Let_def next_incarnation_def take_task_id_def calm_def sup_inv_initiate
      queued_frame split: sum.splits)

lemma delete_child_calm: "calm cx (snd (snd (delete_child k cx)))"
  by (simp add: delete_child_def calm_def sup_inv_remove_spec queued_frame split_def split: sum.splits)

lemma await_retired_calm: "calm cx (snd (await_retired_subtree named cx))"
  by (simp add: await_retired_subtree_def calm_def sup_inv_retired_subtree queued_frame split_def split: option.splits)

lemma ctx_step_calm: "calm cx (ctx_step cx op)"
  by (cases op) (auto simp: env_step_calm spawn_child_calm await_retired_calm manual_call_calm
      manual_stop_commit_calm restart_child_calm delete_child_calm calm_sup_eq)

lemma ctx_run_calm: "calm cx (run ctx_step cx ops)"
  by (induction ops arbitrary: cx) (auto intro: calm_trans ctx_step_calm)

lemma scripted_tame: "tame (scripted script drops)"
  by (simp add: tame_def scripted_def ctx_run_calm split_def)

section \<open>Every turn returns and keeps the invariant\<close>

lemma sup_inv_join_death [sup_intros]: "sup_inv sv \<Longrightarrow> sup_inv (join_death t sv)"
  unfolding join_death_def
  by (rule sup_inv_death_tasks) (auto simp: sup_inv_def intro: owner_table_del)

lemma sup_inv_join_restart [sup_intros]: "sup_inv sv \<Longrightarrow> sup_inv (join_restart t sv)"
  unfolding join_restart_def
  by (rule sup_inv_restart_tasks) (auto simp: sup_inv_def intro: owner_table_del)

lemma lost_death_joined:
  assumes "sup_inv sv"
  shows "sup_inv (snd (snd (lost_death_task tid t payload (sv\<lparr>ss_death_set := hdel t (ss_death_set sv)\<rparr>))))"
proof -
  have "join_death t sv = (sv\<lparr>ss_death_set := hdel t (ss_death_set sv)\<rparr>)\<lparr>ss_task_owner := hdel t (ss_task_owner sv)\<rparr>"
    by (simp add: join_death_def)
  with sup_inv_join_death [OF assms, of t] show ?thesis
    by (auto simp: lost_death_task_def Let_def intro!: sup_inv_spawn_death split: option.splits)
qed

lemma lost_restart_joined:
  assumes "sup_inv sv"
  shows "sup_inv (snd (snd (snd (lost_restart_task tid t payload (sv\<lparr>ss_restart_set := hdel t (ss_restart_set sv)\<rparr>)))))"
proof -
  have "join_restart t sv = (sv\<lparr>ss_restart_set := hdel t (ss_restart_set sv)\<rparr>)\<lparr>ss_task_owner := hdel t (ss_task_owner sv)\<rparr>"
    by (simp add: join_restart_def)
  with sup_inv_join_restart [OF assms, of t] show ?thesis
    by (auto simp: lost_restart_task_def Let_def intro!: sup_inv_spawn_death split: option.splits)
qed

lemma cx_sup_note_task_error [simp]: "cx_sup (note_task_error p cx) = cx_sup cx"
  by (simp add: note_task_error_def split: option.splits)

lemma ctx_lost_tasks_inv:
  assumes "cx_inv cx"
  shows "cx_inv (snd (ctx_lost_death_task t payload cx))"
    "cx_inv (snd (snd (ctx_lost_restart_task t payload cx)))"
  using lost_death_joined [OF assms] lost_restart_joined [OF assms]
  by (simp_all add: ctx_lost_death_task_def ctx_lost_restart_task_def Let_def split_def take_task_id_def)

lemma sup_inv_record_cancelled [sup_intros]: "sup_inv sv \<Longrightarrow> sup_inv (record_cancelled k n sv)"
  by (simp add: record_cancelled_def sup_inv_record_down split: option.splits child_lifecycle.splits)

lemma sup_inv_adopt_runner [sup_intros]: "sup_inv sv \<Longrightarrow> sup_inv (adopt_runner tid k seq sv)"
proof -
  assume inv: "sup_inv sv"
  let ?sv = "spawn_death tid k seq (RunnerTask k seq) sv"
  have sp: "sup_inv ?sv" using inv by (simp add: sup_inv_spawn_death)
  let ?f = "\<lambda>c. case ch_lifecycle c of
    Restarting _ nxt \<Rightarrow> if nxt = seq then c\<lparr>ch_lifecycle := Running seq\<rparr> else c | _ \<Rightarrow> c"
  have "?sv\<lparr>ss_registry := snd (update_restarted k seq (ss_registry ?sv))\<rparr> = sup_modify k ?f ?sv"
    using sp by (simp add: sup_modify_def update_restarted_modify sup_inv_registry)
  moreover have "sup_inv (sup_modify k ?f ?sv)"
    using sp by (rule sup_inv_modify) simp
  ultimately show ?thesis
    by (simp add: adopt_runner_def Let_def sup_inv_modify)
qed

lemma adopt_restart_returns:
  assumes "tame env" "cx_inv cx"
  shows "\<exists>fl cx'. adopt_restart env k seq cx = Some (fl, cx') \<and> cx_inv cx'"
proof (cases "attempt_accepted (cx_sup cx) k seq")
  case True
  obtain tid cx1 where t: "take_task_id cx = (tid, cx1)" by (cases "take_task_id cx")
  define sv where "sv = adopt_runner tid k seq (cx_sup cx1)"
  have sv: "sup_inv sv"
    using assms(2) cx_sup_draws(2) [of cx] by (simp add: sv_def t sup_inv_adopt_runner)
  have folded: "sup_inv (set_stopping (g\<lparr>gr_awaiting := a\<rparr>) sv)"
    if "ss_pending_group sv = Some (GroupStopping g)" for g a
    using sup_inv_groupD [OF sv that] by (intro sup_inv_set_stopping sv) simp
  have chain: "cx_inv (snd (run_chain_step [] (cx1\<lparr>cx_sup := sv\<rparr>)))"
    using run_chain_step_conserves [of "[]" "cx1\<lparr>cx_sup := sv\<rparr>"] sv by (simp add: conserves_def)
  note returns = handle_released_returns [OF assms(1)]
  show ?thesis
    using True t sv folded chain
    by (auto simp: adopt_restart_def Let_def sv_def [symmetric] split_def
        split: option.splits group_phase.splits intro!: returns)
qed (use assms in \<open>simp add: adopt_restart_def\<close>)

lemma handle_cancelled_returns:
  assumes "tame env" "cx_inv cx"
  shows "\<exists>fl cx'. handle_cancelled env k n dp cx = Some (fl, cx') \<and> cx_inv cx'"
proof -
  define settle where "settle = settle_barrier k n (record_cancelled k n (cx_sup cx))"
  define adv where "adv = (if fst settle then advance_group_stop (cx_now cx) (snd settle) else (None, snd settle))"
  define cx1 where "cx1 = cx\<lparr>cx_sup := snd adv\<rparr>"
  define r where "r = (case fst adv of Some start \<Rightarrow> start_restart_chain start [] cx1 | None \<Rightarrow> ([], cx1))"
  have "sup_inv (snd settle)"
    using assms(2) by (simp add: settle_def settle_barrier_inv sup_inv_record_cancelled)
  then have adv: "sup_inv (snd adv)" "fst adv = Some start \<Longrightarrow> start_ok (sup_ids (snd adv)) start" for start
    using advance_group_stop_inv [of "snd settle" "cx_now cx"] by (auto simp: adv_def split: if_splits)
  have "conserves ([], cx1) r"
    unfolding r_def using start_restart_chain_conserves [of cx1] adv by (simp add: cx1_def split: option.splits)
  then have inv: "cx_inv (snd r)" using adv(1) by (simp add: conserves_def cx1_def)
  have "handle_cancelled env k n dp cx =
    (case dp of
       Some p \<Rightarrow> Some (Break (Failure (Panic p)),
         on_sup (\<lambda>sv. sv\<lparr>ss_owed := ss_owed sv @ fst r\<rparr>) (record_failure (Panic p) (snd r)))
     | None \<Rightarrow> if fst adv = None then Some (Continue, snd r) else handle_released env (fst r) (snd r))"
    unfolding handle_cancelled_def Let_def split_def settle_def [symmetric]
    unfolding adv_def [symmetric]
    unfolding cx1_def [symmetric]
    unfolding r_def [symmetric] by simp
  then show ?thesis
    using inv handle_released_returns [OF assms(1) inv, of "fst r"] by (auto simp: sup_frame split: option.splits)
qed

lemma handle_restart_outcome_returns:
  assumes "tame env" "cx_inv cx"
  shows "\<exists>fl cx'. handle_restart_outcome env outcome cx = Some (fl, cx') \<and> cx_inv cx'"
  using assms
  by (cases outcome) (simp_all add: adopt_restart_returns handle_child_stopped_returns handle_cancelled_returns
      Let_def sup_inv_record_cancelled)

lemma supervision_event_returns:
  assumes "tame env" "cx_inv cx"
  shows "\<exists>fl cx'. supervision_event env e cx = Some (fl, cx') \<and> cx_inv cx'"
proof (cases e)
  case (RestartDone t outcome)
  then show ?thesis
    using handle_restart_outcome_returns [OF assms(1), of "on_sup (join_restart t) cx" outcome] assms(2)
    by (simp add: sup_inv_join_restart)
next
  case (RestartLost t payload)
  obtain outcome rep cx1 where lost: "ctx_lost_restart_task t payload cx = (outcome, rep, cx1)"
    by (cases "ctx_lost_restart_task t payload cx")
  have "cx_inv cx1" using ctx_lost_tasks_inv(2) [OF assms(2), of t payload] lost by simp
  then show ?thesis
    using RestartLost lost handle_restart_outcome_returns [OF assms(1), of cx1] by (cases outcome) simp_all
next
  case (DeathDone t report)
  then show ?thesis
    using handle_child_stopped_returns [OF assms(1), of "on_sup (join_death t) cx" report] assms(2)
    by (simp add: sup_inv_join_death)
qed (use assms ctx_lost_tasks_inv in \<open>simp_all add: sup_inv_advance_stop_queue\<close>)

lemma check_verdicts_sup [simp]: "cx_sup (snd (check_verdicts cx)) = cx_sup cx"
  by (simp add: check_verdicts_def Let_def split: option.splits)

lemma supervision_turn_inv:
  assumes "tame env" "cx_inv cx"
  shows "\<exists>fl cx'. supervision_turn env e cx = Some (fl, cx') \<and> cx_inv cx'"
proof -
  obtain fl cx1 where ev: "supervision_event env e cx = Some (fl, cx1)" "cx_inv cx1"
    using supervision_event_returns [OF assms] by blast
  obtain v cx2 where v: "check_verdicts cx1 = (v, cx2)" by (cases "check_verdicts cx1")
  have "cx_sup cx2 = cx_sup cx1" using check_verdicts_sup [of cx1] v by simp
  with ev v show ?thesis
    by (cases fl; cases v) (simp_all add: supervision_turn_def)
qed

section \<open>A supervisor's life\<close>

text \<open>The inputs of a running supervisor: turns of the supervision arm, and the calls its handlers make.\<close>

datatype loop_input = Turn sup_event | Call ctx_op

fun loop_step :: "sup_env \<Rightarrow> sup_ctx \<Rightarrow> loop_input \<Rightarrow> sup_ctx" where
  "loop_step env cx (Turn e) = (case supervision_turn env e cx of Some (_, cx') \<Rightarrow> cx' | None \<Rightarrow> cx)"
| "loop_step env cx (Call op) = ctx_step cx op"

definition sup_ctx_new :: "supervision_config \<Rightarrow> u64 \<Rightarrow> instant \<Rightarrow> sup_ctx" where
  "sup_ctx_new config n now =
     \<lparr>cx_sup = supervision_state_new config, cx_next_incarnation = n, cx_next_task = 0, cx_now = now,
      cx_gone = (\<lambda>_. False), cx_last_error = None, cx_last_task_error = None\<rparr>"

lemma loop_step_inv: "cx_inv cx \<Longrightarrow> cx_inv (loop_step (scripted script drops) cx i)"
proof (cases i)
  case (Turn e)
  assume "cx_inv cx"
  then obtain fl cx' where "supervision_turn (scripted script drops) e cx = Some (fl, cx')" "cx_inv cx'"
    using supervision_turn_inv [OF scripted_tame] by blast
  with Turn show ?thesis by simp
next
  case (Call op)
  then show "cx_inv cx \<Longrightarrow> ?thesis"
    using ctx_step_calm [of cx op] by (simp add: calm_def)
qed

interpretation supervisor: invariant_machine "loop_step (scripted script drops)" "\<lambda>cx. sup_inv (cx_sup cx)"
  for script drops
  by unfold_locales (rule loop_step_inv)

lemma reachable_inv:
  "cx_inv (run (loop_step (scripted script drops)) (sup_ctx_new config n now) inputs)"
  by (rule supervisor.run_inv) (simp add: sup_ctx_new_def sup_inv_new)

definition plane_owners :: "task_plane \<Rightarrow> supervision_state \<Rightarrow> (task_id \<times> actor_id \<times> u64 \<times> task_plane) list" where
  "plane_owners plane sv = filter (\<lambda>(t, k, n, p). p = plane) (ss_task_owner sv)"

lemma plane_owners_bound:
  assumes "owners_ok sv"
  shows "length (plane_owners PlaneDeath sv) \<le> length (ss_death_set sv)"
    and "length (plane_owners PlaneRestart sv) \<le> length (ss_restart_set sv)"
proof -
  have distinct: "distinct (map fst (plane_owners plane sv))" for plane
    using assms by (simp add: owner_table_ok_def plane_owners_def distinct_map_filter)
  have key: "task_key (ss_death_set sv) (ss_restart_set sv) plane t \<noteq> None"
    if listed: "t \<in> set (map fst (plane_owners plane sv))" for plane t
  proof -
    obtain k n where "(t, k, n, plane) \<in> set (ss_task_owner sv)"
      using listed by (auto simp: plane_owners_def)
    then show ?thesis
      using assms by (auto simp: owner_table_ok_def)
  qed
  have bound: "length (plane_owners plane sv) \<le> length m"
    if "\<And>t. t \<in> set (map fst (plane_owners plane sv)) \<Longrightarrow> hget m t \<noteq> None" for plane and m :: "(task_id \<times> 'v) list"
  proof -
    have "set (map fst (plane_owners plane sv)) \<subseteq> set (map fst m)"
      using that by (auto simp: map_of_eq_None_iff)
    then have "card (set (map fst (plane_owners plane sv))) \<le> card (set (map fst m))"
      by (simp add: card_mono)
    also have "\<dots> \<le> length m"
      using card_length [of "map fst m"] by simp
    finally show ?thesis
      using distinct_card [OF distinct [of plane]] by simp
  qed
  show "length (plane_owners PlaneDeath sv) \<le> length (ss_death_set sv)"
    using key [of _ PlaneDeath] by (intro bound) auto
  show "length (plane_owners PlaneRestart sv) \<le> length (ss_restart_set sv)"
    using key [of _ PlaneRestart] by (intro bound) auto
qed

text \<open>
  C1.  In every state a supervisor reaches, whatever its callbacks call and however tasks end, a further turn of its
  supervision arm returns: the worklist of reports, with its classifications, group restarts and released
  triggers, comes to an end.
\<close>

theorem supervision_turn_returns:
  "\<exists>fl cx'. supervision_turn (scripted script drops) e
     (run (loop_step (scripted script drops)) (sup_ctx_new config n now) inputs) = Some (fl, cx')"
  using supervision_turn_inv [OF scripted_tame reachable_inv] by blast

text \<open>
  C2.  In every state a supervisor reaches, its registry finds each child under its id, exactly the registered
  children have a restart factory, a pending group holds releases, starts and scope of registered children
  only and no child twice in an order, every owner entry names the incarnation its task follows, and the owner
  table lists no more tasks of a plane than that plane's join set holds (the assertions of
  \<open>final_await_sets\<close>).
\<close>

theorem supervisor_states_sound:
  "let sv = cx_sup (run (loop_step (scripted script drops)) (sup_ctx_new config n now) inputs)
   in sup_inv sv \<and>
      length (plane_owners PlaneDeath sv) \<le> length (ss_death_set sv) \<and>
      length (plane_owners PlaneRestart sv) \<le> length (ss_restart_set sv)"
  using reachable_inv [of script drops config n now inputs] plane_owners_bound
  by (simp add: Let_def sup_inv_def)

end
