(* ===== verification/Supervisor_Props.thy ===== *)
theory Supervisor_Props
  imports Supervision_Loop "HOL-Library.Multiset"
begin

text \<open>
  What a supervisor's operations promise: a group's members are stopped one at a time, its chain starts one
  member at a time, the absorption of owed reports loses none, a refused call changes nothing, and a deleted id
  can be spawned again.
\<close>

section \<open>Examples\<close>

definition example_sup :: "group_phase option \<Rightarrow> child_lifecycle \<Rightarrow> child_lifecycle \<Rightarrow> supervision_state" where
  "example_sup pend la lb =
     (supervision_state_new one_for_all)
       \<lparr>ss_registry := \<lparr>cr_children = [(example_child ''a'' 1)\<lparr>ch_lifecycle := la\<rparr>,
            (example_child ''b'' 2)\<lparr>ch_lifecycle := lb\<rparr>], cr_index = [(''a'', 0), (''b'', 1)]\<rparr>,
        ss_restart_fns := [(''a'', 0), (''b'', 1)], ss_pending_group := pend\<rparr>"

lemma example_sup_inv:
  assumes "\<And>g. pend = Some g \<Longrightarrow> group_ok {''a'', ''b''} g"
  shows "sup_inv (example_sup pend la lb)"
  using assms
  by (simp add: sup_inv_def example_sup_def sup_ids_def registry_ok_def all_ids_def example_child_def
      supervision_state_new_def owner_table_ok_def has_key_def)

section \<open>The stop queue\<close>

text \<open>A member the queue need not stop: its end was delivered, it has the verdict, or its end was classified.\<close>

definition member_passed :: "supervision_state \<Rightarrow> group_restart \<Rightarrow> actor_id \<Rightarrow> bool" where
  "member_passed sv g k \<longleftrightarrow>
     (case hget (gr_awaiting g) k of
        None \<Rightarrow> True
      | Some n \<Rightarrow> has_key (ss_pending_manual_events sv) (k, n) \<or>
          (case sup_child sv k of
             Some c \<Rightarrow> held_token (ch_lifecycle c) = n \<and> is_unresponsive (ch_ctl c)
           | None \<Rightarrow> False))"

lemma slot_of_held: "slot_of c n = (if held_token (ch_lifecycle c) = n then Some (ch_ctl c) else None)"
  by (simp add: slot_of_def Let_def split: child_lifecycle.splits)

lemma unresponsive_effect [simp]:
  "is_unresponsive (ch_ctl (queue_effect now step c)) = is_unresponsive (ch_ctl c)"
  "ch_lifecycle (queue_effect now step c) = ch_lifecycle c"
  by (cases step; simp add: is_unresponsive_def order_stop_def write_order_def raise_first_def slot_raise_def
      ask_and_mark_def mark_reasked_def ask_again_def Let_def split: option.splits prod.splits)+

lemma member_passed_step:
  assumes "sup_inv sv"
  shows "member_passed (set_stopping g' (sup_modify k (queue_effect now step) sv))
      (g\<lparr>gr_stop_queue := q, gr_head_reached := h\<rparr>) j = member_passed sv g j"
proof -
  have child: "sup_child (set_stopping g' (sup_modify k (queue_effect now step) sv)) j =
      (if j = k then map_option (queue_effect now step) (sup_child sv k) else sup_child sv j)"
    using assms by (simp add: set_stopping_def sup_child_modify)
  show ?thesis
    unfolding member_passed_def child
    by (simp add: set_stopping_def frame_simps split: option.splits)
qed

definition queue_outcome :: "instant \<Rightarrow> supervision_state \<Rightarrow> supervision_state \<Rightarrow> bool" where
  "queue_outcome now sv r \<longleftrightarrow>
     (\<forall>g. ss_pending_group sv = Some (GroupStopping g) \<longrightarrow>
        (\<exists>past rest reached. gr_stop_queue g = past @ rest \<and>
           ss_pending_group r =
             Some (GroupStopping (g\<lparr>gr_stop_queue := rest, gr_head_reached := reached\<rparr>)) \<and>
           (\<forall>k. k \<in> set past \<longrightarrow> member_passed sv g k) \<and>
           (\<forall>k. k \<notin> set (past @ take 1 rest) \<longrightarrow> sup_child r k = sup_child sv k) \<and>
           (rest = [] \<or> reached \<and> has_key (gr_awaiting g) (hd rest))))"

lemma queue_outcomeE:
  assumes "queue_outcome now sv r" "ss_pending_group sv = Some (GroupStopping g)"
  obtains past rest reached where "gr_stop_queue g = past @ rest"
    "ss_pending_group r = Some (GroupStopping (g\<lparr>gr_stop_queue := rest, gr_head_reached := reached\<rparr>))"
    "\<forall>k. k \<in> set past \<longrightarrow> member_passed sv g k"
    "\<forall>k. k \<notin> set (past @ take 1 rest) \<longrightarrow> sup_child r k = sup_child sv k"
    "rest = [] \<or> reached \<and> has_key (gr_awaiting g) (hd rest)"
  using assms unfolding queue_outcome_def by blast

lemma stop_queue_popped: "stop_queue_next (queue_head_of sv g k) = QueuePop \<Longrightarrow> member_passed sv g k"
  by (auto simp: stop_queue_next_def member_passed_def queue_head_of_def slot_held_def slot_of_held Let_def
      split: if_splits child_lifecycle.splits option.splits)

lemma stop_queue_waits: "stop_queue_next (queue_head_of sv g k) = QueueWait \<Longrightarrow>
    gr_head_reached g \<and> has_key (gr_awaiting g) k"
  by (auto simp: stop_queue_next_def queue_head_of_def has_key_def Let_def
      split: if_splits child_lifecycle.splits option.splits)

lemma queue_outcome_stay:
  assumes "ss_pending_group sv = Some (GroupStopping g)"
    and "gr_stop_queue g = [] \<or> gr_head_reached g \<and> has_key (gr_awaiting g) (hd (gr_stop_queue g))"
  shows "queue_outcome now sv sv"
proof -
  have "\<exists>past rest reached. gr_stop_queue g = past @ rest \<and>
      ss_pending_group sv = Some (GroupStopping (g\<lparr>gr_stop_queue := rest, gr_head_reached := reached\<rparr>)) \<and>
      (\<forall>k. k \<in> set past \<longrightarrow> member_passed sv g k) \<and>
      (\<forall>k. k \<notin> set (past @ take 1 rest) \<longrightarrow> sup_child sv k = sup_child sv k) \<and>
      (rest = [] \<or> reached \<and> has_key (gr_awaiting g) (hd rest))"
    using assms
    by - (rule exI [of _ "[]"], rule exI [of _ "gr_stop_queue g"], rule exI [of _ "gr_head_reached g"], simp)
  with assms(1) show ?thesis by (simp add: queue_outcome_def)
qed

lemma advance_stop_queue_outcome: "sup_inv sv \<longrightarrow> queue_outcome now sv (advance_stop_queue now sv)"
proof (induction rule: advance_stop_queue_induct [where sv = sv and now = now])
  case (Idle sv)
  then show ?case by (simp add: queue_outcome_def)
next
  case (Empty sv g)
  then show ?case by (simp add: queue_outcome_stay)
next
  case (Wait sv g k rest)
  then show ?case
    using stop_queue_waits [of sv g k] by (simp add: queue_outcome_stay)
next
  case (Step sv g k rest step r)
  show ?case
  proof
    assume inv: "sup_inv sv"
    let ?q = "if step = QueuePop then rest else k # rest"
    let ?g = "g\<lparr>gr_stop_queue := ?q, gr_head_reached := queue_head_reached_after step (gr_head_reached g)\<rparr>"
    let ?sv = "set_stopping ?g (sup_modify k (queue_effect now step) sv)"
    have "sup_inv ?sv" using sup_inv_stop_queue_step [OF inv Step(1,2)] by simp
    with Step(5) have "queue_outcome now ?sv r" by simp
    moreover have "ss_pending_group ?sv = Some (GroupStopping ?g)" by (simp add: set_stopping_def)
    ultimately obtain past rest' reached where q: "gr_stop_queue ?g = past @ rest'"
      and group: "ss_pending_group r = Some (GroupStopping (?g\<lparr>gr_stop_queue := rest', gr_head_reached := reached\<rparr>))"
      and past: "\<forall>j. j \<in> set past \<longrightarrow> member_passed ?sv ?g j"
      and others: "\<forall>j. j \<notin> set (past @ take 1 rest') \<longrightarrow> sup_child r j = sup_child ?sv j"
      and head: "rest' = [] \<or> reached \<and> has_key (gr_awaiting ?g) (hd rest')"
      by (rule queue_outcomeE)
    have r: "?q = past @ rest'"
        "ss_pending_group r = Some (GroupStopping (g\<lparr>gr_stop_queue := rest', gr_head_reached := reached\<rparr>))"
        "rest' = [] \<or> reached \<and> has_key (gr_awaiting g) (hd rest')"
      using q group head by simp_all
    have passed: "\<forall>j. j \<in> set past \<longrightarrow> member_passed sv g j"
      using past member_passed_step [OF inv] by simp
    have child: "sup_child ?sv j = sup_child sv j" if "j \<noteq> k" for j
      using inv that by (simp add: set_stopping_def sup_child_modify)
    have "\<exists>past rest reached. gr_stop_queue g = past @ rest \<and>
        ss_pending_group r = Some (GroupStopping (g\<lparr>gr_stop_queue := rest, gr_head_reached := reached\<rparr>)) \<and>
        (\<forall>k. k \<in> set past \<longrightarrow> member_passed sv g k) \<and>
        (\<forall>k. k \<notin> set (past @ take 1 rest) \<longrightarrow> sup_child r k = sup_child sv k) \<and>
        (rest = [] \<or> reached \<and> has_key (gr_awaiting g) (hd rest))"
    proof (cases "step = QueuePop")
      case True
      then have "member_passed sv g k" using Step(3) stop_queue_popped by simp
      with True show ?thesis
        using r passed others child Step(2)
        by - (rule exI [of _ "k # past"], rule exI [of _ rest'], rule exI [of _ reached], auto)
    next
      case False
      then have "k \<in> set (past @ take 1 rest')"
        using r(1) by (cases past; cases rest') auto
      then have "\<forall>j. j \<notin> set (past @ take 1 rest') \<longrightarrow> sup_child r j = sup_child sv j"
        using others child by metis
      with False show ?thesis
        using r passed Step(2)
        by - (rule exI [of _ past], rule exI [of _ rest'], rule exI [of _ reached], auto)
    qed
    with Step(1) show "queue_outcome now sv r"
      by (simp add: queue_outcome_def)
  qed
qed

text \<open>
  The stop queue of a group restart stops its members one at a time.  It passes over a prefix of members whose
  end was delivered or classified or who carry the verdict, it acts on the member it then stops at, which is
  one the group awaits, and it leaves every member behind that one untouched.
\<close>

lemma stop_queue_stops_one_at_a_time:
  assumes "sup_inv sv" "ss_pending_group sv = Some (GroupStopping g)"
  shows "\<exists>past rest reached. gr_stop_queue g = past @ rest \<and>
    ss_pending_group (advance_stop_queue now sv) =
      Some (GroupStopping (g\<lparr>gr_stop_queue := rest, gr_head_reached := reached\<rparr>)) \<and>
    (\<forall>k. k \<in> set past \<longrightarrow> member_passed sv g k) \<and>
    (\<forall>k. k \<notin> set (past @ take 1 rest) \<longrightarrow> sup_child (advance_stop_queue now sv) k = sup_child sv k) \<and>
    (rest = [] \<or> reached \<and> has_key (gr_awaiting g) (hd rest))"
  using advance_stop_queue_outcome [of sv now] assms by (simp add: queue_outcome_def)

definition example_stopping :: group_restart where
  "example_stopping =
     \<lparr>gr_awaiting = [(''a'', 1), (''b'', 2)], gr_stop_queue = [''b'', ''a''], gr_head_reached = False,
      gr_restart_order = [''a'', ''b''], gr_manual_overrides = [], gr_scope = empty_scope\<rparr>"

section \<open>The restart chain\<close>

text \<open>A member the chain is done with: its spec is gone, or it runs the incarnation the chain started for it.\<close>

definition member_restarted :: "supervision_state \<Rightarrow> group_chain \<Rightarrow> actor_id \<Rightarrow> bool" where
  "member_restarted sv c k \<longleftrightarrow>
     (case sup_life sv k of None \<Rightarrow> True | Some l \<Rightarrow> \<exists>n. l = Running n \<and> hget (gc_started c) k = Some n)"

text \<open>What the chain's step says of the member it stops at, and what becomes of the deferred triggers.\<close>

fun chain_verdict ::
  "supervision_state \<Rightarrow> group_chain \<Rightarrow> worklist \<Rightarrow> actor_id list \<Rightarrow>
   chain_step \<times> supervision_state \<times> worklist \<Rightarrow> bool" where
  "chain_verdict sv c work rest (ChainDone, sv', work') \<longleftrightarrow> rest = [] \<and> ss_pending_group sv' = None \<and>
     ss_queued_triggers sv' = [] \<and> work' = work @ ss_queued_triggers sv"
| "chain_verdict sv c work rest (ChainInitiate k, sv', work') \<longleftrightarrow> rest \<noteq> [] \<and> k = hd rest \<and>
     (\<exists>n p. sup_life sv k = Some (Down n p)) \<and> work' = work \<and> ss_registry sv' = ss_registry sv"
| "chain_verdict sv c work rest (ChainHold, sv', work') \<longleftrightarrow> rest \<noteq> [] \<and>
     Option.bind (sup_life sv (hd rest)) occupant \<noteq> None \<and> \<not> member_restarted sv c (hd rest) \<and> work' = work \<and>
     (\<forall>k. k \<noteq> hd rest \<longrightarrow> sup_child sv' k = sup_child sv k)"

definition chain_outcome ::
  "worklist \<Rightarrow> supervision_state \<Rightarrow> chain_step \<times> supervision_state \<times> worklist \<Rightarrow> bool" where
  "chain_outcome work sv r \<longleftrightarrow>
     (\<forall>c. ss_pending_group sv = Some (GroupRestarting c) \<longrightarrow>
        (\<exists>past rest. gc_queue c = past @ rest \<and> (\<forall>k. k \<in> set past \<longrightarrow> member_restarted sv c k) \<and>
           chain_verdict sv c work rest r))"

lemma chain_outcome_stay:
  assumes "ss_pending_group sv = Some (GroupRestarting c)" "chain_verdict sv c work (gc_queue c) r"
  shows "chain_outcome work sv r"
  using assms unfolding chain_outcome_def
  by (metis append_Nil empty_iff group_phase.inject(2) list.set(1) option.inject)

lemma chain_outcome_pop:
  assumes "ss_pending_group sv = Some (GroupRestarting c)" "gc_queue c = k # rest" "member_restarted sv c k"
    and "chain_outcome work (set_chain (c\<lparr>gc_queue := rest, gc_scope := sc\<rparr>) sv) r"
  shows "chain_outcome work sv r"
proof -
  let ?sv = "set_chain (c\<lparr>gc_queue := rest, gc_scope := sc\<rparr>) sv"
  have same: "sup_life ?sv = sup_life sv" "sup_child ?sv = sup_child sv" "ss_registry ?sv = ss_registry sv"
    "ss_queued_triggers ?sv = ss_queued_triggers sv"
    by (simp_all add: fun_eq_iff sup_life_def set_chain_def)
  have restarted: "member_restarted ?sv (c\<lparr>gc_queue := rest, gc_scope := sc\<rparr>) j = member_restarted sv c j" for j
    by (simp add: member_restarted_def same split: option.splits)
  have "chain_verdict ?sv (c\<lparr>gc_queue := rest, gc_scope := sc\<rparr>) work rest' r = chain_verdict sv c work rest' r" for rest'
    by (cases "(sv, c, work, rest', r)" rule: chain_verdict.cases) (simp_all add: same restarted)
  moreover have "ss_pending_group ?sv = Some (GroupRestarting (c\<lparr>gc_queue := rest, gc_scope := sc\<rparr>))"
    by (simp add: set_chain_def)
  ultimately obtain past rest' where "rest = past @ rest'" "\<forall>j. j \<in> set past \<longrightarrow> member_restarted sv c j"
      "chain_verdict sv c work rest' r"
    using assms(4) restarted unfolding chain_outcome_def by auto
  then have "\<exists>past rest. gc_queue c = past @ rest \<and> (\<forall>k. k \<in> set past \<longrightarrow> member_restarted sv c k) \<and>
      chain_verdict sv c work rest r"
    using assms(2,3) by - (rule exI [of _ "k # past"], rule exI [of _ rest'], auto)
  with assms(1) show ?thesis by (simp add: chain_outcome_def)
qed

lemma advance_chain_outcome:
  "sup_inv sv \<longrightarrow> chain_outcome work sv (advance_restart_chain now sv work)"
proof (induction rule: advance_chain_induct [where sv = sv and now = now and work = work])
  case (Idle sv)
  then show ?case by (simp add: chain_outcome_def)
next
  case (Skip sv c k rest r)
  have "c\<lparr>gc_queue := rest\<rparr> = c\<lparr>gc_queue := rest, gc_scope := gc_scope c\<rparr>" by simp
  with Skip show ?case
    using chain_outcome_pop [OF Skip(1,2), of work "gc_scope c" r] sup_inv_skip_front [of sv c k rest]
    by (simp add: member_restarted_def sup_life_def)
next
  case (Fresh sv c k rest child r)
  then have "member_restarted sv c k"
    by (cases "ch_lifecycle child") (auto simp: member_restarted_def sup_life_def split: if_splits)
  with Fresh show ?case
    using chain_outcome_pop [OF Fresh(1,2)] sup_inv_fresh_front [of sv c k rest child] by blast
next
  case (Stop sv c k rest child)
  then show ?case
    by (cases "ch_lifecycle child")
      (auto simp: sup_life_def sup_child_modify member_restarted_def intro!: chain_outcome_stay split: if_splits)
next
  case (Hold sv c k rest child)
  then show ?case
    by (cases "ch_lifecycle child") (auto simp: sup_life_def member_restarted_def intro!: chain_outcome_stay split: if_splits)
next
  case (Initiate sv c k rest child)
  then show ?case
    by (cases "ch_lifecycle child") (auto simp: sup_life_def member_restarted_def intro!: chain_outcome_stay split: if_splits)
qed (auto intro!: chain_outcome_stay)

text \<open>
  The restart chain of a group starts its members one at a time, in order.  It passes over a prefix of
  members that are gone or run the incarnation it started for them.  It then starts the next member only when
  that member is down, holds while it has an occupant the chain did not bring up, and at the end of the order closes the group and
  releases the deferred triggers, in their order, behind the worklist.
\<close>

lemma chain_starts_one_at_a_time:
  assumes "sup_inv sv" "ss_pending_group sv = Some (GroupRestarting c)"
  shows "\<exists>past rest. gc_queue c = past @ rest \<and> (\<forall>k. k \<in> set past \<longrightarrow> member_restarted sv c k) \<and>
    chain_verdict sv c work rest (advance_restart_chain now sv work)"
  using advance_chain_outcome [of sv work now] assms by (simp add: chain_outcome_def)

definition example_chain :: group_chain where
  "example_chain =
     \<lparr>gc_queue = [''a'', ''b''], gc_overrides = [], gc_started = [(''a'', 5)], gc_scope = empty_scope\<rparr>"

section \<open>Absorption\<close>

definition delivered_report :: "child_event \<times> u64 \<Rightarrow> child_stopped_internal" where
  "delivered_report d = (case d of (event, n) \<Rightarrow>
     \<lparr>csi_child_id = ce_child_id event, csi_reason = ce_reason event, csi_incarnation = n\<rparr>)"

definition absorb_bag :: "absorb_state \<Rightarrow> child_stopped_internal multiset" where
  "absorb_bag a = mset (ab_work a) + mset (ss_queued_triggers (ab_sup a)) +
     mset (map delivered_report (ab_deliveries a))"

lemma mset_remove_nth: "i < length xs \<Longrightarrow> add_mset (xs ! i) (mset (remove_nth i xs)) = mset xs"
proof (induction xs arbitrary: i)
  case (Cons x xs)
  then show ?case by (cases i) (auto simp: add_mset_commute)
qed simp

lemma absorb_prune_bag: "absorb_bag (absorb_prune gone prune k a) = absorb_bag a"
  by (simp add: absorb_prune_def absorb_bag_def queued_frame split_def)

lemma absorb_deliver_bag:
  "absorb_bag (absorb_deliver gone k child n report a) =
     add_mset \<lparr>csi_child_id = k, csi_reason = csi_reason report, csi_incarnation = n\<rparr> (absorb_bag a)"
proof -
  have "absorb_bag (a1\<lparr>ab_deliveries := ab_deliveries a1 @ [(absorb_event k child prune r, n)]\<rparr>) =
      add_mset \<lparr>csi_child_id = k, csi_reason = r, csi_incarnation = n\<rparr> (absorb_bag a1)" for a1 prune r
    by (simp add: absorb_bag_def delivered_report_def absorb_event_def)
  moreover have "absorb_bag (a\<lparr>ab_sup := record_down k n OwesNothing (ab_sup a)\<rparr>) = absorb_bag a"
    by (simp add: absorb_bag_def queued_frame)
  ultimately show ?thesis
    by (simp add: absorb_deliver_def Let_def absorb_prune_bag)
qed

lemma absorb_snapshot_bag: "absorb_bag (absorb_snapshot gone k child n a) = absorb_bag a"
proof -
  have "absorb_bag (a1\<lparr>ab_sup := (ab_sup a1)\<lparr>ss_pending_manual_events := e\<rparr>\<rparr>) = absorb_bag a1" for a1 e
    by (simp add: absorb_bag_def)
  moreover have "absorb_bag (a\<lparr>ab_sup := record_down k n OwesSnapshot (ab_sup a)\<rparr>) = absorb_bag a"
    by (simp add: absorb_bag_def queued_frame)
  ultimately show ?thesis
    by (simp add: absorb_snapshot_def Let_def absorb_prune_bag)
qed

lemma taken_report:
  assumes "list_position (report_of k n) xs = Some i"
  shows "i < length xs" "\<lparr>csi_child_id = k, csi_reason = csi_reason (xs ! i), csi_incarnation = n\<rparr> = xs ! i"
  using list_position_SomeD [OF assms] by (simp_all add: report_of_def)

lemma absorb_one_bag: "absorb_bag (absorb_one gone a entry) = absorb_bag a"
proof -
  obtain k m action where entry: "entry = (k, m, action)" by (cases entry)
  have queued: "add_mset (ss_queued_triggers (ab_sup a) ! i)
      (absorb_bag (a\<lparr>ab_sup := (ab_sup a)\<lparr>ss_queued_triggers := remove_nth i (ss_queued_triggers (ab_sup a))\<rparr>\<rparr>)) =
    absorb_bag a" if "i < length (ss_queued_triggers (ab_sup a))" for i
    using mset_remove_nth [OF that] by (simp add: absorb_bag_def ac_simps flip: add_mset_add_single)
  have waiting: "add_mset (ab_work a ! i) (absorb_bag (a\<lparr>ab_work := remove_nth i (ab_work a)\<rparr>)) = absorb_bag a"
    if "i < length (ab_work a)" for i
    using mset_remove_nth [OF that] by (simp add: absorb_bag_def flip: add_mset_add_single)
  have rejoin: "absorb_bag (a\<lparr>ab_sup := rejoin_snapshot k n (ab_sup a)\<rparr>) = absorb_bag a" for n
    by (simp add: absorb_bag_def rejoin_snapshot_ok)
  show ?thesis
    by (auto simp: entry absorb_one_def Let_def absorb_deliver_bag absorb_snapshot_bag rejoin taken_report queued
        waiting split: option.splits child_lifecycle.splits absorption.splits)
qed

text \<open>
  C34.  The absorption of owed reports into a group restart loses no report and makes none up: the reports left in the
  worklist and among the deferred triggers, together with the reports delivered (child, reason and
  incarnation), are the reports there were.
\<close>

theorem absorption_conserves_reports:
  "absorb_bag (absorb_records gone work commit sv) = mset work + mset (ss_queued_triggers sv)"
proof -
  have "absorb_bag (foldl (absorb_one gone) a commit) = absorb_bag a" for a
    by (induction commit arbitrary: a) (simp_all add: absorb_one_bag)
  then show ?thesis
    by (simp add: absorb_records_def) (simp add: absorb_bag_def)
qed

section \<open>Calls\<close>

text \<open>A commit refuses with its answer alone, or answers \<open>Ok\<close>.\<close>

fun not_refusal :: "commit_effect \<Rightarrow> bool" where
  "not_refusal (Answer r) = (r = ReplyOk)"
| "not_refusal _ = True"

definition clean_commit :: "commit \<Rightarrow> bool" where
  "clean_commit c \<longleftrightarrow> (\<exists>r. c = answer r) \<or> list_all not_refusal (cm_effects c)"

lemma list_all_with_head: "list_all P (with_head h t) \<longleftrightarrow> (case h of None \<Rightarrow> True | Some e \<Rightarrow> P e) \<and> list_all P t"
  by (cases h) auto

lemmas clean_simps = clean_commit_def list_all_with_head ask_def record_override_def

lemma clean_terminate: "clean_commit (terminate_commit l f)"
proof -
  have "clean_commit (terminate_none l f)"
    by (cases "(l, f)" rule: terminate_none.cases) (auto simp: clean_simps split: task_state.splits option.splits)
  moreover have "clean_commit (terminate_awaited l f)"
    by (cases "(l, f)" rule: terminate_awaited.cases)
      (auto simp: clean_simps split: task_state.splits option.splits bool.splits)
  moreover have "clean_commit (terminate_queued l)"
    by (cases l rule: terminate_queued.cases) (auto simp: clean_simps)
  moreover have "clean_commit (terminate_released l f)"
    by (cases "(l, f)" rule: terminate_released.cases) (auto simp: clean_simps split: option.splits)
  ultimately show ?thesis
    by (auto simp: terminate_commit_def clean_commit_def split: group_membership.splits)
qed

lemma clean_manual_commit: "clean_commit (manual_commit kind f)"
proof -
  have "clean_commit (bounce_commit l f)" for l
    by (cases "(l, f)" rule: bounce_commit.cases) (auto simp: clean_simps split: task_state.splits)
  moreover have "clean_commit (answer r)" for r
    by (auto simp: clean_commit_def)
  ultimately show ?thesis
    using clean_terminate
    by (auto simp: manual_commit_def split: option.splits manual_stop.splits stop_route.splits)
qed

lemma run_effects_no_refusal:
  "list_all not_refusal es \<Longrightarrow> fst (run_effects k n kind policy raised removed es cx) \<noteq> ManualReturned (Inl e) fs"
  by (induction k n kind policy raised removed es cx rule: run_effects.induct)
    (auto split: prod.splits option.splits)

lemma manual_refusal:
  assumes "fst (manual_stop_commit k kind cx) = ManualReturned (Inl e) fs"
  shows "fs = [] \<and> snd (manual_stop_commit k kind cx) = cx"
proof (cases "ss_final_delivery (cx_sup cx)")
  case True
  then show ?thesis using assms by (simp add: manual_stop_commit_def)
next
  case False
  let ?c = "manual_commit kind (sup_manual_facts (cx_sup cx) k)"
  have "\<not> list_all not_refusal (cm_effects ?c)"
    using assms False run_effects_no_refusal by (auto simp: manual_stop_commit_def Let_def)
  then obtain r where "?c = answer r"
    using clean_manual_commit by (auto simp: clean_commit_def)
  then show ?thesis
    using assms False by (auto simp: manual_stop_commit_def Let_def answer_def)
qed

text \<open>
  A supervision call that fails changes nothing.  A refused \<open>restart_child\<close> leaves the supervision state as it was
  (it has drawn an incarnation number); a refused \<open>delete_child\<close>, a refused \<open>spawn_child\<close> and a refused
  \<open>stop_child\<close> or \<open>terminate_child\<close> leave the whole context as it was and drop no factory.
\<close>

lemma failed_calls_change_nothing:
  "(fst (restart_child k cx) = None \<or> cx_sup (snd (restart_child k cx)) = cx_sup cx) \<and>
   (fst (delete_child k cx) = None \<or> snd (delete_child k cx) = (None, cx)) \<and>
   (case spawn_child_internal k name spec f spawned cx of (Inl e, cx') \<Rightarrow> cx' = cx | (Inr n, cx') \<Rightarrow> True) \<and>
   (case manual_stop_commit k kind cx of
      (ManualReturned (Inl e) fs, cx') \<Rightarrow> fs = [] \<and> cx' = cx
    | _ \<Rightarrow> True)"
proof (intro conjI)
  show "fst (restart_child k cx) = None \<or> cx_sup (snd (restart_child k cx)) = cx_sup cx"
    by (simp add: restart_child_def Let_def next_incarnation_def take_task_id_def split: sum.splits)
  show "fst (delete_child k cx) = None \<or> snd (delete_child k cx) = (None, cx)"
    by (simp add: delete_child_def split: sum.splits prod.splits)
  show "case spawn_child_internal k name spec f spawned cx of (Inl e, cx') \<Rightarrow> cx' = cx | (Inr n, cx') \<Rightarrow> True"
    by (simp add: spawn_child_internal_def Let_def split_def split: option.splits sum.splits)
  show "case manual_stop_commit k kind cx of (ManualReturned (Inl e) fs, cx') \<Rightarrow> fs = [] \<and> cx' = cx | _ \<Rightarrow> True"
    using manual_refusal [of k kind cx]
    by (auto split: prod.splits manual_stage.splits sum.splits)
qed

text \<open>
  A deleted id can be used again: \<open>delete_child\<close> returns the factory the child was registered with and leaves no
  child under the id, and a \<open>spawn_child\<close> under it then registers the new child, running, with its own spec and
  factory, behind every other child.
\<close>

lemma deleted_id_spawns_again:
  assumes "sup_inv (cx_sup cx)" "delete_child k cx = (None, f, cx1)"
    and "spawn_child_internal k (Some name) spec g (Inr (lane, status, subtree)) cx1 = (r, cx2)"
  shows "f = hget (ss_restart_fns (cx_sup cx)) k \<and> sup_child (cx_sup cx1) k = None \<and>
    r = Inr (cx_next_incarnation cx1) \<and>
    map_option (\<lambda>c. (ch_lifecycle c, ch_spec c, ch_name c)) (sup_child (cx_sup cx2) k) =
      Some (Running (cx_next_incarnation cx1), spec, Some name) \<and>
    hget (ss_restart_fns (cx_sup cx2)) k = Some g \<and>
    all_ids (ss_registry (cx_sup cx2)) = filter (\<lambda>j. j \<noteq> k) (all_ids (ss_registry (cx_sup cx))) @ [k]"
proof -
  let ?sv = "snd (remove_spec (cx_gone cx) k (cx_sup cx))"
  have del: "f = fst (remove_spec (cx_gone cx) k (cx_sup cx))" "cx1 = cx\<lparr>cx_sup := ?sv\<rparr>"
    "\<not> ss_final_delivery (cx_sup cx)"
    using assms(2) by (auto simp: delete_child_def split: if_splits sum.splits prod.splits)
  have sv: "sup_inv ?sv" "all_ids (ss_registry ?sv) = filter (\<lambda>j. j \<noteq> k) (all_ids (ss_registry (cx_sup cx)))"
    using assms(1) by (simp_all add: sup_inv_remove_spec remove_spec_fields(1))
  then have absent: "sup_child ?sv k = None"
    using registry_get_iff [OF sup_inv_registry [OF sv(1)], of k] by simp
  have "ss_final_delivery ?sv = ss_final_delivery (cx_sup cx)"
    by (simp add: remove_spec_def prune_retired_def Let_def split: prod.splits option.splits)
  then have accepted: "refuse_spawn (Some k) ?sv = None"
    using del(3) absent by (simp add: refuse_spawn_def)
  have got: "ch_id c = k \<Longrightarrow> registry_get (registry_register c rg) k = Some c"
    "all_ids (registry_register c rg) = all_ids rg @ [ch_id c]" for c rg
    by (auto simp: registry_get_def registry_register_def hget_hput all_ids_def)
  show ?thesis
    using assms(3) accepted absent sv(2) got remove_spec_fields(9) [OF assms(1), of "cx_gone cx" k]
    by (auto simp: del spawn_child_internal_def Let_def next_incarnation_def take_task_id_def spawn_death_def
        hget_hput got)
qed

definition example_ctx :: "supervision_state \<Rightarrow> sup_ctx" where
  "example_ctx sv = (sup_ctx_new one_for_all 7 0)\<lparr>cx_sup := sv\<rparr>"

end
