(* ===== verification/Stale_Plan.thy ===== *)
theory Stale_Plan
  imports Supervisor_Props
begin

text \<open>
  A group restart whose plan is stale (\<open>handle_worklist\<close> in \<open>src/src/actor/runtime.rs\<close>).
      The group's
  commit is computed, the reports its members owe are then delivered to the supervisor's callback, and only after
  that is the group laid out from the commit.  No group is pending while the callback runs, so a
  \<open>restart_child\<close> it makes on a member of the commit is accepted, and the chain starts with a member
      whose
  attempt the chain did not start: the state the assertions of \<open>advance_restart_chain\<close> exclude.

  The supervisor of the example has two children under one-for-all, both down with their reports owed; its
  callback restarts ''a'' when it hears of the end of ''a''.
\<close>

section \<open>The example\<close>

definition foreign_script :: script where
  "foreign_script event cx = (HookOk, if ce_child_id event = ''a'' then [OpRestart ''a''] else [])"

definition foreign_ctx :: sup_ctx where
  "foreign_ctx = example_ctx (example_sup None (Down 1 OwesEvaluate) (Down 2 OwesEvaluate))"

definition failed_report :: "actor_id \<Rightarrow> u64 \<Rightarrow> child_stopped_internal" where
  "failed_report k n = \<lparr>csi_child_id = k, csi_reason = Failure (User ''x''), csi_incarnation = n\<rparr>"

definition routed_sup :: supervision_state where
  "routed_sup = example_sup None (Down 1 OwesEvaluate) (Down 2 OwesNothing)"

definition restart_only :: member_action where
  "restart_only = \<lparr>ma_held = False, ma_cancel = False, ma_restarts = True\<rparr>"

abbreviation foreign_commit :: "committed list" where
  "foreign_commit \<equiv> [(''a'', 1, restart_only), (''b'', 2, restart_only)]"

definition charged :: restart_budget where
  "charged = snd (check_and_record 0 (ss_budget routed_sup))"

abbreviation charged_ctx :: sup_ctx where
  "charged_ctx \<equiv> foreign_ctx\<lparr>cx_sup := routed_sup\<lparr>ss_budget := charged\<rparr>\<rparr>"

definition absorbed_sup :: supervision_state where
  "absorbed_sup = (example_sup None (Down 1 OwesNothing) (Down 2 OwesNothing))\<lparr>ss_budget := charged\<rparr>"

definition event_a :: child_event where
  "event_a = \<lparr>ce_child_id = ''a'', ce_child_name = None, ce_reason = Failure (User ''x''), ce_action =
      RestartInitiated\<rparr>"

definition absorbed_ctx :: sup_ctx where
  "absorbed_ctx = foreign_ctx\<lparr>cx_sup := absorbed_sup\<rparr>"

definition restarted_ctx :: sup_ctx where
  "restarted_ctx = snd (restart_child ''a'' absorbed_ctx)"

abbreviation foreign_env :: sup_env where
  "foreign_env \<equiv> scripted foreign_script (\<lambda>_. None)"

definition stale_chain :: "group_scope \<Rightarrow> group_chain" where
  "stale_chain sc = \<lparr>gc_queue = [''a'', ''b''], gc_overrides = [], gc_started = [], gc_scope = sc\<rparr>"

section \<open>The turn, stage by stage\<close>

lemma foreign_take: "take_snapshot (failed_report ''b'' 2) (cx_sup foreign_ctx) = (None, cx_sup foreign_ctx)"
  by (simp add: take_snapshot_def Let_def sup_life_def registry_get_def foreign_ctx_def example_ctx_def
      example_sup_def failed_report_def report_class_of_def)

lemma foreign_uncommitted: "uncommitted_manual (cx_sup foreign_ctx) (failed_report ''b'' 2) = None"
  by (simp add: uncommitted_manual_def Let_def sup_life_def registry_get_def foreign_ctx_def example_ctx_def
      example_sup_def failed_report_def report_class_of_def)

lemma foreign_life: "sup_life (cx_sup foreign_ctx) ''b'' = Some (Down 2 OwesEvaluate)"
  by (simp add: uncommitted_manual_def Let_def sup_life_def registry_get_def foreign_ctx_def example_ctx_def
      example_sup_def failed_report_def report_class_of_def)

lemma foreign_route: "route_report 0 (failed_report ''b'' 2) (cx_sup foreign_ctx) = (RoutedEvaluate, no_steps,
    routed_sup)"
  by (simp add: route_report_def route_end_def registry_get_def sup_life_def foreign_ctx_def example_ctx_def
      example_sup_def failed_report_def routed_sup_def
   Let_def record_down_def sup_modify_def registry_modify_def child_transition_def transition_life_def)

lemma routed_sup_fields: "ss_budget routed_sup = restart_budget_new 3 (secs 5)" "ss_config routed_sup = one_for_all"
  by (simp_all add: routed_sup_def example_sup_def supervision_state_new_def one_for_all_def
      default_supervision_config_def)

lemma foreign_grants: "check_and_record 0 (ss_budget routed_sup) = (True, charged)"
  by (simp add: charged_def routed_sup_fields check_and_record_def restart_budget_new_def Let_def
      checked_sub_instant_def instant_bound_def secs_def nanos_per_sec_def)

lemma foreign_evaluated: "evaluate_strategy 0 ''b'' (Failure (User ''x'')) routed_sup =
   (RestartGroup foreign_commit, routed_sup\<lparr>ss_budget := charged\<rparr>)"
  unfolding evaluate_strategy_def foreign_grants
  by (simp add: routed_sup_fields registry_get_def routed_sup_def example_sup_def example_child_def Let_def
      one_for_all_def group_commit_def commit_member_def group_member_of_def restart_only_def
      supervision_state_new_def)

lemma foreign_absorbed: "absorb_records gone [failed_report ''a'' 1] foreign_commit (routed_sup\<lparr>ss_budget :=
    charged\<rparr>) =
  \<lparr>ab_sup = absorbed_sup, ab_work = [], ab_deliveries = [(event_a, 1)], ab_removed = []\<rparr>"
  by (simp add: absorb_records_def absorb_one_def registry_get_def routed_sup_def absorbed_sup_def example_sup_def
      supervision_state_new_def example_child_def Let_def failed_report_def report_of_def absorbable_def
   absorb_deliver_def absorb_prune_def group_member_end_def record_down_def sup_modify_def registry_modify_def
       child_transition_def transition_life_def absorb_event_def event_a_def restart_only_def
    rejoin_snapshot_def)

lemma foreign_accepts: "sup_manual_answer RestartChild absorbed_sup ''a'' = ReplyOk"
  by (simp add: sup_manual_answer_def manual_answer_def sup_manual_facts_def absorbed_sup_def example_sup_def
      supervision_state_new_def registry_get_def
   Let_def group_membership_of_def sup_life_def answer_by_life_def)

lemma foreign_restarted: "restart_child ''a'' absorbed_ctx = (None, restarted_ctx)" "cx_sup restarted_ctx = snd
    (initiate 0 ''a'' 7 OriginManual absorbed_sup)"
  by (simp_all add: restarted_ctx_def absorbed_ctx_def restart_child_def foreign_accepts next_incarnation_def
      take_task_id_def foreign_ctx_def example_ctx_def sup_ctx_new_def on_sup_def)
    (simp_all add: absorbed_sup_def example_sup_def supervision_state_new_def)

lemma foreign_attempt: "\<exists>c. sup_child (cx_sup restarted_ctx) ''a'' = Some c \<and> ch_lifecycle c =
    Restarting 1 7" "ss_pending_group (cx_sup restarted_ctx) = None"
  by (simp_all add: foreign_restarted initiate_def absorbed_sup_def example_sup_def supervision_state_new_def
      registry_get_def
   Let_def sup_life_def child_transition_def transition_life_def sup_modify_def registry_modify_def
       note_chain_start_def example_child_def)

lemma foreign_delivered: "deliver_child_event foreign_env event_a absorbed_ctx = (Continue, restarted_ctx)"
  by (simp add: deliver_child_event_def scripted_def foreign_script_def event_a_def foreign_restarted)

lemma foreign_owed: "absorb_owed foreign_env foreign_commit [failed_report ''a'' 1] charged_ctx =
   (Continue, [], restarted_ctx)"
  using foreign_delivered unfolding absorbed_ctx_def
  by (simp add: absorb_owed_def foreign_absorbed drop_removed_def map_filter_def)

lemma foreign_planned: "plan_group_stop foreign_commit sv = ([], [], sv)"
  by (simp add: plan_group_stop_def restart_only_def)

lemma foreign_group: "\<exists>sc. handle_group foreign_env (failed_report ''b'' 2) foreign_commit [failed_report
    ''a'' 1] charged_ctx =
   (Continue, [], on_sup (set_chain (stale_chain sc)) restarted_ctx)"
proof -
  obtain c where c: "sup_child (cx_sup restarted_ctx) ''a'' = Some c" "ch_lifecycle c = Restarting 1 7"
    using foreign_attempt by blast
  have adv: "advance_restart_chain now (set_chain (stale_chain sc) (cx_sup restarted_ctx)) work = (ChainHold,
      set_chain (stale_chain sc) (cx_sup restarted_ctx), work)" for sc now work
    by (subst advance_restart_chain.simps) (simp add: set_chain_def stale_chain_def c)
  have "ma_restarts restart_only" by (simp add: restart_only_def)
  then show ?thesis
   by (auto simp: handle_group_def foreign_owed foreign_planned begin_group_def start_restart_chain_def
       run_chain_step_def Let_def stale_chain_def [symmetric] adv on_sup_def)
qed

lemma foreign_step: "\<exists>sc. worklist_step foreign_env (failed_report ''b'' 2) [failed_report ''a'' 1]
    foreign_ctx = (Continue, [], on_sup (set_chain (stale_chain sc)) restarted_ctx)"
proof -
  obtain sc where g: "handle_group foreign_env (failed_report ''b'' 2) foreign_commit [failed_report ''a'' 1]
      charged_ctx =
   (Continue, [], on_sup (set_chain (stale_chain sc)) restarted_ctx)" using foreign_group by blast
  have f: "csi_child_id (failed_report ''b'' 2) = ''b''" "csi_incarnation (failed_report ''b'' 2) = 2" "csi_reason
      (failed_report ''b'' 2) = Failure (User ''x'')"
    "cx_now foreign_ctx = 0" by (simp_all add: failed_report_def foreign_ctx_def example_ctx_def sup_ctx_new_def)
  have d: "deliver_report foreign_env (failed_report ''b'' 2) nm RestartInitiated None [] cx = (Continue, [], cx)"
      for nm cx
    by (simp add: deliver_report_def deliver_child_event_def scripted_def foreign_script_def f Let_def
        drop_removed_def map_filter_def)
  show ?thesis
    by (auto simp: worklist_step_def foreign_take foreign_uncommitted foreign_life f report_class_of_def
        foreign_route handle_evaluate_def Let_def foreign_evaluated g d)
qed

section \<open>The stale plan\<close>

text \<open>
  C39.  A callback can make a group's plan stale.  From a state that satisfies the supervisor's invariant, the turn
  that evaluates the failure of \<open>b\<close> delivers the owed report of \<open>a\<close> before the group is laid out; the
  callback's \<open>restart_child\<close> on \<open>a\<close> succeeds, and the chain that is then started waits at its front for an
  attempt it did not start.
\<close>

theorem group_plan_can_be_stale:
  "sup_inv (cx_sup foreign_ctx) \<and>
   (\<exists>c cx'. worklist_step foreign_env (failed_report ''b'' 2) [failed_report ''a'' 1] foreign_ctx =
       (Continue, [], cx') \<and>
     ss_pending_group (cx_sup cx') = Some (GroupRestarting c) \<and> gc_queue c = [''a'', ''b''] \<and>
     sup_life (cx_sup cx') ''a'' = Some (Restarting 1 7) \<and> hget (gc_started c) ''a'' = None)"
proof -
  obtain sc where step: "worklist_step foreign_env (failed_report ''b'' 2) [failed_report ''a'' 1] foreign_ctx =
      (Continue, [], on_sup (set_chain (stale_chain sc)) restarted_ctx)"
    using foreign_step by blast
  moreover have "sup_inv (cx_sup foreign_ctx)"
    using example_sup_inv [of None] by (simp add: foreign_ctx_def example_ctx_def sup_ctx_new_def)
  ultimately show ?thesis
    using foreign_attempt by (auto simp: on_sup_def set_chain_def stale_chain_def sup_life_def)
qed

end
