(* ===== verification/Mailbox.thy ===== *)
theory Mailbox
  imports Types
begin

text \<open>
  The actor's mailbox (\<open>src/src/actor/mailbox.rs\<close>): a bounded queue with many senders, an exact count of
  free units, and wait lists for the senders that find none.

  Senders, reservations and the receiver run at the same time, so the model is a machine of agents.  An agent is a
  reservation with the permit it becomes, a \<open>try_send\<close>, the drop of a sender, or the receiver (agent 0).  Its
  program counter names the next atomic access of the code, and one step performs that access: a
  load, a store, a \<open>fetch_add\<close>, a compare-exchange, or what a critical section does to the list and the
  waiters' states, which nothing reads outside the lock before the section's own store.  The counts a section
  writes are steps of their own, because other agents read them without the lock; an agent
  that finds a list locked stays where it is.  Every access is sequentially consistent in the code but for
  \<open>next_grant\<close> and the count of a cloned sender, on which nothing else depends.

  tokio's unbounded queue is a parameter: \<open>queue_ops\<close> holds its operations and \<open>queue_laws\<close> what its
  documentation promises of them.  A waiter is the agent it belongs to: a reservation parks at most once,
  and \<open>recycle_waiter\<close> reuses a waiter only when nothing else holds it.  A waker is a number.
\<close>

section \<open>The queue\<close>

text \<open>
  \<open>q_admit\<close> is the check a send makes of the queue's closed flag; \<open>q_land\<close> is its push, which goes through
  after a close when the check came before it; \<open>q_over\<close> says that no message can arrive any more.
\<close>

record ('m, 'q) queue_ops =
  q_items :: "'q \<Rightarrow> 'm list"
  q_admit :: "'q \<Rightarrow> bool \<times> 'q"
  q_land :: "'m \<Rightarrow> 'q \<Rightarrow> 'q"
  q_take :: "'q \<Rightarrow> 'm option \<times> 'q"
  q_close :: "'q \<Rightarrow> 'q"
  q_over :: "'q \<Rightarrow> bool"

definition queue_laws :: "('m, 'q) queue_ops \<Rightarrow> bool" where
  "queue_laws Q \<longleftrightarrow>
     (\<forall>q. q_items Q (snd (q_admit Q q)) = q_items Q q) \<and>
     (\<forall>m q. q_items Q (q_land Q m q) = q_items Q q @ [m]) \<and>
     (\<forall>q. q_items Q (q_close Q q) = q_items Q q) \<and>
     (\<forall>q. q_items Q q = (case fst (q_take Q q) of None \<Rightarrow> [] | Some m \<Rightarrow> [m]) @ q_items Q (snd (q_take Q q))) \<and>
     (\<forall>q. fst (q_take Q q) = None \<longrightarrow> q_items Q q = [])"

section \<open>Wait lists\<close>

type_synonym agent = nat
type_synonym waker = nat

definition mailbox_lanes :: nat where
  "mailbox_lanes = 8"

definition lanes_for :: "nat \<Rightarrow> nat" where
  "lanes_for workers = (if workers \<le> 1 then 1 else mailbox_lanes)"

datatype wait_state = WAITING | GRANTED | CLOSED

record mail_lane =
  ln_waiters :: "(agent \<times> waker) list"
  ln_waiting :: nat
  ln_locked :: bool

definition lane_new :: mail_lane where
  "lane_new = \<lparr>ln_waiters = [], ln_waiting = 0, ln_locked = False\<rparr>"

text \<open>
  \<open>sh_lanes\<close> is \<open>lane0\<close>, followed by the lists of \<open>more\<close> once they are allocated.  \<open>sh_woken\<close> and
  \<open>sh_reader_woken\<close> record the wakes the mailbox makes: of the waiters, and of the receiver since its last poll.
\<close>

record 'q shared =
  sh_capacity :: nat
  sh_lane_count :: nat
  sh_room :: nat
  sh_waiting_total :: nat
  sh_closed :: bool
  sh_tx_count :: nat
  sh_next_grant :: u64
  sh_parked :: bool
  sh_waker :: "waker option"
  sh_lanes :: "mail_lane list"
  sh_queue :: 'q
  sh_state :: "agent \<Rightarrow> wait_state"
  sh_woken :: "(agent \<times> waker) list"
  sh_reader_woken :: bool

definition shared_new :: "nat \<Rightarrow> nat \<Rightarrow> 'q \<Rightarrow> 'q shared" where
  "shared_new capacity lane_count queue =
     \<lparr>sh_capacity = capacity, sh_lane_count = lane_count, sh_room = capacity, sh_waiting_total = 0,
      sh_closed = False, sh_tx_count = 1, sh_next_grant = 0, sh_parked = False, sh_waker = None,
      sh_lanes = [lane_new], sh_queue = queue, sh_state = (\<lambda>_. WAITING), sh_woken = [],
      sh_reader_woken = False\<rparr>"

definition try_lane :: "'q shared \<Rightarrow> nat \<Rightarrow> mail_lane option" where
  "try_lane sh l = (if l < length (sh_lanes sh) then Some (sh_lanes sh ! l) else None)"

definition lane_or_init :: "nat \<Rightarrow> 'q shared \<Rightarrow> 'q shared" where
  "lane_or_init l sh =
     (if l = 0 \<or> 1 < length (sh_lanes sh) then sh
      else sh\<lparr>sh_lanes := sh_lanes sh @ replicate (sh_lane_count sh - 1) lane_new\<rparr>)"

definition on_lane :: "nat \<Rightarrow> (mail_lane \<Rightarrow> mail_lane) \<Rightarrow> 'q shared \<Rightarrow> 'q shared" where
  "on_lane l f sh =
     (if l < length (sh_lanes sh) then sh\<lparr>sh_lanes := (sh_lanes sh)[l := f (sh_lanes sh ! l)]\<rparr> else sh)"

text \<open>The list a sender waits in.  A task's key is the hash of its id, a thread's is its number.\<close>

definition key_write :: "u64 \<Rightarrow> u8 list \<Rightarrow> u64" where
  "key_write = foldl (\<lambda>h byte. xor (word_rotl 8 h) (ucast byte))"

definition key_write_u64 :: "u64 \<Rightarrow> u64 \<Rightarrow> u64" where
  "key_write_u64 h value = xor h value"

definition task_key :: "u64 \<Rightarrow> u64" where
  "task_key hash = max hash 1"

definition lane_of :: "u64 \<Rightarrow> nat \<Rightarrow> nat" where
  "lane_of key lanes = unat (drop_bit 32 (key * 0x9E3779B97F4A7C15)) mod lanes"

definition wait_lane :: "u64 \<Rightarrow> 'q shared \<Rightarrow> nat" where
  "wait_lane key sh = (if sh_lane_count sh = 1 then 0 else lane_of key (sh_lane_count sh))"

definition ended :: "'q shared \<Rightarrow> bool" where
  "ended sh \<longleftrightarrow> (sh_closed sh \<or> sh_tx_count sh = 0) \<and> sh_room sh = sh_capacity sh"

section \<open>Program counters\<close>

text \<open>
  Who returns a unit (\<open>release_unit\<close> wakes a waiting receiver for every caller but the receiver itself), what follows a
  \<open>rebalance\<close>, a \<open>grant_one\<close> and a \<open>wake_reader\<close>, and which close the receiver makes.
\<close>

datatype releaser = ByOther | ByRx | ByDrop
datatype after = ThenRelease releaser | ThenParked waker nat
datatype grant_for = GrantRelease releaser | GrantRebalance after
datatype wake_for = WakeEnd | WakeRebalance after
datatype close_for = CloseOnly | CloseQueue | CloseDrop

datatype reserve_pc =
    Fresh
  | ResRead waker nat
  | ResLoad waker nat
  | ResCas waker nat nat
  | ParkInit waker nat
  | ParkPush waker nat
  | ParkCount waker nat
  | ParkTotal waker nat
  | ParkRoom waker nat
  | ParkedRead waker nat
  | ParkedRefresh waker nat
  | ParkedSettle waker nat
  | Parked waker nat
  | GrantedRead
  | HasPermit
  | CancelLock nat
  | CancelCount nat
  | CancelTotal nat

datatype 'm push_pc =
    TryRead 'm
  | TryLoad 'm
  | TryCas 'm nat
  | PushCheck 'm
  | PushLand 'm

datatype unit_pc =
    RelRead releaser
  | RelAdd releaser
  | RelReread releaser
  | RelClosed releaser
  | RebRead after
  | RebLoad after
  | RebCas after nat
  | RebBack after
  | RebClosed after

datatype grant_pc =
    GrantStart grant_for
  | GrantScan grant_for u64 nat
  | GrantPop grant_for u64 nat
  | GrantCount grant_for nat "agent \<times> waker"
  | GrantTotal grant_for nat "agent \<times> waker"
  | GrantWake grant_for "agent \<times> waker"

datatype wake_pc = WakeLoad wake_for | WakeSwap wake_for | WakeTake wake_for | WakeReader wake_for

datatype close_pc =
    CloseFlag close_for
  | CloseLane close_for nat
  | CloseCount close_for nat "(agent \<times> waker) list"
  | CloseTotal close_for nat "(agent \<times> waker) list"
  | CloseWake close_for nat "(agent \<times> waker) list"
  | CloseTail close_for
  | DropTake
  | DropParked
  | DropWaker

datatype rx_pc =
    RxIdle
  | RxPoll waker
  | RxTake
  | RxClosed waker
  | RxRegister waker
  | RxFlag
  | RxEnded
  | RxWaits
  | RxAsleep

datatype 'm pc =
    Res reserve_pc
  | Push "'m push_pc"
  | Unit unit_pc
  | Grant grant_pc
  | Wake wake_pc
  | Close close_pc
  | Rx rx_pc
  | TxDrop
  | Done

text \<open>Where a routine continues when the one it called returns.\<close>

fun rel_end :: "releaser \<Rightarrow> 'm pc" where
  "rel_end ByOther = Done"
| "rel_end ByRx = Rx RxIdle"
| "rel_end ByDrop = Close DropTake"

fun reb_end :: "after \<Rightarrow> 'm pc" where
  "reb_end (ThenRelease r) = Unit (RelClosed r)"
| "reb_end (ThenParked w l) = Res (ParkedRead w l)"

fun grant_failed :: "grant_for \<Rightarrow> 'm pc" where
  "grant_failed (GrantRelease r) = Unit (RelAdd r)"
| "grant_failed (GrantRebalance a) = Unit (RebBack a)"

fun grant_done :: "grant_for \<Rightarrow> 'm pc" where
  "grant_done (GrantRelease r) = rel_end r"
| "grant_done (GrantRebalance a) = Unit (RebRead a)"

fun wake_end :: "wake_for \<Rightarrow> 'm pc" where
  "wake_end WakeEnd = Done"
| "wake_end (WakeRebalance a) = Unit (RebRead a)"

fun close_end :: "close_for \<Rightarrow> 'm pc" where
  "close_end CloseOnly = Rx RxIdle"
| "close_end f = Close (CloseTail f)"

section \<open>Reservations and sends\<close>

text \<open>
  One access of each routine.  \<open>weak\<close> says that a \<open>compare_exchange_weak\<close> fails for no reason; the value seen is
  the current one.
\<close>

definition lane_free :: "'q shared \<Rightarrow> nat \<Rightarrow> bool" where
  "lane_free sh l \<longleftrightarrow> l < length (sh_lanes sh) \<and> \<not> ln_locked (sh_lanes sh ! l)"

definition entry_of :: "agent \<Rightarrow> mail_lane \<Rightarrow> waker option" where
  "entry_of i ln = map_of (ln_waiters ln) i"

text \<open>\<open>take_unit\<close>: the load of the room, then the compare-exchange on the value last seen.\<close>

definition take_unit_load :: "(nat \<Rightarrow> 'm pc) \<Rightarrow> 'm pc \<Rightarrow> 'q shared \<Rightarrow> 'm pc \<times> 'q shared" where
  [simp]: "take_unit_load again none sh = (if sh_room sh = 0 then none else again (sh_room sh), sh)"

definition take_unit_cas ::
  "bool \<Rightarrow> nat \<Rightarrow> 'm pc \<Rightarrow> (nat \<Rightarrow> 'm pc) \<Rightarrow> 'm pc \<Rightarrow> 'q shared \<Rightarrow> 'm pc \<times> 'q shared" where
  [simp]: "take_unit_cas weak n taken again none sh =
     (if \<not> weak \<and> sh_room sh = n then (taken, sh\<lparr>sh_room := n - 1\<rparr>)
      else (if sh_room sh = 0 then none else again (sh_room sh), sh))"

text \<open>\<open>park\<close>: the list and a fresh waiter, then the section that reads the closed flag and queues the entry.\<close>

definition park_init :: "agent \<Rightarrow> waker \<Rightarrow> nat \<Rightarrow> 'q shared \<Rightarrow> 'm pc \<times> 'q shared" where
  [simp]: "park_init i w l sh =
     (Res (ParkPush w l), lane_or_init l (sh\<lparr>sh_state := (sh_state sh)(i := WAITING)\<rparr>))"

definition park_push :: "agent \<Rightarrow> waker \<Rightarrow> nat \<Rightarrow> 'q shared \<Rightarrow> 'm pc \<times> 'q shared" where
  [simp]: "park_push i w l sh =
     (if \<not> lane_free sh l then (Res (ParkPush w l), sh)
      else if sh_closed sh then (Done, sh)
      else (Res (ParkCount w l),
            on_lane l (\<lambda>ln. ln\<lparr>ln_waiters := ln_waiters ln @ [(i, w)], ln_locked := True\<rparr>) sh))"

definition park_count :: "waker \<Rightarrow> nat \<Rightarrow> 'q shared \<Rightarrow> 'm pc \<times> 'q shared" where
  [simp]: "park_count w l sh =
     (Res (ParkTotal w l), on_lane l (\<lambda>ln. ln\<lparr>ln_waiting := ln_waiting ln + 1\<rparr>) sh)"

definition park_total :: "waker \<Rightarrow> nat \<Rightarrow> 'q shared \<Rightarrow> 'm pc \<times> 'q shared" where
  [simp]: "park_total w l sh =
     (Res (ParkRoom w l),
      on_lane l (\<lambda>ln. ln\<lparr>ln_locked := False\<rparr>) (sh\<lparr>sh_waiting_total := sh_waiting_total sh + 1\<rparr>))"

definition park_room :: "waker \<Rightarrow> nat \<Rightarrow> 'q shared \<Rightarrow> 'm pc \<times> 'q shared" where
  [simp]: "park_room w l sh =
     (if sh_room sh > 0 then Unit (RebRead (ThenParked w l)) else Res (ParkedRead w l), sh)"

text \<open>\<open>cancel\<close>: the section takes the entry out of the list, or finds the grant or the close.\<close>

definition cancel_lock :: "agent \<Rightarrow> nat \<Rightarrow> 'q shared \<Rightarrow> 'm pc \<times> 'q shared" where
  [simp]: "cancel_lock i l sh =
     (if \<not> lane_free sh l then (Res (CancelLock l), sh)
      else (case sh_state sh i of
              WAITING \<Rightarrow>
                (if entry_of i (sh_lanes sh ! l) = None then (Done, sh)
                 else (Res (CancelCount l),
                       on_lane l (\<lambda>ln. ln\<lparr>ln_waiters := filter (\<lambda>e. fst e \<noteq> i) (ln_waiters ln),
                                          ln_locked := True\<rparr>) sh))
            | GRANTED \<Rightarrow> (Unit (RelRead ByOther), sh)
            | CLOSED \<Rightarrow> (Done, sh)))"

definition cancel_count :: "nat \<Rightarrow> 'q shared \<Rightarrow> 'm pc \<times> 'q shared" where
  [simp]: "cancel_count l sh =
     (Res (CancelTotal l), on_lane l (\<lambda>ln. ln\<lparr>ln_waiting := ln_waiting ln - 1\<rparr>) sh)"

definition cancel_total :: "nat \<Rightarrow> 'q shared \<Rightarrow> 'm pc \<times> 'q shared" where
  [simp]: "cancel_total l sh =
     (Done, on_lane l (\<lambda>ln. ln\<lparr>ln_locked := False\<rparr>) (sh\<lparr>sh_waiting_total := sh_waiting_total sh - 1\<rparr>))"

text \<open>\<open>Reserve::poll\<close>, and the drop of a parked reservation.\<close>

fun reserve_go :: "bool \<Rightarrow> agent \<Rightarrow> reserve_pc \<Rightarrow> 'q shared \<Rightarrow> 'm pc \<times> 'q shared" where
  "reserve_go weak i (ResRead w l) sh = (if sh_closed sh then Done else Res (ResLoad w l), sh)"
| "reserve_go weak i (ResLoad w l) sh = take_unit_load (\<lambda>n. Res (ResCas w l n)) (Res (ParkInit w l)) sh"
| "reserve_go weak i (ResCas w l n) sh =
     take_unit_cas weak n (Res HasPermit) (\<lambda>n. Res (ResCas w l n)) (Res (ParkInit w l)) sh"
| "reserve_go weak i (ParkInit w l) sh = park_init i w l sh"
| "reserve_go weak i (ParkPush w l) sh = park_push i w l sh"
| "reserve_go weak i (ParkCount w l) sh = park_count w l sh"
| "reserve_go weak i (ParkTotal w l) sh = park_total w l sh"
| "reserve_go weak i (ParkRoom w l) sh = park_room w l sh"
| "reserve_go weak i (ParkedRead w l) sh =
     (case sh_state sh i of
        GRANTED \<Rightarrow> Res GrantedRead
      | CLOSED \<Rightarrow> Done
      | WAITING \<Rightarrow> Res (ParkedRefresh w l), sh)"
| "reserve_go weak i (ParkedRefresh w l) sh =
     (if \<not> lane_free sh l then (Res (ParkedRefresh w l), sh)
      else (Res (ParkedSettle w l),
            on_lane l (\<lambda>ln. ln\<lparr>ln_waiters := map (\<lambda>(j, v). (j, if j = i then w else v)) (ln_waiters ln)\<rparr>) sh))"
| "reserve_go weak i (ParkedSettle w l) sh =
     (if sh_state sh i \<noteq> WAITING then Res (ParkedRead w l) else Res (Parked w l), sh)"
| "reserve_go weak i GrantedRead sh = (if sh_closed sh then Unit (RelRead ByOther) else Res HasPermit, sh)"
| "reserve_go weak i (CancelLock l) sh = cancel_lock i l sh"
| "reserve_go weak i (CancelCount l) sh = cancel_count l sh"
| "reserve_go weak i (CancelTotal l) sh = cancel_total l sh"
| "reserve_go weak i p sh = (Res p, sh)"

text \<open>\<open>try_send\<close> and \<open>push\<close>.\<close>

fun push_go :: "('m, 'q) queue_ops \<Rightarrow> bool \<Rightarrow> 'm push_pc \<Rightarrow> 'q shared \<Rightarrow> 'm pc \<times> 'q shared" where
  "push_go Q weak (TryRead m) sh = (if sh_closed sh then Done else Push (TryLoad m), sh)"
| "push_go Q weak (TryLoad m) sh = take_unit_load (\<lambda>n. Push (TryCas m n)) Done sh"
| "push_go Q weak (TryCas m n) sh =
     take_unit_cas weak n (Push (PushCheck m)) (\<lambda>n. Push (TryCas m n)) Done sh"
| "push_go Q weak (PushCheck m) sh =
     (case q_admit Q (sh_queue sh) of
        (admitted, q) \<Rightarrow> (if admitted then Push (PushLand m) else Unit (RelRead ByOther), sh\<lparr>sh_queue := q\<rparr>))"
| "push_go Q weak (PushLand m) sh = (Done, sh\<lparr>sh_queue := q_land Q m (sh_queue sh)\<rparr>)"

section \<open>Units and grants\<close>

text \<open>\<open>release_unit\<close> and \<open>rebalance\<close>.\<close>

fun unit_go :: "bool \<Rightarrow> unit_pc \<Rightarrow> 'q shared \<Rightarrow> 'm pc \<times> 'q shared" where
  "unit_go weak (RelRead r) sh =
     (if sh_waiting_total sh > 0 then Grant (GrantStart (GrantRelease r)) else Unit (RelAdd r), sh)"
| "unit_go weak (RelAdd r) sh = (Unit (RelReread r), sh\<lparr>sh_room := sh_room sh + 1\<rparr>)"
| "unit_go weak (RelReread r) sh =
     (if sh_waiting_total sh > 0 then Unit (RebRead (ThenRelease r)) else Unit (RelClosed r), sh)"
| "unit_go weak (RelClosed r) sh =
     (if r = ByOther \<and> sh_closed sh then Wake (WakeLoad WakeEnd) else rel_end r, sh)"
| "unit_go weak (RebRead a) sh = (if sh_waiting_total sh > 0 then Unit (RebLoad a) else reb_end a, sh)"
| "unit_go weak (RebLoad a) sh = take_unit_load (\<lambda>n. Unit (RebCas a n)) (reb_end a) sh"
| "unit_go weak (RebCas a n) sh =
     take_unit_cas weak n (Grant (GrantStart (GrantRebalance a))) (\<lambda>n. Unit (RebCas a n)) (reb_end a) sh"
| "unit_go weak (RebBack a) sh = (Unit (RebClosed a), sh\<lparr>sh_room := sh_room sh + 1\<rparr>)"
| "unit_go weak (RebClosed a) sh =
     (if sh_closed sh then Wake (WakeLoad (WakeRebalance a)) else Unit (RebRead a), sh)"

definition grant_lane :: "u64 \<Rightarrow> nat \<Rightarrow> 'q shared \<Rightarrow> nat" where
  "grant_lane start k sh = unat (start + of_nat k) mod sh_lane_count sh"

fun grant_go :: "grant_pc \<Rightarrow> 'q shared \<Rightarrow> 'm pc \<times> 'q shared" where
  "grant_go (GrantStart g) sh =
     (Grant (GrantScan g (sh_next_grant sh) 0), sh\<lparr>sh_next_grant := sh_next_grant sh + 1\<rparr>)"
| "grant_go (GrantScan g start k) sh =
     (if k \<ge> sh_lane_count sh then grant_failed g
      else (case try_lane sh (grant_lane start k sh) of
              None \<Rightarrow> Grant (GrantScan g start (k + 1))
            | Some ln \<Rightarrow>
                if ln_waiting ln = 0 then Grant (GrantScan g start (k + 1)) else Grant (GrantPop g start k)), sh)"
| "grant_go (GrantPop g start k) sh =
     (let l = grant_lane start k sh in
      if \<not> lane_free sh l then (Grant (GrantPop g start k), sh)
      else (case ln_waiters (sh_lanes sh ! l) of
              [] \<Rightarrow> (Grant (GrantScan g start (k + 1)), sh)
            | e # es \<Rightarrow>
                (Grant (GrantCount g l e),
                 on_lane l (\<lambda>ln. ln\<lparr>ln_waiters := es, ln_locked := True\<rparr>)
                   (sh\<lparr>sh_state := (sh_state sh)(fst e := GRANTED)\<rparr>))))"
| "grant_go (GrantCount g l e) sh =
     (Grant (GrantTotal g l e), on_lane l (\<lambda>ln. ln\<lparr>ln_waiting := ln_waiting ln - 1\<rparr>) sh)"
| "grant_go (GrantTotal g l e) sh =
     (Grant (GrantWake g e),
      on_lane l (\<lambda>ln. ln\<lparr>ln_locked := False\<rparr>) (sh\<lparr>sh_waiting_total := sh_waiting_total sh - 1\<rparr>))"
| "grant_go (GrantWake g e) sh = (grant_done g, sh\<lparr>sh_woken := e # sh_woken sh\<rparr>)"

fun wake_go :: "wake_pc \<Rightarrow> 'q shared \<Rightarrow> 'm pc \<times> 'q shared" where
  "wake_go (WakeLoad v) sh = (if sh_parked sh then Wake (WakeSwap v) else wake_end v, sh)"
| "wake_go (WakeSwap v) sh =
     (if sh_parked sh then Wake (WakeTake v) else wake_end v, sh\<lparr>sh_parked := False\<rparr>)"
| "wake_go (WakeTake v) sh =
     (if sh_waker sh = None then wake_end v else Wake (WakeReader v), sh\<lparr>sh_waker := None\<rparr>)"
| "wake_go (WakeReader v) sh = (wake_end v, sh\<lparr>sh_reader_woken := True\<rparr>)"

section \<open>The receiver\<close>

text \<open>
  \<open>close\<close> and what follows it: the receiver's own close ends there, the end of the actor (\<open>QueueRx::close\<close>) and the
  receiver's drop close the queue as well, and the drop takes what is queued and lets go of the waker.
\<close>

definition close_tail :: "('m, 'q) queue_ops \<Rightarrow> close_for \<Rightarrow> 'q shared \<Rightarrow> 'm pc \<times> 'q shared" where
  [simp]: "close_tail Q f sh =
     (if f = CloseDrop then Close DropTake else Rx RxIdle, sh\<lparr>sh_queue := q_close Q (sh_queue sh)\<rparr>)"

definition drop_take :: "('m, 'q) queue_ops \<Rightarrow> 'q shared \<Rightarrow> 'm pc \<times> 'q shared" where
  [simp]: "drop_take Q sh =
     (case q_take Q (sh_queue sh) of
        (None, q) \<Rightarrow> (Close DropParked, sh\<lparr>sh_queue := q\<rparr>)
      | (Some m, q) \<Rightarrow> (Unit (RelRead ByDrop), sh\<lparr>sh_queue := q\<rparr>))"

definition clear_parked :: "'q shared \<Rightarrow> 'm pc \<times> 'q shared" where
  [simp]: "clear_parked sh = (Close DropWaker, sh\<lparr>sh_parked := False\<rparr>)"

definition clear_waker :: "'q shared \<Rightarrow> 'm pc \<times> 'q shared" where
  [simp]: "clear_waker sh = (Done, sh\<lparr>sh_waker := None\<rparr>)"

fun close_go :: "('m, 'q) queue_ops \<Rightarrow> close_pc \<Rightarrow> 'q shared \<Rightarrow> 'm pc \<times> 'q shared" where
  "close_go Q (CloseFlag f) sh = (Close (CloseLane f 0), sh\<lparr>sh_closed := True\<rparr>)"
| "close_go Q (CloseLane f l) sh =
     (if l \<ge> sh_lane_count sh then (close_end f, sh)
      else (case try_lane sh l of
              None \<Rightarrow> (Close (CloseLane f (l + 1)), sh)
            | Some ln \<Rightarrow>
                if ln_locked ln then (Close (CloseLane f l), sh)
                else (Close (CloseCount f l (ln_waiters ln)),
                      on_lane l (\<lambda>ln. ln\<lparr>ln_waiters := [], ln_locked := True\<rparr>)
                        (sh\<lparr>sh_state := (\<lambda>j. if j \<in> fst ` set (ln_waiters ln) then CLOSED else sh_state sh j)\<rparr>))))"
| "close_go Q (CloseCount f l ds) sh =
     (Close (CloseTotal f l ds), on_lane l (\<lambda>ln. ln\<lparr>ln_waiting := ln_waiting ln - length ds\<rparr>) sh)"
| "close_go Q (CloseTotal f l ds) sh =
     (Close (CloseWake f l ds),
      on_lane l (\<lambda>ln. ln\<lparr>ln_locked := False\<rparr>)
        (sh\<lparr>sh_waiting_total := sh_waiting_total sh - length ds\<rparr>))"
| "close_go Q (CloseWake f l []) sh = (Close (CloseLane f (l + 1)), sh)"
| "close_go Q (CloseWake f l (e # es)) sh = (Close (CloseWake f l es), sh\<lparr>sh_woken := e # sh_woken sh\<rparr>)"
| "close_go Q (CloseTail f) sh = close_tail Q f sh"
| "close_go Q DropTake sh = drop_take Q sh"
| "close_go Q DropParked sh = clear_parked sh"
| "close_go Q DropWaker sh = clear_waker sh"

text \<open>\<open>poll_recv\<close>, \<open>register\<close>, and a take that does not wait; \<open>spent\<close> says that tokio's budget is used up.\<close>

definition rx_take :: "('m, 'q) queue_ops \<Rightarrow> 'q shared \<Rightarrow> 'm pc \<times> 'q shared" where
  [simp]: "rx_take Q sh =
     (case q_take Q (sh_queue sh) of
        (Some m, q) \<Rightarrow> (Unit (RelRead ByRx), sh\<lparr>sh_queue := q\<rparr>)
      | (None, q) \<Rightarrow> (Rx RxIdle, sh\<lparr>sh_queue := q\<rparr>))"

fun rx_go :: "('m, 'q) queue_ops \<Rightarrow> bool \<Rightarrow> rx_pc \<Rightarrow> 'q shared \<Rightarrow> 'm pc \<times> 'q shared" where
  "rx_go Q spent (RxPoll w) sh =
     (if spent then (Rx (RxClosed w), sh)
      else (case q_take Q (sh_queue sh) of
              (Some m, q) \<Rightarrow> (Unit (RelRead ByRx), sh\<lparr>sh_queue := q\<rparr>)
            | (None, q) \<Rightarrow> (if q_over Q q then Rx RxIdle else Rx (RxClosed w), sh\<lparr>sh_queue := q\<rparr>)))"
| "rx_go Q spent RxTake sh = rx_take Q sh"
| "rx_go Q spent (RxClosed w) sh = (if sh_closed sh then Rx (RxRegister w) else Rx RxWaits, sh)"
| "rx_go Q spent (RxRegister w) sh = (Rx RxFlag, sh\<lparr>sh_waker := Some w\<rparr>)"
| "rx_go Q spent RxFlag sh = (Rx RxEnded, sh\<lparr>sh_parked := True\<rparr>)"
| "rx_go Q spent RxEnded sh = (if ended sh then Rx RxIdle else Rx RxAsleep, sh)"
| "rx_go Q spent p sh = (Rx p, sh)"

section \<open>The machine\<close>

fun tx_drop_go :: "'q shared \<Rightarrow> 'm pc \<times> 'q shared" where
  "tx_drop_go sh =
     (if sh_tx_count sh = 1 then Wake (WakeLoad WakeEnd) else Done, sh\<lparr>sh_tx_count := sh_tx_count sh - 1\<rparr>)"

fun agent_go :: "('m, 'q) queue_ops \<Rightarrow> bool \<Rightarrow> agent \<Rightarrow> 'm pc \<Rightarrow> 'q shared \<Rightarrow> 'm pc \<times> 'q shared" where
  "agent_go Q c i (Res p) sh = reserve_go c i p sh"
| "agent_go Q c i (Push p) sh = push_go Q c p sh"
| "agent_go Q c i (Unit p) sh = unit_go c p sh"
| "agent_go Q c i (Grant p) sh = grant_go p sh"
| "agent_go Q c i (Wake p) sh = wake_go p sh"
| "agent_go Q c i (Close p) sh = close_go Q p sh"
| "agent_go Q c i (Rx p) sh = rx_go Q c p sh"
| "agent_go Q c i TxDrop sh = tx_drop_go sh"
| "agent_go Q c i Done sh = (Done, sh)"

text \<open>What the owner of an agent does with it while it rests: polls, drops, sends, receives or closes.\<close>

datatype 'm cmd =
    PollReserve waker u64
  | DropReserve
  | SendPermit 'm
  | DropPermit
  | PollRecv waker
  | TryRecv
  | CloseRx close_for

definition rx_rests :: "'m pc \<Rightarrow> bool" where
  "rx_rests p \<longleftrightarrow> p = Rx RxIdle \<or> p = Rx RxWaits \<or> p = Rx RxAsleep"

fun agent_cmd :: "'m cmd \<Rightarrow> 'm pc \<Rightarrow> 'q shared \<Rightarrow> 'm pc \<times> 'q shared" where
  "agent_cmd (PollReserve w key) p sh =
     (case p of
        Res Fresh \<Rightarrow> Res (ResRead w (wait_lane key sh))
      | Res (Parked _ l) \<Rightarrow> Res (ParkedRead w l)
      | _ \<Rightarrow> p, sh)"
| "agent_cmd DropReserve p sh =
     (case p of Res Fresh \<Rightarrow> Done | Res (Parked _ l) \<Rightarrow> Res (CancelLock l) | _ \<Rightarrow> p, sh)"
| "agent_cmd (SendPermit m) p sh = (if p = Res HasPermit then Push (PushCheck m) else p, sh)"
| "agent_cmd DropPermit p sh = (if p = Res HasPermit then Unit (RelRead ByOther) else p, sh)"
| "agent_cmd (PollRecv w) p sh =
     (if rx_rests p then (Rx (RxPoll w), sh\<lparr>sh_reader_woken := False\<rparr>) else (p, sh))"
| "agent_cmd TryRecv p sh = (if rx_rests p then Rx RxTake else p, sh)"
| "agent_cmd (CloseRx f) p sh = (if rx_rests p then Close (CloseFlag f) else p, sh)"

record ('m, 'q) mail_state =
  ms_shared :: "'q shared"
  ms_agents :: "'m pc list"

datatype 'm mail_op =
    Go agent bool
  | Cmd agent "'m cmd"
  | NewReserve
  | NewTrySend 'm
  | CloneTx
  | DropTx

text \<open>A sender that is not being dropped is needed to reserve, to send, to clone and to drop.\<close>

definition no_sender :: "('m, 'q) mail_state \<Rightarrow> bool" where
  "no_sender s \<longleftrightarrow> sh_tx_count (ms_shared s) \<le> length (filter (\<lambda>p. p = TxDrop) (ms_agents s))"

fun mail_step :: "('m, 'q) queue_ops \<Rightarrow> ('m, 'q) mail_state \<Rightarrow> 'm mail_op \<Rightarrow> ('m, 'q) mail_state" where
  "mail_step Q s (Go i c) =
     (if i < length (ms_agents s)
      then (case agent_go Q c i (ms_agents s ! i) (ms_shared s) of
              (p, sh) \<Rightarrow> \<lparr>ms_shared = sh, ms_agents = (ms_agents s)[i := p]\<rparr>)
      else s)"
| "mail_step Q s (Cmd i c) =
     (if i < length (ms_agents s)
      then (case agent_cmd c (ms_agents s ! i) (ms_shared s) of
              (p, sh) \<Rightarrow> \<lparr>ms_shared = sh, ms_agents = (ms_agents s)[i := p]\<rparr>)
      else s)"
| "mail_step Q s NewReserve =
     (if no_sender s then s else s\<lparr>ms_agents := ms_agents s @ [Res Fresh]\<rparr>)"
| "mail_step Q s (NewTrySend m) =
     (if no_sender s then s else s\<lparr>ms_agents := ms_agents s @ [Push (TryRead m)]\<rparr>)"
| "mail_step Q s CloneTx =
     (if no_sender s then s
      else s\<lparr>ms_shared := (ms_shared s)\<lparr>sh_tx_count := sh_tx_count (ms_shared s) + 1\<rparr>\<rparr>)"
| "mail_step Q s DropTx =
     (if no_sender s then s else s\<lparr>ms_agents := ms_agents s @ [TxDrop]\<rparr>)"

text \<open>\<open>channel\<close>: it asserts a capacity of at least one, and clamps the number of lists.\<close>

definition channel :: "nat \<Rightarrow> nat \<Rightarrow> 'q \<Rightarrow> ('m, 'q) mail_state option" where
  "channel capacity lanes queue =
     (if capacity = 0 then None
      else Some \<lparr>ms_shared = shared_new capacity (max 1 (min lanes mailbox_lanes)) queue, ms_agents = [Rx RxIdle]\<rparr>)"

end
