(* ===== verification/Mailbox_Inv.thy ===== *)
theory Mailbox_Inv
  imports Mailbox
begin

text \<open>
  The invariant of the mailbox machine of \<open>Mailbox\<close>.  Its parts: who waits in which list (\<open>lists_ok\<close>), who holds
  which lock (\<open>locks_ok\<close>), which lists exist (\<open>lane_known\<close>), the counts of the lists (\<open>counts_ok\<close>), the units (\<open>units_ok\<close>), and for each
  sleeper the agent that will wake it (\<open>rebalance_ok\<close>, \<open>waiters_woken\<close>, \<open>closer_ok\<close>, \<open>reader_ok\<close>).
\<close>

section \<open>What a program counter means\<close>

text \<open>The unit an agent has in hand.\<close>

fun held :: "'m pc \<Rightarrow> nat" where
  "held (Res GrantedRead) = 1"
| "held (Res HasPermit) = 1"
| "held (Push (PushCheck _)) = 1"
| "held (Push (PushLand _)) = 1"
| "held (Unit (RelRead _)) = 1"
| "held (Unit (RelAdd _)) = 1"
| "held (Unit (RebBack _)) = 1"
| "held (Grant (GrantStart _)) = 1"
| "held (Grant (GrantScan _ _ _)) = 1"
| "held (Grant (GrantPop _ _ _)) = 1"
| "held _ = 0"

text \<open>The rebalance an agent is in, and the release it makes.\<close>

fun grant_after :: "grant_for \<Rightarrow> after option" where
  "grant_after (GrantRelease _) = None"
| "grant_after (GrantRebalance a) = Some a"

fun wake_after :: "wake_for \<Rightarrow> after option" where
  "wake_after WakeEnd = None"
| "wake_after (WakeRebalance a) = Some a"

fun grant_of :: "grant_pc \<Rightarrow> grant_for" where
  "grant_of (GrantStart g) = g"
| "grant_of (GrantScan g _ _) = g"
| "grant_of (GrantPop g _ _) = g"
| "grant_of (GrantCount g _ _) = g"
| "grant_of (GrantTotal g _ _) = g"
| "grant_of (GrantWake g _) = g"

fun wake_of :: "wake_pc \<Rightarrow> wake_for" where
  "wake_of (WakeLoad v) = v"
| "wake_of (WakeSwap v) = v"
| "wake_of (WakeTake v) = v"
| "wake_of (WakeReader v) = v"

fun pc_after :: "'m pc \<Rightarrow> after option" where
  "pc_after (Unit (RebRead a)) = Some a"
| "pc_after (Unit (RebLoad a)) = Some a"
| "pc_after (Unit (RebCas a _)) = Some a"
| "pc_after (Unit (RebBack a)) = Some a"
| "pc_after (Unit (RebClosed a)) = Some a"
| "pc_after (Grant p) = grant_after (grant_of p)"
| "pc_after (Wake p) = wake_after (wake_of p)"
| "pc_after _ = None"

fun parks :: "after option \<Rightarrow> nat option" where
  "parks (Some (ThenParked _ l)) = Some l"
| "parks _ = None"

text \<open>The list an agent's reservation is parked in, and the waker of its last poll once that is in its entry.\<close>

fun waits :: "'m pc \<Rightarrow> nat option" where
  "waits (Res (ParkCount _ l)) = Some l"
| "waits (Res (ParkTotal _ l)) = Some l"
| "waits (Res (ParkRoom _ l)) = Some l"
| "waits (Res (ParkedRead _ l)) = Some l"
| "waits (Res (ParkedRefresh _ l)) = Some l"
| "waits (Res (ParkedSettle _ l)) = Some l"
| "waits (Res (Parked _ l)) = Some l"
| "waits (Res (CancelLock l)) = Some l"
| "waits (Res _) = None"
| "waits p = parks (pc_after p)"

fun settled :: "'m pc \<Rightarrow> waker option" where
  "settled (Res (ParkedSettle w _)) = Some w"
| "settled (Res (Parked w _)) = Some w"
| "settled _ = None"

text \<open>The lock an agent holds; what its section has done to the list and not yet to the list's count, or to the total.\<close>

fun holds :: "'m pc \<Rightarrow> nat option" where
  "holds (Res (ParkCount _ l)) = Some l"
| "holds (Res (ParkTotal _ l)) = Some l"
| "holds (Res (CancelCount l)) = Some l"
| "holds (Res (CancelTotal l)) = Some l"
| "holds (Grant (GrantCount _ l _)) = Some l"
| "holds (Grant (GrantTotal _ l _)) = Some l"
| "holds (Close (CloseCount _ l _)) = Some l"
| "holds (Close (CloseTotal _ l _)) = Some l"
| "holds _ = None"

fun lane_debt :: "'m pc \<Rightarrow> int" where
  "lane_debt (Res (ParkCount _ _)) = - 1"
| "lane_debt (Res (CancelCount _)) = 1"
| "lane_debt (Grant (GrantCount _ _ _)) = 1"
| "lane_debt (Close (CloseCount _ _ ds)) = int (length ds)"
| "lane_debt _ = 0"

fun total_debt :: "'m pc \<Rightarrow> int" where
  "total_debt (Res (ParkCount _ _)) = - 1"
| "total_debt (Res (ParkTotal _ _)) = - 1"
| "total_debt (Res (CancelCount _)) = 1"
| "total_debt (Res (CancelTotal _)) = 1"
| "total_debt (Grant (GrantCount _ _ _)) = 1"
| "total_debt (Grant (GrantTotal _ _ _)) = 1"
| "total_debt (Close (CloseCount _ _ ds)) = int (length ds)"
| "total_debt (Close (CloseTotal _ _ ds)) = int (length ds)"
| "total_debt _ = 0"

fun pushing :: "'m pc \<Rightarrow> bool" where
  "pushing (Res (ParkPush _ _)) = True"
| "pushing (Res (ParkCount _ _)) = True"
| "pushing (Res (ParkTotal _ _)) = True"
| "pushing _ = False"

text \<open>An agent that will look at the room and the total again; the wakes an agent has still to make; how far a closer is.\<close>

definition responsible :: "'m pc \<Rightarrow> bool" where
  "responsible p \<longleftrightarrow> pc_after p \<noteq> None \<or> (\<exists>r. p = Unit (RelReread r)) \<or> (\<exists>w l. p = Res (ParkRoom w l))"

fun owes :: "'m pc \<Rightarrow> (agent \<times> waker) list" where
  "owes (Grant (GrantCount _ _ e)) = [e]"
| "owes (Grant (GrantTotal _ _ e)) = [e]"
| "owes (Grant (GrantWake _ e)) = [e]"
| "owes (Close (CloseCount _ _ ds)) = ds"
| "owes (Close (CloseTotal _ _ ds)) = ds"
| "owes (Close (CloseWake _ _ ds)) = ds"
| "owes _ = []"

fun closing :: "'m pc \<Rightarrow> nat option" where
  "closing (Close (CloseLane _ l)) = Some l"
| "closing (Close (CloseCount _ l _)) = Some (l + 1)"
| "closing (Close (CloseTotal _ l _)) = Some (l + 1)"
| "closing (Close (CloseWake _ l _)) = Some (l + 1)"
| "closing _ = None"

text \<open>The release an agent makes, or will resume after its rebalance.\<close>

fun after_releaser :: "after option \<Rightarrow> releaser option" where
  "after_releaser (Some (ThenRelease r)) = Some r"
| "after_releaser _ = None"

fun releaser_of :: "'m pc \<Rightarrow> releaser option" where
  "releaser_of (Unit (RelRead r)) = Some r"
| "releaser_of (Unit (RelAdd r)) = Some r"
| "releaser_of (Unit (RelReread r)) = Some r"
| "releaser_of (Unit (RelClosed r)) = Some r"
| "releaser_of (Grant p) =
     (case grant_of p of GrantRelease r \<Rightarrow> Some r | GrantRebalance a \<Rightarrow> after_releaser (Some a))"
| "releaser_of p = after_releaser (pc_after p)"

fun rx_side :: "'m pc \<Rightarrow> bool" where
  "rx_side (Rx _) = True"
| "rx_side (Close _) = True"
| "rx_side Done = True"
| "rx_side p = (releaser_of p \<in> {Some ByRx, Some ByDrop})"

fun tx_side :: "'m pc \<Rightarrow> bool" where
  "tx_side (Rx _) = False"
| "tx_side (Close _) = False"
| "tx_side p = (releaser_of p \<in> {None, Some ByOther})"

text \<open>A compare-exchange runs only on a value above zero.\<close>

fun cas_ok :: "'m pc \<Rightarrow> bool" where
  "cas_ok (Res (ResCas _ _ n)) = (0 < n)"
| "cas_ok (Push (TryCas _ n)) = (0 < n)"
| "cas_ok (Unit (RebCas _ n)) = (0 < n)"
| "cas_ok _ = True"

section \<open>The shared state, list by list\<close>

definition wl :: "'q shared \<Rightarrow> nat \<Rightarrow> (agent \<times> waker) list" where
  "wl sh l = (if l < length (sh_lanes sh) then ln_waiters (sh_lanes sh ! l) else [])"

definition wc :: "'q shared \<Rightarrow> nat \<Rightarrow> nat" where
  "wc sh l = (if l < length (sh_lanes sh) then ln_waiting (sh_lanes sh ! l) else 0)"

definition lk :: "'q shared \<Rightarrow> nat \<Rightarrow> bool" where
  "lk sh l \<longleftrightarrow> l < length (sh_lanes sh) \<and> ln_locked (sh_lanes sh ! l)"

section \<open>The invariant\<close>

definition lanes_ok :: "'q shared \<Rightarrow> 'm pc list \<Rightarrow> bool" where
  "lanes_ok sh ag \<longleftrightarrow>
     0 < length (sh_lanes sh) \<and> length (sh_lanes sh) \<le> sh_lane_count sh \<and>
     (length (sh_lanes sh) = 1 \<or> length (sh_lanes sh) = sh_lane_count sh)"

definition sides_ok :: "'m pc list \<Rightarrow> bool" where
  "sides_ok ag \<longleftrightarrow> ag \<noteq> [] \<and> rx_side (ag ! 0) \<and> (\<forall>i. 0 < i \<and> i < length ag \<longrightarrow> tx_side (ag ! i)) \<and>
     (\<forall>i. i < length ag \<longrightarrow> cas_ok (ag ! i))"

definition lists_ok :: "(nat \<Rightarrow> (agent \<times> waker) list) \<Rightarrow> (agent \<Rightarrow> wait_state) \<Rightarrow> 'm pc list \<Rightarrow> bool" where
  "lists_ok w st ag \<longleftrightarrow>
     (\<forall>l. distinct (map fst (w l))) \<and>
     (\<forall>l j v. (j, v) \<in> set (w l) \<longrightarrow> j < length ag \<and> waits (ag ! j) = Some l \<and> st j = WAITING) \<and>
     (\<forall>i l. i < length ag \<and> waits (ag ! i) = Some l \<and> st i = WAITING \<longrightarrow> (\<exists>v. (i, v) \<in> set (w l))) \<and>
     (\<forall>i l v. i < length ag \<and> waits (ag ! i) = Some l \<and> settled (ag ! i) = Some v \<and> st i = WAITING \<longrightarrow>
        (i, v) \<in> set (w l))"

definition locks_ok :: "(nat \<Rightarrow> bool) \<Rightarrow> (agent \<Rightarrow> wait_state) \<Rightarrow> 'm pc list \<Rightarrow> bool" where
  "locks_ok k st ag \<longleftrightarrow>
     (\<forall>l. k l \<longrightarrow> (\<exists>i. i < length ag \<and> holds (ag ! i) = Some l)) \<and>
     (\<forall>i l. i < length ag \<and> holds (ag ! i) = Some l \<longrightarrow> k l) \<and>
     (\<forall>i j l. i < length ag \<and> j < length ag \<and> holds (ag ! i) = Some l \<and> holds (ag ! j) = Some l \<longrightarrow> i = j) \<and>
     (\<forall>i. i < length ag \<and> pushing (ag ! i) \<longrightarrow> st i = WAITING)"


definition counts_ok ::
  "(nat \<Rightarrow> (agent \<times> waker) list) \<Rightarrow> (nat \<Rightarrow> nat) \<Rightarrow> (nat \<Rightarrow> bool) \<Rightarrow> nat \<Rightarrow> nat \<Rightarrow> 'm pc list \<Rightarrow> bool" where
  "counts_ok w c k tot lanes ag \<longleftrightarrow>
     (\<forall>l. \<not> k l \<longrightarrow> c l = length (w l)) \<and>
     (\<forall>i l. i < length ag \<and> holds (ag ! i) = Some l \<longrightarrow> int (c l) = int (length (w l)) + lane_debt (ag ! i)) \<and>
     int tot = (\<Sum>l\<in>{..<lanes}. int (length (w l))) + (\<Sum>i\<in>{..<length ag}. total_debt (ag ! i))"

text \<open>The granted reservations that have not taken their unit yet.\<close>

definition granted :: "(agent \<Rightarrow> wait_state) \<Rightarrow> 'm pc list \<Rightarrow> nat" where
  "granted st ag = (\<Sum>i\<in>{..<length ag}. if waits (ag ! i) \<noteq> None \<and> st i = GRANTED then 1 else 0)"

definition units_ok :: "('m, 'q) queue_ops \<Rightarrow> 'q shared \<Rightarrow> 'm pc list \<Rightarrow> bool" where
  "units_ok Q sh ag \<longleftrightarrow>
     sh_room sh + length (q_items Q (sh_queue sh)) + (\<Sum>i\<in>{..<length ag}. held (ag ! i)) + granted (sh_state sh) ag =
       sh_capacity sh"

definition rebalance_ok :: "'q shared \<Rightarrow> 'm pc list \<Rightarrow> bool" where
  "rebalance_ok sh ag \<longleftrightarrow>
     0 < sh_room sh \<and> 0 < sh_waiting_total sh \<longrightarrow> (\<exists>i. i < length ag \<and> responsible (ag ! i))"

definition waiters_woken :: "'q shared \<Rightarrow> 'm pc list \<Rightarrow> bool" where
  "waiters_woken sh ag \<longleftrightarrow>
     (\<forall>i w l. i < length ag \<and> ag ! i = Res (Parked w l) \<and> sh_state sh i \<noteq> WAITING \<longrightarrow>
        (i, w) \<in> set (sh_woken sh) \<or> (\<exists>j. j < length ag \<and> (i, w) \<in> set (owes (ag ! j))))"

definition closer_ok :: "'q shared \<Rightarrow> 'm pc list \<Rightarrow> bool" where
  "closer_ok sh ag \<longleftrightarrow>
     (sh_closed sh \<longrightarrow> (\<forall>l. wl sh l \<noteq> [] \<longrightarrow> (\<exists>k. closing (ag ! 0) = Some k \<and> k \<le> l)))"

text \<open>An agent that has returned a unit and will look for a closed mailbox, or is waking the receiver.\<close>

fun will_wake :: "'m pc \<Rightarrow> bool" where
  "will_wake (Wake _) = True"
| "will_wake (Unit (RebClosed _)) = True"
| "will_wake (Unit (RelReread r)) = (r = ByOther)"
| "will_wake (Unit (RelClosed r)) = (r = ByOther)"
| "will_wake p = (pc_after p = Some (ThenRelease ByOther))"

definition some_agent :: "('m pc \<Rightarrow> bool) \<Rightarrow> 'm pc list \<Rightarrow> bool" where
  "some_agent P ag \<longleftrightarrow> (\<exists>i. 0 < i \<and> i < length ag \<and> P (ag ! i))"

abbreviation is_waking :: "'m pc \<Rightarrow> bool" where
  "is_waking p \<equiv> (\<exists>v. p = Wake (WakeReader v))"

abbreviation is_taking :: "'m pc \<Rightarrow> bool" where
  "is_taking p \<equiv> (\<exists>v. p = Wake (WakeTake v))"

fun reader_ok :: "rx_pc \<Rightarrow> 'q shared \<Rightarrow> 'm pc list \<Rightarrow> bool" where
  "reader_ok (RxRegister w) sh ag = sh_closed sh"
| "reader_ok RxFlag sh ag =
     (sh_closed sh \<and> (sh_reader_woken sh \<or> some_agent is_waking ag \<or> sh_waker sh \<noteq> None))"
| "reader_ok RxEnded sh ag =
     (sh_closed sh \<and> (sh_reader_woken sh \<or> some_agent is_waking ag \<or>
        sh_waker sh \<noteq> None \<and> (sh_parked sh \<or> some_agent is_taking ag)))"
| "reader_ok RxAsleep sh ag =
     (sh_closed sh \<and> (sh_reader_woken sh \<or> some_agent is_waking ag \<or>
        sh_waker sh \<noteq> None \<and> (sh_parked sh \<or> some_agent is_taking ag)) \<and>
      (sh_room sh = sh_capacity sh \<longrightarrow> sh_reader_woken sh \<or> some_agent will_wake ag))"
| "reader_ok _ sh ag = True"

text \<open>The list a program counter names exists, or will once the agent parks.\<close>

fun parks_soon :: "'m pc \<Rightarrow> nat option" where
  "parks_soon (Res (ResRead _ l)) = Some l"
| "parks_soon (Res (ResLoad _ l)) = Some l"
| "parks_soon (Res (ResCas _ l _)) = Some l"
| "parks_soon (Res (ParkInit _ l)) = Some l"
| "parks_soon _ = None"

definition lane_known :: "'q shared \<Rightarrow> 'm pc \<Rightarrow> bool" where
  "lane_known sh p \<longleftrightarrow>
     (\<forall>l. waits p = Some l \<longrightarrow> l < length (sh_lanes sh)) \<and>
     (\<forall>l. parks_soon p = Some l \<longrightarrow> l < sh_lane_count sh) \<and>
     (\<forall>w l. p = Res (ParkPush w l) \<longrightarrow> l < length (sh_lanes sh)) \<and>
     (\<forall>g start k. p = Grant (GrantPop g start k) \<longrightarrow> grant_lane start k sh < length (sh_lanes sh))"

definition mail_inv :: "('m, 'q) queue_ops \<Rightarrow> ('m, 'q) mail_state \<Rightarrow> bool" where
  "mail_inv Q s \<longleftrightarrow>
     (let sh = ms_shared s; ag = ms_agents s in
      lanes_ok sh ag \<and> sides_ok ag \<and> lists_ok (wl sh) (sh_state sh) ag \<and> locks_ok (lk sh) (sh_state sh) ag \<and>
      counts_ok (wl sh) (wc sh) (lk sh) (sh_waiting_total sh) (sh_lane_count sh) ag \<and> units_ok Q sh ag \<and> rebalance_ok sh ag \<and> waiters_woken sh ag \<and> closer_ok sh ag \<and>
      (\<forall>p. ag ! 0 = Rx p \<longrightarrow> reader_ok p sh ag) \<and> (\<forall>i. i < length ag \<longrightarrow> lane_known sh (ag ! i)))"

section \<open>Shared state\<close>

lemma on_lane_fields [simp]:
  "sh_capacity (on_lane l f sh) = sh_capacity sh" "sh_lane_count (on_lane l f sh) = sh_lane_count sh"
  "sh_room (on_lane l f sh) = sh_room sh" "sh_waiting_total (on_lane l f sh) = sh_waiting_total sh"
  "sh_closed (on_lane l f sh) = sh_closed sh" "sh_tx_count (on_lane l f sh) = sh_tx_count sh"
  "sh_parked (on_lane l f sh) = sh_parked sh" "sh_waker (on_lane l f sh) = sh_waker sh"
  "sh_queue (on_lane l f sh) = sh_queue sh" "sh_state (on_lane l f sh) = sh_state sh"
  "sh_woken (on_lane l f sh) = sh_woken sh" "sh_reader_woken (on_lane l f sh) = sh_reader_woken sh"
  "length (sh_lanes (on_lane l f sh)) = length (sh_lanes sh)"
  by (simp_all add: on_lane_def)

lemma lane_or_init_fields [simp]:
  "sh_capacity (lane_or_init l sh) = sh_capacity sh" "sh_lane_count (lane_or_init l sh) = sh_lane_count sh"
  "sh_room (lane_or_init l sh) = sh_room sh" "sh_waiting_total (lane_or_init l sh) = sh_waiting_total sh"
  "sh_closed (lane_or_init l sh) = sh_closed sh" "sh_tx_count (lane_or_init l sh) = sh_tx_count sh"
  "sh_parked (lane_or_init l sh) = sh_parked sh" "sh_waker (lane_or_init l sh) = sh_waker sh"
  "sh_queue (lane_or_init l sh) = sh_queue sh" "sh_state (lane_or_init l sh) = sh_state sh"
  "sh_woken (lane_or_init l sh) = sh_woken sh" "sh_reader_woken (lane_or_init l sh) = sh_reader_woken sh"
  by (simp_all add: lane_or_init_def)

lemma lane_views_on_lane:
  "l < length (sh_lanes sh) \<Longrightarrow> wl (on_lane l f sh) = (wl sh)(l := ln_waiters (f (sh_lanes sh ! l)))"
  "l < length (sh_lanes sh) \<Longrightarrow> wc (on_lane l f sh) = (wc sh)(l := ln_waiting (f (sh_lanes sh ! l)))"
  "l < length (sh_lanes sh) \<Longrightarrow> lk (on_lane l f sh) = (lk sh)(l := ln_locked (f (sh_lanes sh ! l)))"
  by (auto simp: wl_def wc_def lk_def on_lane_def nth_list_update fun_eq_iff)

lemma lane_views_keep [simp]:
  "(\<And>ln. ln_waiters (f ln) = ln_waiters ln) \<Longrightarrow> wl (on_lane l f sh) = wl sh"
  "(\<And>ln. ln_waiting (f ln) = ln_waiting ln) \<Longrightarrow> wc (on_lane l f sh) = wc sh"
  "(\<And>ln. ln_locked (f ln) = ln_locked ln) \<Longrightarrow> lk (on_lane l f sh) = lk sh"
  by (auto simp: wl_def wc_def lk_def on_lane_def nth_list_update fun_eq_iff)

lemma lane_views_init [simp]:
  "wl (lane_or_init l sh) = wl sh" "wc (lane_or_init l sh) = wc sh" "lk (lane_or_init l sh) = lk sh"
  by (auto simp: wl_def wc_def lk_def lane_or_init_def lane_new_def nth_append fun_eq_iff)

lemma lane_views_same:
  "sh_lanes sh' = sh_lanes sh \<Longrightarrow> wl sh' = wl sh"
  "sh_lanes sh' = sh_lanes sh \<Longrightarrow> wc sh' = wc sh"
  "sh_lanes sh' = sh_lanes sh \<Longrightarrow> lk sh' = lk sh"
  by (simp_all add: wl_def wc_def lk_def fun_eq_iff)

lemma lane_views_update [simp]:
  "wl (sh_room_update f0 sh) = wl sh" "wc (sh_room_update f0 sh) = wc sh" "lk (sh_room_update f0 sh) = lk sh"
  "wl (sh_waiting_total_update f1 sh) = wl sh" "wc (sh_waiting_total_update f1 sh) = wc sh" "lk (sh_waiting_total_update f1 sh) = lk sh"
  "wl (sh_closed_update f2 sh) = wl sh" "wc (sh_closed_update f2 sh) = wc sh" "lk (sh_closed_update f2 sh) = lk sh"
  "wl (sh_tx_count_update f3 sh) = wl sh" "wc (sh_tx_count_update f3 sh) = wc sh" "lk (sh_tx_count_update f3 sh) = lk sh"
  "wl (sh_next_grant_update f4 sh) = wl sh" "wc (sh_next_grant_update f4 sh) = wc sh" "lk (sh_next_grant_update f4 sh) = lk sh"
  "wl (sh_parked_update f5 sh) = wl sh" "wc (sh_parked_update f5 sh) = wc sh" "lk (sh_parked_update f5 sh) = lk sh"
  "wl (sh_waker_update f6 sh) = wl sh" "wc (sh_waker_update f6 sh) = wc sh" "lk (sh_waker_update f6 sh) = lk sh"
  "wl (sh_queue_update f7 sh) = wl sh" "wc (sh_queue_update f7 sh) = wc sh" "lk (sh_queue_update f7 sh) = lk sh"
  "wl (sh_state_update f8 sh) = wl sh" "wc (sh_state_update f8 sh) = wc sh" "lk (sh_state_update f8 sh) = lk sh"
  "wl (sh_woken_update f9 sh) = wl sh" "wc (sh_woken_update f9 sh) = wc sh" "lk (sh_woken_update f9 sh) = lk sh"
  "wl (sh_reader_woken_update f10 sh) = wl sh" "wc (sh_reader_woken_update f10 sh) = wc sh" "lk (sh_reader_woken_update f10 sh) = lk sh"
  by (simp_all add: wl_def wc_def lk_def fun_eq_iff)

end
