(* ===== verification/Mailbox_Steps.thy ===== *)
theory Mailbox_Steps
  imports Mailbox_Inv
begin

text \<open>
  Every step of the mailbox machine keeps its invariant, and what follows for the mailbox.  Each part of the
  invariant has a few lemmas, one for each way a step can change what the part is about.
\<close>

section \<open>Agents\<close>

lemma some_agent_update:
  "i < length ag \<Longrightarrow>
    some_agent P (ag[i := p]) \<longleftrightarrow> (0 < i \<and> P p) \<or> (\<exists>j. 0 < j \<and> j < length ag \<and> j \<noteq> i \<and> P (ag ! j))"
  by (auto simp: some_agent_def nth_list_update)

lemma sum_update:
  fixes f :: "'a \<Rightarrow> 'b :: comm_monoid_add"
  assumes "i < length ag"
  shows "(\<Sum>j\<in>{..<length ag}. f (ag[i := p] ! j)) + f (ag ! i) = (\<Sum>j\<in>{..<length ag}. f (ag ! j)) + f p"
proof -
  have split: "(\<Sum>j\<in>{..<length ag}. g j) = g i + (\<Sum>j\<in>{..<length ag} - {i}. g j)" for g :: "nat \<Rightarrow> 'b"
    using assms by (simp add: sum.remove)
  have "(\<Sum>j\<in>{..<length ag} - {i}. f (ag[i := p] ! j)) = (\<Sum>j\<in>{..<length ag} - {i}. f (ag ! j))"
    by (rule sum.cong) auto
  then show ?thesis
    using assms by (simp add: split [of "\<lambda>j. f (ag[i := p] ! j)"] split [of "\<lambda>j. f (ag ! j)"] ac_simps)
qed

section \<open>Lists\<close>

lemma lists_okI:
  assumes "\<And>l. distinct (map fst (w l))"
    and "\<And>l j v. (j, v) \<in> set (w l) \<Longrightarrow> j < length ag \<and> waits (ag ! j) = Some l \<and> st j = WAITING"
    and "\<And>i l. i < length ag \<Longrightarrow> waits (ag ! i) = Some l \<Longrightarrow> st i = WAITING \<Longrightarrow> \<exists>v. (i, v) \<in> set (w l)"
    and "\<And>i l v. i < length ag \<Longrightarrow> waits (ag ! i) = Some l \<Longrightarrow> settled (ag ! i) = Some v \<Longrightarrow> st i = WAITING \<Longrightarrow>
      (i, v) \<in> set (w l)"
  shows "lists_ok w st ag"
  using assms unfolding lists_ok_def by blast

lemma lists_okD:
  assumes "lists_ok w st ag"
  shows "distinct (map fst (w l))"
    and "(j, v) \<in> set (w l) \<Longrightarrow> j < length ag \<and> waits (ag ! j) = Some l \<and> st j = WAITING"
    and "i < length ag \<Longrightarrow> waits (ag ! i) = Some l \<Longrightarrow> st i = WAITING \<Longrightarrow> \<exists>v. (i, v) \<in> set (w l)"
    and "i < length ag \<Longrightarrow> waits (ag ! i) = Some l \<Longrightarrow> settled (ag ! i) = Some v \<Longrightarrow> st i = WAITING \<Longrightarrow>
      (i, v) \<in> set (w l)"
  using assms unfolding lists_ok_def by blast+

lemma lists_keep:
  assumes "lists_ok w st ag" "i < length ag" "waits p = waits (ag ! i)"
    and "settled p = None \<or> settled p = settled (ag ! i)"
  shows "lists_ok w st (ag[i := p])"
proof -
  have same: "waits (ag[i := p] ! j) = waits (ag ! j)" for j
    using assms(2,3) by (simp add: nth_list_update)
  have "settled (ag[i := p] ! j) = Some v \<Longrightarrow> settled (ag ! j) = Some v" for j v
    using assms(2,4) by (cases "j = i") auto
  then show ?thesis
    using assms(1) unfolding lists_ok_def same length_list_update by blast
qed

lemma lists_leave:
  assumes "lists_ok w st ag" "i < length ag" "waits p = None" "waits (ag ! i) = None \<or> st i \<noteq> WAITING"
  shows "lists_ok w st (ag[i := p])"
  using assms(2-4)
  by (intro lists_okI) (auto simp: nth_list_update split: if_splits dest: lists_okD(2-4) [OF assms(1)]
      intro: lists_okD(1) [OF assms(1)])

lemma lists_push:
  assumes "lists_ok w st ag" "i < length ag" "waits (ag ! i) = None" "waits p = Some l" "settled p = None"
    and "st i = WAITING"
  shows "lists_ok (w(l := w l @ [(i, v)])) st (ag[i := p])"
proof -
  have "(i, u) \<notin> set (w k)" for u k
    using lists_okD(2) [OF assms(1), of i u k] assms(3) by auto
  then have "i \<notin> fst ` set (w k)" for k by force
  then show ?thesis
    using assms(2-)
    by (intro lists_okI) (auto simp: nth_list_update split: if_splits dest: lists_okD(2-4) [OF assms(1)]
        intro: lists_okD(1) [OF assms(1)])
qed

lemma lists_refresh:
  assumes "lists_ok w st ag" "i < length ag" "waits (ag ! i) = Some l" "waits p = Some l"
    and "settled p = None \<or> settled p = Some v"
  shows "lists_ok (w(l := map (\<lambda>(j, u). (j, if j = i then v else u)) (w l))) st (ag[i := p])"
    (is "lists_ok (w(l := ?m)) st _")
proof -
  have mem: "(j, u) \<in> set ?m \<longleftrightarrow> (if j = i then u = v \<and> (\<exists>u. (i, u) \<in> set (w l)) else (j, u) \<in> set (w l))" for j u
    by force
  show ?thesis
  proof (rule lists_okI)
    show "distinct (map fst ((w(l := ?m)) k))" for k
    proof -
      have "map fst ((w(l := ?m)) k) = map fst (w k)" by auto
      then show ?thesis using lists_okD(1) [OF assms(1)] by (simp only:)
    qed
  qed (use assms(2-5) in \<open>auto simp: mem nth_list_update split: if_splits simp del: set_map
      dest: lists_okD(2-4) [OF assms(1)]\<close>)
qed


lemma lists_remove:
  assumes "lists_ok w st ag" "i < length ag" "waits (ag ! i) = Some l" "waits p = None"
  shows "lists_ok (w(l := filter (\<lambda>e. fst e \<noteq> i) (w l))) st (ag[i := p])"
proof (rule lists_okI)
  show "distinct (map fst ((w(l := filter (\<lambda>e. fst e \<noteq> i) (w l))) k))" for k
    using lists_okD(1) [OF assms(1)] by (simp add: distinct_map_filter)
next
  fix k j v
  assume "(j, v) \<in> set ((w(l := filter (\<lambda>e. fst e \<noteq> i) (w l))) k)"
  then have "(j, v) \<in> set (w k)" "k = l \<longrightarrow> j \<noteq> i" by (auto split: if_splits)
  then show "j < length (ag[i := p]) \<and> waits (ag[i := p] ! j) = Some k \<and> st j = WAITING"
    using lists_okD(2) [OF assms(1), of j v k] assms(3) by (cases "j = i") auto
next
  fix k m
  assume k: "k < length (ag[i := p])" "waits (ag[i := p] ! k) = Some m" "st k = WAITING"
  then have "k \<noteq> i" using assms(2,4) by auto
  with k obtain u where "(k, u) \<in> set (w m)" using lists_okD(3) [OF assms(1), of k m] by auto
  with \<open>k \<noteq> i\<close> show "\<exists>u. (k, u) \<in> set ((w(l := filter (\<lambda>e. fst e \<noteq> i) (w l))) m)" by auto
next
  fix k m u
  assume k: "k < length (ag[i := p])" "waits (ag[i := p] ! k) = Some m" "settled (ag[i := p] ! k) = Some u"
    "st k = WAITING"
  then have "k \<noteq> i" using assms(2,4) by auto
  with k have "(k, u) \<in> set (w m)" using lists_okD(4) [OF assms(1), of k m u] by auto
  with \<open>k \<noteq> i\<close> show "(k, u) \<in> set ((w(l := filter (\<lambda>e. fst e \<noteq> i) (w l))) m)" by auto
qed

lemma lists_grant:
  assumes "lists_ok w st ag" "i < length ag" "w l = (j, v) # es" "waits p = waits (ag ! i)" "settled p = None"
  shows "lists_ok (w(l := es)) (st(j := GRANTED)) (ag[i := p])"
proof (rule lists_okI)
  have d: "distinct (map fst (w k))" for k by (rule lists_okD(1) [OF assms(1)])
  show "distinct (map fst ((w(l := es)) k))" for k
    using d [of k] assms(3) by (cases "k = l") simp_all
  fix k m u
  assume m: "(m, u) \<in> set ((w(l := es)) k)"
  then have "(m, u) \<in> set (w k)" using assms(3) by (auto split: if_splits)
  moreover have "m \<noteq> j"
  proof
    assume "m = j"
    then have "k = l"
      using lists_okD(2) [OF assms(1), of j u k] lists_okD(2) [OF assms(1), of j v l] calculation assms(3) by simp
    then show False using m d [of l] assms(3) \<open>m = j\<close> by force
  qed
  ultimately show "m < length (ag[i := p]) \<and> waits (ag[i := p] ! m) = Some k \<and> (st(j := GRANTED)) m = WAITING"
    using lists_okD(2) [OF assms(1), of m u k] assms(2,4) by (auto simp: nth_list_update)
next
  fix k m
  assume "k < length (ag[i := p])" "waits (ag[i := p] ! k) = Some m" "(st(j := GRANTED)) k = WAITING"
  then obtain u where "(k, u) \<in> set (w m)" "k \<noteq> j"
    using lists_okD(3) [OF assms(1), of k m] assms(2,4) by (cases "k = i") (auto split: if_splits)
  then show "\<exists>u. (k, u) \<in> set ((w(l := es)) m)"
    using assms(3) by (auto split: if_splits)
next
  fix k m u
  assume "k < length (ag[i := p])" "waits (ag[i := p] ! k) = Some m" "settled (ag[i := p] ! k) = Some u"
    "(st(j := GRANTED)) k = WAITING"
  then have "(k, u) \<in> set (w m)" "k \<noteq> j"
    using lists_okD(4) [OF assms(1), of k m u] assms(2,5) by (auto simp: nth_list_update split: if_splits)
  then show "(k, u) \<in> set ((w(l := es)) m)"
    using assms(3) by (auto split: if_splits)
qed

lemma lists_close:
  assumes "lists_ok w st ag" "i < length ag" "waits p = None" "waits (ag ! i) = None"
  shows "lists_ok (w(l := [])) (\<lambda>j. if j \<in> fst ` set (w l) then CLOSED else st j) (ag[i := p])"
proof (rule lists_okI)
  fix k m u
  assume "(m, u) \<in> set ((w(l := [])) k)"
  then have m: "(m, u) \<in> set (w k)" "k \<noteq> l" by (auto split: if_splits)
  then have "m \<notin> fst ` set (w l)"
    using lists_okD(2) [OF assms(1) m(1)] lists_okD(2) [OF assms(1), of m _ l] by auto
  then show "m < length (ag[i := p]) \<and> waits (ag[i := p] ! m) = Some k \<and>
      (if m \<in> fst ` set (w l) then CLOSED else st m) = WAITING"
    using lists_okD(2) [OF assms(1) m(1)] assms(2,4) by (auto simp: nth_list_update)
next
  fix k m
  assume "k < length (ag[i := p])" "waits (ag[i := p] ! k) = Some m"
    "(if k \<in> fst ` set (w l) then CLOSED else st k) = WAITING"
  then obtain u where "(k, u) \<in> set (w m)" "k \<notin> fst ` set (w l)"
    using lists_okD(3) [OF assms(1), of k m] assms(2,3) by (auto simp: nth_list_update split: if_splits)
  then show "\<exists>u. (k, u) \<in> set ((w(l := [])) m)" by force
next
  fix k m u
  assume "k < length (ag[i := p])" "waits (ag[i := p] ! k) = Some m" "settled (ag[i := p] ! k) = Some u"
    "(if k \<in> fst ` set (w l) then CLOSED else st k) = WAITING"
  then have "(k, u) \<in> set (w m)" "k \<notin> fst ` set (w l)"
    using lists_okD(4) [OF assms(1), of k m u] assms(2,3) by (auto simp: nth_list_update split: if_splits)
  then show "(k, u) \<in> set ((w(l := [])) m)" by force
qed (simp add: lists_okD(1) [OF assms(1)])

lemma lists_init:
  assumes "lists_ok w st ag" "i < length ag" "waits p = None" "waits (ag ! i) = None"
  shows "lists_ok w (st(i := WAITING)) (ag[i := p])"
  using assms(2-4)
  by (intro lists_okI) (auto simp: nth_list_update split: if_splits dest: lists_okD(2-4) [OF assms(1)]
      intro: lists_okD(1) [OF assms(1)])


section \<open>Locks\<close>

lemma locks_keep:
  assumes "locks_ok k st ag" "i < length ag" "holds p = holds (ag ! i)" "pushing p \<longrightarrow> st i = WAITING"
  shows "locks_ok k st (ag[i := p])"
proof -
  have same: "holds (ag[i := p] ! j) = holds (ag ! j)" for j
    using assms(2,3) by (simp add: nth_list_update)
  have "pushing (ag[i := p] ! j) \<Longrightarrow> j < length ag \<Longrightarrow> st j = WAITING" for j
    using assms(1,2,4) by (cases "j = i") (auto simp: locks_ok_def)
  then show ?thesis
    using assms(1) unfolding locks_ok_def same length_list_update by blast
qed

lemma locks_acquire:
  assumes "locks_ok k st ag" "i < length ag" "\<not> k l" "holds (ag ! i) = None" "holds p = Some l"
    and "pushing p \<longrightarrow> st i = WAITING"
  shows "locks_ok (k(l := True)) st (ag[i := p])"
proof -
  have at: "holds (ag[i := p] ! j) = (if j = i then Some l else holds (ag ! j))" for j
    using assms(2,5) by (simp add: nth_list_update)
  have free: "j < length ag \<Longrightarrow> holds (ag ! j) \<noteq> Some l" for j
    using assms(1,3) by (auto simp: locks_ok_def)
  have "pushing (ag[i := p] ! j) \<Longrightarrow> j < length ag \<Longrightarrow> st j = WAITING" for j
    using assms(1,2,6) by (cases "j = i") (auto simp: locks_ok_def)
  moreover have "\<exists>j. j < length ag \<and> holds (ag[i := p] ! j) = Some m" if "(k(l := True)) m" for m
  proof (cases "m = l")
    case True
    then show ?thesis using assms(2) at by auto
  next
    case False
    then have "k m" using that by simp
    then obtain j where "j < length ag" "holds (ag ! j) = Some m"
      using assms(1) unfolding locks_ok_def by blast
    then show ?thesis using at assms(4) by (intro exI [of _ j]) auto
  qed
  ultimately show ?thesis
    using assms(1,2) free unfolding locks_ok_def at length_list_update by (auto split: if_splits)
qed

lemma locks_release:
  assumes "locks_ok k st ag" "i < length ag" "holds (ag ! i) = Some l" "holds p = None" "\<not> pushing p"
  shows "locks_ok (k(l := False)) st (ag[i := p])"
proof -
  have at: "holds (ag[i := p] ! j) = (if j = i then None else holds (ag ! j))" for j
    using assms(2,4) by (simp add: nth_list_update)
  have only: "j < length ag \<Longrightarrow> holds (ag ! j) = Some l \<Longrightarrow> j = i" for j
    using assms(1,2,3) unfolding locks_ok_def by blast
  have "pushing (ag[i := p] ! j) \<Longrightarrow> j < length ag \<Longrightarrow> st j = WAITING" for j
    using assms(1,2,5) by (cases "j = i") (auto simp: locks_ok_def)
  moreover have "\<exists>j. j < length ag \<and> holds (ag[i := p] ! j) = Some m" if "(k(l := False)) m" for m
  proof -
    have "m \<noteq> l" "k m" using that by (auto split: if_splits)
    then obtain j where "j < length ag" "holds (ag ! j) = Some m"
      using assms(1) by (auto simp: locks_ok_def)
    then show ?thesis using at assms(3) \<open>m \<noteq> l\<close> by (intro exI [of _ j]) auto
  qed
  ultimately show ?thesis
    using assms(1) only unfolding locks_ok_def at length_list_update by (auto split: if_splits)
qed

lemma locks_states:
  assumes "locks_ok k st ag" "\<And>j. j < length ag \<Longrightarrow> pushing (ag ! j) \<Longrightarrow> st' j = WAITING"
  shows "locks_ok k st' ag"
  using assms unfolding locks_ok_def by blast


section \<open>Counts\<close>

lemma counts_keep:
  assumes "counts_ok w c k tot lanes ag" "i < length ag" "holds p = holds (ag ! i)"
    and "lane_debt p = lane_debt (ag ! i)" "total_debt p = total_debt (ag ! i)"
    and "\<And>l. length (w' l) = length (w l)"
  shows "counts_ok w' c k tot lanes (ag[i := p])"
proof -
  have same: "holds (ag[i := p] ! j) = holds (ag ! j)" "lane_debt (ag[i := p] ! j) = lane_debt (ag ! j)"
    "total_debt (ag[i := p] ! j) = total_debt (ag ! j)" for j
    using assms(2-5) by (simp_all add: nth_list_update)
  show ?thesis
    using assms(1) unfolding counts_ok_def same length_list_update assms(6) by blast
qed

lemma counts_acquire:
  assumes "counts_ok w c k tot lanes ag" "locks_ok k st ag" "i < length ag" "\<not> k l" "l < lanes"
    and "holds (ag ! i) = None" "total_debt (ag ! i) = 0" "holds p = Some l"
    and "lane_debt p = int (length (w l)) - int (length ys)" "total_debt p = lane_debt p"
  shows "counts_ok (w(l := ys)) c (k(l := True)) tot lanes (ag[i := p])"
proof -
  have free: "holds (ag ! j) \<noteq> Some l" if "j < length ag" for j
    using assms(2,4) that unfolding locks_ok_def by blast
  have "c l = length (w l)"
    using assms(1,4) unfolding counts_ok_def by blast
  moreover have "(\<Sum>j\<in>{..<lanes}. int (length ((w(l := ys)) j))) =
      (\<Sum>j\<in>{..<lanes}. int (length (w j))) + int (length ys) - int (length (w l))"
    using assms(5) by (simp add: sum.remove [of "{..<lanes}" l] cong: sum.cong_simp)
  moreover have "(\<Sum>j\<in>{..<length ag}. total_debt (ag[i := p] ! j)) =
      (\<Sum>j\<in>{..<length ag}. total_debt (ag ! j)) + total_debt p"
    using sum_update [OF assms(3), of total_debt p] assms(7) by simp
  ultimately show ?thesis
    using assms(1,3,8-10) free unfolding counts_ok_def by (auto simp: nth_list_update)
qed

lemma counts_lane:
  assumes "counts_ok w c k tot lanes ag" "locks_ok k st ag" "i < length ag" "holds (ag ! i) = Some l"
    and "holds p = Some l" "lane_debt p = 0" "total_debt p = total_debt (ag ! i)"
    and "int m = int (c l) - lane_debt (ag ! i)"
  shows "counts_ok w (c(l := m)) k tot lanes (ag[i := p])"
proof -
  have k: "k l" and only: "j = i" if "j < length ag" "holds (ag ! j) = Some l" for j
    using assms(2-4) that unfolding locks_ok_def by blast+
  have "k l" using k [OF assms(3,4)] .
  have same: "total_debt (ag[i := p] ! j) = total_debt (ag ! j)" for j
    using assms(3,7) by (simp add: nth_list_update)
  have "int (c l) = int (length (w l)) + lane_debt (ag ! i)"
    using assms(1,3,4) unfolding counts_ok_def by blast
  then have at: "int m = int (length (w l))" using assms(8) by simp
  show ?thesis
    unfolding counts_ok_def same length_list_update
  proof (intro conjI allI impI)
    fix j n
    assume j: "j < length ag \<and> holds (ag[i := p] ! j) = Some n"
    show "int ((c(l := m)) n) = int (length (w n)) + lane_debt (ag[i := p] ! j)"
    proof (cases "j = i")
      case True
      then show ?thesis using j assms(3,5,6) at by simp
    next
      case False
      then have "n \<noteq> l" using j only by auto
      then show ?thesis using j False assms(1) unfolding counts_ok_def by auto
    qed
  qed (use assms(1) \<open>k l\<close> in \<open>auto simp: counts_ok_def\<close>)
qed

lemma counts_total:
  assumes "counts_ok w c k tot lanes ag" "locks_ok k st ag" "i < length ag" "holds (ag ! i) = Some l"
    and "lane_debt (ag ! i) = 0" "holds p = None" "total_debt p = 0" "int n = int tot - total_debt (ag ! i)"
  shows "counts_ok w c (k(l := False)) n lanes (ag[i := p])"
proof -
  have at: "c l = length (w l)"
    using assms(1,3-5) unfolding counts_ok_def by fastforce
  have "(\<Sum>j\<in>{..<length ag}. total_debt (ag[i := p] ! j)) =
      (\<Sum>j\<in>{..<length ag}. total_debt (ag ! j)) - total_debt (ag ! i)"
    using sum_update [OF assms(3), of total_debt p] assms(7) by simp
  then show ?thesis
    using assms(1,3,6,8) at unfolding counts_ok_def by (auto simp: nth_list_update split: if_splits)
qed


text \<open>
  The total never falls below what an agent takes off it: each entry not yet counted is in a list whose lock its agent
  holds, so the entries not yet counted are no more than the entries listed.
\<close>

lemma total_covers:
  assumes "counts_ok w c k tot lanes ag" "locks_ok k st ag" "lists_ok w st ag" "\<And>l. lanes \<le> l \<Longrightarrow> w l = []"
    and "i < length ag" "0 \<le> total_debt (ag ! i)"
  shows "total_debt (ag ! i) \<le> int tot"
proof -
  define pushers where "pushers = {j. j < length ag \<and> total_debt (ag ! j) < 0}"
  define lane where "lane j = the (holds (ag ! j))" for j
  have p: "holds (ag ! j) = Some (lane j)" "w (lane j) \<noteq> []" "total_debt (ag ! j) = - 1" if "j \<in> pushers" for j
  proof -
    have "holds (ag ! j) \<noteq> None \<and> pushing (ag ! j) \<and> waits (ag ! j) = holds (ag ! j) \<and> total_debt (ag ! j) = - 1"
      using that unfolding pushers_def by (cases "ag ! j" rule: total_debt.cases) auto
    moreover have "st j = WAITING"
      using assms(2) that calculation unfolding locks_ok_def pushers_def by blast
    ultimately show "holds (ag ! j) = Some (lane j)" "w (lane j) \<noteq> []" "total_debt (ag ! j) = - 1"
      using lists_okD(3) [OF assms(3), of j "lane j"] that unfolding pushers_def lane_def by auto
  qed
  have fin: "finite pushers" by (simp add: pushers_def)
  have "inj_on lane pushers"
  proof (rule inj_onI)
    fix a b assume "a \<in> pushers" "b \<in> pushers" "lane a = lane b"
    then show "a = b"
      using assms(2) p(1) [of a] p(1) [of b] unfolding locks_ok_def pushers_def by auto
  qed
  moreover have "lane ` pushers \<subseteq> {..<lanes}"
    using p(2) assms(4) by (meson image_subsetI lessThan_iff linorder_not_le)
  moreover have "(\<Sum>l\<in>lane ` pushers. 1) \<le> (\<Sum>l\<in>lane ` pushers. int (length (w l)))"
    by (rule sum_mono) (auto dest!: p(2) simp: Suc_le_eq)
  moreover have "(\<Sum>l\<in>lane ` pushers. int (length (w l))) \<le> (\<Sum>l\<in>{..<lanes}. int (length (w l)))"
    by (rule sum_mono2) (use calculation(2) in auto)
  ultimately have few: "int (card pushers) \<le> (\<Sum>l\<in>{..<lanes}. int (length (w l)))"
    by (simp add: card_image)
  have "(\<Sum>j\<in>{..<length ag}. (if j = i then total_debt (ag ! i) else 0) - (if j \<in> pushers then 1 else 0)) \<le>
      (\<Sum>j\<in>{..<length ag}. total_debt (ag ! j))"
  proof (rule sum_mono)
    fix j assume "j \<in> {..<length ag}"
    then show "(if j = i then total_debt (ag ! i) else 0) - (if j \<in> pushers then 1 else 0) \<le> total_debt (ag ! j)"
      using p(3) [of j] by (auto simp: pushers_def)
  qed
  moreover have "(\<Sum>j\<in>{..<length ag}. if j \<in> pushers then 1 else (0 :: int)) = int (card pushers)"
    by (simp add: sum.If_cases pushers_def Collect_conj_eq lessThan_def)
  moreover have "(\<Sum>j\<in>{..<length ag}. if j = i then total_debt (ag ! i) else 0) = total_debt (ag ! i)"
    using assms(5) by simp
  ultimately have "total_debt (ag ! i) - int (card pushers) \<le> (\<Sum>j\<in>{..<length ag}. total_debt (ag ! j))"
    by (simp add: sum_subtractf)
  then show ?thesis
    using assms(1) few unfolding counts_ok_def by linarith
qed

section \<open>Units\<close>

lemma granted_keep:
  assumes "i < length ag" "(waits p = None) = (waits (ag ! i) = None) \<or> st i \<noteq> GRANTED"
  shows "granted st (ag[i := p]) = granted st ag"
  unfolding granted_def using assms by (intro sum.cong) (auto simp: nth_list_update)

lemma granted_take:
  assumes "i < length ag" "waits (ag ! i) \<noteq> None" "waits p = None" "st i = GRANTED"
  shows "granted st ag = granted st (ag[i := p]) + 1"
proof -
  have "(\<Sum>j\<in>{..<length ag} - {i}. if waits (ag[i := p] ! j) \<noteq> None \<and> st j = GRANTED then 1 else (0 :: nat)) =
      (\<Sum>j\<in>{..<length ag} - {i}. if waits (ag ! j) \<noteq> None \<and> st j = GRANTED then 1 else 0)"
    by (rule sum.cong) auto
  with assms show ?thesis
    by (simp add: granted_def sum.remove [of "{..<length ag}" i])
qed

lemma granted_grant:
  assumes "j < length ag" "waits (ag ! j) \<noteq> None" "st j \<noteq> GRANTED"
  shows "granted (st(j := GRANTED)) ag = granted st ag + 1"
proof -
  have "(\<Sum>k\<in>{..<length ag} - {j}. if waits (ag ! k) \<noteq> None \<and> (st(j := GRANTED)) k = GRANTED then 1 else (0 :: nat)) =
      (\<Sum>k\<in>{..<length ag} - {j}. if waits (ag ! k) \<noteq> None \<and> st k = GRANTED then 1 else 0)"
    by (rule sum.cong) auto
  with assms show ?thesis
    by (simp add: granted_def sum.remove [of "{..<length ag}" j])
qed

lemma granted_states:
  assumes "\<And>j. j < length ag \<Longrightarrow> waits (ag ! j) \<noteq> None \<Longrightarrow> (st' j = GRANTED) = (st j = GRANTED)"
  shows "granted st' ag = granted st ag"
  unfolding granted_def using assms by (intro sum.cong) auto


section \<open>Returns\<close>

lemma rel_end_pc [simp]:
  "waits (rel_end r) = None" "settled (rel_end r) = None" "holds (rel_end r) = None" "lane_debt (rel_end r) = 0"
  "total_debt (rel_end r) = 0" "\<not> pushing (rel_end r)" "held (rel_end r) = 0" "owes (rel_end r) = []"
  "closing (rel_end r) = None" "rel_end r \<noteq> Res q" "Rx q' = rel_end r \<longleftrightarrow> r = ByRx \<and> q' = RxIdle"
  by (cases r; simp)+

lemma reb_end_pc [simp]:
  "waits (reb_end a) = parks (Some a)" "settled (reb_end a) = None" "holds (reb_end a) = None"
  "lane_debt (reb_end a) = 0" "total_debt (reb_end a) = 0" "\<not> pushing (reb_end a)" "held (reb_end a) = 0"
  "owes (reb_end a) = []" "closing (reb_end a) = None" "reb_end a \<noteq> Res (Parked w l)" "reb_end a \<noteq> Rx q"
  by (cases a; simp)+

lemma grant_end_pc [simp]:
  "waits (grant_failed g) = parks (grant_after g)" "settled (grant_failed g) = None" "holds (grant_failed g) = None"
  "lane_debt (grant_failed g) = 0" "total_debt (grant_failed g) = 0" "\<not> pushing (grant_failed g)"
  "held (grant_failed g) = 1" "owes (grant_failed g) = []" "closing (grant_failed g) = None"
  "grant_failed g \<noteq> Res q" "grant_failed g \<noteq> Rx q'"
  "waits (grant_done g) = parks (grant_after g)" "settled (grant_done g) = None" "holds (grant_done g) = None"
  "lane_debt (grant_done g) = 0" "total_debt (grant_done g) = 0" "\<not> pushing (grant_done g)"
  "held (grant_done g) = 0" "owes (grant_done g) = []" "closing (grant_done g) = None"
  "grant_done g \<noteq> Res q" "Rx q' = grant_done g \<longleftrightarrow> g = GrantRelease ByRx \<and> q' = RxIdle"
  by (cases g; simp)+

lemma wake_end_pc [simp]:
  "waits (wake_end v) = parks (wake_after v)" "settled (wake_end v) = None" "holds (wake_end v) = None"
  "lane_debt (wake_end v) = 0" "total_debt (wake_end v) = 0" "\<not> pushing (wake_end v)" "held (wake_end v) = 0"
  "owes (wake_end v) = []" "closing (wake_end v) = None" "wake_end v \<noteq> Res q" "wake_end v \<noteq> Rx q'"
  by (cases v; simp)+

lemma close_end_pc [simp]:
  "waits (close_end f) = None" "settled (close_end f) = None" "holds (close_end f) = None"
  "lane_debt (close_end f) = 0" "total_debt (close_end f) = 0" "\<not> pushing (close_end f)" "held (close_end f) = 0"
  "owes (close_end f) = []" "closing (close_end f) = None" "close_end f \<noteq> Res q"
  "Rx q' = close_end f \<longleftrightarrow> f = CloseOnly \<and> q' = RxIdle"
  by (cases f; simp)+

section \<open>Steps that leave the lists alone\<close>

definition structure_ok :: "'q shared \<Rightarrow> 'm pc list \<Rightarrow> bool" where
  "structure_ok sh ag \<longleftrightarrow>
     lanes_ok sh ag \<and> lists_ok (wl sh) (sh_state sh) ag \<and> locks_ok (lk sh) (sh_state sh) ag \<and>
     counts_ok (wl sh) (wc sh) (lk sh) (sh_waiting_total sh) (sh_lane_count sh) ag"

definition quiet_pc :: "'m pc \<Rightarrow> 'm pc \<Rightarrow> bool" where
  "quiet_pc p q \<longleftrightarrow>
     waits q = waits p \<and> (settled q = None \<or> settled q = settled p) \<and> holds q = holds p \<and>
     lane_debt q = lane_debt p \<and> total_debt q = total_debt p \<and> (pushing q \<longrightarrow> pushing p)"

definition quiet_sh :: "'q shared \<Rightarrow> 'q shared \<Rightarrow> bool" where
  "quiet_sh sh sh' \<longleftrightarrow>
     sh_lanes sh' = sh_lanes sh \<and> sh_state sh' = sh_state sh \<and> sh_waiting_total sh' = sh_waiting_total sh \<and>
     sh_lane_count sh' = sh_lane_count sh"

lemma quiet_step:
  assumes "structure_ok sh ag" "i < length ag" "quiet_pc (ag ! i) p" "quiet_sh sh sh'"
  shows "structure_ok sh' (ag[i := p])"
proof -
  have sh: "wl sh' = wl sh" "wc sh' = wc sh" "lk sh' = lk sh" "sh_state sh' = sh_state sh"
    "sh_waiting_total sh' = sh_waiting_total sh" "sh_lane_count sh' = sh_lane_count sh" "sh_lanes sh' = sh_lanes sh"
    using assms(4) by (simp_all add: quiet_sh_def lane_views_same [of sh' sh])
  have push: "pushing p \<longrightarrow> sh_state sh i = WAITING"
    using assms(1-3) by (auto simp: structure_ok_def locks_ok_def quiet_pc_def)
  show ?thesis
    using assms(1-3) push unfolding structure_ok_def sh quiet_pc_def
    by (simp add: lists_keep locks_keep counts_keep [where w = "wl sh" and w' = "wl sh"] lanes_ok_def sh)
qed

lemma unit_quiet:
  fixes p :: "'m pc"
  assumes "unit_go weak q sh = (p, sh')"
  shows "quiet_pc (Unit q) p" "quiet_sh sh sh'"
  using assms by (cases q; auto simp: quiet_pc_def quiet_sh_def split: if_splits)+

lemma wake_quiet:
  fixes p :: "'m pc"
  assumes "wake_go q sh = (p, sh')"
  shows "quiet_pc (Wake q) p" "quiet_sh sh sh'"
  using assms by (cases q; auto simp: quiet_pc_def quiet_sh_def split: if_splits)+

lemma push_quiet:
  assumes "push_go Q weak q sh = (p, sh')"
  shows "quiet_pc (Push q) p" "quiet_sh sh sh'"
  using assms by (cases q; auto simp: quiet_pc_def quiet_sh_def split: if_splits prod.splits)+

lemma rx_quiet:
  assumes "rx_go Q spent q sh = (p, sh')"
  shows "quiet_pc (Rx q) p" "quiet_sh sh sh'"
  using assms by (cases q; auto simp: quiet_pc_def quiet_sh_def split: if_splits prod.splits option.splits)+

lemma tx_drop_quiet:
  fixes p :: "'m pc"
  assumes "tx_drop_go sh = (p, sh')"
  shows "quiet_pc TxDrop p" "quiet_sh sh sh'"
  using assms by (auto simp: quiet_pc_def quiet_sh_def split: if_splits)


section \<open>Steps of a critical section\<close>

lemma structure_lane:
  assumes "structure_ok sh ag" "i < length ag" "holds (ag ! i) = Some l"
  shows "l < length (sh_lanes sh)" "l < sh_lane_count sh" "lk sh l"
    "int (wc sh l) = int (length (wl sh l)) + lane_debt (ag ! i)"
proof -
  show "lk sh l"
    using assms unfolding structure_ok_def locks_ok_def by blast
  then show "l < length (sh_lanes sh)" by (simp add: lk_def)
  then show "l < sh_lane_count sh"
    using assms(1) by (simp add: structure_ok_def lanes_ok_def)
  show "int (wc sh l) = int (length (wl sh l)) + lane_debt (ag ! i)"
    using assms unfolding structure_ok_def counts_ok_def by blast
qed

lemma structure_total:
  assumes "structure_ok sh ag" "i < length ag" "0 \<le> total_debt (ag ! i)"
  shows "total_debt (ag ! i) \<le> int (sh_waiting_total sh)"
proof (rule total_covers)
  show "wl sh l = []" if "sh_lane_count sh \<le> l" for l
    using assms(1) that by (simp add: structure_ok_def lanes_ok_def wl_def)
qed (use assms in \<open>auto simp: structure_ok_def\<close>)

lemma step_lane_count:
  assumes "structure_ok sh ag" "i < length ag" "holds (ag ! i) = Some l" "holds p = Some l"
    and "waits p = waits (ag ! i)" "settled p = None" "lane_debt p = 0" "total_debt p = total_debt (ag ! i)"
    and "pushing p \<longrightarrow> pushing (ag ! i)" "\<And>ln. ln_waiters (f ln) = ln_waiters ln" "\<And>ln. ln_locked (f ln) = ln_locked ln"
    and "\<And>ln. ln_waiting ln = wc sh l \<Longrightarrow> int (ln_waiting (f ln)) = int (wc sh l) - lane_debt (ag ! i)"
  shows "structure_ok (on_lane l f sh) (ag[i := p])"
proof -
  note l = structure_lane [OF assms(1-3)]
  have wc: "wc (on_lane l f sh) = (wc sh)(l := ln_waiting (f (sh_lanes sh ! l)))"
    by (rule lane_views_on_lane) (rule l)
  have "int (ln_waiting (f (sh_lanes sh ! l))) = int (wc sh l) - lane_debt (ag ! i)"
    using l(1) by (intro assms(12)) (simp add: wc_def)
  moreover have "pushing p \<longrightarrow> sh_state sh i = WAITING"
    using assms(1,2,9) by (auto simp: structure_ok_def locks_ok_def)
  ultimately show ?thesis
    using assms(1-8) by (auto simp: structure_ok_def lanes_ok_def wc assms(10,11) intro: lists_keep locks_keep counts_lane)
qed

lemma step_total:
  assumes "structure_ok sh ag" "i < length ag" "holds (ag ! i) = Some l" "holds p = None"
    and "waits p = waits (ag ! i)" "settled p = None" "lane_debt (ag ! i) = 0" "total_debt p = 0" "\<not> pushing p"
    and "int n = int (sh_waiting_total sh) - total_debt (ag ! i)"
  shows "structure_ok (on_lane l (\<lambda>ln. ln\<lparr>ln_locked := False\<rparr>) (sh\<lparr>sh_waiting_total := n\<rparr>)) (ag[i := p])"
proof -
  note l = structure_lane [OF assms(1-3)]
  have "lk (on_lane l (\<lambda>ln. ln\<lparr>ln_locked := False\<rparr>) (sh\<lparr>sh_waiting_total := n\<rparr>)) = (lk sh)(l := False)"
    by (subst lane_views_on_lane) (use l in auto)
  then show ?thesis
    using assms by (auto simp: structure_ok_def lanes_ok_def intro: lists_keep locks_release counts_total)
qed

lemma lane_free_views:
  assumes "lane_free sh l"
  shows "l < length (sh_lanes sh)" "\<not> lk sh l" "ln_waiters (sh_lanes sh ! l) = wl sh l"
  using assms by (simp_all add: lane_free_def lk_def wl_def)

lemma step_acquire:
  assumes "structure_ok sh ag" "i < length ag" "lane_free sh l" "holds (ag ! i) = None" "holds p = Some l"
    and "total_debt (ag ! i) = 0" "lane_debt p = int (length (wl sh l)) - int (length ys)" "total_debt p = lane_debt p"
    and "pushing p \<longrightarrow> st i = WAITING" "\<And>j. j < length ag \<Longrightarrow> pushing (ag ! j) \<Longrightarrow> st j = WAITING"
    and "lists_ok ((wl sh)(l := ys)) st (ag[i := p])"
    and "sh_lanes sh1 = sh_lanes sh" "sh_lane_count sh1 = sh_lane_count sh" "sh_state sh1 = st"
      "sh_waiting_total sh1 = sh_waiting_total sh"
    and "\<And>ln. ln_waiters ln = wl sh l \<Longrightarrow> ln_waiters (f ln) = ys" "\<And>ln. ln_locked (f ln)"
      "\<And>ln. ln_waiting (f ln) = ln_waiting ln"
  shows "structure_ok (on_lane l f sh1) (ag[i := p])"
proof -
  note l = lane_free_views [OF assms(3)]
  have lc: "l < sh_lane_count sh"
    using l(1) assms(1) by (simp add: structure_ok_def lanes_ok_def)
  have views: "wl (on_lane l f sh1) = (wl sh)(l := ys)" "lk (on_lane l f sh1) = (lk sh)(l := True)"
    "wc (on_lane l f sh1) = wc sh"
    using l assms(12,16-) by (simp_all add: lane_views_on_lane lane_views_same [OF assms(12)])
  have locks: "locks_ok (lk sh) st ag"
    using assms(1,10) by (auto simp: structure_ok_def intro: locks_states)
  have "locks_ok ((lk sh)(l := True)) st (ag[i := p])"
    using locks assms(2,4,5,9) l(2) by (intro locks_acquire) auto
  moreover have "counts_ok ((wl sh)(l := ys)) (wc sh) ((lk sh)(l := True)) (sh_waiting_total sh) (sh_lane_count sh)
      (ag[i := p])"
    using assms(1,2,4-8) l(2) lc by (intro counts_acquire [OF _ locks]) (auto simp: structure_ok_def)
  ultimately show ?thesis
    using assms(1,11) unfolding structure_ok_def views by (simp add: lanes_ok_def assms(12-15))
qed

section \<open>Reservations keep the structure\<close>

lemma step_leave:
  assumes "structure_ok sh ag" "i < length ag" "waits p = None" "sh_state sh i \<noteq> WAITING"
    and "holds p = None" "holds (ag ! i) = None" "lane_debt p = lane_debt (ag ! i)" "total_debt p = total_debt (ag ! i)" "\<not> pushing p"
  shows "structure_ok sh (ag[i := p])"
  using assms lists_leave [of "wl sh" "sh_state sh" ag i p]
    locks_keep [of "lk sh" "sh_state sh" ag i p] counts_keep [of "wl sh" "wc sh" "lk sh" _ _ ag i p "wl sh"]
  by (simp add: structure_ok_def lanes_ok_def)

lemma structure_pushing:
  "structure_ok sh ag \<Longrightarrow> j < length ag \<Longrightarrow> pushing (ag ! j) \<Longrightarrow> sh_state sh j = WAITING"
  by (auto simp: structure_ok_def locks_ok_def)

lemma structure_lists: "structure_ok sh ag \<Longrightarrow> lists_ok (wl sh) (sh_state sh) ag"
  by (simp add: structure_ok_def)

lemma step_park_init:
  assumes "structure_ok sh ag" "i < length ag" "ag ! i = Res (ParkInit w l)"
  shows "structure_ok (lane_or_init l (sh\<lparr>sh_state := (sh_state sh)(i := WAITING)\<rparr>)) (ag[i := Res (ParkPush w l)])"
proof -
  have "lists_ok (wl sh) ((sh_state sh)(i := WAITING)) (ag[i := Res (ParkPush w l)])"
    using assms structure_lists by (intro lists_init) auto
  moreover have "locks_ok (lk sh) ((sh_state sh)(i := WAITING)) (ag[i := Res (ParkPush w l)])"
  proof (rule locks_keep)
    show "locks_ok (lk sh) ((sh_state sh)(i := WAITING)) ag"
      using assms(1) structure_pushing [OF assms(1)] by (auto simp: structure_ok_def intro: locks_states)
  qed (use assms in auto)
  moreover have "counts_ok (wl sh) (wc sh) (lk sh) (sh_waiting_total sh) (sh_lane_count sh) (ag[i := Res (ParkPush w l)])"
    using assms by (intro counts_keep [of "wl sh"]) (auto simp: structure_ok_def)
  moreover have "lanes_ok (lane_or_init l (sh\<lparr>sh_state := (sh_state sh)(i := WAITING)\<rparr>)) (ag[i := Res (ParkPush w l)])"
    using assms(1) by (cases "sh_lanes sh") (auto simp: structure_ok_def lanes_ok_def lane_or_init_def)
  ultimately show ?thesis
    by (simp add: structure_ok_def)
qed


lemma step_park_push:
  assumes "structure_ok sh ag" "i < length ag" "ag ! i = Res (ParkPush w l)" "lane_free sh l"
  shows "structure_ok (on_lane l (\<lambda>ln. ln\<lparr>ln_waiters := ln_waiters ln @ [(i, w)], ln_locked := True\<rparr>) sh)
    (ag[i := Res (ParkCount w l)])"
proof (rule step_acquire [where ys = "wl sh l @ [(i, w)]" and st = "sh_state sh"])
  have st: "sh_state sh i = WAITING" using structure_pushing [OF assms(1,2)] assms(3) by simp
  then show "lists_ok ((wl sh)(l := wl sh l @ [(i, w)])) (sh_state sh) (ag[i := Res (ParkCount w l)])"
    using assms by (intro lists_push structure_lists) auto
  show "pushing (Res (ParkCount w l)) \<longrightarrow> sh_state sh i = WAITING" using st by simp
qed (use assms structure_pushing in auto)

lemma step_refresh:
  assumes "structure_ok sh ag" "i < length ag" "ag ! i = Res (ParkedRefresh w l)" "lane_free sh l"
  shows "structure_ok (on_lane l (\<lambda>ln. ln\<lparr>ln_waiters := map (\<lambda>(j, v). (j, if j = i then w else v)) (ln_waiters ln)\<rparr>) sh)
    (ag[i := Res (ParkedSettle w l)])"
    (is "structure_ok ?sh ?ag")
proof -
  have wl: "wl ?sh = (wl sh)(l := map (\<lambda>(j, v). (j, if j = i then w else v)) (wl sh l))"
    using lane_free_views [OF assms(4)] by (simp add: lane_views_on_lane)
  have "lists_ok ((wl sh)(l := map (\<lambda>(j, v). (j, if j = i then w else v)) (wl sh l))) (sh_state sh) ?ag"
    using assms by (intro lists_refresh structure_lists) auto
  moreover have "locks_ok (lk sh) (sh_state sh) ?ag"
    using assms by (intro locks_keep) (auto simp: structure_ok_def)
  moreover have "counts_ok (wl ?sh) (wc sh) (lk sh) (sh_waiting_total sh) (sh_lane_count sh) ?ag"
    using assms by (intro counts_keep [of "wl sh"]) (auto simp: structure_ok_def wl)
  ultimately show ?thesis
    using assms(1) by (simp add: structure_ok_def lanes_ok_def wl)
qed

lemma length_filter_one:
  "distinct (map fst xs) \<Longrightarrow> i \<in> fst ` set xs \<Longrightarrow> length xs = length (filter (\<lambda>e. fst e \<noteq> i) xs) + 1"
proof (induction xs)
  case (Cons x xs)
  show ?case
  proof (cases "fst x = i")
    case True
    then have "filter (\<lambda>e. fst e \<noteq> i) xs = xs" using Cons.prems(1) by (simp add: filter_id_conv) (metis image_eqI)
    then show ?thesis using True by simp
  next
    case False
    then show ?thesis using Cons by auto
  qed
qed simp

lemma step_cancel:
  assumes "structure_ok sh ag" "i < length ag" "ag ! i = Res (CancelLock l)" "lane_free sh l"
    and "entry_of i (sh_lanes sh ! l) \<noteq> None"
  shows "structure_ok (on_lane l (\<lambda>ln. ln\<lparr>ln_waiters := filter (\<lambda>e. fst e \<noteq> i) (ln_waiters ln), ln_locked := True\<rparr>) sh)
    (ag[i := Res (CancelCount l)])"
proof (rule step_acquire [where ys = "filter (\<lambda>e. fst e \<noteq> i) (wl sh l)" and st = "sh_state sh"])
  show "lists_ok ((wl sh)(l := filter (\<lambda>e. fst e \<noteq> i) (wl sh l))) (sh_state sh) (ag[i := Res (CancelCount l)])"
    using assms by (intro lists_remove structure_lists) auto
  have "distinct (map fst (wl sh l))" by (rule lists_okD(1) [OF structure_lists [OF assms(1)]])
  moreover have "i \<in> fst ` set (wl sh l)"
    using assms(5) lane_free_views(3) [OF assms(4)] by (auto simp: entry_of_def map_of_eq_None_iff)
  ultimately have "length (wl sh l) = length (filter (\<lambda>e. fst e \<noteq> i) (wl sh l)) + 1"
    by (rule length_filter_one)
  then show "lane_debt (Res (CancelCount l)) = int (length (wl sh l)) - int (length (filter (\<lambda>e. fst e \<noteq> i) (wl sh l)))"
    by simp
qed (use assms structure_pushing in auto)


lemma reserve_structure:
  assumes "structure_ok sh ag" "i < length ag" "ag ! i = Res q" "reserve_go weak i q sh = (p, sh')"
  shows "structure_ok sh' (ag[i := p])"
proof (cases q)
  case (ParkInit w l)
  then show ?thesis using step_park_init [OF assms(1,2)] assms(3,4) by auto
next
  case (ParkPush w l)
  show ?thesis
  proof (cases "lane_free sh l \<and> \<not> sh_closed sh")
    case True
    then show ?thesis using step_park_push [OF assms(1,2)] assms(3,4) ParkPush by auto
  next
    case False
    then have "quiet_pc (Res q) p" "quiet_sh sh sh'"
      using assms(4) ParkPush by (auto simp: quiet_pc_def quiet_sh_def split: if_splits)
    then show ?thesis using assms(3) by (intro quiet_step [OF assms(1,2)]) auto
  qed
next
  case (ParkCount w l)
  then have "p = Res (ParkTotal w l)" "sh' = on_lane l (\<lambda>ln. ln\<lparr>ln_waiting := ln_waiting ln + 1\<rparr>) sh"
    using assms(4) by auto
  then show ?thesis using assms(3) ParkCount by (simp only:) (rule step_lane_count [OF assms(1,2)], simp_all)
next
  case (ParkTotal w l)
  then have "p = Res (ParkRoom w l)"
    "sh' = on_lane l (\<lambda>ln. ln\<lparr>ln_locked := False\<rparr>) (sh\<lparr>sh_waiting_total := sh_waiting_total sh + 1\<rparr>)"
    using assms(4) by auto
  then show ?thesis using assms(3) ParkTotal by (simp only:) (rule step_total [OF assms(1,2)], simp_all)
next
  case (ParkedRead w l)
  show ?thesis
  proof (cases "sh_state sh i")
    case WAITING
    then show ?thesis
      using assms(3,4) ParkedRead by (intro quiet_step [OF assms(1,2)]) (auto simp: quiet_pc_def quiet_sh_def)
  qed (use assms ParkedRead step_leave [OF assms(1,2), of p] in auto)
next
  case (ParkedRefresh w l)
  show ?thesis
  proof (cases "lane_free sh l")
    case True
    then show ?thesis using step_refresh [OF assms(1,2)] assms(3,4) ParkedRefresh by auto
  next
    case False
    then show ?thesis
      using assms(3,4) ParkedRefresh by (intro quiet_step [OF assms(1,2)]) (auto simp: quiet_pc_def quiet_sh_def)
  qed
next
  case (CancelLock l)
  have out: "sh_state sh i \<noteq> WAITING \<Longrightarrow> waits p = None \<Longrightarrow> holds p = None \<Longrightarrow> total_debt p = 0 \<Longrightarrow> lane_debt p = 0 \<Longrightarrow>
      \<not> pushing p \<Longrightarrow> structure_ok sh (ag[i := p])"
    using step_leave [OF assms(1,2), of p] assms(3) CancelLock by simp
  show ?thesis
  proof (cases "lane_free sh l")
    case False
    then show ?thesis
      using assms(3,4) CancelLock by (intro quiet_step [OF assms(1,2)]) (auto simp: quiet_pc_def quiet_sh_def)
  next
    case True
    show ?thesis
    proof (cases "sh_state sh i")
      case WAITING
      obtain v where "(i, v) \<in> set (wl sh l)"
        using lists_okD(3) [OF structure_lists [OF assms(1)] assms(2), of l] assms(3) CancelLock WAITING by auto
      then have "entry_of i (sh_lanes sh ! l) \<noteq> None"
        using lane_free_views(3) [OF True] by (simp add: entry_of_def map_of_eq_None_iff) (metis fst_conv image_eqI)
      then show ?thesis
        using step_cancel [OF assms(1,2), of l] assms(3,4) CancelLock True WAITING by auto
    qed (use assms CancelLock True out in auto)
  qed
next
  case (CancelCount l)
  note at = structure_lane(4) [OF assms(1,2), of l]
  have "p = Res (CancelTotal l)" "sh' = on_lane l (\<lambda>ln. ln\<lparr>ln_waiting := ln_waiting ln - 1\<rparr>) sh"
    using assms(4) CancelCount by auto
  then show ?thesis using assms(3) CancelCount at by (simp only:) (rule step_lane_count [OF assms(1,2)], simp_all)
next
  case (CancelTotal l)
  note at = structure_total [OF assms(1,2)]
  have "p = Done" "sh' = on_lane l (\<lambda>ln. ln\<lparr>ln_locked := False\<rparr>) (sh\<lparr>sh_waiting_total := sh_waiting_total sh - 1\<rparr>)"
    using assms(4) CancelTotal by auto
  then show ?thesis using assms(3) CancelTotal at by (simp only:) (rule step_total [OF assms(1,2)], simp_all)
qed (use assms in \<open>auto intro!: quiet_step [OF assms(1,2)] simp: quiet_pc_def quiet_sh_def split: if_splits\<close>)


section \<open>Grants and closes keep the structure\<close>

lemma grant_structure:
  fixes p :: "'m pc"
  assumes "structure_ok sh ag" "i < length ag" "ag ! i = Grant q" "grant_go q sh = (p, sh')"
  shows "structure_ok sh' (ag[i := p])"
proof (cases q)
  case (GrantPop g start k)
  define l where "l = grant_lane start k sh"
  show ?thesis
  proof (cases "lane_free sh l \<and> wl sh l \<noteq> []")
    case True
    then obtain e es where e: "wl sh l = e # es" by (cases "wl sh l") auto
    then have go: "p = Grant (GrantCount g l e)"
      "sh' = on_lane l (\<lambda>ln. ln\<lparr>ln_waiters := es, ln_locked := True\<rparr>) (sh\<lparr>sh_state := (sh_state sh)(fst e := GRANTED)\<rparr>)"
      using assms(4) GrantPop True lane_free_views(3) [of sh l] by (auto simp: l_def [symmetric])
    show ?thesis
      unfolding go
    proof (rule step_acquire [OF assms(1,2) _ _ _ _ _ _ _ _ _ _ _ _ _ _ _ _,
          where l = l and ys = es and st = "(sh_state sh)(fst e := GRANTED)"])
      show "lists_ok ((wl sh)(l := es)) ((sh_state sh)(fst e := GRANTED)) (ag[i := Grant (GrantCount g l e)])"
        using lists_grant [OF structure_lists [OF assms(1)] assms(2), of l "fst e" "snd e" es "Grant (GrantCount g l e)"] e
          assms(3) GrantPop by simp
      fix j assume j: "j < length ag" "pushing (ag ! j)"
      have "j \<noteq> fst e"
      proof
        assume "j = fst e"
        then have "waits (ag ! j) = Some l"
          using lists_okD(2) [OF structure_lists [OF assms(1)], of "fst e" "snd e" l] e by simp
        then have "holds (ag ! j) = Some l" using j(2) by (cases "ag ! j" rule: pushing.cases) auto
        then have "lk sh l" using structure_lane(3) [OF assms(1) j(1)] by simp
        then show False using True lane_free_views(2) by auto
      qed
      then show "((sh_state sh)(fst e := GRANTED)) j = WAITING" using structure_pushing [OF assms(1) j] by simp
    qed (use assms(3) GrantPop True e in auto)
  next
    case False
    then have "quiet_pc (Grant q) p" "quiet_sh sh sh'"
      using assms(4) GrantPop lane_free_views(3) [of sh l]
      by (auto simp: quiet_pc_def quiet_sh_def l_def [symmetric] split: if_splits list.splits)
    then show ?thesis using assms(3) by (intro quiet_step [OF assms(1,2)]) auto
  qed
next
  case (GrantCount g l e)
  note at = structure_lane(4) [OF assms(1,2), of l]
  have "p = Grant (GrantTotal g l e)" "sh' = on_lane l (\<lambda>ln. ln\<lparr>ln_waiting := ln_waiting ln - 1\<rparr>) sh"
    using assms(4) GrantCount by auto
  then show ?thesis using assms(3) GrantCount at by (simp only:) (rule step_lane_count [OF assms(1,2)], simp_all)
next
  case (GrantTotal g l e)
  note at = structure_total [OF assms(1,2)]
  have "p = Grant (GrantWake g e)"
    "sh' = on_lane l (\<lambda>ln. ln\<lparr>ln_locked := False\<rparr>) (sh\<lparr>sh_waiting_total := sh_waiting_total sh - 1\<rparr>)"
    using assms(4) GrantTotal by auto
  then show ?thesis using assms(3) GrantTotal at by (simp only:) (rule step_total [OF assms(1,2)], simp_all)
next
  case (GrantScan g start k)
  then have "quiet_pc (Grant q) p" "quiet_sh sh sh'"
    using assms(4) by (auto simp: quiet_pc_def quiet_sh_def split: if_splits option.splits)
  then show ?thesis using assms(3) by (intro quiet_step [OF assms(1,2)]) auto
qed (use assms in \<open>auto intro!: quiet_step [OF assms(1,2)] simp: quiet_pc_def quiet_sh_def split: if_splits\<close>)

lemma close_structure:
  assumes "structure_ok sh ag" "i < length ag" "ag ! i = Close q" "close_go Q q sh = (p, sh')"
  shows "structure_ok sh' (ag[i := p])"
proof (cases q)
  case (CloseLane f l)
  show ?thesis
  proof (cases "l < sh_lane_count sh \<and> lane_free sh l")
    case True
    note free = lane_free_views [of sh l]
    define st where "st = (\<lambda>j. if j \<in> fst ` set (wl sh l) then CLOSED else sh_state sh j)"
    have go: "p = Close (CloseCount f l (wl sh l))"
      "sh' = on_lane l (\<lambda>ln. ln\<lparr>ln_waiters := [], ln_locked := True\<rparr>) (sh\<lparr>sh_state := st\<rparr>)"
      using assms(4) CloseLane True free by (auto simp: try_lane_def lane_free_def st_def)
    show ?thesis
      unfolding go
    proof (rule step_acquire [where l = l and ys = "[]" and st = st and sh = sh])
      show "lists_ok ((wl sh)(l := [])) st (ag[i := Close (CloseCount f l (wl sh l))])"
        unfolding st_def using assms(1-3) structure_lists by (intro lists_close) auto
      fix j assume j: "j < length ag" "pushing (ag ! j)"
      have "j \<notin> fst ` set (wl sh l)"
      proof
        assume "j \<in> fst ` set (wl sh l)"
        then have "waits (ag ! j) = Some l"
          using lists_okD(2) [OF structure_lists [OF assms(1)], of j _ l] by auto
        then have "holds (ag ! j) = Some l" using j(2) by (cases "ag ! j" rule: pushing.cases) auto
        then have "lk sh l" using structure_lane(3) [OF assms(1) j(1)] by simp
        then show False using True free by auto
      qed
      then show "st j = WAITING" using structure_pushing [OF assms(1) j] by (simp add: st_def)
    qed (use assms(1-3) CloseLane True in auto)
  next
    case False
    then have "quiet_pc (Close q) p" "quiet_sh sh sh'"
      using assms(4) CloseLane
      by (auto simp: quiet_pc_def quiet_sh_def try_lane_def lane_free_def split: if_splits option.splits)
    then show ?thesis using assms(3) by (intro quiet_step [OF assms(1,2)]) auto
  qed
next
  case (CloseCount f l ds)
  note at = structure_lane(4) [OF assms(1,2), of l]
  have "p = Close (CloseTotal f l ds)" "sh' = on_lane l (\<lambda>ln. ln\<lparr>ln_waiting := ln_waiting ln - length ds\<rparr>) sh"
    using assms(4) CloseCount by auto
  then show ?thesis using assms(3) CloseCount at by (simp only:) (rule step_lane_count [OF assms(1,2)], simp_all)
next
  case (CloseTotal f l ds)
  note at = structure_total [OF assms(1,2)]
  have "p = Close (CloseWake f l ds)"
    "sh' = on_lane l (\<lambda>ln. ln\<lparr>ln_locked := False\<rparr>) (sh\<lparr>sh_waiting_total := sh_waiting_total sh - length ds\<rparr>)"
    using assms(4) CloseTotal by auto
  then show ?thesis using assms(3) CloseTotal at by (simp only:) (rule step_total [OF assms(1,2)], simp_all)
next
  case (CloseWake f l ds)
  then have "quiet_pc (Close q) p" "quiet_sh sh sh'"
    using assms(4) by (cases ds; auto simp: quiet_pc_def quiet_sh_def)+
  then show ?thesis using assms(3) by (intro quiet_step [OF assms(1,2)]) auto
next
  case DropTake
  then have "quiet_pc (Close q) p" "quiet_sh sh sh'"
    using assms(4) by (auto simp: quiet_pc_def quiet_sh_def split: prod.splits option.splits)
  then show ?thesis using assms(3) by (intro quiet_step [OF assms(1,2)]) auto
qed (use assms in \<open>auto intro!: quiet_step [OF assms(1,2)] simp: quiet_pc_def quiet_sh_def split: if_splits\<close>)

lemma agent_structure:
  assumes "structure_ok sh ag" "i < length ag" "agent_go Q c i (ag ! i) sh = (p, sh')"
  shows "structure_ok sh' (ag[i := p])"
proof (cases "ag ! i")
  case (Res q)
  then show ?thesis using reserve_structure [OF assms(1,2)] assms(3) by simp
next
  case (Grant q)
  then show ?thesis using grant_structure [OF assms(1,2)] assms(3) by simp
next
  case (Close q)
  then show ?thesis using close_structure [OF assms(1,2)] assms(3) by simp
next
  case Done
  then show ?thesis using assms by (auto intro!: quiet_step [OF assms(1,2)] simp: quiet_pc_def quiet_sh_def)
next
  case (Unit q)
  then show ?thesis using quiet_step [OF assms(1,2)] unit_quiet [of c q sh p sh'] assms(3) by simp
next
  case (Wake q)
  then show ?thesis using quiet_step [OF assms(1,2)] wake_quiet [of q sh p sh'] assms(3) by simp
next
  case (Push q)
  then show ?thesis using quiet_step [OF assms(1,2)] push_quiet [of Q c q sh p sh'] assms(3) by simp
next
  case (Rx q)
  then show ?thesis using quiet_step [OF assms(1,2)] rx_quiet [of Q c q sh p sh'] assms(3) by simp
next
  case TxDrop
  then show ?thesis
    using quiet_step [OF assms(1,2)] tx_drop_quiet [of sh p sh'] assms(3) by (simp del: tx_drop_go.simps)
qed


section \<open>Sides\<close>

lemma rel_end_side [simp]: "rx_side (rel_end r)" "tx_side (rel_end r) = (r = ByOther)" "cas_ok (rel_end r)"
  by (cases r; simp)+

lemma reb_end_side [simp]:
  "rx_side (reb_end a) = (after_releaser (Some a) \<in> {Some ByRx, Some ByDrop})"
  "tx_side (reb_end a) = (after_releaser (Some a) \<in> {None, Some ByOther})" "cas_ok (reb_end a)"
  by (cases a; simp)+

lemma grant_end_side [simp]: "cas_ok (grant_failed g)" "cas_ok (grant_done g)"
  by (cases g; simp)+

lemma wake_end_side [simp]: "cas_ok (wake_end v)"
  by (cases v) simp_all

lemma close_end_side [simp]: "cas_ok (close_end f)" "rx_side (close_end f)"
  by (cases f; simp)+

lemma close_go_wake:
  "close_go Q (CloseWake f l ds) sh =
     (case ds of
        [] \<Rightarrow> (Close (CloseLane f (l + 1)), sh)
      | e # es \<Rightarrow> (Close (CloseWake f l es), sh\<lparr>sh_woken := e # sh_woken sh\<rparr>))"
  by (cases ds) simp_all

lemma side_go:
  assumes "agent_go Q c i q sh = (p, sh')"
  shows "rx_side q \<Longrightarrow> rx_side p" "tx_side q \<Longrightarrow> tx_side p" "cas_ok q \<Longrightarrow> cas_ok p"
proof -
  have unit: "(rx_side (Unit u) \<longrightarrow> rx_side p) \<and> (tx_side (Unit u) \<longrightarrow> tx_side p) \<and> cas_ok p"
    if "unit_go c u sh = (p, sh')" for u
    using that by (cases u) (auto split: if_splits)
  have grant: "(rx_side (Grant u) \<longrightarrow> rx_side p) \<and> (tx_side (Grant u) \<longrightarrow> tx_side p) \<and> cas_ok p"
    if "grant_go u sh = (p, sh')" for u
  proof (cases "grant_of u")
    case (GrantRelease r)
    with that show ?thesis
      by (cases u) (auto simp: Let_def split: if_splits option.splits list.splits)
  next
    case (GrantRebalance a)
    with that show ?thesis
      by (cases u) (auto simp: Let_def split: if_splits option.splits list.splits)
  qed
  have wake: "(rx_side (Wake u) \<longrightarrow> rx_side p) \<and> (tx_side (Wake u) \<longrightarrow> tx_side p) \<and> cas_ok p"
    if "wake_go u sh = (p, sh')" for u
  proof (cases "wake_of u")
    case WakeEnd
    with that show ?thesis by (cases u) (auto split: if_splits)
  next
    case (WakeRebalance a)
    with that show ?thesis by (cases u) (auto split: if_splits)
  qed
  have res: "tx_side p \<and> cas_ok p" if "reserve_go c i u sh = (p, sh')" for u
    using that by (cases u) (auto split: if_splits wait_state.splits)
  have push: "tx_side p \<and> cas_ok p" if "push_go Q c u sh = (p, sh')" for u
    using that by (cases u) (auto split: if_splits prod.splits)
  have close: "rx_side p \<and> cas_ok p" if "close_go Q u sh = (p, sh')" for u
    using that by (cases u) (auto simp: close_go_wake split: if_splits prod.splits option.splits list.splits)
  have rx: "rx_side p \<and> cas_ok p" if "rx_go Q c u sh = (p, sh')" for u
    using that by (cases u) (auto split: if_splits prod.splits option.splits)
  show "rx_side q \<Longrightarrow> rx_side p" "tx_side q \<Longrightarrow> tx_side p" "cas_ok q \<Longrightarrow> cas_ok p"
    using assms unit grant wake res push close rx by (cases q; auto split: if_splits)+
qed

end
