(* ===== verification/Mailbox_Safety.thy ===== *)
theory Mailbox_Safety
  imports Mailbox_Steps
begin

text \<open>
  The mailbox machine loses no unit and no wake-up: the parts of the invariant about units, rebalancing, the waiters'
  wakes, the close and the receiver's wake, and the properties they give.
\<close>

section \<open>Units\<close>

lemma units_step:
  assumes "units_ok Q sh ag" "i < length ag" "sh_capacity sh' = sh_capacity sh"
    and "sh_room sh' + length (q_items Q (sh_queue sh')) + held p + granted (sh_state sh') (ag[i := p]) =
      sh_room sh + length (q_items Q (sh_queue sh)) + held (ag ! i) + granted (sh_state sh) ag"
  shows "units_ok Q sh' (ag[i := p])"
  using assms sum_update [OF assms(2), of held p] by (simp add: units_ok_def)

lemma units_quiet:
  assumes "units_ok Q sh ag" "i < length ag" "sh_capacity sh' = sh_capacity sh"
    and "quiet_pc (ag ! i) p" "quiet_sh sh sh'"
    and "sh_room sh' + length (q_items Q (sh_queue sh')) + held p =
      sh_room sh + length (q_items Q (sh_queue sh)) + held (ag ! i)"
  shows "units_ok Q sh' (ag[i := p])"
  using assms granted_keep [OF assms(2), of p "sh_state sh"]
  by (intro units_step [OF assms(1-3)]) (simp add: quiet_pc_def quiet_sh_def)

lemma queue_lawsD:
  assumes "queue_laws Q"
  shows "q_items Q (snd (q_admit Q q)) = q_items Q q" "q_items Q (q_land Q m q) = q_items Q q @ [m]"
    "q_items Q (q_close Q q) = q_items Q q"
    "q_take Q q = (Some m, q') \<Longrightarrow> q_items Q q = m # q_items Q q'"
    "q_take Q q = (None, q') \<Longrightarrow> q_items Q q = [] \<and> q_items Q q' = []"
proof -
  show "q_items Q (snd (q_admit Q q)) = q_items Q q" "q_items Q (q_land Q m q) = q_items Q q @ [m]"
    "q_items Q (q_close Q q) = q_items Q q"
    using assms unfolding queue_laws_def by blast+
  have take: "q_items Q q = (case fst (q_take Q q) of None \<Rightarrow> [] | Some m \<Rightarrow> [m]) @ q_items Q (snd (q_take Q q))"
    and none: "fst (q_take Q q) = None \<Longrightarrow> q_items Q q = []"
    using assms unfolding queue_laws_def by blast+
  show "q_take Q q = (Some m, q') \<Longrightarrow> q_items Q q = m # q_items Q q'"
    using take by (metis append_Cons append_Nil fst_conv option.simps(5) snd_conv)
  show "q_take Q q = (None, q') \<Longrightarrow> q_items Q q = [] \<and> q_items Q q' = []"
    using take none by (metis append_Nil fst_conv option.simps(4) snd_conv)
qed

lemma unit_units:
  fixes p :: "'m pc"
  assumes "unit_go weak q sh = (p, sh')" "cas_ok (Unit q :: 'm pc)"
  shows "sh_capacity sh' = sh_capacity sh" "sh_queue sh' = sh_queue sh"
    "sh_room sh' + held p = sh_room sh + held (Unit q :: 'm pc)"
  using assms by (cases q; auto split: if_splits)+

lemma wake_units:
  fixes p :: "'m pc"
  assumes "wake_go q sh = (p, sh')"
  shows "sh_capacity sh' = sh_capacity sh" "sh_queue sh' = sh_queue sh" "sh_room sh' = sh_room sh"
    "held p = held (Wake q :: 'm pc)"
  using assms by (cases q; auto split: if_splits)+

lemma push_units:
  assumes "push_go Q weak q sh = (p, sh')" "cas_ok (Push q)" "queue_laws Q"
  shows "sh_capacity sh' = sh_capacity sh"
    "sh_room sh' + length (q_items Q (sh_queue sh')) + held p =
      sh_room sh + length (q_items Q (sh_queue sh)) + held (Push q)"
  using assms queue_lawsD(1) [OF assms(3), of "sh_queue sh"]
  by (cases q; auto simp: queue_lawsD(2) [OF assms(3)] split: if_splits prod.splits)+

lemma rx_units:
  assumes "rx_go Q spent q sh = (p, sh')" "queue_laws Q"
  shows "sh_capacity sh' = sh_capacity sh"
    "sh_room sh' + length (q_items Q (sh_queue sh')) + held p =
      sh_room sh + length (q_items Q (sh_queue sh)) + held (Rx q)"
  using assms by (cases q; auto dest: queue_lawsD(4,5) [OF assms(2)] split: if_splits prod.splits option.splits)+


lemma reserve_units:
  fixes ag :: "'m pc list"
  assumes "structure_ok sh ag" "units_ok Q sh ag" "i < length ag" "ag ! i = Res q" "cas_ok (ag ! i)"
    and "reserve_go weak i q sh = (p, sh')"
  shows "units_ok Q sh' (ag[i := p])"
proof -
  have frame: "sh_capacity sh' = sh_capacity sh" "sh_queue sh' = sh_queue sh"
    using assms(6) by (cases q; auto split: if_splits wait_state.splits)+
  have "sh_room sh' + held p + granted (sh_state sh') (ag[i := p]) =
      sh_room sh + held (Res q :: 'm pc) + granted (sh_state sh) ag"
  proof (cases q)
    case (ParkInit w l)
    have "granted ((sh_state sh)(i := WAITING)) (ag[i := p]) = granted (sh_state sh) (ag[i := p])"
      using assms(3,4,6) ParkInit by (intro granted_states) (auto simp: nth_list_update)
    moreover have "granted (sh_state sh) (ag[i := p]) = granted (sh_state sh) ag"
      using assms(3,4,6) ParkInit by (intro granted_keep) auto
    ultimately show ?thesis using assms(4,6) ParkInit by auto
  next
    case (ParkPush w l)
    have "sh_state sh i = WAITING" using structure_pushing [OF assms(1,3)] assms(4) ParkPush by simp
    then have "granted (sh_state sh) (ag[i := p]) = granted (sh_state sh) ag"
      using assms(3,4,6) ParkPush by (intro granted_keep) auto
    then show ?thesis using assms(6) ParkPush by (auto split: if_splits)
  next
    case (ParkedRead w l)
    show ?thesis
    proof (cases "sh_state sh i")
      case GRANTED
      then show ?thesis using assms(4,6) ParkedRead granted_take [OF assms(3), of p "sh_state sh"] by auto
    qed (use assms(3,4,6) ParkedRead granted_keep [OF assms(3), of p "sh_state sh"] in auto)
  next
    case (CancelLock l)
    show ?thesis
    proof (cases "lane_free sh l")
      case False
      then have "p = Res q" "sh' = sh" using assms(6) CancelLock by auto
      then show ?thesis using granted_keep [OF assms(3), of p "sh_state sh"] assms(4) by simp
    next
      case True
      show ?thesis
      proof (cases "sh_state sh i")
        case GRANTED
        then show ?thesis using True assms(4,6) CancelLock granted_take [OF assms(3), of p "sh_state sh"] by auto
      qed (use True assms(4,6) CancelLock granted_keep [OF assms(3), of p "sh_state sh"] in
          \<open>auto split: if_splits\<close>)
    qed
  next
    case (ParkedRefresh w l)
    then have "waits p = waits (Res q :: 'm pc)" "held p = held (Res q :: 'm pc)" "sh_room sh' = sh_room sh"
      "sh_state sh' = sh_state sh"
      using assms(6) by (auto split: if_splits)
    then show ?thesis using granted_keep [OF assms(3), of p "sh_state sh"] assms(4) by simp
  next
    case (ResCas w l n)
    then show ?thesis
      using assms(4-6) granted_keep [OF assms(3), of p "sh_state sh"] by (auto split: if_splits)
  qed (use assms(4,6) granted_keep [OF assms(3), of p "sh_state sh"] in \<open>auto split: if_splits\<close>)
  then show ?thesis
    using frame assms(4) by (intro units_step [OF assms(2,3)]) auto
qed

text \<open>A step of a grant pops a waiter, or leaves the lists and the waiters' states alone.\<close>

lemma grant_go_cases:
  fixes p :: "'m pc"
  assumes "grant_go q sh = (p, sh')"
  obtains (Pop) l e es where "p = Grant (GrantCount (grant_of q) l e)" "lane_free sh l" "wl sh l = e # es"
      "sh' = on_lane l (\<lambda>ln. ln\<lparr>ln_waiters := es, ln_locked := True\<rparr>) (sh\<lparr>sh_state := (sh_state sh)(fst e := GRANTED)\<rparr>)"
      "held (Grant q :: 'm pc) = 1" "owes (Grant q :: 'm pc) = []"
  | (Other) "sh_state sh' = sh_state sh" "wl sh' = wl sh" "held p = held (Grant q :: 'm pc)"
      "waits p = waits (Grant q :: 'm pc)" "set (owes (Grant q :: 'm pc)) \<subseteq> set (owes p) \<union> set (sh_woken sh')"
proof (cases q)
  case (GrantPop g start k)
  define l where "l = grant_lane start k sh"
  show ?thesis
  proof (cases "lane_free sh l \<and> wl sh l \<noteq> []")
    case True
    then obtain e es where e: "wl sh l = e # es" by (cases "wl sh l") auto
    show ?thesis
      using assms GrantPop True e lane_free_views(3) [of sh l]
      by (intro Pop [of l e es]) (auto simp: l_def [symmetric])
  next
    case False
    then show ?thesis
      using assms GrantPop lane_free_views(3) [of sh l]
      by (intro Other) (auto simp: l_def [symmetric] split: if_splits list.splits)
  qed
next
  case (GrantScan g start k)
  then show ?thesis using assms by (intro Other) (auto split: if_splits option.splits)
qed (use assms in \<open>auto intro!: Other\<close>)

lemma grant_frame:
  assumes "grant_go q sh = (p, sh')"
  shows "sh_capacity sh' = sh_capacity sh" "sh_queue sh' = sh_queue sh" "sh_room sh' = sh_room sh"
    "sh_closed sh' = sh_closed sh" "set (sh_woken sh) \<subseteq> set (sh_woken sh')"
    "sh_waker sh' = sh_waker sh" "sh_parked sh' = sh_parked sh" "sh_reader_woken sh' = sh_reader_woken sh"
  using assms by (cases q; auto simp: Let_def split: if_splits list.splits)+

lemma grant_units:
  fixes p :: "'m pc"
  assumes "structure_ok sh ag" "units_ok Q sh ag" "i < length ag" "ag ! i = Grant q" "grant_go q sh = (p, sh')"
  shows "units_ok Q sh' (ag[i := p])"
  using assms(5)
proof (cases rule: grant_go_cases)
  case (Pop l e es)
  have e: "fst e < length ag" "waits (ag ! fst e) = Some l" "sh_state sh (fst e) = WAITING"
    using lists_okD(2) [OF structure_lists [OF assms(1)], of "fst e" "snd e" l] Pop(3) by auto
  have keep: "waits (ag[i := p] ! j) = waits (ag ! j)" for j
    using Pop(1) assms(3,4) by (cases "j = i") auto
  have "granted ((sh_state sh)(fst e := GRANTED)) (ag[i := p]) = granted (sh_state sh) (ag[i := p]) + 1"
    using e by (intro granted_grant) (auto simp: keep)
  moreover have "granted (sh_state sh) (ag[i := p]) = granted (sh_state sh) ag"
    using keep [of i] assms(3) by (intro granted_keep) auto
  ultimately show ?thesis
    using Pop grant_frame [OF assms(5)] assms(4) by (intro units_step [OF assms(2,3)]) auto
next
  case Other
  then have "granted (sh_state sh) (ag[i := p]) = granted (sh_state sh) ag"
    using assms(4) by (intro granted_keep [OF assms(3)]) auto
  then show ?thesis
    using Other grant_frame [OF assms(5)] assms(4) by (intro units_step [OF assms(2,3)]) auto
qed

text \<open>A step of a close takes a whole list, or leaves the lists and the waiters' states alone.\<close>

lemma close_go_cases:
  fixes p :: "'m pc"
  assumes "close_go Q q sh = (p, sh')"
  obtains (Drain) f l where "q = CloseLane f l" "p = Close (CloseCount f l (wl sh l))" "lane_free sh l"
      "sh' = on_lane l (\<lambda>ln. ln\<lparr>ln_waiters := [], ln_locked := True\<rparr>)
        (sh\<lparr>sh_state := (\<lambda>j. if j \<in> fst ` set (wl sh l) then CLOSED else sh_state sh j)\<rparr>)"
  | (Other) "sh_state sh' = sh_state sh" "wl sh' = wl sh" "waits p = None"
      "set (owes (Close q :: 'm pc)) \<subseteq> set (owes p) \<union> set (sh_woken sh')"
proof (cases q)
  case (CloseLane f l)
  show ?thesis
  proof (cases "l < sh_lane_count sh \<and> lane_free sh l")
    case True
    then show ?thesis
      using assms CloseLane lane_free_views(3) [of sh l]
      by (intro Drain [of f l]) (auto simp: try_lane_def lane_free_def)
  next
    case False
    then show ?thesis
      using assms CloseLane by (intro Other) (auto simp: try_lane_def lane_free_def split: if_splits)
  qed
next
  case DropTake
  then show ?thesis using assms by (intro Other) (auto split: prod.splits option.splits)
next
  case (CloseWake f l ds)
  then show ?thesis using assms by (intro Other; cases ds) auto
qed (use assms in \<open>auto intro!: Other split: if_splits\<close>)

lemma close_frame:
  assumes "close_go Q q sh = (p, sh')" "queue_laws Q"
  shows "sh_capacity sh' = sh_capacity sh" "sh_room sh' = sh_room sh"
    "length (q_items Q (sh_queue sh')) + held p = length (q_items Q (sh_queue sh))"
    "set (sh_woken sh) \<subseteq> set (sh_woken sh')"
proof -
  show "length (q_items Q (sh_queue sh')) + held p = length (q_items Q (sh_queue sh))"
    using assms
    by (cases q) (auto simp: close_go_wake queue_lawsD(3) [OF assms(2)] dest: queue_lawsD(4,5) [OF assms(2)]
        split: if_splits prod.splits option.splits list.splits)
  show "sh_capacity sh' = sh_capacity sh" "sh_room sh' = sh_room sh" "set (sh_woken sh) \<subseteq> set (sh_woken sh')"
    using assms(1)
    by (cases q; auto simp: close_go_wake split: if_splits prod.splits option.splits list.splits)+
qed

lemma close_units:
  assumes "structure_ok sh ag" "units_ok Q sh ag" "i < length ag" "ag ! i = Close q" "close_go Q q sh = (p, sh')"
    and "queue_laws Q"
  shows "units_ok Q sh' (ag[i := p])"
proof -
  have "granted (sh_state sh') (ag[i := p]) = granted (sh_state sh) ag"
    using assms(5)
  proof (cases rule: close_go_cases)
    case (Drain f l)
    have keep: "waits (ag[i := p] ! j) = waits (ag ! j)" for j
      using Drain(2) assms(3,4) by (cases "j = i") auto
    have "sh_state sh j = WAITING" if mem: "j \<in> fst ` set (wl sh l)" for j
    proof -
      obtain v where "(j, v) \<in> set (wl sh l)" using mem by auto
      then show ?thesis using lists_okD(2) [OF structure_lists [OF assms(1)]] by blast
    qed
    then have "granted (sh_state sh') (ag[i := p]) = granted (sh_state sh) (ag[i := p])"
      using Drain(4) by (intro granted_states) auto
    then show ?thesis
      using keep [of i] assms(3) granted_keep [OF assms(3), of p "sh_state sh"] by simp
  next
    case Other
    then show ?thesis
      using assms(4) granted_keep [OF assms(3), of p "sh_state sh"] by simp
  qed
  then show ?thesis
    using close_frame [OF assms(5,6)] assms(4) by (intro units_step [OF assms(2,3)]) auto
qed

lemma agent_units:
  assumes "structure_ok sh ag" "units_ok Q sh ag" "i < length ag" "cas_ok (ag ! i)" "queue_laws Q"
    and "agent_go Q c i (ag ! i) sh = (p, sh')"
  shows "units_ok Q sh' (ag[i := p])"
proof (cases "ag ! i")
  case (Res q)
  then show ?thesis using reserve_units [OF assms(1-3) Res assms(4)] assms(6) by simp
next
  case (Grant q)
  then show ?thesis using grant_units [OF assms(1-3) Grant] assms(6) by simp
next
  case (Close q)
  then show ?thesis using close_units [OF assms(1-3) Close] assms(5,6) by simp
next
  case Done
  then show ?thesis using assms by (metis agent_go.simps(9) list_update_id prod.inject)
next
  case (Unit q)
  then show ?thesis
    using unit_units [of c q sh p sh'] unit_quiet [of c q sh p sh'] assms(4,6) by (intro units_quiet [OF assms(2,3)]) auto
next
  case (Wake q)
  then show ?thesis
    using wake_units [of q sh p sh'] wake_quiet [of q sh p sh'] assms(6) by (intro units_quiet [OF assms(2,3)]) auto
next
  case (Push q)
  then show ?thesis
    using push_units [of Q c q sh p sh'] push_quiet [of Q c q sh p sh'] assms(4-6)
    by (intro units_quiet [OF assms(2,3)]) auto
next
  case (Rx q)
  then show ?thesis
    using rx_units [of Q c q sh p sh'] rx_quiet [of Q c q sh p sh'] assms(5,6) by (intro units_quiet [OF assms(2,3)]) auto
next
  case TxDrop
  then show ?thesis
    using tx_drop_quiet [of sh p sh'] assms(6) by (intro units_quiet [OF assms(2,3)]) (auto split: if_splits)
qed


section \<open>No unit sleeps beside a waiter\<close>

text \<open>
  The four accesses of the release and of the wait.  An agent gives up its responsibility only when it reads that the
  room or the total is zero, and whoever raises one of them is responsible afterwards.
\<close>

lemma responsible_simps [simp]:
  "responsible (Unit u :: 'm pc) \<longleftrightarrow> pc_after (Unit u :: 'm pc) \<noteq> None \<or> (\<exists>r. u = RelReread r)"
  "responsible (Grant g) \<longleftrightarrow> grant_after (grant_of g) \<noteq> None"
  "responsible (Wake v) \<longleftrightarrow> wake_after (wake_of v) \<noteq> None"
  "responsible (Res q) \<longleftrightarrow> (\<exists>w l. q = ParkRoom w l)"
  "\<not> responsible (Push m)" "\<not> responsible (Close k)" "\<not> responsible (Rx x)" "\<not> responsible TxDrop"
  "\<not> responsible Done"
  by (auto simp: responsible_def)

definition hands_on :: "'q shared \<Rightarrow> 'm pc \<Rightarrow> 'q shared \<Rightarrow> 'm pc \<Rightarrow> bool" where
  "hands_on sh q sh' p \<longleftrightarrow>
     responsible p \<or> sh_room sh' = 0 \<or> sh_waiting_total sh' = 0 \<or>
     (\<not> responsible q \<and> sh_room sh' \<le> sh_room sh \<and> sh_waiting_total sh' \<le> sh_waiting_total sh)"

lemma agent_hands_on:
  assumes "agent_go Q c i q sh = (p, sh')"
  shows "hands_on sh q sh' p"
proof (cases q)
  case (Res u)
  then show ?thesis using assms by (cases u) (auto simp: hands_on_def split: if_splits wait_state.splits)
next
  case (Unit u)
  then show ?thesis using assms by (cases u) (auto simp: hands_on_def split: if_splits)
next
  case (Grant u)
  then show ?thesis
    using assms by (cases u; cases "grant_of u")
      (auto simp: hands_on_def Let_def split: if_splits list.splits option.splits)
next
  case (Wake u)
  then show ?thesis using assms by (cases u; cases "wake_of u") (auto simp: hands_on_def split: if_splits)
next
  case (Close u)
  then show ?thesis
    using assms by (cases u) (auto simp: hands_on_def close_go_wake split: if_splits list.splits option.splits prod.splits)
next
  case (Rx u)
  then show ?thesis
    using assms by (cases u) (auto simp: hands_on_def split: if_splits option.splits prod.splits)
next
  case (Push u)
  then show ?thesis using assms by (cases u) (auto simp: hands_on_def split: if_splits prod.splits)
qed (use assms in \<open>auto simp: hands_on_def split: if_splits\<close>)

lemma agent_rebalance:
  assumes "rebalance_ok sh ag" "i < length ag" "agent_go Q c i (ag ! i) sh = (p, sh')"
  shows "rebalance_ok sh' (ag[i := p])"
  unfolding rebalance_ok_def
proof
  assume pos: "0 < sh_room sh' \<and> 0 < sh_waiting_total sh'"
  show "\<exists>j. j < length (ag[i := p]) \<and> responsible (ag[i := p] ! j)"
  proof (cases "responsible p")
    case True
    then show ?thesis using assms(2) by (intro exI [of _ i]) simp
  next
    case False
    then have "\<not> responsible (ag ! i)" "0 < sh_room sh" "0 < sh_waiting_total sh"
      using agent_hands_on [OF assms(3)] pos by (auto simp: hands_on_def)
    then obtain j where "j < length ag" "responsible (ag ! j)" "j \<noteq> i"
      using assms(1) by (auto simp: rebalance_ok_def)
    then show ?thesis by (intro exI [of _ j]) simp
  qed
qed

section \<open>Waiters are woken\<close>

lemma agent_owes:
  assumes "agent_go Q c i q sh = (p, sh')"
  shows "set (sh_woken sh) \<subseteq> set (sh_woken sh')" "set (owes q) \<subseteq> set (owes p) \<union> set (sh_woken sh')"
proof -
  have "set (sh_woken sh) \<subseteq> set (sh_woken sh') \<and> set (owes q) \<subseteq> set (owes p) \<union> set (sh_woken sh')"
  proof (cases q)
    case (Res u)
    then show ?thesis using assms by (cases u) (auto split: if_splits wait_state.splits)
  next
    case (Unit u)
    then show ?thesis using assms by (cases u) (auto split: if_splits)
  next
    case (Grant u)
    then show ?thesis using assms by (cases u) (auto simp: Let_def split: if_splits list.splits option.splits)
  next
    case (Wake u)
    then show ?thesis using assms by (cases u) (auto split: if_splits)
  next
    case (Close u)
    then show ?thesis
      using assms by (cases u) (auto simp: close_go_wake split: if_splits list.splits option.splits prod.splits)
  next
    case (Rx u)
    then show ?thesis using assms by (cases u) (auto split: if_splits option.splits prod.splits)
  next
    case (Push u)
    then show ?thesis using assms by (cases u) (auto split: if_splits prod.splits)
  qed (use assms in \<open>auto split: if_splits\<close>)
  then show "set (sh_woken sh) \<subseteq> set (sh_woken sh')" "set (owes q) \<subseteq> set (owes p) \<union> set (sh_woken sh')"
    by blast+
qed

text \<open>A wait ends in the step that takes its entry from the list, and that agent owes the wake.\<close>

lemma wait_ends:
  assumes "agent_go Q c i q sh = (p, sh')" "sh_state sh k = WAITING" "sh_state sh' k \<noteq> WAITING"
  shows "\<exists>l v. (k, v) \<in> set (wl sh l) \<and> (k, v) \<in> set (owes p)"
proof (cases q)
  case (Grant u)
  then have "grant_go u sh = (p, sh')" using assms(1) by simp
  then show ?thesis
  proof (cases rule: grant_go_cases)
    case (Pop l e es)
    then have "k = fst e" using assms(2,3) by (auto split: if_splits)
    then have "(k, snd e) \<in> set (wl sh l) \<and> (k, snd e) \<in> set (owes p)" using Pop by simp
    then show ?thesis by blast
  qed (use assms in simp)
next
  case (Close u)
  then have "close_go Q u sh = (p, sh')" using assms(1) by simp
  then show ?thesis
  proof (cases rule: close_go_cases)
    case (Drain f l)
    then have "k \<in> fst ` set (wl sh l)" using assms(2,3) by (auto split: if_splits)
    then obtain v where "(k, v) \<in> set (wl sh l)" by auto
    then have "(k, v) \<in> set (wl sh l) \<and> (k, v) \<in> set (owes p)" using Drain(2) by simp
    then show ?thesis by blast
  qed (use assms in simp)
next
  case (Res u)
  then show ?thesis using assms by (cases u) (auto split: if_splits wait_state.splits)
next
  case (Unit u)
  then show ?thesis using assms unit_quiet(2) [of c u sh p sh'] by (simp add: quiet_sh_def)
next
  case (Wake u)
  then show ?thesis using assms wake_quiet(2) [of u sh p sh'] by (simp add: quiet_sh_def)
next
  case (Push u)
  then show ?thesis using assms push_quiet(2) [of Q c u sh p sh'] by (simp add: quiet_sh_def)
next
  case (Rx u)
  then show ?thesis using assms rx_quiet(2) [of Q c u sh p sh'] by (simp add: quiet_sh_def)
qed (use assms in auto)

lemma becomes_parked:
  assumes "agent_go Q c i q sh = (Res (Parked w l), sh')"
  shows "q = Res (Parked w l) \<or> q = Res (ParkedSettle w l) \<and> sh_state sh i = WAITING" "sh' = sh"
proof -
  have "sh' = sh \<and> (q = Res (Parked w l) \<or> q = Res (ParkedSettle w l) \<and> sh_state sh i = WAITING)"
  proof (cases q)
    case (Res u)
    then show ?thesis using assms by (cases u) (auto split: if_splits wait_state.splits)
  next
    case (Unit u)
    then show ?thesis using assms by (cases u) (auto split: if_splits)
  next
    case (Grant u)
    then show ?thesis using assms by (cases u) (auto simp: Let_def split: if_splits list.splits option.splits)
  next
    case (Wake u)
    then show ?thesis using assms by (cases u) (auto split: if_splits)
  next
    case (Close u)
    then show ?thesis
      using assms by (cases u) (auto simp: close_go_wake split: if_splits list.splits option.splits prod.splits)
  next
    case (Rx u)
    then show ?thesis using assms by (cases u) (auto split: if_splits option.splits prod.splits)
  next
    case (Push u)
    then show ?thesis using assms by (cases u) (auto split: if_splits prod.splits)
  qed (use assms in \<open>auto split: if_splits\<close>)
  then show "q = Res (Parked w l) \<or> q = Res (ParkedSettle w l) \<and> sh_state sh i = WAITING" "sh' = sh"
    by blast+
qed

lemma agent_wakes:
  assumes "structure_ok sh ag" "waiters_woken sh ag" "i < length ag" "agent_go Q c i (ag ! i) sh = (p, sh')"
  shows "waiters_woken sh' (ag[i := p])"
proof -
  let ?owed = "\<lambda>e. e \<in> set (sh_woken sh') \<or> (\<exists>j. j < length ag \<and> e \<in> set (owes (ag[i := p] ! j)))"
  note owes = agent_owes [OF assms(4)]
  have old: "?owed e" if owed: "e \<in> set (sh_woken sh) \<or> (\<exists>j. j < length ag \<and> e \<in> set (owes (ag ! j)))" for e
  proof (cases "e \<in> set (sh_woken sh) \<or> e \<in> set (owes (ag ! i))")
    case True
    then have "e \<in> set (sh_woken sh') \<or> e \<in> set (owes p)" using owes by blast
    then show ?thesis using assms(3) by (metis nth_list_update_eq)
  next
    case False
    then obtain j where j: "j < length ag" "e \<in> set (owes (ag ! j))" using owed by blast
    then have "j \<noteq> i" using False by blast
    with j show ?thesis by (metis nth_list_update_neq)
  qed
  have new: "?owed (k, w)"
    if k: "k < length ag" "sh_state sh k = WAITING" "sh_state sh' k \<noteq> WAITING" "settled (ag ! k) = Some w" for k w
  proof -
    obtain l v where v: "(k, v) \<in> set (wl sh l)" "(k, v) \<in> set (owes p)"
      using wait_ends [OF assms(4) k(2,3)] by blast
    have "waits (ag ! k) = Some l"
      using lists_okD(2) [OF structure_lists [OF assms(1)] v(1)] by simp
    then have "(k, w) \<in> set (wl sh l)"
      using lists_okD(4) [OF structure_lists [OF assms(1)]] k by blast
    then have "w = v"
      using v(1) lists_okD(1) [OF structure_lists [OF assms(1)], of l] by (metis eq_key_imp_eq_value)
    then show ?thesis using v(2) assms(3) by (metis nth_list_update_eq)
  qed
  show ?thesis
    unfolding waiters_woken_def
  proof (intro allI impI)
    fix k w l
    assume k: "k < length (ag[i := p]) \<and> ag[i := p] ! k = Res (Parked w l) \<and> sh_state sh' k \<noteq> WAITING"
    have "sh_state sh k \<noteq> WAITING \<and> ag ! k = Res (Parked w l) \<or> sh_state sh k = WAITING \<and> settled (ag ! k) = Some w"
    proof (cases "k = i")
      case True
      then have p: "p = Res (Parked w l)" using k assms(3) by simp
      show ?thesis
        using becomes_parked [OF assms(4) [unfolded p]] k True by auto
    next
      case False
      then show ?thesis using k by auto
    qed
    then show "(k, w) \<in> set (sh_woken sh') \<or> (\<exists>j. j < length (ag[i := p]) \<and> (k, w) \<in> set (owes (ag[i := p] ! j)))"
    proof
      assume "sh_state sh k \<noteq> WAITING \<and> ag ! k = Res (Parked w l)"
      then show ?thesis
        using old [of "(k, w)"] assms(2) k unfolding waiters_woken_def by simp
    next
      assume "sh_state sh k = WAITING \<and> settled (ag ! k) = Some w"
      then show ?thesis using new [of k w] k by simp
    qed
  qed
qed


section \<open>A close leaves no waiter\<close>

lemma agent_closed:
  assumes "agent_go Q c i q sh = (p, sh')"
  shows "sh_closed sh' = sh_closed sh \<or> (\<exists>f. q = Close (CloseFlag f))"
    "wl sh' l \<noteq> [] \<Longrightarrow> wl sh l \<noteq> [] \<or> \<not> sh_closed sh'"
proof -
  have "(sh_closed sh' = sh_closed sh \<or> (\<exists>f. q = Close (CloseFlag f))) \<and>
      (wl sh' l \<noteq> [] \<longrightarrow> wl sh l \<noteq> [] \<or> \<not> sh_closed sh')"
  proof (cases q)
    case (Res u)
    then have go: "reserve_go c i u sh = (p, sh')" using assms by simp
    then show ?thesis
    proof (cases u)
      case (ParkPush w m)
      then show ?thesis using go by (auto split: if_splits)
    next
      case (ParkedRefresh w m)
      then show ?thesis
        using go lane_free_views [of sh m] by (auto simp: lane_views_on_lane split: if_splits)
    next
      case (CancelLock m)
      then show ?thesis
        using go lane_free_views [of sh m] by (auto simp: lane_views_on_lane split: if_splits wait_state.splits)
    qed (auto split: if_splits wait_state.splits)
  next
    case (Grant u)
    then have go: "grant_go u sh = (p, sh')" using assms by simp
    then show ?thesis
    proof (cases rule: grant_go_cases)
      case (Pop m e es)
      then show ?thesis using lane_free_views [of sh m] by (auto simp: lane_views_on_lane)
    next
      case Other
      then show ?thesis using grant_frame(4) [OF go] by simp
    qed
  next
    case (Close u)
    then have go: "close_go Q u sh = (p, sh')" using assms by simp
    have "sh_closed sh' = sh_closed sh \<or> (\<exists>f. u = CloseFlag f)"
      using go by (cases u) (auto simp: close_go_wake split: if_splits list.splits option.splits prod.splits)
    moreover have "wl sh' l \<noteq> [] \<longrightarrow> wl sh l \<noteq> []"
      using go
    proof (cases rule: close_go_cases)
      case (Drain f m)
      then show ?thesis using lane_free_views [of sh m] by (auto simp: lane_views_on_lane)
    qed simp
    ultimately show ?thesis using Close by auto
  next
    case (Unit u)
    then show ?thesis using assms by (cases u) (auto split: if_splits)
  next
    case (Wake u)
    then show ?thesis using assms by (cases u) (auto split: if_splits)
  next
    case (Rx u)
    then show ?thesis using assms by (cases u) (auto split: if_splits option.splits prod.splits)
  next
    case (Push u)
    then show ?thesis using assms by (cases u) (auto split: if_splits prod.splits)
  qed (use assms in \<open>auto split: if_splits\<close>)
  then show "sh_closed sh' = sh_closed sh \<or> (\<exists>f. q = Close (CloseFlag f))"
    "wl sh' l \<noteq> [] \<Longrightarrow> wl sh l \<noteq> [] \<or> \<not> sh_closed sh'"
    by blast+
qed

lemma agent_closer:
  assumes "structure_ok sh ag" "sides_ok ag" "closer_ok sh ag" "i < length ag" "agent_go Q c i (ag ! i) sh = (p, sh')"
  shows "closer_ok sh' (ag[i := p])"
  unfolding closer_ok_def
proof (intro impI allI)
  fix l
  assume l: "sh_closed sh'" "wl sh' l \<noteq> []"
  then have wl: "wl sh l \<noteq> []" using agent_closed(2) [OF assms(5)] by blast
  then have len: "l < length (sh_lanes sh)" "l < sh_lane_count sh"
    using assms(1) by (auto simp: wl_def structure_ok_def lanes_ok_def split: if_splits)
  show "\<exists>k. closing (ag[i := p] ! 0) = Some k \<and> k \<le> l"
  proof (cases "\<exists>f. ag ! i = Close (CloseFlag f)")
    case True
    then have "i = 0" using assms(2,4) by (cases i) (auto simp: sides_ok_def)
    then show ?thesis using True assms(4,5) by auto
  next
    case False
    then have "sh_closed sh" using agent_closed(1) [OF assms(5)] l(1) by blast
    then obtain k where k: "closing (ag ! 0) = Some k" "k \<le> l"
      using assms(3) wl by (auto simp: closer_ok_def)
    show ?thesis
    proof (cases "i = 0")
      case True
      then obtain u where u: "ag ! i = Close u" using k(1) by (cases "ag ! 0" rule: closing.cases) auto
      then have go: "close_go Q u sh = (p, sh')" using assms(5) by simp
      have "\<exists>k. closing p = Some k \<and> k \<le> l"
      proof (cases u)
        case (CloseLane f m)
        then have "m \<le> l" using k u True by simp
        moreover have "m \<noteq> l" if "p \<noteq> Close (CloseLane f m)"
        proof
          assume "m = l"
          then show False
            using go CloseLane that l(2) len by (auto simp: try_lane_def lane_views_on_lane split: if_splits)
        qed
        ultimately show ?thesis
          using go CloseLane len by (auto simp: try_lane_def split: if_splits)
      next
        case (CloseWake f m ds)
        then show ?thesis using go k u True by (cases ds) auto
      qed (use go k u True in auto)
      then show ?thesis using True assms(4) by simp
    qed (use k in simp)
  qed
qed


section \<open>The receiver is woken\<close>

text \<open>What a sender's step does to the receiver's slot.\<close>

lemma grant_wakes:
  fixes p :: "'m pc"
  assumes "grant_go u sh = (p, sh')" "will_wake (Grant u :: 'm pc)"
  shows "will_wake p"
  using assms by (cases u; cases "grant_of u")
    (auto simp: Let_def split: if_splits option.splits list.splits)

definition slot_kept :: "'q shared \<Rightarrow> 'm pc \<Rightarrow> 'q shared \<Rightarrow> 'm pc \<Rightarrow> bool" where
  "slot_kept sh q sh' p \<longleftrightarrow>
     sh_waker sh' = sh_waker sh \<and> sh_parked sh' = sh_parked sh \<and> sh_reader_woken sh' = sh_reader_woken sh \<and>
     \<not> is_waking q \<and> \<not> is_taking q \<and>
     (will_wake q \<and> sh_closed sh \<longrightarrow> will_wake p \<or> (\<exists>w. q = Wake w) \<and> \<not> sh_parked sh) \<and>
     (sh_room sh < sh_room sh' \<longrightarrow> will_wake p)"

lemma reserve_slot:
  fixes p :: "'m pc"
  assumes "reserve_go c i u sh = (p, sh')"
  shows "slot_kept sh (Res u :: 'm pc) sh' p"
  using assms by (cases u) (auto simp: slot_kept_def split: if_splits wait_state.splits)

lemma push_slot:
  assumes "push_go Q c u sh = (p, sh')"
  shows "slot_kept sh (Push u) sh' p"
  using assms by (cases u) (auto simp: slot_kept_def split: if_splits prod.splits)

lemma unit_slot:
  fixes p :: "'m pc"
  assumes "unit_go c u sh = (p, sh')" "tx_side (Unit u :: 'm pc)"
  shows "slot_kept sh (Unit u :: 'm pc) sh' p"
  using assms by (cases u) (auto simp: slot_kept_def split: if_splits)

lemma grant_slot:
  fixes p :: "'m pc"
  assumes "grant_go u sh = (p, sh')"
  shows "slot_kept sh (Grant u :: 'm pc) sh' p"
  using grant_frame [OF assms] grant_wakes [OF assms] by (simp add: slot_kept_def)

lemma tx_step_cases:
  assumes "agent_go Q c i q sh = (p, sh')" "tx_side q"
  obtains (Swap) v where "q = Wake (WakeSwap v)" "p = Wake (WakeTake v)" "sh' = sh\<lparr>sh_parked := False\<rparr>"
  | (Take) v where "q = Wake (WakeTake v)" "p = Wake (WakeReader v)" "sh' = sh\<lparr>sh_waker := None\<rparr>"
  | (Empty) v where "q = Wake (WakeTake v)" "p = wake_end v" "sh' = sh\<lparr>sh_waker := None\<rparr>" "sh_waker sh = None"
  | (Wakes) v where "q = Wake (WakeReader v)" "sh' = sh\<lparr>sh_reader_woken := True\<rparr>"
  | (Other) "slot_kept sh q sh' p"
proof (cases q)
  case (Wake u)
  show ?thesis
  proof (cases u)
    case (WakeLoad v)
    then show ?thesis using assms(1) Wake by (intro Other) (auto simp: slot_kept_def)
  next
    case (WakeSwap v)
    show ?thesis
    proof (cases "sh_parked sh")
      case True
      then show ?thesis using assms(1) Wake WakeSwap by (intro Swap [of v]) simp_all
    next
      case False
      then show ?thesis using assms(1) Wake WakeSwap by (intro Other) (auto simp: slot_kept_def)
    qed
  next
    case (WakeTake v)
    show ?thesis
    proof (cases "sh_waker sh")
      case None
      then show ?thesis using assms(1) Wake WakeTake by (intro Empty [of v]) simp_all
    next
      case (Some w)
      then show ?thesis using assms(1) Wake WakeTake by (intro Take [of v]) simp_all
    qed
  next
    case (WakeReader v)
    then show ?thesis using assms(1) Wake by (intro Wakes [of v]) simp_all
  qed
next
  case (Res u)
  then show ?thesis using assms(1) reserve_slot [of c i u sh p sh'] by (intro Other) simp
next
  case (Push u)
  then show ?thesis using assms(1) push_slot [of Q c u sh p sh'] by (intro Other) simp
next
  case (Unit u)
  then show ?thesis using assms unit_slot [of c u sh p sh'] by (intro Other) simp
next
  case (Grant u)
  then show ?thesis using assms(1) grant_slot [of u sh p sh'] by (intro Other) simp
next
  case TxDrop
  then show ?thesis using assms(1) by (intro Other) (auto simp: slot_kept_def split: if_splits)
next
  case Done
  then show ?thesis using assms(1) by (intro Other) (auto simp: slot_kept_def)
next
  case (Close u)
  then show ?thesis using assms(2) by simp
next
  case (Rx u)
  then show ?thesis using assms(2) by simp
qed

text \<open>The part of the receiver's wake that does not depend on the room.\<close>

definition slot_ok :: "bool \<Rightarrow> 'q shared \<Rightarrow> 'm pc list \<Rightarrow> bool" where
  "slot_ok flagged sh ag \<longleftrightarrow>
     sh_reader_woken sh \<or> some_agent is_waking ag \<or>
     sh_waker sh \<noteq> None \<and> (flagged \<longrightarrow> sh_parked sh \<or> some_agent is_taking ag)"

lemma reader_ok_slot:
  "reader_ok RxFlag sh ag \<longleftrightarrow> sh_closed sh \<and> slot_ok False sh ag"
  "reader_ok RxEnded sh ag \<longleftrightarrow> sh_closed sh \<and> slot_ok True sh ag"
  "reader_ok RxAsleep sh ag \<longleftrightarrow> sh_closed sh \<and> slot_ok True sh ag \<and>
     (sh_room sh = sh_capacity sh \<longrightarrow> sh_reader_woken sh \<or> some_agent will_wake ag)"
  by (auto simp: slot_ok_def)

lemma some_agent_keep:
  assumes "some_agent P ag" "i < length ag" "P (ag ! i) \<Longrightarrow> P p"
  shows "some_agent P (ag[i := p])"
proof -
  obtain j where j: "0 < j" "j < length ag" "P (ag ! j)" using assms(1) by (auto simp: some_agent_def)
  then have "P (ag[i := p] ! j)" using assms(2,3) by (cases "j = i") auto
  then show ?thesis using j by (auto simp: some_agent_def)
qed

lemma some_agent_new: "0 < i \<Longrightarrow> i < length ag \<Longrightarrow> P p \<Longrightarrow> some_agent P (ag[i := p])"
  by (auto simp: some_agent_def)

lemma slot_step:
  assumes "slot_ok flagged sh ag" "0 < i" "i < length ag" "tx_side (ag ! i)" "agent_go Q c i (ag ! i) sh = (p, sh')"
  shows "slot_ok flagged sh' (ag[i := p])"
  using assms(5,4)
proof (cases rule: tx_step_cases)
  case (Swap v)
  have "some_agent is_taking (ag[i := p])" by (rule some_agent_new [OF assms(2,3)]) (simp add: Swap)
  moreover have "some_agent is_waking ag \<Longrightarrow> some_agent is_waking (ag[i := p])"
    by (erule some_agent_keep [OF _ assms(3)]) (simp add: Swap)
  ultimately show ?thesis using assms(1) Swap(3) by (auto simp: slot_ok_def)
next
  case (Take v)
  have "some_agent is_waking (ag[i := p])" by (rule some_agent_new [OF assms(2,3)]) (simp add: Take)
  then show ?thesis by (simp add: slot_ok_def)
next
  case (Empty v)
  have "some_agent is_waking ag \<Longrightarrow> some_agent is_waking (ag[i := p])"
    by (erule some_agent_keep [OF _ assms(3)]) (simp add: Empty)
  then show ?thesis using assms(1) Empty(3,4) by (auto simp: slot_ok_def)
next
  case (Wakes v)
  then show ?thesis by (simp add: slot_ok_def)
next
  case Other
  have "some_agent is_waking ag \<Longrightarrow> some_agent is_waking (ag[i := p])"
    by (erule some_agent_keep [OF _ assms(3)]) (use Other in \<open>simp add: slot_kept_def\<close>)
  moreover have "some_agent is_taking ag \<Longrightarrow> some_agent is_taking (ag[i := p])"
    by (erule some_agent_keep [OF _ assms(3)]) (use Other in \<open>simp add: slot_kept_def\<close>)
  ultimately show ?thesis using assms(1) Other by (auto simp: slot_ok_def slot_kept_def)
qed

text \<open>A sender's step keeps the promise to a sleeping receiver.\<close>

lemma asleep_step:
  assumes "reader_ok RxAsleep sh ag" "0 < i" "i < length ag" "tx_side (ag ! i)"
    and "agent_go Q c i (ag ! i) sh = (p, sh')" "sh_capacity sh' = sh_capacity sh" "sh_closed sh' = sh_closed sh"
    and "sh_room sh \<le> sh_capacity sh" "sh_room sh' \<le> sh_capacity sh"
  shows "reader_ok RxAsleep sh' (ag[i := p])"
proof -
  have slot: "slot_ok True sh' (ag[i := p])"
    by (rule slot_step [OF _ assms(2-5)]) (use assms(1) in \<open>simp add: reader_ok_slot del: reader_ok.simps\<close>)
  have closed: "sh_closed sh" using assms(1) by simp
  have "sh_reader_woken sh' \<or> some_agent will_wake (ag[i := p])" if full: "sh_room sh' = sh_capacity sh"
  proof (rule ccontr)
    assume no: "\<not> ?thesis"
    have pc: "\<not> will_wake p" using no assms(2,3) some_agent_new by blast
    have "\<not> some_agent is_waking (ag[i := p])" "\<not> some_agent is_taking (ag[i := p])"
      using no by (auto simp: some_agent_def)
    then have parked: "sh_parked sh'" "sh_waker sh' \<noteq> None" using slot no by (auto simp: slot_ok_def)
    show False
      using assms(5,4)
    proof (cases rule: tx_step_cases)
      case Other
      have "sh_room sh = sh_capacity sh"
        using Other pc full assms(8) by (auto simp: slot_kept_def)
      then have "some_agent will_wake ag"
        using assms(1) Other no by (auto simp: slot_kept_def)
      then have "some_agent will_wake (ag[i := p])"
        by (rule some_agent_keep [OF _ assms(3)]) (use Other parked closed in \<open>auto simp: slot_kept_def\<close>)
      with no show False by simp
    qed (use pc parked no in auto)
  qed
  then show ?thesis using slot assms(6,7) closed by (simp add: reader_ok_slot del: reader_ok.simps)
qed

lemma room_bounded: "units_ok Q sh ag \<Longrightarrow> sh_room sh \<le> sh_capacity sh"
  by (simp add: units_ok_def)

lemma ends_rx [simp]:
  "rel_end r = Rx v \<longleftrightarrow> r = ByRx \<and> v = RxIdle" "grant_done g = Rx v \<longleftrightarrow> g = GrantRelease ByRx \<and> v = RxIdle"
  "close_end f = Rx v \<longleftrightarrow> f = CloseOnly \<and> v = RxIdle"
proof -
  show rel: "rel_end r = Rx v \<longleftrightarrow> r = ByRx \<and> v = RxIdle" for r by (cases r) auto
  show "grant_done g = Rx v \<longleftrightarrow> g = GrantRelease ByRx \<and> v = RxIdle" by (cases g) (auto simp: rel)
  show "close_end f = Rx v \<longleftrightarrow> f = CloseOnly \<and> v = RxIdle" by (cases f) auto
qed

lemma becomes_rx:
  assumes "agent_go Q c i q sh = (Rx v, sh')"
  shows "v = RxIdle \<or> (\<exists>u. q = Rx u)"
proof (cases q)
  case (Res u)
  then show ?thesis using assms by (cases u) (auto split: if_splits wait_state.splits)
next
  case (Unit u)
  then show ?thesis using assms by (cases u) (auto split: if_splits)
next
  case (Grant u)
  then show ?thesis using assms by (cases u) (auto simp: Let_def split: if_splits list.splits option.splits)
next
  case (Wake u)
  then show ?thesis using assms by (cases u) (auto split: if_splits)
next
  case (Close u)
  then show ?thesis
    using assms by (cases u) (auto simp: close_go_wake split: if_splits list.splits option.splits prod.splits)
next
  case (Push u)
  then show ?thesis using assms by (cases u) (auto split: if_splits prod.splits)
qed (use assms in \<open>auto split: if_splits\<close>)

lemma some_agent_rx [simp]: "some_agent P (ag[0 := p]) = some_agent P ag"
  by (auto simp: some_agent_def)

lemma rx_reader:
  assumes "reader_ok u sh ag" "rx_go Q c u sh = (Rx v, sh')"
  shows "reader_ok v sh' (ag[0 := p])"
  using assms by (cases u) (auto simp: ended_def split: if_splits prod.splits option.splits)

lemma agent_reader:
  assumes "sides_ok ag" "units_ok Q sh ag" "units_ok Q sh' (ag[i := p])" "i < length ag"
    and "\<And>u. ag ! 0 = Rx u \<Longrightarrow> reader_ok u sh ag"
    and "agent_go Q c i (ag ! i) sh = (p, sh')" "sh_capacity sh' = sh_capacity sh" "ag[i := p] ! 0 = Rx v"
  shows "reader_ok v sh' (ag[i := p])"
proof (cases "i = 0")
  case False
  then have tx: "tx_side (ag ! i)" "0 < i" "ag ! 0 = Rx v" using assms(1,4,8) by (auto simp: sides_ok_def)
  then have "\<not> (\<exists>f. ag ! i = Close (CloseFlag f))" by auto
  then have closed: "sh_closed sh' = sh_closed sh" using agent_closed(1) [OF assms(6)] by blast
  note r = assms(5) [OF tx(3)]
  show ?thesis
  proof (cases v)
    case RxFlag
    then show ?thesis
      using r closed slot_step [OF _ tx(2) assms(4) tx(1) assms(6), of False]
      by (simp add: reader_ok_slot del: reader_ok.simps)
  next
    case RxEnded
    then show ?thesis
      using r closed slot_step [OF _ tx(2) assms(4) tx(1) assms(6), of True]
      by (simp add: reader_ok_slot del: reader_ok.simps)
  next
    case RxAsleep
    then show ?thesis
      using asleep_step [OF _ tx(2) assms(4) tx(1) assms(6,7) closed] r room_bounded [OF assms(2)]
        room_bounded [OF assms(3)] assms(7) by simp
  qed (use r closed in auto)
next
  case True
  then have go: "agent_go Q c 0 (ag ! 0) sh = (Rx v, sh')" using assms(4,6,8) by simp
  show ?thesis
  proof (cases "\<exists>u. ag ! 0 = Rx u")
    case rx: True
    then obtain u where u: "ag ! 0 = Rx u" by blast
    then show ?thesis using rx_reader [OF assms(5) [OF u], of Q c v sh' p] go True by simp
  next
    case False
    then have "v = RxIdle" using becomes_rx [OF go] by blast
    then show ?thesis by simp
  qed
qed


section \<open>Lists exist\<close>

lemma lane_known_ends [simp]:
  "parks_soon (rel_end r) = None" "parks_soon (reb_end a) = None" "parks_soon (grant_failed g) = None"
  "parks_soon (grant_done g) = None" "parks_soon (wake_end v) = None" "parks_soon (close_end f) = None"
  "rel_end r \<noteq> Grant x" "reb_end a \<noteq> Grant x" "grant_failed g \<noteq> Grant x" "grant_done g \<noteq> Grant x"
  "wake_end v \<noteq> Grant x" "close_end f \<noteq> Grant x" "reb_end a \<noteq> Res (ParkPush w l)"
proof -
  show "parks_soon (rel_end r) = None" "rel_end r \<noteq> Grant x" for r by (cases r; simp)+
  note rel = this
  show "parks_soon (reb_end a) = None" "reb_end a \<noteq> Grant x" "reb_end a \<noteq> Res (ParkPush w l)" by (cases a; simp)+
  show "parks_soon (grant_failed g) = None" "grant_failed g \<noteq> Grant x" by (cases g; simp)+
  show "parks_soon (grant_done g) = None" "grant_done g \<noteq> Grant x" by (cases g; simp add: rel)+
  show "parks_soon (wake_end v) = None" "wake_end v \<noteq> Grant x" by (cases v; simp)+
  show "parks_soon (close_end f) = None" "close_end f \<noteq> Grant x" by (cases f; simp)+
qed

lemma lane_known_go:
  assumes "lane_known sh q" "agent_go Q c i q sh = (p, sh')" "lanes_ok sh ag"
  shows "lane_known sh' p" "length (sh_lanes sh) \<le> length (sh_lanes sh')" "sh_lane_count sh' = sh_lane_count sh"
proof -
  have "lane_known sh' p \<and> length (sh_lanes sh) \<le> length (sh_lanes sh') \<and> sh_lane_count sh' = sh_lane_count sh"
  proof (cases q)
    case (Res u)
    then show ?thesis
      using assms
      by (cases u) (auto simp: lane_known_def lane_or_init_def lanes_ok_def split: if_splits wait_state.splits)
  next
    case (Unit u)
    then show ?thesis using assms by (cases u) (auto simp: lane_known_def split: if_splits)
  next
    case (Grant u)
    then show ?thesis
      using assms by (cases u) (auto simp: lane_known_def Let_def try_lane_def split: if_splits list.splits)
  next
    case (Wake u)
    then show ?thesis using assms by (cases u) (auto simp: lane_known_def split: if_splits)
  next
    case (Close u)
    then show ?thesis
      using assms
      by (cases u) (auto simp: lane_known_def close_go_wake split: if_splits list.splits option.splits prod.splits)
  next
    case (Rx u)
    then show ?thesis using assms by (cases u) (auto simp: lane_known_def split: if_splits option.splits prod.splits)
  next
    case (Push u)
    then show ?thesis using assms by (cases u) (auto simp: lane_known_def split: if_splits prod.splits)
  qed (use assms in \<open>auto simp: lane_known_def split: if_splits\<close>)
  then show "lane_known sh' p" "length (sh_lanes sh) \<le> length (sh_lanes sh')" "sh_lane_count sh' = sh_lane_count sh"
    by blast+
qed

lemma lane_known_mono:
  assumes "lane_known sh p" "length (sh_lanes sh) \<le> length (sh_lanes sh')" "sh_lane_count sh' = sh_lane_count sh"
  shows "lane_known sh' p"
  using assms by (fastforce simp: lane_known_def grant_lane_def)

lemma lane_known_step:
  assumes "\<And>j. j < length ag \<Longrightarrow> lane_known sh (ag ! j)" "lane_known sh' p"
    and "length (sh_lanes sh) \<le> length (sh_lanes sh')" "sh_lane_count sh' = sh_lane_count sh" "j < length (ag[i := p])"
  shows "lane_known sh' (ag[i := p] ! j)"
  using assms lane_known_mono [OF assms(1) assms(3,4), of j] by (cases "j = i") auto

section \<open>The machine keeps its invariant\<close>

lemma mail_inv_eq:
  "mail_inv Q s \<longleftrightarrow>
     structure_ok (ms_shared s) (ms_agents s) \<and> sides_ok (ms_agents s) \<and> units_ok Q (ms_shared s) (ms_agents s) \<and>
     rebalance_ok (ms_shared s) (ms_agents s) \<and> waiters_woken (ms_shared s) (ms_agents s) \<and>
     closer_ok (ms_shared s) (ms_agents s) \<and>
     (\<forall>p. ms_agents s ! 0 = Rx p \<longrightarrow> reader_ok p (ms_shared s) (ms_agents s)) \<and>
     (\<forall>i. i < length (ms_agents s) \<longrightarrow> lane_known (ms_shared s) (ms_agents s ! i))"
  by (auto simp: mail_inv_def structure_ok_def Let_def)

lemma agent_capacity:
  assumes "agent_go Q c i q sh = (p, sh')"
  shows "sh_capacity sh' = sh_capacity sh"
proof (cases q)
  case (Res u)
  then show ?thesis using assms by (cases u) (auto split: if_splits wait_state.splits)
next
  case (Unit u)
  then show ?thesis using assms by (cases u) (auto split: if_splits)
next
  case (Grant u)
  then show ?thesis using assms grant_frame(1) [of u sh p sh'] by simp
next
  case (Wake u)
  then show ?thesis using assms by (cases u) (auto split: if_splits)
next
  case (Close u)
  then show ?thesis
    using assms by (cases u) (auto simp: close_go_wake split: if_splits list.splits option.splits prod.splits)
next
  case (Rx u)
  then show ?thesis using assms by (cases u) (auto split: if_splits option.splits prod.splits)
next
  case (Push u)
  then show ?thesis using assms by (cases u) (auto split: if_splits prod.splits)
qed (use assms in \<open>auto split: if_splits\<close>)

lemma sides_step:
  assumes "sides_ok ag" "i < length ag" "rx_side (ag ! i) \<Longrightarrow> rx_side p" "tx_side (ag ! i) \<Longrightarrow> tx_side p" "cas_ok p"
  shows "sides_ok (ag[i := p])"
  using assms by (cases "i = 0") (auto simp: sides_ok_def nth_list_update)

lemma go_inv:
  assumes "mail_inv Q s" "queue_laws Q"
  shows "mail_inv Q (mail_step Q s (Go i c))"
proof (cases "i < length (ms_agents s)")
  case True
  obtain p sh' where go: "agent_go Q c i (ms_agents s ! i) (ms_shared s) = (p, sh')"
    by (cases "agent_go Q c i (ms_agents s ! i) (ms_shared s)")
  note inv = assms(1) [unfolded mail_inv_eq]
  have cas: "cas_ok (ms_agents s ! i)" using inv True by (simp add: sides_ok_def)
  have units: "units_ok Q sh' ((ms_agents s)[i := p])"
    using agent_units [OF _ _ True cas assms(2) go] inv by blast
  have "lanes_ok (ms_shared s) (ms_agents s)" using inv by (simp add: structure_ok_def)
  note known = lane_known_go [OF _ go this]
  have "lane_known sh' ((ms_agents s)[i := p] ! j)" if "j < length (ms_agents s)" for j
    using lane_known_step [of "ms_agents s" "ms_shared s" sh' p j i] known inv True that by simp
  then show ?thesis
    unfolding mail_inv_eq
    using True inv units agent_structure [OF _ True go] sides_step [OF _ True side_go(1,2) [OF go]]
      side_go(3) [OF go cas] agent_rebalance [OF _ True go] agent_wakes [OF _ _ True go] agent_closer [OF _ _ _ True go]
      agent_reader [OF _ _ units True _ go agent_capacity [OF go]]
    by (simp add: go)
qed (use assms in simp)

text \<open>What the owner of a resting agent can make it do.\<close>

lemma cmd_cases:
  assumes "agent_cmd k q sh = (p, sh')"
  obtains (Keep) "p = q" "sh' = sh"
  | (Sender) u where "q = Res u" "sh' = sh" "\<And>w l. p \<noteq> Res (Parked w l)" "quiet_pc q p" "held p = held q"
      "tx_side p" "cas_ok p" "\<not> responsible q" "\<And>v. p \<noteq> Rx v" "lane_known sh q \<Longrightarrow> 0 < sh_lane_count sh \<Longrightarrow> lane_known sh p"
  | (Receiver) u where "q = Rx u" "sh' = sh \<or> sh' = sh\<lparr>sh_reader_woken := False\<rparr>"
      "(\<exists>w. p = Rx (RxPoll w)) \<or> p = Rx RxTake \<or> (\<exists>f. p = Close (CloseFlag f))"
proof (cases k)
  case (PollReserve w key)
  show ?thesis
    using assms PollReserve Keep
    by (cases "\<exists>u. q = Res u \<and> (u = Fresh \<or> (\<exists>w l. u = Parked w l))")
      (auto intro!: Sender simp: quiet_pc_def lane_known_def wait_lane_def lane_of_def split: pc.splits reserve_pc.splits)
next
  case DropReserve
  show ?thesis
    using assms DropReserve Keep
    by (cases "\<exists>u. q = Res u \<and> (u = Fresh \<or> (\<exists>w l. u = Parked w l))")
      (auto intro!: Sender simp: quiet_pc_def lane_known_def wait_lane_def lane_of_def split: pc.splits reserve_pc.splits)
next
  case (SendPermit m)
  show ?thesis
    using assms SendPermit Keep Sender [of HasPermit]
    by (cases "q = Res HasPermit") (auto simp: quiet_pc_def lane_known_def wait_lane_def lane_of_def)
next
  case DropPermit
  show ?thesis
    using assms DropPermit Keep Sender [of HasPermit]
    by (cases "q = Res HasPermit") (auto simp: quiet_pc_def lane_known_def wait_lane_def lane_of_def)
next
  case (PollRecv w)
  show ?thesis
    using assms PollRecv Keep Receiver by (cases "rx_rests q") (auto simp: rx_rests_def)
next
  case TryRecv
  show ?thesis
    using assms TryRecv Keep Receiver by (cases "rx_rests q") (auto simp: rx_rests_def)
next
  case (CloseRx f)
  show ?thesis
    using assms CloseRx Keep Receiver by (cases "rx_rests q") (auto simp: rx_rests_def)
qed


lemma woken_idle_step:
  assumes "waiters_woken sh ag" "i < length ag" "owes (ag ! i) = []" "\<And>w l. p \<noteq> Res (Parked w l)"
    and "sh_woken sh' = sh_woken sh" "sh_state sh' = sh_state sh"
  shows "waiters_woken sh' (ag[i := p])"
  unfolding waiters_woken_def
proof (intro allI impI)
  fix k w l
  assume k: "k < length (ag[i := p]) \<and> ag[i := p] ! k = Res (Parked w l) \<and> sh_state sh' k \<noteq> WAITING"
  then have "k \<noteq> i" using assms(2,4) by auto
  then have "(k, w) \<in> set (sh_woken sh) \<or> (\<exists>j. j < length ag \<and> (k, w) \<in> set (owes (ag ! j)))"
    using k assms(1,6) by (auto simp: waiters_woken_def)
  then show "(k, w) \<in> set (sh_woken sh') \<or>
      (\<exists>j. j < length (ag[i := p]) \<and> (k, w) \<in> set (owes (ag[i := p] ! j)))"
  proof
    assume "\<exists>j. j < length ag \<and> (k, w) \<in> set (owes (ag ! j))"
    then obtain j where j: "j < length ag" "(k, w) \<in> set (owes (ag ! j))" by blast
    then have "j \<noteq> i" using assms(3) by auto
    then show ?thesis using j by (intro disjI2 exI [of _ j]) simp
  qed (simp add: assms(5))
qed

lemma rebalance_idle_step:
  assumes "rebalance_ok sh ag" "\<not> responsible (ag ! i)" "sh_room sh' = sh_room sh"
    "sh_waiting_total sh' = sh_waiting_total sh"
  shows "rebalance_ok sh' (ag[i := p])"
  unfolding rebalance_ok_def
proof
  assume "0 < sh_room sh' \<and> 0 < sh_waiting_total sh'"
  then obtain j where j: "j < length ag" "responsible (ag ! j)"
    using assms(1,3,4) by (auto simp: rebalance_ok_def)
  then have "j \<noteq> i" using assms(2) by auto
  then show "\<exists>j. j < length (ag[i := p]) \<and> responsible (ag[i := p] ! j)" using j by (intro exI [of _ j]) simp
qed

lemma sender_cmd_inv:
  assumes "mail_inv Q \<lparr>ms_shared = sh, ms_agents = ag\<rparr>" "i < length ag" "ag ! i = Res u" "quiet_pc (ag ! i) p"
    and "held p = held (ag ! i)" "tx_side p" "cas_ok p" "\<not> responsible (ag ! i)" "\<And>v. p \<noteq> Rx v"
    and "\<And>w l. p \<noteq> Res (Parked w l)" "lane_known sh p"
  shows "mail_inv Q \<lparr>ms_shared = sh, ms_agents = ag[i := p]\<rparr>"
proof -
  note inv = assms(1) [unfolded mail_inv_eq, simplified]
  have i: "0 < i" "\<not> rx_side (ag ! i)" using inv assms(3) by (cases "i = 0"; simp add: sides_ok_def)+
  then have rx: "ag[i := p] ! 0 = ag ! 0" by simp
  have keep: "some_agent P ag \<Longrightarrow> some_agent P (ag[i := p])" if "\<not> P (Res u)" for P :: "'a pc \<Rightarrow> bool"
    by (erule some_agent_keep [OF _ assms(2)]) (use that assms(3) in simp)
  have "reader_ok v sh (ag[i := p])" if "reader_ok v sh ag" for v
    using that keep [of is_waking] keep [of is_taking] keep [of will_wake] by (cases v) auto
  moreover have "rebalance_ok sh (ag[i := p])"
    using inv assms(8) by (intro rebalance_idle_step [of sh]) auto
  moreover have "waiters_woken sh (ag[i := p])"
    using inv assms(2,3,10) by (intro woken_idle_step [of sh]) auto
  ultimately show ?thesis
    using inv i rx quiet_step [OF _ assms(2,4), of sh sh] sides_step [OF _ assms(2) _ _ assms(7)] assms(6)
      units_quiet [OF _ assms(2) _ assms(4), of Q sh sh] assms(5) lane_known_step [of ag sh sh p _ i] assms(11)
    by (simp add: mail_inv_eq closer_ok_def quiet_sh_def)
qed

lemma receiver_cmd_inv:
  assumes "mail_inv Q \<lparr>ms_shared = sh, ms_agents = ag\<rparr>" "i < length ag" "ag ! i = Rx u"
    and "sh' = sh \<or> sh' = sh\<lparr>sh_reader_woken := False\<rparr>"
    and "(\<exists>w. p = Rx (RxPoll w)) \<or> p = Rx RxTake \<or> (\<exists>f. p = Close (CloseFlag f))"
  shows "mail_inv Q \<lparr>ms_shared = sh', ms_agents = ag[i := p]\<rparr>"
proof -
  note inv = assms(1) [unfolded mail_inv_eq, simplified]
  have i: "i = 0" using inv assms(2,3) by (cases "i = 0") (auto simp: sides_ok_def)
  have q: "quiet_pc (Rx u) p" "quiet_sh sh sh'" "held p = 0" "\<forall>v. p = Rx v \<longrightarrow> reader_ok v sh' ag'"
    "cas_ok p" "rx_side p" "sh_closed sh' = sh_closed sh" "sh_room sh' = sh_room sh" "sh_queue sh' = sh_queue sh"
    "sh_capacity sh' = sh_capacity sh" "sh_woken sh' = sh_woken sh" for ag'
    using assms(4,5) by (auto simp: quiet_pc_def quiet_sh_def)
  have same: "wl sh' = wl sh" "sh_state sh' = sh_state sh" "sh_waiting_total sh' = sh_waiting_total sh"
    using q(2) lane_views_same(1) [of sh' sh] by (simp_all add: quiet_sh_def)
  have "rebalance_ok sh' (ag[i := p])"
    using inv assms(3) by (intro rebalance_idle_step [of sh]) (auto simp: q same)
  moreover have "waiters_woken sh' (ag[i := p])"
    using inv assms(2,3,5) by (intro woken_idle_step [of sh]) (auto simp: q same)
  moreover have "closer_ok sh' (ag[i := p])"
    using inv assms(3) i by (auto simp: closer_ok_def q same)
  moreover have "sides_ok (ag[i := p])"
    using inv i q(5,6) assms(2) by (auto simp: sides_ok_def nth_list_update)
  moreover have "structure_ok sh' (ag[i := p])"
    using quiet_step [OF _ assms(2) _ q(2), of p] q(1) inv assms(3) by simp
  moreover have "units_ok Q sh' (ag[i := p])"
    using units_quiet [OF _ assms(2) _ _ q(2), of Q p] q assms(3) inv by simp
  moreover have "lane_known sh' p" using assms(5) by (auto simp: lane_known_def)
  then have "lane_known sh' (ag[i := p] ! j)" if "j < length ag" for j
    using lane_known_step [of ag sh sh' p j i] inv that q(2) by (simp add: quiet_sh_def)
  ultimately show ?thesis
    using q(4) [of "ag[i := p]"] i assms(2) by (auto simp: mail_inv_eq)
qed

lemma cmd_inv:
  assumes "mail_inv Q s"
  shows "mail_inv Q (mail_step Q s (Cmd i k))"
proof (cases "i < length (ms_agents s)")
  case True
  obtain p sh' where cmd: "agent_cmd k (ms_agents s ! i) (ms_shared s) = (p, sh')"
    by (cases "agent_cmd k (ms_agents s ! i) (ms_shared s)")
  have s: "mail_inv Q \<lparr>ms_shared = ms_shared s, ms_agents = ms_agents s\<rparr>"
    using assms by (simp add: mail_inv_eq)
  have "mail_inv Q \<lparr>ms_shared = sh', ms_agents = (ms_agents s)[i := p]\<rparr>"
    using cmd
  proof (cases rule: cmd_cases)
    case Keep
    then show ?thesis using s by simp
  next
    case (Sender u)
    have "lanes_ok (ms_shared s) (ms_agents s)" "lane_known (ms_shared s) (ms_agents s ! i)"
      using assms True by (simp_all add: mail_inv_eq structure_ok_def)
    then have "lane_known (ms_shared s) p"
      using Sender(10) unfolding lanes_ok_def by linarith
    then show ?thesis using Sender sender_cmd_inv [OF s True Sender(1)] by simp
  next
    case (Receiver u)
    then show ?thesis using receiver_cmd_inv [OF s True Receiver(1)] by simp
  qed
  then show ?thesis using True cmd by simp
qed (use assms in simp)


text \<open>A new agent takes part in nothing yet.\<close>

definition fresh_pc :: "'m pc \<Rightarrow> bool" where
  "fresh_pc q \<longleftrightarrow> q = Res Fresh \<or> (\<exists>m. q = Push (TryRead m)) \<or> q = TxDrop"

lemma fresh_pcD:
  assumes "fresh_pc q"
  shows "waits q = None" "settled q = None" "holds q = None" "lane_debt q = 0" "total_debt q = 0" "\<not> pushing q"
    "held q = 0" "owes q = []" "tx_side q" "cas_ok q" "\<And>w l. q \<noteq> Res (Parked w l)" "lane_known sh q"
  using assms by (auto simp: fresh_pc_def lane_known_def)

lemma structure_append:
  assumes "structure_ok sh ag" "fresh_pc q"
  shows "structure_ok sh (ag @ [q])"
proof -
  note q = fresh_pcD [OF assms(2)]
  have "lists_ok (wl sh) (sh_state sh) (ag @ [q])"
  proof (rule lists_okI)
    fix l j v assume "(j, v) \<in> set (wl sh l)"
    then show "j < length (ag @ [q]) \<and> waits ((ag @ [q]) ! j) = Some l \<and> sh_state sh j = WAITING"
      using lists_okD(2) [OF structure_lists [OF assms(1)], of j v l] by (simp add: nth_append)
  next
    fix i l assume "i < length (ag @ [q])" "waits ((ag @ [q]) ! i) = Some l" "sh_state sh i = WAITING"
    then show "\<exists>v. (i, v) \<in> set (wl sh l)"
      using lists_okD(3) [OF structure_lists [OF assms(1)], of i l] q(1) by (auto simp: nth_append split: if_splits)
  next
    fix i l v assume "i < length (ag @ [q])" "waits ((ag @ [q]) ! i) = Some l" "settled ((ag @ [q]) ! i) = Some v"
      "sh_state sh i = WAITING"
    then show "(i, v) \<in> set (wl sh l)"
      using lists_okD(4) [OF structure_lists [OF assms(1)], of i l v] q(1) by (auto simp: nth_append split: if_splits)
  qed (rule lists_okD(1) [OF structure_lists [OF assms(1)]])
  moreover have "locks_ok (lk sh) (sh_state sh) (ag @ [q])"
  proof -
    have at: "i < length (ag @ [q]) \<and> holds ((ag @ [q]) ! i) = Some l \<longleftrightarrow> i < length ag \<and> holds (ag ! i) = Some l" for i l
      using q(3) by (auto simp: nth_append)
    have push: "i < length (ag @ [q]) \<and> pushing ((ag @ [q]) ! i) \<longleftrightarrow> i < length ag \<and> pushing (ag ! i)" for i
      using q(6) by (auto simp: nth_append)
    have locks: "locks_ok (lk sh) (sh_state sh) ag" using assms(1) by (simp add: structure_ok_def)
    show ?thesis
      unfolding locks_ok_def at push
    proof (intro conjI allI impI)
      fix i j l
      assume ij: "i < length (ag @ [q]) \<and> j < length (ag @ [q]) \<and>
        holds ((ag @ [q]) ! i) = Some l \<and> holds ((ag @ [q]) ! j) = Some l"
      then show "i = j"
        using at [of i l] at [of j l] locks unfolding locks_ok_def by blast
    qed (use locks in \<open>auto simp: locks_ok_def\<close>)
  qed
  moreover have "counts_ok (wl sh) (wc sh) (lk sh) (sh_waiting_total sh) (sh_lane_count sh) (ag @ [q])"
  proof -
    have "(\<Sum>i\<in>{..<length ag}. total_debt ((ag @ [q]) ! i)) = (\<Sum>i\<in>{..<length ag}. total_debt (ag ! i))"
      by (rule sum.cong) (auto simp: nth_append)
    then show ?thesis
      using assms(1) q(3,5) unfolding structure_ok_def counts_ok_def by (simp add: nth_append) (auto simp: less_Suc_eq)
  qed
  ultimately show ?thesis using assms(1) by (simp add: structure_ok_def lanes_ok_def)
qed

lemma ex_agent_append:
  assumes "i < length ag" "P (ag ! i)"
  shows "\<exists>j. j < length (ag @ [q]) \<and> P ((ag @ [q]) ! j)"
  using assms by (intro exI [of _ i]) (simp add: nth_append)

lemma new_agent_inv:
  assumes "mail_inv Q s" "fresh_pc q"
  shows "mail_inv Q (s\<lparr>ms_agents := ms_agents s @ [q]\<rparr>)"
proof -
  note inv = assms(1) [unfolded mail_inv_eq]
  note q = fresh_pcD [OF assms(2)]
  let ?ag = "ms_agents s"
  have ne: "?ag \<noteq> []" using inv by (simp add: sides_ok_def)
  have "(\<Sum>i\<in>{..<length ?ag}. held ((?ag @ [q]) ! i)) = (\<Sum>i\<in>{..<length ?ag}. held (?ag ! i))"
    by (rule sum.cong) (auto simp: nth_append)
  moreover have "granted (sh_state (ms_shared s)) (?ag @ [q]) = granted (sh_state (ms_shared s)) ?ag"
    using q(1) by (simp add: granted_def nth_append)
  ultimately have "units_ok Q (ms_shared s) (?ag @ [q])"
    using inv q(7) by (simp add: units_ok_def)
  moreover have "sides_ok (?ag @ [q])"
    using inv q(9,10) by (auto simp: sides_ok_def nth_append)
  moreover have "rebalance_ok (ms_shared s) (?ag @ [q])"
    using inv ex_agent_append [of _ ?ag responsible q] unfolding rebalance_ok_def by blast
  moreover have "waiters_woken (ms_shared s) (?ag @ [q])"
    unfolding waiters_woken_def
  proof (intro allI impI)
    fix k w l
    assume "k < length (?ag @ [q]) \<and> (?ag @ [q]) ! k = Res (Parked w l) \<and> sh_state (ms_shared s) k \<noteq> WAITING"
    then have "k < length ?ag \<and> ?ag ! k = Res (Parked w l) \<and> sh_state (ms_shared s) k \<noteq> WAITING"
      using q(11) by (auto simp: nth_append split: if_splits)
    then show "(k, w) \<in> set (sh_woken (ms_shared s)) \<or>
        (\<exists>j. j < length (?ag @ [q]) \<and> (k, w) \<in> set (owes ((?ag @ [q]) ! j)))"
      using inv ex_agent_append [of _ ?ag "\<lambda>p. (k, w) \<in> set (owes p)" q] unfolding waiters_woken_def by blast
  qed
  moreover have "closer_ok (ms_shared s) (?ag @ [q])"
    using inv ne by (simp add: closer_ok_def nth_append)
  moreover have "reader_ok v (ms_shared s) (?ag @ [q])" if "reader_ok v (ms_shared s) ?ag" for v
  proof -
    have "some_agent P (?ag @ [q])" if some: "some_agent P ?ag" for P
    proof -
      obtain j where "0 < j" "j < length ?ag" "P (?ag ! j)" using some by (auto simp: some_agent_def)
      then show ?thesis unfolding some_agent_def by (intro exI [of _ j]) (simp add: nth_append)
    qed
    then show ?thesis using that by (cases v) auto
  qed
  ultimately show ?thesis
    using inv ne structure_append [OF _ assms(2), of "ms_shared s" ?ag] q(12)
    by (auto simp: mail_inv_eq nth_append less_Suc_eq)
qed


lemma mail_step_inv:
  assumes "mail_inv Q s" "queue_laws Q"
  shows "mail_inv Q (mail_step Q s op)"
proof (cases op)
  case (Go i c)
  then show ?thesis using go_inv [OF assms] by simp
next
  case (Cmd i k)
  then show ?thesis using cmd_inv [OF assms(1)] by simp
next
  case NewReserve
  then show ?thesis using assms(1) new_agent_inv [OF assms(1), of "Res Fresh"] by (simp add: fresh_pc_def)
next
  case (NewTrySend m)
  then show ?thesis using assms(1) new_agent_inv [OF assms(1), of "Push (TryRead m)"] by (simp add: fresh_pc_def)
next
  case DropTx
  then show ?thesis using assms(1) new_agent_inv [OF assms(1), of TxDrop] by (simp add: fresh_pc_def)
next
  case CloneTx
  have "reader_ok v (ms_shared s) ag \<Longrightarrow>
      reader_ok v (ms_shared s\<lparr>sh_tx_count := n\<rparr>) ag" for v n and ag :: "'a pc list"
    by (cases v) auto
  then have "mail_inv Q (s\<lparr>ms_shared := (ms_shared s)\<lparr>sh_tx_count := n\<rparr>\<rparr>)" for n
    using assms(1)
    by (auto simp: mail_inv_eq structure_ok_def lanes_ok_def units_ok_def rebalance_ok_def waiters_woken_def closer_ok_def
        lane_known_def grant_lane_def)
  then show ?thesis using CloneTx assms(1) by simp
qed

lemma channel_inv:
  assumes "channel capacity lanes queue = Some s" "q_items Q queue = []"
  shows "mail_inv Q s"
proof -
  define n where "n = max 1 (min lanes mailbox_lanes)"
  have s: "s = \<lparr>ms_shared = shared_new capacity n queue, ms_agents = [Rx RxIdle]\<rparr>"
    using assms(1) by (simp add: channel_def n_def split: if_splits)
  have views: "wl (shared_new capacity n queue) = (\<lambda>_. [])" "wc (shared_new capacity n queue) = (\<lambda>_. 0)"
    "lk (shared_new capacity n queue) = (\<lambda>_. False)"
    by (auto simp: wl_def wc_def lk_def shared_new_def lane_new_def fun_eq_iff)
  show ?thesis
    using assms(2) by (simp add: s mail_inv_eq structure_ok_def lists_ok_def locks_ok_def counts_ok_def units_ok_def
        granted_def rebalance_ok_def waiters_woken_def closer_ok_def sides_ok_def views lane_known_def lanes_ok_def)
      (auto simp: shared_new_def n_def intro: gr0I)
qed

text \<open>The machine of a mailbox, for every queue that keeps the laws.\<close>

lemma mail_machine: "queue_laws Q \<Longrightarrow> invariant_machine (mail_step Q) (mail_inv Q)"
  by (simp add: invariant_machine_def mail_step_inv)

lemma mail_run_inv:
  assumes "queue_laws Q" "channel capacity lanes queue = Some s" "q_items Q queue = []"
  shows "mail_inv Q (run (mail_step Q) s ops)"
  using invariant_machine.run_inv [OF mail_machine [OF assms(1)]] channel_inv [OF assms(2,3)] by blast

end
