(* ===== verification/Mailbox_Props.thy ===== *)
theory Mailbox_Props
  imports Mailbox_Safety
begin

text \<open>
  The mailbox's properties, for every number of senders, every interleaving of their atomic accesses with the
  receiver's, and every queue that keeps the laws of \<open>queue_laws\<close>.  A list with a closed flag is such a
  queue; the witnesses run the machine on it.
\<close>

section \<open>Rest\<close>

text \<open>An agent at rest waits for its owner; a reservation or a receiver that sleeps waits to be woken.\<close>

fun at_rest :: "'m pc \<Rightarrow> bool" where
  "at_rest (Res Fresh) = True"
| "at_rest (Res (Parked _ _)) = True"
| "at_rest (Res HasPermit) = True"
| "at_rest (Rx RxIdle) = True"
| "at_rest (Rx RxWaits) = True"
| "at_rest (Rx RxAsleep) = True"
| "at_rest Done = True"
| "at_rest _ = False"

definition quiescent :: "('m, 'q) mail_state \<Rightarrow> bool" where
  "quiescent s \<longleftrightarrow> list_all at_rest (ms_agents s)"

lemma at_rest_pc:
  assumes "at_rest p"
  shows "holds p = None" "total_debt p = 0" "\<not> responsible p" "owes p = []" "closing p = None" "\<not> will_wake p"
  using assms by (cases p rule: at_rest.cases; simp)+

section \<open>The list queue\<close>

definition list_queue :: "('m, 'm list \<times> bool) queue_ops" where
  "list_queue =
     \<lparr>q_items = fst,
      q_admit = (\<lambda>q. (\<not> snd q, q)),
      q_land = (\<lambda>m q. (fst q @ [m], snd q)),
      q_take = (\<lambda>q. case fst q of [] \<Rightarrow> (None, q) | m # ms \<Rightarrow> (Some m, ms, snd q)),
      q_close = (\<lambda>q. (fst q, True)),
      q_over = (\<lambda>q. snd q \<and> fst q = [])\<rparr>"

lemma list_queue_laws: "queue_laws list_queue"
  unfolding queue_laws_def list_queue_def by (auto split: list.splits) (metis list.exhaust)

section \<open>Units\<close>

lemma mail_step_capacity: "sh_capacity (ms_shared (mail_step Q s op)) = sh_capacity (ms_shared s)"
proof (cases op)
  case (Go i c)
  obtain p sh' where go: "agent_go Q c i (ms_agents s ! i) (ms_shared s) = (p, sh')"
    by (cases "agent_go Q c i (ms_agents s ! i) (ms_shared s)")
  show ?thesis using Go agent_capacity [OF go] by (simp add: go)
next
  case (Cmd i k)
  have "sh_capacity (snd (agent_cmd k (ms_agents s ! i) (ms_shared s))) = sh_capacity (ms_shared s)"
    by (cases k) (auto split: pc.splits)
  then show ?thesis using Cmd by (simp add: case_prod_beta)
qed simp_all

lemma mail_run_capacity:
  assumes "channel capacity lanes queue = Some s"
  shows "sh_capacity (ms_shared (run (mail_step Q) s ops)) = capacity"
proof -
  have "sh_capacity (ms_shared (run (mail_step Q) t ops)) = sh_capacity (ms_shared t)" for t
    by (induction ops arbitrary: t) (simp_all add: mail_step_capacity)
  then show ?thesis
    using assms by (auto simp: channel_def shared_new_def split: if_splits)
qed

text \<open>
  C3.  The mailbox neither loses nor makes up a unit.  At every moment the free units, the queued messages, the units
  agents hold (permits, sends under way, units being returned) and the units granted to sleeping reservations add up
  to the capacity.  So the queue never holds more messages than the capacity.
\<close>

theorem mailbox_units_exact:
  assumes "queue_laws Q" "channel capacity lanes queue = Some s" "q_items Q queue = []"
  shows "let t = run (mail_step Q) s ops; sh = ms_shared t; ag = ms_agents t in
    sh_room sh + length (q_items Q (sh_queue sh)) + sum_list (map held ag) + granted (sh_state sh) ag = capacity"
proof -
  have "(\<Sum>i\<in>{..<length ag}. held (ag ! i)) = sum_list (map held ag)" for ag :: "'a pc list"
    by (simp add: sum_list_sum_nth atLeast0LessThan)
  then show ?thesis
    using mail_run_inv [OF assms, of ops] mail_run_capacity [OF assms(2), of Q ops]
    by (simp add: mail_inv_eq units_ok_def Let_def)
qed

abbreviation example_mail :: "nat mail_op list \<Rightarrow> (nat, nat list \<times> bool) mail_state" where
  "example_mail ops \<equiv>
     run (mail_step list_queue) \<lparr>ms_shared = shared_new 1 1 ([], False), ms_agents = [Rx RxIdle]\<rparr> ops"

lemma example_channel:
  "channel 1 1 ([] :: nat list, False) = Some \<lparr>ms_shared = shared_new 1 1 ([], False), ms_agents = [Rx RxIdle]\<rparr>"
  by (simp add: channel_def mailbox_lanes_def)

text \<open>A message sent into a mailbox of one unit.\<close>

definition one_sent :: "nat mail_op list" where
  "one_sent = NewTrySend 7 # replicate 5 (Go 1 False)"

lemma one_sent_state:
  "ms_agents (example_mail one_sent) = [Rx RxIdle, Done]"
  "sh_room (ms_shared (example_mail one_sent)) = 0"
  "sh_queue (ms_shared (example_mail one_sent)) = ([7], False)"
  by (simp_all add: one_sent_def numeral_eq_Suc shared_new_def list_queue_def no_sender_def)

theorem mailbox_units_exact_witness:
  "sh_room (ms_shared (example_mail one_sent)) + length (fst (sh_queue (ms_shared (example_mail one_sent)))) = 1 \<and>
   fst (sh_queue (ms_shared (example_mail one_sent))) = [7]"
  using mailbox_units_exact [OF list_queue_laws example_channel, of one_sent] one_sent_state
  by (simp add: Let_def granted_def list_queue_def lessThan_Suc)


section \<open>Sleepers\<close>

lemma quiescentD: "quiescent s \<Longrightarrow> i < length (ms_agents s) \<Longrightarrow> at_rest (ms_agents s ! i)"
  by (simp add: quiescent_def list_all_length)

text \<open>At rest the total counts exactly the entries of the lists.\<close>

lemma quiescent_total:
  assumes "structure_ok (ms_shared s) (ms_agents s)" "quiescent s" "wl (ms_shared s) l \<noteq> []"
  shows "0 < sh_waiting_total (ms_shared s)"
proof -
  let ?sh = "ms_shared s"
  have "(\<Sum>i\<in>{..<length (ms_agents s)}. total_debt (ms_agents s ! i)) = 0"
    using quiescentD [OF assms(2)] at_rest_pc(2) by (intro sum.neutral) blast
  then have tot: "int (sh_waiting_total ?sh) = (\<Sum>l\<in>{..<sh_lane_count ?sh}. int (length (wl ?sh l)))"
    using assms(1) by (simp add: structure_ok_def counts_ok_def)
  have "l < sh_lane_count ?sh"
    using assms(1,3) by (auto simp: wl_def structure_ok_def lanes_ok_def split: if_splits)
  then have "int (length (wl ?sh l)) \<le> (\<Sum>l\<in>{..<sh_lane_count ?sh}. int (length (wl ?sh l)))"
    by (intro member_le_sum) auto
  moreover have "0 < length (wl ?sh l)" using assms(3) by simp
  ultimately show ?thesis using tot by linarith
qed

text \<open>
  C4.  No unit sleeps beside a sleeping sender, and no sender is forgotten.  Once every agent rests, a reservation that
  is still waiting faces a mailbox without a free unit that is not closed; and a reservation whose wait is over, by a
  grant or by the close, has been woken with the waker of its last poll.
\<close>

theorem no_sender_forgotten:
  assumes "queue_laws Q" "channel capacity lanes queue = Some s" "q_items Q queue = []"
    and "t = run (mail_step Q) s ops" "quiescent t" "i < length (ms_agents t)" "ms_agents t ! i = Res (Parked w l)"
  shows "(if sh_state (ms_shared t) i = WAITING then sh_room (ms_shared t) = 0 \<and> \<not> sh_closed (ms_shared t)
    else (i, w) \<in> set (sh_woken (ms_shared t)))"
proof -
  have inv: "mail_inv Q t" using mail_run_inv [OF assms(1-3)] assms(4) by simp
  note inv = inv [unfolded mail_inv_eq]
  have rest: "at_rest (ms_agents t ! j)" if "j < length (ms_agents t)" for j
    by (rule quiescentD [OF assms(5) that])
  show ?thesis
  proof (cases "sh_state (ms_shared t) i = WAITING")
    case True
    obtain v where "(i, v) \<in> set (wl (ms_shared t) l)"
      using lists_okD(3) [OF structure_lists, of "ms_shared t" "ms_agents t" i l] inv assms(6,7) True by auto
    then have wl: "wl (ms_shared t) l \<noteq> []" by auto
    then have "0 < sh_waiting_total (ms_shared t)" using quiescent_total assms(5) inv by blast
    moreover have "\<not> responsible (ms_agents t ! j)" if "j < length (ms_agents t)" for j
      using at_rest_pc(3) rest [OF that] by blast
    ultimately have "sh_room (ms_shared t) = 0" using inv by (auto simp: rebalance_ok_def)
    moreover have "closing (ms_agents t ! 0) = None"
      using at_rest_pc(5) rest [of 0] assms(6) by (cases "ms_agents t") auto
    then have "\<not> sh_closed (ms_shared t)" using inv wl by (auto simp: closer_ok_def)
    ultimately show ?thesis using True by simp
  next
    case False
    have none: "owes (ms_agents t ! j) = []" if "j < length (ms_agents t)" for j
      using at_rest_pc(4) rest [OF that] by blast
    have "waiters_woken (ms_shared t) (ms_agents t)" using inv by blast
    then have "(i, w) \<in> set (sh_woken (ms_shared t)) \<or>
        (\<exists>j. j < length (ms_agents t) \<and> (i, w) \<in> set (owes (ms_agents t ! j)))"
      unfolding waiters_woken_def using assms(6,7) False by blast
    then show ?thesis using none False by auto
  qed
qed

text \<open>A reservation parks on the full mailbox; the receiver takes the message and grants it the unit.\<close>

definition one_granted :: "nat mail_op list" where
  "one_granted = one_sent @ [NewReserve, Cmd 2 (PollReserve 5 0)] @ replicate 10 (Go 2 False) @
     [Cmd 0 TryRecv] @ replicate 8 (Go 0 False)"

lemma one_granted_state:
  "ms_agents (example_mail one_granted) = [Rx RxIdle, Done, Res (Parked 5 0)]"
  "sh_state (ms_shared (example_mail one_granted)) 2 = GRANTED"
  by (simp_all add: one_granted_def one_sent_def numeral_eq_Suc shared_new_def list_queue_def no_sender_def wait_lane_def
      lane_or_init_def lane_free_def on_lane_def try_lane_def lane_new_def grant_lane_def rx_rests_def)

theorem no_sender_forgotten_witness:
  "(2, 5) \<in> set (sh_woken (ms_shared (example_mail one_granted)))"
  using no_sender_forgotten [OF list_queue_laws example_channel _ refl, of one_granted 2 5 0] one_granted_state
  by (simp add: quiescent_def list_queue_def numeral_eq_Suc)

text \<open>
  C5.  A receiver that waits for the units of a closed mailbox is not forgotten: once every agent rests and every unit
  is back in the room, the receiver has been woken since its last poll.
\<close>

theorem receiver_not_forgotten:
  assumes "queue_laws Q" "channel capacity lanes queue = Some s" "q_items Q queue = []"
    and "t = run (mail_step Q) s ops" "quiescent t" "ms_agents t ! 0 = Rx RxAsleep" "sh_room (ms_shared t) = capacity"
  shows "sh_reader_woken (ms_shared t)"
proof -
  have inv: "mail_inv Q t" using mail_run_inv [OF assms(1-3)] assms(4) by simp
  have "reader_ok RxAsleep (ms_shared t) (ms_agents t)" using inv assms(6) by (simp add: mail_inv_eq)
  moreover have "sh_room (ms_shared t) = sh_capacity (ms_shared t)"
    using mail_run_capacity [OF assms(2)] assms(4,7) by simp
  moreover have "\<not> some_agent will_wake (ms_agents t)"
    using quiescentD [OF assms(5)] at_rest_pc(6) by (auto simp: some_agent_def)
  ultimately show ?thesis by simp
qed

text \<open>A sender holds the unit while the receiver closes the mailbox and goes to sleep; then the permit is dropped.\<close>

definition one_returned :: "nat mail_op list" where
  "one_returned = [NewReserve, Cmd 1 (PollReserve 5 0)] @ replicate 3 (Go 1 False) @
     [Cmd 0 (CloseRx CloseOnly)] @ replicate 6 (Go 0 False) @ [Cmd 0 (PollRecv 9)] @ replicate 5 (Go 0 False) @
     [Cmd 1 DropPermit] @ replicate 8 (Go 1 False)"

lemma one_returned_state:
  "ms_agents (example_mail one_returned) = [Rx RxAsleep, Done]" "sh_room (ms_shared (example_mail one_returned)) = 1"
  by (simp_all add: one_returned_def numeral_eq_Suc shared_new_def list_queue_def no_sender_def wait_lane_def
      lane_or_init_def lane_free_def on_lane_def try_lane_def lane_new_def rx_rests_def ended_def)

theorem receiver_not_forgotten_witness:
  "sh_reader_woken (ms_shared (example_mail one_returned))"
  using receiver_not_forgotten [OF list_queue_laws example_channel _ refl, of one_returned] one_returned_state
  by (simp add: quiescent_def list_queue_def)


section \<open>Progress\<close>

lemma ends_move:
  "rel_end r \<noteq> Unit u" "reb_end a \<noteq> Unit (RebRead b)" "reb_end a \<noteq> Unit (RebLoad b)" "reb_end a \<noteq> Unit (RebCas b n)"
  "wake_end v \<noteq> Wake x" "close_end f \<noteq> Close (CloseLane g l)"
proof -
  show "rel_end r \<noteq> Unit u" by (cases r) simp_all
  show "reb_end a \<noteq> Unit (RebRead b)" "reb_end a \<noteq> Unit (RebLoad b)" "reb_end a \<noteq> Unit (RebCas b n)" by (cases a; simp)+
  show "wake_end v \<noteq> Wake x" by (cases v) simp_all
  show "close_end f \<noteq> Close (CloseLane g l)" by (cases f) simp_all
qed

text \<open>An agent that holds a lock moves, and an agent that does not move waits for a lock.\<close>

lemma holder_moves: "holds p = Some l \<Longrightarrow> fst (agent_go Q c i p sh) \<noteq> p \<and> \<not> at_rest p"
  by (cases p rule: holds.cases) auto

lemma agent_moves:
  assumes "\<not> at_rest p" "lane_known sh p" "agent_go Q False i p sh = (p, sh)"
  shows "\<exists>l. lk sh l"
proof (cases p)
  case (Res u)
  then show ?thesis
    using assms
    by (cases u) (auto simp: lane_known_def lane_free_def lk_def split: if_splits wait_state.splits)
next
  case (Push u)
  then show ?thesis using assms(3) by (cases u) (auto split: if_splits prod.splits)
next
  case (Unit u)
  then show ?thesis using assms(3) by (cases u) (auto simp: ends_move split: if_splits)
next
  case (Grant u)
  then show ?thesis
    using assms(2,3)
    by (cases u) (auto simp: lane_known_def lane_free_def lk_def Let_def split: if_splits list.splits option.splits)
next
  case (Wake u)
  then show ?thesis using assms(3) by (cases u) (auto simp: ends_move split: if_splits)
next
  case (Close u)
  then show ?thesis
    using assms(3)
    by (cases u) (auto simp: ends_move close_go_wake try_lane_def lk_def split: if_splits list.splits option.splits prod.splits)
next
  case (Rx u)
  then show ?thesis using assms(1,3) by (cases u) (auto split: if_splits option.splits prod.splits)
qed (use assms in \<open>auto split: if_splits\<close>)

text \<open>
  C35.  The mailbox never deadlocks: whenever some agent is in the middle of an operation, an agent in the middle of an
  operation can perform its next access and gets further.
\<close>

theorem mailbox_never_stuck:
  assumes "queue_laws Q" "channel capacity lanes queue = Some s" "q_items Q queue = []"
    and "t = run (mail_step Q) s ops" "\<not> quiescent t"
  shows "\<exists>i. i < length (ms_agents t) \<and> \<not> at_rest (ms_agents t ! i) \<and> mail_step Q t (Go i False) \<noteq> t"
proof -
  have inv: "mail_inv Q t" using mail_run_inv [OF assms(1-3)] assms(4) by simp
  obtain i where i: "i < length (ms_agents t)" "\<not> at_rest (ms_agents t ! i)"
    using assms(5) by (auto simp: quiescent_def list_all_length)
  have same: "agent_go Q False j (ms_agents t ! j) (ms_shared t) = (ms_agents t ! j, ms_shared t)"
    if "j < length (ms_agents t)" "mail_step Q t (Go j False) = t" for j
    using that by (cases t) (auto split: prod.splits simp: list_update_same_conv)
  show ?thesis
  proof (cases "mail_step Q t (Go i False) = t")
    case False
    then show ?thesis using i by blast
  next
    case True
    have "lane_known (ms_shared t) (ms_agents t ! i)" using inv i(1) by (simp add: mail_inv_eq)
    then obtain l where "lk (ms_shared t) l" using agent_moves [OF i(2)] same [OF i(1) True] by blast
    then obtain j where j: "j < length (ms_agents t)" "holds (ms_agents t ! j) = Some l"
      using inv unfolding mail_inv_eq structure_ok_def locks_ok_def by blast
    have "mail_step Q t (Go j False) \<noteq> t"
      using same [OF j(1)] holder_moves [OF j(2), of Q False j "ms_shared t"] by fastforce
    then show ?thesis using j holder_moves [OF j(2)] by blast
  qed
qed

lemma started_state: "ms_agents (example_mail [NewTrySend 7, Go 1 False]) = [Rx RxIdle, Push (TryLoad 7)]"
  by (simp add: shared_new_def no_sender_def)

theorem mailbox_never_stuck_witness:
  "mail_step list_queue (example_mail [NewTrySend 7, Go 1 False]) (Go 1 False) \<noteq> example_mail [NewTrySend 7, Go 1 False]"
proof -
  have "\<not> quiescent (example_mail [NewTrySend 7, Go 1 False])"
    by (simp only: quiescent_def started_state) simp
  then obtain i where "i < length (ms_agents (example_mail [NewTrySend 7, Go 1 False]))"
    "\<not> at_rest (ms_agents (example_mail [NewTrySend 7, Go 1 False]) ! i)"
    "mail_step list_queue (example_mail [NewTrySend 7, Go 1 False]) (Go i False) \<noteq> example_mail [NewTrySend 7, Go 1 False]"
    using mailbox_never_stuck [OF list_queue_laws example_channel _ refl, of "[NewTrySend 7, Go 1 False]"]
    by (auto simp: list_queue_def)
  moreover from this(1,2) have "i = 1" unfolding started_state by (auto simp: less_Suc_eq)
  ultimately show ?thesis by blast
qed

end
