(* ===== verification/Final_Drain.thy ===== *)
theory Final_Drain
  imports Supervision_Loop
begin

text \<open>
  What a supervisor does with the ends still pending when its message loop ended (\<open>collect_final\<close>, \<open>final_drain\<close> and
  what they call in \<open>src/src/actor/runtime.rs\<close>): every report is collected, then delivered once, between the
  loop and \<open>on_stopped\<close>.

  The collection waits on the two join sets, so it is a machine whose letters are what a wait or a poll of a
  set gives, and what the executors do meanwhile.  A delivery reads the stop lane first; the lane is an
  argument, since other tasks raise on it.
\<close>

section \<open>Records of the collection\<close>

text \<open>The first panic of several drops; a later one is only logged.\<close>

definition keep_first_of :: "string option \<Rightarrow> string option \<Rightarrow> string option" where
  "keep_first_of first later = (case first of None \<Rightarrow> later | Some p \<Rightarrow> Some p)"

record adopted_runner =
  adr_task :: task_id
  adr_ended :: bool

text \<open>
  \<open>record_restart_outcome\<close>: the child and incarnation, the runner of an adopted attempt, the end a failed or stopped
  attempt reports, and the panic kept so far.  The log line of an unexpected end is left out.
\<close>

fun record_restart_outcome ::
  "restart_outcome \<Rightarrow> string option \<Rightarrow> sup_ctx \<Rightarrow>
   (actor_id \<times> u64 \<times> adopted_runner option \<times> stop_reason option) \<times> string option \<times> sup_ctx" where
  "record_restart_outcome (Adopted k n) panic cx =
     (if \<not> attempt_accepted (cx_sup cx) k n then ((k, n, None, None), panic, cx)
      else
        let (tid, cx1) = take_task_id cx;
            sv = adopt_runner tid k n (cx_sup cx1);
            ended = (case sup_child sv k of Some c \<Rightarrow> status_ended (ch_ctl c) | None \<Rightarrow> False)
        in ((k, n, Some \<lparr>adr_task = tid, adr_ended = ended\<rparr>, None), panic, cx1\<lparr>cx_sup := sv\<rparr>))"
| "record_restart_outcome (OutcomeFailed k n reason) panic cx = ((k, n, None, Some reason), panic, cx)"
| "record_restart_outcome (OutcomeStopped k n reason) panic cx = ((k, n, None, Some reason), panic, cx)"
| "record_restart_outcome (OutcomeCancelled k n drop_panic) panic cx =
     ((k, n, None, None), keep_first_of panic drop_panic, on_sup (record_cancelled k n) cx)"
| "record_restart_outcome (PredecessorUnresponsive k n) panic cx =
     ((k, n, None, None), panic, on_sup (record_cancelled k n) cx)"

definition release_barrier :: "actor_id \<Rightarrow> u64 \<Rightarrow> supervision_state \<Rightarrow> supervision_state" where
  "release_barrier k n sv =
     (case ss_pending_group sv of
        Some (GroupStopping g) \<Rightarrow>
          if hget (gr_awaiting g) k = Some n
          then set_stopping (g\<lparr>gr_awaiting := hdel k (gr_awaiting g)\<rparr>) sv else sv
      | _ \<Rightarrow> sv)"

definition record_collected_end :: "actor_id \<Rightarrow> u64 \<Rightarrow> supervision_state \<Rightarrow> supervision_state" where
  "record_collected_end k n sv =
     (let sv1 = (case sup_life sv k of
            Some life \<Rightarrow> if held_token life = n then record_down k n OwesNothing sv else sv
          | None \<Rightarrow> sv);
          sv2 = sv1\<lparr>ss_pending_manual_events := hdel (k, n) (ss_pending_manual_events sv1)\<rparr>
      in release_barrier k n sv2)"

record collected =
  cl_report :: child_stopped_internal
  cl_name :: "string option"

text \<open>
  The name a report is delivered with: the ledger's, else that of a pending snapshot of the end, else the one kept
  with an owed report, which is taken.
\<close>

definition collect_name :: "child_stopped_internal \<Rightarrow> supervision_state \<Rightarrow> string option \<times> supervision_state" where
  "collect_name report sv =
     (let k = csi_child_id report; key = (k, csi_incarnation report) in
      case Option.bind (sup_child sv k) ch_name of
        Some name \<Rightarrow> (Some name, sv)
      | None \<Rightarrow>
          (case Option.bind (hget (ss_pending_manual_events sv) key) ce_child_name of
             Some name \<Rightarrow> (Some name, sv)
           | None \<Rightarrow> (hget (ss_owed_names sv) key, sv\<lparr>ss_owed_names := hdel key (ss_owed_names sv)\<rparr>)))"

definition collect_report ::
  "child_stopped_internal \<Rightarrow> collected list \<times> supervision_state \<Rightarrow> collected list \<times> supervision_state" where
  "collect_report report =
     (\<lambda>(out, sv). case collect_name report sv of
        (name, sv1) \<Rightarrow>
          (out @ [\<lparr>cl_report = report, cl_name = name\<rparr>],
           record_collected_end (csi_child_id report) (csi_incarnation report) sv1))"

section \<open>The collection\<close>

datatype collect_phase = AtRunners | AtAttempts | AtRestartPlane | AtDeathPlane | CollectDone

record collect_state =
  co_cx :: sup_ctx
  co_out :: "collected list"
  co_runners :: "task_id set"
  co_attempts :: "task_id set"
  co_adopted :: "task_id set"
  co_panic :: "string option"
  co_phase :: collect_phase

definition co_collect :: "child_stopped_internal \<Rightarrow> collect_state \<Rightarrow> collect_state" where
  "co_collect report st =
     (case collect_report report (co_out st, cx_sup (co_cx st)) of
        (out, sv) \<Rightarrow> st\<lparr>co_out := out, co_cx := (co_cx st)\<lparr>cx_sup := sv\<rparr>\<rparr>)"

definition collect_restart_outcome :: "restart_outcome \<Rightarrow> collect_state \<Rightarrow> collect_state" where
  "collect_restart_outcome outcome st =
     (case record_restart_outcome outcome (co_panic st) (co_cx st) of
        ((k, n, runner, reason), panic, cx) \<Rightarrow>
          let st1 = st\<lparr>co_panic := panic, co_cx := cx\<rparr>;
              st2 = (case runner of
                  Some r \<Rightarrow> if adr_ended r then st1\<lparr>co_adopted := insert (adr_task r) (co_adopted st1)\<rparr> else st1
                | None \<Rightarrow> st1)
          in (case reason of
                Some r \<Rightarrow> co_collect \<lparr>csi_child_id = k, csi_reason = r, csi_incarnation = n\<rparr> st2
              | None \<Rightarrow> st2))"

text \<open>The owed reports, then the deferred triggers, both emptied.\<close>

definition collect_queues :: "collect_state \<Rightarrow> collect_state" where
  "collect_queues st =
     (let sv = cx_sup (co_cx st);
          st1 = fold co_collect (ss_owed sv) (st\<lparr>co_cx := on_sup (\<lambda>sv. sv\<lparr>ss_owed := []\<rparr>) (co_cx st)\<rparr>);
          queued = ss_queued_triggers (cx_sup (co_cx st1))
      in fold co_collect queued
           (st1\<lparr>co_cx := on_sup (\<lambda>sv. sv\<lparr>ss_queued_triggers := []\<rparr>) (co_cx st1)\<rparr>))"

text \<open>The loops a phase ends: no runner, then no attempt, is left to wait for.\<close>

definition end_attempts :: "collect_state \<Rightarrow> collect_state" where
  "end_attempts st = (collect_queues st)\<lparr>co_phase := AtRestartPlane\<rparr>"

definition end_runners :: "collect_state \<Rightarrow> collect_state" where
  "end_runners st =
     (if co_attempts st = {} then end_attempts st else st\<lparr>co_phase := AtAttempts\<rparr>)"

definition collect_next :: "collect_state \<Rightarrow> collect_state" where
  "collect_next st =
     (case co_phase st of
        AtRunners \<Rightarrow> if co_runners st = {} then end_runners st else st
      | AtAttempts \<Rightarrow> if co_attempts st = {} then end_attempts st else st
      | _ \<Rightarrow> st)"

definition collect_begin :: "string option \<Rightarrow> sup_ctx \<Rightarrow> collect_state" where
  "collect_begin panic cx =
     (case final_await_sets (cx_sup cx) of
        (runners, attempts) \<Rightarrow>
          collect_next \<lparr>co_cx = cx, co_out = [], co_runners = runners, co_attempts = attempts, co_adopted = {},
            co_panic = panic, co_phase = AtRunners\<rparr>)"

text \<open>
  The letters: a task of the death plane or of the restart plane that a wait or a poll gives, finished or failed
  with its panic; a set that gives none; and what happens meanwhile.
\<close>

datatype collect_op =
    CollectDeath task_id child_stopped_internal
  | CollectDeathLost task_id "string option"
  | CollectRestart task_id restart_outcome
  | CollectRestartLost task_id "string option"
  | CollectNone
  | CollectEnv env_op

definition collect_death_lost :: "task_id \<Rightarrow> string option \<Rightarrow> collect_state \<Rightarrow> task_id option \<times> collect_state" where
  "collect_death_lost t payload st =
     (case ctx_lost_death_task t payload (co_cx st) of
        (replacement, cx) \<Rightarrow> (replacement, st\<lparr>co_cx := cx\<rparr>))"

definition collect_restart :: "task_id \<Rightarrow> restart_outcome \<Rightarrow> collect_state \<Rightarrow> collect_state" where
  "collect_restart t outcome st =
     collect_restart_outcome outcome
       (st\<lparr>co_cx := on_sup (join_restart t) (co_cx st), co_attempts := co_attempts st - {t}\<rparr>)"

definition collect_restart_lost :: "task_id \<Rightarrow> string option \<Rightarrow> collect_state \<Rightarrow> collect_state" where
  "collect_restart_lost t payload st =
     (case ctx_lost_restart_task t payload (co_cx st) of
        (outcome, replacement, cx) \<Rightarrow>
          let st1 = st\<lparr>co_cx := cx, co_attempts := co_attempts st - {t},
                co_adopted := co_adopted st \<union> set_option replacement\<rparr>
          in (case outcome of Some out \<Rightarrow> collect_restart_outcome out st1 | None \<Rightarrow> st1))"

fun collect_step :: "collect_state \<Rightarrow> collect_op \<Rightarrow> collect_state" where
  "collect_step st (CollectDeath t report) =
     (case co_phase st of
        AtRunners \<Rightarrow>
          collect_next (co_collect report
            (st\<lparr>co_cx := on_sup (join_death t) (co_cx st), co_runners := co_runners st - {t}\<rparr>))
      | AtDeathPlane \<Rightarrow>
          co_collect report (st\<lparr>co_cx := on_sup (join_death t) (co_cx st), co_adopted := co_adopted st - {t}\<rparr>)
      | _ \<Rightarrow> st)"
| "collect_step st (CollectDeathLost t payload) =
     (case collect_death_lost t payload st of
        (replacement, st') \<Rightarrow>
          (case co_phase st of
             AtRunners \<Rightarrow>
               collect_next (st'\<lparr>co_runners := co_runners st - {t} \<union> set_option replacement\<rparr>)
           | AtDeathPlane \<Rightarrow> st'\<lparr>co_adopted := co_adopted st - {t} \<union> set_option replacement\<rparr>
           | _ \<Rightarrow> st))"
| "collect_step st (CollectRestart t outcome) =
     (case co_phase st of
        AtAttempts \<Rightarrow> collect_next (collect_restart t outcome st)
      | AtRestartPlane \<Rightarrow> collect_restart t outcome st
      | _ \<Rightarrow> st)"
| "collect_step st (CollectRestartLost t payload) =
     (case co_phase st of
        AtAttempts \<Rightarrow> collect_next (collect_restart_lost t payload st)
      | AtRestartPlane \<Rightarrow> collect_restart_lost t payload st
      | _ \<Rightarrow> st)"
| "collect_step st CollectNone =
     (case co_phase st of
        AtRunners \<Rightarrow> end_runners st
      | AtAttempts \<Rightarrow> end_attempts st
      | AtRestartPlane \<Rightarrow> st\<lparr>co_phase := AtDeathPlane\<rparr>
      | AtDeathPlane \<Rightarrow>
          if co_adopted st \<noteq> {} then st\<lparr>co_adopted := {}\<rparr>
          else st\<lparr>co_phase := CollectDone,
                  co_cx := on_sup (\<lambda>sv. sv\<lparr>ss_pending_group := None\<rparr>) (co_cx st)\<rparr>
      | CollectDone \<Rightarrow> st)"
| "collect_step st (CollectEnv e) = st\<lparr>co_cx := env_step (co_cx st) e\<rparr>"

section \<open>The deliveries\<close>

datatype final_outcome = FinalDone "stop_reason option" | FinalKilled

record drain_state =
  dr_cx :: sup_ctx
  dr_todo :: "collected list"
  dr_pending :: "stop_reason option"
  dr_outcome :: "final_outcome option"

definition kill_stored :: "lane_cell \<Rightarrow> bool" where
  "kill_stored lane \<longleftrightarrow> lane_reason lane = Some Kill"

definition final_event :: "collected \<Rightarrow> child_event" where
  "final_event c =
     \<lparr>ce_child_id = csi_child_id (cl_report c), ce_child_name = cl_name c, ce_reason = csi_reason (cl_report c),
      ce_action = SupervisorStopping\<rparr>"

definition drain_begin :: "collect_state \<Rightarrow> drain_state" where
  "drain_begin st =
     \<lparr>dr_cx = co_cx st, dr_todo = co_out st, dr_pending = None,
      dr_outcome = (if co_out st = [] then Some (FinalDone None) else None)\<rparr>"

text \<open>What a delivery makes of the exit reason: the first failure, unless the accepted reason is one.\<close>

fun final_pending :: "stop_reason \<Rightarrow> stop_reason option \<Rightarrow> hook_result \<Rightarrow> stop_reason option" where
  "final_pending accepted pending HookOk = pending"
| "final_pending accepted pending (HookErr e) =
     (if is_failure accepted \<or> (case pending of Some r \<Rightarrow> is_failure r | None \<Rightarrow> False) then pending
      else Some (Failure e))"
| "final_pending accepted pending (HookPanic p) =
     (if is_failure accepted \<or> (case pending of Some r \<Rightarrow> is_failure r | None \<Rightarrow> False) then pending
      else Some (Failure (Panic p)))"

fun note_hook :: "hook_result \<Rightarrow> sup_ctx \<Rightarrow> sup_ctx" where
  "note_hook HookOk cx = cx"
| "note_hook (HookErr e) cx = record_failure e cx"
| "note_hook (HookPanic p) cx = record_failure (Panic p) cx"

definition deliver_final :: "sup_env \<Rightarrow> collected \<Rightarrow> sup_ctx \<Rightarrow> hook_result \<times> sup_ctx" where
  "deliver_final env c cx =
     (case env_on_child_stopped env (final_event c) (on_sup (\<lambda>sv. sv\<lparr>ss_final_delivery := True\<rparr>) cx) of
        (result, cx1) \<Rightarrow>
          (result, note_hook result (on_sup (\<lambda>sv. sv\<lparr>ss_final_delivery := False\<rparr>) cx1)))"

text \<open>One pass of the loop of \<open>final_drain\<close>: the lane is read before the delivery.\<close>

definition drain_step :: "sup_env \<Rightarrow> stop_reason \<Rightarrow> drain_state \<Rightarrow> lane_cell \<Rightarrow> drain_state" where
  "drain_step env accepted d lane =
     (case (dr_outcome d, dr_todo d) of
        (Some _, _) \<Rightarrow> d
      | (None, []) \<Rightarrow> d\<lparr>dr_outcome := Some (FinalDone (dr_pending d))\<rparr>
      | (None, c # rest) \<Rightarrow>
          if kill_stored lane then d\<lparr>dr_outcome := Some FinalKilled\<rparr>
          else (case deliver_final env c (dr_cx d) of
                  (result, cx) \<Rightarrow>
                    let pending = final_pending accepted (dr_pending d) result
                    in \<lparr>dr_cx = cx, dr_todo = rest, dr_pending = pending,
                        dr_outcome = (if rest = [] then Some (FinalDone pending) else None)\<rparr>))"

section \<open>The collection takes every report once\<close>

text \<open>The reports a letter brings, in the phase it finds the collection in.\<close>

fun outcome_report :: "restart_outcome \<Rightarrow> child_stopped_internal list" where
  "outcome_report (OutcomeFailed k n r) = [\<lparr>csi_child_id = k, csi_reason = r, csi_incarnation = n\<rparr>]"
| "outcome_report (OutcomeStopped k n r) = [\<lparr>csi_child_id = k, csi_reason = r, csi_incarnation = n\<rparr>]"
| "outcome_report _ = []"

fun brings :: "collect_state \<Rightarrow> collect_op \<Rightarrow> child_stopped_internal list" where
  "brings st (CollectDeath t report) = (if co_phase st \<in> {AtRunners, AtDeathPlane} then [report] else [])"
| "brings st (CollectRestart t outcome) =
     (if co_phase st \<in> {AtAttempts, AtRestartPlane} then outcome_report outcome else [])"
| "brings st (CollectRestartLost t payload) =
     (if co_phase st \<in> {AtAttempts, AtRestartPlane}
      then (case ctx_lost_restart_task t payload (co_cx st) of
              (Some outcome, _) \<Rightarrow> outcome_report outcome
            | (None, _) \<Rightarrow> [])
      else [])"
| "brings st _ = []"

fun arrived :: "collect_state \<Rightarrow> collect_op list \<Rightarrow> child_stopped_internal list" where
  "arrived st [] = []"
| "arrived st (op # ops) = brings st op @ arrived (collect_step st op) ops"

abbreviation co_reports :: "collect_state \<Rightarrow> child_stopped_internal list" where
  "co_reports st \<equiv> map cl_report (co_out st)"

abbreviation co_sup :: "collect_state \<Rightarrow> supervision_state" where
  "co_sup st \<equiv> cx_sup (co_cx st)"

definition co_queues :: "collect_state \<Rightarrow> worklist \<times> worklist" where
  "co_queues st = (ss_owed (co_sup st), ss_queued_triggers (co_sup st))"

text \<open>
  Before the queues are taken, the collected reports are those that arrived and the queues are as the loop left
  them; after, the queues are empty and their reports stand between the earlier and the later arrivals.
\<close>

definition collected_so_far :: "worklist \<times> worklist \<Rightarrow> child_stopped_internal list \<Rightarrow> collect_state \<Rightarrow> bool" where
  "collected_so_far q seen st =
     (if co_phase st \<in> {AtRunners, AtAttempts} then co_reports st = seen \<and> co_queues st = q
      else co_queues st = ([], []) \<and>
           (\<exists>early late. seen = early @ late \<and> co_reports st = early @ fst q @ snd q @ late))"

lemma sup_modify_queues:
  "ss_owed (sup_modify k f sv) = ss_owed sv" "ss_queued_triggers (sup_modify k f sv) = ss_queued_triggers sv"
  by (simp_all add: sup_modify_def)

lemma record_collected_end_queues:
  "ss_owed (record_collected_end k n sv) = ss_owed sv"
  "ss_queued_triggers (record_collected_end k n sv) = ss_queued_triggers sv"
  by (simp_all add: record_collected_end_def release_barrier_def set_stopping_def record_down_def Let_def
      sup_modify_queues split: option.splits group_phase.splits)

lemma collect_name_queues:
  "ss_owed (snd (collect_name r sv)) = ss_owed sv"
  "ss_queued_triggers (snd (collect_name r sv)) = ss_queued_triggers sv"
  by (simp_all add: collect_name_def Let_def split: option.splits)

lemma co_collect_effect [simp]:
  "co_reports (co_collect r st) = co_reports st @ [r]"
  "co_queues (co_collect r st) = co_queues st"
  "co_phase (co_collect r st) = co_phase st"
  by (simp_all add: co_collect_def collect_report_def co_queues_def split_def record_collected_end_queues
      collect_name_queues)

lemma fold_co_collect [simp]:
  "co_reports (fold co_collect rs st) = co_reports st @ rs"
  "co_queues (fold co_collect rs st) = co_queues st"
  "co_phase (fold co_collect rs st) = co_phase st"
  by (induction rs arbitrary: st) simp_all

lemma collect_queues_effect:
  "co_reports (collect_queues st) = co_reports st @ fst (co_queues st) @ snd (co_queues st)"
  "co_queues (collect_queues st) = ([], [])"
proof -
  let ?st0 = "st\<lparr>co_cx := on_sup (\<lambda>sv. sv\<lparr>ss_owed := []\<rparr>) (co_cx st)\<rparr>"
  let ?st1 = "fold co_collect (ss_owed (co_sup st)) ?st0"
  have "co_queues ?st1 = co_queues ?st0" by (rule fold_co_collect)
  then have q: "ss_owed (co_sup ?st1) = []" "ss_queued_triggers (co_sup ?st1) = ss_queued_triggers (co_sup st)"
    by (simp_all add: co_queues_def)
  show "co_reports (collect_queues st) = co_reports st @ fst (co_queues st) @ snd (co_queues st)"
    by (simp add: collect_queues_def Let_def q co_queues_def)
  show "co_queues (collect_queues st) = ([], [])"
    by (simp add: collect_queues_def Let_def) (simp add: co_queues_def q)
qed

lemma end_attempts_ok:
  assumes "co_reports st = seen" "co_queues st = q"
  shows "collected_so_far q seen (end_attempts st)"
proof -
  have "co_reports (end_attempts st) = seen @ fst q @ snd q @ []" "co_queues (end_attempts st) = ([], [])"
    "co_phase (end_attempts st) = AtRestartPlane"
    using collect_queues_effect [of st] assms by (auto simp: end_attempts_def co_queues_def)
  moreover have "seen = seen @ []" by simp
  ultimately show ?thesis unfolding collected_so_far_def by auto
qed

lemma end_runners_ok:
  "co_reports st = seen \<Longrightarrow> co_queues st = q \<Longrightarrow> collected_so_far q seen (end_runners st)"
  by (simp add: end_runners_def end_attempts_ok) (simp add: collected_so_far_def co_queues_def)

lemma collect_next_ok:
  assumes "co_reports st = seen" "co_queues st = q" "co_phase st \<in> {AtRunners, AtAttempts}"
  shows "collected_so_far q seen (collect_next st)"
  using assms end_runners_ok [OF assms(1,2)] end_attempts_ok [OF assms(1,2)]
  by (auto simp: collect_next_def) (auto simp: collected_so_far_def)

lemma adopt_runner_queues:
  "ss_owed (adopt_runner t k n sv) = ss_owed sv" "ss_queued_triggers (adopt_runner t k n sv) = ss_queued_triggers sv"
  by (simp_all add: adopt_runner_def spawn_death_def Let_def sup_modify_queues)

lemma record_cancelled_queues:
  "ss_owed (record_cancelled k n sv) = ss_owed sv" "ss_queued_triggers (record_cancelled k n sv) = ss_queued_triggers sv"
  by (simp_all add: record_cancelled_def record_down_def sup_modify_queues split: option.splits child_lifecycle.splits)

lemma record_restart_outcome_effect:
  assumes "record_restart_outcome out panic cx = ((k, n, runner, reason), panic', cx')"
  shows "ss_owed (cx_sup cx') = ss_owed (cx_sup cx)"
    "ss_queued_triggers (cx_sup cx') = ss_queued_triggers (cx_sup cx)"
    "outcome_report out =
       map (\<lambda>r. \<lparr>csi_child_id = k, csi_reason = r, csi_incarnation = n\<rparr>) (opt_list reason)"
proof -
  have "ss_owed (cx_sup cx') = ss_owed (cx_sup cx) \<and>
    ss_queued_triggers (cx_sup cx') = ss_queued_triggers (cx_sup cx) \<and>
    outcome_report out = map (\<lambda>r. \<lparr>csi_child_id = k, csi_reason = r, csi_incarnation = n\<rparr>) (opt_list reason)"
  proof (cases out)
    case (Adopted j m)
    then show ?thesis
      using assms by (auto simp: take_task_id_def Let_def adopt_runner_queues split: if_splits)
  qed (use assms in \<open>auto simp: record_cancelled_queues\<close>)
  then show "ss_owed (cx_sup cx') = ss_owed (cx_sup cx)"
    "ss_queued_triggers (cx_sup cx') = ss_queued_triggers (cx_sup cx)"
    "outcome_report out = map (\<lambda>r. \<lparr>csi_child_id = k, csi_reason = r, csi_incarnation = n\<rparr>) (opt_list reason)"
    by blast+
qed

lemma collect_restart_outcome_effect [simp]:
  "co_reports (collect_restart_outcome out st) = co_reports st @ outcome_report out \<and>
   co_queues (collect_restart_outcome out st) = co_queues st \<and>
   co_phase (collect_restart_outcome out st) = co_phase st"
proof -
  obtain k n runner reason panic cx where
    r: "record_restart_outcome out (co_panic st) (co_cx st) = ((k, n, runner, reason), panic, cx)"
    by (metis prod.exhaust)
  define st1 where "st1 = st\<lparr>co_panic := panic, co_cx := cx\<rparr>"
  define st2 where "st2 = (case runner of
      Some r \<Rightarrow> if adr_ended r then st1\<lparr>co_adopted := insert (adr_task r) (co_adopted st1)\<rparr> else st1
    | None \<Rightarrow> st1)"
  have st2: "co_reports st2 = co_reports st" "co_queues st2 = co_queues st" "co_phase st2 = co_phase st"
    using record_restart_outcome_effect(1,2) [OF r]
    by (auto simp: st2_def st1_def co_queues_def split: option.splits)
  have "collect_restart_outcome out st =
      (case reason of
         Some r \<Rightarrow> co_collect \<lparr>csi_child_id = k, csi_reason = r, csi_incarnation = n\<rparr> st2 | None \<Rightarrow> st2)"
    unfolding st2_def st1_def collect_restart_outcome_def r by (simp add: Let_def)
  then show ?thesis
    using st2 record_restart_outcome_effect(3) [OF r] by (simp split: option.splits)
qed

lemma late_ok:
  assumes "collected_so_far q seen st" "co_phase st \<notin> {AtRunners, AtAttempts}"
    and "co_reports st' = co_reports st @ rs" "co_queues st' = co_queues st"
    and "co_phase st' \<notin> {AtRunners, AtAttempts}"
  shows "collected_so_far q (seen @ rs) st'"
proof -
  obtain early late where "seen = early @ late" "co_reports st = early @ fst q @ snd q @ late"
    using assms(1,2) by (auto simp: collected_so_far_def)
  then have "seen @ rs = early @ late @ rs" "co_reports st' = early @ fst q @ snd q @ late @ rs"
    using assms(3) by simp_all
  then show ?thesis
    using assms(1,2,4,5) unfolding collected_so_far_def by auto
qed

lemma early_ok:
  assumes "collected_so_far q seen st" "co_phase st \<in> {AtRunners, AtAttempts}"
    and "co_reports st' = co_reports st @ rs" "co_queues st' = co_queues st" "co_phase st' = co_phase st"
  shows "collected_so_far q (seen @ rs) (collect_next st')"
  using assms by (intro collect_next_ok) (auto simp: collected_so_far_def)

lemma early_None_ok:
  assumes "collected_so_far q seen st" "co_phase st \<in> {AtRunners, AtAttempts}"
  shows "collected_so_far q seen (end_runners st)" "collected_so_far q seen (end_attempts st)"
proof -
  have "co_reports st = seen" "co_queues st = q"
    using assms by (auto simp: collected_so_far_def)
  then show "collected_so_far q seen (end_runners st)" "collected_so_far q seen (end_attempts st)"
    by (rule end_runners_ok, rule end_attempts_ok)
qed

lemma co_frames [simp]:
  "co_queues (st\<lparr>co_runners := a\<rparr>) = co_queues st"
  "co_queues (st\<lparr>co_attempts := b\<rparr>) = co_queues st"
  "co_queues (st\<lparr>co_adopted := d\<rparr>) = co_queues st"
  "co_queues (st\<lparr>co_phase := p\<rparr>) = co_queues st"
  by (simp_all add: co_queues_def)

lemma join_queues [simp]:
  "co_queues (st\<lparr>co_cx := on_sup (join_death t) (co_cx st)\<rparr>) = co_queues st"
  "co_queues (st\<lparr>co_cx := on_sup (join_restart t) (co_cx st)\<rparr>) = co_queues st"
  by (simp_all add: co_queues_def join_death_def join_restart_def)

lemma lost_queues:
  "ctx_lost_death_task t p cx = (r, cx') \<Longrightarrow>
     ss_owed (cx_sup cx') = ss_owed (cx_sup cx) \<and> ss_queued_triggers (cx_sup cx') = ss_queued_triggers (cx_sup cx)"
  "ctx_lost_restart_task t p cx = (out, r', cx'') \<Longrightarrow>
     ss_owed (cx_sup cx'') = ss_owed (cx_sup cx) \<and>
     ss_queued_triggers (cx_sup cx'') = ss_queued_triggers (cx_sup cx)"
  by (auto simp: ctx_lost_death_task_def ctx_lost_restart_task_def lost_death_task_def lost_restart_task_def Let_def
      take_task_id_def note_task_error_def spawn_death_def split: option.splits prod.splits if_splits)

lemma collect_death_lost_effect:
  assumes "collect_death_lost t p st = (r, st')"
  shows "co_reports st' = co_reports st" "co_queues st' = co_queues st" "co_phase st' = co_phase st"
    "co_runners st' = co_runners st" "co_adopted st' = co_adopted st"
  using assms by (auto simp: collect_death_lost_def co_queues_def lost_queues split: prod.splits)

lemma collect_restart_effect:
  "co_reports (collect_restart t out st) = co_reports st @ outcome_report out"
  "co_queues (collect_restart t out st) = co_queues st"
  "co_phase (collect_restart t out st) = co_phase st"
  by (simp_all add: collect_restart_def)

lemma collect_restart_lost_effect:
  "co_reports (collect_restart_lost t p st) = co_reports st @
     (case ctx_lost_restart_task t p (co_cx st) of
        (Some outcome, _) \<Rightarrow> outcome_report outcome | (None, _) \<Rightarrow> [])"
  "co_queues (collect_restart_lost t p st) = co_queues st"
  "co_phase (collect_restart_lost t p st) = co_phase st"
proof -
  obtain out r cx where l: "ctx_lost_restart_task t p (co_cx st) = (out, r, cx)"
    by (metis prod.exhaust)
  have q: "co_queues (st\<lparr>co_cx := cx\<rparr>) = co_queues st"
    using lost_queues(2) [OF l] by (simp add: co_queues_def)
  show "co_reports (collect_restart_lost t p st) = co_reports st @
     (case ctx_lost_restart_task t p (co_cx st) of
        (Some outcome, _) \<Rightarrow> outcome_report outcome | (None, _) \<Rightarrow> [])"
    "co_queues (collect_restart_lost t p st) = co_queues st"
    "co_phase (collect_restart_lost t p st) = co_phase st"
    by (cases out; simp add: collect_restart_lost_def l Let_def q)+
qed

lemma env_step_queues:
  "co_queues (st\<lparr>co_cx := env_step (co_cx st) e\<rparr>) = co_queues st"
  by (cases e) (simp_all add: co_queues_def on_child_ctl_def sup_modify_queues)

lemma collect_step_ok:
  assumes "collected_so_far q seen st"
  shows "collected_so_far q (seen @ brings st op) (collect_step st op)"
proof (cases op)
  case (CollectDeath t report)
  then show ?thesis
    using assms by (cases "co_phase st") (auto intro: early_ok [OF assms] late_ok [OF assms])
next
  case (CollectDeathLost t p)
  obtain r st' where l: "collect_death_lost t p st = (r, st')" by (metis prod.exhaust)
  then show ?thesis
    using assms CollectDeathLost collect_death_lost_effect [OF l] early_ok [OF assms, where rs = "[]"]
      late_ok [OF assms, where rs = "[]"]
    by (cases "co_phase st") auto
next
  case (CollectRestart t out)
  then show ?thesis
    using assms by (cases "co_phase st")
      (auto simp: collect_restart_effect intro: early_ok [OF assms] late_ok [OF assms])
next
  case (CollectRestartLost t p)
  then show ?thesis
    using assms by (cases "co_phase st")
      (auto simp: collect_restart_lost_effect intro: early_ok [OF assms] late_ok [OF assms])
next
  case CollectNone
  then show ?thesis
    using assms early_None_ok [OF assms] late_ok [OF assms, where rs = "[]"]
    by (cases "co_phase st") (auto simp: co_queues_def)
next
  case (CollectEnv e)
  then show ?thesis
    using assms env_step_queues [of st e] by (auto simp: collected_so_far_def)
qed

lemma collect_run_ok:
  "collected_so_far q seen st \<Longrightarrow> collected_so_far q (seen @ arrived st ops) (run collect_step st ops)"
proof (induction ops arbitrary: st seen)
  case (Cons op ops)
  from Cons.IH [OF collect_step_ok [OF Cons.prems]] show ?case by simp
qed simp

lemma collect_begin_ok:
  "collected_so_far (ss_owed (cx_sup cx), ss_queued_triggers (cx_sup cx)) [] (collect_begin panic cx)"
  unfolding collect_begin_def
  by (auto intro!: collect_next_ok simp: co_queues_def split: prod.splits)

text \<open>The last letter clears the pending group, and only the executors move after it.\<close>

definition done_without_group :: "collect_state \<Rightarrow> bool" where
  "done_without_group st \<longleftrightarrow> (co_phase st = CollectDone \<longrightarrow> ss_pending_group (co_sup st) = None)"

lemma collect_next_phase: "co_phase st \<in> {AtRunners, AtAttempts} \<Longrightarrow> co_phase (collect_next st) \<noteq> CollectDone"
  by (cases "co_phase st") (simp_all add: collect_next_def end_runners_def end_attempts_def)

lemma collect_step_done:
  assumes "co_phase st \<noteq> CollectDone" "op \<noteq> CollectNone"
  shows "co_phase (collect_step st op) \<noteq> CollectDone"
proof (cases op)
  case (CollectDeathLost t p)
  obtain r st' where l: "collect_death_lost t p st = (r, st')" by (metis prod.exhaust)
  with CollectDeathLost assms(1) collect_death_lost_effect(3) [OF l] show ?thesis
    by (cases "co_phase st") (simp_all add: collect_next_phase)
qed (use assms in \<open>cases "co_phase st"; simp add: collect_next_phase collect_restart_effect
    collect_restart_lost_effect\<close>)+

lemma collect_step_no_group: "done_without_group st \<Longrightarrow> done_without_group (collect_step st op)"
proof (cases "co_phase st = CollectDone")
  case True
  assume "done_without_group st"
  then have none: "ss_pending_group (co_sup st) = None" using True by (simp add: done_without_group_def)
  show ?thesis
  proof (cases op)
    case (CollectEnv e)
    with none show ?thesis
      by (cases e) (simp_all add: done_without_group_def on_child_ctl_def sup_modify_fields)
  qed (use True none in \<open>simp_all add: done_without_group_def split: prod.splits\<close>)
next
  case False
  show ?thesis
  proof (cases "op = CollectNone")
    case True
    then show ?thesis
      using False by (cases "co_phase st")
        (simp_all add: done_without_group_def end_runners_def end_attempts_def)
  next
    case nope: False
    then show ?thesis using collect_step_done [OF False nope] by (simp add: done_without_group_def)
  qed
qed

interpretation collection: invariant_machine collect_step done_without_group
  by unfold_locales (rule collect_step_no_group)

lemma collect_run_no_group:
  assumes "st = run collect_step (collect_begin panic cx) ops" "co_phase st = CollectDone"
  shows "ss_pending_group (co_sup st) = None"
proof -
  have "done_without_group (collect_begin panic cx)"
    using collect_next_phase by (simp add: done_without_group_def collect_begin_def split: prod.splits)
  from collection.run_inv [OF this] show ?thesis using assms by (simp add: done_without_group_def)
qed

section \<open>The deliveries change nothing of the supervisor\<close>

text \<open>A supervision state without its slots, which the executors write at any time, and without the delivery flag.\<close>

definition blank_child :: "child_state \<Rightarrow> child_state" where
  "blank_child c = c\<lparr>ch_ctl := slot_pair_for None\<rparr>"

definition sans_slots :: "supervision_state \<Rightarrow> supervision_state" where
  "sans_slots sv =
     sv\<lparr>ss_final_delivery := False,
        ss_registry := (ss_registry sv)\<lparr>cr_children := map blank_child (cr_children (ss_registry sv))\<rparr>\<rparr>"

definition quiet :: "sup_ctx \<Rightarrow> sup_ctx \<Rightarrow> bool" where
  "quiet cx cx' \<longleftrightarrow> sans_slots (cx_sup cx') = sans_slots (cx_sup cx) \<and>
     ss_final_delivery (cx_sup cx') = ss_final_delivery (cx_sup cx) \<and>
     cx_next_incarnation cx' = cx_next_incarnation cx \<and> cx_next_task cx' = cx_next_task cx"

lemma quiet_refl [simp]: "quiet cx cx"
  by (simp add: quiet_def)

lemma quiet_trans [trans]: "quiet a b \<Longrightarrow> quiet b c \<Longrightarrow> quiet a c"
  by (simp add: quiet_def)

lemma quiet_same_sup:
  "cx_sup cx' = cx_sup cx \<Longrightarrow> cx_next_incarnation cx' = cx_next_incarnation cx \<Longrightarrow>
   cx_next_task cx' = cx_next_task cx \<Longrightarrow> quiet cx cx'"
  by (simp add: quiet_def)

lemma quiet_on_child_ctl: "quiet cx (on_child_ctl k f cx)"
proof -
  have "map blank_child (cs[i := (cs ! i)\<lparr>ch_ctl := s\<rparr>]) = map blank_child cs" for cs i s
    by (cases "i < length cs")
      (simp_all add: map_update blank_child_def list_update_same_conv list_update_beyond)
  then show ?thesis
    by (simp add: quiet_def on_child_ctl_def on_sup_def sup_modify_def sans_slots_def registry_modify_def
        split: option.splits)
qed

lemma quiet_env_step: "quiet cx (env_step cx e)"
  by (cases e) (simp_all add: quiet_on_child_ctl quiet_same_sup)

lemma quiet_env_run: "quiet cx (run env_step cx es)"
  by (induction es arbitrary: cx) (auto intro: quiet_trans quiet_env_step)

lemma quiet_final: "quiet cx cx' \<Longrightarrow> ss_final_delivery (cx_sup cx) \<Longrightarrow> ss_final_delivery (cx_sup cx')"
  by (simp add: quiet_def)

text \<open>While a final delivery runs, every supervision call of the callback is refused.\<close>

lemma quiet_ctx_step: "ss_final_delivery (cx_sup cx) \<Longrightarrow> quiet cx (ctx_step cx op)"
proof (cases op)
  case (OpAwaitRetired named)
  assume "ss_final_delivery (cx_sup cx)"
  with OpAwaitRetired show ?thesis
    by (simp add: await_retired_subtree_def refuse_spawn_def split: option.splits)
qed (auto simp: quiet_env_step quiet_env_run spawn_child_internal_def refuse_spawn_def manual_call_def
    manual_stop_commit_def manual_stop_child_def restart_child_def delete_child_def record_failure_def quiet_same_sup)

lemma quiet_ctx_run: "ss_final_delivery (cx_sup cx) \<Longrightarrow> quiet cx (run ctx_step cx ops)"
proof (induction ops arbitrary: cx)
  case (Cons op ops)
  have "quiet cx (ctx_step cx op)" by (rule quiet_ctx_step) (rule Cons.prems)
  also have "quiet \<dots> (run ctx_step (ctx_step cx op) ops)"
    by (rule Cons.IH) (rule quiet_final [OF quiet_ctx_step [OF Cons.prems] Cons.prems])
  finally show ?case by simp
qed simp

lemma cx_note_hook [simp]:
  "cx_sup (note_hook r cx) = cx_sup cx" "cx_next_incarnation (note_hook r cx) = cx_next_incarnation cx"
  "cx_next_task (note_hook r cx) = cx_next_task cx"
  by (cases r; simp add: record_failure_def)+

text \<open>A context before and after a final delivery, up to the flag.\<close>

definition undisturbed :: "sup_ctx \<Rightarrow> sup_ctx \<Rightarrow> bool" where
  "undisturbed cx cx' \<longleftrightarrow> sans_slots (cx_sup cx') = sans_slots (cx_sup cx) \<and>
     cx_next_incarnation cx' = cx_next_incarnation cx \<and> cx_next_task cx' = cx_next_task cx"

lemma undisturbed_refl [simp]: "undisturbed cx cx"
  by (simp add: undisturbed_def)

lemma undisturbed_trans [trans]: "undisturbed a b \<Longrightarrow> undisturbed b c \<Longrightarrow> undisturbed a c"
  by (simp add: undisturbed_def)

lemma deliver_final_undisturbed: "undisturbed cx (snd (deliver_final (scripted script drops) c cx))"
proof -
  let ?on = "\<lambda>b. on_sup (\<lambda>sv. sv\<lparr>ss_final_delivery := b\<rparr>)"
  have flag: "sans_slots (sv\<lparr>ss_final_delivery := b\<rparr>) = sans_slots sv" for sv b
    by (simp add: sans_slots_def)
  obtain r ops where s: "script (final_event c) (?on True cx) = (r, ops)" by (metis prod.exhaust)
  have "quiet (?on True cx) (run ctx_step (?on True cx) ops)"
    by (rule quiet_ctx_run) simp
  then show ?thesis
    by (simp add: deliver_final_def scripted_def s undisturbed_def quiet_def flag)
      (simp add: on_sup_def)
qed

definition deliver_all :: "sup_env \<Rightarrow> collected list \<Rightarrow> sup_ctx \<Rightarrow> sup_ctx" where
  "deliver_all env cs cx = fold (\<lambda>c cx'. snd (deliver_final env c cx')) cs cx"

lemma deliver_all_undisturbed: "undisturbed cx (deliver_all (scripted script drops) cs cx)"
  unfolding deliver_all_def
  by (induction cs arbitrary: cx) (auto intro: undisturbed_trans deliver_final_undisturbed)

lemma drain_ended: "dr_outcome d = Some out \<Longrightarrow> run (drain_step env accepted) d lanes = d"
  by (induction lanes) (simp_all add: drain_step_def)

lemma drain_run:
  assumes "dr_outcome d = None" "dr_todo d \<noteq> []"
  shows "let d' = run (drain_step env accepted) d lanes;
             clear = length (takeWhile (\<lambda>lane. \<not> kill_stored lane) lanes);
             m = min clear (length (dr_todo d))
         in dr_todo d' = drop m (dr_todo d) \<and>
            dr_cx d' = deliver_all env (take m (dr_todo d)) (dr_cx d) \<and>
            (length (dr_todo d) \<le> clear \<longrightarrow> (\<exists>p. dr_outcome d' = Some (FinalDone p))) \<and>
            (clear < length (dr_todo d) \<longrightarrow>
               dr_outcome d' = (if clear < length lanes then Some FinalKilled else None))"
  using assms
proof (induction lanes arbitrary: d)
  case Nil
  then show ?case by (cases "dr_todo d") (simp_all add: deliver_all_def)
next
  case (Cons lane lanes)
  note IH = Cons.IH
  obtain c rest where todo: "dr_todo d = c # rest" using Cons.prems(2) by (cases "dr_todo d") auto
  show ?case
  proof (cases "kill_stored lane")
    case True
    then have "drain_step env accepted d lane = d\<lparr>dr_outcome := Some FinalKilled\<rparr>"
      using Cons.prems(1) todo by (simp add: drain_step_def)
    with True todo show ?thesis
      using drain_ended [of "d\<lparr>dr_outcome := Some FinalKilled\<rparr>" FinalKilled env accepted lanes]
      by (simp add: deliver_all_def)
  next
    case False
    let ?d = "drain_step env accepted d lane"
    have step: "dr_todo ?d = rest" "dr_cx ?d = snd (deliver_final env c (dr_cx d))"
      "dr_outcome ?d = (if rest = [] then Some (FinalDone (dr_pending ?d)) else None)"
      using False Cons.prems(1) todo by (simp_all add: drain_step_def split_def Let_def)
    show ?thesis
    proof (cases rest)
      case Nil
      with step have out: "dr_outcome ?d = Some (FinalDone (dr_pending ?d))" by simp
      then have "run (drain_step env accepted) ?d lanes = ?d" by (rule drain_ended)
      with step out Nil todo False show ?thesis by (simp add: deliver_all_def Let_def)
    next
      case (Cons c' rest')
      with step have "dr_outcome ?d = None" "dr_todo ?d \<noteq> []" by simp_all
      from IH [OF this] show ?thesis
        using step todo False Cons by (simp add: deliver_all_def Let_def)
    qed
  qed
qed

section \<open>Properties\<close>


definition example_report :: "actor_id \<Rightarrow> u64 \<Rightarrow> child_stopped_internal" where
  "example_report k n = \<lparr>csi_child_id = k, csi_reason = Graceful, csi_incarnation = n\<rparr>"

definition example_pending :: sup_ctx where
  "example_pending =
     on_sup (\<lambda>sv. sv\<lparr>ss_owed := [example_report ''a'' 1], ss_queued_triggers := [example_report ''b'' 2]\<rparr>)
       (sup_ctx_new one_for_all 3 0)"

lemma example_collect:
  "run collect_step (collect_begin None example_pending)
     [CollectNone, CollectDeath 4 (example_report ''c'' 3), CollectNone] =
   \<lparr>co_cx = on_sup (\<lambda>sv. sv\<lparr>ss_owed := [], ss_queued_triggers := []\<rparr>) example_pending,
    co_out = [\<lparr>cl_report = example_report ''a'' 1, cl_name = None\<rparr>,
      \<lparr>cl_report = example_report ''b'' 2, cl_name = None\<rparr>, \<lparr>cl_report = example_report ''c'' 3, cl_name = None\<rparr>],
    co_runners = {}, co_attempts = {}, co_adopted = {}, co_panic = None, co_phase = CollectDone\<rparr>"
  by (simp add: collect_begin_def final_await_sets_def example_pending_def sup_ctx_new_def supervision_state_new_def
      collect_next_def end_runners_def end_attempts_def collect_queues_def Let_def on_sup_def co_collect_def
      collect_report_def collect_name_def registry_get_def registry_new_def record_collected_end_def sup_life_def
      release_barrier_def join_death_def example_report_def)


text \<open>
  The final deliveries give each collected end to the callback once, in the order collected, until the lane
  is read with a \<open>Kill\<close>: after reads of the lane of which the first \<open>clear\<close> find none, exactly the first \<open>clear\<close> ends are
  delivered.  They end as done once all are delivered and as killed at a read that finds a \<open>Kill\<close>.  Whatever
  the callback calls meanwhile, the supervisor is undisturbed: nothing is restarted, spawned, stopped, removed or
  charged, and no task or incarnation number is taken.
\<close>

lemma final_drain_delivers_each_once:
  fixes script drops accepted lanes st
  defines "d \<equiv> run (drain_step (scripted script drops) accepted) (drain_begin st) lanes"
    and "clear \<equiv> length (takeWhile (\<lambda>lane. \<not> kill_stored lane) lanes)"
  shows "dr_todo d = drop clear (co_out st) \<and>
    dr_cx d = deliver_all (scripted script drops) (take clear (co_out st)) (co_cx st) \<and>
    undisturbed (co_cx st) (dr_cx d) \<and>
    (dr_outcome d = Some FinalKilled \<longleftrightarrow> clear < length lanes \<and> clear < length (co_out st)) \<and>
    ((\<exists>p. dr_outcome d = Some (FinalDone p)) \<longleftrightarrow> length (co_out st) \<le> clear)"
proof (cases "co_out st = []")
  case True
  then have "d = drain_begin st"
    unfolding d_def by (intro drain_ended [of _ "FinalDone None"]) (simp add: drain_begin_def)
  with True show ?thesis by (simp add: drain_begin_def deliver_all_def)
next
  case False
  let ?n = "length (co_out st)"
  have "dr_todo d = drop (min clear ?n) (co_out st)"
    "dr_cx d = deliver_all (scripted script drops) (take (min clear ?n) (co_out st)) (co_cx st)"
    "?n \<le> clear \<longrightarrow> (\<exists>p. dr_outcome d = Some (FinalDone p))"
    "clear < ?n \<longrightarrow> dr_outcome d = (if clear < length lanes then Some FinalKilled else None)"
    using drain_run [of "drain_begin st" "scripted script drops" accepted lanes] False
    unfolding d_def [symmetric] clear_def [symmetric] Let_def by (simp_all add: drain_begin_def)
  then show ?thesis
    using deliver_all_undisturbed [of "co_cx st" script drops]
    by (cases "?n \<le> clear") (auto simp: min_def not_le split: if_splits)
qed

end
