(* ===== verification/Teardown.thy ===== *)
theory Teardown
  imports Final_Drain Supervisor_Props
begin

text \<open>
  How a supervisor stops its children at its own end (\<open>stop_all_children\<close>, \<open>settle_children\<close> and what they call in
  \<open>src/src/actor/runtime.rs\<close>): a pool orders all of them at once, every other supervisor one after the other, the
  newest first.  The teardown waits on the slots' cells, the restart plane and its own stop lane, so it is a machine
  whose letters are what its \<open>select!\<close> finds, and what the executors do meanwhile; the lane is an argument, with
  the version of it the loop has seen.
\<close>

section \<open>One child\<close>

definition walk_child_of :: "child_state \<Rightarrow> walk_child" where
  "walk_child_of child =
     (let ctl = ch_ctl child in
      \<lparr>wc_life = Some (ch_lifecycle child), wc_has_order = has_order ctl,
       wc_ask_possible = (cs_shutdown (ch_spec child) = ShutdownInfinity \<and> lane_vetoable ctl \<and>
         slot_task_state ctl \<noteq> TaskEnded),
       wc_reasked = reasked ctl,
       wc_attempt_past_init = (case cell_status (sl_cell ctl) of
           Some st \<Rightarrow> sv_status (sc_value st) \<noteq> StInitializing
         | None \<Rightarrow> False)\<rparr>)"

record stop_wait =
  sw_id :: actor_id
  sw_token :: u64
  sw_attempt :: bool
  sw_settled :: "cell_outcome option"
  sw_reported :: bool

definition stop_wait_for :: "actor_id \<Rightarrow> u64 \<Rightarrow> bool \<Rightarrow> stop_wait" where
  "stop_wait_for k token attempt =
     \<lparr>sw_id = k, sw_token = token, sw_attempt = attempt, sw_settled = None, sw_reported = False\<rparr>"

text \<open>\<open>begin_child_stop\<close>: what the action does to the child's slot, and the stop to wait for.\<close>

fun begin_child_stop ::
  "instant \<Rightarrow> actor_id \<Rightarrow> child_state \<Rightarrow> teardown_action \<Rightarrow> (stop_wait \<times> slot) option" where
  "begin_child_stop now k child action =
     (let ctl = ch_ctl child; policy = cs_shutdown (ch_spec child) in
      case (action, ch_lifecycle child) of
        (TeardownOrder, Running n) \<Rightarrow> Some (stop_wait_for k n False, order_stop now policy True ctl)
      | (TeardownJoin again, Running n) \<Rightarrow>
          Some (stop_wait_for k n False, if again then ask_again ctl else ctl)
      | (TeardownJoin again, Stopping n _) \<Rightarrow>
          Some (stop_wait_for k n False, if again then ask_again ctl else ctl)
      | (TeardownOrderAttempt again, Restarting _ nxt) \<Rightarrow>
          (let ctl1 = order_stop now policy False ctl
           in Some (stop_wait_for k nxt True, if again then ask_again ctl1 else ctl1))
      | _ \<Rightarrow> None)"

definition teardown_child :: "actor_id \<Rightarrow> teardown_action \<Rightarrow> sup_ctx \<Rightarrow> stop_wait option \<times> sup_ctx" where
  "teardown_child k action cx =
     (case sup_child (cx_sup cx) k of
        None \<Rightarrow> (None, cx)
      | Some child \<Rightarrow>
          (case begin_child_stop (cx_now cx) k child action of
             None \<Rightarrow> (None, cx)
           | Some (wait, ctl) \<Rightarrow> (Some wait, on_child_ctl k (\<lambda>_. ctl) cx)))"

section \<open>The waits\<close>

datatype teardown_result = TeardownDone | TeardownKilled

record teardown_state =
  td_cx :: sup_ctx
  td_order :: "actor_id list"
  td_waits :: "stop_wait list"
  td_panic :: "string option"
  td_result :: "teardown_result option"

text \<open>\<open>all_done\<close> of \<open>settle_children\<close>: the cell settled and, for an attempt without a verdict, no restart task is left.\<close>

definition restart_task_of :: "supervision_state \<Rightarrow> actor_id \<Rightarrow> u64 \<Rightarrow> bool" where
  "restart_task_of sv k n \<longleftrightarrow> (k, n, PlaneRestart) \<in> snd ` set (ss_task_owner sv)"

definition wait_done :: "supervision_state \<Rightarrow> stop_wait \<Rightarrow> bool" where
  "wait_done sv w =
     (case sw_settled w of
        None \<Rightarrow> False
      | Some out \<Rightarrow>
          \<not> sw_attempt w \<or> out = CellUnresponsive \<or> \<not> restart_task_of sv (sw_id w) (sw_token w))"

definition all_done :: "teardown_state \<Rightarrow> bool" where
  "all_done td \<longleftrightarrow> (\<forall>w \<in> set (td_waits td). wait_done (cx_sup (td_cx td)) w)"

text \<open>The end of the walk: the supervision state is dropped, its factories are gone already.\<close>

definition td_finish :: "teardown_state \<Rightarrow> teardown_state" where
  "td_finish td = td\<lparr>td_waits := [], td_result := Some TeardownDone\<rparr>"

text \<open>
  Entering \<open>settle_children\<close> with the given waits reads the lane once; a wait that is done at once falls
  through.  The walk of a supervisor that is no pool goes on with the next child that has something to stop.
\<close>

fun walk_on :: "lane_cell \<Rightarrow> actor_id list \<Rightarrow> teardown_state \<Rightarrow> teardown_state" where
  "walk_on lane [] td = td_finish (td\<lparr>td_order := []\<rparr>)"
| "walk_on lane (k # ks) td =
     (case sup_child (cx_sup (td_cx td)) k of
        None \<Rightarrow> walk_on lane ks td
      | Some child \<Rightarrow>
          (case teardown_walk (cfg_strategy (ss_config (cx_sup (td_cx td)))) [(k, walk_child_of child)] of
             [] \<Rightarrow> walk_on lane ks td
           | (_, action) # _ \<Rightarrow>
               (case teardown_child k action (td_cx td) of
                  (None, cx) \<Rightarrow> walk_on lane ks (td\<lparr>td_cx := cx\<rparr>)
                | (Some wait, cx) \<Rightarrow>
                    td\<lparr>td_cx := cx, td_order := ks, td_waits := [wait],
                       td_result := (if kill_stored lane then Some TeardownKilled else None)\<rparr>)))"

fun begin_pool :: "(actor_id \<times> teardown_action) list \<Rightarrow> sup_ctx \<Rightarrow> stop_wait list \<times> sup_ctx" where
  "begin_pool [] cx = ([], cx)"
| "begin_pool ((k, action) # rest) cx =
     (case teardown_child k action cx of
        (wait, cx1) \<Rightarrow> (case begin_pool rest cx1 of (waits, cx2) \<Rightarrow> (opt_list wait @ waits, cx2)))"

text \<open>The loop of \<open>settle_children\<close> ends once every wait is done.\<close>

definition settle_next :: "lane_cell \<Rightarrow> teardown_state \<Rightarrow> teardown_state" where
  "settle_next lane td =
     (if td_result td = None \<and> all_done td
      then if is_pool (cx_sup (td_cx td)) then td_finish td else walk_on lane (td_order td) td
      else td)"

definition drop_factories :: "(factory \<Rightarrow> string option) \<Rightarrow> factory list \<Rightarrow> string option \<Rightarrow> string option" where
  "drop_factories drops fs panic = foldl (\<lambda>p f. keep_first_of p (drops f)) panic fs"

definition stop_all_begin :: "sup_env \<Rightarrow> lane_cell \<Rightarrow> string option \<Rightarrow> sup_ctx \<Rightarrow> teardown_state" where
  "stop_all_begin env lane panic cx =
     (let factories = map snd (ss_restart_fns (cx_sup cx));
          cx1 = on_sup (\<lambda>sv. sv\<lparr>ss_restart_fns := [], ss_pending_group := None, ss_queued_triggers := []\<rparr>) cx;
          sv = cx_sup cx1;
          order = all_ids (ss_registry sv);
          td = \<lparr>td_cx = cx1, td_order = rev order, td_waits = [],
                td_panic = drop_factories (env_drop env) factories panic, td_result = None\<rparr>
      in if is_pool sv
         then (case begin_pool (teardown_walk (cfg_strategy (ss_config sv))
                   (List.map_filter (\<lambda>k. map_option (\<lambda>c. (k, walk_child_of c)) (sup_child sv k)) order)) cx1 of
                 (waits, cx2) \<Rightarrow>
                   settle_next lane (td\<lparr>td_cx := cx2, td_order := [], td_waits := waits,
                     td_result := (if kill_stored lane then Some TeardownKilled else None)\<rparr>))
         else walk_on lane (rev order) td)"

section \<open>Steps\<close>

text \<open>
  A letter comes with the lane as the \<open>select!\<close> finds it: the wait at an index, a task of the restart plane that
  finished or failed, or what happens meanwhile.  The lane comes first in the \<open>select!\<close>, so a version of it not
  seen yet is taken before any of them.
\<close>

datatype teardown_op =
    TdCell nat bool
  | TdRestart task_id restart_outcome
  | TdRestartLost task_id "string option"
  | TdEnv env_op

definition note_report :: "actor_id \<Rightarrow> u64 \<Rightarrow> bool \<Rightarrow> stop_wait \<Rightarrow> stop_wait" where
  "note_report k n adopted w =
     (if sw_id w = k \<and> sw_token w = n then w\<lparr>sw_attempt := False, sw_reported := \<not> adopted\<rparr> else w)"

text \<open>What \<open>drain_restart_for_teardown\<close> does with an outcome it records.\<close>

definition teardown_outcome ::
  "restart_outcome \<Rightarrow> teardown_state \<Rightarrow> (actor_id \<times> u64 \<times> bool) \<times> teardown_state" where
  "teardown_outcome outcome td =
     (case record_restart_outcome outcome (td_panic td) (td_cx td) of
        ((k, n, runner, reason), panic, cx) \<Rightarrow>
          ((k, n, runner \<noteq> None),
           td\<lparr>td_panic := panic,
              td_cx := (if reason \<noteq> None then on_sup (record_collected_end k n) cx else cx)\<rparr>))"

definition drain_restart :: "task_id \<Rightarrow> restart_outcome \<Rightarrow> teardown_state \<Rightarrow> teardown_state" where
  "drain_restart t outcome td =
     (case teardown_outcome outcome (td\<lparr>td_cx := on_sup (join_restart t) (td_cx td)\<rparr>) of
        ((k, n, adopted), td1) \<Rightarrow> td1\<lparr>td_waits := map (note_report k n adopted) (td_waits td1)\<rparr>)"

definition drain_restart_lost :: "task_id \<Rightarrow> string option \<Rightarrow> teardown_state \<Rightarrow> teardown_state" where
  "drain_restart_lost t payload td =
     (let owner = hget (ss_task_owner (cx_sup (td_cx td))) t in
      case ctx_lost_restart_task t payload (td_cx td) of
        (Some outcome, _, cx) \<Rightarrow>
          (case teardown_outcome outcome (td\<lparr>td_cx := cx\<rparr>) of
             ((k, n, adopted), td1) \<Rightarrow> td1\<lparr>td_waits := map (note_report k n adopted) (td_waits td1)\<rparr>)
      | (None, _, cx) \<Rightarrow>
          (case owner of
             Some (k, n, _) \<Rightarrow> td\<lparr>td_cx := cx, td_waits := map (note_report k n False) (td_waits td)\<rparr>
           | None \<Rightarrow> td\<lparr>td_cx := cx\<rparr>))"

text \<open>
  What the wait of \<open>await_cell\<close> gives now: a settled cell at once; a closed cell once the incarnation's plane reads
  as ended, or at its bound when it does not.  \<open>None\<close> while it waits.
\<close>

definition await_cell_now :: "bool \<Rightarrow> u64 \<Rightarrow> slot \<Rightarrow> (cell_outcome \<times> slot) option" where
  "await_cell_now ended n s =
     (case cell_settled (sl_cell s) of
        Some out \<Rightarrow> Some (out, s)
      | None \<Rightarrow>
          if \<not> sl_closed s then None
          else if ended \<and> (case cell_status (sl_cell s) of Some st \<Rightarrow> \<not> plane_ended st | None \<Rightarrow> False) then None
          else Some (closed_cell ended n s))"

definition settle_cell :: "nat \<Rightarrow> bool \<Rightarrow> teardown_state \<Rightarrow> teardown_state" where
  "settle_cell i ended td =
     (if i < length (td_waits td) \<and> sw_settled (td_waits td ! i) = None
      then let w = td_waits td ! i in
           (case Option.bind (sup_child (cx_sup (td_cx td)) (sw_id w))
                   (\<lambda>c. await_cell_now ended (sw_token w) (ch_ctl c)) of
              None \<Rightarrow> td
            | Some (out, ctl) \<Rightarrow>
                td\<lparr>td_cx := on_child_ctl (sw_id w) (\<lambda>_. ctl) (td_cx td),
                   td_waits := (td_waits td)[i := w\<lparr>sw_settled := Some out\<rparr>]\<rparr>)
      else td)"

fun td_effect :: "teardown_op \<Rightarrow> teardown_state \<Rightarrow> teardown_state" where
  "td_effect (TdCell i ended) td = settle_cell i ended td"
| "td_effect (TdRestart t outcome) td = drain_restart t outcome td"
| "td_effect (TdRestartLost t payload) td = drain_restart_lost t payload td"
| "td_effect (TdEnv e) td = td\<lparr>td_cx := env_step (td_cx td) e\<rparr>"

fun teardown_step :: "u64 \<times> teardown_state \<Rightarrow> lane_cell \<times> teardown_op \<Rightarrow> u64 \<times> teardown_state" where
  "teardown_step (seen, td) (lane, TdEnv e) = (seen, td_effect (TdEnv e) td)"
| "teardown_step (seen, td) (lane, op) =
     (if td_result td \<noteq> None then (seen, td)
      else if lane_has_changed lane seen
      then (lc_version lane, if kill_stored lane then td\<lparr>td_result := Some TeardownKilled\<rparr> else td)
      else (seen, settle_next lane (td_effect op td)))"

section \<open>What a letter leaves\<close>

lemma config_frames:
  "ss_config (record_collected_end k n sv) = ss_config sv"
  "ss_config (join_restart t sv) = ss_config sv"
  "ss_config (adopt_runner t k n sv) = ss_config sv"
  "ss_config (record_cancelled k n sv) = ss_config sv"
  by (auto simp: record_collected_end_def release_barrier_def set_stopping_def record_down_def Let_def
      sup_modify_fields join_restart_def adopt_runner_def spawn_death_def record_cancelled_def
      split: option.splits group_phase.splits child_lifecycle.splits)

lemma record_restart_outcome_config:
  "record_restart_outcome out panic cx = (a, panic', cx') \<Longrightarrow> ss_config (cx_sup cx') = ss_config (cx_sup cx)"
  by (cases out) (auto simp: take_task_id_def Let_def config_frames split: if_splits)

lemma lost_restart_config:
  "ctx_lost_restart_task t p cx = (out, r, cx') \<Longrightarrow> ss_config (cx_sup cx') = ss_config (cx_sup cx)"
  by (auto simp: ctx_lost_restart_task_def lost_restart_task_def Let_def take_task_id_def note_task_error_def
      spawn_death_def split: option.splits prod.splits if_splits)

lemma on_child_ctl_config: "ss_config (cx_sup (on_child_ctl k f cx)) = ss_config (cx_sup cx)"
  by (simp add: on_child_ctl_def sup_modify_fields)

lemma env_step_config: "ss_config (cx_sup (env_step cx e)) = ss_config (cx_sup cx)"
  by (cases e) (simp_all add: on_child_ctl_config)

text \<open>The walk's place: the children still to come, the ids of the waits, the result and the strategy.\<close>

definition td_place :: "teardown_state \<Rightarrow> actor_id list \<times> actor_id list \<times> teardown_result option \<times> bool" where
  "td_place td = (td_order td, map sw_id (td_waits td), td_result td, is_pool (cx_sup (td_cx td)))"

lemma sw_id_note_report [simp]: "sw_id (note_report k n a w) = sw_id w"
  by (simp add: note_report_def)

lemma teardown_outcome_place:
  assumes "teardown_outcome out td = (r, td')"
  shows "td_place td' = td_place td"
proof -
  obtain k n runner reason panic cx where
    rec: "record_restart_outcome out (td_panic td) (td_cx td) = ((k, n, runner, reason), panic, cx)"
    by (metis prod.exhaust)
  from record_restart_outcome_config [OF rec] assms show ?thesis
    by (auto simp: teardown_outcome_def rec td_place_def is_pool_def config_frames split: if_splits)
qed

lemma td_place_waits:
  "map sw_id ws = map sw_id (td_waits td) \<Longrightarrow> td_place (td\<lparr>td_waits := ws\<rparr>) = td_place td"
  by (simp add: td_place_def)

lemma drain_restart_place: "td_place (drain_restart t out td) = td_place td"
proof -
  let ?td = "td\<lparr>td_cx := on_sup (join_restart t) (td_cx td)\<rparr>"
  obtain k n a td1 where o: "teardown_outcome out ?td = ((k, n, a), td1)" by (metis prod.exhaust)
  have "td_place td1 = td_place ?td" by (rule teardown_outcome_place [OF o])
  also have "\<dots> = td_place td" by (simp add: td_place_def is_pool_def config_frames)
  finally show ?thesis by (simp add: drain_restart_def o td_place_waits)
qed

lemma drain_restart_lost_place: "td_place (drain_restart_lost t p td) = td_place td"
proof -
  obtain out r cx where l: "ctx_lost_restart_task t p (td_cx td) = (out, r, cx)" by (metis prod.exhaust)
  have cx: "td_place (td\<lparr>td_cx := cx\<rparr>) = td_place td"
    using lost_restart_config [OF l] by (simp add: td_place_def is_pool_def)
  show ?thesis
  proof (cases out)
    case None
    with cx show ?thesis
      by (auto simp: drain_restart_lost_def l Let_def td_place_def split: option.splits)
  next
    case (Some o')
    obtain k n a td1 where o: "teardown_outcome o' (td\<lparr>td_cx := cx\<rparr>) = ((k, n, a), td1)"
      by (metis prod.exhaust)
    from teardown_outcome_place [OF o] cx Some show ?thesis
      by (simp add: drain_restart_lost_def l Let_def o td_place_waits)
  qed
qed

lemma settle_cell_place: "td_place (settle_cell i ended td) = td_place td"
proof -
  have "map sw_id (ws[i := (ws ! i)\<lparr>sw_settled := x\<rparr>]) = map sw_id ws" for ws :: "stop_wait list" and i x
    by (simp add: map_update list_update_same_conv) (metis list_update_id length_map nth_map list_update_beyond not_le)
  then show ?thesis
    by (auto simp: settle_cell_def Let_def td_place_def is_pool_def on_child_ctl_config split: option.splits)
qed

lemma td_effect_place: "td_place (td_effect op td) = td_place td"
proof (cases op)
  case (TdEnv e)
  then show ?thesis by (simp add: td_place_def is_pool_def env_step_config)
qed (simp_all add: settle_cell_place drain_restart_place drain_restart_lost_place)

section \<open>The walk\<close>

definition nothing_to_stop :: "supervision_state \<Rightarrow> actor_id \<Rightarrow> bool" where
  "nothing_to_stop sv k = (case sup_life sv k of None \<Rightarrow> True | Some (Down _ _) \<Rightarrow> True | _ \<Rightarrow> False)"

lemma teardown_child_walked:
  assumes "sup_child (cx_sup cx) k = Some child"
  shows "teardown_child k (teardown_action_of (walk_child_of child)) cx = (None, cx) \<and> nothing_to_stop (cx_sup cx) k \<or>
    (\<exists>w cx'. teardown_child k (teardown_action_of (walk_child_of child)) cx = (Some w, cx') \<and> sw_id w = k \<and>
      sw_settled w = None \<and> ss_config (cx_sup cx') = ss_config (cx_sup cx))"
  using assms
  by (cases "ch_lifecycle child")
    (auto simp: teardown_child_def teardown_action_of_def walk_child_of_def Let_def stop_wait_for_def
      nothing_to_stop_def sup_life_def on_child_ctl_config)

text \<open>Where a walk over \<open>ks\<close> stops: at the next child with something to stop, or done at the end.\<close>

definition walk_stops ::
  "lane_cell \<Rightarrow> supervision_state \<Rightarrow> actor_id list \<Rightarrow> actor_id list \<Rightarrow> teardown_state \<Rightarrow> bool" where
  "walk_stops lane sv ks passed td \<longleftrightarrow>
     ks = passed @ map sw_id (td_waits td) @ td_order td \<and> (\<forall>k \<in> set passed. nothing_to_stop sv k) \<and>
     (td_waits td = [] \<and> td_order td = [] \<and> td_result td = Some TeardownDone \<or>
      (\<exists>w. td_waits td = [w] \<and> sw_settled w = None \<and>
         td_result td = (if kill_stored lane then Some TeardownKilled else None))) \<and>
     is_pool (cx_sup (td_cx td)) = is_pool sv"

lemma walk_on_stops: "\<exists>passed. walk_stops lane (cx_sup (td_cx td)) ks passed (walk_on lane ks td)"
proof (induction ks arbitrary: td)
  case Nil
  then show ?case by (simp add: walk_stops_def td_finish_def)
next
  case (Cons k ks)
  obtain passed where IH: "walk_stops lane (cx_sup (td_cx td)) ks passed (walk_on lane ks td)"
    using Cons.IH by blast
  have pass: "walk_stops lane (cx_sup (td_cx td)) (k # ks) (k # passed) (walk_on lane ks td)"
    if "nothing_to_stop (cx_sup (td_cx td)) k"
    using IH that by (simp add: walk_stops_def)
  show ?case
  proof (cases "sup_child (cx_sup (td_cx td)) k")
    case None
    then have "nothing_to_stop (cx_sup (td_cx td)) k" by (simp add: nothing_to_stop_def sup_life_def)
    from pass [OF this] None show ?thesis by auto
  next
    case (Some child)
    let ?a = "teardown_action_of (walk_child_of child)"
    have walk: "teardown_walk s [(k, walk_child_of child)] = [(k, ?a)]" for s
      by (simp add: teardown_walk_def)
    from teardown_child_walked [OF Some]
    consider (Idle) "teardown_child k ?a (td_cx td) = (None, td_cx td)" "nothing_to_stop (cx_sup (td_cx td)) k"
      | (Stop) w cx' where "teardown_child k ?a (td_cx td) = (Some w, cx')" "sw_id w = k" "sw_settled w = None"
          "ss_config (cx_sup cx') = ss_config (cx_sup (td_cx td))"
      by blast
    then show ?thesis
    proof cases
      case Idle
      from pass [OF Idle(2)] Idle(1) Some walk show ?thesis by auto
    next
      case Stop
      with Some walk show ?thesis by (intro exI [of _ "[]"]) (simp add: walk_stops_def is_pool_def)
    qed
  qed
qed

section \<open>Newest first\<close>

text \<open>The walk over \<open>all\<close> is at the child it waits for, or it is over.\<close>

definition newest_first :: "actor_id list \<Rightarrow> u64 \<times> teardown_state \<Rightarrow> bool" where
  "newest_first all s =
     (case s of (_, td) \<Rightarrow>
        \<not> is_pool (cx_sup (td_cx td)) \<and>
        (\<exists>visited. all = visited @ td_order td \<and>
           (td_waits td = [] \<and> td_order td = [] \<and> td_result td = Some TeardownDone \<or>
            (\<exists>w. td_waits td = [w] \<and> visited \<noteq> [] \<and> last visited = sw_id w))))"

lemma newest_first_walk:
  assumes "walk_stops lane sv ks passed td" "\<not> is_pool sv" "all = before @ ks"
  shows "newest_first all (seen, td)"
proof -
  have "all = (before @ passed @ map sw_id (td_waits td)) @ td_order td"
    using assms(1,3) by (simp add: walk_stops_def)
  then show ?thesis
    using assms(1,2) unfolding newest_first_def walk_stops_def by auto
qed

lemma newest_first_place:
  assumes "newest_first all (seen, td)" "td_place td' = td_place td"
  shows "newest_first all (seen', td')"
  using assms by (auto simp: newest_first_def td_place_def map_eq_Cons_conv)

lemma newest_first_result:
  "newest_first all (seen, td) \<Longrightarrow> td_result td = None \<Longrightarrow>
   newest_first all (seen', td\<lparr>td_result := Some TeardownKilled\<rparr>)"
  by (auto simp: newest_first_def)

lemma settle_next_newest:
  assumes "newest_first all (seen, td)"
  shows "newest_first all (seen', settle_next lane td)"
proof (cases "td_result td = None \<and> all_done td")
  case True
  obtain before where "all = before @ td_order td" "\<not> is_pool (cx_sup (td_cx td))"
    using assms by (auto simp: newest_first_def)
  with True show ?thesis
    using walk_on_stops [of lane td "td_order td"] by (auto simp: settle_next_def intro: newest_first_walk)
next
  case False
  with assms show ?thesis by (auto simp: settle_next_def newest_first_def)
qed

lemma teardown_step_cases:
  obtains (Env) e where "snd letter = TdEnv e"
      "teardown_step (seen, td) letter = (seen, td_effect (TdEnv e) td)"
  | (Over) "td_result td \<noteq> None" "teardown_step (seen, td) letter = (seen, td)"
  | (Lane) "td_result td = None" "lane_has_changed (fst letter) seen"
      "teardown_step (seen, td) letter = (lc_version (fst letter),
         if kill_stored (fst letter) then td\<lparr>td_result := Some TeardownKilled\<rparr> else td)"
  | (Event) "td_result td = None" "\<not> lane_has_changed (fst letter) seen"
      "teardown_step (seen, td) letter = (seen, settle_next (fst letter) (td_effect (snd letter) td))"
proof -
  obtain lane op where l: "letter = (lane, op)" by (cases letter)
  have step: "teardown_step (seen, td) letter =
      (if td_result td \<noteq> None then (seen, td)
       else if lane_has_changed lane seen
       then (lc_version lane, if kill_stored lane then td\<lparr>td_result := Some TeardownKilled\<rparr> else td)
       else (seen, settle_next lane (td_effect op td)))" if "\<nexists>e. op = TdEnv e"
    using that l by (cases op) simp_all
  show thesis
  proof (cases "\<exists>e. op = TdEnv e")
    case True
    then show thesis using l Env by auto
  next
    case False
    show thesis
      using step [OF False] l Over Lane Event
      by (cases "td_result td"; cases "lane_has_changed lane seen") auto
  qed
qed

lemma teardown_step_newest:
  assumes inv: "newest_first all (seen, td)"
  shows "newest_first all (teardown_step (seen, td) letter)"
proof (cases rule: teardown_step_cases [of letter seen td])
  case (Env e)
  show ?thesis unfolding Env(2) by (rule newest_first_place [OF inv td_effect_place])
next
  case Over
  with inv show ?thesis by simp
next
  case Lane
  show ?thesis
    unfolding Lane(3) using newest_first_result [OF inv Lane(1)] newest_first_place [OF inv refl] by simp
next
  case Event
  show ?thesis
    unfolding Event(3) by (rule settle_next_newest) (rule newest_first_place [OF inv td_effect_place])
qed

interpretation newest: invariant_machine teardown_step "newest_first all"
  for all
proof
  fix s :: "u64 \<times> teardown_state" and letter
  assume "newest_first all s"
  then show "newest_first all (teardown_step s letter)"
    by (cases s) (simp add: teardown_step_newest)
qed

lemma stop_all_begin_newest:
  assumes "\<not> is_pool (cx_sup cx)"
  shows "newest_first (rev (all_ids (ss_registry (cx_sup cx)))) (seen, stop_all_begin env lane panic cx)"
proof -
  let ?order = "rev (all_ids (ss_registry (cx_sup cx)))"
  define td where "td = \<lparr>td_cx = on_sup (\<lambda>sv. sv\<lparr>ss_restart_fns := [], ss_pending_group := None,
      ss_queued_triggers := []\<rparr>) cx, td_order = ?order, td_waits = [],
    td_panic = drop_factories (env_drop env) (map snd (ss_restart_fns (cx_sup cx))) panic, td_result = None\<rparr>"
  have pool: "\<not> is_pool (cx_sup (td_cx td))" using assms by (simp add: td_def is_pool_def)
  have "stop_all_begin env lane panic cx = walk_on lane ?order td"
    using assms by (simp add: stop_all_begin_def Let_def td_def is_pool_def)
  with walk_on_stops [of lane td ?order] pool show ?thesis
    by (auto intro: newest_first_walk [where before = "[]"])
qed

lemma walk_moves_when_done:
  assumes "newest_first all (seen, td)" "teardown_step (seen, td) (lane, op) = (seen', td')"
    and "td_order td' \<noteq> td_order td"
  shows "all_done (td_effect op td) \<and>
    (\<exists>passed. td_order td = passed @ map sw_id (td_waits td') @ td_order td' \<and>
      (\<forall>k \<in> set passed. nothing_to_stop (cx_sup (td_cx (td_effect op td))) k))"
proof (cases rule: teardown_step_cases [of "(lane, op)" seen td])
  case (Env e)
  then show ?thesis using assms(2,3) td_effect_place [of "TdEnv e" td] by (simp add: td_place_def)
next
  case Event
  let ?td = "td_effect op td"
  have place: "td_order ?td = td_order td" "td_result ?td = None" "\<not> is_pool (cx_sup (td_cx ?td))"
    using td_effect_place [of op td] Event(1) assms(1) by (simp_all add: td_place_def newest_first_def)
  have td': "td' = settle_next lane ?td" using assms(2) Event(3) by simp
  with assms(3) place have fin: "all_done ?td"
    by (auto simp: settle_next_def split: if_splits)
  with place td' have "td' = walk_on lane (td_order td) ?td" by (simp add: settle_next_def)
  with walk_on_stops [of lane ?td "td_order td"] fin show ?thesis
    by (auto simp: walk_stops_def)
qed (use assms(2,3) in \<open>auto split: if_splits\<close>)

text \<open>The teardown ends as killed only at a read of a lane that holds a \<open>Kill\<close>.\<close>

lemma settle_next_killed:
  "td_result td \<noteq> Some TeardownKilled \<Longrightarrow> td_result (settle_next lane td) = Some TeardownKilled \<Longrightarrow> kill_stored lane"
  using walk_on_stops [of lane td "td_order td"]
  by (auto simp: settle_next_def td_finish_def walk_stops_def split: if_splits)

lemma teardown_step_killed:
  assumes "teardown_step (seen, td) (lane, op) = (seen', td')" "td_result td \<noteq> Some TeardownKilled"
    and "td_result td' = Some TeardownKilled"
  shows "kill_stored lane"
proof (cases rule: teardown_step_cases [of "(lane, op)" seen td])
  case (Env e)
  then show ?thesis using assms td_effect_place [of "TdEnv e" td] by (simp add: td_place_def)
next
  case Event
  then have "td_result (td_effect op td) \<noteq> Some TeardownKilled"
    using td_effect_place [of op td] by (simp add: td_place_def)
  with Event assms(1,3) show ?thesis by (auto intro: settle_next_killed)
qed (use assms in \<open>auto split: if_splits\<close>)

lemma stop_all_begin_killed:
  assumes "td_result (stop_all_begin env lane panic cx) = Some TeardownKilled"
  shows "kill_stored lane"
proof (rule ccontr)
  assume no: "\<not> kill_stored lane"
  have "td_result (walk_on lane ks td) \<noteq> Some TeardownKilled" for ks td
    using walk_on_stops [of lane td ks] no by (auto simp: walk_stops_def)
  moreover have "td_result (settle_next lane td) \<noteq> Some TeardownKilled" if "td_result td = None" for td
    using settle_next_killed [of td lane] no that by auto
  ultimately show False
    using assms no by (simp add: stop_all_begin_def Let_def split: if_splits prod.splits)
qed

section \<open>Properties\<close>


definition example_fate :: slot where
  "example_fate = record_fate \<lparr>cf_reason = Graceful, cf_incarnation = 2\<rparr> (slot_pair_for (Some (''b'', 2)))"


end
