(* ===== verification/Actor_Run.thy ===== *)
theory Actor_Run
  imports Teardown
begin

text \<open>
  The life of one actor task (\<open>run_actor\<close>, \<open>dispatch\<close> and the ends of what the task holds in
  \<open>src/src/actor/runtime.rs\<close>): initialization, message loop, final deliveries, \<open>on_stopped\<close>, the children's teardown
  and the end, as a machine with one step between any two points where another task can act.

  The state holds the incarnation's stop lane and status plane, the context, and the locals of \<open>run_actor\<close>.  Its
  letters are the task's own next step, the return of the callback in progress and the calls it makes, what a
  wait or the \<open>select!\<close> of the loop finds, a request another task raises on the lane, and an abort.  The
  fast path of the loop takes the mailbox only where the \<open>select!\<close> would, so both are the letter of the mailbox;
  when it yields to the runtime is left out.  The callbacks begun so far are listed in \<open>ra_hooks\<close>.
\<close>

section \<open>State\<close>

datatype hook = PreStart | OnStarted | PreStop stop_reason | Handle bool | OnStopped

text \<open>
  How a callback ended: with a value (for \<open>pre_stop\<close>, whether it accepts the stop), an error or a panic, or with a value
  nobody receives whose drop panicked.
\<close>

datatype hook_return = Returned bool | ReturnedErr actor_error | Panicked string | DropPanicked string

text \<open>The branches of the \<open>select!\<close> below the stop lane; a message says whether its sender waits for an answer.\<close>

datatype loop_event =
    PickSystem
  | PickSystemClosed
  | PickSupervision sup_event
  | PickForwarder
  | PickPriority bool
  | PickPriorityClosed
  | PickMail bool
  | PickMailClosed

datatype tail_pc =
    LastRead
  | Narrow
  | AtChildren
  | StoppingChildren teardown_state
  | ChildrenStopped
  | FreeName
  | AwaitForwarders
  | Seal
  | AnswerHeld
  | WriteReason
  | AnswerAck
  | DropOwned
  | Publish
  | Release

datatype abort_pc = UnpolledName | AbortName | AbortReason | AbortDrops

datatype run_pc =
    Unpolled
  | CheckBeforeStart
  | CheckAfterPreStart
  | CallHook hook
  | InHook hook
  | ReadAfterPreStop stop_reason hook_return
  | AtSelect
  | Picked loop_event
  | LoopEnded
  | Collecting collect_state
  | Draining drain_state
  | ReadBeforeOnStopped
  | Tail tail_pc
  | Aborting abort_pc stop_reason
  | Finished stop_reason
  | Aborted

datatype ack = NoAck | AckOpen | AckOk | AckErr actor_error | AckDropped

datatype held_answer = NoHeld | Held actor_error | HeldSent actor_error | HeldDropped

record run_state =
  ra_pc :: run_pc
  ra_lane :: lane_cell
  ra_seen :: u64
  ra_plane :: status_cell
  ra_cx :: sup_ctx
  ra_supervisor :: bool
  ra_reason :: stop_reason
  ra_init :: "actor_error option"
  ra_ack :: ack
  ra_pending :: "stop_reason option"
  ra_panic :: "string option"
  ra_held :: held_answer
  ra_mailbox_closed :: bool
  ra_priority :: bool
  ra_lanes_open :: bool
  ra_guard :: bool
  ra_hooks :: "hook list"

text \<open>
  A spawned task before its first poll: the name is registered and the plane has its four senders (the task's, the
  registry guard's, the context's and the abort guard's).  A spawn with \<open>keep_status\<close> makes one more, which its
  caller holds: it only delays the close of the plane.
\<close>

definition spawned_plane :: status_cell where
  "spawned_plane = status_tx_clone (status_tx_clone (status_tx_clone (snd (status_channel status_cell_new))))"

definition run_spawned :: "bool \<Rightarrow> bool \<Rightarrow> bool \<Rightarrow> sup_ctx \<Rightarrow> run_state" where
  "run_spawned supervisor acked priority cx =
     \<lparr>ra_pc = Unpolled, ra_lane = lane_cell_new, ra_seen = 0, ra_plane = spawned_plane, ra_cx = cx,
      ra_supervisor = supervisor, ra_reason = Graceful, ra_init = None, ra_ack = (if acked then AckOpen else NoAck),
      ra_pending = None, ra_panic = None, ra_held = NoHeld, ra_mailbox_closed = False, ra_priority = priority,
      ra_lanes_open = True, ra_guard = True, ra_hooks = []\<rparr>"

section \<open>Initialization\<close>

text \<open>
  The lane is read before \<open>pre_start\<close> and after it returns: a pending \<open>Kill\<close> skips the start hooks left, records no failure
  and answers no ack.
\<close>

definition killed_in_init :: "run_state \<Rightarrow> run_state" where
  "killed_in_init s = s\<lparr>ra_reason := Kill, ra_pc := Tail LastRead\<rparr>"

definition init_check :: "hook \<Rightarrow> run_state \<Rightarrow> run_state" where
  "init_check h s =
     (if init_kill_check (lane_reason (ra_lane s)) = InitKillNow then killed_in_init s
      else s\<lparr>ra_pc := CallHook h\<rparr>)"

definition init_failed :: "actor_error \<Rightarrow> run_state \<Rightarrow> run_state" where
  "init_failed e s =
     s\<lparr>ra_init := Some e, ra_cx := record_failure e (ra_cx s), ra_reason := Failure e, ra_pc := Tail LastRead\<rparr>"

definition init_done :: "run_state \<Rightarrow> run_state" where
  "init_done s =
     s\<lparr>ra_plane := set_status StRunning (ra_plane s),
       ra_ack := (if ra_ack s = AckOpen then AckOk else ra_ack s),
       ra_reason := Graceful, ra_pc := AtSelect\<rparr>"

section \<open>The loop\<close>

definition break_with :: "stop_reason \<Rightarrow> run_state \<Rightarrow> run_state" where
  "break_with r s = s\<lparr>ra_reason := r, ra_pc := LoopEnded\<rparr>"

definition fail_loop :: "actor_error \<Rightarrow> run_state \<Rightarrow> run_state" where
  "fail_loop e s = break_with (Failure e) (s\<lparr>ra_cx := record_failure e (ra_cx s)\<rparr>)"

text \<open>The stop lane's branch: \<open>borrow_and_update\<close>, then by the tier of the reason.\<close>

definition lane_branch :: "run_state \<Rightarrow> run_state" where
  "lane_branch s0 =
     (let s = s0\<lparr>ra_seen := lc_version (ra_lane s0)\<rparr> in
      case lane_reason (ra_lane s) of
        None \<Rightarrow> s
      | Some r \<Rightarrow>
          if r = Graceful \<or> r = ParentRequest then s\<lparr>ra_pc := CallHook (PreStop r)\<rparr>
          else break_with r s)"

text \<open>The read of the lane after \<open>pre_stop\<close> returned, which marks no version as seen.\<close>

definition after_pre_stop :: "stop_reason \<Rightarrow> hook_return \<Rightarrow> run_state \<Rightarrow> run_state" where
  "after_pre_stop r ret s =
     (let latest = lane_reason (ra_lane s) in
      if latest = Some Kill then break_with Kill s
      else case ret of
          Panicked p \<Rightarrow>
            (let s1 = s\<lparr>ra_cx := record_failure (Panic p) (ra_cx s)\<rparr> in
             case latest of
               Some (Failure e) \<Rightarrow> break_with (Failure e) s1
             | _ \<Rightarrow> break_with (Failure (Panic p)) s1)
        | Returned accepted \<Rightarrow>
            (case latest of
               Some l \<Rightarrow>
                 if severity_of l = SevForced then break_with l s
                 else if accepted then break_with l s
                 else s\<lparr>ra_pc := AtSelect\<rparr>
             | None \<Rightarrow> if accepted then break_with r s else s\<lparr>ra_pc := AtSelect\<rparr>)
        | _ \<Rightarrow> s)"

text \<open>\<open>dispatch\<close>, after the handler returned.\<close>

definition hold_answer :: "bool \<Rightarrow> actor_error \<Rightarrow> run_state \<Rightarrow> run_state" where
  "hold_answer responder e s = (if responder then s\<lparr>ra_held := Held e\<rparr> else s)"

fun dispatch_end :: "bool \<Rightarrow> hook_return \<Rightarrow> run_state \<Rightarrow> run_state" where
  "dispatch_end responder (Returned _) s = s\<lparr>ra_pc := AtSelect\<rparr>"
| "dispatch_end responder (DropPanicked p) s = fail_loop (Panic p) s"
| "dispatch_end responder (ReturnedErr e) s = fail_loop e (hold_answer responder e s)"
| "dispatch_end responder (Panicked p) s = fail_loop (Panic p) (hold_answer responder (Panic p) s)"

text \<open>
  The branches below the lane.  A supervision event runs its whole turn: the turn reads no lane, so what others
  raise meanwhile may as well come before or after it.
\<close>

fun loop_branch :: "sup_env \<Rightarrow> loop_event \<Rightarrow> run_state \<Rightarrow> run_state" where
  "loop_branch env PickSystem s = s\<lparr>ra_pc := AtSelect\<rparr>"
| "loop_branch env PickSystemClosed s = s\<lparr>ra_pc := LoopEnded\<rparr>"
| "loop_branch env (PickSupervision e) s =
     (case supervision_turn env e (ra_cx s) of
        None \<Rightarrow> s
      | Some (Continue, cx) \<Rightarrow> s\<lparr>ra_cx := cx, ra_pc := AtSelect\<rparr>
      | Some (Break r, cx) \<Rightarrow> break_with r (s\<lparr>ra_cx := cx\<rparr>))"
| "loop_branch env PickForwarder s =
     (case (if ra_supervisor s then check_verdicts (ra_cx s) else (None, ra_cx s)) of
        (None, cx) \<Rightarrow> s\<lparr>ra_cx := cx, ra_pc := AtSelect\<rparr>
      | (Some r, cx) \<Rightarrow> break_with r (s\<lparr>ra_cx := cx\<rparr>))"
| "loop_branch env (PickPriority responder) s = s\<lparr>ra_pc := InHook (Handle responder), ra_hooks := ra_hooks s @ [Handle responder]\<rparr>"
| "loop_branch env PickPriorityClosed s =
     s\<lparr>ra_priority := False, ra_pc := (if ra_mailbox_closed s then LoopEnded else AtSelect)\<rparr>"
| "loop_branch env (PickMail responder) s = s\<lparr>ra_pc := InHook (Handle responder), ra_hooks := ra_hooks s @ [Handle responder]\<rparr>"
| "loop_branch env PickMailClosed s =
     (if \<not> ra_priority s then s\<lparr>ra_pc := LoopEnded\<rparr>
      else s\<lparr>ra_mailbox_closed := True, ra_pc := AtSelect\<rparr>)"

text \<open>The branches that are enabled: supervision events at a supervisor, the lanes that are still received from.\<close>

fun pick_enabled :: "run_state \<Rightarrow> loop_event \<Rightarrow> bool" where
  "pick_enabled s (PickSupervision e) = ra_supervisor s"
| "pick_enabled s (PickPriority r) = ra_priority s"
| "pick_enabled s PickPriorityClosed = ra_priority s"
| "pick_enabled s (PickMail r) = (\<not> ra_mailbox_closed s)"
| "pick_enabled s PickMailClosed = (\<not> ra_mailbox_closed s)"
| "pick_enabled s _ = True"

section \<open>After the loop\<close>

definition loop_ended :: "run_state \<Rightarrow> run_state" where
  "loop_ended s =
     (if ra_reason s = Kill then s\<lparr>ra_pc := Tail LastRead\<rparr>
      else let s1 = s\<lparr>ra_plane := set_status StStopping (ra_plane s)\<rparr>
           in if ra_supervisor s then s1\<lparr>ra_pc := Collecting (collect_begin (ra_panic s) (ra_cx s))\<rparr>
              else s1\<lparr>ra_pc := ReadBeforeOnStopped\<rparr>)"

definition draining :: "sup_env \<Rightarrow> drain_state \<Rightarrow> run_state \<Rightarrow> run_state" where
  "draining env d s =
     (case dr_outcome d of
        None \<Rightarrow> s\<lparr>ra_pc := Draining (drain_step env (ra_reason s) d (ra_lane s))\<rparr>
      | Some FinalKilled \<Rightarrow> s\<lparr>ra_cx := dr_cx d, ra_reason := Kill, ra_pc := Tail LastRead\<rparr>
      | Some (FinalDone pending) \<Rightarrow>
          s\<lparr>ra_cx := dr_cx d, ra_pending := pending, ra_pc := ReadBeforeOnStopped\<rparr>)"

definition read_before_on_stopped :: "run_state \<Rightarrow> run_state" where
  "read_before_on_stopped s =
     (if kill_stored (ra_lane s) then s\<lparr>ra_reason := Kill, ra_pc := Tail LastRead\<rparr>
      else s\<lparr>ra_pc := CallHook OnStopped\<rparr>)"

definition unless_failure :: "actor_error \<Rightarrow> stop_reason \<Rightarrow> stop_reason" where
  "unless_failure e r = (if is_failure r then r else Failure e)"

definition after_on_stopped :: "hook_return \<Rightarrow> run_state \<Rightarrow> run_state" where
  "after_on_stopped ret s =
     (let r = (case ra_pending s of Some p \<Rightarrow> p | None \<Rightarrow> ra_reason s);
          s1 = s\<lparr>ra_reason := r, ra_pc := Tail LastRead\<rparr>
      in (case ret of
            ReturnedErr e \<Rightarrow> s1\<lparr>ra_reason := unless_failure e r\<rparr>
          | Panicked p \<Rightarrow>
              s1\<lparr>ra_cx := record_failure (Panic p) (ra_cx s), ra_reason := unless_failure (Panic p) r\<rparr>
          | _ \<Rightarrow> s1))"

fun hook_returned :: "hook \<Rightarrow> hook_return \<Rightarrow> run_state \<Rightarrow> run_state" where
  "hook_returned PreStart ret s =
     (case ret of
        ReturnedErr e \<Rightarrow> init_failed e s
      | Panicked p \<Rightarrow> init_failed (Panic p) s
      | _ \<Rightarrow> s\<lparr>ra_pc := CheckAfterPreStart\<rparr>)"
| "hook_returned OnStarted ret s =
     (case ret of
        ReturnedErr e \<Rightarrow> init_failed e s
      | Panicked p \<Rightarrow> init_failed (Panic p) s
      | _ \<Rightarrow> init_done s)"
| "hook_returned (PreStop r) ret s =
     (case ret of
        Returned b \<Rightarrow> s\<lparr>ra_pc := ReadAfterPreStop r ret\<rparr>
      | Panicked p \<Rightarrow> s\<lparr>ra_pc := ReadAfterPreStop r ret\<rparr>
      | _ \<Rightarrow> s)"
| "hook_returned (Handle responder) ret s = dispatch_end responder ret s"
| "hook_returned OnStopped ret s = after_on_stopped ret s"

section \<open>The end\<close>

definition end_drop_panicked :: "string option \<Rightarrow> stop_reason \<Rightarrow> stop_reason" where
  "end_drop_panicked panic r =
     (case panic of
        None \<Rightarrow> r
      | Some p \<Rightarrow> if r = Kill \<or> is_failure r then r else Failure (Panic p))"

text \<open>\<open>end_supervision\<close>: the factories are dropped one at a time, each drop caught, then the rest of the state.\<close>

definition end_supervision :: "sup_env \<Rightarrow> supervision_state \<Rightarrow> string option" where
  "end_supervision env sv = drop_factories (env_drop env) (map snd (ss_restart_fns sv)) None"

definition children_stopped :: "sup_env \<Rightarrow> run_state \<Rightarrow> run_state" where
  "children_stopped env s =
     (let panic = (if ra_reason s = Kill \<and> ra_supervisor s
            then keep_first_of (ra_panic s) (end_supervision env (cx_sup (ra_cx s))) else ra_panic s)
      in s\<lparr>ra_supervisor := False, ra_panic := None, ra_reason := end_drop_panicked panic (ra_reason s),
           ra_pc := Tail FreeName\<rparr>)"

definition drop_guard :: "run_state \<Rightarrow> run_state" where
  "drop_guard s = s\<lparr>ra_guard := False, ra_plane := snd (status_tx_drop (ra_plane s))\<rparr>"

definition seal_lane :: "run_state \<Rightarrow> run_state" where
  "seal_lane s =
     (case lane_seal (ra_lane s) of
        (r, lane) \<Rightarrow>
          s\<lparr>ra_lane := lane_rx_drop lane, ra_reason := (if r = Some Kill then Kill else ra_reason s),
            ra_pc := Tail AnswerHeld\<rparr>)"

definition deliver_held :: "run_state \<Rightarrow> run_state" where
  "deliver_held s =
     s\<lparr>ra_held := (case ra_held s of
          Held e \<Rightarrow> if ra_reason s = Kill then HeldDropped else HeldSent e
        | h \<Rightarrow> h),
       ra_pc := Tail WriteReason\<rparr>"

definition answer_ack :: "run_state \<Rightarrow> run_state" where
  "answer_ack s =
     s\<lparr>ra_ack := (if ra_ack s = AckOpen
          then (case ra_init s of
                  Some e \<Rightarrow> if ra_reason s = Kill then AckDropped else AckErr e
                | None \<Rightarrow> AckDropped)
          else ra_ack s),
       ra_pc := Tail DropOwned\<rparr>"

text \<open>\<open>Release\<close> is the return: the abort guard finds the reason written, and the last sender closes the plane.\<close>

fun tail_go :: "sup_env \<Rightarrow> tail_pc \<Rightarrow> run_state \<Rightarrow> run_state" where
  "tail_go env LastRead s =
     s\<lparr>ra_reason := (if kill_stored (ra_lane s) then Kill else ra_reason s), ra_pc := Tail Narrow\<rparr>"
| "tail_go env Narrow s =
     s\<lparr>ra_lane := close_to_non_kill (ra_lane s), ra_lanes_open := False, ra_pc := Tail AtChildren\<rparr>"
| "tail_go env AtChildren s =
     (if ra_reason s \<noteq> Kill \<and> ra_supervisor s
      then s\<lparr>ra_pc := Tail (StoppingChildren (stop_all_begin env (ra_lane s) (ra_panic s) (ra_cx s)))\<rparr>
      else s\<lparr>ra_pc := Tail ChildrenStopped\<rparr>)"
| "tail_go env (StoppingChildren td) s =
     (case td_result td of
        None \<Rightarrow> s
      | Some TeardownDone \<Rightarrow>
          s\<lparr>ra_cx := td_cx td, ra_panic := td_panic td, ra_supervisor := False, ra_pc := Tail ChildrenStopped\<rparr>
      | Some TeardownKilled \<Rightarrow>
          s\<lparr>ra_cx := td_cx td, ra_panic := td_panic td, ra_reason := Kill, ra_pc := Tail ChildrenStopped\<rparr>)"
| "tail_go env ChildrenStopped s = children_stopped env s"
| "tail_go env FreeName s = (drop_guard s)\<lparr>ra_pc := Tail AwaitForwarders\<rparr>"
| "tail_go env AwaitForwarders s = s"
| "tail_go env Seal s = seal_lane s"
| "tail_go env AnswerHeld s = deliver_held s"
| "tail_go env WriteReason s =
     s\<lparr>ra_plane := write_final_reason (cx_now (ra_cx s)) (ra_reason s) (ra_plane s), ra_pc := Tail AnswerAck\<rparr>"
| "tail_go env AnswerAck s = answer_ack s"
| "tail_go env DropOwned s = s\<lparr>ra_plane := snd (status_tx_drop (ra_plane s)), ra_pc := Tail Publish\<rparr>"
| "tail_go env Publish s = s\<lparr>ra_plane := publish_stopped (ra_plane s), ra_pc := Tail Release\<rparr>"
| "tail_go env Release s =
     s\<lparr>ra_plane := snd (status_tx_drop (snd (status_tx_drop (ra_plane s)))), ra_pc := Finished (ra_reason s)\<rparr>"

section \<open>Aborts\<close>

definition UNCAUGHT_PANIC :: string where
  "UNCAUGHT_PANIC = ''the actor's task panicked outside every catch''"

text \<open>\<open>TaskMarker::abort_reason\<close>: the marker is set while the task is polled.\<close>

definition marker_abort_reason :: "bool \<Rightarrow> bool \<Rightarrow> stop_reason" where
  "marker_abort_reason polled panicking =
     (if polled \<and> panicking then Failure (Panic UNCAUGHT_PANIC) else Kill)"

text \<open>Where the task waits, so that an abort can drop it.\<close>

fun suspended :: "run_pc \<Rightarrow> bool" where
  "suspended (InHook h) = True"
| "suspended AtSelect = True"
| "suspended (Picked (PickSupervision e)) = True"
| "suspended (Collecting c) = True"
| "suspended (Draining d) = True"
| "suspended ReadBeforeOnStopped = True"
| "suspended (Tail (StoppingChildren td)) = True"
| "suspended (Tail AwaitForwarders) = True"
| "suspended _ = False"

definition drop_answers :: "run_state \<Rightarrow> run_state" where
  "drop_answers s =
     s\<lparr>ra_held := (case ra_held s of Held e \<Rightarrow> HeldDropped | h \<Rightarrow> h),
       ra_ack := (if ra_ack s = AckOpen then AckDropped else ra_ack s)\<rparr>"

text \<open>
  An abort while suspended drops the body's locals and then the parameters from last to first: the answers, the
  registry guard, the lane's receiver, the abort guard, the context, the task's sender.  One before the first
  poll drops the parameters from first to last, so the context writes the reason and the registry guard and the ack
  come at the end.
\<close>

definition abort_task :: "bool \<Rightarrow> run_state \<Rightarrow> run_state" where
  "abort_task panicking s =
     (if ra_pc s = Unpolled
      then let r = marker_abort_reason False panicking;
               plane = snd (write_reason (cx_now (ra_cx s)) r False (snd (status_tx_drop (ra_plane s))));
               plane' = snd (status_tx_drop (snd (status_tx_drop plane)))
           in s\<lparr>ra_plane := plane', ra_lane := lane_rx_drop (ra_lane s), ra_lanes_open := False,
                ra_pc := Aborting UnpolledName r\<rparr>
      else if suspended (ra_pc s)
      then (drop_answers s)\<lparr>ra_pc := Aborting AbortName (marker_abort_reason True panicking)\<rparr>
      else s)"

fun abort_go :: "abort_pc \<Rightarrow> stop_reason \<Rightarrow> run_state \<Rightarrow> run_state" where
  "abort_go UnpolledName r s = (drop_answers (drop_guard s))\<lparr>ra_pc := Aborted\<rparr>"
| "abort_go AbortName r s =
     (let s1 = (if ra_guard s then drop_guard s else s)
      in s1\<lparr>ra_lane := lane_rx_drop (ra_lane s1), ra_pc := Aborting AbortReason r\<rparr>)"
| "abort_go AbortReason r s =
     s\<lparr>ra_plane := snd (status_tx_drop (abort_reason_drop (cx_now (ra_cx s)) r (ra_plane s))),
       ra_lanes_open := False, ra_pc := Aborting AbortDrops r\<rparr>"
| "abort_go AbortDrops r s =
     s\<lparr>ra_plane := snd (status_tx_drop (snd (status_tx_drop (snd (write_reason (cx_now (ra_cx s)) r False (ra_plane s)))))),
       ra_pc := Aborted\<rparr>"

section \<open>Steps\<close>

datatype run_op =
    Go
  | RaiseStop stop_reason
  | HookReturns hook_return
  | HookCalls ctx_op
  | Select loop_event
  | CollectOp collect_op
  | TeardownOp teardown_op
  | ForwardersEnded "string option"
  | RunEnv env_op
  | Abort bool

definition actor_go :: "sup_env \<Rightarrow> run_state \<Rightarrow> run_state" where
  "actor_go env s =
     (case ra_pc s of
        Unpolled \<Rightarrow> s\<lparr>ra_pc := CheckBeforeStart\<rparr>
      | CheckBeforeStart \<Rightarrow> init_check PreStart s
      | CheckAfterPreStart \<Rightarrow> init_check OnStarted s
      | CallHook h \<Rightarrow> s\<lparr>ra_pc := InHook h, ra_hooks := ra_hooks s @ [h]\<rparr>
      | ReadAfterPreStop r ret \<Rightarrow> after_pre_stop r ret s
      | AtSelect \<Rightarrow> if lane_has_changed (ra_lane s) (ra_seen s) then lane_branch s else s
      | Picked e \<Rightarrow> loop_branch env e s
      | LoopEnded \<Rightarrow> loop_ended s
      | Collecting c \<Rightarrow>
          if co_phase c = CollectDone then s\<lparr>ra_panic := co_panic c, ra_pc := Draining (drain_begin c)\<rparr> else s
      | Draining d \<Rightarrow> draining env d s
      | ReadBeforeOnStopped \<Rightarrow> read_before_on_stopped s
      | Tail t \<Rightarrow> tail_go env t s
      | Aborting a r \<Rightarrow> abort_go a r s
      | _ \<Rightarrow> s)"

fun actor_step :: "sup_env \<Rightarrow> run_state \<Rightarrow> run_op \<Rightarrow> run_state" where
  "actor_step env s Go = actor_go env s"
| "actor_step env s (RaiseStop r) = s\<lparr>ra_lane := snd (lane_raise (ra_lane s) r)\<rparr>"
| "actor_step env s (HookReturns ret) = (case ra_pc s of InHook h \<Rightarrow> hook_returned h ret s | _ \<Rightarrow> s)"
| "actor_step env s (HookCalls op) =
     (case ra_pc s of
        InHook h \<Rightarrow> if ra_supervisor s then s\<lparr>ra_cx := ctx_step (ra_cx s) op\<rparr> else s
      | _ \<Rightarrow> s)"
| "actor_step env s (Select e) =
     (if ra_pc s = AtSelect \<and> \<not> lane_has_changed (ra_lane s) (ra_seen s) \<and> pick_enabled s e
      then s\<lparr>ra_pc := Picked e\<rparr> else s)"
| "actor_step env s (CollectOp op) =
     (case ra_pc s of Collecting c \<Rightarrow> s\<lparr>ra_pc := Collecting (collect_step c op)\<rparr> | _ \<Rightarrow> s)"
| "actor_step env s (TeardownOp op) =
     (case ra_pc s of
        Tail (StoppingChildren td) \<Rightarrow>
          (case teardown_step (ra_seen s, td) (ra_lane s, op) of
             (seen, td') \<Rightarrow> s\<lparr>ra_seen := seen, ra_pc := Tail (StoppingChildren td')\<rparr>)
      | _ \<Rightarrow> s)"
| "actor_step env s (ForwardersEnded panic) =
     (if ra_pc s = Tail AwaitForwarders
      then s\<lparr>ra_reason := end_drop_panicked panic (ra_reason s), ra_pc := Tail Seal\<rparr> else s)"
| "actor_step env s (RunEnv e) = s\<lparr>ra_cx := env_step (ra_cx s) e\<rparr>"
| "actor_step env s (Abort panicking) = abort_task panicking s"

end
