(* ===== verification/Actor_Kill.thy ===== *)
theory Actor_Kill
  imports Actor_Run
begin

text \<open>
  What a \<open>Kill\<close> does to the task of \<open>Actor_Run\<close>: a \<open>Kill\<close> its lane took is its final reason, no other cause makes it
  one, and after one is stored at most the callback already chosen begins.
\<close>

section \<open>Only the lane gives a Kill\<close>

definition unkilled :: "flow \<Rightarrow> bool" where
  "unkilled fl \<longleftrightarrow> fl \<noteq> Break Kill"

lemma unkilled_simps [simp]: "unkilled Continue" "unkilled (Break r) \<longleftrightarrow> r \<noteq> Kill"
  by (simp_all add: unkilled_def)

lemma deliver_child_event_unkilled: "unkilled (fst (deliver_child_event env event cx))"
  by (simp add: deliver_child_event_def split: prod.splits hook_result.splits)

lemma deliver_absorbed_unkilled: "unkilled (fst (deliver_absorbed env ds cx))"
proof (induction env ds cx rule: deliver_absorbed.induct)
  case (2 env event n rest cx)
  then show ?case
    using deliver_child_event_unkilled [of env event cx] by (auto split: prod.splits flow.splits)
qed simp

lemma deliver_report_unkilled: "unkilled (fst (deliver_report env ev name action f work cx))"
  by (simp add: deliver_report_def split_def deliver_child_event_unkilled split: option.splits)

lemma budget_flow_unkilled: "unkilled (fst r) \<Longrightarrow> unkilled (fst (budget_exhausted_flow r))"
  by (cases "fst r") (simp_all add: budget_exhausted_flow_def split_def)

lemma drop_then_deliver_unkilled:
  "unkilled (fst (case drop_removed env fs cx of
       (Some e, cx1) \<Rightarrow> (Break (Failure e), f e cx1)
     | (None, cx1) \<Rightarrow> (case deliver_absorbed env ds cx1 of (fl, cx2) \<Rightarrow> (fl, work, cx2))))"
  by (simp add: split_def deliver_absorbed_unkilled split: option.splits)

lemma retry_group_unkilled: "unkilled (fst (retry_group env ev work cx))"
  unfolding retry_group_def Let_def split_def by (rule drop_then_deliver_unkilled [unfolded split_def])

lemma absorb_owed_unkilled: "unkilled (fst (absorb_owed env commit work cx))"
  unfolding absorb_owed_def Let_def split_def by (rule drop_then_deliver_unkilled [unfolded split_def])

lemma handle_group_unkilled: "unkilled (fst (handle_group env ev commit work cx))"
  using absorb_owed_unkilled [of env commit work cx]
  by (cases "fst (absorb_owed env commit work cx)") (simp_all add: handle_group_def Let_def split_def)

lemma handle_evaluate_unkilled: "unkilled (fst (handle_evaluate env ev work cx))"
proof (cases "fst (evaluate_strategy (cx_now cx) (csi_child_id ev) (csi_reason ev) (cx_sup cx))")
  case (RestartGroup commit)
  let ?cx = "cx\<lparr>cx_sup := snd (evaluate_strategy (cx_now cx) (csi_child_id ev) (csi_reason ev) (cx_sup cx))\<rparr>"
  show ?thesis
    using handle_group_unkilled [of env ev commit work ?cx] RestartGroup
    by (cases "fst (handle_group env ev commit work ?cx)")
      (simp_all add: handle_evaluate_def Let_def split_def deliver_report_unkilled)
qed (simp_all add: handle_evaluate_def Let_def split_def deliver_report_unkilled budget_flow_unkilled)

lemma worklist_step_unkilled: "unkilled (fst (worklist_step env ev work cx))"
proof -
  have "unkilled (fst (handle_snapshot env ev event work cx'))" for event cx'
    by (simp add: handle_snapshot_def Let_def split_def deliver_child_event_unkilled)
  moreover have "unkilled (fst (finish_manual env ev kind work cx'))" for kind cx'
    by (simp add: finish_manual_def split_def split: option.splits)
  moreover have "unkilled (fst (handle_deliver env ev action steps work cx'))" for action steps cx'
    by (simp add: handle_deliver_def Let_def split_def deliver_report_unkilled)
  moreover have "unkilled (fst (handle_chain_retry env ev work cx'))" for cx'
    by (simp add: handle_chain_retry_def Let_def split_def deliver_report_unkilled budget_flow_unkilled
        retry_group_unkilled)
  ultimately show ?thesis
    by (auto simp: worklist_step_def Let_def handle_evaluate_unkilled split: prod.splits option.splits routed.splits)
qed

lemma handle_worklist_unkilled:
  assumes "handle_worklist env first work cx = Some r"
  shows "unkilled (fst r)"
proof (rule handle_worklist.raw_induct [OF _ assms, where P = "\<lambda>env first work cx r. unkilled (fst r)"])
  fix hw :: "sup_env \<Rightarrow> child_stopped_internal option \<Rightarrow> worklist \<Rightarrow> sup_ctx \<Rightarrow> (flow \<times> worklist \<times> sup_ctx) option"
    and env first work cx r
  assume IH: "\<And>env first work cx r. hw env first work cx = Some r \<Longrightarrow> unkilled (fst r)"
    and body: "(case next_report first work of None \<Rightarrow> Some (Continue, work, cx)
      | Some (ev, rest) \<Rightarrow>
          (case worklist_step env ev rest cx of (fl, work', cx') \<Rightarrow>
             (case fl of
                Break r \<Rightarrow> Some (Break r, work', cx')
              | Continue \<Rightarrow> hw env None work' cx'))) = Some r"
  show "unkilled (fst r)"
  proof (cases "next_report first work")
    case None
    with body show ?thesis by auto
  next
    case (Some p)
    obtain ev rest where p: "p = (ev, rest)" by (cases p)
    obtain fl work' cx' where w: "worklist_step env ev rest cx = (fl, work', cx')" by (metis prod.exhaust)
    with body Some p IH worklist_step_unkilled [of env ev rest cx] show ?thesis
      by (cases fl) auto
  qed
qed

lemma owe_rest_unkilled: "unkilled (fst r) \<Longrightarrow> unkilled (fst (owe_rest r))"
  by (simp add: owe_rest_def split_def)

lemma handle_released_unkilled:
  "handle_released env work cx = Some r \<Longrightarrow> unkilled (fst r)"
  "handle_child_stopped env ev cx = Some r \<Longrightarrow> unkilled (fst r)"
  by (auto simp: handle_released_def handle_child_stopped_def intro!: owe_rest_unkilled
      dest!: handle_worklist_unkilled)

lemma handle_restart_outcome_unkilled:
  assumes "handle_restart_outcome env out cx = Some r"
  shows "unkilled (fst r)"
proof (cases out)
  case (Adopted k n)
  with assms show ?thesis
    by (auto simp: adopt_restart_def Let_def split: if_splits option.splits group_phase.splits prod.splits
        dest: handle_released_unkilled(1))
next
  case (OutcomeCancelled k n p)
  with assms show ?thesis
    by (auto simp: handle_cancelled_def Let_def split: if_splits option.splits prod.splits
        dest: handle_released_unkilled(1))
qed (use assms in \<open>auto simp: Let_def dest: handle_released_unkilled(2)\<close>)

lemma check_verdicts_unkilled: "check_verdicts cx = (Some r, cx') \<Longrightarrow> r \<noteq> Kill"
  by (auto simp: check_verdicts_def Let_def split: option.splits)

lemma supervision_event_unkilled:
  assumes "supervision_event env e cx = Some x"
  shows "unkilled (fst x)"
proof (cases e)
  case (RestartLost t payload)
  obtain out r cx1 where l: "ctx_lost_restart_task t payload cx = (out, r, cx1)" by (metis prod.exhaust)
  with assms RestartLost show ?thesis by (cases out) (auto dest: handle_restart_outcome_unkilled)
qed (use assms in \<open>auto dest: handle_restart_outcome_unkilled handle_released_unkilled(2)\<close>)

lemma supervision_turn_unkilled:
  assumes "supervision_turn env e cx = Some (Break r, cx')"
  shows "r \<noteq> Kill"
proof -
  obtain fl cx1 where ev: "supervision_event env e cx = Some (fl, cx1)"
    using assms by (auto simp: supervision_turn_def)
  show ?thesis
  proof (cases fl)
    case Continue
    obtain v cx2 where "check_verdicts cx1 = (v, cx2)" by (metis prod.exhaust)
    with assms ev Continue show ?thesis
      by (cases v) (auto simp: supervision_turn_def dest: check_verdicts_unkilled)
  next
    case (Break q)
    with assms ev supervision_event_unkilled [OF ev] show ?thesis by (simp add: supervision_turn_def)
  qed
qed

section \<open>A stored Kill stays\<close>

lemma kill_stored_raise: "kill_stored lane \<Longrightarrow> kill_stored (snd (lane_raise lane r))"
  using strength_lt_Kill [of r]
  by (cases "r = Kill") (auto simp: kill_stored_def lane_raise_reason stronger_def)

lemma kill_stored_ops [simp]:
  "kill_stored (close_to_non_kill lane) = kill_stored lane"
  "kill_stored (snd (lane_seal lane)) = kill_stored lane"
  "kill_stored (lane_rx_drop lane) = kill_stored lane"
  by (simp_all add: kill_stored_def lane_reason_def close_to_non_kill_def lane_seal_def lane_rx_drop_def Let_def)

text \<open>
  What a \<open>Kill\<close> in the locals means: the reason, the pending exit of the final deliveries and the outcomes of the two
  embedded machines are a \<open>Kill\<close> only when the lane holds one.
\<close>

fun gate_reason :: "hook \<Rightarrow> bool" where
  "gate_reason (PreStop r) = (r = Graceful \<or> r = ParentRequest)"
| "gate_reason _ = True"

definition drain_calm :: "lane_cell \<Rightarrow> drain_state \<Rightarrow> bool" where
  "drain_calm lane d \<longleftrightarrow> dr_pending d \<noteq> Some Kill \<and> dr_outcome d \<noteq> Some (FinalDone (Some Kill)) \<and>
     (dr_outcome d = Some FinalKilled \<longrightarrow> kill_stored lane)"

fun pc_calm :: "lane_cell \<Rightarrow> run_pc \<Rightarrow> bool" where
  "pc_calm lane (CallHook h) = gate_reason h"
| "pc_calm lane (InHook h) = gate_reason h"
| "pc_calm lane (ReadAfterPreStop r ret) = gate_reason (PreStop r)"
| "pc_calm lane (Draining d) = drain_calm lane d"
| "pc_calm lane (Tail (StoppingChildren td)) = (td_result td = Some TeardownKilled \<longrightarrow> kill_stored lane)"
| "pc_calm lane _ = True"

text \<open>From the seal on, the lane takes nothing more and the reason says whether it holds a \<open>Kill\<close>.\<close>

fun sealed_pc :: "run_pc \<Rightarrow> bool" where
  "sealed_pc (Tail t) = (t \<in> {AnswerHeld, WriteReason, AnswerAck, DropOwned, Publish, Release})"
| "sealed_pc (Finished r) = True"
| "sealed_pc _ = False"

definition kill_inv :: "run_state \<Rightarrow> bool" where
  "kill_inv s \<longleftrightarrow> (ra_reason s = Kill \<longrightarrow> kill_stored (ra_lane s)) \<and> ra_pending s \<noteq> Some Kill \<and>
     pc_calm (ra_lane s) (ra_pc s) \<and>
     (sealed_pc (ra_pc s) \<longrightarrow> lane_closed (ra_lane s) \<and> (kill_stored (ra_lane s) \<longrightarrow> ra_reason s = Kill)) \<and>
     (\<forall>r. ra_pc s = Finished r \<longrightarrow> r = ra_reason s)"

section \<open>Steps\<close>

lemma pc_calm_mono:
  "(kill_stored l \<Longrightarrow> kill_stored l') \<Longrightarrow> pc_calm l pc \<Longrightarrow> pc_calm l' pc"
  by (cases "(l, pc)" rule: pc_calm.cases) (auto simp: drain_calm_def)

lemma final_pending_unkilled: "p \<noteq> Some Kill \<Longrightarrow> final_pending accepted p r \<noteq> Some Kill"
  by (cases r) auto

lemma drain_step_calm:
  "drain_calm lane d \<Longrightarrow> dr_outcome d = None \<Longrightarrow> drain_calm lane (drain_step env accepted d lane)"
  using final_pending_unkilled [of "dr_pending d" accepted]
  by (auto simp: drain_calm_def drain_step_def Let_def split: list.splits prod.splits)

lemma drain_begin_calm: "drain_calm lane (drain_begin c)"
  by (simp add: drain_calm_def drain_begin_def)

lemma unless_failure_unkilled: "r \<noteq> Kill \<Longrightarrow> unless_failure e r \<noteq> Kill"
  by (simp add: unless_failure_def)

lemma unless_failure_kill: "unless_failure e r = Kill \<Longrightarrow> False"
  by (cases r) (simp_all add: unless_failure_def)

lemma end_drop_panicked_kill: "end_drop_panicked p r = Kill \<longleftrightarrow> r = Kill"
  by (auto simp: end_drop_panicked_def split: option.splits if_splits)

lemma init_check_inv:
  "kill_inv s \<Longrightarrow> gate_reason h \<Longrightarrow> \<not> sealed_pc (ra_pc s) \<Longrightarrow> kill_inv (init_check h s)"
  by (auto simp: kill_inv_def init_check_def killed_in_init_def init_kill_check_def kill_stored_def split: if_splits)

lemma break_with_inv:
  "kill_inv s \<Longrightarrow> (r = Kill \<Longrightarrow> kill_stored (ra_lane s)) \<Longrightarrow> kill_inv (break_with r s)"
  by (simp add: kill_inv_def break_with_def)

lemma kill_inv_cx [simp]: "kill_inv (s\<lparr>ra_cx := cx\<rparr>) = kill_inv s"
  by (simp add: kill_inv_def)

lemma kill_inv_seen [simp]: "kill_inv (s\<lparr>ra_seen := v\<rparr>) = kill_inv s"
  by (simp add: kill_inv_def)

lemma kill_inv_held [simp]: "kill_inv (s\<lparr>ra_held := h\<rparr>) = kill_inv s"
  by (simp add: kill_inv_def)

lemma kill_inv_plane [simp]: "kill_inv (s\<lparr>ra_plane := p\<rparr>) = kill_inv s"
  by (simp add: kill_inv_def)

lemma kill_inv_pc:
  "kill_inv s \<Longrightarrow> \<not> sealed_pc pc \<Longrightarrow> pc_calm (ra_lane s) pc \<Longrightarrow> kill_inv (s\<lparr>ra_pc := pc\<rparr>)"
  by (auto simp: kill_inv_def)

lemma lane_branch_inv: "kill_inv s \<Longrightarrow> ra_pc s = AtSelect \<Longrightarrow> kill_inv (lane_branch s)"
  by (auto simp: lane_branch_def Let_def intro!: break_with_inv kill_inv_pc split: option.splits)
    (simp_all add: kill_inv_def kill_stored_def)

lemma after_pre_stop_inv:
  assumes "kill_inv s" "ra_pc s = ReadAfterPreStop r ret"
  shows "kill_inv (after_pre_stop r ret s)"
proof -
  have "r \<noteq> Kill" using assms by (auto simp: kill_inv_def)
  then show ?thesis
    using assms(1)
    by (auto simp: after_pre_stop_def Let_def kill_stored_def intro!: break_with_inv kill_inv_pc
        split: hook_return.splits option.splits stop_reason.splits)
qed

lemma fail_loop_inv: "kill_inv s \<Longrightarrow> kill_inv (fail_loop e s)"
  by (auto simp: fail_loop_def intro!: break_with_inv)

lemma dispatch_end_inv: "kill_inv s \<Longrightarrow> kill_inv (dispatch_end responder ret s)"
  by (cases ret) (auto simp: hold_answer_def intro!: fail_loop_inv kill_inv_pc)

lemma loop_branch_inv:
  assumes "kill_inv s" "ra_pc s = Picked e"
  shows "kill_inv (loop_branch env e s)"
proof (cases e)
  case (PickSupervision ev)
  with assms show ?thesis
    by (auto intro!: break_with_inv kill_inv_pc dest: supervision_turn_unkilled split: option.splits prod.splits flow.splits)
next
  case PickForwarder
  with assms show ?thesis
    by (auto intro!: break_with_inv kill_inv_pc dest: check_verdicts_unkilled split: option.splits prod.splits if_splits)
qed (use assms in \<open>auto simp: kill_inv_def\<close>)

lemma after_on_stopped_inv:
  assumes "kill_inv s"
  shows "kill_inv (after_on_stopped ret s)"
  using assms unless_failure_kill
  by (auto simp: after_on_stopped_def Let_def kill_inv_def split: hook_return.splits option.splits)

lemma hook_returned_inv:
  assumes "kill_inv s" "ra_pc s = InHook h"
  shows "kill_inv (hook_returned h ret s)"
proof (cases h)
  case (PreStop r)
  then have "gate_reason (PreStop r)" using assms by (simp add: kill_inv_def)
  with PreStop assms(1) show ?thesis by (auto intro!: kill_inv_pc split: hook_return.splits)
next
  case OnStarted
  with assms(1) show ?thesis
    by (auto simp: kill_inv_def init_failed_def init_done_def split: hook_return.splits)
next
  case PreStart
  with assms(1) show ?thesis by (auto simp: kill_inv_def init_failed_def split: hook_return.splits)
qed (use assms(1) in \<open>simp_all add: dispatch_end_inv after_on_stopped_inv\<close>)

lemma draining_inv:
  assumes "kill_inv s" "ra_pc s = Draining d"
  shows "kill_inv (draining env d s)"
  using assms drain_step_calm [of "ra_lane s" d env "ra_reason s"]
  by (auto simp: draining_def kill_inv_def drain_calm_def split: option.splits final_outcome.splits)

lemma children_stopped_inv: "kill_inv s \<Longrightarrow> kill_inv (children_stopped env s)"
  by (auto simp: children_stopped_def Let_def kill_inv_def end_drop_panicked_kill)

lemma seal_lane_inv: "kill_inv s \<Longrightarrow> kill_inv (seal_lane s)"
  by (auto simp: seal_lane_def kill_inv_def lane_closed_def lane_seal_def lane_rx_drop_def kill_stored_def
      lane_reason_def Let_def)

lemma tail_go_inv:
  assumes "kill_inv s" "ra_pc s = Tail t"
  shows "kill_inv (tail_go env t s)"
proof (cases t)
  case AtChildren
  with assms show ?thesis
    using stop_all_begin_killed [of env "ra_lane s" "ra_panic s" "ra_cx s"] by (auto simp: kill_inv_def)
next
  case (StoppingChildren td)
  with assms show ?thesis by (auto simp: kill_inv_def split: option.splits teardown_result.splits)
next
  case ChildrenStopped
  with assms show ?thesis by (simp add: children_stopped_inv)
next
  case Seal
  with assms show ?thesis by (simp add: seal_lane_inv)
qed (use assms in \<open>auto simp: kill_inv_def drop_guard_def deliver_held_def answer_ack_def\<close>)

lemma actor_go_inv:
  assumes "kill_inv s"
  shows "kill_inv (actor_go env s)"
proof (cases "ra_pc s")
  case (CallHook h)
  with assms show ?thesis by (simp add: actor_go_def kill_inv_def)
next
  case (Aborting a r)
  with assms show ?thesis
    by (cases a) (auto simp: actor_go_def kill_inv_def drop_guard_def drop_answers_def Let_def)
next
  case LoopEnded
  with assms show ?thesis by (auto simp: actor_go_def loop_ended_def Let_def kill_inv_def)
next
  case ReadBeforeOnStopped
  with assms show ?thesis by (auto simp: actor_go_def read_before_on_stopped_def kill_inv_def)
next
  case (Collecting c)
  with assms show ?thesis by (auto simp: actor_go_def kill_inv_def drain_begin_calm)
qed (use assms in \<open>simp_all add: actor_go_def init_check_inv after_pre_stop_inv lane_branch_inv loop_branch_inv
    draining_inv tail_go_inv kill_inv_pc\<close>)

lemma actor_step_inv:
  assumes "kill_inv s"
  shows "kill_inv (actor_step env s op)"
proof (cases op)
  case (RaiseStop r)
  have closed: "lane_raise (ra_lane s) r = (\<lparr>ra_result = Refused, ra_bumped = False, ra_replaced = None\<rparr>, ra_lane s)"
    if "lane_closed (ra_lane s)"
    using that by (intro lane_raise_refused) (auto simp: lane_refuses_iff lane_closed_def)
  have "pc_calm (snd (lane_raise (ra_lane s) r)) (ra_pc s)"
    using assms pc_calm_mono [OF kill_stored_raise] by (simp add: kill_inv_def)
  with assms RaiseStop show ?thesis
    by (auto simp: kill_inv_def kill_stored_raise closed)
next
  case (TeardownOp o')
  show ?thesis
  proof (cases "ra_pc s")
    case (Tail t)
    show ?thesis
    proof (cases t)
      case (StoppingChildren td)
      obtain seen td' where t: "teardown_step (ra_seen s, td) (ra_lane s, o') = (seen, td')" by (metis prod.exhaust)
      have "td_result td' = Some TeardownKilled \<Longrightarrow> kill_stored (ra_lane s)"
        using teardown_step_killed [OF t] assms Tail StoppingChildren by (auto simp: kill_inv_def)
      with assms t Tail StoppingChildren TeardownOp show ?thesis by (auto simp: kill_inv_def)
    qed (use assms Tail TeardownOp in simp_all)
  qed (use assms TeardownOp in simp_all)
next
  case (Abort panicking)
  with assms show ?thesis
    by (auto simp: abort_task_def Let_def kill_inv_def drop_answers_def)
next
  case (ForwardersEnded p)
  with assms show ?thesis by (auto simp: kill_inv_def end_drop_panicked_kill)
next
  case (Select e)
  with assms show ?thesis by (auto intro: kill_inv_pc)
next
  case (CollectOp o')
  with assms show ?thesis by (auto intro: kill_inv_pc split: run_pc.splits)
qed (use assms in \<open>auto simp: actor_go_inv hook_returned_inv split: run_pc.splits\<close>)

interpretation killed: invariant_machine "actor_step env" kill_inv
  for env
  by unfold_locales (rule actor_step_inv)

lemma spawned_kill_inv: "kill_inv (run_spawned supervisor acked priority cx)"
  by (simp add: kill_inv_def run_spawned_def)

section \<open>Only a request stores a Kill\<close>

lemma ra_lane_frames [frame_simps]:
  "ra_lane (init_check h s) = ra_lane s"
  "ra_lane (break_with r s) = ra_lane s"
  "ra_lane (fail_loop e s) = ra_lane s"
  "ra_lane (lane_branch s) = ra_lane s"
  "ra_lane (dispatch_end responder ret s) = ra_lane s"
  "ra_lane (after_on_stopped ret s) = ra_lane s"
  "ra_lane (loop_ended s) = ra_lane s"
  "ra_lane (draining env d s) = ra_lane s"
  "ra_lane (read_before_on_stopped s) = ra_lane s"
  "ra_lane (drop_guard s) = ra_lane s"
  "ra_lane (drop_answers s) = ra_lane s"
  by (auto simp: init_check_def killed_in_init_def break_with_def fail_loop_def lane_branch_def Let_def
      after_on_stopped_def loop_ended_def draining_def read_before_on_stopped_def drop_guard_def drop_answers_def
      split: option.splits hook_return.splits final_outcome.splits)
    (cases ret; simp add: fail_loop_def break_with_def hold_answer_def)

lemma ra_lane_after_pre_stop [frame_simps]: "ra_lane (after_pre_stop r ret s) = ra_lane s"
  by (auto simp: after_pre_stop_def Let_def break_with_def split: option.splits hook_return.splits stop_reason.splits)

lemma ra_lane_loop_branch [frame_simps]: "ra_lane (loop_branch env e s) = ra_lane s"
  by (cases e) (auto simp: break_with_def split: option.splits prod.splits flow.splits)

lemma ra_lane_hook_returned [frame_simps]: "ra_lane (hook_returned h ret s) = ra_lane s"
  by (cases h) (auto simp: frame_simps init_failed_def init_done_def split: hook_return.splits)

lemma tail_go_kill: "kill_stored (ra_lane (tail_go env t s)) = kill_stored (ra_lane s)"
proof (cases t)
  case Seal
  then show ?thesis
    using kill_stored_ops(2) [of "ra_lane s"] by (simp add: seal_lane_def split_def)
qed (auto simp: frame_simps children_stopped_def Let_def deliver_held_def answer_ack_def
    split: option.splits teardown_result.splits)

lemma abort_kill:
  "kill_stored (ra_lane (abort_go a r s)) = kill_stored (ra_lane s)"
  "kill_stored (ra_lane (abort_task panicking s)) = kill_stored (ra_lane s)"
  by (cases a) (auto simp: frame_simps abort_task_def Let_def)

lemma actor_go_kill: "kill_stored (ra_lane (actor_go env s)) = kill_stored (ra_lane s)"
  by (cases "ra_pc s") (simp_all add: actor_go_def frame_simps tail_go_kill abort_kill)

lemma actor_step_kill:
  "(\<And>r. op \<noteq> RaiseStop r) \<Longrightarrow> kill_stored (ra_lane (actor_step env s op)) = kill_stored (ra_lane s)"
  by (cases op) (auto simp: actor_go_kill frame_simps abort_kill split: run_pc.splits tail_pc.splits prod.splits)

lemma raise_kill_stored:
  "kill_stored (snd (lane_raise lane r)) \<longleftrightarrow> kill_stored lane \<or> r = Kill \<and> \<not> lane_refuses lane Kill"
  using strength_le_Kill strength_lt_Kill [of r]
  by (cases "r = Kill") (auto simp: kill_stored_def lane_raise_reason stronger_def split: option.splits if_splits)

lemma actor_step_kill_iff:
  "kill_stored (ra_lane (actor_step env s op)) \<longleftrightarrow>
     kill_stored (ra_lane s) \<or> op = RaiseStop Kill \<and> \<not> lane_refuses (ra_lane s) Kill"
  using actor_step_kill [of op env s] by (cases op) (auto simp: raise_kill_stored)

text \<open>Whether the lane took a \<open>Kill\<close> in a sequence of steps.\<close>

definition kill_taken :: "sup_env \<Rightarrow> run_state \<Rightarrow> run_op list \<Rightarrow> bool" where
  "kill_taken env s ops \<longleftrightarrow> (\<exists>before after. ops = before @ RaiseStop Kill # after \<and>
     \<not> lane_refuses (ra_lane (run (actor_step env) s before)) Kill)"

lemma kill_taken_snoc:
  "kill_taken env s (ops @ [op]) \<longleftrightarrow>
     kill_taken env s ops \<or> op = RaiseStop Kill \<and> \<not> lane_refuses (ra_lane (run (actor_step env) s ops)) Kill"
proof
  assume "kill_taken env s (ops @ [op])"
  then obtain before after where split: "ops @ [op] = before @ RaiseStop Kill # after"
    and ok: "\<not> lane_refuses (ra_lane (run (actor_step env) s before)) Kill"
    by (auto simp: kill_taken_def)
  show "kill_taken env s ops \<or> op = RaiseStop Kill \<and> \<not> lane_refuses (ra_lane (run (actor_step env) s ops)) Kill"
  proof (cases after rule: rev_cases)
    case Nil
    with split ok show ?thesis by auto
  next
    case (snoc after' op')
    with split have "ops = before @ RaiseStop Kill # after'" by auto
    with ok show ?thesis by (auto simp: kill_taken_def)
  qed
next
  assume *: "kill_taken env s ops \<or>
    op = RaiseStop Kill \<and> \<not> lane_refuses (ra_lane (run (actor_step env) s ops)) Kill"
  show "kill_taken env s (ops @ [op])"
  proof (cases "kill_taken env s ops")
    case True
    then obtain before after where "ops @ [op] = before @ RaiseStop Kill # (after @ [op])"
      "\<not> lane_refuses (ra_lane (run (actor_step env) s before)) Kill"
      by (auto simp: kill_taken_def)
    then show ?thesis by (auto simp: kill_taken_def)
  next
    case False
    with * have "ops @ [op] = ops @ RaiseStop Kill # []"
      "\<not> lane_refuses (ra_lane (run (actor_step env) s ops)) Kill" by simp_all
    then show ?thesis unfolding kill_taken_def by blast
  qed
qed

lemma run_kill_stored:
  "kill_stored (ra_lane (run (actor_step env) s ops)) \<longleftrightarrow> kill_stored (ra_lane s) \<or> kill_taken env s ops"
proof (induction ops rule: rev_induct)
  case (snoc op ops)
  then show ?case by (simp add: kill_taken_snoc actor_step_kill_iff disj_assoc)
qed (simp add: kill_taken_def)

section \<open>Callbacks after a Kill\<close>

text \<open>Where the loop still reads the lane before anything else it does.\<close>

fun in_loop :: "run_pc \<Rightarrow> bool" where
  "in_loop (CallHook h) = (h \<noteq> OnStopped)"
| "in_loop (InHook h) = (h \<noteq> OnStopped)"
| "in_loop (ReadAfterPreStop r ret) = True"
| "in_loop (Picked e) = True"
| "in_loop pc = (pc \<in> {Unpolled, CheckBeforeStart, CheckAfterPreStart, AtSelect})"

text \<open>
  The versions count the requests, so they tell the seen ones from the new ones as long as fewer than \<open>2 ^ 64\<close> were made;
  there a stored \<open>Kill\<close> is always a version the loop has not seen.
\<close>

definition version_inv :: "nat \<Rightarrow> run_state \<Rightarrow> bool" where
  "version_inv n s \<longleftrightarrow> lc_version (ra_lane s) = ls_generation (lc_state (ra_lane s)) \<and>
     unat (lc_version (ra_lane s)) \<le> n \<and> unat (ra_seen s) \<le> unat (lc_version (ra_lane s)) \<and>
     (in_loop (ra_pc s) \<and> kill_stored (ra_lane s) \<longrightarrow> ra_seen s \<noteq> lc_version (ra_lane s))"

text \<open>The callbacks the task has chosen and not begun.\<close>

fun chosen :: "run_pc \<Rightarrow> nat" where
  "chosen (CallHook h) = 1"
| "chosen (Picked (PickPriority r)) = 1"
| "chosen (Picked (PickMail r)) = 1"
| "chosen _ = 0"

definition begins_at_most :: "run_state \<Rightarrow> run_state \<Rightarrow> bool" where
  "begins_at_most s s' \<longleftrightarrow> (\<exists>begun. ra_hooks s' = ra_hooks s @ begun \<and>
     length begun + chosen (ra_pc s') \<le> chosen (ra_pc s))"

lemma begins_refl [simp]: "begins_at_most s s"
  by (simp add: begins_at_most_def)

lemma begins_trans: "begins_at_most a b \<Longrightarrow> begins_at_most b c \<Longrightarrow> begins_at_most a c"
  unfolding begins_at_most_def by fastforce

lemma begins_none: "ra_hooks s' = ra_hooks s \<Longrightarrow> chosen (ra_pc s') \<le> chosen (ra_pc s) \<Longrightarrow> begins_at_most s s'"
  by (simp add: begins_at_most_def)

lemma kill_lane_branch:
  "kill_stored (ra_lane s) \<Longrightarrow> lane_branch s = break_with Kill (s\<lparr>ra_seen := lc_version (ra_lane s)\<rparr>)"
  by (simp add: lane_branch_def kill_stored_def)

lemma ra_hooks_frames [frame_simps]:
  "ra_hooks (init_check h s) = ra_hooks s"
  "ra_hooks (break_with r s) = ra_hooks s"
  "ra_hooks (fail_loop e s) = ra_hooks s"
  "ra_hooks (lane_branch s) = ra_hooks s"
  "ra_hooks (after_on_stopped ret s) = ra_hooks s"
  "ra_hooks (loop_ended s) = ra_hooks s"
  "ra_hooks (draining env d s) = ra_hooks s"
  "ra_hooks (read_before_on_stopped s) = ra_hooks s"
  "ra_hooks (drop_guard s) = ra_hooks s"
  "ra_hooks (drop_answers s) = ra_hooks s"
  by (auto simp: init_check_def killed_in_init_def break_with_def fail_loop_def lane_branch_def Let_def
      after_on_stopped_def loop_ended_def draining_def read_before_on_stopped_def drop_guard_def drop_answers_def
      split: option.splits hook_return.splits final_outcome.splits)

lemma ra_hooks_dispatch [frame_simps]: "ra_hooks (dispatch_end responder ret s) = ra_hooks s"
  by (cases ret) (simp_all add: fail_loop_def break_with_def hold_answer_def)

lemma ra_hooks_after_pre_stop [frame_simps]: "ra_hooks (after_pre_stop r ret s) = ra_hooks s"
  by (auto simp: after_pre_stop_def Let_def break_with_def split: option.splits hook_return.splits stop_reason.splits)

lemma ra_hooks_tail [frame_simps]: "ra_hooks (tail_go env t s) = ra_hooks s"
  by (cases t) (auto simp: frame_simps children_stopped_def Let_def seal_lane_def split_def deliver_held_def
      answer_ack_def split: option.splits teardown_result.splits)

lemma ra_hooks_abort [frame_simps]:
  "ra_hooks (abort_go a r s) = ra_hooks s" "ra_hooks (abort_task panicking s) = ra_hooks s"
  by (cases a) (auto simp: frame_simps abort_task_def Let_def)

lemma hook_returned_begins: "ra_pc s = InHook h \<Longrightarrow> begins_at_most s (hook_returned h ret s)"
proof (rule begins_none)
  show "ra_hooks (hook_returned h ret s) = ra_hooks s"
    by (cases h) (auto simp: frame_simps init_failed_def init_done_def split: hook_return.splits)
  assume "ra_pc s = InHook h"
  moreover have "chosen (ra_pc (dispatch_end r ret s)) = 0" for r
    by (cases ret) (simp_all add: fail_loop_def break_with_def hold_answer_def)
  ultimately show "chosen (ra_pc (hook_returned h ret s)) \<le> chosen (ra_pc s)"
    by (cases h) (auto simp: init_failed_def init_done_def after_on_stopped_def Let_def split: hook_return.splits)
qed

lemma loop_branch_begins: "ra_pc s = Picked e \<Longrightarrow> begins_at_most s (loop_branch env e s)"
  by (cases e) (auto simp: begins_at_most_def break_with_def split: option.splits prod.splits flow.splits)

lemma tail_chosen: "ra_pc s = Tail t \<Longrightarrow> chosen (ra_pc (tail_go env t s)) = 0"
  by (cases t) (auto simp: children_stopped_def Let_def seal_lane_def split_def deliver_held_def answer_ack_def
      split: option.splits teardown_result.splits)

lemma actor_go_begins:
  assumes "kill_stored (ra_lane s)" "version_inv n s"
  shows "begins_at_most s (actor_go env s)"
proof (cases "ra_pc s")
  case AtSelect
  with assms have "lane_has_changed (ra_lane s) (ra_seen s)"
    by (auto simp: version_inv_def lane_has_changed_def)
  with AtSelect assms(1) show ?thesis
    by (auto simp: actor_go_def kill_lane_branch break_with_def intro: begins_none)
next
  case (CallHook h)
  then show ?thesis by (simp add: actor_go_def begins_at_most_def)
next
  case (Picked e)
  then show ?thesis by (simp add: actor_go_def loop_branch_begins)
next
  case (Tail t)
  then show ?thesis using tail_chosen [OF Tail, of env] by (auto simp: actor_go_def frame_simps intro!: begins_none)
next
  case (Aborting a r)
  then show ?thesis
    by (cases a) (auto simp: actor_go_def frame_simps intro!: begins_none)
next
  case (Draining d)
  then show ?thesis
    by (auto simp: actor_go_def frame_simps draining_def intro!: begins_none split: option.splits final_outcome.splits)
next
  case (ReadAfterPreStop r ret)
  with assms(1) show ?thesis
    by (auto simp: actor_go_def after_pre_stop_def Let_def kill_stored_def break_with_def intro!: begins_none)
qed (use assms(1) in \<open>auto simp: actor_go_def init_check_def init_kill_check_def killed_in_init_def kill_stored_def
    loop_ended_def read_before_on_stopped_def Let_def intro!: begins_none\<close>)

lemma actor_step_begins:
  assumes "kill_stored (ra_lane s)" "version_inv n s"
  shows "begins_at_most s (actor_step env s op)"
proof (cases op)
  case (Select e)
  with assms show ?thesis by (auto simp: version_inv_def lane_has_changed_def)
next
  case (HookReturns ret)
  then show ?thesis by (auto simp: hook_returned_begins split: run_pc.splits)
next
  case (Abort panicking)
  then show ?thesis by (auto simp: abort_task_def Let_def drop_answers_def intro!: begins_none)
qed (use assms in \<open>auto simp: actor_go_begins intro!: begins_none split: run_pc.splits tail_pc.splits prod.splits\<close>)

text \<open>The counts of the lane, and what a step leaves of them.\<close>

definition lane_counts :: "run_state \<Rightarrow> u64 \<times> u64" where
  "lane_counts s = (lc_version (ra_lane s), ls_generation (lc_state (ra_lane s)))"

lemma lane_counts_ops:
  "lc_version (close_to_non_kill l) = lc_version l" "lc_version (lane_rx_drop l) = lc_version l"
  "lc_version (snd (lane_seal l)) = lc_version l"
  "ls_generation (lc_state (close_to_non_kill l)) = ls_generation (lc_state l)"
  "ls_generation (lc_state (lane_rx_drop l)) = ls_generation (lc_state l)"
  "ls_generation (lc_state (snd (lane_seal l))) = ls_generation (lc_state l)"
  by (simp_all add: close_to_non_kill_def lane_rx_drop_def lane_seal_def Let_def)

lemma version_inv_frame:
  assumes "version_inv n s" "lane_counts s' = lane_counts s" "ra_seen s' = ra_seen s"
    and "kill_stored (ra_lane s') = kill_stored (ra_lane s)" "in_loop (ra_pc s') \<Longrightarrow> in_loop (ra_pc s)"
  shows "version_inv (Suc n) s'"
  using assms by (auto simp: version_inv_def lane_counts_def)

lemma version_inv_mono: "version_inv n s \<Longrightarrow> version_inv (Suc n) s"
  by (auto simp: version_inv_def)

lemma raise_counts:
  "lane_raise l r = (ra, l') \<Longrightarrow> lc_version l = ls_generation (lc_state l) \<Longrightarrow>
   lc_version l' = (if ra_bumped ra then lc_version l + 1 else lc_version l) \<and>
   ls_generation (lc_state l') = lc_version l' \<and> (\<not> ra_bumped ra \<longrightarrow> l' = l)"
  by (auto simp: lane_raise_def Let_def split: prod.splits if_splits)

lemma raise_version_inv:
  assumes inv: "version_inv n s" and small: "Suc n < 2 ^ 64"
  shows "version_inv (Suc n) (s\<lparr>ra_lane := snd (lane_raise (ra_lane s) r)\<rparr>)"
proof -
  obtain ra l' where lr: "lane_raise (ra_lane s) r = (ra, l')" by (metis prod.exhaust)
  have eq: "lc_version (ra_lane s) = ls_generation (lc_state (ra_lane s))" using inv by (simp add: version_inv_def)
  note counts = raise_counts [OF lr eq]
  show ?thesis
  proof (cases "ra_bumped ra")
    case False
    with counts have "s\<lparr>ra_lane := snd (lane_raise (ra_lane s) r)\<rparr> = s" by (simp add: lr)
    then show ?thesis using version_inv_mono [OF inv] by simp
  next
    case True
    have "unat (lc_version (ra_lane s)) + 1 < 2 ^ 64"
      using inv small by (auto simp: version_inv_def)
    then have "unat (lc_version (ra_lane s) + 1) = unat (lc_version (ra_lane s)) + 1"
      by (simp add: unat_word_ariths)
    then show ?thesis
      using True counts inv by (auto simp: version_inv_def lr)
  qed
qed

lemma lane_branch_version:
  assumes "version_inv n s" "ra_pc s = AtSelect"
  shows "version_inv (Suc n) (lane_branch s)"
  using assms by (auto simp: version_inv_def lane_branch_def Let_def break_with_def kill_stored_def split: option.splits)

lemma tail_go_version:
  assumes "version_inv n s" "ra_pc s = Tail t"
  shows "version_inv (Suc n) (tail_go env t s)"
proof (rule version_inv_frame [OF assms(1)])
  show "lane_counts (tail_go env t s) = lane_counts s"
    by (cases t) (auto simp: lane_counts_def frame_simps lane_counts_ops children_stopped_def Let_def seal_lane_def
        split_def deliver_held_def answer_ack_def split: option.splits teardown_result.splits)
  show "ra_seen (tail_go env t s) = ra_seen s"
    by (cases t) (auto simp: children_stopped_def Let_def seal_lane_def split_def deliver_held_def answer_ack_def
        drop_guard_def split: option.splits teardown_result.splits)
  show "kill_stored (ra_lane (tail_go env t s)) = kill_stored (ra_lane s)" by (rule tail_go_kill)
  show "in_loop (ra_pc (tail_go env t s)) \<Longrightarrow> in_loop (ra_pc s)"
    using assms(2) by (cases t) (auto simp: children_stopped_def Let_def seal_lane_def split_def deliver_held_def
        answer_ack_def split: option.splits teardown_result.splits if_splits)
qed

lemma ra_seen_frames [frame_simps]:
  "ra_seen (init_check h s) = ra_seen s"
  "ra_seen (break_with r s) = ra_seen s"
  "ra_seen (fail_loop e s) = ra_seen s"
  "ra_seen (after_on_stopped ret s) = ra_seen s"
  "ra_seen (loop_ended s) = ra_seen s"
  "ra_seen (draining env d s) = ra_seen s"
  "ra_seen (read_before_on_stopped s) = ra_seen s"
  "ra_seen (drop_guard s) = ra_seen s"
  "ra_seen (drop_answers s) = ra_seen s"
  by (auto simp: init_check_def killed_in_init_def break_with_def fail_loop_def Let_def
      after_on_stopped_def loop_ended_def draining_def read_before_on_stopped_def drop_guard_def drop_answers_def
      split: option.splits hook_return.splits final_outcome.splits)

lemma ra_seen_after_pre_stop [frame_simps]: "ra_seen (after_pre_stop r ret s) = ra_seen s"
  by (auto simp: after_pre_stop_def Let_def break_with_def split: option.splits hook_return.splits stop_reason.splits)

lemma hook_returned_version:
  assumes "version_inv n s" "ra_pc s = InHook h"
  shows "version_inv (Suc n) (hook_returned h ret s)"
proof (rule version_inv_frame [OF assms(1)])
  show "lane_counts (hook_returned h ret s) = lane_counts s"
    "kill_stored (ra_lane (hook_returned h ret s)) = kill_stored (ra_lane s)"
    by (simp_all add: lane_counts_def frame_simps)
  have "ra_seen (dispatch_end r ret s) = ra_seen s" for r
    by (cases ret) (simp_all add: fail_loop_def break_with_def hold_answer_def)
  then show "ra_seen (hook_returned h ret s) = ra_seen s"
    by (cases h) (auto simp: frame_simps init_failed_def init_done_def split: hook_return.splits)
  show "in_loop (ra_pc (hook_returned h ret s)) \<Longrightarrow> in_loop (ra_pc s)"
    using assms(2) by (cases h) (auto simp: after_on_stopped_def Let_def split: hook_return.splits)
qed

lemma actor_go_version:
  assumes "version_inv n s"
  shows "version_inv (Suc n) (actor_go env s)"
proof (cases "ra_pc s")
  case AtSelect
  with assms lane_branch_version version_inv_mono show ?thesis by (auto simp: actor_go_def)
next
  case (Tail t)
  with assms show ?thesis by (simp add: actor_go_def tail_go_version)
next
  case (Picked e)
  have "ra_seen (loop_branch env e s) = ra_seen s"
    by (cases e) (auto simp: break_with_def split: option.splits prod.splits flow.splits)
  with Picked assms show ?thesis
    by (auto simp: actor_go_def lane_counts_def frame_simps intro!: version_inv_frame [OF assms])
next
  case (Aborting a r)
  have "lane_counts (abort_go a r s) = lane_counts s" "ra_seen (abort_go a r s) = ra_seen s"
    "\<not> in_loop (ra_pc (abort_go a r s))"
    by (cases a; simp add: lane_counts_def frame_simps lane_counts_ops Let_def)+
  with Aborting show ?thesis
    by (auto simp: actor_go_def abort_kill intro!: version_inv_frame [OF assms])
qed (use assms in \<open>auto simp: actor_go_def lane_counts_def frame_simps loop_ended_def read_before_on_stopped_def Let_def
    draining_def intro!: version_inv_frame [OF assms] split: option.splits final_outcome.splits\<close>)

lemma actor_step_version:
  assumes "version_inv n s" "Suc n < 2 ^ 64"
  shows "version_inv (Suc n) (actor_step env s op)"
proof (cases op)
  case (TeardownOp o')
  have "version_inv (Suc n) (case teardown_step (ra_seen s, td) (ra_lane s, o') of
      (seen, td') \<Rightarrow> s\<lparr>ra_seen := seen, ra_pc := Tail (StoppingChildren td')\<rparr>)" if "ra_pc s = Tail (StoppingChildren td)"
    for td
  proof (cases rule: teardown_step_cases [of "(ra_lane s, o')" "ra_seen s" td])
    case Lane
    with assms(1) show ?thesis by (auto simp: version_inv_def)
  qed (use assms(1) in \<open>auto simp: version_inv_def\<close>)
  with TeardownOp version_inv_mono [OF assms(1)] show ?thesis by (auto split: run_pc.splits tail_pc.splits)
next
  case (Abort panicking)
  then show ?thesis
    using abort_kill(2) [of panicking s] version_inv_mono [OF assms(1)]
    by (auto simp: abort_task_def Let_def lane_counts_def lane_counts_ops frame_simps drop_answers_def
        intro!: version_inv_frame [OF assms(1)])
qed (use assms version_inv_mono [OF assms(1)] in \<open>auto simp: actor_go_version hook_returned_version raise_version_inv
    lane_counts_def intro!: version_inv_frame [OF assms(1)] split: run_pc.splits\<close>)

lemma run_version:
  "version_inv n s \<Longrightarrow> n + length ops < 2 ^ 64 \<Longrightarrow> version_inv (n + length ops) (run (actor_step env) s ops)"
proof (induction ops arbitrary: n s)
  case (Cons op ops)
  then have "version_inv (Suc n) (actor_step env s op)" by (intro actor_step_version) simp_all
  from Cons.IH [OF this] Cons.prems(2) show ?case by simp
qed simp

lemma run_begins:
  assumes "kill_stored (ra_lane s)" "version_inv n s" "n + length ops < 2 ^ 64"
  shows "begins_at_most s (run (actor_step env) s ops)"
  using assms
proof (induction ops arbitrary: n s)
  case (Cons op ops)
  have "begins_at_most s (actor_step env s op)" by (rule actor_step_begins [OF Cons.prems(1,2)])
  moreover have "begins_at_most (actor_step env s op) (run (actor_step env) (actor_step env s op) ops)"
    using Cons.prems by (intro Cons.IH [of _ "Suc n"]) (simp_all add: actor_step_kill_iff actor_step_version)
  ultimately show ?case by (auto intro: begins_trans)
qed simp

lemma spawned_version: "version_inv 0 (run_spawned supervisor acked priority cx)"
  by (simp add: version_inv_def run_spawned_def lane_cell_new_def kill_stored_def lane_reason_def)

section \<open>Properties\<close>

text \<open>
  C6.  The reason an actor's task returns is \<open>Kill\<close> exactly when its lane took a \<open>Kill\<close>, at whatever point of its
  life: before its first poll, during its initialization, in the message loop, during \<open>pre_stop\<close>, the final
  deliveries, \<open>on_stopped\<close> or the children's teardown, or while it waits for its forwarders.  No handler, hook, child
  or drop makes it a \<open>Kill\<close>, and none hides one.
\<close>

theorem accepted_kill_is_final:
  assumes "s = run (actor_step env) (run_spawned supervisor acked priority cx) ops" "ra_pc s = Finished r"
  shows "r = Kill \<longleftrightarrow> kill_taken env (run_spawned supervisor acked priority cx) ops"
proof -
  have "kill_inv s"
    unfolding assms(1) by (rule killed.run_inv) (rule spawned_kill_inv)
  then have "r = Kill \<longleftrightarrow> kill_stored (ra_lane s)"
    using assms(2) by (auto simp: kill_inv_def)
  moreover have "\<not> kill_stored (ra_lane (run_spawned supervisor acked priority cx))"
    by (simp add: run_spawned_def kill_stored_def lane_reason_def lane_cell_new_def)
  ultimately show ?thesis
    using run_kill_stored [of env "run_spawned supervisor acked priority cx" ops] assms(1) by simp
qed

text \<open>The life of an actor that is no supervisor: started, asked to stop with \<open>r\<close> while it waits, and ended.\<close>

definition example_start :: "run_op list" where
  "example_start = [Go, Go, Go, HookReturns (Returned True), Go, Go, HookReturns (Returned True)]"

definition example_end :: "run_op list" where
  "example_end = [Go, Go, Go, Go, Go, ForwardersEnded None, Go, Go, Go, Go, Go, Go, Go]"

definition quiet_env :: sup_env where
  "quiet_env = scripted (\<lambda>_ _. (HookOk, [])) (\<lambda>_. None)"

abbreviation example_worker :: run_state where
  "example_worker \<equiv> run_spawned False True False (sup_ctx_new one_for_all 1 0)"

lemmas run_simps = run_spawned_def actor_go_def init_check_def init_kill_check_def init_done_def lane_branch_def
  break_with_def loop_ended_def read_before_on_stopped_def after_on_stopped_def after_pre_stop_def children_stopped_def
  drop_guard_def seal_lane_def deliver_held_def answer_ack_def end_drop_panicked_def killed_in_init_def
  lane_has_changed_def lane_reason_def lane_raise_def lane_accept_def lane_cell_new_def close_to_non_kill_def
  lane_seal_def lane_rx_drop_def kill_stored_def Let_def

lemma example_killed:
  "ra_pc (run (actor_step quiet_env) example_worker (example_start @ [RaiseStop Kill, Go, Go] @ example_end)) =
     Finished Kill"
  by (simp add: example_start_def example_end_def run_simps)

theorem accepted_kill_is_final_witness:
  "kill_taken quiet_env example_worker (example_start @ [RaiseStop Kill, Go, Go] @ example_end)"
  using accepted_kill_is_final [OF refl example_killed] by blast



end
