(* ===== verification/Actor_End.thy ===== *)
theory Actor_End
  imports Actor_Kill
begin

text \<open>
  How the end of the task of \<open>Actor_Run\<close> becomes visible: in which order the name is freed, the lane refuses, the reason is
  written, the start's ack and a failed request are answered, \<open>Stopped\<close> is published and the status plane closes, on
  the return and on an abort; and that the failure a loop ended with stays the reason.
\<close>

section \<open>The plane\<close>

definition live_plane :: "nat \<Rightarrow> status_cell \<Rightarrow> bool" where
  "live_plane n c \<longleftrightarrow> (\<exists>w. plane_rel c n w)"

lemma plane_rel_closed: "plane_rel c n w \<Longrightarrow> cell_closed c \<longleftrightarrow> n = 0"
  by (auto simp: plane_rel_def cell_load_def CLOSED_def and_one_eq mod_2_eq_odd)

lemma live_closed: "live_plane n c \<Longrightarrow> cell_closed c \<longleftrightarrow> n = 0"
  by (auto simp: live_plane_def plane_rel_closed)

lemma live_read: "live_plane n c \<Longrightarrow> status_read c = sv_status (sc_value c)"
  by (auto simp: live_plane_def plane_rel_def status_read_def)

lemma live_plane_step: "live_plane n c \<Longrightarrow> 0 < n \<Longrightarrow> n < 2 ^ 32 \<Longrightarrow> live_plane (live_step n e) (plane_step c e)"
  unfolding live_plane_def using plane_rel_step by blast

lemma live_writes:
  assumes "live_plane n c" "0 < n" "n < 2 ^ 32"
  shows "live_plane n (set_status st c)" "live_plane n (publish_stopped c)"
    "live_plane n (write_final_reason now r c)" "live_plane n (abort_reason_drop now r c)"
    "live_plane n (snd (write_reason now r b c))"
  using live_plane_step [OF assms, of "PlaneSetStatus st"] live_plane_step [OF assms, of PlanePublishStopped]
    live_plane_step [OF assms, of "PlaneAbortReason now r"] live_plane_step [OF assms, of "PlaneWriteReason now r b"]
    live_plane_step [OF assms, of "PlaneWriteReason now r False"]
  by (simp_all add: write_final_reason_def)

section \<open>The failure a loop ended with\<close>

text \<open>The points at which a \<open>Kill\<close> may be the reason, and those at which the loop's failure still is.\<close>

fun past_pc :: "run_pc \<Rightarrow> bool" where
  "past_pc LoopEnded = True"
| "past_pc (Tail t) = True"
| "past_pc (Aborting a r) = True"
| "past_pc (Finished r) = True"
| "past_pc Aborted = True"
| "past_pc _ = False"

fun over_pc :: "run_pc \<Rightarrow> bool" where
  "over_pc (Collecting c) = True"
| "over_pc (Draining d) = (dr_pending d = None \<and> dr_outcome d \<in> {None, Some FinalKilled, Some (FinalDone None)})"
| "over_pc ReadBeforeOnStopped = True"
| "over_pc (CallHook h) = (h = OnStopped)"
| "over_pc (InHook h) = (h = OnStopped)"
| "over_pc pc = past_pc pc"

definition stands :: "actor_error \<Rightarrow> run_state \<Rightarrow> bool" where
  "stands e s \<longleftrightarrow>
     ra_reason s = Failure e \<and> ra_pending s = None \<and> over_pc (ra_pc s) \<or> ra_reason s = Kill \<and> past_pc (ra_pc s)"

lemma past_over: "past_pc pc \<Longrightarrow> over_pc pc"
  by (cases pc) simp_all

lemma stands_past:
  "stands e s \<Longrightarrow> past_pc (ra_pc s') \<Longrightarrow> ra_pending s' = ra_pending s \<Longrightarrow>
   ra_reason s' = ra_reason s \<or> ra_reason s' = Kill \<Longrightarrow> stands e s'"
  using past_over by (auto simp: stands_def)

lemma end_drop_panicked_stands:
  "stands e s \<Longrightarrow> end_drop_panicked p (ra_reason s) = ra_reason s"
  by (auto simp: stands_def end_drop_panicked_def split: option.splits)

lemma drain_step_over:
  assumes "over_pc (Draining d)" "dr_outcome d = None"
  shows "over_pc (Draining (drain_step env (Failure e) d lane))"
proof -
  have "final_pending (Failure e) None r = None" for r by (cases r) simp_all
  with assms show ?thesis
    by (auto simp: drain_step_def Let_def split: list.splits prod.splits)
qed

lemma tail_go_stands:
  assumes "stands e s" "ra_pc s = Tail t"
  shows "stands e (tail_go env t s)"
proof (cases t)
  case ChildrenStopped
  with assms show ?thesis
    by (auto simp: children_stopped_def Let_def end_drop_panicked_stands intro!: stands_past [OF assms(1)])
qed (use assms in \<open>auto simp: seal_lane_def split_def deliver_held_def answer_ack_def drop_guard_def
    intro!: stands_past [OF assms(1)] split: option.splits teardown_result.splits\<close>)

lemma actor_go_stands:
  assumes "stands e s"
  shows "stands e (actor_go env s)"
proof (cases "ra_pc s")
  case (Tail t)
  with assms show ?thesis by (simp add: actor_go_def tail_go_stands)
next
  case (Aborting a r)
  with assms show ?thesis
    by (cases a) (auto simp: actor_go_def drop_guard_def drop_answers_def Let_def intro!: stands_past [OF assms])
next
  case (Draining d)
  with assms drain_step_over [of d env e "ra_lane s"] show ?thesis
    by (auto simp: actor_go_def draining_def stands_def split: option.splits final_outcome.splits)
next
  case (Collecting c)
  with assms show ?thesis by (auto simp: actor_go_def stands_def drain_begin_def)
next
  case LoopEnded
  with assms show ?thesis by (auto simp: actor_go_def stands_def loop_ended_def Let_def)
next
  case ReadBeforeOnStopped
  with assms show ?thesis by (auto simp: actor_go_def stands_def read_before_on_stopped_def)
qed (use assms in \<open>auto simp: actor_go_def stands_def\<close>)

lemma actor_step_stands:
  assumes "stands e s"
  shows "stands e (actor_step env s op)"
proof (cases op)
  case (HookReturns ret)
  with assms show ?thesis
    by (auto simp: stands_def after_on_stopped_def Let_def unless_failure_def split: run_pc.splits hook_return.splits)
next
  case (ForwardersEnded p)
  with assms show ?thesis
    by (auto simp: end_drop_panicked_stands intro!: stands_past [OF assms])
next
  case (Abort panicking)
  with assms show ?thesis
    by (auto simp: abort_task_def Let_def drop_answers_def intro!: stands_past [OF assms])
next
  case Go
  with assms show ?thesis by (simp add: actor_go_stands)
qed (use assms in \<open>auto simp: stands_def split: run_pc.splits tail_pc.splits prod.splits\<close>)

interpretation failed: invariant_machine "actor_step env" "stands e"
  for env e
  by unfold_locales (rule actor_step_stands)

section \<open>What is visible at each point\<close>

abbreviation ra_written :: "run_state \<Rightarrow> stop_reason option" where
  "ra_written s \<equiv> sv_reason (sc_value (ra_plane s))"

abbreviation ra_status :: "run_state \<Rightarrow> actor_status" where
  "ra_status s \<equiv> sv_status (sc_value (ra_plane s))"

text \<open>Points at which the name is still registered (an abort may find it either way when it frees it).\<close>

fun named_pc :: "run_pc \<Rightarrow> bool" where
  "named_pc (Tail t) =
     (t \<notin> {AwaitForwarders, Seal, AnswerHeld, WriteReason, AnswerAck, DropOwned, Publish, Release})"
| "named_pc (Aborting a r) = (a = UnpolledName)"
| "named_pc (Finished r) = False"
| "named_pc Aborted = False"
| "named_pc _ = True"

fun tx_count :: "run_pc \<Rightarrow> bool \<Rightarrow> nat" where
  "tx_count (Tail t) named = (if t = Publish \<or> t = Release then 2 else if named then 4 else 3)"
| "tx_count (Aborting a r) named =
     (case a of UnpolledName \<Rightarrow> 1 | AbortName \<Rightarrow> if named then 4 else 3 | AbortReason \<Rightarrow> 3 | AbortDrops \<Rightarrow> 2)"
| "tx_count (Finished r) named = 0"
| "tx_count Aborted named = 0"
| "tx_count _ named = 4"

fun written_pc :: "run_pc \<Rightarrow> bool" where
  "written_pc (Tail t) = (t \<in> {AnswerAck, DropOwned, Publish, Release})"
| "written_pc (Aborting a r) = (a = UnpolledName \<or> a = AbortDrops)"
| "written_pc (Finished r) = True"
| "written_pc Aborted = True"
| "written_pc _ = False"

fun refusing_pc :: "run_pc \<Rightarrow> bool" where
  "refusing_pc (Aborting a r) = (a \<noteq> AbortName)"
| "refusing_pc Aborted = True"
| "refusing_pc pc = sealed_pc pc"

fun stopped_pc :: "run_pc \<Rightarrow> bool" where
  "stopped_pc (Tail t) = (t = Release)"
| "stopped_pc (Finished r) = True"
| "stopped_pc _ = False"

fun acked_pc :: "run_pc \<Rightarrow> bool" where
  "acked_pc (Tail t) = (t \<in> {DropOwned, Publish, Release})"
| "acked_pc (Finished r) = True"
| "acked_pc _ = False"

fun answered_pc :: "run_pc \<Rightarrow> bool" where
  "answered_pc (Tail t) = (t \<in> {WriteReason, AnswerAck, DropOwned, Publish, Release})"
| "answered_pc (Finished r) = True"
| "answered_pc _ = False"

fun is_abort_name :: "run_pc \<Rightarrow> bool" where
  "is_abort_name (Aborting AbortName r) = True"
| "is_abort_name _ = False"

definition end_inv :: "run_state \<Rightarrow> bool" where
  "end_inv s \<longleftrightarrow>
     live_plane (tx_count (ra_pc s) (ra_guard s)) (ra_plane s) \<and>
     (\<not> is_abort_name (ra_pc s) \<longrightarrow> ra_guard s = named_pc (ra_pc s)) \<and>
     (ra_written s \<noteq> None) = written_pc (ra_pc s) \<and>
     (sealed_pc (ra_pc s) \<and> written_pc (ra_pc s) \<longrightarrow> ra_written s = Some (ra_reason s)) \<and>
     (refusing_pc (ra_pc s) \<longrightarrow> lane_closed (ra_lane s)) \<and>
     (ra_status s = StStopped) = stopped_pc (ra_pc s) \<and>
     (\<forall>r. ra_pc s = Finished r \<longrightarrow> r = ra_reason s)"

lemma plane_value_ops [simp]:
  "sc_value (snd (status_tx_drop c)) = sc_value c"
  "sv_reason (sc_value (set_status st c)) = sv_reason (sc_value c)"
  "sv_status (sc_value (set_status st c)) = st"
  "sv_reason (sc_value (publish_stopped c)) = sv_reason (sc_value c)"
  "sv_status (sc_value (publish_stopped c)) = StStopped"
  by (simp_all add: plane_op_defs)

lemma plane_value_writes [simp]:
  "sv_status (sc_value (snd (write_reason now r False c))) = sv_status (sc_value c)"
  "sv_status (sc_value (write_final_reason now r c)) = sv_status (sc_value c)"
  "sv_status (sc_value (abort_reason_drop now r c)) = sv_status (sc_value c)"
  "sv_reason (sc_value (snd (write_reason now r b c))) =
     (if sv_reason (sc_value c) = None then Some r else sv_reason (sc_value c))"
  "sv_reason (sc_value (write_final_reason now r c)) =
     (if sv_reason (sc_value c) = None then Some r else sv_reason (sc_value c))"
  "sv_reason (sc_value (abort_reason_drop now r c)) =
     (if sv_reason (sc_value c) = None then Some r else sv_reason (sc_value c))"
  by (simp_all add: plane_op_defs)

lemma lane_closed_raise: "lane_closed l \<Longrightarrow> snd (lane_raise l r) = l"
  by (subst lane_raise_refused) (auto simp: lane_refuses_iff lane_closed_def)

fun early_pc :: "run_pc \<Rightarrow> bool" where
  "early_pc (Tail t) = (t \<in> {LastRead, Narrow, AtChildren, ChildrenStopped, FreeName} \<or> (\<exists>td. t = StoppingChildren td))"
| "early_pc (Aborting a r) = False"
| "early_pc (Finished r) = False"
| "early_pc Aborted = False"
| "early_pc _ = True"

lemma early_views:
  assumes "early_pc p"
  shows "tx_count p True = 4" "named_pc p" "\<not> written_pc p" "\<not> sealed_pc p" "\<not> refusing_pc p" "\<not> stopped_pc p"
    "\<not> is_abort_name p" "p \<noteq> Finished r"
  using assms by (cases p; auto split: tail_pc.splits)+

text \<open>Between two early points only the status changes, and never to \<open>Stopped\<close>.\<close>

lemma end_inv_early:
  "early_pc (ra_pc s) \<Longrightarrow> end_inv s \<longleftrightarrow>
     live_plane 4 (ra_plane s) \<and> ra_guard s \<and> ra_written s = None \<and> ra_status s \<noteq> StStopped"
  using early_views [of "ra_pc s"] by (auto simp: end_inv_def)

lemma end_inv_early_step:
  assumes "end_inv s" "early_pc (ra_pc s)" "early_pc (ra_pc s')" "ra_guard s' = ra_guard s"
    and "ra_plane s' = ra_plane s \<or> (\<exists>st. st \<noteq> StStopped \<and> ra_plane s' = set_status st (ra_plane s))"
  shows "end_inv s'"
  using assms live_writes(1) [of 4 "ra_plane s"] by (auto simp: end_inv_early)

lemma live_drops:
  "live_plane 4 c \<Longrightarrow> live_plane 3 (snd (status_tx_drop c))"
  "live_plane 3 c \<Longrightarrow> live_plane 2 (snd (status_tx_drop c))"
  "live_plane 2 c \<Longrightarrow> live_plane 1 (snd (status_tx_drop c))"
  "live_plane 1 c \<Longrightarrow> live_plane 0 (snd (status_tx_drop c))"
  using live_plane_step [of 4 c PlaneDrop] live_plane_step [of 3 c PlaneDrop] live_plane_step [of 2 c PlaneDrop]
    live_plane_step [of 1 c PlaneDrop]
  by simp_all

lemma tail_go_end:
  assumes "end_inv s" "ra_pc s = Tail t"
  shows "end_inv (tail_go env t s)"
proof (cases t)
  case Seal
  with assms show ?thesis
    by (auto simp: end_inv_def seal_lane_def lane_seal_def Let_def lane_rx_drop_def lane_closed_def)
next
  case FreeName
  with assms show ?thesis by (auto simp: end_inv_def drop_guard_def live_drops)
next
  case WriteReason
  with assms show ?thesis by (auto simp: end_inv_def live_writes)
next
  case DropOwned
  with assms show ?thesis by (auto simp: end_inv_def live_drops)
next
  case Publish
  with assms show ?thesis by (auto simp: end_inv_def live_writes)
next
  case Release
  with assms show ?thesis using live_drops(3,4) by (auto simp: end_inv_def)
next
  case AnswerHeld
  with assms show ?thesis by (auto simp: end_inv_def deliver_held_def)
next
  case AnswerAck
  with assms show ?thesis by (auto simp: end_inv_def answer_ack_def)
next
  case (StoppingChildren td)
  with assms show ?thesis
    by (auto intro!: end_inv_early_step [OF assms(1)] split: option.splits teardown_result.splits)
qed (use assms in \<open>auto simp: children_stopped_def Let_def intro!: end_inv_early_step [OF assms(1)]\<close>)

lemma abort_go_end:
  assumes "end_inv s" "ra_pc s = Aborting a r"
  shows "end_inv (abort_go a r s)"
proof (cases a)
  case UnpolledName
  with assms show ?thesis using live_drops(4) by (auto simp: end_inv_def drop_guard_def drop_answers_def)
next
  case AbortName
  with assms show ?thesis
    using live_drops(1) by (auto simp: end_inv_def drop_guard_def Let_def lane_rx_drop_def lane_closed_def)
next
  case AbortReason
  with assms show ?thesis using live_drops(2) by (auto simp: end_inv_def live_writes)
next
  case AbortDrops
  have "live_plane 0 (snd (status_tx_drop (snd (status_tx_drop (snd (write_reason now r False (ra_plane s)))))))" for now
    using assms AbortDrops by (intro live_drops live_writes) (auto simp: end_inv_def)
  with assms AbortDrops show ?thesis by (auto simp: end_inv_def)
qed

text \<open>Steps before the end keep what is visible.\<close>

lemma early_go:
  assumes "end_inv s" "early_pc (ra_pc s)" "\<not> (\<exists>t. ra_pc s = Tail t)"
  shows "early_pc (ra_pc (actor_go env s)) \<and> ra_guard (actor_go env s) = ra_guard s \<and>
    (ra_plane (actor_go env s) = ra_plane s \<or>
     (\<exists>st. st \<noteq> StStopped \<and> ra_plane (actor_go env s) = set_status st (ra_plane s)))"
proof (cases "ra_pc s")
  case (Picked e)
  then show ?thesis
    by (cases e) (auto simp: actor_go_def break_with_def split: option.splits prod.splits flow.splits)
next
  case (ReadAfterPreStop r ret)
  then show ?thesis
    by (auto simp: actor_go_def after_pre_stop_def Let_def break_with_def
        split: option.splits hook_return.splits stop_reason.splits)
next
  case LoopEnded
  then show ?thesis by (auto simp: actor_go_def loop_ended_def Let_def)
qed (use assms in \<open>auto simp: actor_go_def init_check_def killed_in_init_def lane_branch_def break_with_def
    read_before_on_stopped_def draining_def Let_def split: option.splits final_outcome.splits\<close>)

lemma early_go_end:
  assumes "end_inv s" "early_pc (ra_pc s)" "\<not> (\<exists>t. ra_pc s = Tail t)"
  shows "end_inv (actor_go env s)"
proof -
  have "early_pc (ra_pc (actor_go env s))" "ra_guard (actor_go env s) = ra_guard s"
    "ra_plane (actor_go env s) = ra_plane s \<or>
     (\<exists>st. st \<noteq> StStopped \<and> ra_plane (actor_go env s) = set_status st (ra_plane s))"
    using early_go [OF assms, of env] by blast+
  then show ?thesis by (rule end_inv_early_step [OF assms(1,2)])
qed

lemma actor_go_end:
  assumes "end_inv s"
  shows "end_inv (actor_go env s)"
proof (cases "ra_pc s")
  case (Tail t)
  with assms show ?thesis by (simp add: actor_go_def tail_go_end)
next
  case (Aborting a r)
  with assms show ?thesis by (simp add: actor_go_def abort_go_end)
next
  case Aborted
  with assms show ?thesis by (simp add: actor_go_def)
next
  case (Finished r)
  with assms show ?thesis by (simp add: actor_go_def)
qed (rule early_go_end [OF assms], simp, simp)+

lemma hook_returned_early:
  assumes "end_inv s" "ra_pc s = InHook h"
  shows "end_inv (hook_returned h ret s)"
proof (cases h)
  case (PreStop r)
  with assms show ?thesis by (cases ret) (auto intro!: end_inv_early_step [OF assms(1)])
next
  case (Handle b)
  with assms show ?thesis
    by (cases ret) (auto simp: fail_loop_def break_with_def hold_answer_def intro!: end_inv_early_step [OF assms(1)])
next
  case OnStopped
  with assms show ?thesis
    by (cases ret) (auto simp: after_on_stopped_def Let_def intro!: end_inv_early_step [OF assms(1)])
next
  case OnStarted
  with assms show ?thesis
    by (cases ret) (auto simp: init_failed_def init_done_def intro!: end_inv_early_step [OF assms(1)])
next
  case PreStart
  with assms show ?thesis
    by (cases ret) (auto simp: init_failed_def intro!: end_inv_early_step [OF assms(1)])
qed

lemma abort_task_end:
  assumes "end_inv s"
  shows "end_inv (abort_task b s)"
proof (cases "ra_pc s = Unpolled")
  case True
  have *: "live_plane 4 (ra_plane s)" "ra_written s = None" "ra_guard s" "ra_status s \<noteq> StStopped"
    using assms True by (auto simp: end_inv_def)
  have "live_plane 1 (snd (status_tx_drop (snd (status_tx_drop
      (snd (write_reason now r False (snd (status_tx_drop (ra_plane s)))))))))" for now r
    using * by (intro live_drops live_writes) auto
  with True * show ?thesis
    by (auto simp: abort_task_def end_inv_def Let_def lane_rx_drop_def lane_closed_def)
next
  case False
  show ?thesis
  proof (cases "suspended (ra_pc s)")
    case True
    then have "\<not> written_pc (ra_pc s)" "\<not> stopped_pc (ra_pc s)" "tx_count (ra_pc s) (ra_guard s) = (if ra_guard s then 4 else 3)
      \<or> ra_guard s \<noteq> named_pc (ra_pc s) \<and> \<not> is_abort_name (ra_pc s)"
      by (cases "ra_pc s" rule: suspended.cases; simp)+
    with assms True False show ?thesis
      by (auto simp: abort_task_def end_inv_def drop_answers_def)
  qed (use assms False in \<open>simp add: abort_task_def\<close>)
qed

lemma actor_step_end:
  assumes "end_inv s"
  shows "end_inv (actor_step env s op)"
proof (cases op)
  case Go
  with assms show ?thesis by (simp add: actor_go_end)
next
  case (RaiseStop r)
  with assms show ?thesis by (auto simp: end_inv_def lane_closed_raise)
next
  case (HookReturns ret)
  with assms show ?thesis by (auto simp: hook_returned_early split: run_pc.splits)
next
  case (Abort b)
  with assms show ?thesis by (simp add: abort_task_end)
next
  case (ForwardersEnded p)
  with assms show ?thesis by (auto simp: end_inv_def)
next
  case (RunEnv e)
  with assms show ?thesis by (simp add: end_inv_def)
next
  case (HookCalls c)
  with assms show ?thesis
    by (cases "ra_pc s") (auto intro!: end_inv_early_step [OF assms])
next
  case (Select e)
  with assms show ?thesis by (auto intro!: end_inv_early_step [OF assms])
next
  case (CollectOp c)
  with assms show ?thesis
    by (cases "ra_pc s") (auto intro!: end_inv_early_step [OF assms])
next
  case (TeardownOp c)
  show ?thesis
  proof (cases "\<exists>td. ra_pc s = Tail (StoppingChildren td)")
    case True
    with TeardownOp show ?thesis by (auto simp: split_def intro!: end_inv_early_step [OF assms])
  next
    case False
    with TeardownOp assms show ?thesis by (auto split: run_pc.splits tail_pc.splits)
  qed
qed

interpretation ending: invariant_machine "actor_step env" end_inv
  for env
  by unfold_locales (rule actor_step_end)

section \<open>What a failed start and a failed request are told\<close>

fun loop_pc :: "run_pc \<Rightarrow> bool" where
  "loop_pc (CallHook h) = (h \<noteq> OnStopped)"
| "loop_pc (InHook h) = (h \<noteq> OnStopped)"
| "loop_pc pc = (pc \<in> {Unpolled, CheckBeforeStart, CheckAfterPreStart, AtSelect} \<or>
     (\<exists>r ret. pc = ReadAfterPreStop r ret) \<or> (\<exists>e. pc = Picked e))"

definition answer_inv :: "run_state \<Rightarrow> bool" where
  "answer_inv s \<longleftrightarrow>
     (loop_pc (ra_pc s) \<longrightarrow> ra_init s = None \<and> ra_held s = NoHeld) \<and>
     (loop_pc (ra_pc s) \<or> ra_pc s = LoopEnded \<longrightarrow> ra_pending s = None) \<and>
     (\<forall>e. ra_init s = Some e \<longrightarrow> stands e s) \<and>
     (\<forall>e. ra_held s = Held e \<longrightarrow> stands e s) \<and>
     (\<forall>e. ra_held s = HeldSent e \<longrightarrow> stands e s \<and> ra_reason s \<noteq> Kill \<and> answered_pc (ra_pc s)) \<and>
     (\<forall>e. ra_ack s = AckErr e \<longrightarrow> ra_init s = Some e \<and> ra_reason s \<noteq> Kill \<and> acked_pc (ra_pc s))"

text \<open>The steps past the loop: the two answers are given in the end, once the reason is settled.\<close>

definition settles :: "run_state \<Rightarrow> run_state \<Rightarrow> bool" where
  "settles s s' \<longleftrightarrow>
     \<not> loop_pc (ra_pc s') \<and> ra_init s' = ra_init s \<and>
     (ra_pc s' = LoopEnded \<longrightarrow> ra_pc s = LoopEnded \<and> ra_pending s' = ra_pending s) \<and>
     (ra_held s' = ra_held s \<or> ra_held s' = HeldDropped \<or>
      (\<exists>e. ra_held s = Held e \<and> ra_held s' = HeldSent e \<and> ra_reason s' \<noteq> Kill \<and> answered_pc (ra_pc s'))) \<and>
     (ra_ack s' = ra_ack s \<or> ra_ack s' = AckDropped \<or>
      (\<exists>e. ra_init s = Some e \<and> ra_ack s' = AckErr e \<and> ra_reason s' \<noteq> Kill \<and> acked_pc (ra_pc s'))) \<and>
     (answered_pc (ra_pc s) \<longrightarrow> answered_pc (ra_pc s') \<and> ra_reason s' = ra_reason s) \<and>
     (acked_pc (ra_pc s) \<longrightarrow> acked_pc (ra_pc s'))"

lemma acked_answered: "acked_pc pc \<Longrightarrow> answered_pc pc"
  by (cases pc) auto

lemma settles_refl [simp]: "\<not> loop_pc (ra_pc s) \<Longrightarrow> settles s s"
  by (simp add: settles_def)

lemma settles_answers:
  assumes "answer_inv s" "settles s s'" "\<And>e. stands e s \<Longrightarrow> stands e s'"
  shows "answer_inv s'"
proof -
  note inv = assms(1) [unfolded answer_inv_def]
  note st = assms(2) [unfolded settles_def]
  have ack: "ra_init s' = Some e \<and> ra_reason s' \<noteq> Kill \<and> acked_pc (ra_pc s')" if a: "ra_ack s' = AckErr e" for e
  proof (cases "ra_ack s' = ra_ack s")
    case True
    with a inv have "ra_init s = Some e" "ra_reason s \<noteq> Kill" "acked_pc (ra_pc s)" by metis+
    with st acked_answered [of "ra_pc s"] show ?thesis by metis
  next
    case False
    with a st show ?thesis by auto
  qed
  have held: "stands e s" if a: "ra_held s' = Held e" for e
  proof -
    from a st have "ra_held s = Held e" by auto
    with inv show ?thesis by blast
  qed
  have sent: "stands e s \<and> ra_reason s' \<noteq> Kill \<and> answered_pc (ra_pc s')" if a: "ra_held s' = HeldSent e" for e
  proof (cases "ra_held s' = ra_held s")
    case True
    with a inv have "stands e s" "ra_reason s \<noteq> Kill" "answered_pc (ra_pc s)" by metis+
    with st show ?thesis by metis
  next
    case False
    with a st have "ra_held s = Held e" "ra_reason s' \<noteq> Kill" "answered_pc (ra_pc s')" by auto
    with inv show ?thesis by blast
  qed
  have "stands e s" if "ra_init s' = Some e" for e
    using inv st that by metis
  moreover have "\<not> loop_pc (ra_pc s')" "ra_pc s' = LoopEnded \<longrightarrow> ra_pending s' = None"
    using inv st by auto
  ultimately show ?thesis using ack held sent assms(3) unfolding answer_inv_def by blast
qed

text \<open>Two steps before the answers, with no change to them.\<close>

lemma settles_quiet:
  "\<not> loop_pc (ra_pc s') \<Longrightarrow> ra_pc s' \<noteq> LoopEnded \<Longrightarrow> \<not> answered_pc (ra_pc s) \<Longrightarrow> ra_init s' = ra_init s \<Longrightarrow>
   ra_held s' = ra_held s \<Longrightarrow> ra_ack s' = ra_ack s \<Longrightarrow> settles s s'"
  using acked_answered by (auto simp: settles_def)

lemma tail_go_settles:
  assumes "ra_pc s = Tail t"
  shows "settles s (tail_go env t s)"
proof (cases t)
  case AnswerHeld
  with assms show ?thesis by (auto simp: settles_def deliver_held_def split: held_answer.splits)
next
  case AnswerAck
  with assms show ?thesis by (auto simp: settles_def answer_ack_def split: option.splits)
next
  case (StoppingChildren td)
  with assms show ?thesis by (auto intro!: settles_quiet split: option.splits teardown_result.splits)
qed (use assms in \<open>auto simp: settles_def children_stopped_def drop_guard_def seal_lane_def split_def Let_def\<close>)

lemma actor_go_settles:
  assumes "\<not> loop_pc (ra_pc s)"
  shows "settles s (actor_go env s)"
proof (cases "ra_pc s")
  case (Tail t)
  then show ?thesis by (simp add: actor_go_def tail_go_settles)
next
  case (Aborting a r)
  then show ?thesis
    by (cases a) (auto simp: actor_go_def settles_def drop_answers_def drop_guard_def Let_def split: held_answer.splits)
qed (use assms in \<open>auto simp: actor_go_def loop_ended_def draining_def read_before_on_stopped_def Let_def
    intro!: settles_quiet split: option.splits final_outcome.splits\<close>)

lemma actor_step_settles:
  assumes "\<not> loop_pc (ra_pc s)"
  shows "settles s (actor_step env s op)"
proof (cases op)
  case Go
  with assms show ?thesis by (simp add: actor_go_settles)
next
  case (HookReturns ret)
  show ?thesis
  proof (cases "ra_pc s = InHook OnStopped")
    case True
    with HookReturns show ?thesis
      by (cases ret) (auto simp: after_on_stopped_def Let_def intro!: settles_quiet)
  qed (use assms HookReturns in \<open>auto split: run_pc.splits\<close>)
next
  case (Abort b)
  have "\<not> answered_pc (ra_pc s)" "\<not> acked_pc (ra_pc s)" if "suspended (ra_pc s)"
    using that by (cases "ra_pc s" rule: suspended.cases; simp)+
  with Abort assms show ?thesis
    by (auto simp: abort_task_def settles_def drop_answers_def split: held_answer.splits)
next
  case (RaiseStop r)
  with assms show ?thesis by (simp add: settles_def)
next
  case (RunEnv r)
  with assms show ?thesis by (simp add: settles_def)
next
  case (TeardownOp c)
  show ?thesis
  proof (cases "\<exists>td. ra_pc s = Tail (StoppingChildren td)")
    case True
    with TeardownOp show ?thesis by (auto simp: split_def intro!: settles_quiet)
  qed (use TeardownOp assms in \<open>auto split: run_pc.splits tail_pc.splits\<close>)
next
  case (HookCalls c)
  with assms show ?thesis by (cases "ra_pc s") (auto intro!: settles_quiet)
next
  case (CollectOp c)
  with assms show ?thesis by (cases "ra_pc s") (auto intro!: settles_quiet)
next
  case (Select e)
  with assms show ?thesis by auto
next
  case (ForwardersEnded p)
  with assms show ?thesis by (auto intro!: settles_quiet)
qed

text \<open>Before the loop ends nothing is answered; a failed start and a failed handler leave their error as the reason.\<close>

definition fails :: "run_state \<Rightarrow> run_state \<Rightarrow> bool" where
  "fails s s' \<longleftrightarrow>
     ra_pending s' = None \<and> (\<forall>e. ra_ack s' \<noteq> AckErr e) \<and>
     (if loop_pc (ra_pc s') then ra_init s' = None \<and> ra_held s' = NoHeld
      else (\<forall>e. ra_init s' = Some e \<longrightarrow> ra_reason s' = Failure e \<and> past_pc (ra_pc s')) \<and>
           (\<forall>e. ra_held s' = Held e \<longrightarrow> ra_reason s' = Failure e \<and> past_pc (ra_pc s')) \<and>
           (\<forall>e. ra_held s' \<noteq> HeldSent e))"

lemma fails_answers: "fails s s' \<Longrightarrow> answer_inv s'"
  using past_over by (auto simp: fails_def answer_inv_def stands_def split: if_splits)

lemma loop_start:
  assumes "answer_inv s" "loop_pc (ra_pc s)"
  shows "ra_init s = None" "ra_held s = NoHeld" "ra_pending s = None" "ra_ack s \<noteq> AckErr e"
  using assms by (auto simp: answer_inv_def)

lemma fails_quiet:
  assumes "answer_inv s" "loop_pc (ra_pc s)" "ra_init s' = ra_init s" "ra_held s' = ra_held s"
    and "ra_pending s' = ra_pending s" "ra_ack s' = ra_ack s"
  shows "fails s s'"
  using loop_start [OF assms(1,2)] assms(3-) by (simp add: fails_def)

lemma hook_returned_fails:
  assumes "answer_inv s" "ra_pc s = InHook h" "h \<noteq> OnStopped"
  shows "fails s (hook_returned h ret s)"
proof -
  have l: "loop_pc (ra_pc s)" using assms by simp
  note start = loop_start [OF assms(1) l]
  show ?thesis
    using assms start
    by (cases h; cases ret)
      (auto simp: fails_def init_failed_def init_done_def fail_loop_def break_with_def hold_answer_def)
qed

lemma actor_go_fails:
  assumes "answer_inv s" "loop_pc (ra_pc s)"
  shows "fails s (actor_go env s)"
proof (cases "ra_pc s")
  case (Picked e)
  then show ?thesis
    by (cases e) (auto simp: actor_go_def break_with_def intro!: fails_quiet [OF assms]
        split: option.splits prod.splits flow.splits)
next
  case (ReadAfterPreStop r ret)
  then show ?thesis
    by (auto simp: actor_go_def after_pre_stop_def Let_def break_with_def intro!: fails_quiet [OF assms]
        split: option.splits hook_return.splits stop_reason.splits)
qed (use assms in \<open>auto simp: actor_go_def init_check_def killed_in_init_def lane_branch_def break_with_def Let_def
    intro!: fails_quiet [OF assms] split: option.splits\<close>)

lemma actor_step_fails:
  assumes "answer_inv s" "loop_pc (ra_pc s)"
  shows "fails s (actor_step env s op)"
proof (cases op)
  case Go
  with assms show ?thesis by (simp add: actor_go_fails)
next
  case (HookReturns ret)
  show ?thesis
  proof (cases "\<exists>h. ra_pc s = InHook h")
    case True
    with HookReturns assms show ?thesis by (auto intro!: hook_returned_fails)
  next
    case False
    with HookReturns have "actor_step env s op = s" by (auto split: run_pc.splits)
    then show ?thesis by (auto intro: fails_quiet [OF assms])
  qed
next
  case (Abort b)
  with assms loop_start [OF assms] show ?thesis
    by (auto simp: abort_task_def fails_def drop_answers_def Let_def)
next
  case (TeardownOp c)
  with assms have "actor_step env s op = s" by (cases "ra_pc s") auto
  then show ?thesis by (auto intro: fails_quiet [OF assms])
next
  case (CollectOp c)
  with assms have "actor_step env s op = s" by (cases "ra_pc s") auto
  then show ?thesis by (auto intro: fails_quiet [OF assms])
next
  case (HookCalls c)
  then show ?thesis by (cases "ra_pc s") (auto intro!: fails_quiet [OF assms])
qed (auto intro!: fails_quiet [OF assms])

interpretation answering: invariant_machine "actor_step env" answer_inv
  for env
proof unfold_locales
  fix s op
  assume inv: "answer_inv s"
  show "answer_inv (actor_step env s op)"
  proof (cases "loop_pc (ra_pc s)")
    case True
    from actor_step_fails [OF inv this] show ?thesis by (rule fails_answers)
  next
    case False
    from settles_answers [OF inv actor_step_settles [OF this] actor_step_stands] show ?thesis .
  qed
qed

lemma live_clone: "live_plane n c \<Longrightarrow> 0 < n \<Longrightarrow> n < 2 ^ 32 \<Longrightarrow> m = n + 1 \<Longrightarrow> live_plane m (status_tx_clone c)"
  using live_plane_step [of n c PlaneClone] by simp

lemma spawned_live: "live_plane 4 spawned_plane"
proof -
  have "live_plane 1 (snd (status_channel status_cell_new))"
    unfolding live_plane_def using plane_rel_channel by blast
  then have "live_plane 2 (status_tx_clone (snd (status_channel status_cell_new)))"
    by (rule live_clone) simp_all
  then have "live_plane 3 (status_tx_clone (status_tx_clone (snd (status_channel status_cell_new))))"
    by (rule live_clone) simp_all
  then show ?thesis
    unfolding spawned_plane_def by (rule live_clone) simp_all
qed

lemma spawned_end_inv: "end_inv (run_spawned supervisor acked priority cx)"
  using spawned_live
  by (simp add: end_inv_early run_spawned_def)
    (simp add: spawned_plane_def status_tx_clone_def status_channel_def status_cell_new_def status_value_new_def Let_def)

lemma spawned_answer_inv: "answer_inv (run_spawned supervisor acked priority cx)"
  by (simp add: answer_inv_def run_spawned_def)

section \<open>Properties\<close>

text \<open>
  C7.  Whoever sees that an actor is over, by reading \<open>Stopped\<close> or by the close of its status plane, finds its name
  free, the reason of its end written and its lane refusing every further request, whether the task returned, was
  aborted or was never polled; and a task that returned wrote the reason it returned.
\<close>

theorem end_is_announced_last:
  assumes "s = run (actor_step env) (run_spawned supervisor acked priority cx) ops"
  shows "(status_read (ra_plane s) = StStopped \<or> cell_closed (ra_plane s) \<longrightarrow>
       \<not> ra_guard s \<and> ra_written s \<noteq> None \<and> (\<forall>r. lane_refuses (ra_lane s) r)) \<and>
     (\<forall>r. ra_pc s = Finished r \<longrightarrow> ra_written s = Some r)"
proof -
  have "end_inv s" unfolding assms by (rule ending.run_inv) (rule spawned_end_inv)
  note inv = this [unfolded end_inv_def]
  have "\<not> ra_guard s \<and> ra_written s \<noteq> None \<and> (\<forall>r. lane_refuses (ra_lane s) r)"
    if over: "status_read (ra_plane s) = StStopped \<or> cell_closed (ra_plane s)"
  proof -
    have "status_read (ra_plane s) = ra_status s" using inv live_read by blast
    moreover have "cell_closed (ra_plane s) \<longleftrightarrow> tx_count (ra_pc s) (ra_guard s) = 0" using inv live_closed by blast
    ultimately have "stopped_pc (ra_pc s) \<or> ra_pc s = Aborted"
      using over inv by (cases "ra_pc s") (auto split: if_splits abort_pc.splits)
    then have "\<not> ra_guard s \<and> ra_written s \<noteq> None \<and> lane_closed (ra_lane s)"
      using inv by (cases "ra_pc s") auto
    then show ?thesis by (auto simp: lane_refuses_iff lane_closed_def)
  qed
  moreover have "ra_written s = Some r" if "ra_pc s = Finished r" for r
    using inv that by auto
  ultimately show ?thesis by blast
qed

definition example_stop :: "run_op list" where
  "example_stop = example_start @
     [RaiseStop Graceful, Go, Go, HookReturns (Returned True), Go, Go, Go, Go, HookReturns (Returned True)] @ example_end"

lemma example_stopped:
  "ra_pc (run (actor_step quiet_env) example_worker example_stop) = Finished Graceful"
  "sv_status (sc_value (ra_plane (run (actor_step quiet_env) example_worker example_stop))) = StStopped"
  by (simp_all add: example_stop_def example_start_def example_end_def run_simps severity_of.simps)

theorem end_is_announced_last_witness:
  "\<not> ra_guard (run (actor_step quiet_env) example_worker example_stop) \<and>
   ra_written (run (actor_step quiet_env) example_worker example_stop) = Some Graceful \<and>
   lane_refuses (ra_lane (run (actor_step quiet_env) example_worker example_stop)) Kill"
proof -
  let ?s = "run (actor_step quiet_env) example_worker example_stop"
  have "end_inv ?s" by (rule ending.run_inv) (rule spawned_end_inv)
  then have "status_read (ra_plane ?s) = StStopped"
    using example_stopped(2) live_read unfolding end_inv_def by metis
  then show ?thesis
    using end_is_announced_last [OF refl, of quiet_env False True False "sup_ctx_new one_for_all 1 0" example_stop]
      example_stopped(1) by blast
qed

text \<open>
  C20.  The caller of a start that failed and the sender of a request whose handler failed are told the error only in
  the end of the actor: by then the name is free, so that it can be started again, and the lane refuses, and the
  error is the reason the actor ends with.  The start's caller moreover finds it written.
\<close>

theorem failed_answers_come_last:
  assumes "s = run (actor_step env) (run_spawned supervisor acked priority cx) ops"
  shows "(\<forall>e. ra_ack s = AckErr e \<longrightarrow> \<not> ra_guard s \<and> ra_written s = Some (Failure e)) \<and>
     (\<forall>e. ra_held s = HeldSent e \<longrightarrow> \<not> ra_guard s \<and> (\<forall>r. lane_refuses (ra_lane s) r) \<and> ra_reason s = Failure e)"
proof -
  have "end_inv s" unfolding assms by (rule ending.run_inv) (rule spawned_end_inv)
  note inv = this [unfolded end_inv_def]
  have "answer_inv s" unfolding assms by (rule answering.run_inv) (rule spawned_answer_inv)
  note ans = this [unfolded answer_inv_def]
  have views: "\<not> named_pc pc \<and> \<not> is_abort_name pc \<and> refusing_pc pc" if "answered_pc pc" for pc
    using that by (cases pc) auto
  have written: "sealed_pc pc \<and> written_pc pc" if "acked_pc pc" for pc
    using that by (cases pc) auto
  have fails: "ra_reason s = Failure e" if "stands e s" "ra_reason s \<noteq> Kill" for e
    using that by (auto simp: stands_def)
  have "\<not> ra_guard s \<and> ra_written s = Some (Failure e)" if "ra_ack s = AckErr e" for e
  proof -
    have "ra_init s = Some e" "ra_reason s \<noteq> Kill" "acked_pc (ra_pc s)" using ans that by blast+
    moreover from this have "ra_reason s = Failure e" using ans fails by blast
    ultimately show ?thesis using inv written views acked_answered by metis
  qed
  moreover have "\<not> ra_guard s \<and> (\<forall>r. lane_refuses (ra_lane s) r) \<and> ra_reason s = Failure e"
    if "ra_held s = HeldSent e" for e
  proof -
    have "stands e s" "ra_reason s \<noteq> Kill" "answered_pc (ra_pc s)" using ans that by blast+
    with fails have "\<not> ra_guard s" "lane_closed (ra_lane s)" "ra_reason s = Failure e" using inv views by metis+
    then show ?thesis by (auto simp: lane_refuses_iff lane_closed_def)
  qed
  ultimately show ?thesis by blast
qed

definition example_bad_start :: "run_op list" where
  "example_bad_start = [Go, Go, Go, HookReturns (Panicked ''no file'')] @ example_end"

definition example_bad_request :: "run_op list" where
  "example_bad_request = example_start @ [Select (PickMail True), Go, HookReturns (ReturnedErr (User ''disk full''))]"

definition example_bad_stop :: "run_op list" where
  "example_bad_stop = [Go, Go, Go, HookReturns (Panicked ''again'')] @ example_end"

lemma example_answers:
  "ra_ack (run (actor_step quiet_env) example_worker example_bad_start) = AckErr (Panic ''no file'')"
  "ra_held (run (actor_step quiet_env) example_worker (example_bad_request @ example_bad_stop)) =
     HeldSent (User ''disk full'')"
  by (simp_all add: example_bad_start_def example_bad_request_def example_bad_stop_def example_start_def example_end_def
      run_simps init_failed_def fail_loop_def hold_answer_def unless_failure_def)

theorem failed_answers_come_last_witness:
  "ra_written (run (actor_step quiet_env) example_worker example_bad_start) = Some (Failure (Panic ''no file'')) \<and>
   lane_refuses (ra_lane (run (actor_step quiet_env) example_worker (example_bad_request @ example_bad_stop))) Kill"
  using failed_answers_come_last [OF refl, of quiet_env False True False "sup_ctx_new one_for_all 1 0" example_bad_start]
    failed_answers_come_last [OF refl, of quiet_env False True False "sup_ctx_new one_for_all 1 0"
      "example_bad_request @ example_bad_stop"] example_answers by blast

text \<open>
  C21.  The failure an actor's loop ended with is the reason it returns, whatever its final deliveries, \<open>on_stopped\<close>, its
  children's teardown and the drops of what it owned do, panics included: only a \<open>Kill\<close> its lane takes before it is
  sealed replaces it.
\<close>

theorem first_failure_stands:
  assumes "s = run (actor_step env) (run_spawned supervisor acked priority cx) ops"
    and "ra_pc s = LoopEnded" "ra_reason s = Failure e"
    and "s' = run (actor_step env) s later" "ra_pc s' = Finished r"
  shows "r = (if kill_stored (ra_lane s') then Kill else Failure e)"
proof -
  have s': "s' = run (actor_step env) (run_spawned supervisor acked priority cx) (ops @ later)"
    unfolding assms(1,4) by (simp add: run_append)
  have "answer_inv s" unfolding assms(1) by (rule answering.run_inv) (rule spawned_answer_inv)
  with assms(2,3) have "stands e s" by (simp add: stands_def answer_inv_def)
  then have "stands e s'" unfolding assms(4) by (rule failed.run_inv)
  moreover have "end_inv s'" unfolding s' by (rule ending.run_inv) (rule spawned_end_inv)
  then have "r = ra_reason s'" using assms(5) unfolding end_inv_def by blast
  moreover have "kill_inv s'" unfolding s' by (rule killed.run_inv) (rule spawned_kill_inv)
  then have "r = Kill \<longleftrightarrow> kill_stored (ra_lane s')" using assms(5) by (auto simp: kill_inv_def)
  ultimately show ?thesis by (auto simp: stands_def)
qed

lemma example_failed:
  "ra_pc (run (actor_step quiet_env) example_worker example_bad_request) = LoopEnded"
  "ra_reason (run (actor_step quiet_env) example_worker example_bad_request) = Failure (User ''disk full'')"
  "ra_pc (run (actor_step quiet_env) (run (actor_step quiet_env) example_worker example_bad_request) example_bad_stop) =
     Finished (Failure (User ''disk full''))"
  by (simp_all add: example_bad_request_def example_bad_stop_def example_start_def example_end_def run_simps fail_loop_def
      hold_answer_def unless_failure_def)

theorem first_failure_stands_witness:
  "\<not> kill_stored (ra_lane (run (actor_step quiet_env)
     (run (actor_step quiet_env) example_worker example_bad_request) example_bad_stop))"
  using first_failure_stands [OF refl example_failed(1,2) refl example_failed(3)] by (auto split: if_splits)

end
