(* ===== verification/Stop_Step.thy ===== *)
theory Stop_Step
  imports Stop_Lane
begin

text \<open>
  The step cell of a bounded stop (\<open>StopStep\<close> and \<open>RaiserShare\<close> in \<open>src/src/system.rs\<close>, with the hand-over of a
  lost stop task in \<open>src/src/actor/handle.rs\<close>).

  Several parties of one call may raise its \<open>Kill\<close>: the call itself, its stop task and the reaper's entry that
  carries on for a lost task.  Each is an agent that performs one atomic access of the code at a time, on the
  16-bit count and on the actor's lane; a compare-exchange may fail, and the code between may unwind.  The
  decision on the call's first request is a second atomic, raced for by the call and the loss of its task.
\<close>

section \<open>The count\<close>

type_synonym u16 = "16 word"

datatype stop_outcome = StopGraceful | StopKilled | StopAborted | StopUnresponsive

definition REQUESTED :: u16 where
  "REQUESTED = 0"

definition KILLED :: u16 where
  "KILLED = - 1"

text \<open>How a raise ended: with the lane's answer, or by an unwind before the raise or out of it.\<close>

datatype raise_end = RaiseAnswer raise_result | UnwoundBefore | UnwoundIn

text \<open>The phases of \<open>RaiserShare\<close> that store \<open>Killed\<close> at the drop: the \<open>Kill\<close> stands, or may stand.\<close>

fun kill_may_stand :: "raise_end \<Rightarrow> bool" where
  "kill_may_stand (RaiseAnswer r) = (r \<noteq> Refused)"
| "kill_may_stand UnwoundBefore = False"
| "kill_may_stand UnwoundIn = True"

datatype raiser_pc =
    RaiserStart
  | RaiserTry u16
  | RaiserBetween bool
  | RaiserRaising bool
  | RaiserDropping raise_end
  | RaiserGive u16 raise_end
  | RaiserLeft bool raise_end

text \<open>The end of a raise: the share, if there is one, is dropped next.\<close>

definition raise_over :: "bool \<Rightarrow> raise_end \<Rightarrow> raiser_pc" where
  "raise_over took e = (if took then RaiserDropping e else RaiserLeft False e)"

text \<open>
  One access of \<open>raise_kill\<close> and of the drop of its share; \<open>weak\<close> is a compare-exchange that fails without need.
\<close>

fun raiser_go :: "bool \<Rightarrow> raiser_pc \<Rightarrow> u16 \<times> lane_cell \<Rightarrow> raiser_pc \<times> u16 \<times> lane_cell" where
  "raiser_go weak RaiserStart (cell, lane) = (RaiserTry cell, cell, lane)"
| "raiser_go weak (RaiserTry seen) (cell, lane) =
     (if seen = KILLED then (RaiserBetween False, cell, lane)
      else if cell = seen \<and> \<not> weak then (RaiserBetween True, seen + 1, lane)
      else (RaiserTry cell, cell, lane))"
| "raiser_go weak (RaiserBetween took) (cell, lane) = (RaiserRaising took, cell, lane)"
| "raiser_go weak (RaiserRaising took) (cell, lane) =
     (case lane_raise lane Kill of
        (answer, lane') \<Rightarrow> (raise_over took (RaiseAnswer (ra_result answer)), cell, lane'))"
| "raiser_go weak (RaiserDropping e) (cell, lane) =
     (if kill_may_stand e then (RaiserLeft True e, KILLED, lane) else (RaiserGive cell e, cell, lane))"
| "raiser_go weak (RaiserGive seen e) (cell, lane) =
     (if seen = KILLED \<or> seen = REQUESTED then (RaiserLeft True e, cell, lane)
      else if cell = seen \<and> \<not> weak then (RaiserLeft True e, seen - 1, lane)
      else (RaiserGive cell e, cell, lane))"
| "raiser_go weak (RaiserLeft took e) (cell, lane) = (RaiserLeft took e, cell, lane)"

text \<open>An unwind: out of \<open>between\<close>, or out of the raise, whose write may or may not have happened.\<close>

fun raiser_unwind :: "bool \<Rightarrow> raiser_pc \<Rightarrow> u16 \<times> lane_cell \<Rightarrow> raiser_pc \<times> u16 \<times> lane_cell" where
  "raiser_unwind wrote (RaiserBetween took) (cell, lane) = (raise_over took UnwoundBefore, cell, lane)"
| "raiser_unwind wrote (RaiserRaising took) (cell, lane) =
     (raise_over took UnwoundIn, cell, if wrote then snd (lane_raise lane Kill) else lane)"
| "raiser_unwind wrote pc (cell, lane) = (pc, cell, lane)"

text \<open>The readers: what a published \<open>Stopped\<close> reads as, \<open>None\<close> while a step is in progress.\<close>

definition requested :: "u16 \<Rightarrow> stop_outcome option" where
  "requested cell =
     (if cell = KILLED then Some StopKilled else if cell = REQUESTED then Some StopGraceful else None)"

definition kill_started :: "u16 \<Rightarrow> bool" where
  "kill_started cell \<longleftrightarrow> cell \<noteq> REQUESTED"

record kill_call =
  kc_cell :: u16
  kc_lane :: lane_cell
  kc_raisers :: "raiser_pc list"

definition kill_call_new :: "nat \<Rightarrow> lane_cell \<Rightarrow> kill_call" where
  "kill_call_new n lane = \<lparr>kc_cell = REQUESTED, kc_lane = lane, kc_raisers = replicate n RaiserStart\<rparr>"

datatype kill_op = RaiserGo nat bool | RaiserUnwinds nat bool | OthersOnLane lane_op

definition raiser_to :: "nat \<Rightarrow> raiser_pc \<times> u16 \<times> lane_cell \<Rightarrow> kill_call \<Rightarrow> kill_call" where
  "raiser_to i r s =
     (case r of (pc, cell, lane) \<Rightarrow> \<lparr>kc_cell = cell, kc_lane = lane, kc_raisers = (kc_raisers s)[i := pc]\<rparr>)"

fun kill_call_step :: "kill_call \<Rightarrow> kill_op \<Rightarrow> kill_call" where
  "kill_call_step s (RaiserGo i weak) =
     (if i < length (kc_raisers s)
      then raiser_to i (raiser_go weak (kc_raisers s ! i) (kc_cell s, kc_lane s)) s else s)"
| "kill_call_step s (RaiserUnwinds i wrote) =
     (if i < length (kc_raisers s)
      then raiser_to i (raiser_unwind wrote (kc_raisers s ! i) (kc_cell s, kc_lane s)) s else s)"
| "kill_call_step s (OthersOnLane op) = s\<lparr>kc_lane := lane_step (kc_lane s) op\<rparr>"

section \<open>What the count counts\<close>

fun has_share :: "raiser_pc \<Rightarrow> bool" where
  "has_share (RaiserBetween took) = took"
| "has_share (RaiserRaising took) = took"
| "has_share (RaiserDropping e) = True"
| "has_share (RaiserGive seen e) = True"
| "has_share _ = False"

fun stored_killed :: "raiser_pc \<Rightarrow> bool" where
  "stored_killed (RaiserLeft took e) = (took \<and> kill_may_stand e)"
| "stored_killed _ = False"

definition shares :: "raiser_pc list \<Rightarrow> nat" where
  "shares rs = length (filter has_share rs)"

text \<open>What an agent's local reads tell: a \<open>Killed\<close> it saw stands, and a giver saw its own share counted.\<close>

fun raiser_ok :: "u16 \<Rightarrow> raiser_pc \<Rightarrow> bool" where
  "raiser_ok cell (RaiserTry seen) = (seen = KILLED \<longrightarrow> cell = KILLED)"
| "raiser_ok cell (RaiserBetween took) = (took \<or> cell = KILLED)"
| "raiser_ok cell (RaiserRaising took) = (took \<or> cell = KILLED)"
| "raiser_ok cell (RaiserGive seen e) = (\<not> kill_may_stand e \<and> seen \<noteq> 0 \<and> (seen = KILLED \<longrightarrow> cell = KILLED))"
| "raiser_ok cell (RaiserLeft took e) = (took \<or> cell = KILLED)"
| "raiser_ok cell _ = True"

definition call_inv :: "kill_call \<Rightarrow> bool" where
  "call_inv s \<longleftrightarrow>
     length (kc_raisers s) < 2 ^ 16 - 1 \<and> list_all (raiser_ok (kc_cell s)) (kc_raisers s) \<and>
     (if list_ex stored_killed (kc_raisers s) then kc_cell s = KILLED
      else kc_cell s = of_nat (shares (kc_raisers s)))"

lemma shares_le: "shares rs \<le> length rs"
  by (simp add: shares_def)

lemma shares_update:
  "i < length rs \<Longrightarrow>
   shares (rs[i := pc]) + (if has_share (rs ! i) then 1 else 0) = shares rs + (if has_share pc then 1 else 0)"
proof (induction rs arbitrary: i)
  case (Cons r rs)
  show ?case
  proof (cases i)
    case 0
    then show ?thesis by (simp add: shares_def)
  next
    case (Suc j)
    with Cons.IH [of j] Cons.prems show ?thesis by (simp add: shares_def)
  qed
qed simp

lemma unat_count: "n < 2 ^ 16 - 1 \<Longrightarrow> unat (of_nat n :: u16) = n"
  by (simp add: unat_of_nat take_bit_nat_eq_self)

lemma unat_killed: "unat KILLED = 2 ^ 16 - 1"
  by (simp add: KILLED_def unsigned_minus_1_eq_mask mask_eq_exp_minus_1)

lemma count_not_killed: "n < 2 ^ 16 - 1 \<Longrightarrow> (of_nat n :: u16) \<noteq> KILLED"
  using unat_count [of n] unat_killed by auto

lemma count_zero_iff: "n < 2 ^ 16 - 1 \<Longrightarrow> (of_nat n :: u16) = 0 \<longleftrightarrow> n = 0"
  using unat_count [of n] by auto

lemma count_pred: "Suc n = m \<Longrightarrow> (of_nat m :: u16) - 1 = of_nat n"
  by auto

lemma raiser_ok_mono: "raiser_ok cell r \<Longrightarrow> (cell = KILLED \<Longrightarrow> cell' = KILLED) \<Longrightarrow> raiser_ok cell' r"
  by (cases r) auto

lemma list_all_update: "list_all P xs \<Longrightarrow> P x \<Longrightarrow> list_all P (xs[i := x])"
  by (induction xs arbitrary: i) (auto split: nat.splits)

lemma ex_stored_update:
  "i < length rs \<Longrightarrow> \<not> stored_killed (rs ! i) \<Longrightarrow>
   list_ex stored_killed (rs[i := pc]) \<longleftrightarrow> list_ex stored_killed rs \<or> stored_killed pc"
proof (induction rs arbitrary: i)
  case (Cons r rs)
  then show ?case by (cases i) auto
qed simp

text \<open>A move of one raiser, by what it does to the count.\<close>

lemma call_move:
  assumes inv: "call_inv s" and i: "i < length (kc_raisers s)" "\<not> stored_killed (kc_raisers s ! i)"
    and ok: "raiser_ok cell pc"
    and move: "cell = kc_cell s \<and> has_share pc = has_share (kc_raisers s ! i) \<and> \<not> stored_killed pc \<or>
      cell = kc_cell s + 1 \<and> kc_cell s \<noteq> KILLED \<and> \<not> has_share (kc_raisers s ! i) \<and> has_share pc \<and> \<not> stored_killed pc \<or>
      cell = kc_cell s - 1 \<and> kc_cell s \<noteq> KILLED \<and> has_share (kc_raisers s ! i) \<and> \<not> has_share pc \<and> \<not> stored_killed pc \<or>
      cell = KILLED \<and> stored_killed pc \<or>
      cell = KILLED \<and> kc_cell s = KILLED \<and> \<not> stored_killed pc"
  shows "call_inv (raiser_to i (pc, cell, lane) s)"
proof -
  let ?rs = "kc_raisers s"
  have small: "length ?rs < 2 ^ 16 - 1" using inv by (simp add: call_inv_def)
  note sh = shares_update [OF i(1), of pc]
  have keeps: "kc_cell s = KILLED \<Longrightarrow> cell = KILLED" using move by auto
  have oks: "list_all (raiser_ok cell) (?rs[i := pc])"
    using inv ok keeps by (intro list_all_update) (auto simp: call_inv_def list_all_iff intro: raiser_ok_mono)
  have "if list_ex stored_killed (?rs[i := pc]) then cell = KILLED else cell = of_nat (shares (?rs[i := pc]))"
  proof (cases "list_ex stored_killed (?rs[i := pc])")
    case True
    with move keeps show ?thesis using inv ex_stored_update [OF i] by (auto simp: call_inv_def)
  next
    case False
    then have f: "\<not> list_ex stored_killed ?rs" "\<not> stored_killed pc" using ex_stored_update [OF i] by auto
    then have c: "kc_cell s = of_nat (shares ?rs)" using inv by (simp add: call_inv_def)
    then have "kc_cell s \<noteq> KILLED" using count_not_killed shares_le [of ?rs] small by (metis le_less_trans)
    with move f sh c False show ?thesis by (auto split: if_splits intro: count_pred)
  qed
  with small oks show ?thesis by (simp add: call_inv_def raiser_to_def)
qed

lemma shares_pos: "i < length rs \<Longrightarrow> has_share (rs ! i) \<Longrightarrow> 0 < shares rs"
  unfolding shares_def by (metis filter_empty_conv length_greater_0_conv nth_mem)

text \<open>What a share holder reads: a count that has its own share in it, or \<open>Killed\<close>.\<close>

lemma holder_reads:
  assumes "call_inv s" "i < length (kc_raisers s)" "has_share (kc_raisers s ! i)"
  shows "kc_cell s \<noteq> 0"
proof (cases "list_ex stored_killed (kc_raisers s)")
  case True
  with assms(1) show ?thesis by (simp add: call_inv_def KILLED_def)
next
  case False
  with assms(1) have "kc_cell s = of_nat (shares (kc_raisers s))" "shares (kc_raisers s) < 2 ^ 16 - 1"
    using shares_le [of "kc_raisers s"] by (auto simp: call_inv_def)
  with shares_pos [OF assms(2,3)] show ?thesis by (simp add: count_zero_iff)
qed

lemma raiser_ok_at: "call_inv s \<Longrightarrow> i < length (kc_raisers s) \<Longrightarrow> raiser_ok (kc_cell s) (kc_raisers s ! i)"
  by (auto simp: call_inv_def list_all_length)

lemma raiser_stays: "call_inv s \<Longrightarrow> call_inv (raiser_to i (kc_raisers s ! i, kc_cell s, kc_lane s) s)"
  by (simp add: raiser_to_def call_inv_def)

lemma call_keep:
  "call_inv s \<Longrightarrow> i < length (kc_raisers s) \<Longrightarrow> \<not> stored_killed (kc_raisers s ! i) \<Longrightarrow> raiser_ok (kc_cell s) pc \<Longrightarrow>
   has_share pc = has_share (kc_raisers s ! i) \<Longrightarrow> \<not> stored_killed pc \<Longrightarrow>
   call_inv (raiser_to i (pc, kc_cell s, lane) s)"
  by (rule call_move) simp_all

lemma raiser_go_inv:
  assumes "call_inv s" "i < length (kc_raisers s)"
  shows "call_inv (raiser_to i (raiser_go weak (kc_raisers s ! i) (kc_cell s, kc_lane s)) s)"
proof -
  note ok = raiser_ok_at [OF assms] and same = raiser_stays [OF assms(1), of i] and keep = call_keep [OF assms]
  note move = call_move [OF assms]
  show ?thesis
  proof (cases "kc_raisers s ! i")
    case (RaiserTry seen)
    consider "seen = KILLED" | "seen \<noteq> KILLED" "kc_cell s = seen \<and> \<not> weak"
      | "seen \<noteq> KILLED" "\<not> (kc_cell s = seen \<and> \<not> weak)" by blast
    then show ?thesis
    proof cases
      case 1
      with RaiserTry ok keep [of "RaiserBetween False"] show ?thesis by simp
    next
      case 2
      with RaiserTry move [of "seen + 1" "RaiserBetween True"] show ?thesis by simp
    next
      case 3
      with RaiserTry keep [of "RaiserTry (kc_cell s)"] show ?thesis by auto
    qed
  next
    case (RaiserRaising took)
    then show ?thesis using ok keep [of "raise_over took (RaiseAnswer r)" for r]
      by (cases took) (simp_all add: raise_over_def split_def)
  next
    case (RaiserDropping e)
    then show ?thesis
      using holder_reads [OF assms] move [of KILLED "RaiserLeft True e"] keep [of "RaiserGive (kc_cell s) e"] by simp
  next
    case (RaiserGive seen e)
    consider "seen = KILLED" | "seen \<noteq> KILLED" "kc_cell s = seen \<and> \<not> weak"
      | "seen \<noteq> KILLED" "\<not> (kc_cell s = seen \<and> \<not> weak)" by blast
    then show ?thesis
    proof cases
      case 1
      with RaiserGive ok move [of KILLED "RaiserLeft True e"] show ?thesis by simp
    next
      case 2
      with RaiserGive ok move [of "seen - 1" "RaiserLeft True e"] show ?thesis by (simp add: REQUESTED_def)
    next
      case 3
      with RaiserGive ok holder_reads [OF assms] keep [of "RaiserGive (kc_cell s) e"] show ?thesis
        by (auto simp: REQUESTED_def)
    qed
  next
    case (RaiserLeft took e)
    with same show ?thesis by simp
  qed (use ok in \<open>auto intro!: keep\<close>)
qed

lemma raiser_unwind_inv:
  assumes "call_inv s" "i < length (kc_raisers s)"
  shows "call_inv (raiser_to i (raiser_unwind wrote (kc_raisers s ! i) (kc_cell s, kc_lane s)) s)"
proof -
  note ok = raiser_ok_at [OF assms] and same = raiser_stays [OF assms(1), of i]
  show ?thesis
  proof (cases "kc_raisers s ! i")
    case (RaiserBetween took)
    with ok assms show ?thesis by (cases took) (auto simp: raise_over_def intro!: call_move)
  next
    case (RaiserRaising took)
    with ok assms show ?thesis by (cases took) (auto simp: raise_over_def intro!: call_move)
  qed (use same in auto)
qed

lemma kill_call_step_inv: "call_inv s \<Longrightarrow> call_inv (kill_call_step s op)"
proof (cases op)
  case (OthersOnLane l)
  assume "call_inv s"
  with OthersOnLane show ?thesis by (simp add: call_inv_def)
qed (auto simp: raiser_go_inv raiser_unwind_inv)

interpretation call: invariant_machine kill_call_step call_inv
  by unfold_locales (rule kill_call_step_inv)

section \<open>The decision on the first request\<close>

definition UNDECIDED :: u8 where
  "UNDECIDED = 0"

definition ACCEPTED :: u8 where
  "ACCEPTED = 1"

definition REFUSED :: u8 where
  "REFUSED = 2"

definition LOST_UNDECIDED :: u8 where
  "LOST_UNDECIDED = 3"

datatype loss_owes = LossSteps | LossNothing

definition decide_refused :: "u8 \<Rightarrow> u8" where
  "decide_refused d = (if d = UNDECIDED then REFUSED else d)"

definition decide_accepted :: "u8 \<Rightarrow> bool \<times> u8" where
  "decide_accepted d = (if d = UNDECIDED then (False, ACCEPTED) else (d = LOST_UNDECIDED, d))"

definition first_request_accepted :: "u8 \<Rightarrow> bool option" where
  "first_request_accepted d = (if d = UNDECIDED then None else Some (d \<noteq> REFUSED))"

definition lose_before_the_last_wait :: "u8 \<Rightarrow> loss_owes \<times> u8" where
  "lose_before_the_last_wait d =
     (if d = UNDECIDED then (LossNothing, LOST_UNDECIDED)
      else (if d = ACCEPTED then LossSteps else LossNothing, d))"

text \<open>
  The call that spawns its stop task before it raises: it raises, decides, and hands the steps over when it finds
  the task lost; its \<open>FirstRequest\<close> decides again when it returns, and decides as refused when it unwinds first.
  The task goes on only once the request is decided, ends by itself, or is lost at any point before.
\<close>

datatype caller_pc = CallerRaising | CallerRaised bool | CallerOwes | CallerThrough bool | CallerReturned bool

datatype stop_task_pc = StopTaskWaiting | StopTaskStepping | StopTaskOwes | StopTaskEnded | StopTaskLost

record first_request =
  fr_decision :: u8
  fr_caller :: caller_pc
  fr_task :: stop_task_pc
  fr_handed :: nat

definition first_request_new :: first_request where
  "first_request_new =
     \<lparr>fr_decision = UNDECIDED, fr_caller = CallerRaising, fr_task = StopTaskWaiting, fr_handed = 0\<rparr>"

datatype first_op = CallerRaises bool | CallerGoes | CallerUnwinds | TaskGoes | TaskEnds | TaskDropped

fun caller_go :: "caller_pc \<Rightarrow> first_request \<Rightarrow> first_request" where
  "caller_go (CallerRaised ok) s =
     (if ok then
        (case decide_accepted (fr_decision s) of
           (lost, d) \<Rightarrow> s\<lparr>fr_decision := d, fr_caller := if lost then CallerOwes else CallerThrough True\<rparr>)
      else s\<lparr>fr_decision := decide_refused (fr_decision s), fr_caller := CallerThrough False\<rparr>)"
| "caller_go CallerOwes s = s\<lparr>fr_handed := Suc (fr_handed s), fr_caller := CallerThrough True\<rparr>"
| "caller_go (CallerThrough ok) s =
     s\<lparr>fr_decision := decide_refused (fr_decision s), fr_caller := CallerReturned ok\<rparr>"
| "caller_go pc s = s"

fun task_go :: "stop_task_pc \<Rightarrow> first_request \<Rightarrow> first_request" where
  "task_go StopTaskWaiting s =
     (case first_request_accepted (fr_decision s) of
        None \<Rightarrow> s
      | Some ok \<Rightarrow> s\<lparr>fr_task := if ok then StopTaskStepping else StopTaskEnded\<rparr>)"
| "task_go StopTaskOwes s = s\<lparr>fr_handed := Suc (fr_handed s), fr_task := StopTaskLost\<rparr>"
| "task_go pc s = s"

definition task_dropped :: "first_request \<Rightarrow> first_request" where
  "task_dropped s =
     (if fr_task s = StopTaskWaiting \<or> fr_task s = StopTaskStepping
      then (case lose_before_the_last_wait (fr_decision s) of
              (owes, d) \<Rightarrow> s\<lparr>fr_decision := d, fr_task := if owes = LossSteps then StopTaskOwes else StopTaskLost\<rparr>)
      else s)"

fun first_step :: "first_request \<Rightarrow> first_op \<Rightarrow> first_request" where
  "first_step s (CallerRaises ok) =
     (if fr_caller s = CallerRaising then s\<lparr>fr_caller := CallerRaised ok\<rparr> else s)"
| "first_step s CallerGoes = caller_go (fr_caller s) s"
| "first_step s CallerUnwinds =
     (if fr_caller s = CallerRaising then s\<lparr>fr_decision := decide_refused (fr_decision s), fr_caller := CallerReturned False\<rparr>
      else s)"
| "first_step s TaskGoes = task_go (fr_task s) s"
| "first_step s TaskEnds = (if fr_task s = StopTaskStepping then s\<lparr>fr_task := StopTaskEnded\<rparr> else s)"
| "first_step s TaskDropped = task_dropped s"

lemmas decision_defs = UNDECIDED_def ACCEPTED_def REFUSED_def LOST_UNDECIDED_def decide_refused_def decide_accepted_def
  first_request_accepted_def lose_before_the_last_wait_def

text \<open>
  Who owes the steps: nobody before the decision; after it, the party that found the other's mark.
\<close>

fun decided :: "caller_pc \<Rightarrow> bool option" where
  "decided (CallerThrough ok) = Some ok"
| "decided (CallerReturned ok) = Some ok"
| "decided CallerOwes = Some True"
| "decided _ = None"

definition first_inv :: "first_request \<Rightarrow> bool" where
  "first_inv s \<longleftrightarrow>
     (case decided (fr_caller s) of
        None \<Rightarrow>
          fr_handed s = 0 \<and>
          (if fr_task s = StopTaskLost then fr_decision s = LOST_UNDECIDED
           else fr_decision s = UNDECIDED \<and> fr_task s = StopTaskWaiting)
      | Some False \<Rightarrow>
          fr_handed s = 0 \<and> fr_task s \<notin> {StopTaskOwes, StopTaskStepping} \<and>
          (fr_decision s = REFUSED \<or> fr_decision s = LOST_UNDECIDED \<and> fr_task s = StopTaskLost)
      | Some True \<Rightarrow>
          (if fr_decision s = LOST_UNDECIDED
           then fr_task s = StopTaskLost \<and> fr_handed s = (if fr_caller s = CallerOwes then 0 else 1)
           else fr_decision s = ACCEPTED \<and> fr_caller s \<noteq> CallerOwes \<and>
             fr_handed s = (if fr_task s = StopTaskLost then 1 else 0)))"

lemma first_step_inv:
  assumes "first_inv s"
  shows "first_inv (first_step s op)"
proof (cases op)
  case (CallerRaises ok)
  with assms show ?thesis by (cases "fr_caller s = CallerRaising") (simp_all add: first_inv_def)
next
  case CallerGoes
  with assms show ?thesis
    by (cases "fr_caller s") (auto simp: first_inv_def decision_defs split: if_splits bool.splits)
next
  case CallerUnwinds
  with assms show ?thesis by (auto simp: first_inv_def decision_defs split: if_splits)
next
  case TaskGoes
  with assms show ?thesis
    by (cases "fr_task s"; cases "decided (fr_caller s)") (auto simp: first_inv_def decision_defs split: if_splits bool.splits)
next
  case TaskEnds
  with assms show ?thesis by (auto simp: first_inv_def split: if_splits option.splits bool.splits)
next
  case TaskDropped
  with assms show ?thesis
    by (auto simp: first_inv_def task_dropped_def decision_defs split: if_splits option.splits bool.splits)
qed

interpretation first: invariant_machine first_step first_inv
  by unfold_locales (rule first_step_inv)

section \<open>Properties\<close>

text \<open>
  C11.  The step cell of a bounded stop tells the truth about its \<open>Kill\<close> whatever the interleaving of those who raise it,
  their failed compare-exchanges and their unwinds, as long as fewer than \<open>2 ^ 16 - 1\<close> of them take part: it reads
  \<open>Killed\<close> exactly once some raiser that counted itself left with a \<open>Kill\<close> that stands or may stand, \<open>Graceful\<close>
  exactly when none did and none is in flight, and is pending otherwise; and once any raiser left with an accepted
  \<open>Kill\<close> it reads \<open>Killed\<close>.
\<close>

theorem stop_step_reads_settled:
  assumes "n < 2 ^ 16 - 1" "s = run kill_call_step (kill_call_new n lane) ops"
  shows "requested (kc_cell s) =
      (if list_ex stored_killed (kc_raisers s) then Some StopKilled
       else if list_ex has_share (kc_raisers s) then None else Some StopGraceful) \<and>
    (RaiserLeft took (RaiseAnswer r) \<in> set (kc_raisers s) \<and> r \<noteq> Refused \<longrightarrow> requested (kc_cell s) = Some StopKilled)"
proof -
  have "call_inv (kill_call_new n lane)"
    using assms(1) by (simp add: call_inv_def kill_call_new_def shares_def REQUESTED_def list_all_iff list_ex_iff)
  then have inv: "call_inv s" unfolding assms(2) by (rule call.run_inv)
  have small: "shares (kc_raisers s) < 2 ^ 16 - 1"
    using inv shares_le [of "kc_raisers s"] by (auto simp: call_inv_def)
  have "shares (kc_raisers s) = 0 \<longleftrightarrow> \<not> list_ex has_share (kc_raisers s)"
    by (simp add: shares_def filter_empty_conv list_ex_iff)
  then have reads: "requested (kc_cell s) =
      (if list_ex stored_killed (kc_raisers s) then Some StopKilled
       else if list_ex has_share (kc_raisers s) then None else Some StopGraceful)"
    using inv count_not_killed [OF small] count_zero_iff [OF small]
    by (auto simp: call_inv_def requested_def REQUESTED_def split: if_splits)
  moreover have "requested (kc_cell s) = Some StopKilled"
    if "RaiserLeft took (RaiseAnswer r) \<in> set (kc_raisers s)" "r \<noteq> Refused"
  proof (cases took)
    case True
    with that have "list_ex stored_killed (kc_raisers s)" by (force simp: list_ex_iff)
    with reads show ?thesis by simp
  next
    case False
    with that inv have "kc_cell s = KILLED" by (auto simp: call_inv_def list_all_iff)
    then show ?thesis by (simp add: requested_def)
  qed
  ultimately show ?thesis by blast
qed

text \<open>Two raisers, the first counted and accepted, the second counted before it and still in flight.\<close>

definition example_raise :: kill_call where
  "example_raise = run kill_call_step (kill_call_new 2 lane_cell_new)
     [RaiserGo 1 False, RaiserGo 0 False, RaiserGo 1 True, RaiserGo 1 False, RaiserGo 0 False, RaiserGo 0 False,
      RaiserGo 0 False, RaiserGo 0 False, RaiserGo 0 False]"

theorem stop_step_reads_settled_witness:
  "requested (kc_cell example_raise) = Some StopKilled \<and> list_ex has_share (kc_raisers example_raise)"
proof -
  have left: "kc_raisers example_raise = [RaiserLeft True (RaiseAnswer Recorded), RaiserBetween True]"
    by (simp add: example_raise_def kill_call_new_def raiser_to_def raise_over_def REQUESTED_def KILLED_def
        numeral_2_eq_2 lane_raise_def lane_accept_def lane_cell_new_def Let_def)
  with stop_step_reads_settled [of 2 example_raise lane_cell_new, OF _ example_raise_def, of True Recorded]
  show ?thesis by simp
qed

text \<open>
  C12.  The steps a bounded stop owes are handed to the reaper exactly once when its stop task is lost, whoever finds it: for
  a request the lane took, once the call decided and the task is gone, they were handed over once if the task was
  lost and not at all if it ended by itself; for a request it refused, or a call that unwound, never.
\<close>

theorem lost_steps_handed_over_once:
  assumes "s = run first_step first_request_new ops"
  shows "(fr_caller s = CallerReturned True \<and> fr_task s = StopTaskLost \<longrightarrow> fr_handed s = 1) \<and>
    (fr_caller s = CallerReturned True \<and> fr_task s = StopTaskEnded \<longrightarrow> fr_handed s = 0) \<and>
    (fr_caller s = CallerReturned False \<longrightarrow> fr_handed s = 0) \<and> fr_handed s \<le> 1"
proof -
  have "first_inv first_request_new" by (simp add: first_inv_def first_request_new_def)
  then have "first_inv s" unfolding assms by (rule first.run_inv)
  then show ?thesis
    by (cases "decided (fr_caller s)")
      (auto simp: first_inv_def decision_defs split: if_splits bool.splits)
qed

theorem lost_steps_handed_over_once_witness:
  "fr_handed (run first_step first_request_new [CallerRaises True, TaskDropped, CallerGoes, CallerGoes, CallerGoes]) = 1"
  using lost_steps_handed_over_once [OF refl, of "[CallerRaises True, TaskDropped, CallerGoes, CallerGoes, CallerGoes]"]
  by (simp add: first_request_new_def task_dropped_def decision_defs)

end
