(* ===== verification/System_Registry.thy ===== *)
theory System_Registry
  imports Stop_Lane Stop_Budgets
begin

text \<open>
  The registry of an actor system (\<open>ActorSystem\<close>, \<open>AnyActorHandle\<close>, \<open>RegistryGuard\<close> and \<open>ShutdownInFlight\<close> in
  \<open>src/src/system.rs\<close>): registration and its release, the phase of the system and the gate that makes a registration
  atomic with a change of phase, and the way a \<open>Kill\<close> is raised through the registry and backed by an abort.

  Every map operation is atomic, and so is every section under the gate's exclusive side; what a call does between two
  of them interleaves with the other calls.  A spawn, the raiser of a \<open>Kill\<close> and a shutdown are therefore agents that
  take one such step at a time.  An incarnation is named by the index of its spawn, which stands for its status
  channel, its lane and its task; the lanes are a store, since both maps and every handle refer to the same lane.
\<close>

section \<open>Entries\<close>

type_synonym incarnation = nat

record registration =
  rg_type :: nat
  rg_channel :: incarnation
  rg_abort :: "incarnation option"
  rg_is_root :: bool
  rg_seq :: u64
  rg_kill_grace :: duration
  rg_runtime :: nat
  rg_kill_due :: u64

definition registration_new :: "nat \<Rightarrow> incarnation \<Rightarrow> bool \<Rightarrow> u64 \<Rightarrow> duration \<Rightarrow> nat \<Rightarrow> registration" where
  "registration_new ty ch root seq grace rt =
     \<lparr>rg_type = ty, rg_channel = ch, rg_abort = None, rg_is_root = root, rg_seq = seq, rg_kill_grace = grace,
      rg_runtime = rt, rg_kill_due = 0\<rparr>"

definition entry_declare_kill :: "u64 \<Rightarrow> duration option \<Rightarrow> registration \<Rightarrow> registration" where
  "entry_declare_kill now window e =
     (let after = (case window of Some w \<Rightarrow> w | None \<Rightarrow> rg_kill_grace e);
          due = saturating_add_u64 now (saturating_nanos after)
      in if rg_kill_due e = 0 \<or> due < rg_kill_due e then e\<lparr>rg_kill_due := due\<rparr> else e)"

definition downcast :: "nat \<Rightarrow> registration \<Rightarrow> incarnation option" where
  "downcast ty e = (if rg_type e = ty then Some (rg_channel e) else None)"

section \<open>The system\<close>

datatype system_phase = PhaseActive | PhaseShuttingDown | PhaseDefunct

fun phase_as_u8 :: "system_phase \<Rightarrow> u8" where
  "phase_as_u8 PhaseActive = 0"
| "phase_as_u8 PhaseShuttingDown = 1"
| "phase_as_u8 PhaseDefunct = 2"

definition phase_from_u8 :: "u8 \<Rightarrow> system_phase" where
  "phase_from_u8 v = (if v = 0 then PhaseActive else if v = 1 then PhaseShuttingDown else PhaseDefunct)"

text \<open>An abort scheduled with the reaper of a runtime.\<close>

record armed_abort =
  ar_task :: incarnation
  ar_deadline :: instant
  ar_runtime :: nat

record actor_system =
  sy_name :: string
  sy_by_name :: "(string \<times> registration) list"
  sy_by_id :: "(actor_id \<times> registration) list"
  sy_phase :: u8
  sy_in_flight :: nat
  sy_completed :: bool
  sy_seq :: u64
  sy_incarnation :: u64
  sy_sweep_deadline :: "instant option"
  sy_epoch :: instant
  sy_now :: instant
  sy_lanes :: "incarnation \<Rightarrow> lane_cell"
  sy_armed :: "armed_abort list"

definition system_empty :: "string \<Rightarrow> instant \<Rightarrow> actor_system" where
  "system_empty name now =
     \<lparr>sy_name = name, sy_by_name = [], sy_by_id = [], sy_phase = phase_as_u8 PhaseActive, sy_in_flight = 0,
      sy_completed = False, sy_seq = 0, sy_incarnation = 0, sy_sweep_deadline = None, sy_epoch = now, sy_now = now,
      sy_lanes = (\<lambda>_. lane_cell_new), sy_armed = []\<rparr>"

definition system_active :: "actor_system \<Rightarrow> bool" where
  "system_active sy \<longleftrightarrow> phase_from_u8 (sy_phase sy) = PhaseActive"

text \<open>The map of all systems: \<open>create\<close> refuses a name that is taken, \<open>default\<close> makes the default system once.\<close>

definition systems_create ::
  "string \<Rightarrow> instant \<Rightarrow> (string \<times> actor_system) list \<Rightarrow> (spawn_error + actor_system) \<times> (string \<times> actor_system) list" where
  "systems_create name now systems =
     (if has_key systems name then (Inl (SystemNameTaken name), systems)
      else let sy = system_empty name now in (Inr sy, hput name sy systems))"

definition systems_default :: "instant \<Rightarrow> (string \<times> actor_system) list \<Rightarrow> actor_system \<times> (string \<times> actor_system) list" where
  "systems_default now systems =
     (case hget systems ''default'' of
        Some sy \<Rightarrow> (sy, systems)
      | None \<Rightarrow> let sy = system_empty ''default'' now in (sy, hput ''default'' sy systems))"

definition system_get :: "nat \<Rightarrow> string \<Rightarrow> actor_system \<Rightarrow> incarnation option" where
  "system_get ty name sy = Option.bind (hget (sy_by_name sy) name) (downcast ty)"

definition system_get_by_id :: "nat \<Rightarrow> actor_id \<Rightarrow> actor_system \<Rightarrow> incarnation option" where
  "system_get_by_id ty k sy = Option.bind (hget (sy_by_id sy) k) (downcast ty)"

definition raise_on :: "incarnation \<Rightarrow> stop_reason \<Rightarrow> actor_system \<Rightarrow> raise_result \<times> actor_system" where
  "raise_on ch r sy =
     (case lane_raise (sy_lanes sy ch) r of
        (answer, lane) \<Rightarrow> (ra_result answer, sy\<lparr>sy_lanes := (sy_lanes sy)(ch := lane)\<rparr>))"

definition system_stop :: "string \<Rightarrow> actor_system \<Rightarrow> (send_error + unit) \<times> actor_system" where
  "system_stop name sy =
     (case hget (sy_by_name sy) name of
        None \<Rightarrow> (Inl SendNotFound, sy)
      | Some e \<Rightarrow>
          (case raise_on (rg_channel e) Graceful sy of
             (result, sy1) \<Rightarrow> (if result = Refused then Inl SendClosed else Inr (), sy1)))"

section \<open>Registration\<close>

definition precheck_spawn :: "string option \<Rightarrow> actor_system \<Rightarrow> spawn_error option" where
  "precheck_spawn name sy =
     (if \<not> system_active sy then Some (SystemShuttingDown (sy_name sy))
      else case name of
          Some n \<Rightarrow> if has_key (sy_by_name sy) n then Some (NameTaken n (sy_name sy)) else None
        | None \<Rightarrow> None)"

text \<open>The seq-checked removals (\<open>remove_if\<close>).\<close>

definition unregister_by_id :: "actor_id \<Rightarrow> u64 \<Rightarrow> actor_system \<Rightarrow> actor_system" where
  "unregister_by_id k seq sy =
     (case hget (sy_by_id sy) k of
        Some e \<Rightarrow> if rg_seq e = seq then sy\<lparr>sy_by_id := hdel k (sy_by_id sy)\<rparr> else sy
      | None \<Rightarrow> sy)"

definition unregister_by_name :: "string \<Rightarrow> u64 \<Rightarrow> actor_system \<Rightarrow> actor_system" where
  "unregister_by_name n seq sy =
     (case hget (sy_by_name sy) n of
        Some e \<Rightarrow> if rg_seq e = seq then sy\<lparr>sy_by_name := hdel n (sy_by_name sy)\<rparr> else sy
      | None \<Rightarrow> sy)"

definition next_incarnation :: "actor_system \<Rightarrow> u64 \<times> actor_system" where
  "next_incarnation sy = (sy_incarnation sy, sy\<lparr>sy_incarnation := sy_incarnation sy + 1\<rparr>)"

definition next_registration_seq :: "actor_system \<Rightarrow> u64 \<times> actor_system" where
  "next_registration_seq sy = (sy_seq sy, sy\<lparr>sy_seq := sy_seq sy + 1\<rparr>)"

section \<open>Phases\<close>

definition shutdown_enter :: "actor_system \<Rightarrow> actor_system" where
  "shutdown_enter sy = sy\<lparr>sy_in_flight := sy_in_flight sy + 1, sy_phase := phase_as_u8 PhaseShuttingDown\<rparr>"

definition shutdown_leave :: "bool \<Rightarrow> actor_system \<Rightarrow> actor_system" where
  "shutdown_leave completed sy =
     (let n = sy_in_flight sy - 1;
          done_before = (completed \<or> sy_completed sy);
          sy1 = sy\<lparr>sy_in_flight := n, sy_completed := done_before\<rparr>
      in if n = 0 \<and> done_before
         then sy1\<lparr>sy_sweep_deadline := None, sy_phase := phase_as_u8 PhaseDefunct\<rparr> else sy1)"

definition reactivate :: "actor_system \<Rightarrow> bool \<times> actor_system" where
  "reactivate sy =
     (if sy_in_flight sy \<noteq> 0 \<or> phase_from_u8 (sy_phase sy) \<noteq> PhaseDefunct then (False, sy)
      else (True, sy\<lparr>sy_completed := False, sy_phase := phase_as_u8 PhaseActive\<rparr>))"

record root_snapshot =
  rs_id :: actor_id
  rs_seq :: u64
  rs_channel :: incarnation
  rs_kill_grace :: duration

definition snapshot_of :: "actor_id \<times> registration \<Rightarrow> root_snapshot" where
  "snapshot_of ke =
     \<lparr>rs_id = fst ke, rs_seq = rg_seq (snd ke), rs_channel = rg_channel (snd ke), rs_kill_grace = rg_kill_grace (snd ke)\<rparr>"

definition snapshot_roots :: "actor_system \<Rightarrow> root_snapshot list" where
  "snapshot_roots sy = map snapshot_of (filter (\<lambda>ke. rg_is_root (snd ke)) (sy_by_id sy))"

text \<open>The most recently registered root first.\<close>

definition first_snapshot :: "actor_system \<Rightarrow> root_snapshot list" where
  "first_snapshot sy = rev (sort_key rs_seq (rev (snapshot_roots sy)))"

section \<open>Kills\<close>

definition kill_clock :: "actor_system \<Rightarrow> u64" where
  "kill_clock sy = max 1 (saturating_nanos (saturating_duration_since (sy_now sy) (sy_epoch sy)))"

datatype kill_key = KillId actor_id | KillName string

fun entry_at :: "kill_key \<Rightarrow> actor_system \<Rightarrow> registration option" where
  "entry_at (KillId k) sy = hget (sy_by_id sy) k"
| "entry_at (KillName n) sy = hget (sy_by_name sy) n"

fun put_entry :: "kill_key \<Rightarrow> registration \<Rightarrow> actor_system \<Rightarrow> actor_system" where
  "put_entry (KillId k) e sy = sy\<lparr>sy_by_id := hput k e (sy_by_id sy)\<rparr>"
| "put_entry (KillName n) e sy = sy\<lparr>sy_by_name := hput n e (sy_by_name sy)\<rparr>"

text \<open>The entry a key names, if it is the incarnation's own.\<close>

definition entry_for :: "kill_key \<Rightarrow> incarnation \<Rightarrow> actor_system \<Rightarrow> registration option" where
  "entry_for key ch sy =
     (case entry_at key sy of Some e \<Rightarrow> if rg_channel e = ch then Some e else None | None \<Rightarrow> None)"

text \<open>\<open>declare_kill\<close> and \<open>declare_kill_by_name\<close>, with the clock read before.\<close>

definition declare_kill :: "kill_key \<Rightarrow> incarnation \<Rightarrow> duration option \<Rightarrow> u64 \<Rightarrow> actor_system \<Rightarrow> actor_system" where
  "declare_kill key ch window now sy =
     (case entry_for key ch sy of Some e \<Rightarrow> put_entry key (entry_declare_kill now window e) sy | None \<Rightarrow> sy)"

definition kill_target_for ::
  "kill_key \<Rightarrow> incarnation \<Rightarrow> actor_system \<Rightarrow> (incarnation option \<times> duration \<times> nat) option" where
  "kill_target_for key ch sy =
     map_option (\<lambda>e. (rg_abort e, rg_kill_grace e, rg_runtime e)) (entry_for key ch sy)"

definition arm_kill_backstop :: "incarnation \<Rightarrow> duration \<Rightarrow> nat \<Rightarrow> actor_system \<Rightarrow> actor_system" where
  "arm_kill_backstop task grace rt sy =
     sy\<lparr>sy_armed := sy_armed sy @
       [\<lparr>ar_task = task, ar_deadline = saturating_deadline (sy_now sy) grace, ar_runtime = rt\<rparr>]\<rparr>"

text \<open>The steps of \<open>attach_abort\<close>: an entry takes the handle only if it is of this registration.\<close>

definition attach_at :: "kill_key \<Rightarrow> u64 \<Rightarrow> incarnation \<Rightarrow> actor_system \<Rightarrow> registration option \<times> actor_system" where
  "attach_at key seq task sy =
     (case entry_at key sy of
        Some e \<Rightarrow> if rg_seq e = seq then (Some e, put_entry key (e\<lparr>rg_abort := Some task\<rparr>) sy) else (None, sy)
      | None \<Rightarrow> (None, sy))"

definition due_at :: "kill_key \<Rightarrow> u64 \<Rightarrow> actor_system \<Rightarrow> u64" where
  "due_at key seq sy =
     (case entry_at key sy of Some e \<Rightarrow> if rg_seq e = seq then rg_kill_due e else 0 | None \<Rightarrow> 0)"

definition earlier_due :: "u64 \<Rightarrow> u64 \<Rightarrow> u64" where
  "earlier_due a b = (if a = 0 then b else if b = 0 then a else min a b)"

definition abort_after :: "u64 \<Rightarrow> duration \<Rightarrow> actor_system \<Rightarrow> duration" where
  "abort_after due grace sy = (if due = 0 then grace else unat (saturating_sub_u64 due (kill_clock sy)))"

end
