(* ===== verification/System_World.thy ===== *)
theory System_World
  imports System_Registry
begin

text \<open>
  The calls of \<open>System_Registry\<close> interleaved: spawns with \<open>register_actor\<close>, \<open>attach_abort\<close> and the drop of their
  \<open>RegistryGuard\<close>, raisers of a \<open>Kill\<close> (\<open>raise_kill_declared\<close>), shutdowns and \<open>reactivate\<close>, one atomic access at a
  time.  Shown: no root escapes the snapshot of a shutdown in flight.  \<open>System_Kill\<close> is about the aborts that follow
  a \<open>Kill\<close>.
\<close>

section \<open>Agents\<close>

text \<open>A spawn: under the gate's shared side from its phase check to its last insert.\<close>

datatype spawn_pc =
    SpBefore
  | SpSeq
  | SpName u64
  | SpId u64
  | SpUndo u64
  | SpAttachId u64
  | SpAttachName u64 "registration option"
  | SpReadLane u64 registration
  | SpDueId u64 registration
  | SpDueName u64 registration u64
  | SpArm registration u64
  | SpAttached
  | SpFailed spawn_error

datatype guard_pc = GuardNone | GuardHeld u64 | GuardNameLeft u64 | GuardGone

record spawn =
  sp_id :: actor_id
  sp_name :: "string option"
  sp_type :: nat
  sp_root :: bool
  sp_grace :: duration
  sp_runtime :: nat
  sp_pc :: spawn_pc
  sp_guard :: guard_pc

text \<open>The raiser of a \<open>Kill\<close> on an incarnation it found under a key, by handle or by lookup.\<close>

datatype killer_pc =
    KillerClock
  | KillerDeclare u64
  | KillerRaise
  | KillerArm
  | KillerFeed incarnation duration nat
  | KillerAccepted
  | KillerRefused

record killer =
  ki_key :: kill_key
  ki_channel :: incarnation
  ki_window :: "duration option"
  ki_pc :: killer_pc

datatype shutdown_pc = ShutdownEntered | ShutdownWalking "root_snapshot list" | ShutdownOver

record system_world =
  wo_sys :: actor_system
  wo_spawns :: "spawn list"
  wo_killers :: "killer list"
  wo_shutdowns :: "shutdown_pc list"

definition world_new :: "string \<Rightarrow> instant \<Rightarrow> system_world" where
  "world_new name now = \<lparr>wo_sys = system_empty name now, wo_spawns = [], wo_killers = [], wo_shutdowns = []\<rparr>"

section \<open>Spawns\<close>

definition entry_of :: "incarnation \<Rightarrow> spawn \<Rightarrow> u64 \<Rightarrow> registration" where
  "entry_of i sp seq = registration_new (sp_type sp) i (sp_root sp) seq (sp_grace sp) (sp_runtime sp)"

definition claim_name :: "incarnation \<Rightarrow> spawn \<Rightarrow> u64 \<Rightarrow> actor_system \<Rightarrow> spawn_pc \<times> actor_system" where
  "claim_name i sp seq sy =
     (case sp_name sp of
        None \<Rightarrow> (SpId seq, sy)
      | Some n \<Rightarrow>
          if has_key (sy_by_name sy) n then (SpFailed (NameTaken n (sy_name sy)), sy)
          else (SpId seq, put_entry (KillName n) (entry_of i sp seq) sy))"

text \<open>The next access of a spawn: its new point, whether it got its guard, and the system.\<close>

fun spawn_go :: "incarnation \<Rightarrow> spawn \<Rightarrow> actor_system \<Rightarrow> spawn \<times> actor_system" where
  "spawn_go i sp sy =
     (case sp_pc sp of
        SpBefore \<Rightarrow>
          if system_active sy then (sp\<lparr>sp_pc := SpSeq\<rparr>, sy)
          else (sp\<lparr>sp_pc := SpFailed (SystemShuttingDown (sy_name sy))\<rparr>, sy)
      | SpSeq \<Rightarrow> (case next_registration_seq sy of (seq, sy') \<Rightarrow> (sp\<lparr>sp_pc := SpName seq\<rparr>, sy'))
      | SpName seq \<Rightarrow> (case claim_name i sp seq sy of (pc, sy') \<Rightarrow> (sp\<lparr>sp_pc := pc\<rparr>, sy'))
      | SpId seq \<Rightarrow>
          if has_key (sy_by_id sy) (sp_id sp) then (sp\<lparr>sp_pc := SpUndo seq\<rparr>, sy)
          else (sp\<lparr>sp_pc := SpAttachId seq, sp_guard := GuardHeld seq\<rparr>,
                put_entry (KillId (sp_id sp)) (entry_of i sp seq) sy)
      | SpUndo seq \<Rightarrow>
          (sp\<lparr>sp_pc := SpFailed (DuplicateChild (sp_id sp))\<rparr>,
           case sp_name sp of Some n \<Rightarrow> unregister_by_name n seq sy | None \<Rightarrow> sy)
      | SpAttachId seq \<Rightarrow>
          (case attach_at (KillId (sp_id sp)) seq i sy of (found, sy') \<Rightarrow> (sp\<lparr>sp_pc := SpAttachName seq found\<rparr>, sy'))
      | SpAttachName seq found \<Rightarrow>
          (sp\<lparr>sp_pc := (case found of Some e \<Rightarrow> SpReadLane seq e | None \<Rightarrow> SpAttached)\<rparr>,
           case sp_name sp of Some n \<Rightarrow> snd (attach_at (KillName n) seq i sy) | None \<Rightarrow> sy)
      | SpReadLane seq e \<Rightarrow>
          (sp\<lparr>sp_pc := (if lane_reason (sy_lanes sy (rg_channel e)) = Some Kill then SpDueId seq e else SpAttached)\<rparr>, sy)
      | SpDueId seq e \<Rightarrow> (sp\<lparr>sp_pc := SpDueName seq e (due_at (KillId (sp_id sp)) seq sy)\<rparr>, sy)
      | SpDueName seq e due \<Rightarrow>
          (sp\<lparr>sp_pc := SpArm e (case sp_name sp of
              Some n \<Rightarrow> earlier_due due (due_at (KillName n) seq sy) | None \<Rightarrow> due)\<rparr>, sy)
      | SpArm e due \<Rightarrow>
          (sp\<lparr>sp_pc := SpAttached\<rparr>, arm_kill_backstop i (abort_after due (rg_kill_grace e) sy) (rg_runtime e) sy)
      | _ \<Rightarrow> (sp, sy))"

text \<open>The drop of the guard frees the id, then the name.\<close>

fun guard_go :: "spawn \<Rightarrow> actor_system \<Rightarrow> spawn \<times> actor_system" where
  "guard_go sp sy =
     (case sp_guard sp of
        GuardHeld seq \<Rightarrow> (sp\<lparr>sp_guard := GuardNameLeft seq\<rparr>, unregister_by_id (sp_id sp) seq sy)
      | GuardNameLeft seq \<Rightarrow>
          (sp\<lparr>sp_guard := GuardGone\<rparr>,
           case sp_name sp of Some n \<Rightarrow> unregister_by_name n seq sy | None \<Rightarrow> sy)
      | _ \<Rightarrow> (sp, sy))"

section \<open>Raisers and shutdowns\<close>

fun killer_go :: "killer \<Rightarrow> actor_system \<Rightarrow> killer \<times> actor_system" where
  "killer_go ki sy =
     (case ki_pc ki of
        KillerClock \<Rightarrow> (ki\<lparr>ki_pc := KillerDeclare (kill_clock sy)\<rparr>, sy)
      | KillerDeclare now \<Rightarrow>
          (ki\<lparr>ki_pc := KillerRaise\<rparr>, declare_kill (ki_key ki) (ki_channel ki) (ki_window ki) now sy)
      | KillerRaise \<Rightarrow>
          (case raise_on (ki_channel ki) Kill sy of
             (result, sy') \<Rightarrow> (ki\<lparr>ki_pc := (if result = Refused then KillerRefused else KillerArm)\<rparr>, sy'))
      | KillerArm \<Rightarrow>
          (case kill_target_for (ki_key ki) (ki_channel ki) sy of
             Some (Some task, grace, rt) \<Rightarrow>
               (ki\<lparr>ki_pc := KillerFeed task (case ki_window ki of Some w \<Rightarrow> w | None \<Rightarrow> grace) rt\<rparr>, sy)
           | _ \<Rightarrow> (ki\<lparr>ki_pc := KillerAccepted\<rparr>, sy))
      | KillerFeed task after rt \<Rightarrow> (ki\<lparr>ki_pc := KillerAccepted\<rparr>, arm_kill_backstop task after rt sy)
      | _ \<Rightarrow> (ki, sy))"

fun registering :: "spawn_pc \<Rightarrow> bool" where
  "registering SpSeq = True"
| "registering (SpName seq) = True"
| "registering (SpId seq) = True"
| "registering (SpUndo seq) = True"
| "registering _ = False"

text \<open>Whether the gate's exclusive side can be taken.\<close>

definition gate_free :: "system_world \<Rightarrow> bool" where
  "gate_free w \<longleftrightarrow> list_all (\<lambda>sp. \<not> registering (sp_pc sp)) (wo_spawns w)"

datatype world_op =
    NewSpawn actor_id "string option" nat bool duration nat
  | SpawnGo nat
  | GuardGo nat
  | NewKiller kill_key incarnation "duration option"
  | KillerGo nat
  | EnterShutdown
  | SnapshotRoots nat
  | LeaveShutdown nat bool
  | Reactivate
  | OnLane incarnation lane_op
  | ClockTo instant

fun world_step :: "system_world \<Rightarrow> world_op \<Rightarrow> system_world" where
  "world_step w (NewSpawn k n ty root grace rt) =
     w\<lparr>wo_spawns := wo_spawns w @
        [\<lparr>sp_id = k, sp_name = n, sp_type = ty, sp_root = root, sp_grace = grace, sp_runtime = rt, sp_pc = SpBefore,
          sp_guard = GuardNone\<rparr>]\<rparr>"
| "world_step w (SpawnGo i) =
     (if i < length (wo_spawns w)
      then case spawn_go i (wo_spawns w ! i) (wo_sys w) of
             (sp, sy) \<Rightarrow> w\<lparr>wo_spawns := (wo_spawns w)[i := sp], wo_sys := sy\<rparr>
      else w)"
| "world_step w (GuardGo i) =
     (if i < length (wo_spawns w)
      then case guard_go (wo_spawns w ! i) (wo_sys w) of
             (sp, sy) \<Rightarrow> w\<lparr>wo_spawns := (wo_spawns w)[i := sp], wo_sys := sy\<rparr>
      else w)"
| "world_step w (NewKiller key ch window) =
     w\<lparr>wo_killers := wo_killers w @ [\<lparr>ki_key = key, ki_channel = ch, ki_window = window, ki_pc = KillerClock\<rparr>]\<rparr>"
| "world_step w (KillerGo j) =
     (if j < length (wo_killers w)
      then case killer_go (wo_killers w ! j) (wo_sys w) of
             (ki, sy) \<Rightarrow> w\<lparr>wo_killers := (wo_killers w)[j := ki], wo_sys := sy\<rparr>
      else w)"
| "world_step w EnterShutdown =
     (if gate_free w
      then w\<lparr>wo_shutdowns := wo_shutdowns w @ [ShutdownEntered], wo_sys := shutdown_enter (wo_sys w)\<rparr> else w)"
| "world_step w (SnapshotRoots j) =
     (if j < length (wo_shutdowns w) \<and> wo_shutdowns w ! j = ShutdownEntered
      then w\<lparr>wo_shutdowns := (wo_shutdowns w)[j := ShutdownWalking (first_snapshot (wo_sys w))]\<rparr> else w)"
| "world_step w (LeaveShutdown j completed) =
     (if j < length (wo_shutdowns w) \<and> wo_shutdowns w ! j \<noteq> ShutdownOver \<and> gate_free w
      then w\<lparr>wo_shutdowns := (wo_shutdowns w)[j := ShutdownOver], wo_sys := shutdown_leave completed (wo_sys w)\<rparr>
      else w)"
| "world_step w Reactivate = (if gate_free w then w\<lparr>wo_sys := snd (reactivate (wo_sys w))\<rparr> else w)"
| "world_step w (OnLane ch op) =
     w\<lparr>wo_sys := (wo_sys w)\<lparr>sy_lanes := (sy_lanes (wo_sys w))(ch := lane_step (sy_lanes (wo_sys w) ch) op)\<rparr>\<rparr>"
| "world_step w (ClockTo now) = w\<lparr>wo_sys := (wo_sys w)\<lparr>sy_now := max now (sy_now (wo_sys w))\<rparr>\<rparr>"

section \<open>Frames\<close>

text \<open>A step that registers no id: what an id resolves to afterwards it resolved to before, up to the abort and due time.\<close>

definition same_target :: "registration \<Rightarrow> registration \<Rightarrow> bool" where
  "same_target e e' \<longleftrightarrow>
     rg_channel e' = rg_channel e \<and> rg_is_root e' = rg_is_root e \<and> rg_seq e' = rg_seq e \<and> rg_type e' = rg_type e \<and>
     rg_kill_grace e' = rg_kill_grace e \<and> rg_runtime e' = rg_runtime e"

lemma same_target_refl [simp]: "same_target e e"
  by (simp add: same_target_def)

lemma same_target_declare [simp]: "same_target e (entry_declare_kill now window e)"
  by (simp add: same_target_def entry_declare_kill_def Let_def)

lemma same_target_abort [simp]: "same_target e (e\<lparr>rg_abort := a\<rparr>)"
  by (simp add: same_target_def)

definition registers_none :: "actor_system \<Rightarrow> actor_system \<Rightarrow> bool" where
  "registers_none sy sy' \<longleftrightarrow>
     sy_phase sy' = sy_phase sy \<and> sy_in_flight sy' = sy_in_flight sy \<and>
     (\<forall>k e'. hget (sy_by_id sy') k = Some e' \<longrightarrow> (\<exists>e. hget (sy_by_id sy) k = Some e \<and> same_target e e'))"

lemma registers_none_refl [simp]: "registers_none sy sy"
  by (auto simp: registers_none_def intro: same_target_refl)

lemma put_entry_none:
  assumes "entry_at key sy = Some e" "same_target e e'"
  shows "registers_none sy (put_entry key e' sy)"
  using assms by (cases key) (auto simp: registers_none_def hget_hput intro: same_target_refl)

lemma put_name_none [simp]: "registers_none sy (sy\<lparr>sy_by_name := m\<rparr>)"
  by (auto simp: registers_none_def intro: same_target_refl)

lemma unregister_none [simp]:
  "registers_none sy (unregister_by_id k seq sy)" "registers_none sy (unregister_by_name n seq sy)"
  by (auto simp: registers_none_def unregister_by_id_def unregister_by_name_def hget_hdel same_target_def
      split: option.splits if_splits)

lemma declare_kill_none [simp]: "registers_none sy (declare_kill key ch window now sy)"
  by (auto simp: declare_kill_def entry_for_def split: option.splits if_splits intro: put_entry_none)

lemma raise_on_none [simp]: "registers_none sy (snd (raise_on ch r sy))"
  by (auto simp: raise_on_def registers_none_def same_target_def split: prod.splits)

lemma arm_none [simp]: "registers_none sy (arm_kill_backstop task after rt sy)"
  by (auto simp: arm_kill_backstop_def registers_none_def same_target_def)

lemma attach_none [simp]: "registers_none sy (snd (attach_at key seq task sy))"
  by (auto simp: attach_at_def split: option.splits intro: put_entry_none)

lemma next_seq_none [simp]: "registers_none sy (snd (next_registration_seq sy))"
  by (auto simp: next_registration_seq_def registers_none_def same_target_def)

lemma killer_go_none: "registers_none sy (snd (killer_go ki sy))"
  by (cases "ki_pc ki") (auto simp: split_def split: option.splits)

lemma guard_go_none: "registers_none sy (snd (guard_go sp sy))"
  by (auto split: guard_pc.splits option.splits)

lemma spawn_go_none:
  assumes "\<nexists>seq. sp_pc sp = SpId seq"
  shows "registers_none sy (snd (spawn_go i sp sy))"
proof (cases "sp_pc sp")
  case (SpName seq)
  then show ?thesis by (auto simp: claim_name_def split: option.splits)
next
  case SpSeq
  then show ?thesis by (simp add: split_def)
next
  case (SpAttachId seq)
  then show ?thesis by (simp add: split_def)
next
  case (SpAttachName seq found)
  then show ?thesis by (auto split: option.splits)
next
  case (SpUndo seq)
  then show ?thesis by (auto split: option.splits)
qed (use assms in auto)

section \<open>Snapshots\<close>

definition roots_in :: "actor_system \<Rightarrow> root_snapshot list \<Rightarrow> bool" where
  "roots_in sy snap \<longleftrightarrow>
     (\<forall>k e. hget (sy_by_id sy) k = Some e \<and> rg_is_root e \<longrightarrow> (\<exists>s \<in> set snap. rs_id s = k \<and> rs_channel s = rg_channel e))"

lemma roots_in_none: "roots_in sy snap \<Longrightarrow> registers_none sy sy' \<Longrightarrow> roots_in sy' snap"
  unfolding roots_in_def registers_none_def same_target_def by metis

lemma roots_in_first: "roots_in sy (first_snapshot sy)"
  by (auto simp: roots_in_def first_snapshot_def snapshot_roots_def snapshot_of_def dest!: map_of_SomeD)

definition in_flight :: "shutdown_pc list \<Rightarrow> nat" where
  "in_flight ss = length (filter (\<lambda>p. p \<noteq> ShutdownOver) ss)"

definition gate_inv :: "system_world \<Rightarrow> bool" where
  "gate_inv w \<longleftrightarrow>
     sy_in_flight (wo_sys w) = in_flight (wo_shutdowns w) \<and>
     (0 < in_flight (wo_shutdowns w) \<longrightarrow> \<not> system_active (wo_sys w)) \<and>
     (\<forall>sp \<in> set (wo_spawns w). registering (sp_pc sp) \<longrightarrow> system_active (wo_sys w)) \<and>
     (\<forall>snap. ShutdownWalking snap \<in> set (wo_shutdowns w) \<longrightarrow> roots_in (wo_sys w) snap)"

lemma registers_none_active: "registers_none sy sy' \<Longrightarrow> system_active sy' = system_active sy"
  by (simp add: registers_none_def system_active_def)

text \<open>Steps that change no phase and register no id.\<close>

lemma gate_inv_quiet:
  assumes "gate_inv w" "registers_none (wo_sys w) (wo_sys w')" "wo_shutdowns w' = wo_shutdowns w"
    and "\<And>sp. sp \<in> set (wo_spawns w') \<Longrightarrow> registering (sp_pc sp) \<Longrightarrow> system_active (wo_sys w)"
  shows "gate_inv w'"
proof -
  have "sy_in_flight (wo_sys w') = in_flight (wo_shutdowns w)"
    using assms(1,2) by (simp add: gate_inv_def registers_none_def)
  moreover have "\<forall>snap. ShutdownWalking snap \<in> set (wo_shutdowns w) \<longrightarrow> roots_in (wo_sys w') snap"
    using assms(1,2) roots_in_none unfolding gate_inv_def by blast
  ultimately show ?thesis
    using assms registers_none_active [OF assms(2)] unfolding gate_inv_def by metis
qed

lemma gate_registering:
  "gate_inv w \<Longrightarrow> sp \<in> set (wo_spawns w) \<Longrightarrow> registering (sp_pc sp) \<Longrightarrow> system_active (wo_sys w)"
  by (auto simp: gate_inv_def)

lemma spawn_go_registering:
  "registering (sp_pc (fst (spawn_go i sp sy))) \<Longrightarrow> registering (sp_pc sp) \<or> system_active sy"
  by (cases "sp_pc sp") (auto simp: claim_name_def split: if_splits option.splits prod.splits)

lemma spawn_step_gate:
  assumes "gate_inv w"
  shows "gate_inv (world_step w (SpawnGo i))"
proof (cases "i < length (wo_spawns w)")
  case True
  let ?sp = "wo_spawns w ! i" and ?r = "spawn_go i (wo_spawns w ! i) (wo_sys w)"
  have step: "world_step w (SpawnGo i) = w\<lparr>wo_spawns := (wo_spawns w)[i := fst ?r], wo_sys := snd ?r\<rparr>"
    using True by (simp add: split_def)
  have mem: "?sp \<in> set (wo_spawns w)" using True by simp
  have act: "registering (sp_pc sp) \<Longrightarrow> system_active (wo_sys w)" if "sp \<in> set ((wo_spawns w)[i := fst ?r])" for sp
    using set_update_cases [OF that] spawn_go_registering [of i ?sp "wo_sys w"] assms mem unfolding gate_inv_def by blast
  show ?thesis
  proof (cases "\<exists>seq. sp_pc ?sp = SpId seq")
    case False
    with act show ?thesis
      unfolding step by (intro gate_inv_quiet [OF assms]) (auto simp: spawn_go_none simp del: spawn_go.simps)
  next
    case True
    then have "system_active (wo_sys w)" using assms mem unfolding gate_inv_def by fastforce
    with assms have none: "in_flight (wo_shutdowns w) = 0" unfolding gate_inv_def by blast
    then have "ShutdownWalking snap \<notin> set (wo_shutdowns w)" for snap
      by (auto simp: in_flight_def filter_empty_conv)
    moreover have "system_active (snd ?r)" "sy_in_flight (snd ?r) = sy_in_flight (wo_sys w)"
      using True \<open>system_active (wo_sys w)\<close> by (auto simp: system_active_def)
    ultimately show ?thesis
      using assms none unfolding step gate_inv_def by (simp del: spawn_go.simps)
  qed
qed (use assms in simp)

lemma in_flight_append [simp]: "in_flight (ss @ [p]) = in_flight ss + (if p = ShutdownOver then 0 else 1)"
  by (simp add: in_flight_def)

lemma in_flight_pos: "p \<in> set ss \<Longrightarrow> p \<noteq> ShutdownOver \<Longrightarrow> 0 < in_flight ss"
  unfolding in_flight_def by (rule length_pos_if_in_set [of p]) simp

lemma in_flight_Cons: "in_flight (p # ss) = (if p = ShutdownOver then 0 else 1) + in_flight ss"
  by (simp add: in_flight_def)

lemma in_flight_update:
  "j < length ss \<Longrightarrow> ss ! j \<noteq> ShutdownOver \<Longrightarrow>
   in_flight (ss[j := p]) = (if p = ShutdownOver then in_flight ss - 1 else in_flight ss)"
proof (induction ss arbitrary: j)
  case (Cons s ss)
  show ?case
  proof (cases j)
    case 0
    with Cons.prems show ?thesis by (simp add: in_flight_Cons)
  next
    case (Suc m)
    with Cons.prems have m: "m < length ss" "ss ! m \<noteq> ShutdownOver" by simp_all
    then have "0 < in_flight ss" by (metis in_flight_pos nth_mem)
    with Cons.IH [OF m] Suc show ?thesis by (simp add: in_flight_Cons)
  qed
qed simp

lemma phase_bytes [simp]:
  "phase_from_u8 0 = PhaseActive" "phase_from_u8 1 = PhaseShuttingDown" "phase_from_u8 2 = PhaseDefunct"
  by (simp_all add: phase_from_u8_def)

lemma gate_free_none: "gate_free w \<Longrightarrow> sp \<in> set (wo_spawns w) \<Longrightarrow> \<not> registering (sp_pc sp)"
  by (auto simp: gate_free_def list_all_iff)

lemma phases_keep_roots [simp]:
  "roots_in (shutdown_enter sy) snap = roots_in sy snap"
  "roots_in (shutdown_leave b sy) snap = roots_in sy snap"
  "roots_in (snd (reactivate sy)) snap = roots_in sy snap"
  by (simp_all add: roots_in_def shutdown_enter_def shutdown_leave_def reactivate_def Let_def)

lemma world_step_gate:
  assumes "gate_inv w"
  shows "gate_inv (world_step w op)"
proof (cases op)
  case (SpawnGo i)
  with assms spawn_step_gate show ?thesis by blast
next
  case (GuardGo i)
  show ?thesis
  proof (cases "i < length (wo_spawns w)")
    case True
    let ?r = "guard_go (wo_spawns w ! i) (wo_sys w)"
    have "sp_pc (fst ?r) = sp_pc (wo_spawns w ! i)" by (auto split: guard_pc.splits)
    with True assms have "system_active (wo_sys w)" if "sp \<in> set ((wo_spawns w)[i := fst ?r])" "registering (sp_pc sp)" for sp
      using set_update_cases [OF that(1)] that(2) nth_mem [OF True] unfolding gate_inv_def by metis
    with True GuardGo show ?thesis
      by (intro gate_inv_quiet [OF assms]) (auto simp: split_def guard_go_none simp del: guard_go.simps)
  qed (use assms GuardGo in simp)
next
  case (KillerGo j)
  then show ?thesis
  proof (cases "j < length (wo_killers w)")
    case True
    with KillerGo show ?thesis
      by (intro gate_inv_quiet [OF assms])
        (auto simp: split_def killer_go_none gate_registering [OF assms] simp del: killer_go.simps)
  qed (use assms in simp)
next
  case (NewSpawn k n ty root grace rt)
  then show ?thesis by (intro gate_inv_quiet [OF assms]) (auto simp: gate_registering [OF assms])
next
  case (NewKiller key ch window)
  then show ?thesis by (intro gate_inv_quiet [OF assms]) (auto simp: gate_registering [OF assms])
next
  case EnterShutdown
  with assms show ?thesis
    by (auto simp: gate_inv_def gate_free_none shutdown_enter_def system_active_def roots_in_def)
next
  case (SnapshotRoots j)
  with assms show ?thesis
    by (auto simp: gate_inv_def in_flight_update roots_in_first dest!: set_update_cases)
next
  case (LeaveShutdown j completed)
  show ?thesis
  proof (cases "j < length (wo_shutdowns w) \<and> wo_shutdowns w ! j \<noteq> ShutdownOver \<and> gate_free w")
    case True
    with assms LeaveShutdown show ?thesis
      by (auto simp: gate_inv_def gate_free_none in_flight_update shutdown_leave_def system_active_def Let_def roots_in_def
          dest!: set_update_cases)
  qed (use assms LeaveShutdown in auto)
next
  case Reactivate
  with assms show ?thesis
    by (auto simp: gate_inv_def gate_free_none reactivate_def roots_in_def dest: in_flight_pos)
next
  case (OnLane ch l)
  with assms show ?thesis by (simp add: gate_inv_def roots_in_def system_active_def)
next
  case (ClockTo now)
  with assms show ?thesis by (simp add: gate_inv_def roots_in_def system_active_def)
qed

interpretation gated: invariant_machine world_step gate_inv
  by unfold_locales (rule world_step_gate)

section \<open>Properties\<close>

text \<open>
  C10. No root is forgotten by a shutdown: while a shutdown is in flight with its snapshot taken, every root actor
  the registry resolves is in that snapshot, under its id and with the channel of its incarnation, whatever spawns,
  kills, other shutdowns and reactivations were interleaved.
\<close>

theorem shutdown_sees_every_root:
  assumes "w = run world_step (world_new name now) ops" "j < length (wo_shutdowns w)" "wo_shutdowns w ! j = ShutdownWalking snap"
    and "hget (sy_by_id (wo_sys w)) k = Some e" "rg_is_root e"
  shows "\<not> system_active (wo_sys w) \<and> (k, rg_channel e) \<in> set (map (\<lambda>s. (rs_id s, rs_channel s)) snap)"
proof -
  have "gate_inv (world_new name now)"
    by (simp add: gate_inv_def world_new_def system_empty_def in_flight_def)
  then have g: "gate_inv w" unfolding assms(1) by (rule gated.run_inv)
  have mem: "ShutdownWalking snap \<in> set (wo_shutdowns w)" using assms(2,3) nth_mem by metis
  then have "roots_in (wo_sys w) snap" using g unfolding gate_inv_def by blast
  then obtain s where "s \<in> set snap" "rs_id s = k" "rs_channel s = rg_channel e"
    using assms(4,5) unfolding roots_in_def by blast
  moreover have "0 < in_flight (wo_shutdowns w)"
    using mem unfolding in_flight_def length_greater_0_conv by (auto simp: filter_empty_conv)
  then have "\<not> system_active (wo_sys w)" using g unfolding gate_inv_def by blast
  ultimately show ?thesis by force
qed

theorem shutdown_sees_every_root_witness:
  "(''a'', 0) \<in> set (map (\<lambda>s. (rs_id s, rs_channel s))
     (first_snapshot (wo_sys (run world_step (world_new ''s'' 0)
        [NewSpawn ''a'' None 0 True 5 1, SpawnGo 0, SpawnGo 0, SpawnGo 0, SpawnGo 0, EnterShutdown]))))"
  using shutdown_sees_every_root [of _ "''s''" 0
      "[NewSpawn ''a'' None 0 True 5 1, SpawnGo 0, SpawnGo 0, SpawnGo 0, SpawnGo 0, EnterShutdown, SnapshotRoots 0]" 0 _ "''a''"
      "entry_of 0 \<lparr>sp_id = ''a'', sp_name = None, sp_type = 0, sp_root = True, sp_grace = 5, sp_runtime = 1,
        sp_pc = SpBefore, sp_guard = GuardNone\<rparr> 0", OF refl]
  by (simp add: world_new_def system_empty_def claim_name_def next_registration_seq_def entry_of_def registration_new_def
      gate_free_def shutdown_enter_def system_active_def)

end
