(* ===== verification/System_Kill.thy ===== *)
theory System_Kill
  imports System_World
begin

text \<open>
  Who owns an entry of the registry, and the abort that follows a \<open>Kill\<close>: the two maps hold exactly the entries of the
  spawns that claim them, and every \<open>Kill\<close> the lane takes for a registered actor ends in a scheduled abort, on the
  actor's own runtime, whichever of the raise and the spawn's attach comes first.
\<close>

section \<open>Owners\<close>

text \<open>
  Both maps hold entries of spawns that claim their key, each under the sequence number of its claim, and every claim
  has its entry: two spawns never claim one key at the same time.
\<close>

definition entry_matches :: "incarnation \<Rightarrow> spawn \<Rightarrow> registration \<Rightarrow> bool" where
  "entry_matches i sp e \<longleftrightarrow> same_target (entry_of i sp (rg_seq e)) e"

definition owned ::
  "(spawn \<Rightarrow> 'k option) \<Rightarrow> (spawn \<Rightarrow> u64 \<Rightarrow> bool) \<Rightarrow> (spawn \<Rightarrow> bool) \<Rightarrow> ('k \<times> registration) list \<Rightarrow> spawn list \<Rightarrow> bool"
where
  "owned key claim att m sps \<longleftrightarrow>
     (\<forall>k e. hget m k = Some e \<longrightarrow>
        rg_channel e < length sps \<and> key (sps ! rg_channel e) = Some k \<and> claim (sps ! rg_channel e) (rg_seq e) \<and>
        entry_matches (rg_channel e) (sps ! rg_channel e) e \<and>
        rg_abort e = (if att (sps ! rg_channel e) then Some (rg_channel e) else None)) \<and>
     (\<forall>i < length sps. \<forall>k q. key (sps ! i) = Some k \<and> claim (sps ! i) q \<longrightarrow> (\<exists>e. hget m k = Some e \<and> rg_channel e = i))"

definition same_spawn :: "spawn \<Rightarrow> spawn \<Rightarrow> bool" where
  "same_spawn sp sp' \<longleftrightarrow>
     sp_id sp' = sp_id sp \<and> sp_name sp' = sp_name sp \<and> sp_type sp' = sp_type sp \<and> sp_root sp' = sp_root sp \<and>
     sp_grace sp' = sp_grace sp \<and> sp_runtime sp' = sp_runtime sp"

lemma same_spawn_matches: "same_spawn sp sp' \<Longrightarrow> entry_matches i sp' e = entry_matches i sp e"
  by (simp add: entry_matches_def same_target_def same_spawn_def entry_of_def registration_new_def)

lemma matches_channel: "entry_matches i sp e \<Longrightarrow> rg_channel e = i"
  by (simp add: entry_matches_def same_target_def entry_of_def registration_new_def)

lemma entry_of_matches [simp]: "entry_matches i sp (entry_of i sp q)"
  by (simp add: entry_matches_def entry_of_def registration_new_def)

lemma same_target_matches: "same_target e e' \<Longrightarrow> entry_matches i sp e' = entry_matches i sp e"
  by (simp add: entry_matches_def same_target_def entry_of_def registration_new_def)

lemma owned_keep:
  assumes "owned key claim att m sps" "i < length sps" "key sp = key (sps ! i)" "same_spawn (sps ! i) sp"
    and "claim sp = claim (sps ! i)" "att sp = att (sps ! i)"
  shows "owned key claim att m (sps[i := sp])"
  using assms unfolding owned_def by (simp add: nth_list_update same_spawn_matches)

lemma owned_unclaimed:
  assumes "owned key claim att m sps" "i < length sps" "key sp = key (sps ! i)" "same_spawn (sps ! i) sp"
    and "\<And>q. \<not> claim (sps ! i) q" "\<And>q. \<not> claim sp q"
  shows "owned key claim att m (sps[i := sp])"
  using assms unfolding owned_def by (auto simp: nth_list_update)

lemma owned_keyless:
  assumes "owned key claim att m sps" "i < length sps" "key sp = None" "key (sps ! i) = None"
  shows "owned key claim att m (sps[i := sp])"
  using assms unfolding owned_def by (auto simp: nth_list_update)

lemma owned_insert:
  assumes "owned key claim att m sps" "i < length sps" "key (sps ! i) = Some k" "key sp = Some k" "hget m k = None"
    and "\<And>q'. claim sp q' \<longleftrightarrow> q' = q" "\<not> att sp" "e = entry_of i sp q"
  shows "owned key claim att (hput k e m) (sps[i := sp])"
proof -
  have free: "j \<noteq> i" if "hget m k' = Some e'" "rg_channel e' = j" for j k' e'
    using assms(1,3,5) that unfolding owned_def by fastforce
  have "rg_channel e = i" "rg_seq e = q" "rg_abort e = None" "entry_matches i sp e"
    using assms(8) by (simp_all add: entry_of_def registration_new_def) (simp add: entry_matches_def entry_of_def registration_new_def)
  with assms free show ?thesis
    unfolding owned_def by (auto simp: hget_hput nth_list_update)
qed

lemma ownedI:
  assumes "\<And>k e. hget m k = Some e \<Longrightarrow>
      rg_channel e < length sps \<and> key (sps ! rg_channel e) = Some k \<and> claim (sps ! rg_channel e) (rg_seq e) \<and>
      entry_matches (rg_channel e) (sps ! rg_channel e) e \<and>
      rg_abort e = (if att (sps ! rg_channel e) then Some (rg_channel e) else None)"
    and "\<And>i k q. i < length sps \<Longrightarrow> key (sps ! i) = Some k \<Longrightarrow> claim (sps ! i) q \<Longrightarrow>
      \<exists>e. hget m k = Some e \<and> rg_channel e = i"
  shows "owned key claim att m sps"
  using assms unfolding owned_def by blast

lemma ownedD:
  assumes "owned key claim att m sps" "hget m k = Some e"
  shows "rg_channel e < length sps" "key (sps ! rg_channel e) = Some k" "claim (sps ! rg_channel e) (rg_seq e)"
    "entry_matches (rg_channel e) (sps ! rg_channel e) e"
    "rg_abort e = (if att (sps ! rg_channel e) then Some (rg_channel e) else None)"
  using assms unfolding owned_def by blast+

lemma owned_entry:
  "owned key claim att m sps \<Longrightarrow> i < length sps \<Longrightarrow> key (sps ! i) = Some k \<Longrightarrow> claim (sps ! i) q \<Longrightarrow>
   \<exists>e. hget m k = Some e \<and> rg_channel e = i"
  unfolding owned_def by blast

lemma owned_one_key:
  assumes "owned key claim att m sps" "hget m k = Some e" "hget m k' = Some e'" "rg_channel e' = rg_channel e"
  shows "k' = k"
  using ownedD(2) [OF assms(1,2)] ownedD(2) [OF assms(1,3)] assms(4) by simp

lemma owned_one_claim:
  assumes "owned key claim att m sps" "i < length sps" "key (sps ! i) = Some k" "claim (sps ! i) q"
    and "j < length sps" "key (sps ! j) = Some k" "claim (sps ! j) q'"
  shows "j = i"
  using owned_entry [OF assms(1-4)] owned_entry [OF assms(1,5-7)] by auto

lemma owned_release:
  assumes own: "owned key claim att m sps" and i: "i < length sps" and k: "key (sps ! i) = Some k" "claim (sps ! i) q"
    and sp: "key sp = Some k" "\<And>q. \<not> claim sp q"
  shows "owned key claim att (hdel k m) (sps[i := sp])"
proof (rule ownedI, goal_cases)
  case (1 k' e)
  then have e: "hget m k' = Some e" "k' \<noteq> k" by (auto simp: hget_hdel split: if_splits)
  obtain e0 where "hget m k = Some e0" "rg_channel e0 = i" using owned_entry [OF own i k] by blast
  then have "rg_channel e \<noteq> i" using owned_one_key [OF own e(1), of k e0] e(2) by auto
  with ownedD [OF own e(1)] show ?case by simp
next
  case (2 j k' q')
  then have j: "j \<noteq> i" "j < length sps" "key (sps ! j) = Some k'" "claim (sps ! j) q'"
    using sp i by (auto simp: nth_list_update split: if_splits)
  then have "k' \<noteq> k" using owned_one_claim [OF own i k] by blast
  with owned_entry [OF own j(2-4)] show ?case by (simp add: hget_hdel)
qed

lemma owned_replace:
  assumes own: "owned key claim att m sps" and i: "i < length sps" "same_spawn (sps ! i) sp" "key sp = key (sps ! i)"
    and cl: "claim sp = claim (sps ! i)" and e: "hget m k = Some e" "rg_channel e = i" "same_target e e'"
    and ab: "rg_abort e' = (if att sp then Some i else None)"
  shows "owned key claim att (hput k e' m) (sps[i := sp])"
proof (rule ownedI, goal_cases)
  case (1 k' f)
  show ?case
  proof (cases "k' = k")
    case True
    with 1 have "f = e'" by (simp add: hget_hput)
    with ownedD [OF own e(1)] e i cl ab same_target_matches [OF e(3)] same_spawn_matches [OF i(2)] show ?thesis
      using True by (simp add: same_target_def)
  next
    case False
    with 1 have f: "hget m k' = Some f" by (simp add: hget_hput)
    with False e have "rg_channel f \<noteq> i" using owned_one_key [OF own e(1) f] by auto
    with ownedD [OF own f] show ?thesis by simp
  qed
next
  case (2 j k' q')
  then have j: "j < length sps" "key (sps ! j) = Some k'" "claim (sps ! j) q'"
    using i cl by (auto simp: nth_list_update split: if_splits)
  from owned_entry [OF own j] e show ?case by (auto simp: hget_hput same_target_def)
qed

lemma owned_append:
  assumes "owned key claim att m sps" "\<And>q. \<not> claim sp q"
  shows "owned key claim att m (sps @ [sp])"
proof (rule ownedI, goal_cases)
  case (1 k e)
  with ownedD [OF assms(1) 1] show ?case by (simp add: nth_append)
next
  case (2 i k q)
  then have "i < length sps" "key (sps ! i) = Some k" "claim (sps ! i) q"
    using assms(2) [of q] by (auto simp: nth_append less_Suc_eq split: if_splits)
  with owned_entry [OF assms(1)] show ?case by blast
qed

section \<open>Sequence numbers\<close>

text \<open>The numbers spawns hold are distinct while the counter has not wrapped.\<close>

fun pc_seq :: "spawn_pc \<Rightarrow> u64 option" where
  "pc_seq (SpName q) = Some q"
| "pc_seq (SpId q) = Some q"
| "pc_seq (SpUndo q) = Some q"
| "pc_seq (SpAttachId q) = Some q"
| "pc_seq (SpAttachName q f) = Some q"
| "pc_seq (SpReadLane q e) = Some q"
| "pc_seq (SpDueId q e) = Some q"
| "pc_seq (SpDueName q e due) = Some q"
| "pc_seq _ = None"

fun guard_seq :: "guard_pc \<Rightarrow> u64 option" where
  "guard_seq (GuardHeld q) = Some q"
| "guard_seq (GuardNameLeft q) = Some q"
| "guard_seq _ = None"

definition has_seq :: "spawn \<Rightarrow> u64 \<Rightarrow> bool" where
  "has_seq sp q \<longleftrightarrow> pc_seq (sp_pc sp) = Some q \<or> guard_seq (sp_guard sp) = Some q"

definition seq_inv :: "nat \<Rightarrow> system_world \<Rightarrow> bool" where
  "seq_inv n w \<longleftrightarrow>
     (\<exists>c \<le> n. sy_seq (wo_sys w) = of_nat c \<and>
        (\<forall>i < length (wo_spawns w). \<forall>q. has_seq (wo_spawns w ! i) q \<longrightarrow>
           unat q < c \<and> (\<forall>j < length (wo_spawns w). has_seq (wo_spawns w ! j) q \<longrightarrow> j = i)))"

lemma seq_inv_mono:
  assumes "seq_inv n w" "n \<le> n'" "sy_seq (wo_sys w') = sy_seq (wo_sys w)" "length (wo_spawns w) \<le> length (wo_spawns w')"
    and "\<And>i q. i < length (wo_spawns w') \<Longrightarrow> has_seq (wo_spawns w' ! i) q \<Longrightarrow>
      i < length (wo_spawns w) \<and> has_seq (wo_spawns w ! i) q"
  shows "seq_inv n' w'"
proof -
  obtain c where c: "c \<le> n" "sy_seq (wo_sys w) = of_nat c"
    and q: "\<And>j q. j < length (wo_spawns w) \<Longrightarrow> has_seq (wo_spawns w ! j) q \<Longrightarrow>
      unat q < c \<and> (\<forall>j' < length (wo_spawns w). has_seq (wo_spawns w ! j') q \<longrightarrow> j' = j)"
    using assms(1) unfolding seq_inv_def by blast
  have "unat q < c \<and> (\<forall>j' < length (wo_spawns w'). has_seq (wo_spawns w' ! j') q \<longrightarrow> j' = j)"
    if "j < length (wo_spawns w')" "has_seq (wo_spawns w' ! j) q" for j q
    using q [of j q] assms(5) [OF that] assms(5) by blast
  moreover have "c \<le> n'" "sy_seq (wo_sys w') = of_nat c" using c assms(2,3) by simp_all
  ultimately show ?thesis unfolding seq_inv_def by blast
qed

lemma seq_frames [simp]:
  "sy_seq (put_entry key e sy) = sy_seq sy"
  "sy_seq (unregister_by_id k q sy) = sy_seq sy"
  "sy_seq (unregister_by_name nm q sy) = sy_seq sy"
  "sy_seq (declare_kill key ch window now sy) = sy_seq sy"
  "sy_seq (arm_kill_backstop t d rt sy) = sy_seq sy"
  "sy_seq (snd (attach_at key q t sy)) = sy_seq sy"
  "sy_seq (snd (raise_on ch r sy)) = sy_seq sy"
  by (cases key; auto simp: unregister_by_id_def unregister_by_name_def declare_kill_def arm_kill_backstop_def attach_at_def
      raise_on_def split: option.splits prod.splits)+

lemma killer_go_seq: "sy_seq (snd (killer_go ki sy)) = sy_seq sy"
  by (cases "ki_pc ki") (auto simp: split_def split: option.splits)

lemma guard_go_seq:
  "sy_seq (snd (guard_go sp sy)) = sy_seq sy" "has_seq (fst (guard_go sp sy)) q \<Longrightarrow> has_seq sp q"
  by (cases "sp_guard sp"; auto simp: has_seq_def split: option.splits)+

lemma spawn_go_seq:
  assumes "sp_pc sp \<noteq> SpSeq"
  shows "sy_seq (snd (spawn_go i sp sy)) = sy_seq sy" "has_seq (fst (spawn_go i sp sy)) q \<Longrightarrow> has_seq sp q"
  using assms
  by (cases "sp_pc sp"; auto simp: has_seq_def claim_name_def split_def split: option.splits if_splits)+

lemma fresh_seq:
  assumes "seq_inv n w" "Suc n < 2 ^ 64" "i < length (wo_spawns w)" "sp_pc (wo_spawns w ! i) = SpSeq"
    and "sp_guard (wo_spawns w ! i) = GuardNone"
  shows "seq_inv (Suc n) (world_step w (SpawnGo i))"
proof -
  obtain c where c: "c \<le> n" "sy_seq (wo_sys w) = of_nat c"
    and q: "\<And>j q. j < length (wo_spawns w) \<Longrightarrow> has_seq (wo_spawns w ! j) q \<Longrightarrow>
      unat q < c \<and> (\<forall>j' < length (wo_spawns w). has_seq (wo_spawns w ! j') q \<longrightarrow> j' = j)"
    using assms(1) unfolding seq_inv_def by blast
  have "c < 2 ^ 64" using c(1) assms(2) by linarith
  then have u: "unat (of_nat c :: u64) = c" by (simp add: unat_of_nat take_bit_nat_eq_self)
  let ?sp = "(wo_spawns w ! i)\<lparr>sp_pc := SpName (of_nat c)\<rparr>"
  have step: "world_step w (SpawnGo i) =
      w\<lparr>wo_spawns := (wo_spawns w)[i := ?sp], wo_sys := (wo_sys w)\<lparr>sy_seq := of_nat c + 1\<rparr>\<rparr>"
    using assms(3,4) c(2) by (simp add: next_registration_seq_def)
  have new: "has_seq ?sp q \<longleftrightarrow> q = of_nat c" for q using assms(5) by (auto simp: has_seq_def)
  have at: "has_seq ((wo_spawns w)[i := ?sp] ! j) q \<longleftrightarrow> (if j = i then q = of_nat c else has_seq (wo_spawns w ! j) q)"
    for j q using assms(3) new by (simp add: nth_list_update)
  have "unat q < Suc c \<and> (\<forall>j' < length (wo_spawns w). has_seq ((wo_spawns w)[i := ?sp] ! j') q \<longrightarrow> j' = j)"
    if "j < length (wo_spawns w)" "has_seq ((wo_spawns w)[i := ?sp] ! j) q" for j q
  proof (cases "j = i")
    case True
    then have "q = of_nat c" using that(2) at by simp
    then have "\<not> has_seq (wo_spawns w ! j') q" if "j' < length (wo_spawns w)" for j'
      using q [OF that, of q] u by auto
    then show ?thesis using True u \<open>q = of_nat c\<close> at by simp
  next
    case False
    then have "has_seq (wo_spawns w ! j) q" using that(2) at by simp
    then have old: "unat q < c" "\<forall>j' < length (wo_spawns w). has_seq (wo_spawns w ! j') q \<longrightarrow> j' = j"
      using q that(1) by blast+
    then have "q \<noteq> of_nat c" using u by auto
    then show ?thesis using old at by simp
  qed
  then have "\<forall>j < length (wo_spawns w). \<forall>q. has_seq ((wo_spawns w)[i := ?sp] ! j) q \<longrightarrow>
      unat q < Suc c \<and> (\<forall>j' < length (wo_spawns w). has_seq ((wo_spawns w)[i := ?sp] ! j') q \<longrightarrow> j' = j)" by blast
  with c(1) show ?thesis unfolding seq_inv_def step by (intro exI [of _ "Suc c"]) (simp add: algebra_simps)
qed

section \<open>Tables\<close>

fun id_attached :: "spawn_pc \<Rightarrow> bool" where
  "id_attached (SpAttachName q f) = True"
| "id_attached (SpReadLane q e) = True"
| "id_attached (SpDueId q e) = True"
| "id_attached (SpDueName q e due) = True"
| "id_attached (SpArm e due) = True"
| "id_attached SpAttached = True"
| "id_attached _ = False"

fun name_attached :: "spawn_pc \<Rightarrow> bool" where
  "name_attached (SpAttachName q f) = False"
| "name_attached pc = id_attached pc"

definition id_claim :: "spawn \<Rightarrow> u64 \<Rightarrow> bool" where
  "id_claim sp q \<longleftrightarrow> sp_guard sp = GuardHeld q"

definition name_claim :: "spawn \<Rightarrow> u64 \<Rightarrow> bool" where
  "name_claim sp q \<longleftrightarrow> sp_pc sp = SpId q \<or> sp_pc sp = SpUndo q \<or> guard_seq (sp_guard sp) = Some q"

definition ids_owned :: "(actor_id \<times> registration) list \<Rightarrow> spawn list \<Rightarrow> bool" where
  "ids_owned = owned (\<lambda>sp. Some (sp_id sp)) id_claim (\<lambda>sp. id_attached (sp_pc sp))"

definition names_owned :: "(string \<times> registration) list \<Rightarrow> spawn list \<Rightarrow> bool" where
  "names_owned = owned sp_name name_claim (\<lambda>sp. name_attached (sp_pc sp))"

definition late_guard :: "u64 \<Rightarrow> guard_pc \<Rightarrow> bool" where
  "late_guard q g \<longleftrightarrow> g = GuardHeld q \<or> g = GuardNameLeft q \<or> g = GuardGone"

text \<open>The guard exists from the insert under the id on, and the entries a spawn carries are its own.\<close>

fun spawn_ok :: "incarnation \<Rightarrow> spawn \<Rightarrow> bool" where
  "spawn_ok i sp =
     (case sp_pc sp of
        SpAttachId q \<Rightarrow> late_guard q (sp_guard sp)
      | SpAttachName q f \<Rightarrow>
          late_guard q (sp_guard sp) \<and> (f = None \<longrightarrow> sp_guard sp \<noteq> GuardHeld q) \<and> pred_option (entry_matches i sp) f
      | SpReadLane q e \<Rightarrow> late_guard q (sp_guard sp) \<and> entry_matches i sp e
      | SpDueId q e \<Rightarrow> late_guard q (sp_guard sp) \<and> entry_matches i sp e
      | SpDueName q e due \<Rightarrow> late_guard q (sp_guard sp) \<and> entry_matches i sp e
      | SpArm e due \<Rightarrow> sp_guard sp \<noteq> GuardNone \<and> entry_matches i sp e
      | SpAttached \<Rightarrow> sp_guard sp \<noteq> GuardNone
      | _ \<Rightarrow> sp_guard sp = GuardNone)"

definition tables :: "actor_system \<Rightarrow> spawn list \<Rightarrow> bool" where
  "tables sy sps \<longleftrightarrow> ids_owned (sy_by_id sy) sps \<and> names_owned (sy_by_name sy) sps"

lemma matches_pc [simp]:
  "entry_matches i (sp\<lparr>sp_pc := pc\<rparr>) = entry_matches i sp" "entry_matches i (sp\<lparr>sp_guard := g\<rparr>) = entry_matches i sp"
  by (simp_all add: entry_matches_def entry_of_def fun_eq_iff)

lemma same_spawn_pc [simp]: "same_spawn sp (sp\<lparr>sp_pc := pc\<rparr>)" "same_spawn sp (sp\<lparr>sp_guard := g\<rparr>)"
  "same_spawn sp (sp\<lparr>sp_pc := pc, sp_guard := g\<rparr>)" "same_spawn sp sp"
  by (simp_all add: same_spawn_def)

lemmas ids_keep = owned_keep [where key = "\<lambda>sp. Some (sp_id sp)" and claim = id_claim and
    att = "\<lambda>sp. id_attached (sp_pc sp)", folded ids_owned_def]
lemmas ids_unclaimed = owned_unclaimed [where key = "\<lambda>sp. Some (sp_id sp)" and claim = id_claim and
    att = "\<lambda>sp. id_attached (sp_pc sp)", folded ids_owned_def]
lemmas ids_insert = owned_insert [where key = "\<lambda>sp. Some (sp_id sp)" and claim = id_claim and
    att = "\<lambda>sp. id_attached (sp_pc sp)", folded ids_owned_def]
lemmas ids_release = owned_release [where key = "\<lambda>sp. Some (sp_id sp)" and claim = id_claim and
    att = "\<lambda>sp. id_attached (sp_pc sp)", folded ids_owned_def]
lemmas ids_replace = owned_replace [where key = "\<lambda>sp. Some (sp_id sp)" and claim = id_claim and
    att = "\<lambda>sp. id_attached (sp_pc sp)", folded ids_owned_def]
lemmas ids_entry = owned_entry [where key = "\<lambda>sp. Some (sp_id sp)" and claim = id_claim and
    att = "\<lambda>sp. id_attached (sp_pc sp)", folded ids_owned_def]
lemmas idsD = ownedD [where key = "\<lambda>sp. Some (sp_id sp)" and claim = id_claim and
    att = "\<lambda>sp. id_attached (sp_pc sp)", folded ids_owned_def]

lemmas names_keep = owned_keep [where key = sp_name and claim = name_claim and
    att = "\<lambda>sp. name_attached (sp_pc sp)", folded names_owned_def]
lemmas names_unclaimed = owned_unclaimed [where key = sp_name and claim = name_claim and
    att = "\<lambda>sp. name_attached (sp_pc sp)", folded names_owned_def]
lemmas names_keyless = owned_keyless [where key = sp_name and claim = name_claim and
    att = "\<lambda>sp. name_attached (sp_pc sp)", folded names_owned_def]
lemmas names_insert = owned_insert [where key = sp_name and claim = name_claim and
    att = "\<lambda>sp. name_attached (sp_pc sp)", folded names_owned_def]
lemmas names_release = owned_release [where key = sp_name and claim = name_claim and
    att = "\<lambda>sp. name_attached (sp_pc sp)", folded names_owned_def]
lemmas names_replace = owned_replace [where key = sp_name and claim = name_claim and
    att = "\<lambda>sp. name_attached (sp_pc sp)", folded names_owned_def]
lemmas names_entry = owned_entry [where key = sp_name and claim = name_claim and
    att = "\<lambda>sp. name_attached (sp_pc sp)", folded names_owned_def]
lemmas namesD = ownedD [where key = sp_name and claim = name_claim and
    att = "\<lambda>sp. name_attached (sp_pc sp)", folded names_owned_def]

text \<open>A spawn's own entries carry its number.\<close>

lemma own_id_entry:
  assumes "ids_owned m sps" "i < length sps" "sp_guard (sps ! i) = GuardHeld q"
  shows "\<exists>e. hget m (sp_id (sps ! i)) = Some e \<and> rg_channel e = i \<and> rg_seq e = q"
proof -
  obtain e where e: "hget m (sp_id (sps ! i)) = Some e" "rg_channel e = i"
    using ids_entry [OF assms(1,2) refl, of q] assms(3) by (auto simp: id_claim_def)
  with idsD(3) [OF assms(1) e(1)] assms(3) show ?thesis by (simp add: id_claim_def)
qed

lemma own_name_entry:
  assumes "names_owned m sps" "i < length sps" "sp_name (sps ! i) = Some n" "spawn_ok i (sps ! i)" "name_claim (sps ! i) q"
  shows "\<exists>e. hget m n = Some e \<and> rg_channel e = i \<and> rg_seq e = q"
proof -
  obtain e where e: "hget m n = Some e" "rg_channel e = i" using names_entry [OF assms(1,2,3,5)] by blast
  have "name_claim (sps ! i) (rg_seq e)" using namesD(3) [OF assms(1) e(1)] e(2) by simp
  with assms(4,5) have "rg_seq e = q" by (auto simp: name_claim_def split: spawn_pc.splits)
  with e show ?thesis by blast
qed

lemma guard_go_tables:
  assumes "tables sy sps" "i < length sps" "spawn_ok i (sps ! i)"
  shows "tables (snd (guard_go (sps ! i) sy)) (sps[i := fst (guard_go (sps ! i) sy)])"
    and "spawn_ok i (fst (guard_go (sps ! i) sy))"
proof -
  let ?sp = "sps ! i"
  have ids: "ids_owned (sy_by_id sy) sps" and names: "names_owned (sy_by_name sy) sps"
    using assms(1) by (simp_all add: tables_def)
  show "spawn_ok i (fst (guard_go ?sp sy))"
    using assms(3) by (cases "sp_guard ?sp") (auto simp: late_guard_def split: spawn_pc.splits)
  show "tables (snd (guard_go ?sp sy)) (sps[i := fst (guard_go ?sp sy)])"
  proof (cases "sp_guard ?sp")
    case (GuardHeld q)
    obtain e where e: "hget (sy_by_id sy) (sp_id ?sp) = Some e" "rg_seq e = q"
      using own_id_entry [OF ids assms(2) GuardHeld] by blast
    have "ids_owned (hdel (sp_id ?sp) (sy_by_id sy)) (sps[i := ?sp\<lparr>sp_guard := GuardNameLeft q\<rparr>])"
      by (rule ids_release [OF ids assms(2), of _ q]) (simp_all add: id_claim_def GuardHeld)
    moreover have "names_owned (sy_by_name sy) (sps[i := ?sp\<lparr>sp_guard := GuardNameLeft q\<rparr>])"
      by (rule names_keep [OF names assms(2)]) (simp_all add: name_claim_def GuardHeld fun_eq_iff)
    ultimately show ?thesis using GuardHeld e by (simp add: tables_def unregister_by_id_def)
  next
    case (GuardNameLeft q)
    let ?sp' = "?sp\<lparr>sp_guard := GuardGone\<rparr>"
    have ids': "ids_owned (sy_by_id sy) (sps[i := ?sp'])"
      by (rule ids_unclaimed [OF ids assms(2)]) (simp_all add: id_claim_def GuardNameLeft)
    have gone: "\<not> name_claim ?sp' q'" for q'
      using assms(3) GuardNameLeft by (auto simp: name_claim_def)
    show ?thesis
    proof (cases "sp_name ?sp")
      case None
      have "names_owned (sy_by_name sy) (sps[i := ?sp'])"
        by (rule names_keyless [OF names assms(2)]) (simp_all add: None)
      with ids' show ?thesis using GuardNameLeft None by (simp add: tables_def)
    next
      case (Some n)
      have claim: "name_claim ?sp q" by (simp add: name_claim_def GuardNameLeft)
      obtain e where e: "hget (sy_by_name sy) n = Some e" "rg_seq e = q"
        using own_name_entry [OF names assms(2) Some assms(3) claim] by blast
      have "names_owned (hdel n (sy_by_name sy)) (sps[i := ?sp'])"
        by (rule names_release [OF names assms(2) Some claim]) (simp_all add: Some gone)
      with ids' e show ?thesis using GuardNameLeft Some by (simp add: tables_def unregister_by_name_def)
    qed
  qed (use assms(1) in simp_all)
qed

text \<open>The steps of a spawn.\<close>

lemma spawn_go_early:
  assumes "tables sy sps" "i < length sps" "spawn_ok i (sps ! i)" "sp_pc (sps ! i) \<in> {SpBefore, SpSeq}"
  shows "tables (snd (spawn_go i (sps ! i) sy)) (sps[i := fst (spawn_go i (sps ! i) sy)])"
    and "spawn_ok i (fst (spawn_go i (sps ! i) sy))"
proof -
  let ?sp = "sps ! i"
  have ids: "ids_owned (sy_by_id sy) sps" and names: "names_owned (sy_by_name sy) sps"
    using assms(1) by (simp_all add: tables_def)
  have none: "sp_guard ?sp = GuardNone" using assms(3,4) by auto
  have "ids_owned (sy_by_id sy) (sps[i := ?sp\<lparr>sp_pc := pc\<rparr>])" for pc
    by (rule ids_unclaimed [OF ids assms(2)]) (simp_all add: id_claim_def none)
  moreover have "names_owned (sy_by_name sy) (sps[i := ?sp\<lparr>sp_pc := pc\<rparr>])" if "\<nexists>q. pc = SpId q" "\<nexists>q. pc = SpUndo q" for pc
    using that assms(4) by (intro names_unclaimed [OF names assms(2)]) (auto simp: name_claim_def none)
  ultimately show "tables (snd (spawn_go i ?sp sy)) (sps[i := fst (spawn_go i ?sp sy)])"
    and "spawn_ok i (fst (spawn_go i ?sp sy))"
    using assms(4) none by (auto simp: tables_def next_registration_seq_def)
qed

lemma spawn_go_name:
  assumes "tables sy sps" "i < length sps" "spawn_ok i (sps ! i)" "sp_pc (sps ! i) = SpName q"
  shows "tables (snd (spawn_go i (sps ! i) sy)) (sps[i := fst (spawn_go i (sps ! i) sy)])"
    and "spawn_ok i (fst (spawn_go i (sps ! i) sy))"
proof -
  let ?sp = "sps ! i"
  have ids: "ids_owned (sy_by_id sy) sps" and names: "names_owned (sy_by_name sy) sps"
    using assms(1) by (simp_all add: tables_def)
  have none: "sp_guard ?sp = GuardNone" using assms(3,4) by auto
  have ids': "ids_owned (sy_by_id sy) (sps[i := ?sp\<lparr>sp_pc := pc\<rparr>])" for pc
    by (rule ids_unclaimed [OF ids assms(2)]) (simp_all add: id_claim_def none)
  show "spawn_ok i (fst (spawn_go i ?sp sy))"
    using assms(4) none by (simp add: claim_name_def split: option.splits)
  show "tables (snd (spawn_go i ?sp sy)) (sps[i := fst (spawn_go i ?sp sy)])"
  proof (cases "sp_name ?sp")
    case None
    have "names_owned (sy_by_name sy) (sps[i := ?sp\<lparr>sp_pc := SpId q\<rparr>])"
      by (rule names_keyless [OF names assms(2)]) (simp_all add: None)
    with ids' show ?thesis using assms(4) None by (simp add: tables_def claim_name_def)
  next
    case (Some n)
    show ?thesis
    proof (cases "has_key (sy_by_name sy) n")
      case True
      have "names_owned (sy_by_name sy) (sps[i := ?sp\<lparr>sp_pc := SpFailed err\<rparr>])" for err
        by (rule names_unclaimed [OF names assms(2)]) (simp_all add: name_claim_def none assms(4))
      with ids' show ?thesis using assms(4) Some True by (simp add: tables_def claim_name_def)
    next
      case False
      have "names_owned (hput n (entry_of i ?sp q) (sy_by_name sy)) (sps[i := ?sp\<lparr>sp_pc := SpId q\<rparr>])"
        by (rule names_insert [OF names assms(2) Some])
          (use False in \<open>auto simp: Some name_claim_def none entry_of_def has_key_def\<close>)
      with ids' show ?thesis using assms(4) Some False by (simp add: tables_def claim_name_def)
    qed
  qed
qed

lemma spawn_go_id:
  assumes "tables sy sps" "i < length sps" "spawn_ok i (sps ! i)" "sp_pc (sps ! i) = SpId q"
  shows "tables (snd (spawn_go i (sps ! i) sy)) (sps[i := fst (spawn_go i (sps ! i) sy)])"
    and "spawn_ok i (fst (spawn_go i (sps ! i) sy))"
proof -
  let ?sp = "sps ! i"
  have ids: "ids_owned (sy_by_id sy) sps" and names: "names_owned (sy_by_name sy) sps"
    using assms(1) by (simp_all add: tables_def)
  have none: "sp_guard ?sp = GuardNone" using assms(3,4) by auto
  show "spawn_ok i (fst (spawn_go i ?sp sy))"
    using assms(4) none by (simp add: late_guard_def)
  show "tables (snd (spawn_go i ?sp sy)) (sps[i := fst (spawn_go i ?sp sy)])"
  proof (cases "has_key (sy_by_id sy) (sp_id ?sp)")
    case True
    have "ids_owned (sy_by_id sy) (sps[i := ?sp\<lparr>sp_pc := SpUndo q\<rparr>])"
      by (rule ids_unclaimed [OF ids assms(2)]) (simp_all add: id_claim_def none)
    moreover have "names_owned (sy_by_name sy) (sps[i := ?sp\<lparr>sp_pc := SpUndo q\<rparr>])"
      by (rule names_keep [OF names assms(2)]) (auto simp: name_claim_def assms(4) none)
    ultimately show ?thesis using assms(4) True by (simp add: tables_def)
  next
    case False
    let ?sp' = "?sp\<lparr>sp_pc := SpAttachId q, sp_guard := GuardHeld q\<rparr>"
    have "ids_owned (hput (sp_id ?sp) (entry_of i ?sp q) (sy_by_id sy)) (sps[i := ?sp'])"
      by (rule ids_insert [OF ids assms(2)])
        (use False in \<open>auto simp: id_claim_def entry_of_def has_key_def\<close>)
    moreover have "names_owned (sy_by_name sy) (sps[i := ?sp'])"
      by (rule names_keep [OF names assms(2)]) (auto simp: name_claim_def assms(4) none)
    ultimately show ?thesis using assms(4) False by (simp add: tables_def)
  qed
qed

lemma spawn_go_undo:
  assumes "tables sy sps" "i < length sps" "spawn_ok i (sps ! i)" "sp_pc (sps ! i) = SpUndo q"
  shows "tables (snd (spawn_go i (sps ! i) sy)) (sps[i := fst (spawn_go i (sps ! i) sy)])"
    and "spawn_ok i (fst (spawn_go i (sps ! i) sy))"
proof -
  let ?sp = "sps ! i"
  let ?sp' = "?sp\<lparr>sp_pc := SpFailed (DuplicateChild (sp_id ?sp))\<rparr>"
  have ids: "ids_owned (sy_by_id sy) sps" and names: "names_owned (sy_by_name sy) sps"
    using assms(1) by (simp_all add: tables_def)
  have none: "sp_guard ?sp = GuardNone" using assms(3,4) by auto
  show "spawn_ok i (fst (spawn_go i ?sp sy))" using assms(4) none by simp
  have ids': "ids_owned (sy_by_id sy) (sps[i := ?sp'])"
    by (rule ids_unclaimed [OF ids assms(2)]) (simp_all add: id_claim_def none)
  show "tables (snd (spawn_go i ?sp sy)) (sps[i := fst (spawn_go i ?sp sy)])"
  proof (cases "sp_name ?sp")
    case None
    have "names_owned (sy_by_name sy) (sps[i := ?sp'])"
      by (rule names_keyless [OF names assms(2)]) (simp_all add: None)
    with ids' show ?thesis using assms(4) None by (simp add: tables_def)
  next
    case (Some n)
    have claim: "name_claim ?sp q" by (simp add: name_claim_def assms(4))
    obtain e where e: "hget (sy_by_name sy) n = Some e" "rg_seq e = q"
      using own_name_entry [OF names assms(2) Some assms(3) claim] by blast
    have "names_owned (hdel n (sy_by_name sy)) (sps[i := ?sp'])"
      by (rule names_release [OF names assms(2) Some claim]) (simp_all add: Some name_claim_def none)
    with ids' e show ?thesis using assms(4) Some by (simp add: tables_def unregister_by_name_def)
  qed
qed

text \<open>No entry but the spawn's own carries its number.\<close>

definition sole_seq :: "spawn list \<Rightarrow> nat \<Rightarrow> bool" where
  "sole_seq sps i \<longleftrightarrow> (\<forall>j < length sps. \<forall>q. has_seq (sps ! i) q \<longrightarrow> has_seq (sps ! j) q \<longrightarrow> j = i)"

lemma seq_inv_sole: "seq_inv n w \<Longrightarrow> i < length (wo_spawns w) \<Longrightarrow> sole_seq (wo_spawns w) i"
  unfolding seq_inv_def sole_seq_def by metis

lemma claim_has_seq: "id_claim sp q \<Longrightarrow> has_seq sp q" "name_claim sp q \<Longrightarrow> has_seq sp q"
  by (auto simp: id_claim_def name_claim_def has_seq_def)

lemma id_entry_own:
  assumes "ids_owned m sps" "sole_seq sps i" "has_seq (sps ! i) q" "hget m k = Some e" "rg_seq e = q"
  shows "rg_channel e = i" "k = sp_id (sps ! i)" "sp_guard (sps ! i) = GuardHeld q"
proof -
  note d = idsD [OF assms(1,4)]
  have "has_seq (sps ! rg_channel e) q" using claim_has_seq(1) [OF d(3)] assms(5) by simp
  with d(1) assms(2,3) show i: "rg_channel e = i" unfolding sole_seq_def by blast
  with d assms(5) show "k = sp_id (sps ! i)" "sp_guard (sps ! i) = GuardHeld q" by (auto simp: id_claim_def)
qed

lemma name_entry_own:
  assumes "names_owned m sps" "sole_seq sps i" "has_seq (sps ! i) q" "hget m n = Some e" "rg_seq e = q"
  shows "rg_channel e = i" "sp_name (sps ! i) = Some n" "name_claim (sps ! i) q"
proof -
  note d = namesD [OF assms(1,4)]
  have "has_seq (sps ! rg_channel e) q" using claim_has_seq(2) [OF d(3)] assms(5) by simp
  with d(1) assms(2,3) show i: "rg_channel e = i" unfolding sole_seq_def by blast
  with d assms(5) show "sp_name (sps ! i) = Some n" "name_claim (sps ! i) q" by auto
qed

lemma spawn_go_attach_id:
  assumes "tables sy sps" "i < length sps" "spawn_ok i (sps ! i)" "sp_pc (sps ! i) = SpAttachId q" "sole_seq sps i"
  shows "tables (snd (spawn_go i (sps ! i) sy)) (sps[i := fst (spawn_go i (sps ! i) sy)])"
    and "spawn_ok i (fst (spawn_go i (sps ! i) sy))"
proof -
  let ?sp = "sps ! i"
  have ids: "ids_owned (sy_by_id sy) sps" and names: "names_owned (sy_by_name sy) sps"
    using assms(1) by (simp_all add: tables_def)
  have late: "late_guard q (sp_guard ?sp)" using assms(3,4) by simp
  have seq: "has_seq ?sp q" using assms(4) by (simp add: has_seq_def)
  have names': "names_owned (sy_by_name sy) (sps[i := ?sp\<lparr>sp_pc := SpAttachName q f\<rparr>])" for f
    by (rule names_keep [OF names assms(2)]) (auto simp: name_claim_def assms(4))
  have "tables (snd (spawn_go i ?sp sy)) (sps[i := fst (spawn_go i ?sp sy)]) \<and> spawn_ok i (fst (spawn_go i ?sp sy))"
  proof (cases "sp_guard ?sp = GuardHeld q")
    case True
    obtain e where e: "hget (sy_by_id sy) (sp_id ?sp) = Some e" "rg_channel e = i" "rg_seq e = q"
      using own_id_entry [OF ids assms(2) True] by blast
    have "ids_owned (hput (sp_id ?sp) (e\<lparr>rg_abort := Some i\<rparr>) (sy_by_id sy)) (sps[i := ?sp\<lparr>sp_pc := SpAttachName q (Some e)\<rparr>])"
      by (rule ids_replace [OF ids assms(2) _ _ _ e(1,2)]) (auto simp: id_claim_def)
    with names' e late idsD(4) [OF ids e(1)] show ?thesis
      using assms(4) by (simp add: tables_def attach_at_def)
  next
    case False
    have "attach_at (KillId (sp_id ?sp)) q i sy = (None, sy)"
      using id_entry_own(3) [OF ids assms(5) seq] False by (auto simp: attach_at_def split: option.splits)
    moreover have "ids_owned (sy_by_id sy) (sps[i := ?sp\<lparr>sp_pc := SpAttachName q None\<rparr>])"
      by (rule ids_unclaimed [OF ids assms(2)]) (use late False in \<open>auto simp: id_claim_def late_guard_def\<close>)
    ultimately show ?thesis using names' late False assms(4) by (simp add: tables_def)
  qed
  then show "tables (snd (spawn_go i ?sp sy)) (sps[i := fst (spawn_go i ?sp sy)])" "spawn_ok i (fst (spawn_go i ?sp sy))"
    by blast+
qed

lemma spawn_go_attach_name:
  assumes "tables sy sps" "i < length sps" "spawn_ok i (sps ! i)" "sp_pc (sps ! i) = SpAttachName q f" "sole_seq sps i"
  shows "tables (snd (spawn_go i (sps ! i) sy)) (sps[i := fst (spawn_go i (sps ! i) sy)])"
    and "spawn_ok i (fst (spawn_go i (sps ! i) sy))"
proof -
  let ?sp = "sps ! i"
  let ?sp' = "?sp\<lparr>sp_pc := (case f of Some e \<Rightarrow> SpReadLane q e | None \<Rightarrow> SpAttached)\<rparr>"
  have ids: "ids_owned (sy_by_id sy) sps" and names: "names_owned (sy_by_name sy) sps"
    using assms(1) by (simp_all add: tables_def)
  have late: "late_guard q (sp_guard ?sp)" using assms(3,4) by simp
  have seq: "has_seq ?sp q" using assms(4) by (simp add: has_seq_def)
  show "spawn_ok i (fst (spawn_go i ?sp sy))"
    using assms(3,4) late by (auto simp: late_guard_def split: option.splits)
  have ids': "ids_owned (sy_by_id sy) (sps[i := ?sp'])"
    by (rule ids_keep [OF ids assms(2)]) (auto simp: id_claim_def assms(4) split: option.split)
  have claim: "name_claim ?sp' = name_claim ?sp"
    by (auto simp: name_claim_def assms(4) fun_eq_iff split: option.splits)
  have att: "name_attached (sp_pc ?sp')" by (simp split: option.split)
  show "tables (snd (spawn_go i ?sp sy)) (sps[i := fst (spawn_go i ?sp sy)])"
  proof (cases "sp_name ?sp")
    case None
    have "names_owned (sy_by_name sy) (sps[i := ?sp'])"
      by (rule names_keyless [OF names assms(2)]) (simp_all add: None)
    with ids' show ?thesis using assms(4) None by (simp add: tables_def)
  next
    case (Some n)
    show ?thesis
    proof (cases "name_claim ?sp q")
      case True
      obtain e where e: "hget (sy_by_name sy) n = Some e" "rg_channel e = i" "rg_seq e = q"
        using own_name_entry [OF names assms(2) Some assms(3) True] by blast
      have "names_owned (hput n (e\<lparr>rg_abort := Some i\<rparr>) (sy_by_name sy)) (sps[i := ?sp'])"
        by (rule names_replace [OF names assms(2) _ _ claim e(1,2)]) (use att in auto)
      with ids' e Some show ?thesis using assms(4) by (simp add: tables_def attach_at_def)
    next
      case False
      have "attach_at (KillName n) q i sy = (None, sy)"
        using name_entry_own(3) [OF names assms(5) seq] False by (auto simp: attach_at_def split: option.splits)
      moreover have "\<not> name_claim ?sp q'" for q'
        using late False assms(4) by (auto simp: name_claim_def late_guard_def)
      then have "names_owned (sy_by_name sy) (sps[i := ?sp'])"
        by (intro names_unclaimed [OF names assms(2)]) (simp_all add: claim)
      ultimately show ?thesis using ids' Some assms(4) by (simp add: tables_def)
    qed
  qed
qed

lemma spawn_go_late:
  assumes "tables sy sps" "i < length sps" "spawn_ok i (sps ! i)" "name_attached (sp_pc (sps ! i))"
  shows "tables (snd (spawn_go i (sps ! i) sy)) (sps[i := fst (spawn_go i (sps ! i) sy)])"
    and "spawn_ok i (fst (spawn_go i (sps ! i) sy))"
proof -
  let ?sp = "sps ! i"
  have ids: "ids_owned (sy_by_id sy) sps" and names: "names_owned (sy_by_name sy) sps"
    using assms(1) by (simp_all add: tables_def)
  have "ids_owned (sy_by_id sy) (sps[i := ?sp\<lparr>sp_pc := pc\<rparr>])" if "name_attached pc" for pc
    using that assms(4) by (intro ids_keep [OF ids assms(2)]) (auto simp: id_claim_def elim: name_attached.elims)
  moreover have "names_owned (sy_by_name sy) (sps[i := ?sp\<lparr>sp_pc := pc\<rparr>])" if "name_attached pc" for pc
    using that assms(4)
    by (intro names_keep [OF names assms(2)]) (auto simp: name_claim_def fun_eq_iff elim: name_attached.elims)
  ultimately show "tables (snd (spawn_go i ?sp sy)) (sps[i := fst (spawn_go i ?sp sy)])"
    using assms(1,4) by (cases "sp_pc ?sp") (auto simp: tables_def arm_kill_backstop_def)
  show "spawn_ok i (fst (spawn_go i ?sp sy))"
    using assms(3,4) by (cases "sp_pc ?sp") (auto simp: late_guard_def)
qed

lemma spawn_go_tables:
  assumes "tables sy sps" "i < length sps" "spawn_ok i (sps ! i)" "sole_seq sps i"
  shows "tables (snd (spawn_go i (sps ! i) sy)) (sps[i := fst (spawn_go i (sps ! i) sy)]) \<and>
    spawn_ok i (fst (spawn_go i (sps ! i) sy))"
proof (cases "sp_pc (sps ! i)")
  case SpBefore
  then show ?thesis using spawn_go_early [OF assms(1-3)] by blast
next
  case SpSeq
  then show ?thesis using spawn_go_early [OF assms(1-3)] by blast
next
  case (SpName q)
  then show ?thesis using spawn_go_name [OF assms(1-3)] by blast
next
  case (SpId q)
  then show ?thesis using spawn_go_id [OF assms(1-3)] by blast
next
  case (SpUndo q)
  then show ?thesis using spawn_go_undo [OF assms(1-3)] by blast
next
  case (SpAttachId q)
  then show ?thesis using spawn_go_attach_id [OF assms(1-3) _ assms(4)] by blast
next
  case (SpAttachName q f)
  then show ?thesis using spawn_go_attach_name [OF assms(1-3) _ assms(4)] by blast
next
  case (SpFailed err)
  then show ?thesis using assms by simp
qed (rule conjI; rule spawn_go_late [OF assms(1-3)]; simp)+

section \<open>Reachable registries\<close>

definition reg_inv :: "nat \<Rightarrow> system_world \<Rightarrow> bool" where
  "reg_inv n w \<longleftrightarrow>
     seq_inv n w \<and> tables (wo_sys w) (wo_spawns w) \<and> (\<forall>i < length (wo_spawns w). spawn_ok i (wo_spawns w ! i))"

lemma declare_kill_tables: "tables sy sps \<Longrightarrow> tables (declare_kill key ch window now sy) sps"
proof (cases "entry_for key ch sy")
  case (Some e)
  assume t: "tables sy sps"
  have e: "entry_at key sy = Some e" using Some by (auto simp: entry_for_def split: option.splits if_splits)
  have ab: "rg_abort (entry_declare_kill now window e) = rg_abort e" by (simp add: entry_declare_kill_def Let_def)
  show ?thesis
  proof (cases key)
    case (KillId k)
    then have o: "ids_owned (sy_by_id sy) sps" "hget (sy_by_id sy) k = Some e" using t e by (simp_all add: tables_def)
    note d = idsD [OF o] and r = ids_replace [OF o(1), of "rg_channel e" "sps ! rg_channel e" k e "entry_declare_kill now window e"]
    from r d o ab have "ids_owned (hput k (entry_declare_kill now window e) (sy_by_id sy)) sps" by simp
    with t Some KillId show ?thesis by (simp add: declare_kill_def tables_def)
  next
    case (KillName n)
    then have o: "names_owned (sy_by_name sy) sps" "hget (sy_by_name sy) n = Some e" using t e by (simp_all add: tables_def)
    note d = namesD [OF o] and r = names_replace [OF o(1), of "rg_channel e" "sps ! rg_channel e" n e "entry_declare_kill now window e"]
    from r d o ab have "names_owned (hput n (entry_declare_kill now window e) (sy_by_name sy)) sps" by simp
    with t Some KillName show ?thesis by (simp add: declare_kill_def tables_def)
  qed
qed (simp add: declare_kill_def)

lemma tables_eq: "tables sy sps \<Longrightarrow> sy_by_id sy' = sy_by_id sy \<Longrightarrow> sy_by_name sy' = sy_by_name sy \<Longrightarrow> tables sy' sps"
  by (simp add: tables_def)

lemma killer_go_tables: "tables sy sps \<Longrightarrow> tables (snd (killer_go ki sy)) sps"
proof (cases "ki_pc ki")
  case (KillerDeclare now)
  assume "tables sy sps"
  then show ?thesis using KillerDeclare declare_kill_tables by simp
next
  case KillerArm
  assume "tables sy sps"
  then show ?thesis using KillerArm by (auto split: option.splits)
qed (auto simp: raise_on_def arm_kill_backstop_def tables_def split: prod.splits)

lemma spawn_ok_new [simp]: "sp_pc sp = SpBefore \<Longrightarrow> sp_guard sp = GuardNone \<Longrightarrow> spawn_ok i sp"
  by simp

lemma reg_inv_quiet:
  assumes "reg_inv n w" "wo_spawns w' = wo_spawns w" "tables (wo_sys w') (wo_spawns w)" "sy_seq (wo_sys w') = sy_seq (wo_sys w)"
  shows "reg_inv (Suc n) w'"
  using assms seq_inv_mono [of n w "Suc n" w'] by (simp add: reg_inv_def)

lemma reg_inv_update:
  assumes "reg_inv n w" "i < length (wo_spawns w)" "tables sy ((wo_spawns w)[i := sp])" "spawn_ok i sp"
    and "seq_inv (Suc n) (w\<lparr>wo_spawns := (wo_spawns w)[i := sp], wo_sys := sy\<rparr>)"
  shows "reg_inv (Suc n) (w\<lparr>wo_spawns := (wo_spawns w)[i := sp], wo_sys := sy\<rparr>)"
  using assms unfolding reg_inv_def by (simp add: nth_list_update del: spawn_ok.simps)

lemma seq_update:
  assumes "seq_inv n w" "i < length (wo_spawns w)" "sy_seq sy = sy_seq (wo_sys w)"
    and "\<And>q. has_seq sp q \<Longrightarrow> has_seq (wo_spawns w ! i) q"
  shows "seq_inv (Suc n) (w\<lparr>wo_spawns := (wo_spawns w)[i := sp], wo_sys := sy\<rparr>)"
  by (rule seq_inv_mono [OF assms(1)]) (use assms in \<open>auto simp: nth_list_update split: if_splits\<close>)

lemma spawn_step_reg:
  assumes "reg_inv n w" "Suc n < 2 ^ 64"
  shows "reg_inv (Suc n) (world_step w (SpawnGo i))"
proof (cases "i < length (wo_spawns w)")
  case True
  let ?sp = "wo_spawns w ! i" and ?r = "spawn_go i (wo_spawns w ! i) (wo_sys w)"
  have step: "world_step w (SpawnGo i) = w\<lparr>wo_spawns := (wo_spawns w)[i := fst ?r], wo_sys := snd ?r\<rparr>"
    using True by (simp only: world_step.simps if_True split_def)
  have r: "seq_inv n w" "tables (wo_sys w) (wo_spawns w)" "spawn_ok i ?sp" using assms True by (simp_all only: reg_inv_def)
  note t = spawn_go_tables [OF r(2) True r(3) seq_inv_sole [OF r(1) True]]
  have "seq_inv (Suc n) (world_step w (SpawnGo i))"
  proof (cases "sp_pc ?sp = SpSeq")
    case seq: True
    then have "sp_guard ?sp = GuardNone" using r(3) by simp
    then show ?thesis using fresh_seq [OF r(1) assms(2) True seq] by simp
  next
    case False
    show ?thesis unfolding step by (rule seq_update [OF r(1) True]) (use spawn_go_seq [OF False] in blast)+
  qed
  then show ?thesis unfolding step using t by (intro reg_inv_update [OF assms(1) True]) blast+
qed (use assms reg_inv_quiet [of n w w] in \<open>simp add: reg_inv_def\<close>)

lemma guard_step_reg:
  assumes "reg_inv n w"
  shows "reg_inv (Suc n) (world_step w (GuardGo i))"
proof (cases "i < length (wo_spawns w)")
  case True
  let ?r = "guard_go (wo_spawns w ! i) (wo_sys w)"
  have step: "world_step w (GuardGo i) = w\<lparr>wo_spawns := (wo_spawns w)[i := fst ?r], wo_sys := snd ?r\<rparr>"
    using True by (simp only: world_step.simps if_True split_def)
  have r: "seq_inv n w" "tables (wo_sys w) (wo_spawns w)" "spawn_ok i (wo_spawns w ! i)"
    using assms True by (simp_all only: reg_inv_def)
  have "seq_inv (Suc n) (world_step w (GuardGo i))"
    unfolding step by (rule seq_update [OF r(1) True]) (use guard_go_seq in blast)+
  then show ?thesis unfolding step using guard_go_tables [OF r(2) True r(3)]
    by (intro reg_inv_update [OF assms True])
qed (use assms reg_inv_quiet [of n w w] in \<open>simp add: reg_inv_def\<close>)

lemma new_spawn_reg:
  assumes "reg_inv n w"
  shows "reg_inv (Suc n) (world_step w (NewSpawn k m ty root grace rt))"
proof -
  let ?sp = "\<lparr>sp_id = k, sp_name = m, sp_type = ty, sp_root = root, sp_grace = grace, sp_runtime = rt, sp_pc = SpBefore,
    sp_guard = GuardNone\<rparr>"
  have r: "seq_inv n w" "tables (wo_sys w) (wo_spawns w)" "\<And>i. i < length (wo_spawns w) \<Longrightarrow> spawn_ok i (wo_spawns w ! i)"
    using assms unfolding reg_inv_def by blast+
  have "\<not> id_claim ?sp q" "\<not> name_claim ?sp q" for q by (simp_all add: id_claim_def name_claim_def)
  then have "tables (wo_sys w) (wo_spawns w @ [?sp])"
    using r(2) owned_append unfolding tables_def ids_owned_def names_owned_def by blast
  moreover have new: "\<not> has_seq ?sp q" for q by (simp add: has_seq_def)
  have "seq_inv (Suc n) (w\<lparr>wo_spawns := wo_spawns w @ [?sp]\<rparr>)"
  proof (rule seq_inv_mono [OF r(1)], goal_cases)
    case (4 i q)
    with new show ?case by (cases "i < length (wo_spawns w)") (auto simp: nth_append less_Suc_eq)
  qed simp_all
  moreover have "spawn_ok i ((wo_spawns w @ [?sp]) ! i)" if "i < Suc (length (wo_spawns w))" for i
  proof (cases "i < length (wo_spawns w)")
    case True
    then show ?thesis using r(3) by (simp only: nth_append if_True)
  next
    case False
    then have "i = length (wo_spawns w)" using that by simp
    then show ?thesis by simp
  qed
  ultimately show ?thesis unfolding reg_inv_def by (simp del: spawn_ok.simps)
qed

lemma quiet_step_reg:
  assumes "reg_inv n w"
    and "op \<in> {NewKiller key ch window, EnterShutdown, SnapshotRoots j, LeaveShutdown j over, Reactivate, OnLane ch lop, ClockTo now}"
  shows "reg_inv (Suc n) (world_step w op)"
proof (rule reg_inv_quiet [OF assms(1)])
  show "wo_spawns (world_step w op) = wo_spawns w" using assms(2) by auto
  have "sy_by_id (wo_sys (world_step w op)) = sy_by_id (wo_sys w)" "sy_by_name (wo_sys (world_step w op)) = sy_by_name (wo_sys w)"
    using assms(2) by (auto simp: shutdown_enter_def shutdown_leave_def reactivate_def Let_def)
  then show "tables (wo_sys (world_step w op)) (wo_spawns w)" using assms(1) by (simp add: reg_inv_def tables_def)
  show "sy_seq (wo_sys (world_step w op)) = sy_seq (wo_sys w)"
    using assms(2) by (auto simp: shutdown_enter_def shutdown_leave_def reactivate_def Let_def)
qed

lemma killer_step_reg:
  assumes "reg_inv n w"
  shows "reg_inv (Suc n) (world_step w (KillerGo j))"
proof (rule reg_inv_quiet [OF assms])
  have "tables (wo_sys w) (wo_spawns w)" using assms by (simp add: reg_inv_def)
  then show "tables (wo_sys (world_step w (KillerGo j))) (wo_spawns w)"
    using killer_go_tables by (simp add: split_def del: killer_go.simps)
qed (simp_all add: split_def killer_go_seq del: killer_go.simps)

lemma world_step_reg:
  assumes "reg_inv n w" "Suc n < 2 ^ 64"
  shows "reg_inv (Suc n) (world_step w op)"
proof (cases op)
  case (NewSpawn k m ty root grace rt)
  then show ?thesis using new_spawn_reg [OF assms(1)] by blast
next
  case (SpawnGo i)
  then show ?thesis using spawn_step_reg [OF assms] by blast
next
  case (GuardGo i)
  then show ?thesis using guard_step_reg [OF assms(1)] by blast
next
  case (KillerGo j)
  then show ?thesis using killer_step_reg [OF assms(1)] by blast
qed (rule quiet_step_reg [OF assms(1)]; blast)+

lemma reg_inv_new: "reg_inv 0 (world_new name now)"
  by (simp add: reg_inv_def seq_inv_def world_new_def system_empty_def tables_def ids_owned_def names_owned_def owned_def)

lemma reg_inv_run: "length ops < 2 ^ 64 \<Longrightarrow> reg_inv (length ops) (run world_step (world_new name now) ops)"
proof (induction ops rule: rev_induct)
  case Nil
  then show ?case by (simp add: reg_inv_new)
next
  case (snoc op ops)
  then have "reg_inv (length ops) (run world_step (world_new name now) ops)" by simp
  from world_step_reg [OF this] snoc.prems show ?case by (simp add: run_append)
qed

section \<open>Kills and aborts\<close>

definition killed :: "actor_system \<Rightarrow> incarnation \<Rightarrow> bool" where
  "killed sy ch \<longleftrightarrow> lane_reason (sy_lanes sy ch) = Some Kill"

fun kill_taken :: "killer_pc \<Rightarrow> bool" where
  "kill_taken KillerArm = True"
| "kill_taken (KillerFeed task after rt) = True"
| "kill_taken KillerAccepted = True"
| "kill_taken _ = False"

fun kill_read :: "spawn_pc \<Rightarrow> bool" where
  "kill_read (SpDueId q e) = True"
| "kill_read (SpDueName q e due) = True"
| "kill_read (SpArm e due) = True"
| "kill_read _ = False"

definition key_of :: "spawn \<Rightarrow> kill_key \<Rightarrow> bool" where
  "key_of sp key \<longleftrightarrow> key = KillId (sp_id sp) \<or> (\<exists>n. sp_name sp = Some n \<and> key = KillName n)"

definition armed_for :: "actor_system \<Rightarrow> incarnation \<Rightarrow> nat \<Rightarrow> bool" where
  "armed_for sy i rt \<longleftrightarrow> (\<exists>a \<in> set (sy_armed sy). ar_task a = i \<and> ar_runtime a = rt)"

fun will_read :: "spawn_pc \<Rightarrow> bool" where
  "will_read (SpAttachId q) = True"
| "will_read (SpAttachName q f) = True"
| "will_read (SpReadLane q e) = True"
| "will_read pc = kill_read pc"

fun feed_ok :: "spawn list \<Rightarrow> killer \<Rightarrow> bool" where
  "feed_ok sps ki =
     (case ki_pc ki of
        KillerFeed task after rt \<Rightarrow> task = ki_channel ki \<and> task < length sps \<and> rt = sp_runtime (sps ! task)
      | _ \<Rightarrow> True)"

definition served :: "actor_system \<Rightarrow> spawn list \<Rightarrow> killer \<Rightarrow> bool" where
  "served sy sps ki \<longleftrightarrow>
     (ki_pc ki = KillerAccepted \<and> ki_channel ki < length sps \<and> key_of (sps ! ki_channel ki) (ki_key ki) \<and>
      (\<exists>q. sp_guard (sps ! ki_channel ki) = GuardHeld q) \<longrightarrow>
      armed_for sy (ki_channel ki) (sp_runtime (sps ! ki_channel ki)) \<or> will_read (sp_pc (sps ! ki_channel ki)))"

definition killer_ok :: "actor_system \<Rightarrow> spawn list \<Rightarrow> killer \<Rightarrow> bool" where
  "killer_ok sy sps ki \<longleftrightarrow>
     (kill_taken (ki_pc ki) \<longrightarrow> killed sy (ki_channel ki)) \<and> feed_ok sps ki \<and> served sy sps ki"

definition kill_inv :: "system_world \<Rightarrow> bool" where
  "kill_inv w \<longleftrightarrow>
     (\<forall>ki \<in> set (wo_killers w). killer_ok (wo_sys w) (wo_spawns w) ki) \<and>
     (\<forall>i < length (wo_spawns w). kill_read (sp_pc (wo_spawns w ! i)) \<longrightarrow> killed (wo_sys w) i) \<and>
     (\<forall>a \<in> set (sy_armed (wo_sys w)). killed (wo_sys w) (ar_task a))"

text \<open>A step keeps a \<open>Kill\<close> on its lane and every scheduled abort.\<close>

definition kill_grows :: "actor_system \<Rightarrow> actor_system \<Rightarrow> bool" where
  "kill_grows sy sy' \<longleftrightarrow> (\<forall>ch. killed sy ch \<longrightarrow> killed sy' ch) \<and> set (sy_armed sy) \<subseteq> set (sy_armed sy')"

lemma kill_growsD: "kill_grows sy sy' \<Longrightarrow> killed sy ch \<Longrightarrow> killed sy' ch" "kill_grows sy sy' \<Longrightarrow> armed_for sy i rt \<Longrightarrow> armed_for sy' i rt"
  by (auto simp: kill_grows_def armed_for_def)

lemma kill_grows_same:
  "sy_lanes sy' = sy_lanes sy \<Longrightarrow> set (sy_armed sy) \<subseteq> set (sy_armed sy') \<Longrightarrow> kill_grows sy sy'"
  by (simp add: kill_grows_def killed_def)

lemma stronger_Kill: "stronger r (Some Kill) = Kill"
  using strength_lt_Kill strength_le_Kill by (fastforce simp: stronger_def)

lemma lane_step_kill: "lane_reason c = Some Kill \<Longrightarrow> lane_reason (lane_step c op) = Some Kill"
  by (cases op) (simp_all add: lane_raise_reason stronger_Kill del: lane_step.simps(2-4))

lemma raise_kill: "ra_result (fst (lane_raise c Kill)) \<noteq> Refused \<Longrightarrow> lane_reason (snd (lane_raise c Kill)) = Some Kill"
  using strength_le_Kill by (cases "lane_refuses c Kill") (auto simp: lane_raise_refused lane_raise_reason stronger_def split: option.splits)

lemma raise_on_grows: "kill_grows sy (snd (raise_on ch r sy))"
  using lane_step_kill [of _ "OpRaise r"] by (auto simp: kill_grows_def killed_def raise_on_def split_def)

lemma killer_ok_grows:
  assumes "killer_ok sy sps ki" "kill_grows sy sy'"
  shows "killer_ok sy' sps ki"
  using assms kill_growsD [OF assms(2)] unfolding killer_ok_def served_def by blast

lemma lanes_frames [simp]:
  "sy_lanes (put_entry key e sy) = sy_lanes sy" "sy_armed (put_entry key e sy) = sy_armed sy"
  "sy_lanes (unregister_by_id k q sy) = sy_lanes sy" "sy_armed (unregister_by_id k q sy) = sy_armed sy"
  "sy_lanes (unregister_by_name nm q sy) = sy_lanes sy" "sy_armed (unregister_by_name nm q sy) = sy_armed sy"
  "sy_lanes (declare_kill key ch window now sy) = sy_lanes sy" "sy_armed (declare_kill key ch window now sy) = sy_armed sy"
  "sy_lanes (snd (attach_at key q t sy)) = sy_lanes sy" "sy_armed (snd (attach_at key q t sy)) = sy_armed sy"
  by (cases key; auto simp: unregister_by_id_def unregister_by_name_def declare_kill_def attach_at_def split: option.splits)+

lemma guard_go_lanes: "sy_lanes (snd (guard_go sp sy)) = sy_lanes sy" "sy_armed (snd (guard_go sp sy)) = sy_armed sy"
  by (cases "sp_guard sp"; auto split: option.splits)+

lemma spawn_go_lanes: "sy_lanes (snd (spawn_go i sp sy)) = sy_lanes sy"
  by (cases "sp_pc sp") (auto simp: claim_name_def next_registration_seq_def arm_kill_backstop_def split_def split: option.splits)

lemma spawn_go_armed:
  "sy_armed (snd (spawn_go i sp sy)) = sy_armed sy @
     (case sp_pc sp of
        SpArm e due \<Rightarrow> [\<lparr>ar_task = i, ar_deadline = saturating_deadline (sy_now sy) (abort_after due (rg_kill_grace e) sy),
          ar_runtime = rg_runtime e\<rparr>]
      | _ \<Rightarrow> [])"
  by (cases "sp_pc sp") (auto simp: claim_name_def next_registration_seq_def arm_kill_backstop_def split_def split: option.splits)

lemma spawn_go_same: "same_spawn sp (fst (spawn_go i sp sy))"
  by (cases "sp_pc sp") (auto simp: same_spawn_def split_def split: option.splits)

lemma guard_go_same: "same_spawn sp (fst (guard_go sp sy))"
  by (cases "sp_guard sp") (auto simp: same_spawn_def split: option.splits)

lemma spawn_go_grows: "kill_grows sy (snd (spawn_go i sp sy))"
  by (rule kill_grows_same [OF spawn_go_lanes]) (simp add: spawn_go_armed del: spawn_go.simps)

lemma matches_runtime: "entry_matches i sp e \<Longrightarrow> rg_runtime e = sp_runtime sp"
  by (simp add: entry_matches_def same_target_def entry_of_def registration_new_def)

text \<open>A spawn that still has to read its lane reads a \<open>Kill\<close> there, and then arms.\<close>

lemma spawn_go_reads:
  assumes "spawn_ok i sp" "killed sy i" "sp_guard (fst (spawn_go i sp sy)) = GuardHeld q" "sp_guard sp = GuardHeld q \<longrightarrow> will_read (sp_pc sp)"
  shows "will_read (sp_pc (fst (spawn_go i sp sy))) \<or> armed_for (snd (spawn_go i sp sy)) i (sp_runtime sp)"
proof (cases "sp_pc sp")
  case (SpArm e due)
  then have "rg_runtime e = sp_runtime sp" using assms(1) by (auto dest: matches_runtime)
  then show ?thesis using SpArm by (simp add: armed_for_def arm_kill_backstop_def)
next
  case (SpReadLane r e)
  then have "rg_channel e = i" using assms(1) by (auto dest: matches_channel)
  then show ?thesis using SpReadLane assms(2) by (simp add: killed_def)
next
  case (SpAttachName r f)
  then have "f \<noteq> None" using assms(1,3) by (auto simp: late_guard_def)
  then show ?thesis using SpAttachName by auto
qed (use assms in \<open>auto simp: claim_name_def split_def split: option.splits if_splits\<close>)

lemma killer_ok_spawn:
  assumes "killer_ok sy sps ki" "i < length sps" "same_spawn (sps ! i) sp" "kill_grows sy sy'"
    and "killed sy i \<Longrightarrow> (\<exists>q. sp_guard sp = GuardHeld q) \<Longrightarrow>
      ((\<exists>q. sp_guard (sps ! i) = GuardHeld q) \<longrightarrow> armed_for sy i (sp_runtime (sps ! i)) \<or> will_read (sp_pc (sps ! i))) \<Longrightarrow>
      will_read (sp_pc sp) \<or> armed_for sy' i (sp_runtime sp)"
  shows "killer_ok sy' (sps[i := sp]) ki"
proof -
  have ok: "killer_ok sy' sps ki" using killer_ok_grows [OF assms(1,4)] .
  then have "feed_ok (sps[i := sp]) ki"
    using assms(2,3) by (auto simp: killer_ok_def nth_list_update same_spawn_def split: killer_pc.splits)
  moreover have "served sy' (sps[i := sp]) ki"
  proof (cases "ki_channel ki = i")
    case True
    then show ?thesis
      using assms unfolding served_def killer_ok_def by (auto simp: key_of_def same_spawn_def)
  next
    case False
    with ok show ?thesis unfolding served_def killer_ok_def by simp
  qed
  ultimately show ?thesis using ok by (simp add: killer_ok_def)
qed

lemma spawn_go_guard:
  assumes "spawn_ok i sp" "sp_guard (fst (spawn_go i sp sy)) = GuardHeld q" "sp_guard sp \<noteq> GuardHeld q"
  shows "will_read (sp_pc (fst (spawn_go i sp sy)))"
  using assms by (cases "sp_pc sp") (auto simp: claim_name_def split_def split: option.splits if_splits)

lemma spawn_go_read_killed:
  assumes "spawn_ok i sp" "kill_read (sp_pc sp) \<Longrightarrow> killed sy i" "kill_read (sp_pc (fst (spawn_go i sp sy)))"
  shows "killed sy i"
  using assms by (cases "sp_pc sp")
    (auto simp: claim_name_def split_def killed_def split: option.splits if_splits dest: matches_channel)

lemma spawn_step_kill:
  assumes "kill_inv w" "reg_inv n w"
  shows "kill_inv (world_step w (SpawnGo i))"
proof (cases "i < length (wo_spawns w)")
  case True
  let ?sp = "wo_spawns w ! i" and ?r = "spawn_go i (wo_spawns w ! i) (wo_sys w)"
  have step: "world_step w (SpawnGo i) = w\<lparr>wo_spawns := (wo_spawns w)[i := fst ?r], wo_sys := snd ?r\<rparr>"
    using True by (simp only: world_step.simps if_True split_def)
  have ok: "spawn_ok i ?sp" using assms(2) True by (simp only: reg_inv_def)
  have k: "\<And>ki. ki \<in> set (wo_killers w) \<Longrightarrow> killer_ok (wo_sys w) (wo_spawns w) ki"
    "\<And>j. j < length (wo_spawns w) \<Longrightarrow> kill_read (sp_pc (wo_spawns w ! j)) \<Longrightarrow> killed (wo_sys w) j"
    "\<And>a. a \<in> set (sy_armed (wo_sys w)) \<Longrightarrow> killed (wo_sys w) (ar_task a)"
    using assms(1) unfolding kill_inv_def by blast+
  have same: "killed (snd ?r) ch = killed (wo_sys w) ch" for ch by (simp add: killed_def spawn_go_lanes del: spawn_go.simps)
  have "killer_ok (snd ?r) ((wo_spawns w)[i := fst ?r]) ki" if "ki \<in> set (wo_killers w)" for ki
  proof (rule killer_ok_spawn [OF k(1) [OF that] True spawn_go_same spawn_go_grows])
    assume a: "killed (wo_sys w) i" "\<exists>q. sp_guard (fst ?r) = GuardHeld q"
      "(\<exists>q. sp_guard ?sp = GuardHeld q) \<longrightarrow> armed_for (wo_sys w) i (sp_runtime ?sp) \<or> will_read (sp_pc ?sp)"
    then obtain q where q: "sp_guard (fst ?r) = GuardHeld q" by blast
    have rt: "sp_runtime (fst ?r) = sp_runtime ?sp" using spawn_go_same unfolding same_spawn_def by blast
    show "will_read (sp_pc (fst ?r)) \<or> armed_for (snd ?r) i (sp_runtime (fst ?r))"
    proof (cases "armed_for (wo_sys w) i (sp_runtime ?sp)")
      case True
      then show ?thesis unfolding rt using kill_growsD(2) [OF spawn_go_grows] by blast
    next
      case False
      then have "sp_guard ?sp = GuardHeld q \<longrightarrow> will_read (sp_pc ?sp)" using a(3) by blast
      then show ?thesis unfolding rt using spawn_go_reads [OF ok a(1) q] by blast
    qed
  qed
  moreover have "killed (wo_sys w) j"
    if "j < length (wo_spawns w)" "kill_read (sp_pc ((wo_spawns w)[i := fst ?r] ! j))" for j
  proof (cases "j = i")
    case j: True
    with that True have "kill_read (sp_pc (fst ?r))" by (simp only: nth_list_update_eq)
    then show ?thesis using spawn_go_read_killed [OF ok k(2) [OF True]] j by blast
  next
    case False
    then show ?thesis using that k(2) by (simp only: nth_list_update_neq)
  qed
  moreover have "killed (wo_sys w) (ar_task a)" if "a \<in> set (sy_armed (snd ?r))" for a
  proof (cases "sp_pc ?sp")
    case (SpArm e due)
    then have "killed (wo_sys w) i" using k(2) [OF True] by simp
    then show ?thesis using that k(3) SpArm by (auto simp: spawn_go_armed simp del: spawn_go.simps)
  qed (use that k(3) in \<open>simp_all add: spawn_go_armed del: spawn_go.simps\<close>)
  ultimately show ?thesis unfolding step kill_inv_def by (simp add: same del: spawn_go.simps)
qed (use assms in simp)

lemma guard_step_kill:
  assumes "kill_inv w"
  shows "kill_inv (world_step w (GuardGo i))"
proof (cases "i < length (wo_spawns w)")
  case True
  let ?sp = "wo_spawns w ! i" and ?r = "guard_go (wo_spawns w ! i) (wo_sys w)"
  have step: "world_step w (GuardGo i) = w\<lparr>wo_spawns := (wo_spawns w)[i := fst ?r], wo_sys := snd ?r\<rparr>"
    using True by (simp only: world_step.simps if_True split_def)
  have same: "killed (snd ?r) ch = killed (wo_sys w) ch" for ch by (simp add: killed_def guard_go_lanes del: guard_go.simps)
  have grows: "kill_grows (wo_sys w) (snd ?r)" by (rule kill_grows_same) (simp_all only: guard_go_lanes order_refl)
  have pc: "sp_pc (fst ?r) = sp_pc ?sp" "sp_guard (fst ?r) \<noteq> GuardHeld q" for q by (cases "sp_guard ?sp"; simp)+
  have "killer_ok (snd ?r) ((wo_spawns w)[i := fst ?r]) ki" if "ki \<in> set (wo_killers w)" for ki
    by (rule killer_ok_spawn [OF _ True guard_go_same grows]) (use assms that pc in \<open>auto simp: kill_inv_def simp del: guard_go.simps\<close>)
  moreover have "sp_pc ((wo_spawns w)[i := fst ?r] ! j) = sp_pc (wo_spawns w ! j)" for j
    using True pc(1) by (cases "j = i") (simp_all del: guard_go.simps)
  ultimately show ?thesis
    using assms unfolding step kill_inv_def by (simp add: same guard_go_lanes del: guard_go.simps)
qed (use assms in simp)

text \<open>A raiser finds its incarnation's handle once it is attached, and else the attach is still to read the lane.\<close>

lemma kill_target_own:
  assumes "tables sy sps" "kill_target_for key ch sy = Some (Some task, grace, rt)"
  shows "task = ch" "ch < length sps" "rt = sp_runtime (sps ! ch)"
proof -
  obtain e where e: "entry_at key sy = Some e" "rg_channel e = ch" "rg_abort e = Some task" "rg_runtime e = rt"
    using assms(2) by (auto simp: kill_target_for_def entry_for_def split: option.splits if_splits)
  have "rg_channel e < length sps \<and> entry_matches (rg_channel e) (sps ! rg_channel e) e \<and> (rg_abort e = Some (rg_channel e) \<or> rg_abort e = None)"
  proof (cases key)
    case (KillId k)
    then have "ids_owned (sy_by_id sy) sps" "hget (sy_by_id sy) k = Some e" using assms(1) e(1) by (simp_all add: tables_def)
    from idsD [OF this] show ?thesis by simp
  next
    case (KillName n)
    then have "names_owned (sy_by_name sy) sps" "hget (sy_by_name sy) n = Some e" using assms(1) e(1) by (simp_all add: tables_def)
    from namesD [OF this] show ?thesis by simp
  qed
  with e show "task = ch" "ch < length sps" "rt = sp_runtime (sps ! ch)" by (auto dest: matches_runtime)
qed

lemma kill_target_pending:
  assumes "tables sy sps" "spawn_ok i (sps ! i)" "i < length sps" "key_of (sps ! i) key" "sp_guard (sps ! i) = GuardHeld q"
    and "\<nexists>task grace rt. kill_target_for key i sy = Some (Some task, grace, rt)"
  shows "will_read (sp_pc (sps ! i))"
proof -
  have ids: "ids_owned (sy_by_id sy) sps" and names: "names_owned (sy_by_name sy) sps"
    using assms(1) by (simp_all add: tables_def)
  consider "key = KillId (sp_id (sps ! i))" | n where "sp_name (sps ! i) = Some n" "key = KillName n"
    using assms(4) by (auto simp: key_of_def)
  then have "\<not> name_attached (sp_pc (sps ! i))"
  proof cases
    case 1
    obtain e where e: "hget (sy_by_id sy) (sp_id (sps ! i)) = Some e" "rg_channel e = i" using own_id_entry [OF ids assms(3,5)] by blast
    have "rg_abort e = None" using assms(6) e 1 by (auto simp: kill_target_for_def entry_for_def)
    with idsD(5) [OF ids e(1)] e(2) show ?thesis by (auto split: if_splits elim: name_attached.elims)
  next
    case 2
    have "name_claim (sps ! i) q" using assms(5) by (simp add: name_claim_def)
    then obtain e where e: "hget (sy_by_name sy) n = Some e" "rg_channel e = i"
      using own_name_entry [OF names assms(3) 2(1) assms(2)] by blast
    have "rg_abort e = None" using assms(6) e 2 by (auto simp: kill_target_for_def entry_for_def)
    with namesD(5) [OF names e(1)] e(2) show ?thesis by (auto split: if_splits)
  qed
  with assms(2,5) show ?thesis by (auto split: spawn_pc.splits)
qed

lemma killer_go_same: "ki_channel (fst (killer_go ki sy)) = ki_channel ki" "ki_key (fst (killer_go ki sy)) = ki_key ki"
  by (cases "ki_pc ki"; auto simp: split_def split: option.splits)+

lemma killer_go_grows: "kill_grows sy (snd (killer_go ki sy))"
proof (cases "ki_pc ki")
  case KillerRaise
  then show ?thesis using raise_on_grows by (simp add: split_def)
next
  case KillerArm
  then show ?thesis by (auto split: option.splits intro: kill_grows_same)
qed (auto intro: kill_grows_same simp: arm_kill_backstop_def)

lemma killer_go_armed:
  "sy_armed (snd (killer_go ki sy)) = sy_armed sy @
     (case ki_pc ki of
        KillerFeed task after rt \<Rightarrow> [\<lparr>ar_task = task, ar_deadline = saturating_deadline (sy_now sy) after, ar_runtime = rt\<rparr>]
      | _ \<Rightarrow> [])"
  by (cases "ki_pc ki") (auto simp: raise_on_def arm_kill_backstop_def split_def split: option.splits)

lemma killer_go_ok:
  assumes "killer_ok sy sps ki" "tables sy sps" "\<And>i. i < length sps \<Longrightarrow> spawn_ok i (sps ! i)"
  shows "killer_ok (snd (killer_go ki sy)) sps (fst (killer_go ki sy))"
proof (cases "ki_pc ki")
  case KillerRaise
  then show ?thesis
    using raise_kill [of "sy_lanes sy (ki_channel ki)"]
    by (auto simp: killer_ok_def served_def raise_on_def split_def killed_def)
next
  case KillerArm
  have killed: "killed sy (ki_channel ki)" using assms(1) KillerArm by (simp add: killer_ok_def)
  show ?thesis
  proof (cases "\<exists>task grace rt. kill_target_for (ki_key ki) (ki_channel ki) sy = Some (Some task, grace, rt)")
    case True
    then obtain task grace rt where t: "kill_target_for (ki_key ki) (ki_channel ki) sy = Some (Some task, grace, rt)" by blast
    from kill_target_own [OF assms(2) this] t killed KillerArm show ?thesis by (simp add: killer_ok_def served_def)
  next
    case False
    then have go: "killer_go ki sy = (ki\<lparr>ki_pc := KillerAccepted\<rparr>, sy)"
      using KillerArm by (auto split: option.splits)
    have "will_read (sp_pc (sps ! ki_channel ki))"
      if "ki_channel ki < length sps" "key_of (sps ! ki_channel ki) (ki_key ki)" "sp_guard (sps ! ki_channel ki) = GuardHeld q" for q
      using kill_target_pending [OF assms(2) assms(3) [OF that(1)] that False] .
    then show ?thesis unfolding go using killed by (auto simp: killer_ok_def served_def)
  qed
next
  case (KillerFeed task after rt)
  then have "killed sy (ki_channel ki)" "task = ki_channel ki" "rt = sp_runtime (sps ! task)"
    using assms(1) by (simp_all add: killer_ok_def)
  then show ?thesis using KillerFeed
    by (simp add: killer_ok_def served_def armed_for_def arm_kill_backstop_def killed_def)
qed (use assms(1) in \<open>auto simp: killer_ok_def served_def killed_def\<close>)

lemma killer_step_kill:
  assumes "kill_inv w" "reg_inv n w"
  shows "kill_inv (world_step w (KillerGo j))"
proof (cases "j < length (wo_killers w)")
  case True
  let ?ki = "wo_killers w ! j" and ?r = "killer_go (wo_killers w ! j) (wo_sys w)"
  have step: "world_step w (KillerGo j) = w\<lparr>wo_killers := (wo_killers w)[j := fst ?r], wo_sys := snd ?r\<rparr>"
    using True by (simp only: world_step.simps if_True split_def)
  have t: "tables (wo_sys w) (wo_spawns w)" "\<And>i. i < length (wo_spawns w) \<Longrightarrow> spawn_ok i (wo_spawns w ! i)"
    using assms(2) unfolding reg_inv_def by blast+
  have k: "\<And>ki. ki \<in> set (wo_killers w) \<Longrightarrow> killer_ok (wo_sys w) (wo_spawns w) ki"
    "\<And>j. j < length (wo_spawns w) \<Longrightarrow> kill_read (sp_pc (wo_spawns w ! j)) \<Longrightarrow> killed (wo_sys w) j"
    "\<And>a. a \<in> set (sy_armed (wo_sys w)) \<Longrightarrow> killed (wo_sys w) (ar_task a)"
    using assms(1) unfolding kill_inv_def by blast+
  note g = killer_go_grows [of "wo_sys w" ?ki]
  have "killer_ok (snd ?r) (wo_spawns w) ki" if "ki \<in> set ((wo_killers w)[j := fst ?r])" for ki
  proof -
    have "ki = fst ?r \<or> ki \<in> set (wo_killers w)" using that set_update_subset_insert by fastforce
    then show ?thesis
      using killer_go_ok [OF k(1) [OF nth_mem [OF True]] t] killer_ok_grows [OF k(1) g] by blast
  qed
  moreover have "killed (snd ?r) i" if "i < length (wo_spawns w)" "kill_read (sp_pc (wo_spawns w ! i))" for i
    using kill_growsD(1) [OF g k(2) [OF that]] .
  moreover have "killed (snd ?r) (ar_task a)" if "a \<in> set (sy_armed (snd ?r))" for a
  proof (cases "a \<in> set (sy_armed (wo_sys w))")
    case True
    then show ?thesis using kill_growsD(1) [OF g k(3)] by blast
  next
    case False
    with that obtain task after rt where f: "ki_pc ?ki = KillerFeed task after rt" "ar_task a = task"
      by (cases "ki_pc ?ki") (simp_all add: killer_go_armed del: killer_go.simps)
    with k(1) [OF nth_mem [OF True]] have "killed (wo_sys w) (ar_task a)" by (simp add: killer_ok_def)
    then show ?thesis using kill_growsD(1) [OF g] by blast
  qed
  ultimately show ?thesis unfolding step kill_inv_def by (simp del: killer_go.simps)
qed (use assms in simp)

lemma kill_inv_quiet:
  assumes "kill_inv w" "wo_killers w' = wo_killers w" "wo_spawns w' = wo_spawns w"
    and "kill_grows (wo_sys w) (wo_sys w')" "sy_armed (wo_sys w') = sy_armed (wo_sys w)"
  shows "kill_inv w'"
  using assms killer_ok_grows [OF _ assms(4)] kill_growsD(1) [OF assms(4)] unfolding kill_inv_def by metis

lemma quiet_step_kill:
  assumes "kill_inv w" "op \<in> {EnterShutdown, SnapshotRoots j, LeaveShutdown j over, Reactivate, OnLane ch lop, ClockTo now}"
  shows "kill_inv (world_step w op)"
proof (rule kill_inv_quiet [OF assms(1)])
  have "killed (wo_sys (world_step w op)) c" if "killed (wo_sys w) c" for c
    using assms(2) that lane_step_kill [of "sy_lanes (wo_sys w) ch" lop]
    by (auto simp: killed_def shutdown_enter_def shutdown_leave_def reactivate_def Let_def simp del: lane_step.simps)
  moreover show armed: "sy_armed (wo_sys (world_step w op)) = sy_armed (wo_sys w)"
    using assms(2) by (auto simp: shutdown_enter_def shutdown_leave_def reactivate_def Let_def)
  ultimately show "kill_grows (wo_sys w) (wo_sys (world_step w op))" by (simp only: kill_grows_def order_refl) blast
qed (use assms(2) in auto)

lemma new_spawn_kill:
  assumes "kill_inv w"
  shows "kill_inv (world_step w (NewSpawn k m ty root grace rt))"
proof -
  let ?sp = "\<lparr>sp_id = k, sp_name = m, sp_type = ty, sp_root = root, sp_grace = grace, sp_runtime = rt, sp_pc = SpBefore,
    sp_guard = GuardNone\<rparr>"
  have "killer_ok (wo_sys w) (wo_spawns w @ [?sp]) ki" if "killer_ok (wo_sys w) (wo_spawns w) ki" for ki
  proof -
    have "feed_ok (wo_spawns w @ [?sp]) ki"
      using that by (auto simp: killer_ok_def nth_append split: killer_pc.splits)
    moreover have "served (wo_sys w) (wo_spawns w @ [?sp]) ki"
      using that by (cases "ki_channel ki < length (wo_spawns w)") (auto simp: killer_ok_def served_def nth_append less_Suc_eq)
    ultimately show ?thesis using that by (simp add: killer_ok_def)
  qed
  moreover have "kill_read (sp_pc ((wo_spawns w @ [?sp]) ! i)) \<Longrightarrow> i < length (wo_spawns w @ [?sp]) \<Longrightarrow> killed (wo_sys w) i" for i
    using assms by (cases "i < length (wo_spawns w)") (auto simp: kill_inv_def nth_append less_Suc_eq)
  ultimately show ?thesis using assms by (simp add: kill_inv_def)
qed

lemma new_killer_kill: "kill_inv w \<Longrightarrow> kill_inv (world_step w (NewKiller key ch window))"
  by (auto simp: kill_inv_def killer_ok_def served_def)

lemma world_step_kill:
  assumes "kill_inv w" "reg_inv n w"
  shows "kill_inv (world_step w op)"
proof (cases op)
  case (NewSpawn k m ty root grace rt)
  then show ?thesis using new_spawn_kill [OF assms(1)] by blast
next
  case (SpawnGo i)
  then show ?thesis using spawn_step_kill [OF assms] by blast
next
  case (GuardGo i)
  then show ?thesis using guard_step_kill [OF assms(1)] by blast
next
  case (NewKiller key ch window)
  then show ?thesis using new_killer_kill [OF assms(1)] by blast
next
  case (KillerGo j)
  then show ?thesis using killer_step_kill [OF assms] by blast
qed (rule quiet_step_kill [OF assms(1)]; blast)+

lemma kill_inv_run:
  assumes "length ops < 2 ^ 64"
  shows "kill_inv (run world_step (world_new name now) ops)"
  using assms
proof (induction ops rule: rev_induct)
  case Nil
  then show ?case by (simp add: kill_inv_def world_new_def system_empty_def)
next
  case (snoc op ops)
  then have l: "length ops < 2 ^ 64" by simp
  show ?case using world_step_kill [OF snoc.IH [OF l] reg_inv_run [OF l]] by simp
qed

section \<open>Property\<close>

text \<open>
  C9. A \<open>Kill\<close> the stop lane accepted is always followed by the task's abort: once a raiser's call has returned and
  the spawn's attach is over, with the actor still registered, an abort of that actor's task is scheduled on the
  runtime the actor was spawned on, in every interleaving of the raise with the registration and the attach.
  No abort is scheduled for a task whose lane holds no \<open>Kill\<close>.
\<close>

theorem accepted_kill_is_armed:
  assumes "w = run world_step (world_new name now) ops" "length ops < 2 ^ 64"
    and "i < length (wo_spawns w)" "sp_pc (wo_spawns w ! i) = SpAttached" "sp_guard (wo_spawns w ! i) = GuardHeld q"
    and "j < length (wo_killers w)" "ki_pc (wo_killers w ! j) = KillerAccepted" "ki_channel (wo_killers w ! j) = i"
    and "key_of (wo_spawns w ! i) (ki_key (wo_killers w ! j))"
  shows "(i, sp_runtime (wo_spawns w ! i)) \<in> set (map (\<lambda>a. (ar_task a, ar_runtime a)) (sy_armed (wo_sys w))) \<and>
    list_all (\<lambda>a. lane_reason (sy_lanes (wo_sys w) (ar_task a)) = Some Kill) (sy_armed (wo_sys w))"
proof -
  have k: "kill_inv w" unfolding assms(1) by (rule kill_inv_run [OF assms(2)])
  then have "served (wo_sys w) (wo_spawns w) (wo_killers w ! j)"
    using assms(6) nth_mem unfolding kill_inv_def killer_ok_def by blast
  then have "armed_for (wo_sys w) i (sp_runtime (wo_spawns w ! i))"
    using assms(3-9) unfolding served_def by auto
  with k show ?thesis unfolding kill_inv_def killed_def armed_for_def by (force simp: list_all_iff)
qed

text \<open>The raise lands between the two inserts of the attach: the attach reads it and arms.\<close>

theorem accepted_kill_is_armed_witness:
  "(0, 7) \<in> set (map (\<lambda>a. (ar_task a, ar_runtime a)) (sy_armed (wo_sys (run world_step (world_new ''s'' 0)
     [NewSpawn ''a'' None 0 True 5 7, SpawnGo 0, SpawnGo 0, SpawnGo 0, SpawnGo 0, NewKiller (KillId ''a'') 0 None, KillerGo 0,
      KillerGo 0, KillerGo 0, KillerGo 0, SpawnGo 0, SpawnGo 0, SpawnGo 0, SpawnGo 0, SpawnGo 0, SpawnGo 0]))))"
  using accepted_kill_is_armed [of _ "''s''" 0
      "[NewSpawn ''a'' None 0 True 5 7, SpawnGo 0, SpawnGo 0, SpawnGo 0, SpawnGo 0, NewKiller (KillId ''a'') 0 None, KillerGo 0,
      KillerGo 0, KillerGo 0, KillerGo 0, SpawnGo 0, SpawnGo 0, SpawnGo 0, SpawnGo 0, SpawnGo 0, SpawnGo 0]" 0 0 0, OF refl]
  by (simp add: world_new_def system_empty_def claim_name_def next_registration_seq_def entry_of_def registration_new_def
      system_active_def declare_kill_def entry_for_def entry_declare_kill_def raise_on_def kill_target_for_def attach_at_def
      key_of_def lane_op_defs lane_reason_def lane_cell_new_def Let_def)

end
