(* ===== verification/Timer_Schedule.thy ===== *)
theory Timer_Schedule
  imports Stop_Budgets
begin

text \<open>
  The schedule of timers (\<open>ScheduleBuilder\<close> and \<open>adjust_next\<close> in \<open>src/src/actor/context.rs\<close>): the deadline of a one-shot
  timer, and where a recurring timer goes after a tick under each \<open>MissPolicy\<close>.  The burst of \<open>CatchUp\<close> asks the cancel
  token, the factory and the mailbox once per missed tick; their answers are an input, one per round.  Shown: \<open>Skip\<close>
  computes the deadline the burst of \<open>CatchUp\<close> walks to, and the burst ends and loses no tick.
\<close>

section \<open>Deadlines\<close>

datatype miss_policy = MissSkip | MissCatchUp | MissDelay

definition schedule_at :: "instant \<Rightarrow> instant \<Rightarrow> instant" where
  "schedule_at now when = (if now < when then saturating_deadline now (nat (when - now)) else when)"

definition schedule_after :: "instant \<Rightarrow> duration \<Rightarrow> instant" where
  "schedule_after now delay = saturating_deadline now delay"

definition checked_mul_duration :: "duration \<Rightarrow> nat \<Rightarrow> duration option" where
  [rust_std]: "checked_mul_duration d n = (if d * n \<le> duration_max then Some (d * n) else None)"

definition skip_next :: "instant \<Rightarrow> duration \<Rightarrow> instant \<Rightarrow> instant" where
  "skip_next now interval next0 =
     (let behind = saturating_duration_since now next0;
          periods = behind div interval + 1
      in case (if periods < 2 ^ 32 then checked_mul_duration interval periods else None) of
           Some advance \<Rightarrow> saturating_deadline next0 advance
         | None \<Rightarrow> saturating_deadline now interval)"

text \<open>One round of the burst: the token is cancelled, the factory panics, or the mailbox answers the tick.\<close>

datatype forward_answer = Forwarded | ForwardFull "string option" | ForwardClosed

datatype burst_input = BurstCancelled | BurstFactoryPanics string | BurstAnswer forward_answer

datatype adjusted = AdjustedNext | AdjustedRefused | AdjustedPanicked string | AdjustUnwound string

fun burst_stop :: "burst_input \<Rightarrow> adjusted option" where
  "burst_stop BurstCancelled = Some AdjustedNext"
| "burst_stop (BurstFactoryPanics p) = Some (AdjustUnwound p)"
| "burst_stop (BurstAnswer Forwarded) = None"
| "burst_stop (BurstAnswer (ForwardFull (Some p))) = Some (AdjustedPanicked p)"
| "burst_stop (BurstAnswer (ForwardFull None)) = Some AdjustedNext"
| "burst_stop (BurstAnswer ForwardClosed) = Some AdjustedRefused"

text \<open>The burst: how it ended, the next deadline and the ticks it sent; \<open>None\<close> when the inputs ran out before it ended.\<close>

fun burst :: "instant \<Rightarrow> duration \<Rightarrow> instant \<Rightarrow> burst_input list \<Rightarrow> (adjusted \<times> instant \<times> nat) option" where
  "burst now interval next0 ins =
     (if now < next0 then Some (AdjustedNext, next0, 0)
      else case ins of
          [] \<Rightarrow> None
        | i # rest \<Rightarrow>
            (case burst_stop i of
               Some r \<Rightarrow> Some (r, next0, 0)
             | None \<Rightarrow> map_option (\<lambda>(r, t, n). (r, t, Suc n)) (burst now interval (saturating_deadline next0 interval) rest)))"

declare burst.simps [simp del]

definition adjust_next ::
  "miss_policy \<Rightarrow> instant \<Rightarrow> duration \<Rightarrow> instant \<Rightarrow> burst_input list \<Rightarrow> (adjusted \<times> instant \<times> nat) option" where
  "adjust_next policy now interval next0 ins =
     (case policy of
        MissSkip \<Rightarrow> Some (AdjustedNext, skip_next now interval next0, 0)
      | MissDelay \<Rightarrow> Some (AdjustedNext, saturating_deadline now interval, 0)
      | MissCatchUp \<Rightarrow> burst now interval (saturating_deadline next0 interval) ins)"

section \<open>The grid\<close>

text \<open>The periods from a deadline to the first grid point after \<open>now\<close>.\<close>

definition periods_to :: "instant \<Rightarrow> duration \<Rightarrow> instant \<Rightarrow> nat" where
  "periods_to now interval next0 = nat (now - next0) div interval + 1"

lemma periods_to_bounds:
  assumes "0 < interval" "next0 \<le> now"
  shows "now < next0 + int (interval * periods_to now interval next0)"
    "next0 + int (interval * periods_to now interval next0) - int interval \<le> now"
proof -
  let ?b = "nat (now - next0)"
  have b: "int ?b = now - next0" using assms(2) by simp
  have "?b < interval * (?b div interval + 1)"
    using assms(1) by (metis add.commute div_less_iff_less_mult less_add_one mult.commute)
  then have "int ?b < int (interval * (?b div interval + 1))" by (simp only: of_nat_less_iff)
  with b show "now < next0 + int (interval * periods_to now interval next0)" unfolding periods_to_def by linarith
  have "interval * (?b div interval) \<le> ?b" by simp
  then have "int (interval * (?b div interval)) \<le> int ?b" by (simp only: of_nat_le_iff)
  moreover have "int (interval * (?b div interval + 1)) = int (interval * (?b div interval)) + int interval" by (simp add: algebra_simps)
  ultimately show "next0 + int (interval * periods_to now interval next0) - int interval \<le> now"
    using b unfolding periods_to_def by linarith
qed

lemma saturating_deadline_exact:
  "d \<le> FAR_FUTURE \<Longrightarrow> t + int d < instant_bound \<Longrightarrow> saturating_deadline t d = t + int d"
  by (simp add: saturating_deadline_def checked_add_instant_def)

lemma skip_next_grid:
  assumes "next0 \<le> now" "periods_to now interval next0 < 2 ^ 32" "interval * periods_to now interval next0 \<le> FAR_FUTURE"
    and "next0 + int (interval * periods_to now interval next0) < instant_bound"
  shows "skip_next now interval next0 = next0 + int (interval * periods_to now interval next0)"
proof -
  have "saturating_duration_since now next0 div interval + 1 = periods_to now interval next0"
    using assms(1) by (simp add: saturating_duration_since_def periods_to_def)
  moreover have "interval * periods_to now interval next0 \<le> duration_max"
    using assms(3) by (simp add: FAR_FUTURE_def duration_max_def secs_def nanos_per_sec_def)
  ultimately show ?thesis
    using assms by (simp add: skip_next_def checked_mul_duration_def saturating_deadline_exact Let_def)
qed

text \<open>The burst, whatever its answers: it sends a prefix of the missed ticks and stops at the first one not sent.\<close>

lemma burst_walks:
  assumes "0 < interval" "interval \<le> FAR_FUTURE" "now + int FAR_FUTURE < instant_bound"
    and "now < next0 + int (interval * k)" "k \<le> length ins"
  shows "\<exists>r n. burst now interval next0 ins = Some (r, next0 + int (interval * n), n) \<and> n \<le> k \<and>
    take n ins = replicate n (BurstAnswer Forwarded) \<and>
    (if now < next0 + int (interval * n) then r = AdjustedNext else n < length ins \<and> burst_stop (ins ! n) = Some r)"
  using assms(4,5)
proof (induction k arbitrary: next0 ins)
  case 0
  then show ?case by (subst burst.simps) (intro exI [of _ AdjustedNext] exI [of _ 0], simp)
next
  case (Suc k)
  from Suc.prems obtain i rest where ins: "ins = i # rest" by (cases ins) auto
  consider "now < next0" | r where "\<not> now < next0" "burst_stop i = Some r" | "\<not> now < next0" "burst_stop i = None"
    by fastforce
  then show ?case
  proof cases
    case 1
    then show ?thesis by (subst burst.simps) (intro exI [of _ AdjustedNext] exI [of _ 0], simp)
  next
    case 2
    then show ?thesis using ins by (subst burst.simps) (intro exI [of _ r] exI [of _ 0], simp)
  next
    case 3
    have i: "i = BurstAnswer Forwarded" using 3(2) by (cases i rule: burst_stop.cases) auto
    have d: "saturating_deadline next0 interval = next0 + int interval"
      using assms 3(1) by (intro saturating_deadline_exact) linarith+
    have "now < (next0 + int interval) + int (interval * k)" using Suc.prems(1) by (simp add: algebra_simps)
    moreover have "k \<le> length rest" using Suc.prems(2) ins by simp
    ultimately obtain r n where rn: "burst now interval (next0 + int interval) rest = Some (r, next0 + int interval + int (interval * n), n)"
      "n \<le> k" "take n rest = replicate n (BurstAnswer Forwarded)"
      "if now < next0 + int interval + int (interval * n) then r = AdjustedNext else n < length rest \<and> burst_stop (rest ! n) = Some r"
      using Suc.IH by blast
    have e: "next0 + int interval + int (interval * n) = next0 + int (interval * Suc n)" by (simp add: algebra_simps)
    have "burst now interval next0 ins = Some (r, next0 + int (interval * Suc n), Suc n)"
      using 3 ins d rn(1) unfolding e by (subst burst.simps) simp
    then show ?thesis using rn(2-4) ins i unfolding e by (intro exI [of _ r] exI [of _ "Suc n"]) simp
  qed
qed

text \<open>
  The burst of \<open>CatchUp\<close> ends and loses no tick: given an answer for every missed tick it returns within them, whatever
  the answers, and its next deadline is that of the first tick it has not sent; it stops early only where an answer
  stops it.
\<close>

lemma catch_up_walks:
  assumes "0 < interval" "interval \<le> FAR_FUTURE" "now + int FAR_FUTURE < instant_bound" "next0 \<le> now"
    and "periods_to now interval next0 \<le> Suc (length ins)"
  shows "\<exists>r n. adjust_next MissCatchUp now interval next0 ins = Some (r, next0 + int (interval * Suc n), n) \<and>
    n < periods_to now interval next0 \<and> take n ins = replicate n (BurstAnswer Forwarded) \<and>
    (if now < next0 + int (interval * Suc n) then r = AdjustedNext else n < length ins \<and> burst_stop (ins ! n) = Some r)"
proof -
  let ?k = "periods_to now interval next0"
  have k: "?k = Suc (?k - 1)" by (simp add: periods_to_def)
  have d: "saturating_deadline next0 interval = next0 + int interval"
    using assms by (intro saturating_deadline_exact) linarith+
  have e: "next0 + int interval + int (interval * n) = next0 + int (interval * Suc n)" for n by (simp add: algebra_simps)
  have "now < next0 + int interval + int (interval * (?k - 1))"
    unfolding e using periods_to_bounds(1) [OF assms(1,4)] k by simp
  moreover have "?k - 1 \<le> length ins" using assms(5) by simp
  ultimately obtain r n where
    "burst now interval (next0 + int interval) ins = Some (r, next0 + int interval + int (interval * n), n)" "n \<le> ?k - 1"
    "take n ins = replicate n (BurstAnswer Forwarded)"
    "if now < next0 + int interval + int (interval * n) then r = AdjustedNext else n < length ins \<and> burst_stop (ins ! n) = Some r"
    using burst_walks [OF assms(1-3)] by blast
  with k show ?thesis unfolding e by (intro exI [of _ r] exI [of _ n]) (simp add: adjust_next_def d)
qed

section \<open>Property\<close>

text \<open>
  C36. \<open>Skip\<close> computes in constant time what a walk over the missed ticks gives: for a timer behind by less than thirty
  years and \<open>2 ^ 32 - 1\<close> periods, its next deadline is the first grid point after now, and it is the deadline at which the
  burst of \<open>CatchUp\<close> arrives once it has sent every missed tick.
\<close>

theorem skip_meets_catch_up:
  assumes "0 < interval" "next0 \<le> now" "now + int FAR_FUTURE < instant_bound"
    and "periods_to now interval next0 < 2 ^ 32" "interval * periods_to now interval next0 \<le> FAR_FUTURE"
  shows "now < skip_next now interval next0 \<and> skip_next now interval next0 - int interval \<le> now \<and>
    adjust_next MissSkip now interval next0 [] = Some (AdjustedNext, next0 + int (interval * periods_to now interval next0), 0) \<and>
    adjust_next MissCatchUp now interval next0 (replicate (periods_to now interval next0 - 1) (BurstAnswer Forwarded)) =
      Some (AdjustedNext, skip_next now interval next0, periods_to now interval next0 - 1)"
proof -
  let ?k = "periods_to now interval next0" and ?ins = "replicate (periods_to now interval next0 - 1) (BurstAnswer Forwarded)"
  note b = periods_to_bounds [OF assms(1,2)]
  have "next0 + int (interval * ?k) < instant_bound" using assms(2,3,5) by linarith
  then have skip: "skip_next now interval next0 = next0 + int (interval * ?k)"
    using skip_next_grid assms by blast
  have "interval * 1 \<le> interval * ?k" by (simp add: periods_to_def)
  then have "interval \<le> FAR_FUTURE" using assms(5) by linarith
  moreover have "?k \<le> Suc (length ?ins)" by simp
  ultimately obtain r n where
    rn: "adjust_next MissCatchUp now interval next0 ?ins = Some (r, next0 + int (interval * Suc n), n)" "n < ?k"
    "if now < next0 + int (interval * Suc n) then r = AdjustedNext else n < length ?ins \<and> burst_stop (?ins ! n) = Some r"
    using catch_up_walks [OF assms(1) _ assms(3,2)] by blast
  have "now < next0 + int (interval * Suc n)" using rn(3) by (auto split: if_splits)
  moreover have "\<not> Suc n \<le> ?k - 1"
  proof
    assume "Suc n \<le> ?k - 1"
    then have "interval * Suc n \<le> interval * (?k - 1)" by (intro mult_le_mono2)
    moreover have "int (interval * (?k - 1)) = int (interval * ?k) - int interval" by (simp add: periods_to_def algebra_simps)
    ultimately have "int (interval * Suc n) \<le> int (interval * ?k) - int interval" by linarith
    then show False using b(2) \<open>now < next0 + int (interval * Suc n)\<close> by linarith
  qed
  ultimately have "Suc n = ?k" "r = AdjustedNext" using rn(2,3) by auto
  then have "n = ?k - 1" by simp
  with rn(1) \<open>Suc n = ?k\<close> \<open>r = AdjustedNext\<close> b skip show ?thesis by (simp add: adjust_next_def)
qed

theorem skip_meets_catch_up_witness:
  "adjust_next MissSkip 3500 1000 1000 [] = Some (AdjustedNext, 4000, 0) \<and>
   adjust_next MissCatchUp 3500 1000 1000 [BurstAnswer Forwarded, BurstAnswer Forwarded] = Some (AdjustedNext, 4000, 2)"
proof -
  have p: "periods_to 3500 1000 1000 = 3" by (simp add: periods_to_def)
  have r: "replicate 2 i = [i, i]" for i :: burst_input by (simp add: numeral_2_eq_2)
  show ?thesis
    using skip_meets_catch_up [of 1000 1000 3500, unfolded p]
    by (simp add: FAR_FUTURE_def secs_def nanos_per_sec_def instant_bound_def r adjust_next_def)
qed

end
