(* ===== verification/Forwarders.thy ===== *)
theory Forwarders
  imports Timer_Schedule Final_Drain
begin

text \<open>
  Timers, streams and the tasks that forward their messages (\<open>Extras\<close>, \<open>Forwarder\<close>, \<open>oneshot_forward\<close>, \<open>recurring_loop\<close>,
  \<open>stream_forward\<close> and the context's calls in \<open>src/src/actor/context.rs\<close>).

  A forwarder is an agent that performs one read, write or call of its future at a time, between the polls of the
  other forwarders and the turns of the actor; a select polls its branches in the order of the code.  It is dropped
  only where it awaits.  What user code does is an input of the step: whether a stream is ready, and the panic of a
  factory, a conversion or a drop.  The mailbox is its contract towards a forwarder: units of room, a close that stays,
  and a reservation that ends with a permit, or refused once the mailbox is closed; a permit granted before the close is
  still good after it.
\<close>

section \<open>Forwarders\<close>

datatype forwarder_kind = KindTimer u64 | KindStream u64

datatype source = OneShot instant | Recurring duration miss_policy | StreamOf "nat list"

datatype forward_msg = TimerMsg | TickMsg nat | DataMsg nat | FinishedMsg

datatype forwarder_end = EndDone | EndPanicked string | EndReleased "string option" "string option"

text \<open>What the join set yields: the task's output, its panic, or that it was cancelled.\<close>

datatype joined = JoinedEnd forwarder_end | JoinedPanic string | JoinedCancelled

datatype select_pc = PollToken | PollClose | PollThird

datatype reserve_pc = PollCancel | PollPermit

datatype forwarder_pc =
    OneSelect select_pc
  | OneReserve reserve_pc
  | OneClaim
  | OneSend
  | OneDrop
  | RecStart
  | RecSelect select_pc instant
  | RecMake instant
  | RecReserve reserve_pc instant
  | RecSend instant
  | RecAdjust instant
  | RecBurst instant instant
  | RecBurstTick instant instant
  | StrSelect select_pc
  | StrConvert nat
  | StrReserve reserve_pc nat
  | StrSend nat
  | StrOver
  | StrDrop
  | StrFinish
  | StrFinishReserve reserve_pc
  | StrFinishSend

datatype stage = Alive forwarder_pc | Counted joined | Joinable joined | Reaped

record forwarder =
  fw_kind :: forwarder_kind
  fw_source :: source
  fw_cancelled :: bool
  fw_claimed :: bool
  fw_items :: "nat list"
  fw_ticks :: nat
  fw_run_panic :: "string option"
  fw_stage :: stage

fun first_pc :: "source \<Rightarrow> forwarder_pc" where
  "first_pc (OneShot when) = OneSelect PollToken"
| "first_pc (Recurring interval policy) = RecStart"
| "first_pc (StreamOf items) = StrSelect PollToken"

definition forwarder_new :: "forwarder_kind \<Rightarrow> source \<Rightarrow> forwarder" where
  "forwarder_new k src =
     \<lparr>fw_kind = k, fw_source = src, fw_cancelled = False, fw_claimed = False,
      fw_items = (case src of StreamOf items \<Rightarrow> items | _ \<Rightarrow> []), fw_ticks = 0, fw_run_panic = None,
      fw_stage = Alive (first_pc src)\<rparr>"

record forward_mailbox =
  fm_closed :: bool
  fm_room :: nat
  fm_log :: "(nat \<times> forward_msg) list"

datatype reservation = Permit | RoomRefused | NoRoom

definition reserve_forward :: "bool \<Rightarrow> forward_mailbox \<Rightarrow> reservation" where
  "reserve_forward granted mb =
     (if 0 < fm_room mb \<and> (granted \<or> \<not> fm_closed mb) then Permit else if fm_closed mb then RoomRefused else NoRoom)"

definition take_room :: "forward_mailbox \<Rightarrow> forward_mailbox" where
  "take_room mb = mb\<lparr>fm_room := fm_room mb - 1\<rparr>"

definition permit_send :: "nat \<Rightarrow> forward_msg \<Rightarrow> forward_mailbox \<Rightarrow> forward_mailbox" where
  "permit_send i m mb = mb\<lparr>fm_log := fm_log mb @ [(i, m)]\<rparr>"

definition permit_drop :: "forward_mailbox \<Rightarrow> forward_mailbox" where
  "permit_drop mb = mb\<lparr>fm_room := fm_room mb + 1\<rparr>"

text \<open>The inputs of a step: readiness, the clock, and the panics of the user code and of the drops it may run.\<close>

record choice =
  ch_ready :: bool
  ch_now :: instant
  ch_panic :: "string option"
  ch_drop :: "string option"
  ch_drop2 :: "string option"

text \<open>How a poll ends the task: by what its future released, or by a panic out of it or parked by the release guard.\<close>

definition released :: "string option \<Rightarrow> string option \<Rightarrow> forwarder_end" where
  "released during closing = (if during = None \<and> closing = None then EndDone else EndReleased during closing)"

definition left_held :: "string option \<Rightarrow> forwarder_end" where
  "left_held drop_panic = (case drop_panic of None \<Rightarrow> EndDone | Some p \<Rightarrow> EndPanicked p)"

definition ends :: "forwarder_end \<Rightarrow> forwarder \<Rightarrow> forwarder" where
  "ends e t = t\<lparr>fw_stage := Counted (JoinedEnd e)\<rparr>"

definition goes :: "forwarder_pc \<Rightarrow> forwarder \<Rightarrow> forwarder" where
  "goes pc t = t\<lparr>fw_stage := Alive pc\<rparr>"

definition both_drops :: "choice \<Rightarrow> string option" where
  "both_drops ch = keep_first_of (ch_drop ch) (ch_drop2 ch)"

definition when_of :: "forwarder \<Rightarrow> instant" where
  "when_of t = (case fw_source t of OneShot when \<Rightarrow> when | _ \<Rightarrow> 0)"

definition interval_of :: "forwarder \<Rightarrow> duration" where
  "interval_of t = (case fw_source t of Recurring interval policy \<Rightarrow> interval | _ \<Rightarrow> 0)"

definition policy_of :: "forwarder \<Rightarrow> miss_policy" where
  "policy_of t = (case fw_source t of Recurring interval policy \<Rightarrow> policy | _ \<Rightarrow> MissSkip)"

section \<open>One-shot timers\<close>

fun oneshot_go :: "nat \<Rightarrow> choice \<Rightarrow> forwarder_pc \<Rightarrow> forwarder \<Rightarrow> forward_mailbox \<Rightarrow> forwarder \<times> forward_mailbox" where
  "oneshot_go i ch (OneSelect PollToken) t mb =
     (if fw_cancelled t then ends (left_held (ch_drop ch)) t else goes (OneSelect PollClose) t, mb)"
| "oneshot_go i ch (OneSelect PollClose) t mb =
     (if fm_closed mb then ends (released None (ch_drop ch)) t else goes (OneSelect PollThird) t, mb)"
| "oneshot_go i ch (OneSelect PollThird) t mb =
     (if when_of t \<le> ch_now ch then goes (OneReserve PollCancel) t else goes (OneSelect PollToken) t, mb)"
| "oneshot_go i ch (OneReserve PollCancel) t mb =
     (if fw_cancelled t then ends (left_held (ch_drop ch)) t else goes (OneReserve PollPermit) t, mb)"
| "oneshot_go i ch (OneReserve PollPermit) t mb =
     (case reserve_forward (ch_ready ch) mb of
        Permit \<Rightarrow> (goes OneClaim t, take_room mb)
      | RoomRefused \<Rightarrow> (ends (released None (ch_drop ch)) t, mb)
      | NoRoom \<Rightarrow> (goes (OneReserve PollCancel) t, mb))"
| "oneshot_go i ch OneClaim t mb =
     (if fw_claimed t then goes OneDrop t else (goes OneSend t)\<lparr>fw_claimed := True\<rparr>, mb)"
| "oneshot_go i ch OneSend t mb = (ends EndDone t, permit_send i TimerMsg mb)"
| "oneshot_go i ch OneDrop t mb = (ends (left_held (ch_drop ch)) t, permit_drop mb)"
| "oneshot_go i ch pc t mb = (t, mb)"

section \<open>Recurring timers\<close>

fun recurring_go :: "nat \<Rightarrow> choice \<Rightarrow> forwarder_pc \<Rightarrow> forwarder \<Rightarrow> forward_mailbox \<Rightarrow> forwarder \<times> forward_mailbox" where
  "recurring_go i ch RecStart t mb =
     (goes (RecSelect PollToken (saturating_deadline (ch_now ch) (interval_of t))) t, mb)"
| "recurring_go i ch (RecSelect PollToken due) t mb =
     (if fw_cancelled t then ends (left_held (ch_drop ch)) t else goes (RecSelect PollClose due) t, mb)"
| "recurring_go i ch (RecSelect PollClose due) t mb =
     (if fm_closed mb then ends (released None (ch_drop ch)) t else goes (RecSelect PollThird due) t, mb)"
| "recurring_go i ch (RecSelect PollThird due) t mb =
     (if due \<le> ch_now ch then goes (RecMake due) t else goes (RecSelect PollToken due) t, mb)"
| "recurring_go i ch (RecMake due) t mb =
     (case ch_panic ch of Some p \<Rightarrow> ends (EndPanicked p) t | None \<Rightarrow> goes (RecReserve PollCancel due) t, mb)"
| "recurring_go i ch (RecReserve PollCancel due) t mb =
     (if fw_cancelled t then ends (released (both_drops ch) None) t else goes (RecReserve PollPermit due) t, mb)"
| "recurring_go i ch (RecReserve PollPermit due) t mb =
     (case reserve_forward (ch_ready ch) mb of
        Permit \<Rightarrow> (goes (RecSend due) t, take_room mb)
      | RoomRefused \<Rightarrow> (ends (released None (both_drops ch)) t, mb)
      | NoRoom \<Rightarrow> (goes (RecReserve PollCancel due) t, mb))"
| "recurring_go i ch (RecSend due) t mb =
     ((goes (RecAdjust due) t)\<lparr>fw_ticks := Suc (fw_ticks t)\<rparr>, permit_send i (TickMsg (fw_ticks t)) mb)"
| "recurring_go i ch (RecAdjust due) t mb =
     (case policy_of t of
        MissSkip \<Rightarrow> goes (RecSelect PollToken (skip_next (ch_now ch) (interval_of t) due)) t
      | MissDelay \<Rightarrow> goes (RecSelect PollToken (saturating_deadline (ch_now ch) (interval_of t))) t
      | MissCatchUp \<Rightarrow> goes (RecBurst (ch_now ch) (saturating_deadline due (interval_of t))) t, mb)"
| "recurring_go i ch (RecBurst now due) t mb =
     (if now < due \<or> fw_cancelled t then goes (RecSelect PollToken due) t else goes (RecBurstTick now due) t, mb)"
| "recurring_go i ch (RecBurstTick now due) t mb =
     (case ch_panic ch of
        Some p \<Rightarrow> (ends (EndPanicked p) t, mb)
      | None \<Rightarrow>
          if fm_closed mb then (ends (released None (both_drops ch)) t, mb)
          else if fm_room mb = 0 then
            (case ch_drop ch of
               Some p \<Rightarrow> ends (released (both_drops ch) None) t | None \<Rightarrow> goes (RecSelect PollToken due) t, mb)
          else ((goes (RecBurst now (saturating_deadline due (interval_of t))) t)\<lparr>fw_ticks := Suc (fw_ticks t)\<rparr>,
                permit_send i (TickMsg (fw_ticks t)) (take_room mb)))"
| "recurring_go i ch pc t mb = (t, mb)"

section \<open>Streams\<close>

fun stream_go :: "nat \<Rightarrow> choice \<Rightarrow> forwarder_pc \<Rightarrow> forwarder \<Rightarrow> forward_mailbox \<Rightarrow> forwarder \<times> forward_mailbox" where
  "stream_go i ch (StrSelect PollToken) t mb =
     (if fw_cancelled t then ends (left_held (ch_drop ch)) t else goes (StrSelect PollClose) t, mb)"
| "stream_go i ch (StrSelect PollClose) t mb =
     (if fm_closed mb then ends (released None (ch_drop ch)) t else goes (StrSelect PollThird) t, mb)"
| "stream_go i ch (StrSelect PollThird) t mb =
     (case ch_panic ch of
        Some p \<Rightarrow> ends (EndPanicked p) t
      | None \<Rightarrow>
          if \<not> ch_ready ch then goes (StrSelect PollToken) t
          else (case fw_items t of [] \<Rightarrow> goes StrOver t | x # xs \<Rightarrow> (goes (StrConvert x) t)\<lparr>fw_items := xs\<rparr>), mb)"
| "stream_go i ch (StrConvert x) t mb =
     (case ch_panic ch of Some p \<Rightarrow> ends (EndPanicked p) t | None \<Rightarrow> goes (StrReserve PollCancel x) t, mb)"
| "stream_go i ch (StrReserve PollCancel x) t mb =
     (if fw_cancelled t then ends (released (both_drops ch) None) t else goes (StrReserve PollPermit x) t, mb)"
| "stream_go i ch (StrReserve PollPermit x) t mb =
     (case reserve_forward (ch_ready ch) mb of
        Permit \<Rightarrow> (goes (StrSend x) t, take_room mb)
      | RoomRefused \<Rightarrow> (ends (released None (both_drops ch)) t, mb)
      | NoRoom \<Rightarrow> (goes (StrReserve PollCancel x) t, mb))"
| "stream_go i ch (StrSend x) t mb = (goes (StrSelect PollToken) t, permit_send i (DataMsg x) mb)"
| "stream_go i ch StrOver t mb =
     (if fm_closed mb then ends (released None (ch_drop ch)) t else goes StrDrop t, mb)"
| "stream_go i ch StrDrop t mb = ((goes StrFinish t)\<lparr>fw_run_panic := ch_drop ch\<rparr>, mb)"
| "stream_go i ch StrFinish t mb =
     (case ch_panic ch of Some p \<Rightarrow> ends (EndPanicked p) t | None \<Rightarrow> goes (StrFinishReserve PollCancel) t, mb)"
| "stream_go i ch (StrFinishReserve PollCancel) t mb =
     (if fw_cancelled t then ends (released (keep_first_of (fw_run_panic t) (ch_drop ch)) None) t
      else goes (StrFinishReserve PollPermit) t, mb)"
| "stream_go i ch (StrFinishReserve PollPermit) t mb =
     (case reserve_forward (ch_ready ch) mb of
        Permit \<Rightarrow> (goes StrFinishSend t, take_room mb)
      | RoomRefused \<Rightarrow> (ends (released (fw_run_panic t) (ch_drop ch)) t, mb)
      | NoRoom \<Rightarrow> (goes (StrFinishReserve PollCancel) t, mb))"
| "stream_go i ch StrFinishSend t mb = (ends (released (fw_run_panic t) None) t, permit_send i FinishedMsg mb)"
| "stream_go i ch pc t mb = (t, mb)"

definition forwarder_go :: "nat \<Rightarrow> choice \<Rightarrow> forwarder \<Rightarrow> forward_mailbox \<Rightarrow> forwarder \<times> forward_mailbox" where
  "forwarder_go i ch t mb =
     (case fw_stage t of
        Alive pc \<Rightarrow>
          (case fw_source t of
             OneShot when \<Rightarrow> oneshot_go i ch pc t mb
           | Recurring interval policy \<Rightarrow> recurring_go i ch pc t mb
           | StreamOf items \<Rightarrow> stream_go i ch pc t mb)
      | _ \<Rightarrow> (t, mb))"

section \<open>The context's side\<close>

text \<open>
  The extras of a context.  A task is named by its index, which stands for its tokio id, its cancel token and its claim;
  \<open>ex_claims\<close> records the tasks whose claim a cancel took.
\<close>

record extras =
  ex_tasks :: "forwarder list"
  ex_timers :: "(u64 \<times> nat) list"
  ex_streams :: "(u64 \<times> nat) list"
  ex_kinds :: "(nat \<times> forwarder_kind) list"
  ex_ids :: recurring_id_generator
  ex_done :: "u64 option"
  ex_taken :: u64
  ex_unpolled :: bool
  ex_error :: "actor_error option"
  ex_mailbox :: forward_mailbox
  ex_claims :: "nat list"
  ex_registered :: "nat list option"
  ex_first :: "string option"

definition extras_new :: "nat \<Rightarrow> extras" where
  "extras_new room =
     \<lparr>ex_tasks = [], ex_timers = [], ex_streams = [], ex_kinds = [], ex_ids = \<lparr>rig_next = 0\<rparr>, ex_done = None, ex_taken = 0,
      ex_unpolled = False, ex_error = None, ex_mailbox = \<lparr>fm_closed = False, fm_room = room, fm_log = []\<rparr>, ex_claims = [],
      ex_registered = None, ex_first = None\<rparr>"

definition spawn_forwarder :: "forwarder_kind \<Rightarrow> source \<Rightarrow> extras \<Rightarrow> extras" where
  "spawn_forwarder k src w =
     w\<lparr>ex_done := Some (case ex_done w of Some d \<Rightarrow> d | None \<Rightarrow> 0), ex_tasks := ex_tasks w @ [forwarder_new k src],
       ex_unpolled := True, ex_kinds := hput (length (ex_tasks w)) k (ex_kinds w)\<rparr>"

definition register_oneshot :: "instant \<Rightarrow> extras \<Rightarrow> u64 \<times> extras" where
  "register_oneshot when w =
     (case next_id (ex_ids w) of
        (k, ids) \<Rightarrow>
          let w1 = spawn_forwarder (KindTimer k) (OneShot when) (w\<lparr>ex_ids := ids\<rparr>)
          in (k, w1\<lparr>ex_timers := hput k (length (ex_tasks w)) (ex_timers w1)\<rparr>))"

definition register_recurring :: "duration \<Rightarrow> miss_policy \<Rightarrow> extras \<Rightarrow> (timer_error + u64) \<times> extras" where
  "register_recurring interval policy w =
     (if interval = 0 then (Inl ZeroInterval, w)
      else case next_id (ex_ids w) of
        (k, ids) \<Rightarrow>
          let w1 = spawn_forwarder (KindTimer k) (Recurring interval policy) (w\<lparr>ex_ids := ids\<rparr>)
          in (Inr k, w1\<lparr>ex_timers := hput k (length (ex_tasks w)) (ex_timers w1)\<rparr>))"

definition add_stream :: "nat list \<Rightarrow> extras \<Rightarrow> u64 \<times> extras" where
  "add_stream items w =
     (case next_stream_id (ex_ids w) of
        (k, ids) \<Rightarrow>
          let w1 = spawn_forwarder (KindStream k) (StreamOf items) (w\<lparr>ex_ids := ids\<rparr>)
          in (k, w1\<lparr>ex_streams := hput k (length (ex_tasks w)) (ex_streams w1)\<rparr>))"

definition is_oneshot :: "forwarder \<Rightarrow> bool" where
  "is_oneshot t \<longleftrightarrow> (case fw_source t of OneShot when \<Rightarrow> True | _ \<Rightarrow> False)"

text \<open>A cancel's claim, and with it the cancel of the token.\<close>

definition claim_timer :: "nat \<Rightarrow> extras \<Rightarrow> bool \<times> extras" where
  "claim_timer i w =
     (let t = ex_tasks w ! i
      in if is_oneshot t \<and> fw_claimed t then (False, w)
         else (True, w\<lparr>ex_tasks := (ex_tasks w)[i := t\<lparr>fw_claimed := is_oneshot t, fw_cancelled := True\<rparr>],
                       ex_claims := ex_claims w @ [i]\<rparr>))"

definition cancel_timer :: "u64 \<Rightarrow> extras \<Rightarrow> (timer_error + unit) \<times> extras" where
  "cancel_timer k w =
     (case hget (ex_timers w) k of
        Some i \<Rightarrow>
          (case claim_timer i (w\<lparr>ex_timers := hdel k (ex_timers w)\<rparr>) of
             (True, w1) \<Rightarrow> (Inr (), w1) | (False, w1) \<Rightarrow> (Inl TimerNotFound, w1))
      | None \<Rightarrow> (Inl TimerNotFound, w))"

definition cancel_all_timers :: "extras \<Rightarrow> extras" where
  "cancel_all_timers w = (foldl (\<lambda>v i. snd (claim_timer i v)) w (map snd (ex_timers w)))\<lparr>ex_timers := []\<rparr>"

definition active_timer_count :: "extras \<Rightarrow> nat" where
  "active_timer_count w = length (ex_timers w)"

definition cancel_token :: "nat \<Rightarrow> extras \<Rightarrow> extras" where
  "cancel_token i w = w\<lparr>ex_tasks := (ex_tasks w)[i := (ex_tasks w ! i)\<lparr>fw_cancelled := True\<rparr>]\<rparr>"

definition cancel_stream :: "u64 \<Rightarrow> extras \<Rightarrow> (stream_error + unit) \<times> extras" where
  "cancel_stream k w =
     (case hget (ex_streams w) k of
        Some i \<Rightarrow> (Inr (), cancel_token i (w\<lparr>ex_streams := hdel k (ex_streams w)\<rparr>))
      | None \<Rightarrow> (Inl StreamNotFound, w))"

definition cancel_all_streams :: "extras \<Rightarrow> extras" where
  "cancel_all_streams w = (foldl (\<lambda>v i. cancel_token i v) w (map snd (ex_streams w)))\<lparr>ex_streams := []\<rparr>"

definition active_stream_count :: "extras \<Rightarrow> nat" where
  "active_stream_count w = length (ex_streams w)"

definition forwarders_idle :: "extras \<Rightarrow> bool" where
  "forwarders_idle w \<longleftrightarrow> \<not> ex_unpolled w \<and> (case ex_done w of None \<Rightarrow> True | Some d \<Rightarrow> d = ex_taken w)"

definition note_forwarders_polled :: "extras \<Rightarrow> extras" where
  "note_forwarders_polled w = w\<lparr>ex_unpolled := False\<rparr>"

fun reaped_panic :: "joined \<Rightarrow> string option" where
  "reaped_panic (JoinedEnd EndDone) = None"
| "reaped_panic (JoinedEnd (EndPanicked p)) = Some p"
| "reaped_panic (JoinedEnd (EndReleased during closing)) = (case closing of Some p \<Rightarrow> Some p | None \<Rightarrow> during)"
| "reaped_panic (JoinedPanic p) = Some p"
| "reaped_panic JoinedCancelled = None"

definition unregister_kind :: "forwarder_kind option \<Rightarrow> extras \<Rightarrow> extras" where
  "unregister_kind k w =
     (case k of
        Some (KindTimer n) \<Rightarrow> w\<lparr>ex_timers := hdel n (ex_timers w)\<rparr>
      | Some (KindStream n) \<Rightarrow> w\<lparr>ex_streams := hdel n (ex_streams w)\<rparr>
      | None \<Rightarrow> w)"

definition taken_out :: "nat \<Rightarrow> extras \<Rightarrow> extras" where
  "taken_out i w = w\<lparr>ex_tasks := (ex_tasks w)[i := (ex_tasks w ! i)\<lparr>fw_stage := Reaped\<rparr>]\<rparr>"

definition reap_forwarder :: "nat \<Rightarrow> joined \<Rightarrow> extras \<Rightarrow> string option \<times> extras" where
  "reap_forwarder i j w =
     (let w1 = w\<lparr>ex_taken := ex_taken w + 1, ex_unpolled := True\<rparr>;
          w2 = unregister_kind (hget (ex_kinds w1) i) (w1\<lparr>ex_kinds := hdel i (ex_kinds w1)\<rparr>);
          w3 = (case reaped_panic j of Some p \<Rightarrow> w2\<lparr>ex_error := Some (Panic p)\<rparr> | None \<Rightarrow> w2)
      in (reaped_panic j, w3))"

section \<open>The end\<close>

definition is_registered :: "extras \<Rightarrow> forwarder_kind \<Rightarrow> bool" where
  "is_registered w k =
     (case k of KindTimer n \<Rightarrow> has_key (ex_timers w) n | KindStream n \<Rightarrow> has_key (ex_streams w) n)"

definition end_forwarders_begin :: "extras \<Rightarrow> extras" where
  "end_forwarders_begin w = w\<lparr>ex_registered := Some (map fst (filter (\<lambda>e. is_registered w (snd e)) (ex_kinds w)))\<rparr>"

definition end_forwarders_join :: "nat list \<Rightarrow> nat \<Rightarrow> joined \<Rightarrow> extras \<Rightarrow> extras" where
  "end_forwarders_join registered i j w =
     (case j of
        JoinedPanic p \<Rightarrow>
          if i \<in> set registered then w\<lparr>ex_first := keep_first_of (ex_first w) (Some p)\<rparr> else snd (reap_forwarder i j w)
      | JoinedEnd (EndReleased during (Some p)) \<Rightarrow>
          if i \<in> set registered
          then snd (reap_forwarder i (JoinedEnd (EndReleased during None)) (w\<lparr>ex_first := keep_first_of (ex_first w) (Some p)\<rparr>))
          else snd (reap_forwarder i j w)
      | _ \<Rightarrow> snd (reap_forwarder i j w))"

section \<open>Steps\<close>

fun awaits :: "forwarder_pc \<Rightarrow> bool" where
  "awaits (OneSelect p) = (p = PollToken)"
| "awaits (OneReserve p) = (p = PollCancel)"
| "awaits RecStart = True"
| "awaits (RecSelect p due) = (p = PollToken)"
| "awaits (RecReserve p due) = (p = PollCancel)"
| "awaits (StrSelect p) = (p = PollToken)"
| "awaits (StrReserve p x) = (p = PollCancel)"
| "awaits (StrFinishReserve p) = (p = PollCancel)"
| "awaits _ = False"

definition is_alive :: "forwarder \<Rightarrow> bool" where
  "is_alive t \<longleftrightarrow> (\<exists>pc. fw_stage t = Alive pc)"

text \<open>A forwarder counts its end once, at its ready poll or its drop.\<close>

definition count_end :: "forwarder \<Rightarrow> forwarder \<Rightarrow> u64 option \<Rightarrow> u64 option" where
  "count_end t t' d = (if is_alive t \<and> \<not> is_alive t' then map_option (\<lambda>n. n + 1) d else d)"

definition task_becomes :: "nat \<Rightarrow> forwarder \<Rightarrow> forward_mailbox \<Rightarrow> extras \<Rightarrow> extras" where
  "task_becomes i t mb w =
     w\<lparr>ex_tasks := (ex_tasks w)[i := t], ex_mailbox := mb, ex_done := count_end (ex_tasks w ! i) t (ex_done w)\<rparr>"

definition forwarder_drop :: "string option \<Rightarrow> forwarder \<Rightarrow> forwarder" where
  "forwarder_drop p t =
     (case fw_stage t of
        Alive pc \<Rightarrow>
          if awaits pc then t\<lparr>fw_stage := Counted (case p of Some m \<Rightarrow> JoinedPanic m | None \<Rightarrow> JoinedCancelled)\<rparr> else t
      | _ \<Rightarrow> t)"

definition task_completes :: "forwarder \<Rightarrow> forwarder" where
  "task_completes t = (case fw_stage t of Counted j \<Rightarrow> t\<lparr>fw_stage := Joinable j\<rparr> | _ \<Rightarrow> t)"

datatype forward_op =
    RegisterOneshot instant
  | RegisterRecurring duration miss_policy
  | AddStream "nat list"
  | CancelTimer u64
  | CancelAllTimers
  | CancelStream u64
  | CancelAllStreams
  | PollPlane
  | ForwarderGo nat choice
  | ForwarderDropped nat "string option"
  | ForwarderCompletes nat
  | JoinNext nat
  | EndForwarders
  | MailboxRoom nat
  | MailboxCloses

text \<open>The join set yields any entry that is ready, to the run loop or to the end.\<close>

definition join_next :: "nat \<Rightarrow> extras \<Rightarrow> extras" where
  "join_next i w =
     (if i < length (ex_tasks w)
      then (case fw_stage (ex_tasks w ! i) of
              Joinable j \<Rightarrow>
                (case ex_registered w of
                   None \<Rightarrow> snd (reap_forwarder i j (taken_out i w))
                 | Some registered \<Rightarrow> end_forwarders_join registered i j (taken_out i w))
            | _ \<Rightarrow> w)
      else w)"

fun forward_step :: "extras \<Rightarrow> forward_op \<Rightarrow> extras" where
  "forward_step w (RegisterOneshot when) = snd (register_oneshot when w)"
| "forward_step w (RegisterRecurring interval policy) = snd (register_recurring interval policy w)"
| "forward_step w (AddStream items) = snd (add_stream items w)"
| "forward_step w (CancelTimer k) = snd (cancel_timer k w)"
| "forward_step w CancelAllTimers = cancel_all_timers w"
| "forward_step w (CancelStream k) = snd (cancel_stream k w)"
| "forward_step w CancelAllStreams = cancel_all_streams w"
| "forward_step w PollPlane = note_forwarders_polled w"
| "forward_step w (ForwarderGo i ch) =
     (if i < length (ex_tasks w)
      then (case forwarder_go i ch (ex_tasks w ! i) (ex_mailbox w) of (t, mb) \<Rightarrow> task_becomes i t mb w) else w)"
| "forward_step w (ForwarderDropped i p) =
     (if i < length (ex_tasks w) then task_becomes i (forwarder_drop p (ex_tasks w ! i)) (ex_mailbox w) w else w)"
| "forward_step w (ForwarderCompletes i) =
     (if i < length (ex_tasks w) then task_becomes i (task_completes (ex_tasks w ! i)) (ex_mailbox w) w else w)"
| "forward_step w (JoinNext i) = join_next i w"
| "forward_step w EndForwarders = (if ex_registered w = None then end_forwarders_begin w else w)"
| "forward_step w (MailboxRoom n) = w\<lparr>ex_mailbox := (ex_mailbox w)\<lparr>fm_room := n\<rparr>\<rparr>"
| "forward_step w MailboxCloses = w\<lparr>ex_mailbox := (ex_mailbox w)\<lparr>fm_closed := True\<rparr>\<rparr>"

end
