(* ===== verification/Forwarder_Props.thy ===== *)
theory Forwarder_Props
  imports Forwarders
begin

text \<open>
  What timers and streams promise, in every interleaving of the forwarders with the actor: a one-shot timer's message is
  put in the mailbox or the timer is cancelled, never both; a stream's messages arrive as a prefix of its items, then
  one \<open>Finished\<close>; a cancelled forwarder puts at most the message it was putting at that instant; the count of the ends
  tells the run loop when the plane has nothing for it; and the registrations belong to tasks of the plane.
\<close>

section \<open>What a forwarder has sent\<close>

definition own :: "nat \<Rightarrow> (nat \<times> forward_msg) list \<Rightarrow> forward_msg list" where
  "own i log = map snd (filter (\<lambda>e. fst e = i) log)"

lemma own_snoc [simp]: "own i (log @ [(j, m)]) = own i log @ (if j = i then [m] else [])"
  by (simp add: own_def)

lemma own_Nil [simp]: "own i [] = []"
  by (simp add: own_def)

lemmas go_defs = goes_def ends_def permit_send_def take_room_def permit_drop_def

text \<open>A step of a forwarder leaves its source and kind, only adds own messages, and only ever cancels or claims.\<close>

lemma oneshot_go_frame:
  "fw_source (fst (oneshot_go i ch pc t mb)) = fw_source t" "fw_kind (fst (oneshot_go i ch pc t mb)) = fw_kind t"
  "fw_cancelled (fst (oneshot_go i ch pc t mb)) = fw_cancelled t"
  "j \<noteq> i \<Longrightarrow> own j (fm_log (snd (oneshot_go i ch pc t mb))) = own j (fm_log mb)"
  by (cases "(i, ch, pc, t, mb)" rule: oneshot_go.cases; auto simp: go_defs split: reservation.splits)+

lemma recurring_go_frame:
  "fw_source (fst (recurring_go i ch pc t mb)) = fw_source t" "fw_kind (fst (recurring_go i ch pc t mb)) = fw_kind t"
  "fw_cancelled (fst (recurring_go i ch pc t mb)) = fw_cancelled t"
  "j \<noteq> i \<Longrightarrow> own j (fm_log (snd (recurring_go i ch pc t mb))) = own j (fm_log mb)"
  by (cases "(i, ch, pc, t, mb)" rule: recurring_go.cases;
      auto simp: go_defs split: reservation.splits option.splits miss_policy.splits)+

lemma stream_go_frame:
  "fw_source (fst (stream_go i ch pc t mb)) = fw_source t" "fw_kind (fst (stream_go i ch pc t mb)) = fw_kind t"
  "fw_cancelled (fst (stream_go i ch pc t mb)) = fw_cancelled t"
  "j \<noteq> i \<Longrightarrow> own j (fm_log (snd (stream_go i ch pc t mb))) = own j (fm_log mb)"
  by (cases "(i, ch, pc, t, mb)" rule: stream_go.cases;
      auto simp: go_defs split: reservation.splits option.splits list.splits)+

lemma forwarder_go_frame:
  "fw_source (fst (forwarder_go i ch t mb)) = fw_source t" "fw_kind (fst (forwarder_go i ch t mb)) = fw_kind t"
  "fw_cancelled (fst (forwarder_go i ch t mb)) = fw_cancelled t"
  "j \<noteq> i \<Longrightarrow> own j (fm_log (snd (forwarder_go i ch t mb))) = own j (fm_log mb)"
  by (simp_all add: forwarder_go_def oneshot_go_frame recurring_go_frame stream_go_frame split: stage.split source.split)

text \<open>Where a forwarder stands, by its source.\<close>

definition oneshot_ok :: "forward_msg list \<Rightarrow> forwarder \<Rightarrow> bool" where
  "oneshot_ok sent t \<longleftrightarrow>
     (case fw_stage t of
        Alive pc \<Rightarrow> sent = [] \<and> (pc \<in> {OneSend, OneDrop} \<longrightarrow> fw_claimed t)
      | _ \<Rightarrow> sent = [] \<or> sent = [TimerMsg] \<and> fw_claimed t)"

fun holding :: "forwarder_pc \<Rightarrow> nat list" where
  "holding (StrConvert x) = [x]"
| "holding (StrReserve p x) = [x]"
| "holding (StrSend x) = [x]"
| "holding _ = []"

fun stream_over :: "forwarder_pc \<Rightarrow> bool" where
  "stream_over StrOver = True"
| "stream_over StrDrop = True"
| "stream_over StrFinish = True"
| "stream_over (StrFinishReserve p) = True"
| "stream_over StrFinishSend = True"
| "stream_over _ = False"

definition stream_ok :: "nat list \<Rightarrow> forward_msg list \<Rightarrow> forwarder \<Rightarrow> bool" where
  "stream_ok items sent t \<longleftrightarrow>
     (case fw_stage t of
        Alive pc \<Rightarrow>
          (\<exists>gone. sent = map DataMsg gone \<and> items = gone @ holding pc @ fw_items t) \<and> (stream_over pc \<longrightarrow> fw_items t = [])
      | _ \<Rightarrow> (\<exists>gone rest. sent = map DataMsg gone \<and> items = gone @ rest) \<or> sent = map DataMsg items @ [FinishedMsg])"

definition sent_ok :: "forward_msg list \<Rightarrow> forwarder \<Rightarrow> bool" where
  "sent_ok sent t \<longleftrightarrow>
     (case fw_source t of
        OneShot when \<Rightarrow> oneshot_ok sent t
      | Recurring interval policy \<Rightarrow> sent = map TickMsg [0..<fw_ticks t]
      | StreamOf items \<Rightarrow> stream_ok items sent t)"

lemma oneshot_go_ok:
  assumes "oneshot_ok (own i (fm_log mb)) t" "fw_stage t = Alive pc"
  shows "oneshot_ok (own i (fm_log (snd (oneshot_go i ch pc t mb)))) (fst (oneshot_go i ch pc t mb))"
  using assms by (cases "(i, ch, pc, t, mb)" rule: oneshot_go.cases)
    (auto simp: oneshot_ok_def go_defs split: reservation.splits)

lemma recurring_go_ok:
  assumes "own i (fm_log mb) = map TickMsg [0..<fw_ticks t]"
  shows "own i (fm_log (snd (recurring_go i ch pc t mb))) = map TickMsg [0..<fw_ticks (fst (recurring_go i ch pc t mb))]"
  using assms by (cases "(i, ch, pc, t, mb)" rule: recurring_go.cases)
    (auto simp: go_defs split: reservation.splits option.splits miss_policy.splits)

lemma stream_go_ok:
  assumes "stream_ok items (own i (fm_log mb)) t" "fw_stage t = Alive pc"
  shows "stream_ok items (own i (fm_log (snd (stream_go i ch pc t mb)))) (fst (stream_go i ch pc t mb))"
proof -
  obtain gone where g: "own i (fm_log mb) = map DataMsg gone" "items = gone @ holding pc @ fw_items t"
    and o: "stream_over pc \<longrightarrow> fw_items t = []"
    using assms by (auto simp: stream_ok_def)
  have k: "\<exists>gone' rest. map DataMsg gone = map DataMsg gone' \<and> items = gone' @ rest" using g(2) by blast
  show ?thesis
    using assms(2) g o k by (cases "(i, ch, pc, t, mb)" rule: stream_go.cases)
      (auto simp: stream_ok_def go_defs split: reservation.splits option.splits list.splits)
qed

lemma forwarder_go_sent:
  assumes "sent_ok (own i (fm_log mb)) t"
  shows "sent_ok (own i (fm_log (snd (forwarder_go i ch t mb)))) (fst (forwarder_go i ch t mb))"
proof (cases "fw_stage t")
  case (Alive pc)
  show ?thesis
  proof (cases "fw_source t")
    case (OneShot due)
    then show ?thesis using assms Alive oneshot_go_ok oneshot_go_frame(1) by (simp add: sent_ok_def forwarder_go_def)
  next
    case (Recurring interval policy)
    then show ?thesis using assms Alive recurring_go_ok recurring_go_frame(1) by (simp add: sent_ok_def forwarder_go_def)
  next
    case (StreamOf items)
    then show ?thesis using assms Alive stream_go_ok stream_go_frame(1) by (simp add: sent_ok_def forwarder_go_def)
  qed
qed (use assms in \<open>simp_all add: forwarder_go_def\<close>)

section \<open>Claims\<close>

text \<open>Who has claimed a one-shot timer: a cancel, and then nothing is sent, or its firing, and then it is sent or about to be.\<close>

definition claim_ok :: "bool \<Rightarrow> forward_msg list \<Rightarrow> forwarder \<Rightarrow> bool" where
  "claim_ok by_cancel sent t \<longleftrightarrow>
     (by_cancel \<longrightarrow> fw_claimed t \<and> sent = [] \<and> fw_stage t \<noteq> Alive OneSend) \<and>
     (fw_claimed t \<and> \<not> by_cancel \<longrightarrow> sent = [TimerMsg] \<or> fw_stage t = Alive OneSend)"

lemma oneshot_go_claim:
  assumes "claim_ok c (own i (fm_log mb)) t" "oneshot_ok (own i (fm_log mb)) t" "fw_stage t = Alive pc"
  shows "claim_ok c (own i (fm_log (snd (oneshot_go i ch pc t mb)))) (fst (oneshot_go i ch pc t mb))"
  using assms by (cases "(i, ch, pc, t, mb)" rule: oneshot_go.cases)
    (auto simp: claim_ok_def oneshot_ok_def go_defs split: reservation.splits)

definition task_inv :: "nat list \<Rightarrow> (nat \<times> forward_msg) list \<Rightarrow> nat \<Rightarrow> forwarder \<Rightarrow> bool" where
  "task_inv claims log i t \<longleftrightarrow>
     sent_ok (own i log) t \<and> (is_oneshot t \<longrightarrow> claim_ok (i \<in> set claims) (own i log) t)"

lemma forwarder_go_task:
  assumes "task_inv claims (fm_log mb) i t"
  shows "task_inv claims (fm_log (snd (forwarder_go i ch t mb))) i (fst (forwarder_go i ch t mb))"
proof -
  have "claim_ok (i \<in> set claims) (own i (fm_log (snd (forwarder_go i ch t mb)))) (fst (forwarder_go i ch t mb))"
    if one: "is_oneshot t"
  proof (cases "fw_stage t")
    case (Alive pc)
    obtain due where w: "fw_source t = OneShot due" using one by (auto simp: is_oneshot_def split: source.splits)
    then have "oneshot_ok (own i (fm_log mb)) t" "claim_ok (i \<in> set claims) (own i (fm_log mb)) t"
      using assms one by (simp_all add: task_inv_def sent_ok_def)
    then show ?thesis using oneshot_go_claim Alive w by (simp add: forwarder_go_def)
  qed (use assms one in \<open>simp_all add: forwarder_go_def task_inv_def\<close>)
  then show ?thesis
    using assms forwarder_go_sent forwarder_go_frame(1) unfolding task_inv_def is_oneshot_def by simp
qed

lemma stage_change_task:
  assumes "task_inv claims log i t" "\<not> is_alive t \<or> (\<exists>pc. fw_stage t = Alive pc \<and> awaits pc)" "\<nexists>pc. st = Alive pc"
  shows "task_inv claims log i (t\<lparr>fw_stage := st\<rparr>)"
proof -
  have st: "(case st of Alive pc \<Rightarrow> f pc | _ \<Rightarrow> b) = b" for f and b :: bool using assms(3) by (cases st) auto
  have na: "st \<noteq> Alive q" for q using assms(3) by auto
  show ?thesis
  proof (cases "fw_stage t")
    case (Alive pc)
    with assms(2) have "awaits pc" by (auto simp: is_alive_def)
    with Alive assms(1) show ?thesis
      by (auto simp: task_inv_def sent_ok_def oneshot_ok_def stream_ok_def claim_ok_def is_oneshot_def st na split: source.splits)
  qed (use assms(1,3) in \<open>auto simp: task_inv_def sent_ok_def oneshot_ok_def stream_ok_def claim_ok_def is_oneshot_def st
      split: source.splits\<close>)
qed

lemma forwarder_drop_task: "task_inv claims log i t \<Longrightarrow> task_inv claims log i (forwarder_drop p t)"
  by (cases "fw_stage t") (auto simp: forwarder_drop_def intro: stage_change_task)

lemma task_completes_task: "task_inv claims log i t \<Longrightarrow> task_inv claims log i (task_completes t)"
  by (cases "fw_stage t") (auto simp: task_completes_def is_alive_def intro: stage_change_task)

text \<open>A cancel's claim, and a cancel of the token.\<close>

lemma claim_task:
  assumes "task_inv claims log i t" "\<not> (is_oneshot t \<and> fw_claimed t)"
  shows "task_inv (claims @ [i]) log i (t\<lparr>fw_claimed := is_oneshot t, fw_cancelled := True\<rparr>)"
  using assms
  by (auto simp: task_inv_def sent_ok_def oneshot_ok_def stream_ok_def claim_ok_def is_oneshot_def split: source.splits stage.splits)

lemma cancel_task: "task_inv claims log i t \<Longrightarrow> task_inv claims log i (t\<lparr>fw_cancelled := True\<rparr>)"
  by (auto simp: task_inv_def sent_ok_def oneshot_ok_def stream_ok_def claim_ok_def is_oneshot_def split: source.splits stage.splits)

lemma new_task:
  assumes "own i log = []" "i \<notin> set claims"
  shows "task_inv claims log i (forwarder_new k src)"
  using assms by (auto simp: task_inv_def sent_ok_def oneshot_ok_def stream_ok_def claim_ok_def is_oneshot_def forwarder_new_def
      split: source.splits)

lemma task_inv_other: "own i log' = own i log \<Longrightarrow> (i \<in> set claims' \<longleftrightarrow> i \<in> set claims) \<Longrightarrow> task_inv claims' log' i t = task_inv claims log i t"
  by (simp add: task_inv_def)

section \<open>Sends of all forwarders\<close>

lemma foldl_keeps: "(\<And>v i. P v \<Longrightarrow> i \<in> set xs \<Longrightarrow> P (f v i)) \<Longrightarrow> P w \<Longrightarrow> P (foldl f w xs)"
  by (induction xs arbitrary: w) auto

definition send_inv :: "extras \<Rightarrow> bool" where
  "send_inv w \<longleftrightarrow>
     (\<forall>i < length (ex_tasks w). task_inv (ex_claims w) (fm_log (ex_mailbox w)) i (ex_tasks w ! i)) \<and>
     (\<forall>i. length (ex_tasks w) \<le> i \<longrightarrow> own i (fm_log (ex_mailbox w)) = [] \<and> i \<notin> set (ex_claims w))"

lemma send_inv_update:
  assumes "send_inv w" "i < length (ex_tasks w)" "task_inv claims log i t"
    and "\<And>j. j \<noteq> i \<Longrightarrow> own j log = own j (fm_log (ex_mailbox w))" "\<And>j. j \<noteq> i \<Longrightarrow> j \<in> set claims \<longleftrightarrow> j \<in> set (ex_claims w)"
    and "ex_tasks w' = (ex_tasks w)[i := t]" "fm_log (ex_mailbox w') = log" "ex_claims w' = claims"
  shows "send_inv w'"
proof -
  have "task_inv claims log j ((ex_tasks w)[i := t] ! j)" if "j < length (ex_tasks w)" for j
  proof (cases "j = i")
    case False
    have "task_inv (ex_claims w) (fm_log (ex_mailbox w)) j (ex_tasks w ! j)" using assms(1) that by (simp add: send_inv_def)
    then have "task_inv claims log j (ex_tasks w ! j)"
      using task_inv_other [OF assms(4) [OF False] assms(5) [OF False]] by blast
    with False show ?thesis by simp
  next
    case True
    with assms(2,3) show ?thesis by simp
  qed
  moreover have "own j log = [] \<and> j \<notin> set claims" if "length (ex_tasks w) \<le> j" for j
  proof -
    have "j \<noteq> i" using that assms(2) by simp
    with assms(4,5) have "own j log = own j (fm_log (ex_mailbox w))" "j \<in> set claims \<longleftrightarrow> j \<in> set (ex_claims w)" by blast+
    with assms(1) that show ?thesis unfolding send_inv_def by simp
  qed
  ultimately show ?thesis using assms(6-8) by (simp add: send_inv_def)
qed

lemma send_inv_same:
  "send_inv w \<Longrightarrow> ex_tasks w' = ex_tasks w \<Longrightarrow> fm_log (ex_mailbox w') = fm_log (ex_mailbox w) \<Longrightarrow> ex_claims w' = ex_claims w \<Longrightarrow> send_inv w'"
  by (simp add: send_inv_def)

lemma send_inv_task: "send_inv w \<Longrightarrow> i < length (ex_tasks w) \<Longrightarrow> task_inv (ex_claims w) (fm_log (ex_mailbox w)) i (ex_tasks w ! i)"
  by (simp add: send_inv_def)

lemma send_inv_spawn:
  assumes "send_inv w" "ex_tasks w' = ex_tasks w @ [forwarder_new k src]" "ex_mailbox w' = ex_mailbox w" "ex_claims w' = ex_claims w"
  shows "send_inv w'"
proof -
  have new: "task_inv (ex_claims w) (fm_log (ex_mailbox w)) (length (ex_tasks w)) (forwarder_new k src)"
    using assms(1) by (intro new_task) (auto simp: send_inv_def)
  have "task_inv (ex_claims w) (fm_log (ex_mailbox w)) i ((ex_tasks w @ [forwarder_new k src]) ! i)" if "i < Suc (length (ex_tasks w))" for i
    using that new assms(1) by (cases "i = length (ex_tasks w)") (auto simp: send_inv_def nth_append)
  with assms show ?thesis by (simp add: send_inv_def)
qed

lemma send_inv_claim:
  assumes "send_inv w" "i < length (ex_tasks w)"
  shows "send_inv (snd (claim_timer i w))"
proof (cases "is_oneshot (ex_tasks w ! i) \<and> fw_claimed (ex_tasks w ! i)")
  case True
  then show ?thesis using assms(1) by (simp add: claim_timer_def)
next
  case False
  note t = claim_task [OF send_inv_task [OF assms] False]
  show ?thesis by (rule send_inv_update [OF assms t]) (use False in \<open>auto simp: claim_timer_def Let_def\<close>)
qed

lemma claim_timer_frame:
  "length (ex_tasks (snd (claim_timer i w))) = length (ex_tasks w)" "ex_timers (snd (claim_timer i w)) = ex_timers w"
  "ex_streams (snd (claim_timer i w)) = ex_streams w" "ex_kinds (snd (claim_timer i w)) = ex_kinds w"
  "ex_registered (snd (claim_timer i w)) = ex_registered w" "ex_done (snd (claim_timer i w)) = ex_done w"
  "ex_taken (snd (claim_timer i w)) = ex_taken w" "ex_mailbox (snd (claim_timer i w)) = ex_mailbox w"
  by (simp_all add: claim_timer_def Let_def)

lemma send_inv_claims:
  assumes "send_inv w" "list_all (\<lambda>i. i < length (ex_tasks w)) is"
  shows "send_inv (foldl (\<lambda>v i. snd (claim_timer i v)) w is)"
  using foldl_keeps [of "\<lambda>v. send_inv v \<and> length (ex_tasks v) = length (ex_tasks w)" "is"] assms send_inv_claim claim_timer_frame(1)
  by (simp add: list_all_iff)

lemma send_inv_cancel:
  assumes "send_inv w" "i < length (ex_tasks w)"
  shows "send_inv (cancel_token i w)"
  by (rule send_inv_update [OF assms cancel_task [OF send_inv_task [OF assms]]]) (auto simp: cancel_token_def)

lemma cancel_token_frame:
  "length (ex_tasks (cancel_token i w)) = length (ex_tasks w)" "ex_timers (cancel_token i w) = ex_timers w"
  "ex_streams (cancel_token i w) = ex_streams w" "ex_kinds (cancel_token i w) = ex_kinds w"
  "ex_registered (cancel_token i w) = ex_registered w" "ex_done (cancel_token i w) = ex_done w"
  "ex_taken (cancel_token i w) = ex_taken w" "ex_mailbox (cancel_token i w) = ex_mailbox w"
  by (simp_all add: cancel_token_def)

lemma send_inv_cancels:
  assumes "send_inv w" "list_all (\<lambda>i. i < length (ex_tasks w)) is"
  shows "send_inv (foldl (\<lambda>v i. cancel_token i v) w is)"
  using foldl_keeps [of "\<lambda>v. send_inv v \<and> length (ex_tasks v) = length (ex_tasks w)" "is"] assms send_inv_cancel cancel_token_frame(1)
  by (simp add: list_all_iff)

lemma reap_frame:
  "ex_tasks (snd (reap_forwarder i j w)) = ex_tasks w" "ex_mailbox (snd (reap_forwarder i j w)) = ex_mailbox w"
  "ex_claims (snd (reap_forwarder i j w)) = ex_claims w" "ex_registered (snd (reap_forwarder i j w)) = ex_registered w"
  "ex_done (snd (reap_forwarder i j w)) = ex_done w" "ex_taken (snd (reap_forwarder i j w)) = ex_taken w + 1"
  "ex_kinds (snd (reap_forwarder i j w)) = hdel i (ex_kinds w)"
  by (simp_all add: reap_forwarder_def unregister_kind_def Let_def split: option.split forwarder_kind.split)

lemma join_frame:
  "ex_tasks (end_forwarders_join r i j w) = ex_tasks w" "ex_mailbox (end_forwarders_join r i j w) = ex_mailbox w"
  "ex_claims (end_forwarders_join r i j w) = ex_claims w" "ex_registered (end_forwarders_join r i j w) = ex_registered w"
  "ex_done (end_forwarders_join r i j w) = ex_done w"
  by (simp_all add: end_forwarders_join_def reap_frame split: joined.split forwarder_end.split option.split)

lemma send_inv_join:
  assumes "send_inv w"
  shows "send_inv (join_next i w)"
proof -
  have "send_inv (taken_out i w)" if "i < length (ex_tasks w)" "fw_stage (ex_tasks w ! i) = Joinable j" for j
    using stage_change_task [OF send_inv_task [OF assms that(1)], of Reaped] that
    by (intro send_inv_update [OF assms that(1)]) (auto simp: taken_out_def is_alive_def)
  then have "send_inv (snd (reap_forwarder i j (taken_out i w)))" "send_inv (end_forwarders_join r i j (taken_out i w))"
    if "i < length (ex_tasks w)" "fw_stage (ex_tasks w ! i) = Joinable j" for r j
    using that by (auto intro: send_inv_same simp: reap_frame join_frame)
  then show ?thesis using assms by (simp add: join_next_def split: stage.split option.split)
qed

section \<open>Registrations\<close>

definition live :: "extras \<Rightarrow> forwarder_kind \<Rightarrow> nat \<Rightarrow> bool" where
  "live w k i \<longleftrightarrow>
     i < length (ex_tasks w) \<and> fw_kind (ex_tasks w ! i) = k \<and> (ex_registered w = None \<longrightarrow> fw_stage (ex_tasks w ! i) \<noteq> Reaped)"

definition kinds_ok :: "extras \<Rightarrow> bool" where
  "kinds_ok w \<longleftrightarrow>
     (\<forall>i. hget (ex_kinds w) i =
        (if i < length (ex_tasks w) \<and> fw_stage (ex_tasks w ! i) \<noteq> Reaped then Some (fw_kind (ex_tasks w ! i)) else None))"

definition reg_inv :: "extras \<Rightarrow> bool" where
  "reg_inv w \<longleftrightarrow>
     distinct (map fst (ex_timers w)) \<and> distinct (map fst (ex_streams w)) \<and>
     (\<forall>(k, i) \<in> set (ex_timers w). live w (KindTimer k) i) \<and> (\<forall>(k, i) \<in> set (ex_streams w). live w (KindStream k) i) \<and>
     (ex_registered w = None \<longrightarrow> kinds_ok w)"

text \<open>Steps that keep the kinds, and which tasks are reaped, of all tasks.\<close>

definition same_tasks :: "extras \<Rightarrow> extras \<Rightarrow> bool" where
  "same_tasks w w' \<longleftrightarrow>
     length (ex_tasks w') = length (ex_tasks w) \<and> ex_registered w' = ex_registered w \<and>
     (\<forall>i < length (ex_tasks w). fw_kind (ex_tasks w' ! i) = fw_kind (ex_tasks w ! i) \<and>
        (fw_stage (ex_tasks w' ! i) = Reaped \<longleftrightarrow> fw_stage (ex_tasks w ! i) = Reaped))"

lemma same_tasks_refl [simp]: "same_tasks w w"
  by (simp add: same_tasks_def)

lemma same_tasks_trans: "same_tasks w v \<Longrightarrow> same_tasks v u \<Longrightarrow> same_tasks w u"
  unfolding same_tasks_def by (metis (no_types, lifting))

lemma same_tasks_live: "same_tasks w w' \<Longrightarrow> live w' k i = live w k i"
  by (auto simp: same_tasks_def live_def)

lemma same_tasks_kinds: "same_tasks w w' \<Longrightarrow> ex_kinds w' = ex_kinds w \<Longrightarrow> kinds_ok w \<Longrightarrow> kinds_ok w'"
  unfolding same_tasks_def kinds_ok_def by (metis (no_types, lifting))

lemma reg_inv_same:
  assumes "reg_inv w" "same_tasks w w'" "ex_kinds w' = ex_kinds w" "set (ex_timers w') \<subseteq> set (ex_timers w)"
    and "set (ex_streams w') \<subseteq> set (ex_streams w)" "distinct (map fst (ex_timers w'))" "distinct (map fst (ex_streams w'))"
  shows "reg_inv w'"
proof -
  have "ex_registered w' = ex_registered w" using assms(2) by (simp add: same_tasks_def)
  then have "ex_registered w' = None \<longrightarrow> kinds_ok w'" using assms(1-3) same_tasks_kinds by (simp add: reg_inv_def)
  then show ?thesis
    using assms(1,4-7) unfolding reg_inv_def same_tasks_live [OF assms(2)] by blast
qed

lemma same_tasks_update:
  assumes "i < length (ex_tasks w)" "fw_kind t = fw_kind (ex_tasks w ! i)" "fw_stage t = Reaped \<longleftrightarrow> fw_stage (ex_tasks w ! i) = Reaped"
    and "ex_tasks w' = (ex_tasks w)[i := t]" "ex_registered w' = ex_registered w"
  shows "same_tasks w w'"
  using assms by (auto simp: same_tasks_def nth_list_update)

lemma oneshot_go_reaped: "fw_stage t = Alive pc \<Longrightarrow> fw_stage (fst (oneshot_go i ch pc t mb)) \<noteq> Reaped"
  by (cases "(i, ch, pc, t, mb)" rule: oneshot_go.cases) (auto simp: go_defs split: reservation.splits)

lemma recurring_go_reaped: "fw_stage t = Alive pc \<Longrightarrow> fw_stage (fst (recurring_go i ch pc t mb)) \<noteq> Reaped"
  by (cases "(i, ch, pc, t, mb)" rule: recurring_go.cases)
    (auto simp: go_defs split: reservation.splits option.splits miss_policy.splits)

lemma stream_go_reaped: "fw_stage t = Alive pc \<Longrightarrow> fw_stage (fst (stream_go i ch pc t mb)) \<noteq> Reaped"
  by (cases "(i, ch, pc, t, mb)" rule: stream_go.cases)
    (auto simp: go_defs split: reservation.splits option.splits list.splits)

lemma forwarder_go_reaped: "fw_stage (fst (forwarder_go i ch t mb)) = Reaped \<longleftrightarrow> fw_stage t = Reaped"
  by (auto simp: forwarder_go_def oneshot_go_reaped recurring_go_reaped stream_go_reaped split: stage.split source.split)

lemma drop_completes_reaped:
  "fw_stage (forwarder_drop p t) = Reaped \<longleftrightarrow> fw_stage t = Reaped" "fw_kind (forwarder_drop p t) = fw_kind t"
  "fw_stage (task_completes t) = Reaped \<longleftrightarrow> fw_stage t = Reaped" "fw_kind (task_completes t) = fw_kind t"
  by (auto simp: forwarder_drop_def task_completes_def split: stage.split)

lemma same_tasks_claim: "same_tasks w (snd (claim_timer i w))"
  by (cases "i < length (ex_tasks w)") (auto simp: claim_timer_def same_tasks_def Let_def nth_list_update)

lemma same_tasks_cancel: "same_tasks w (cancel_token i w)"
  by (cases "i < length (ex_tasks w)") (auto simp: cancel_token_def same_tasks_def nth_list_update)

lemma same_tasks_claims: "same_tasks w (foldl (\<lambda>v i. snd (claim_timer i v)) w xs)"
  by (rule foldl_keeps [where P = "same_tasks w"]) (rule same_tasks_trans [OF _ same_tasks_claim], simp_all)

lemma same_tasks_cancels: "same_tasks w (foldl (\<lambda>v i. cancel_token i v) w xs)"
  by (rule foldl_keeps [where P = "same_tasks w"]) (rule same_tasks_trans [OF _ same_tasks_cancel], simp_all)

lemma delete_entries: "set (hdel k m) \<subseteq> set m" "distinct (map fst m) \<Longrightarrow> distinct (map fst (hdel k m))"
  by (auto simp: AList.delete_eq distinct_map_filter)

lemma live_spawn: "ex_tasks w' = ex_tasks w @ [t] \<Longrightarrow> ex_registered w' = ex_registered w \<Longrightarrow> live w k i \<Longrightarrow> live w' k i"
  by (auto simp: live_def nth_append)

lemma live_new: "ex_tasks w' = ex_tasks w @ [forwarder_new k src] \<Longrightarrow> live w' k (length (ex_tasks w))"
  by (simp add: live_def forwarder_new_def)

lemma kinds_spawn:
  assumes "kinds_ok w" "ex_tasks w' = ex_tasks w @ [forwarder_new k src]" "ex_kinds w' = hput (length (ex_tasks w)) k (ex_kinds w)"
  shows "kinds_ok w'"
  using assms unfolding kinds_ok_def by (auto simp: hget_hput nth_append forwarder_new_def less_Suc_eq)

lemma reg_inv_spawn:
  assumes "reg_inv w" "ex_tasks w' = ex_tasks w @ [forwarder_new k src]" "ex_kinds w' = hput (length (ex_tasks w)) k (ex_kinds w)"
    and "ex_registered w' = ex_registered w"
    and "k = KindTimer n \<and> ex_timers w' = hput n (length (ex_tasks w)) (ex_timers w) \<and> ex_streams w' = ex_streams w \<or>
      k = KindStream n \<and> ex_streams w' = hput n (length (ex_tasks w)) (ex_streams w) \<and> ex_timers w' = ex_timers w"
  shows "reg_inv w'"
proof -
  note old = live_spawn [OF assms(2,4)] and new = live_new [OF assms(2)]
  have "\<forall>(m, i) \<in> set (ex_timers w'). live w' (KindTimer m) i" "\<forall>(m, i) \<in> set (ex_streams w'). live w' (KindStream m) i"
    using assms(1,5) old new update_entries(1) unfolding reg_inv_def by fastforce+
  moreover have "distinct (map fst (ex_timers w'))" "distinct (map fst (ex_streams w'))"
    using assms(1,5) update_entries(2) unfolding reg_inv_def by metis+
  moreover have "ex_registered w' = None \<longrightarrow> kinds_ok w'"
    using assms(1,4) kinds_spawn [OF _ assms(2,3)] by (simp add: reg_inv_def)
  ultimately show ?thesis by (simp add: reg_inv_def)
qed

lemma reap_entries:
  assumes "hget (ex_kinds w) i = Some k"
  shows "ex_timers (snd (reap_forwarder i j w)) = (case k of KindTimer n \<Rightarrow> hdel n (ex_timers w) | _ \<Rightarrow> ex_timers w)"
    "ex_streams (snd (reap_forwarder i j w)) = (case k of KindStream n \<Rightarrow> hdel n (ex_streams w) | _ \<Rightarrow> ex_streams w)"
  using assms by (simp_all add: reap_forwarder_def unregister_kind_def Let_def split: option.split forwarder_kind.split)

lemma reg_inv_reap:
  assumes "reg_inv w" "i < length (ex_tasks w)" "fw_stage (ex_tasks w ! i) = Joinable j" "ex_registered w = None"
  shows "reg_inv (snd (reap_forwarder i j (taken_out i w)))"
proof -
  let ?k = "fw_kind (ex_tasks w ! i)" and ?w = "snd (reap_forwarder i j (taken_out i w))"
  have k: "hget (ex_kinds (taken_out i w)) i = Some ?k"
    using assms by (simp add: reg_inv_def kinds_ok_def taken_out_def)
  have tasks: "ex_tasks ?w = (ex_tasks w)[i := (ex_tasks w ! i)\<lparr>fw_stage := Reaped\<rparr>]" "ex_registered ?w = None"
    "ex_kinds ?w = hdel i (ex_kinds w)"
    using assms(4) by (simp_all add: reap_frame) (simp_all add: taken_out_def)
  have entries: "ex_timers ?w = (case ?k of KindTimer n \<Rightarrow> hdel n (ex_timers w) | _ \<Rightarrow> ex_timers w)"
    "ex_streams ?w = (case ?k of KindStream n \<Rightarrow> hdel n (ex_streams w) | _ \<Rightarrow> ex_streams w)"
    using reap_entries [OF k] by (simp_all add: taken_out_def cong: forwarder_kind.case_cong)
  have live: "live ?w k' m" if "live w k' m" "m \<noteq> i" for k' m
    using that tasks assms(4) by (simp add: live_def)
  have t: "live ?w (KindTimer n) m" if "(n, m) \<in> set (ex_timers ?w)" for n m
  proof -
    have mem: "(n, m) \<in> set (ex_timers w)"
      using that entries(1) delete_entries(1) by (fastforce split: forwarder_kind.splits)
    then have l: "live w (KindTimer n) m" using assms(1) by (auto simp: reg_inv_def)
    have "m \<noteq> i"
    proof
      assume "m = i"
      then have "?k = KindTimer n" using l by (simp add: live_def)
      then have "(n, m) \<in> set (hdel n (ex_timers w))" using that entries(1) by simp
      then show False by (simp add: AList.delete_eq)
    qed
    with live l show ?thesis by blast
  qed
  have st: "live ?w (KindStream n) m" if "(n, m) \<in> set (ex_streams ?w)" for n m
  proof -
    have mem: "(n, m) \<in> set (ex_streams w)"
      using that entries(2) delete_entries(1) by (fastforce split: forwarder_kind.splits)
    then have l: "live w (KindStream n) m" using assms(1) by (auto simp: reg_inv_def)
    have "m \<noteq> i"
    proof
      assume "m = i"
      then have "?k = KindStream n" using l by (simp add: live_def)
      then have "(n, m) \<in> set (hdel n (ex_streams w))" using that entries(2) by simp
      then show False by (simp add: AList.delete_eq)
    qed
    with live l show ?thesis by blast
  qed
  have kinds: "kinds_ok ?w"
    using assms tasks by (auto simp: reg_inv_def kinds_ok_def hget_hdel nth_list_update)
  have "distinct (map fst (ex_timers ?w))" "distinct (map fst (ex_streams ?w))"
    using assms(1) entries delete_entries(2) by (auto simp: reg_inv_def split: forwarder_kind.splits)
  with t st kinds show ?thesis unfolding reg_inv_def by blast
qed

text \<open>During the end the registrations only shrink.\<close>

lemma reg_inv_ending:
  assumes "reg_inv w" "ex_registered w' = Some r" "length (ex_tasks w') = length (ex_tasks w)"
    and "\<And>i. i < length (ex_tasks w) \<Longrightarrow> fw_kind (ex_tasks w' ! i) = fw_kind (ex_tasks w ! i)"
    and "set (ex_timers w') \<subseteq> set (ex_timers w)" "set (ex_streams w') \<subseteq> set (ex_streams w)"
    and "distinct (map fst (ex_timers w'))" "distinct (map fst (ex_streams w'))"
  shows "reg_inv w'"
proof -
  have "live w' k i" if "live w k i" for k i using that assms(2-4) by (simp add: live_def)
  then show ?thesis using assms(1,2,5-8) unfolding reg_inv_def by (auto; blast)
qed

lemma unregister_entries:
  "set (ex_timers (unregister_kind k w)) \<subseteq> set (ex_timers w)" "set (ex_streams (unregister_kind k w)) \<subseteq> set (ex_streams w)"
  "distinct (map fst (ex_timers w)) \<Longrightarrow> distinct (map fst (ex_timers (unregister_kind k w)))"
  "distinct (map fst (ex_streams w)) \<Longrightarrow> distinct (map fst (ex_streams (unregister_kind k w)))"
  by (auto simp: unregister_kind_def AList.delete_eq distinct_map_filter split: option.splits forwarder_kind.splits)

lemma reap_shrinks:
  "set (ex_timers (snd (reap_forwarder i j w))) \<subseteq> set (ex_timers w)"
  "set (ex_streams (snd (reap_forwarder i j w))) \<subseteq> set (ex_streams w)"
  "distinct (map fst (ex_timers w)) \<Longrightarrow> distinct (map fst (ex_timers (snd (reap_forwarder i j w))))"
  "distinct (map fst (ex_streams w)) \<Longrightarrow> distinct (map fst (ex_streams (snd (reap_forwarder i j w))))"
  using unregister_entries [where k = "hget (ex_kinds w) i" and w = "w\<lparr>ex_taken := ex_taken w + 1, ex_unpolled := True, ex_kinds := hdel i (ex_kinds w)\<rparr>"]
  by (simp_all add: reap_forwarder_def Let_def split: option.split)

lemma join_shrinks:
  "set (ex_timers (end_forwarders_join r i j w)) \<subseteq> set (ex_timers w)"
  "set (ex_streams (end_forwarders_join r i j w)) \<subseteq> set (ex_streams w)"
  "distinct (map fst (ex_timers w)) \<Longrightarrow> distinct (map fst (ex_timers (end_forwarders_join r i j w)))"
  "distinct (map fst (ex_streams w)) \<Longrightarrow> distinct (map fst (ex_streams (end_forwarders_join r i j w)))"
  using reap_shrinks [where i = i and w = w]
    reap_shrinks [where i = i and w = "w\<lparr>ex_first := f\<rparr>" for f]
  by (simp_all add: end_forwarders_join_def split: joined.split forwarder_end.split option.split)

lemma reg_inv_join:
  assumes "reg_inv w"
  shows "reg_inv (join_next i w)"
proof (cases "i < length (ex_tasks w) \<and> (\<exists>j. fw_stage (ex_tasks w ! i) = Joinable j)")
  case True
  then obtain j where j: "i < length (ex_tasks w)" "fw_stage (ex_tasks w ! i) = Joinable j" by blast
  show ?thesis
  proof (cases "ex_registered w")
    case None
    then show ?thesis using reg_inv_reap [OF assms j] j by (simp add: join_next_def)
  next
    case (Some r)
    have "reg_inv (end_forwarders_join r i j (taken_out i w))"
    proof (rule reg_inv_ending [OF assms])
      show "ex_registered (end_forwarders_join r i j (taken_out i w)) = Some r" using Some by (simp add: join_frame taken_out_def)
      show "length (ex_tasks (end_forwarders_join r i j (taken_out i w))) = length (ex_tasks w)"
        by (simp add: join_frame taken_out_def)
      show "fw_kind (ex_tasks (end_forwarders_join r i j (taken_out i w)) ! m) = fw_kind (ex_tasks w ! m)"
        if "m < length (ex_tasks w)" for m using that by (cases "m = i") (simp_all add: join_frame taken_out_def)
    qed (use join_shrinks [where r = r and i = i and j = j and w = "taken_out i w"] assms in \<open>simp_all add: taken_out_def reg_inv_def\<close>)
    then show ?thesis using Some j by (simp add: join_next_def)
  qed
next
  case False
  then have "join_next i w = w" by (auto simp: join_next_def split: stage.splits)
  then show ?thesis using assms by simp
qed

section \<open>Counts\<close>

definition ended :: "stage list \<Rightarrow> nat" where
  "ended sts = length (filter (\<lambda>st. \<forall>pc. st \<noteq> Alive pc) sts)"

definition reaped :: "stage list \<Rightarrow> nat" where
  "reaped sts = length (filter (\<lambda>st. st = Reaped) sts)"

abbreviation stages :: "extras \<Rightarrow> stage list" where
  "stages w \<equiv> map fw_stage (ex_tasks w)"

definition count_inv :: "extras \<Rightarrow> bool" where
  "count_inv w \<longleftrightarrow>
     ex_done w = (if ex_tasks w = [] then None else Some (of_nat (ended (stages w)))) \<and>
     (ex_registered w = None \<longrightarrow> ex_taken w = of_nat (reaped (stages w)))"

lemma length_filter_update:
  "i < length xs \<Longrightarrow>
   length (filter P (xs[i := x])) + (if P (xs ! i) then 1 else 0) = length (filter P xs) + (if P x then 1 else 0)"
proof (induction xs arbitrary: i)
  case (Cons y ys)
  then show ?case by (cases i) auto
qed simp

lemma ended_update:
  "i < length sts \<Longrightarrow> (\<nexists>pc. sts ! i = Alive pc) \<longrightarrow> (\<nexists>pc. st = Alive pc) \<Longrightarrow>
   ended (sts[i := st]) = ended sts + (if (\<exists>pc. sts ! i = Alive pc) \<and> (\<nexists>pc. st = Alive pc) then 1 else 0)"
  using length_filter_update [of i sts "\<lambda>st. \<forall>pc. st \<noteq> Alive pc" st] by (auto simp: ended_def split: if_splits)

lemma reaped_update:
  "i < length sts \<Longrightarrow> (st = Reaped \<longleftrightarrow> sts ! i = Reaped) \<Longrightarrow> reaped (sts[i := st]) = reaped sts"
  using length_filter_update [of i sts "\<lambda>st. st = Reaped" st] by (auto simp: reaped_def split: if_splits)

lemma reaped_take:
  "i < length sts \<Longrightarrow> sts ! i = Joinable j \<Longrightarrow> reaped (sts[i := Reaped]) = reaped sts + 1 \<and> ended (sts[i := Reaped]) = ended sts"
  using length_filter_update [of i sts "\<lambda>st. st = Reaped" Reaped] ended_update [of i sts Reaped] by (simp add: reaped_def)

lemma count_inv_same:
  "count_inv w \<Longrightarrow> stages w' = stages w \<Longrightarrow> ex_done w' = ex_done w \<Longrightarrow> ex_taken w' = ex_taken w \<Longrightarrow>
   (ex_registered w' = None \<Longrightarrow> ex_registered w = None) \<Longrightarrow> count_inv w'"
  unfolding count_inv_def by (metis map_is_Nil_conv)

lemma claim_stages: "stages (snd (claim_timer i w)) = stages w"
  by (cases "i < length (ex_tasks w)") (auto simp: claim_timer_def Let_def map_update list_update_same_conv list_update_beyond)

lemma cancel_stages: "stages (cancel_token i w) = stages w"
  by (cases "i < length (ex_tasks w)") (auto simp: cancel_token_def map_update list_update_same_conv list_update_beyond)

lemma count_inv_becomes:
  assumes "count_inv w" "i < length (ex_tasks w)" "\<not> is_alive (ex_tasks w ! i) \<longrightarrow> \<not> is_alive t"
    and "fw_stage t = Reaped \<longleftrightarrow> fw_stage (ex_tasks w ! i) = Reaped"
  shows "count_inv (task_becomes i t mb w)"
proof -
  have st: "stages (task_becomes i t mb w) = (stages w)[i := fw_stage t]" by (simp add: task_becomes_def map_update)
  have "ex_tasks w \<noteq> []" using assms(2) by auto
  moreover have "ended ((stages w)[i := fw_stage t]) = ended (stages w) + (if is_alive (ex_tasks w ! i) \<and> \<not> is_alive t then 1 else 0)"
    using ended_update [of i "stages w" "fw_stage t"] assms(2,3) by (simp add: is_alive_def)
  moreover have "reaped ((stages w)[i := fw_stage t]) = reaped (stages w)"
    using assms(2,4) by (intro reaped_update) simp_all
  ultimately show ?thesis
    using assms(1) unfolding count_inv_def st by (simp add: task_becomes_def count_end_def)
qed

lemma count_inv_spawn:
  assumes "count_inv w" "ex_tasks w' = ex_tasks w @ [forwarder_new k src]" "ex_registered w' = ex_registered w" "ex_taken w' = ex_taken w"
    and "ex_done w' = Some (case ex_done w of Some d \<Rightarrow> d | None \<Rightarrow> 0)"
  shows "count_inv w'"
proof -
  have "ended (stages w') = ended (stages w)" "reaped (stages w') = reaped (stages w)"
    using assms(2) by (simp_all add: ended_def reaped_def forwarder_new_def)
  moreover have "ended (stages w) = 0" if "ex_tasks w = []" using that by (simp add: ended_def)
  ultimately show ?thesis using assms by (auto simp: count_inv_def)
qed

lemma count_inv_join:
  assumes "count_inv w"
  shows "count_inv (join_next i w)"
proof (cases "i < length (ex_tasks w) \<and> (\<exists>j. fw_stage (ex_tasks w ! i) = Joinable j)")
  case True
  then obtain j where j: "i < length (ex_tasks w)" "fw_stage (ex_tasks w ! i) = Joinable j" by blast
  have t: "stages (taken_out i w) = (stages w)[i := Reaped]" by (simp add: taken_out_def map_update)
  have c: "reaped ((stages w)[i := Reaped]) = reaped (stages w) + 1" "ended ((stages w)[i := Reaped]) = ended (stages w)"
    using reaped_take [of i "stages w" j] j by simp_all
  have ne: "ex_tasks w \<noteq> []" "ex_tasks (taken_out i w) \<noteq> []" using j(1) by (auto simp: taken_out_def)
  show ?thesis
  proof (cases "ex_registered w")
    case None
    have "count_inv (snd (reap_forwarder i j (taken_out i w)))"
      using assms None c ne unfolding count_inv_def reap_frame t by (simp add: taken_out_def)
    then show ?thesis using j None by (simp add: join_next_def)
  next
    case (Some r)
    have "count_inv (end_forwarders_join r i j (taken_out i w))"
      using assms Some c ne unfolding count_inv_def join_frame t by (simp add: taken_out_def)
    then show ?thesis using j Some by (simp add: join_next_def)
  qed
next
  case False
  then have "join_next i w = w" by (auto simp: join_next_def split: stage.splits)
  then show ?thesis using assms by simp
qed

section \<open>All together\<close>

definition fwd_inv :: "extras \<Rightarrow> bool" where
  "fwd_inv w \<longleftrightarrow> send_inv w \<and> reg_inv w \<and> count_inv w"

lemma becomes_inv:
  assumes "fwd_inv w" "i < length (ex_tasks w)" "task_inv (ex_claims w) (fm_log mb) i t"
    and "\<And>j. j \<noteq> i \<Longrightarrow> own j (fm_log mb) = own j (fm_log (ex_mailbox w))"
    and "fw_kind t = fw_kind (ex_tasks w ! i)" "fw_stage t = Reaped \<longleftrightarrow> fw_stage (ex_tasks w ! i) = Reaped"
    and "\<not> is_alive (ex_tasks w ! i) \<longrightarrow> \<not> is_alive t"
  shows "fwd_inv (task_becomes i t mb w)"
proof -
  have "send_inv w" "reg_inv w" "count_inv w" using assms(1) by (simp_all add: fwd_inv_def)
  have "send_inv (task_becomes i t mb w)"
    by (rule send_inv_update [OF \<open>send_inv w\<close> assms(2,3,4)]) (simp_all add: task_becomes_def)
  moreover have "same_tasks w (task_becomes i t mb w)"
    by (rule same_tasks_update [OF assms(2,5,6)]) (simp_all add: task_becomes_def)
  then have "reg_inv (task_becomes i t mb w)"
    using \<open>reg_inv w\<close> by (intro reg_inv_same [OF \<open>reg_inv w\<close>]) (simp_all add: task_becomes_def reg_inv_def)
  ultimately show ?thesis
    using count_inv_becomes [OF \<open>count_inv w\<close> assms(2,7,6)] by (simp add: fwd_inv_def)
qed

lemma forwarder_go_alive: "\<not> is_alive t \<longrightarrow> \<not> is_alive (fst (forwarder_go i ch t mb))"
  by (cases "fw_stage t") (auto simp: forwarder_go_def is_alive_def)

lemma drop_completes_alive:
  "\<not> is_alive t \<longrightarrow> \<not> is_alive (forwarder_drop p t)" "\<not> is_alive t \<longrightarrow> \<not> is_alive (task_completes t)"
  by (cases "fw_stage t"; auto simp: forwarder_drop_def task_completes_def is_alive_def)+

lemma spawn_inv:
  assumes "fwd_inv w" "ex_tasks w' = ex_tasks w @ [forwarder_new k src]" "ex_kinds w' = hput (length (ex_tasks w)) k (ex_kinds w)"
    and "ex_registered w' = ex_registered w" "ex_mailbox w' = ex_mailbox w" "ex_claims w' = ex_claims w" "ex_taken w' = ex_taken w"
    and "ex_done w' = Some (case ex_done w of Some d \<Rightarrow> d | None \<Rightarrow> 0)"
    and "k = KindTimer n \<and> ex_timers w' = hput n (length (ex_tasks w)) (ex_timers w) \<and> ex_streams w' = ex_streams w \<or>
      k = KindStream n \<and> ex_streams w' = hput n (length (ex_tasks w)) (ex_streams w) \<and> ex_timers w' = ex_timers w"
  shows "fwd_inv w'"
  using assms(1) send_inv_spawn [OF _ assms(2,5,6)] reg_inv_spawn [OF _ assms(2,3,4,9)] count_inv_spawn [OF _ assms(2,4,7,8)]
  unfolding fwd_inv_def by blast

lemma timer_index: "reg_inv w \<Longrightarrow> hget (ex_timers w) k = Some i \<Longrightarrow> i < length (ex_tasks w)"
  by (auto simp: reg_inv_def live_def dest!: map_of_SomeD)

lemma stream_index: "reg_inv w \<Longrightarrow> hget (ex_streams w) k = Some i \<Longrightarrow> i < length (ex_tasks w)"
  by (auto simp: reg_inv_def live_def dest!: map_of_SomeD)

lemma inv_shrink:
  assumes "fwd_inv w" "set ts \<subseteq> set (ex_timers w)" "distinct (map fst ts)" "set ss \<subseteq> set (ex_streams w)" "distinct (map fst ss)"
  shows "fwd_inv (w\<lparr>ex_timers := ts, ex_streams := ss\<rparr>)"
proof -
  have "same_tasks w (w\<lparr>ex_timers := ts, ex_streams := ss\<rparr>)" by (simp add: same_tasks_def)
  then show ?thesis
    using assms reg_inv_same [of w] by (simp add: fwd_inv_def send_inv_def count_inv_def)
qed

lemma inv_tasks:
  assumes "fwd_inv w" "send_inv w'" "same_tasks w w'" "stages w' = stages w" "ex_kinds w' = ex_kinds w" "ex_timers w' = ex_timers w"
    and "ex_streams w' = ex_streams w" "ex_done w' = ex_done w" "ex_taken w' = ex_taken w"
  shows "fwd_inv w'"
proof -
  have "reg_inv w" "count_inv w" using assms(1) by (simp_all add: fwd_inv_def)
  have "reg_inv w'"
    by (rule reg_inv_same [OF \<open>reg_inv w\<close> assms(3,5)]) (use \<open>reg_inv w\<close> assms in \<open>simp_all only: reg_inv_def order_refl\<close>)
  moreover have "ex_registered w' = ex_registered w" using assms(3) by (simp add: same_tasks_def)
  then have "count_inv w'" using count_inv_same [OF \<open>count_inv w\<close> assms(4,8,9)] by simp
  ultimately show ?thesis using assms(2) by (simp add: fwd_inv_def)
qed

lemma claim_inv: "fwd_inv w \<Longrightarrow> i < length (ex_tasks w) \<Longrightarrow> fwd_inv (snd (claim_timer i w))"
  by (rule inv_tasks [OF _ send_inv_claim same_tasks_claim claim_stages]) (simp_all add: fwd_inv_def claim_timer_frame)

lemma cancel_inv: "fwd_inv w \<Longrightarrow> i < length (ex_tasks w) \<Longrightarrow> fwd_inv (cancel_token i w)"
  by (rule inv_tasks [OF _ send_inv_cancel same_tasks_cancel cancel_stages]) (simp_all add: fwd_inv_def cancel_token_frame)

lemma fold_inv:
  assumes "fwd_inv w" "\<And>v i. fwd_inv v \<Longrightarrow> i < length (ex_tasks v) \<Longrightarrow> fwd_inv (f v i)"
    and "\<And>v i. length (ex_tasks (f v i)) = length (ex_tasks v)" "\<forall>i \<in> set xs. i < length (ex_tasks w)"
  shows "fwd_inv (foldl f w xs)"
  using assms(1,4) by (induction xs arbitrary: w) (auto simp: assms(2,3))

lemma cancel_all_inv:
  assumes "fwd_inv w"
  shows "fwd_inv (cancel_all_timers w)" "fwd_inv (cancel_all_streams w)"
proof -
  let ?t = "foldl (\<lambda>v i. snd (claim_timer i v)) w (map snd (ex_timers w))" and ?s = "foldl (\<lambda>v i. cancel_token i v) w (map snd (ex_streams w))"
  have r: "reg_inv w" using assms by (simp add: fwd_inv_def)
  have t: "fwd_inv ?t" by (rule fold_inv [OF assms claim_inv claim_timer_frame(1)]) (use r in \<open>auto simp: reg_inv_def live_def\<close>)
  then have "distinct (map fst (ex_streams ?t))" by (simp add: fwd_inv_def reg_inv_def)
  with inv_shrink [OF t, of "[]" "ex_streams ?t"] show "fwd_inv (cancel_all_timers w)" by (simp add: cancel_all_timers_def)
  have s: "fwd_inv ?s" by (rule fold_inv [OF assms cancel_inv cancel_token_frame(1)]) (use r in \<open>auto simp: reg_inv_def live_def\<close>)
  then have "distinct (map fst (ex_timers ?s))" by (simp add: fwd_inv_def reg_inv_def)
  with inv_shrink [OF s, of "ex_timers ?s" "[]"] show "fwd_inv (cancel_all_streams w)" by (simp add: cancel_all_streams_def)
qed

lemma cancel_one_inv:
  assumes "fwd_inv w"
  shows "fwd_inv (snd (cancel_timer k w))" "fwd_inv (snd (cancel_stream k w))"
proof -
  have r: "reg_inv w" using assms by (simp add: fwd_inv_def)
  show "fwd_inv (snd (cancel_timer k w))"
  proof (cases "hget (ex_timers w) k")
    case (Some i)
    have "fwd_inv (w\<lparr>ex_timers := hdel k (ex_timers w)\<rparr>)"
      using inv_shrink [OF assms, of "hdel k (ex_timers w)" "ex_streams w"] r by (simp add: reg_inv_def delete_entries)
    then have "fwd_inv (snd (claim_timer i (w\<lparr>ex_timers := hdel k (ex_timers w)\<rparr>)))"
      using claim_inv timer_index [OF r Some] by simp
    then show ?thesis using Some by (auto simp: cancel_timer_def split: prod.split bool.split)
  qed (use assms in \<open>simp add: cancel_timer_def\<close>)
  show "fwd_inv (snd (cancel_stream k w))"
  proof (cases "hget (ex_streams w) k")
    case (Some i)
    have "fwd_inv (w\<lparr>ex_streams := hdel k (ex_streams w)\<rparr>)"
      using inv_shrink [OF assms, of "ex_timers w" "hdel k (ex_streams w)"] r by (simp add: reg_inv_def delete_entries)
    then show ?thesis using cancel_inv stream_index [OF r Some] Some by (simp add: cancel_stream_def)
  qed (use assms in \<open>simp add: cancel_stream_def\<close>)
qed

lemma register_inv:
  assumes "fwd_inv w"
  shows "fwd_inv (snd (register_oneshot due w))" "fwd_inv (snd (register_recurring interval policy w))" "fwd_inv (snd (add_stream items w))"
proof -
  show "fwd_inv (snd (register_oneshot due w))"
    by (rule spawn_inv [OF assms, where n = "rig_next (ex_ids w)" and k = "KindTimer (rig_next (ex_ids w))" and src = "OneShot due"])
      (simp_all add: register_oneshot_def spawn_forwarder_def next_id_def Let_def)
  show "fwd_inv (snd (register_recurring interval policy w))"
  proof (cases "interval = 0")
    case False
    then show ?thesis
      by (intro spawn_inv [OF assms, where n = "rig_next (ex_ids w)" and k = "KindTimer (rig_next (ex_ids w))" and src = "Recurring interval policy"])
        (simp_all add: register_recurring_def spawn_forwarder_def next_id_def Let_def)
  qed (use assms in \<open>simp add: register_recurring_def\<close>)
  show "fwd_inv (snd (add_stream items w))"
    by (rule spawn_inv [OF assms, where n = "rig_next (ex_ids w)" and k = "KindStream (rig_next (ex_ids w))" and src = "StreamOf items"])
      (simp_all add: add_stream_def spawn_forwarder_def next_stream_id_def Let_def)
qed

lemma end_begin_inv:
  assumes "fwd_inv w"
  shows "fwd_inv (end_forwarders_begin w)"
proof -
  let ?w = "end_forwarders_begin w"
  have "reg_inv w" using assms by (simp add: fwd_inv_def)
  then have "reg_inv ?w"
    by (intro reg_inv_ending [OF \<open>reg_inv w\<close>]) (simp_all add: end_forwarders_begin_def reg_inv_def)
  moreover have "send_inv ?w" "count_inv ?w"
    using assms by (simp_all add: fwd_inv_def send_inv_def count_inv_def end_forwarders_begin_def)
  ultimately show ?thesis by (simp add: fwd_inv_def)
qed

lemma mailbox_inv:
  assumes "fwd_inv w" "fm_log mb = fm_log (ex_mailbox w)"
  shows "fwd_inv (w\<lparr>ex_mailbox := mb\<rparr>)" "fwd_inv (w\<lparr>ex_unpolled := b\<rparr>)"
  using assms by (simp_all add: fwd_inv_def send_inv_def reg_inv_def count_inv_def live_def kinds_ok_def)

lemma forward_step_inv:
  assumes "fwd_inv w"
  shows "fwd_inv (forward_step w op)"
proof (cases op)
  case (ForwarderGo i ch)
  show ?thesis
  proof (cases "i < length (ex_tasks w)")
    case True
    let ?r = "forwarder_go i ch (ex_tasks w ! i) (ex_mailbox w)"
    have "task_inv (ex_claims w) (fm_log (snd ?r)) i (fst ?r)"
      using assms True by (intro forwarder_go_task send_inv_task) (simp_all add: fwd_inv_def)
    then have "fwd_inv (task_becomes i (fst ?r) (snd ?r) w)"
      using forwarder_go_frame forwarder_go_reaped forwarder_go_alive by (intro becomes_inv [OF assms True]) blast+
    then show ?thesis using ForwarderGo True by (simp add: split_def)
  qed (use assms ForwarderGo in simp)
next
  case (ForwarderDropped i p)
  show ?thesis
  proof (cases "i < length (ex_tasks w)")
    case True
    have "send_inv w" using assms by (simp add: fwd_inv_def)
    then have "fwd_inv (task_becomes i (forwarder_drop p (ex_tasks w ! i)) (ex_mailbox w) w)"
      using forwarder_drop_task [OF send_inv_task [OF _ True]] drop_completes_reaped drop_completes_alive
      by (intro becomes_inv [OF assms True]) blast+
    then show ?thesis using ForwarderDropped True by simp
  qed (use assms ForwarderDropped in simp)
next
  case (ForwarderCompletes i)
  show ?thesis
  proof (cases "i < length (ex_tasks w)")
    case True
    have "send_inv w" using assms by (simp add: fwd_inv_def)
    then have "fwd_inv (task_becomes i (task_completes (ex_tasks w ! i)) (ex_mailbox w) w)"
      using task_completes_task [OF send_inv_task [OF _ True]] drop_completes_reaped drop_completes_alive
      by (intro becomes_inv [OF assms True]) blast+
    then show ?thesis using ForwarderCompletes True by simp
  qed (use assms ForwarderCompletes in simp)
next
  case (JoinNext i)
  then show ?thesis using assms send_inv_join reg_inv_join count_inv_join by (simp add: fwd_inv_def)
qed (use assms register_inv cancel_one_inv cancel_all_inv end_begin_inv mailbox_inv in \<open>simp_all add: note_forwarders_polled_def\<close>)

interpretation fwd: invariant_machine forward_step fwd_inv
  by unfold_locales (rule forward_step_inv)

lemma fwd_inv_new: "fwd_inv (extras_new room)"
  by (simp add: fwd_inv_def send_inv_def reg_inv_def count_inv_def kinds_ok_def extras_new_def reaped_def)

lemmas fwd_reachable = fwd.run_inv [OF fwd_inv_new]

section \<open>What stays\<close>

text \<open>Along a run the tasks stay, each with its source; cancels and claims stay.\<close>

definition extends :: "extras \<Rightarrow> extras \<Rightarrow> bool" where
  "extends w w' \<longleftrightarrow>
     length (ex_tasks w) \<le> length (ex_tasks w') \<and> set (ex_claims w) \<subseteq> set (ex_claims w') \<and>
     (\<forall>i < length (ex_tasks w). fw_source (ex_tasks w' ! i) = fw_source (ex_tasks w ! i) \<and>
        (fw_cancelled (ex_tasks w ! i) \<longrightarrow> fw_cancelled (ex_tasks w' ! i)))"

lemma extends_refl [simp]: "extends w w"
  by (simp add: extends_def)

lemma extends_trans: "extends w v \<Longrightarrow> extends v u \<Longrightarrow> extends w u"
  unfolding extends_def by (auto dest: less_le_trans)

lemma extends_same: "ex_tasks w' = ex_tasks w \<Longrightarrow> ex_claims w' = ex_claims w \<Longrightarrow> extends w w'"
  by (simp add: extends_def)

lemma extends_update:
  assumes "ex_tasks w' = (ex_tasks w)[i := t]" "fw_source t = fw_source (ex_tasks w ! i)"
    and "fw_cancelled (ex_tasks w ! i) \<longrightarrow> fw_cancelled t" "set (ex_claims w) \<subseteq> set (ex_claims w')"
  shows "extends w w'"
  unfolding extends_def
proof (intro conjI allI impI)
  fix j assume "j < length (ex_tasks w)"
  then show "fw_source (ex_tasks w' ! j) = fw_source (ex_tasks w ! j)" "fw_cancelled (ex_tasks w ! j) \<Longrightarrow> fw_cancelled (ex_tasks w' ! j)"
    using assms by (cases "j = i"; simp)+
qed (use assms in simp_all)

lemma extends_claim: "extends w (snd (claim_timer i w))"
proof (cases "is_oneshot (ex_tasks w ! i) \<and> fw_claimed (ex_tasks w ! i)")
  case False
  show ?thesis
    by (rule extends_update [where i = i and t = "(ex_tasks w ! i)\<lparr>fw_claimed := is_oneshot (ex_tasks w ! i), fw_cancelled := True\<rparr>"])
      (use False in \<open>auto simp: claim_timer_def Let_def\<close>)
qed (simp add: claim_timer_def)

lemma extends_cancel: "extends w (cancel_token i w)"
  by (rule extends_update [where i = i and t = "(ex_tasks w ! i)\<lparr>fw_cancelled := True\<rparr>"]) (simp_all add: cancel_token_def)

lemma extends_fold: "(\<And>v i. extends v (f v i)) \<Longrightarrow> extends w (foldl f w xs)"
  by (rule foldl_keeps [where P = "extends w"]) (rule extends_trans, simp_all)

lemma extends_spawn: "ex_tasks w' = ex_tasks w @ [t] \<Longrightarrow> ex_claims w' = ex_claims w \<Longrightarrow> extends w w'"
  by (simp add: extends_def nth_append)

lemma extends_join: "extends w (join_next i w)"
proof -
  have t: "extends w (taken_out i w)" by (rule extends_update [where i = i and t = "(ex_tasks w ! i)\<lparr>fw_stage := Reaped\<rparr>"]) (simp_all add: taken_out_def)
  have "extends w (snd (reap_forwarder i j (taken_out i w)))" "extends w (end_forwarders_join r i j (taken_out i w))" for r j
    by (rule extends_trans [OF t extends_same]; simp add: reap_frame join_frame)+
  then show ?thesis by (simp add: join_next_def split: stage.split option.split)
qed

lemma forward_step_extends: "extends w (forward_step w op)"
proof (cases op)
  case (RegisterOneshot due)
  then show ?thesis by (intro extends_spawn) (simp_all add: register_oneshot_def spawn_forwarder_def next_id_def Let_def)
next
  case (RegisterRecurring interval policy)
  show ?thesis
  proof (cases "interval = 0")
    case False
    then show ?thesis using RegisterRecurring
      by (intro extends_spawn) (simp_all add: register_recurring_def spawn_forwarder_def next_id_def Let_def)
  qed (use RegisterRecurring in \<open>simp add: register_recurring_def\<close>)
next
  case (AddStream items)
  then show ?thesis by (intro extends_spawn) (simp_all add: add_stream_def spawn_forwarder_def next_stream_id_def Let_def)
next
  case (CancelTimer k)
  have "extends w (snd (claim_timer i (w\<lparr>ex_timers := ts\<rparr>)))" for i ts
    by (rule extends_trans [OF extends_same extends_claim]) simp_all
  then show ?thesis using CancelTimer by (auto simp: cancel_timer_def split: option.split prod.split bool.split) (metis snd_conv)+
next
  case CancelAllTimers
  have "extends w (foldl (\<lambda>v i. snd (claim_timer i v)) w (map snd (ex_timers w)))" by (rule extends_fold [OF extends_claim])
  from extends_trans [OF this extends_same] show ?thesis using CancelAllTimers by (simp add: cancel_all_timers_def)
next
  case (CancelStream k)
  have "extends w (cancel_token i (w\<lparr>ex_streams := ss\<rparr>))" for i ss
    by (rule extends_trans [OF extends_same extends_cancel]) simp_all
  then show ?thesis using CancelStream by (simp add: cancel_stream_def split: option.split)
next
  case CancelAllStreams
  have "extends w (foldl (\<lambda>v i. cancel_token i v) w (map snd (ex_streams w)))" by (rule extends_fold [OF extends_cancel])
  from extends_trans [OF this extends_same] show ?thesis using CancelAllStreams by (simp add: cancel_all_streams_def)
next
  case (ForwarderGo i ch)
  have "extends w (task_becomes i (fst (forwarder_go i ch (ex_tasks w ! i) (ex_mailbox w))) mb w)" for mb
    by (rule extends_update [where i = i and t = "fst (forwarder_go i ch (ex_tasks w ! i) (ex_mailbox w))"]) (simp_all add: task_becomes_def forwarder_go_frame)
  then show ?thesis using ForwarderGo by (simp add: split_def)
next
  case (ForwarderDropped i p)
  have "extends w (task_becomes i (forwarder_drop p (ex_tasks w ! i)) mb w)" for mb
    by (rule extends_update [where i = i and t = "forwarder_drop p (ex_tasks w ! i)"]) (simp_all add: task_becomes_def forwarder_drop_def split: stage.split)
  then show ?thesis using ForwarderDropped by simp
next
  case (ForwarderCompletes i)
  have "extends w (task_becomes i (task_completes (ex_tasks w ! i)) mb w)" for mb
    by (rule extends_update [where i = i and t = "task_completes (ex_tasks w ! i)"]) (simp_all add: task_becomes_def task_completes_def split: stage.split)
  then show ?thesis using ForwarderCompletes by simp
next
  case (JoinNext i)
  then show ?thesis using extends_join by simp
qed (auto simp: note_forwarders_polled_def end_forwarders_begin_def intro: extends_same)

lemma run_extends: "extends w (run forward_step w ops)"
  by (induction ops arbitrary: w) (auto intro: extends_trans forward_step_extends)

section \<open>After a cancel\<close>

text \<open>A forwarder past its last read of the token has one message in hand.\<close>

fun past_token :: "forwarder_pc \<Rightarrow> bool" where
  "past_token (OneReserve p) = (p = PollPermit)"
| "past_token OneClaim = True"
| "past_token OneSend = True"
| "past_token (RecReserve p due) = (p = PollPermit)"
| "past_token (RecSend due) = True"
| "past_token (RecBurstTick now due) = True"
| "past_token (StrReserve p x) = (p = PollPermit)"
| "past_token (StrSend x) = True"
| "past_token (StrFinishReserve p) = (p = PollPermit)"
| "past_token StrFinishSend = True"
| "past_token _ = False"

definition in_hand :: "stage \<Rightarrow> nat" where
  "in_hand st = (case st of Alive pc \<Rightarrow> if past_token pc then 1 else 0 | _ \<Rightarrow> 0)"

definition still_to_come :: "nat \<Rightarrow> extras \<Rightarrow> nat" where
  "still_to_come i w = length (own i (fm_log (ex_mailbox w))) + in_hand (fw_stage (ex_tasks w ! i))"

lemma oneshot_go_hand:
  assumes "fw_cancelled t" "fw_stage t = Alive pc"
  shows "length (own i (fm_log (snd (oneshot_go i ch pc t mb)))) + in_hand (fw_stage (fst (oneshot_go i ch pc t mb)))
    \<le> length (own i (fm_log mb)) + in_hand (fw_stage t)"
  using assms by (cases "(i, ch, pc, t, mb)" rule: oneshot_go.cases) (auto simp: in_hand_def go_defs split: reservation.splits)

lemma recurring_go_hand:
  assumes "fw_cancelled t" "fw_stage t = Alive pc"
  shows "length (own i (fm_log (snd (recurring_go i ch pc t mb)))) + in_hand (fw_stage (fst (recurring_go i ch pc t mb)))
    \<le> length (own i (fm_log mb)) + in_hand (fw_stage t)"
  using assms by (cases "(i, ch, pc, t, mb)" rule: recurring_go.cases)
    (auto simp: in_hand_def go_defs split: reservation.splits option.splits miss_policy.splits)

lemma stream_go_hand:
  assumes "fw_cancelled t" "fw_stage t = Alive pc"
  shows "length (own i (fm_log (snd (stream_go i ch pc t mb)))) + in_hand (fw_stage (fst (stream_go i ch pc t mb)))
    \<le> length (own i (fm_log mb)) + in_hand (fw_stage t)"
  using assms by (cases "(i, ch, pc, t, mb)" rule: stream_go.cases)
    (auto simp: in_hand_def go_defs split: reservation.splits option.splits list.splits)

lemma forwarder_go_hand:
  assumes "fw_cancelled t"
  shows "length (own i (fm_log (snd (forwarder_go i ch t mb)))) + in_hand (fw_stage (fst (forwarder_go i ch t mb)))
    \<le> length (own i (fm_log mb)) + in_hand (fw_stage t)"
proof (cases "fw_stage t")
  case (Alive pc)
  then show ?thesis
    using oneshot_go_hand [OF assms Alive] recurring_go_hand [OF assms Alive] stream_go_hand [OF assms Alive]
    by (simp add: forwarder_go_def split: source.split)
qed (simp_all add: forwarder_go_def)

lemma quiet_hand:
  "in_hand (fw_stage (forwarder_drop p t)) \<le> in_hand (fw_stage t)" "in_hand (fw_stage (task_completes t)) \<le> in_hand (fw_stage t)"
  by (auto simp: in_hand_def forwarder_drop_def task_completes_def split: stage.split)

lemma stages_hand:
  assumes "stages w' = stages w" "ex_mailbox w' = ex_mailbox w" "i < length (ex_tasks w)"
  shows "still_to_come i w' = still_to_come i w"
proof -
  have "length (ex_tasks w') = length (ex_tasks w)" using assms(1) by (metis length_map)
  then have "fw_stage (ex_tasks w' ! i) = fw_stage (ex_tasks w ! i)" using assms(1,3) by (metis nth_map)
  then show ?thesis using assms(2) by (simp add: still_to_come_def)
qed

lemma spawn_hand:
  "ex_tasks w' = ex_tasks w @ [t] \<Longrightarrow> ex_mailbox w' = ex_mailbox w \<Longrightarrow> i < length (ex_tasks w) \<Longrightarrow> still_to_come i w' = still_to_come i w"
  by (simp add: still_to_come_def nth_append)

lemma join_hand: "i < length (ex_tasks w) \<Longrightarrow> still_to_come i (join_next j w) \<le> still_to_come i w"
  by (cases "j = i") (auto simp: join_next_def still_to_come_def reap_frame join_frame taken_out_def in_hand_def split: stage.split option.split)

lemma becomes_hand:
  assumes "i < length (ex_tasks w)" "j < length (ex_tasks w)" "j \<noteq> i \<Longrightarrow> own i (fm_log mb) = own i (fm_log (ex_mailbox w))"
    and "j = i \<Longrightarrow> length (own i (fm_log mb)) + in_hand (fw_stage t) \<le> still_to_come i w"
  shows "still_to_come i (task_becomes j t mb w) \<le> still_to_come i w"
  using assms by (cases "j = i") (simp_all add: still_to_come_def task_becomes_def)

lemma fold_stages: "(\<And>v i. stages (f v i) = stages v) \<Longrightarrow> stages (foldl f w xs) = stages w"
  by (induction xs arbitrary: w) auto

lemma fold_mailbox: "(\<And>v i. ex_mailbox (f v i) = ex_mailbox v) \<Longrightarrow> ex_mailbox (foldl f w xs) = ex_mailbox w"
  by (induction xs arbitrary: w) auto

lemma cancel_hand:
  assumes "i < length (ex_tasks w)"
  shows "still_to_come i (snd (cancel_timer k w)) = still_to_come i w" "still_to_come i (cancel_all_timers w) = still_to_come i w"
    "still_to_come i (snd (cancel_stream k w)) = still_to_come i w" "still_to_come i (cancel_all_streams w) = still_to_come i w"
proof -
  show "still_to_come i (snd (cancel_timer k w)) = still_to_come i w"
  proof (rule stages_hand [OF _ _ assms])
    show "stages (snd (cancel_timer k w)) = stages w"
      using claim_stages [of _ "w\<lparr>ex_timers := hdel k (ex_timers w)\<rparr>"]
      by (auto simp: cancel_timer_def split: option.split prod.split bool.split) (metis snd_conv)+
    show "ex_mailbox (snd (cancel_timer k w)) = ex_mailbox w"
      using claim_timer_frame(8) [of _ "w\<lparr>ex_timers := hdel k (ex_timers w)\<rparr>"]
      by (auto simp: cancel_timer_def split: option.split prod.split bool.split) (metis snd_conv)+
  qed
  show "still_to_come i (cancel_all_timers w) = still_to_come i w"
    by (rule stages_hand [OF _ _ assms])
      (simp_all add: cancel_all_timers_def fold_stages claim_stages fold_mailbox claim_timer_frame)
  show "still_to_come i (snd (cancel_stream k w)) = still_to_come i w"
  proof (rule stages_hand [OF _ _ assms])
    show "stages (snd (cancel_stream k w)) = stages w"
      using cancel_stages [of _ "w\<lparr>ex_streams := hdel k (ex_streams w)\<rparr>"] by (simp add: cancel_stream_def split: option.split)
  qed (simp add: cancel_stream_def cancel_token_frame split: option.split)
  show "still_to_come i (cancel_all_streams w) = still_to_come i w"
    by (rule stages_hand [OF _ _ assms])
      (simp_all add: cancel_all_streams_def fold_stages cancel_stages fold_mailbox cancel_token_frame)
qed

lemma forward_step_hand:
  assumes "i < length (ex_tasks w)" "fw_cancelled (ex_tasks w ! i)"
  shows "still_to_come i (forward_step w op) \<le> still_to_come i w"
proof (cases op)
  case (ForwarderGo j ch)
  show ?thesis
  proof (cases "j < length (ex_tasks w)")
    case True
    have "still_to_come i (task_becomes j (fst (forwarder_go j ch (ex_tasks w ! j) (ex_mailbox w)))
        (snd (forwarder_go j ch (ex_tasks w ! j) (ex_mailbox w))) w) \<le> still_to_come i w"
      by (rule becomes_hand [OF assms(1) True])
        (use forwarder_go_frame(4) forwarder_go_hand [OF assms(2)] in \<open>auto simp: still_to_come_def\<close>)
    then show ?thesis using ForwarderGo True by (simp add: split_def)
  qed (simp add: ForwarderGo)
next
  case (ForwarderDropped j p)
  have "still_to_come i (task_becomes j (forwarder_drop p (ex_tasks w ! j)) (ex_mailbox w) w) \<le> still_to_come i w"
    if "j < length (ex_tasks w)"
    by (rule becomes_hand [OF assms(1) that]) (simp_all add: still_to_come_def quiet_hand)
  then show ?thesis using ForwarderDropped by simp
next
  case (ForwarderCompletes j)
  have "still_to_come i (task_becomes j (task_completes (ex_tasks w ! j)) (ex_mailbox w) w) \<le> still_to_come i w"
    if "j < length (ex_tasks w)"
    by (rule becomes_hand [OF assms(1) that]) (simp_all add: still_to_come_def quiet_hand)
  then show ?thesis using ForwarderCompletes by simp
next
  case (JoinNext j)
  then show ?thesis using join_hand [OF assms(1)] by simp
next
  case (RegisterOneshot due)
  then show ?thesis
    using assms(1) by (simp add: register_oneshot_def spawn_forwarder_def next_id_def Let_def still_to_come_def nth_append)
next
  case (RegisterRecurring interval policy)
  then show ?thesis
    using assms(1) by (simp add: register_recurring_def spawn_forwarder_def next_id_def Let_def still_to_come_def nth_append)
next
  case (AddStream items)
  then show ?thesis
    using assms(1) by (simp add: add_stream_def spawn_forwarder_def next_stream_id_def Let_def still_to_come_def nth_append)
qed (use cancel_hand [OF assms(1)] in \<open>simp_all add: note_forwarders_polled_def end_forwarders_begin_def still_to_come_def\<close>)

lemma run_hand:
  assumes "i < length (ex_tasks w)" "fw_cancelled (ex_tasks w ! i)"
  shows "still_to_come i (run forward_step w ops) \<le> still_to_come i w"
  using assms
proof (induction ops arbitrary: w)
  case (Cons op ops)
  have e: "extends w (forward_step w op)" by (rule forward_step_extends)
  with Cons.prems have "i < length (ex_tasks (forward_step w op))" "fw_cancelled (ex_tasks (forward_step w op) ! i)"
    unfolding extends_def by auto
  from Cons.IH [OF this] forward_step_hand [OF Cons.prems] show ?case by (simp add: order_trans)
qed simp

section \<open>Properties\<close>

lemma waiting_ends: "ended sts = reaped sts + length (filter (\<lambda>st. (\<forall>pc. st \<noteq> Alive pc) \<and> st \<noteq> Reaped) sts)"
  by (induction sts) (auto simp: ended_def reaped_def)

lemma step_tasks: "length (ex_tasks (forward_step w op)) \<le> Suc (length (ex_tasks w))"
proof (cases op)
  case (CancelTimer k)
  then show ?thesis
    using claim_timer_frame(1) [of _ "w\<lparr>ex_timers := hdel k (ex_timers w)\<rparr>"]
    by (auto simp: cancel_timer_def split: option.split prod.split bool.split) (metis le_SucI order_refl snd_conv)+
next
  case CancelAllTimers
  have "length (ex_tasks (foldl (\<lambda>v i. snd (claim_timer i v)) w xs)) = length (ex_tasks w)" for xs
    by (induction xs arbitrary: w) (simp_all add: claim_timer_frame(1))
  then show ?thesis using CancelAllTimers by (simp add: cancel_all_timers_def)
next
  case CancelAllStreams
  have "length (ex_tasks (foldl (\<lambda>v i. cancel_token i v) w xs)) = length (ex_tasks w)" for xs
    by (induction xs arbitrary: w) (simp_all add: cancel_token_frame(1))
  then show ?thesis using CancelAllStreams by (simp add: cancel_all_streams_def)
qed (auto simp: register_oneshot_def register_recurring_def add_stream_def spawn_forwarder_def next_id_def next_stream_id_def Let_def
    cancel_stream_def cancel_token_frame note_forwarders_polled_def task_becomes_def join_next_def reap_frame join_frame taken_out_def
    end_forwarders_begin_def split_def split: option.split stage.split)

lemma run_tasks: "length (ex_tasks (run forward_step w ops)) \<le> length (ex_tasks w) + length ops"
proof (induction ops arbitrary: w)
  case (Cons op ops)
  show ?case using Cons [of "forward_step w op"] step_tasks [of w op] by simp
qed simp

text \<open>A registered timer's claim was not taken by a cancel: the cancel removes the registration.\<close>

definition unclaimed :: "extras \<Rightarrow> bool" where
  "unclaimed w \<longleftrightarrow> (\<forall>(n, m) \<in> set (ex_timers w). m \<notin> set (ex_claims w))"

lemma unclaimed_shrink:
  "unclaimed w \<Longrightarrow> set (ex_timers w') \<subseteq> set (ex_timers w) \<Longrightarrow> ex_claims w' = ex_claims w \<Longrightarrow> unclaimed w'"
  by (auto simp: unclaimed_def)

lemma unclaimed_spawn:
  assumes "fwd_inv w" "unclaimed w" "set (ex_timers w') \<subseteq> insert (n, length (ex_tasks w)) (set (ex_timers w))" "ex_claims w' = ex_claims w"
  shows "unclaimed w'"
proof -
  have "length (ex_tasks w) \<notin> set (ex_claims w)" using assms(1) by (simp add: fwd_inv_def send_inv_def)
  then show ?thesis using assms(2-4) by (auto simp: unclaimed_def)
qed

lemma unclaimed_cancel:
  assumes "fwd_inv w" "unclaimed w"
  shows "unclaimed (snd (cancel_timer k w))"
proof (cases "hget (ex_timers w) k")
  case (Some i)
  let ?v = "w\<lparr>ex_timers := hdel k (ex_timers w)\<rparr>"
  have live: "\<forall>(n, m) \<in> set (ex_timers w). live w (KindTimer n) m" using assms(1) by (simp add: fwd_inv_def reg_inv_def)
  have "(k, i) \<in> set (ex_timers w)" using Some by (rule map_of_SomeD)
  then have "fw_kind (ex_tasks w ! i) = KindTimer k" using live by (auto simp: live_def)
  then have "m \<noteq> i" if "(n, m) \<in> set (hdel k (ex_timers w))" for n m
    using that live by (auto simp: AList.delete_eq live_def)
  moreover have "m \<notin> set (ex_claims w)" if "(n, m) \<in> set (hdel k (ex_timers w))" for n m
    using that assms(2) by (auto simp: AList.delete_eq unclaimed_def)
  ultimately have "unclaimed (snd (claim_timer i ?v))"
    by (auto simp: unclaimed_def claim_timer_def Let_def)
  then show ?thesis using Some by (auto simp: cancel_timer_def split: prod.split bool.split)
qed (use assms(2) in \<open>simp add: cancel_timer_def\<close>)

lemma timers_join: "set (ex_timers (join_next i w)) \<subseteq> set (ex_timers w)" "ex_claims (join_next i w) = ex_claims w"
  using reap_shrinks(1) [where i = i and w = "taken_out i w"] join_shrinks(1) [where i = i and w = "taken_out i w"]
  by (simp_all add: join_next_def taken_out_def reap_frame join_frame split: stage.split option.split)

lemma unclaimed_step:
  assumes "fwd_inv w" "unclaimed w"
  shows "unclaimed (forward_step w op)"
proof (cases op)
  case (RegisterOneshot due)
  show ?thesis
    by (rule unclaimed_spawn [OF assms, of _ "rig_next (ex_ids w)"])
      (use update_entries(1) [of "rig_next (ex_ids w)" "length (ex_tasks w)" "ex_timers w"] in
        \<open>simp_all add: RegisterOneshot register_oneshot_def spawn_forwarder_def next_id_def Let_def\<close>)
next
  case (RegisterRecurring interval policy)
  show ?thesis
    by (rule unclaimed_spawn [OF assms, of _ "rig_next (ex_ids w)"])
      (use update_entries(1) [of "rig_next (ex_ids w)" "length (ex_tasks w)" "ex_timers w"] in
        \<open>auto simp: RegisterRecurring register_recurring_def spawn_forwarder_def next_id_def Let_def\<close>)
next
  case (CancelTimer k)
  then show ?thesis using unclaimed_cancel [OF assms] by simp
next
  case CancelAllTimers
  then show ?thesis by (simp add: cancel_all_timers_def unclaimed_def)
next
  case CancelAllStreams
  have "ex_timers (foldl (\<lambda>v i. cancel_token i v) w xs) = ex_timers w \<and> ex_claims (foldl (\<lambda>v i. cancel_token i v) w xs) = ex_claims w" for xs
    by (induction xs arbitrary: w) (simp_all add: cancel_token_def)
  then show ?thesis using CancelAllStreams assms(2) by (simp add: cancel_all_streams_def unclaimed_def)
next
  case (JoinNext i)
  then show ?thesis using unclaimed_shrink [OF assms(2) timers_join] by simp
qed (use assms(2) in \<open>auto simp: add_stream_def spawn_forwarder_def next_stream_id_def Let_def cancel_stream_def cancel_token_def
    note_forwarders_polled_def task_becomes_def end_forwarders_begin_def unclaimed_def split_def split: option.split\<close>)

lemma unclaimed_run: "fwd_inv w \<Longrightarrow> unclaimed w \<Longrightarrow> unclaimed (run forward_step w ops)"
  by (induction ops arbitrary: w) (auto simp: unclaimed_step forward_step_inv)

text \<open>
  C22. A one-shot timer fires or is cancelled, never both: when a cancel of a registered one-shot timer answers \<open>Ok\<close>, its
  message is never put in the mailbox, whatever runs later; when it answers \<open>NotFound\<close>, the message is in the mailbox
  or the forwarder is putting it there at that instant.
\<close>

theorem oneshot_fires_or_is_cancelled:
  assumes "w = run forward_step (extras_new room) ops" "hget (ex_timers w) k = Some i" "is_oneshot (ex_tasks w ! i)"
    and "cancel_timer k w = (said, w')"
  shows "case said of
      Inr ok \<Rightarrow> own i (fm_log (ex_mailbox (run forward_step w' later))) = []
    | Inl e \<Rightarrow> own i (fm_log (ex_mailbox w)) = [TimerMsg] \<or> fw_stage (ex_tasks w ! i) = Alive OneSend"
proof -
  have inv: "fwd_inv w" unfolding assms(1) by (rule fwd_reachable)
  then have i: "i < length (ex_tasks w)" using timer_index assms(2) by (simp add: fwd_inv_def)
  have "unclaimed w" unfolding assms(1) by (rule unclaimed_run [OF fwd_inv_new]) (simp add: unclaimed_def extras_new_def)
  then have free: "i \<notin> set (ex_claims w)" using assms(2) by (auto simp: unclaimed_def dest: map_of_SomeD)
  show ?thesis
  proof (cases "fw_claimed (ex_tasks w ! i)")
    case True
    have "claim_ok False (own i (fm_log (ex_mailbox w))) (ex_tasks w ! i)"
      using inv send_inv_task [OF _ i] assms(3) free by (simp add: fwd_inv_def task_inv_def)
    then have "own i (fm_log (ex_mailbox w)) = [TimerMsg] \<or> fw_stage (ex_tasks w ! i) = Alive OneSend"
      using True by (simp add: claim_ok_def)
    moreover have "said = Inl TimerNotFound"
      using assms(2-4) True by (simp add: cancel_timer_def claim_timer_def Let_def)
    ultimately show ?thesis by simp
  next
    case False
    let ?u = "run forward_step w' later"
    have a: "said = Inr ()" "i \<in> set (ex_claims w')" using assms(2-4) False by (auto simp: cancel_timer_def claim_timer_def Let_def)
    have w': "w' = forward_step w (CancelTimer k)" using assms(4) by simp
    then have "extends w w'" "fwd_inv ?u" using forward_step_extends fwd.run_inv forward_step_inv [OF inv] by blast+
    then have e: "extends w ?u" "extends w' ?u" using extends_trans run_extends by blast+
    then have u: "i < length (ex_tasks ?u)" "is_oneshot (ex_tasks ?u ! i)" "i \<in> set (ex_claims ?u)"
      using i assms(3) a(2) by (auto simp: extends_def is_oneshot_def)
    have "send_inv ?u" using \<open>fwd_inv ?u\<close> by (simp add: fwd_inv_def)
    from send_inv_task [OF this u(1)] u(2,3) have "claim_ok True (own i (fm_log (ex_mailbox ?u))) (ex_tasks ?u ! i)"
      by (simp add: task_inv_def)
    then show ?thesis using a(1) by (simp add: claim_ok_def)
  qed
qed

theorem oneshot_fires_or_is_cancelled_witness:
  "own 0 (fm_log (ex_mailbox (run forward_step (snd (cancel_timer 0 (run forward_step (extras_new 1) [RegisterOneshot 5])))
     [ForwarderGo 0 \<lparr>ch_ready = True, ch_now = 9, ch_panic = None, ch_drop = None, ch_drop2 = None\<rparr>]))) = []"
  using oneshot_fires_or_is_cancelled [of _ 1 "[RegisterOneshot 5]" 0 0 "Inr ()" _
      "[ForwarderGo 0 \<lparr>ch_ready = True, ch_now = 9, ch_panic = None, ch_drop = None, ch_drop2 = None\<rparr>]", OF refl]
  by (simp add: extras_new_def register_oneshot_def spawn_forwarder_def next_id_def forwarder_new_def is_oneshot_def
      cancel_timer_def claim_timer_def)



text \<open>
  A cancelled stream puts nothing more in the mailbox, except the one message its forwarder was already putting there
  when it was cancelled, having read the token before.
\<close>

lemma cancelled_stream_is_silent:
  assumes "w = run forward_step (extras_new room) ops" "hget (ex_streams w) k = Some i" "cancel_stream k w = (said, w')"
  shows "said = Inr () \<and>
    length (own i (fm_log (ex_mailbox (run forward_step w' later))))
      \<le> length (own i (fm_log (ex_mailbox w))) + in_hand (fw_stage (ex_tasks w ! i))"
proof -
  have "fwd_inv w" unfolding assms(1) by (rule fwd_reachable)
  then have i: "i < length (ex_tasks w)" using stream_index assms(2) by (simp add: fwd_inv_def)
  have w': "said = Inr ()" "w' = cancel_token i (w\<lparr>ex_streams := hdel k (ex_streams w)\<rparr>)"
    using assms(2,3) by (simp_all add: cancel_stream_def)
  then have "i < length (ex_tasks w')" "fw_cancelled (ex_tasks w' ! i)" using i by (simp_all add: cancel_token_def)
  from run_hand [OF this, of later] have "still_to_come i (run forward_step w' later) \<le> still_to_come i w'" .
  moreover have "still_to_come i w' = still_to_come i w" using w'(2) i by (simp add: cancel_token_def still_to_come_def)
  ultimately show ?thesis using w'(1) by (simp add: still_to_come_def)
qed



lemma distinct_snd: "distinct (map fst m) \<Longrightarrow> (\<And>a b v. (a, v) \<in> set m \<Longrightarrow> (b, v) \<in> set m \<Longrightarrow> a = b) \<Longrightarrow> distinct (map snd m)"
proof (induction m)
  case (Cons e m)
  obtain a v where e: "e = (a, v)" by (cases e)
  have "v \<notin> snd ` set m"
  proof
    assume "v \<in> snd ` set m"
    then obtain b where b: "(b, v) \<in> set m" by auto
    then have "b = a" using Cons.prems(2) [of b v a] e by simp
    with b Cons.prems(1) e show False by force
  qed
  moreover have "distinct (map snd m)" using Cons.IH Cons.prems by (metis distinct.simps(2) list.simps(9) set_subset_Cons subsetD)
  ultimately show ?case using e by simp
qed simp

text \<open>
  C25. The extras of a running actor are well formed: ids are registered once, a registered timer or stream names a task of
  the plane that is of its kind and not reaped, the map of kinds holds exactly the tasks not reaped, each with its
  kind, and there are no more active timers and streams than such tasks.
\<close>

theorem extras_well_formed:
  assumes "w = run forward_step (extras_new room) ops" "ex_registered w = None"
  shows "distinct (map fst (ex_timers w)) \<and> distinct (map fst (ex_streams w)) \<and>
    list_all (\<lambda>(k, i). hget (ex_kinds w) i = Some (KindTimer k)) (ex_timers w) \<and>
    list_all (\<lambda>(k, i). hget (ex_kinds w) i = Some (KindStream k)) (ex_streams w) \<and>
    hget (ex_kinds w) = (\<lambda>i. if i < length (ex_tasks w) \<and> fw_stage (ex_tasks w ! i) \<noteq> Reaped
      then Some (fw_kind (ex_tasks w ! i)) else None) \<and>
    active_timer_count w + active_stream_count w \<le> length (filter (\<lambda>t. fw_stage t \<noteq> Reaped) (ex_tasks w))"
proof -
  have "fwd_inv w" unfolding assms(1) by (rule fwd_reachable)
  then have r: "reg_inv w" "kinds_ok w" using assms(2) by (simp_all add: fwd_inv_def reg_inv_def)
  then have d: "distinct (map fst (ex_timers w))" "distinct (map fst (ex_streams w))" by (simp_all add: reg_inv_def)
  have l: "(k, i) \<in> set (ex_timers w) \<Longrightarrow> live w (KindTimer k) i" "(k, i) \<in> set (ex_streams w) \<Longrightarrow> live w (KindStream k) i" for k i
    using r(1) by (auto simp: reg_inv_def)
  let ?is = "map snd (ex_timers w) @ map snd (ex_streams w)"
  let ?js = "filter (\<lambda>i. fw_stage (ex_tasks w ! i) \<noteq> Reaped) [0..<length (ex_tasks w)]"
  have "distinct (map snd (ex_timers w))" by (rule distinct_snd [OF d(1)]) (drule l(1), drule l(1), simp add: live_def)
  moreover have "distinct (map snd (ex_streams w))" by (rule distinct_snd [OF d(2)]) (drule l(2), drule l(2), simp add: live_def)
  moreover have "set (map snd (ex_timers w)) \<inter> set (map snd (ex_streams w)) = {}" using l by (fastforce simp: live_def)
  ultimately have "distinct ?is" by simp
  moreover have "set ?is \<subseteq> set ?js" using l assms(2) by (fastforce simp: live_def)
  ultimately have "length ?is \<le> length ?js" by (metis card_mono distinct_card distinct_filter distinct_upt finite_set)
  also have "length ?js = length (filter (\<lambda>t. fw_stage t \<noteq> Reaped) (ex_tasks w))"
    using length_filter_map [of "\<lambda>t. fw_stage t \<noteq> Reaped" "\<lambda>i. ex_tasks w ! i" "[0..<length (ex_tasks w)]"] by (simp add: map_nth comp_def)
  finally have "active_timer_count w + active_stream_count w \<le> length (filter (\<lambda>t. fw_stage t \<noteq> Reaped) (ex_tasks w))"
    by (simp add: active_timer_count_def active_stream_count_def)
  moreover have "list_all (\<lambda>(k, i). hget (ex_kinds w) i = Some (KindTimer k)) (ex_timers w)"
    "list_all (\<lambda>(k, i). hget (ex_kinds w) i = Some (KindStream k)) (ex_streams w)"
    using l r(2) assms(2) by (fastforce simp: list_all_iff live_def kinds_ok_def)+
  ultimately show ?thesis using d r(2) by (auto simp: kinds_ok_def)
qed

theorem extras_well_formed_witness:
  "active_timer_count (run forward_step (extras_new 1) [RegisterOneshot 5, AddStream [3]]) +
   active_stream_count (run forward_step (extras_new 1) [RegisterOneshot 5, AddStream [3]]) \<le> 2"
  using extras_well_formed [of _ 1 "[RegisterOneshot 5, AddStream [3]]", OF refl]
  by (simp add: extras_new_def register_oneshot_def add_stream_def spawn_forwarder_def next_id_def next_stream_id_def forwarder_new_def)

end
