(* ===== verification/Reaper.thy ===== *)
theory Reaper
  imports Subtree Stop_Step
begin

text \<open>
  The reaper of a system (\<open>ReaperEntry\<close>, \<open>ReaperSlot\<close>, \<open>reaper_run\<close>, \<open>ActorSystem::reaper_handle\<close> and \<open>feed_reaper\<close> in
  \<open>src/src/system.rs\<close>): the tasks, one for each runtime, that abort an actor's task at a deadline.

  A reaper, and a call that hands an entry to one, are agents that take one step at a time: a lock of the slots, a send, a
  turn of the reaper's loop.  A reaper's task can be dropped between any two of them, with its feed and its heap, and
  counts as finished only later.  Tasks, lanes and records are named by numbers; a two-stage entry uses the record of its
  lane.  The heap is a list out of which a turn takes an entry with the least instant; which one of several is not fixed.
\<close>

section \<open>Entries\<close>

record reaper_entry =
  re_kill_at :: "(instant \<times> nat \<times> duration) option"
  re_deadline :: instant
  re_task :: nat
  re_record :: nat
  re_step :: "nat option"
  re_fired :: bool

text \<open>What a caller asks for: the arguments of \<open>ReaperEntry::new\<close>, or of \<open>two_stage\<close> and \<open>with_step\<close>.\<close>

datatype arming =
    ArmAbort instant nat nat
  | ArmKill instant nat instant nat "nat option"

fun entry_new :: "arming \<Rightarrow> reaper_entry" where
  "entry_new (ArmAbort deadline task record_of) =
     \<lparr>re_kill_at = None, re_deadline = deadline, re_task = task, re_record = record_of, re_step = None, re_fired = False\<rparr>"
| "entry_new (ArmKill kill_at lane deadline task step) =
     \<lparr>re_kill_at = Some (kill_at, lane, saturating_duration_since deadline kill_at), re_deadline = deadline,
      re_task = task, re_record = lane, re_step = step, re_fired = False\<rparr>"

definition due :: "reaper_entry \<Rightarrow> instant" where
  "due e = (case re_kill_at e of Some (kill_at, _) \<Rightarrow> kill_at | None \<Rightarrow> re_deadline e)"

text \<open>The actors' side: the clock, the tasks, lanes, step cells and records, and a log of what reapers did to them.\<close>

datatype abort_cause = StageDue | EntryDropped

record targets =
  ta_now :: instant
  ta_finished :: "nat \<Rightarrow> bool"
  ta_lanes :: "nat \<Rightarrow> lane_cell"
  ta_cells :: "nat \<Rightarrow> u16"
  ta_records :: "nat \<Rightarrow> abort_record"
  ta_linked :: "nat \<Rightarrow> bool"
  ta_store :: store
  ta_kills :: "(nat \<times> instant) list"
  ta_aborts :: "(nat \<times> instant \<times> abort_cause) list"

definition targets_new :: "instant \<Rightarrow> targets" where
  "targets_new now =
     \<lparr>ta_now = now, ta_finished = (\<lambda>_. False), ta_lanes = (\<lambda>_. lane_cell_new), ta_cells = (\<lambda>_. REQUESTED),
      ta_records = (\<lambda>_. abort_record_new), ta_linked = (\<lambda>_. False), ta_store = (\<lambda>_. subtree_shared_new), ta_kills = [],
      ta_aborts = []\<rparr>"

text \<open>\<open>owe_for\<close>, which both constructors call.\<close>

definition owe_target :: "reaper_entry \<Rightarrow> targets \<Rightarrow> targets" where
  "owe_target e ta =
     (case owe_for (ta_now ta) (ta_finished ta (re_task e)) (ta_linked ta (re_record e)) (ta_records ta (re_record e)) (ta_store ta) of
        (r, st) \<Rightarrow> ta\<lparr>ta_records := (ta_records ta)(re_record e := r), ta_store := st\<rparr>)"

text \<open>\<open>record.abort(&abort)\<close>.\<close>

definition abort_target :: "abort_cause \<Rightarrow> reaper_entry \<Rightarrow> targets \<Rightarrow> targets" where
  "abort_target cause e ta =
     (case abort (ta_now ta) (ta_finished ta (re_task e)) (ta_linked ta (re_record e)) (ta_records ta (re_record e)) (ta_store ta) of
        (hit, r, st) \<Rightarrow>
          ta\<lparr>ta_records := (ta_records ta)(re_record e := r), ta_store := st,
             ta_aborts := (if hit then ta_aborts ta @ [(re_task e, ta_now ta, cause)] else ta_aborts ta)\<rparr>)"

text \<open>\<open>StopStep::raise_kill\<close> run to its end; its interleavings with other raisers are those of \<open>Stop_Step\<close>.\<close>

definition raise_kill_on_cell :: "u16 \<times> lane_cell \<Rightarrow> u16 \<times> lane_cell" where
  "raise_kill_on_cell s = snd (((\<lambda>(pc, s). raiser_go False pc s) ^^ 6) (RaiserStart, s))"

definition raise_first_stage :: "nat \<Rightarrow> nat option \<Rightarrow> targets \<Rightarrow> targets" where
  "raise_first_stage lane step ta =
     (case step of
        None \<Rightarrow> ta\<lparr>ta_lanes := (ta_lanes ta)(lane := snd (lane_raise (ta_lanes ta lane) Kill))\<rparr>
      | Some c \<Rightarrow>
          (case raise_kill_on_cell (ta_cells ta c, ta_lanes ta lane) of
             (cell, l) \<Rightarrow> ta\<lparr>ta_cells := (ta_cells ta)(c := cell), ta_lanes := (ta_lanes ta)(lane := l)\<rparr>))
       \<lparr>ta_kills := ta_kills ta @ [(lane, ta_now ta)]\<rparr>"

text \<open>The drop of an entry.\<close>

definition entry_drop :: "reaper_entry \<Rightarrow> targets \<Rightarrow> targets" where
  "entry_drop e ta = (if re_fired e then ta else abort_target EntryDropped e ta)"

text \<open>\<open>fire\<close>: the entry back when it has a stage left; one it ends is marked as fired, aborted and dropped.\<close>

definition fire :: "reaper_entry \<Rightarrow> targets \<Rightarrow> reaper_entry option \<times> targets" where
  "fire e ta =
     (let ended = (None, entry_drop (e\<lparr>re_fired := True\<rparr>) (abort_target StageDue e ta)) in
      if \<not> ta_finished ta (re_task e)
      then (case re_kill_at e of
              Some (kill_at, lane, grace) \<Rightarrow>
                (Some (e\<lparr>re_kill_at := None, re_deadline := max (re_deadline e) (saturating_deadline (ta_now ta) grace)\<rparr>),
                 raise_first_stage lane (re_step e) ta)
            | None \<Rightarrow> ended)
      else ended)"

section \<open>Reapers\<close>

datatype reaper_life = ReaperPolled | ReaperDropped | ReaperFinished

record reaper =
  rp_rx :: "reaper_entry list"
  rp_heap :: "reaper_entry list"
  rp_open :: bool
  rp_life :: reaper_life

definition reaper_new :: reaper where
  "reaper_new = \<lparr>rp_rx = [], rp_heap = [], rp_open = True, rp_life = ReaperPolled\<rparr>"

definition is_soonest :: "nat \<Rightarrow> reaper_entry list \<Rightarrow> bool" where
  "is_soonest i heap \<longleftrightarrow> i < length heap \<and> list_all (\<lambda>e. due (heap ! i) \<le> due e) heap"

definition take_nth :: "nat \<Rightarrow> 'a list \<Rightarrow> 'a list" where
  "take_nth i xs = take i xs @ drop (Suc i) xs"

text \<open>\<open>fire_due\<close>: pops the soonest entry, fires it, and queues it again when it comes back.\<close>

definition fire_due :: "nat \<Rightarrow> reaper_entry list \<Rightarrow> targets \<Rightarrow> reaper_entry list \<times> targets" where
  "fire_due i heap ta =
     (case fire (heap ! i) ta of
        (Some rest, ta') \<Rightarrow> (take_nth i heap @ [rest], ta')
      | (None, ta') \<Rightarrow> (take_nth i heap, ta'))"

text \<open>The reaper's task is dropped: the entries of its feed and of its heap are dropped with it.\<close>

definition reaper_lost :: "reaper \<Rightarrow> targets \<Rightarrow> reaper \<times> targets" where
  "reaper_lost rp ta =
     (if rp_life rp \<noteq> ReaperPolled then (rp, ta)
      else (rp\<lparr>rp_rx := [], rp_heap := [], rp_life := ReaperDropped\<rparr>, fold entry_drop (rp_rx rp @ rp_heap rp) ta))"

datatype reaper_branch = BranchRecv | BranchDue nat

text \<open>
  A turn of the loop of \<open>reaper_run\<close> in which the given branch is ready; \<open>senders\<close> says whether the feed has a sender.
  A loop that finds its feed closed and its heap empty returns.
\<close>

definition reaper_turn :: "bool \<Rightarrow> reaper_branch \<Rightarrow> reaper \<Rightarrow> targets \<Rightarrow> reaper \<times> targets" where
  "reaper_turn senders branch rp ta =
     (if rp_life rp \<noteq> ReaperPolled then (rp, ta)
      else if \<not> rp_open rp \<and> rp_heap rp = [] then reaper_lost rp ta
      else case branch of
        BranchRecv \<Rightarrow>
          if \<not> rp_open rp then (rp, ta)
          else (case rp_rx rp of
                  e # rest \<Rightarrow> (rp\<lparr>rp_rx := rest, rp_heap := rp_heap rp @ [e]\<rparr>, ta)
                | [] \<Rightarrow> if senders then (rp, ta) else (rp\<lparr>rp_open := False\<rparr>, ta))
      | BranchDue i \<Rightarrow>
          if is_soonest i (rp_heap rp) \<and> due (rp_heap rp ! i) \<le> ta_now ta
          then (case fire_due i (rp_heap rp) ta of (heap, ta') \<Rightarrow> (rp\<lparr>rp_heap := heap\<rparr>, ta'))
          else (rp, ta))"

section \<open>Feeding a reaper\<close>

text \<open>The number is that of the sends left after a refusal.\<close>

datatype feeder_pc = FeedHandle nat | FeedSend nat nat | FeedOver

record feeder =
  fe_entry :: reaper_entry
  fe_runtime :: nat
  fe_pc :: feeder_pc

record reaper_world =
  rw_targets :: targets
  rw_reapers :: "reaper list"
  rw_slots :: "(nat \<times> nat) list"
  rw_feeders :: "feeder list"
  rw_feeds :: "nat list"
  rw_armed :: "arming list"

definition reaper_world_new :: "instant \<Rightarrow> reaper_world" where
  "reaper_world_new now =
     \<lparr>rw_targets = targets_new now, rw_reapers = [], rw_slots = [], rw_feeders = [], rw_feeds = [], rw_armed = []\<rparr>"

text \<open>\<open>rw_feeds\<close> are the clones of a feed that link guards hold.  \<open>reaper_handle\<close>, under the lock of the slots: a slot whose task has finished is replaced, and the finished ones pruned.\<close>

definition slot_finished :: "reaper list \<Rightarrow> nat \<Rightarrow> bool" where
  "slot_finished reapers r \<longleftrightarrow> rp_life (reapers ! r) = ReaperFinished"

definition reaper_handle :: "nat \<Rightarrow> reaper_world \<Rightarrow> nat \<times> reaper_world" where
  "reaper_handle rt w =
     (let fresh = (length (rw_reapers w),
            w\<lparr>rw_slots := hput rt (length (rw_reapers w)) (filter (\<lambda>(_, r). \<not> slot_finished (rw_reapers w) r) (rw_slots w)),
              rw_reapers := rw_reapers w @ [reaper_new]\<rparr>)
      in case hget (rw_slots w) rt of
           Some r \<Rightarrow> if \<not> slot_finished (rw_reapers w) r then (r, w) else fresh
         | None \<Rightarrow> fresh)"

text \<open>A send on the feed of a reaper: refused once the receiver is dropped.\<close>

definition feed_send :: "nat \<Rightarrow> reaper_entry \<Rightarrow> reaper list \<Rightarrow> reaper list option" where
  "feed_send r e reapers =
     (if rp_life (reapers ! r) = ReaperPolled
      then Some (reapers[r := (reapers ! r)\<lparr>rp_rx := rp_rx (reapers ! r) @ [e]\<rparr>]) else None)"

definition feeder_to :: "nat \<Rightarrow> feeder_pc \<Rightarrow> reaper_world \<Rightarrow> reaper_world" where
  "feeder_to j pc w = w\<lparr>rw_feeders := (rw_feeders w)[j := (rw_feeders w ! j)\<lparr>fe_pc := pc\<rparr>]\<rparr>"

text \<open>
  \<open>feed_reaper\<close>: a refused send is made once more on the reaper the runtime has by then, and then the entry is dropped.  A
  caller that was handed a feed before sends on that first, and calls \<open>feed_reaper\<close> when it is refused.
\<close>

definition feeder_go :: "nat \<Rightarrow> reaper_world \<Rightarrow> reaper_world" where
  "feeder_go j w =
     (case fe_pc (rw_feeders w ! j) of
        FeedHandle again \<Rightarrow> (case reaper_handle (fe_runtime (rw_feeders w ! j)) w of (r, w') \<Rightarrow> feeder_to j (FeedSend r again) w')
      | FeedSend r again \<Rightarrow>
          (case feed_send r (fe_entry (rw_feeders w ! j)) (rw_reapers w) of
             Some reapers \<Rightarrow> feeder_to j FeedOver (w\<lparr>rw_reapers := reapers\<rparr>)
           | None \<Rightarrow>
               (case again of
                  0 \<Rightarrow> feeder_to j FeedOver (w\<lparr>rw_targets := entry_drop (fe_entry (rw_feeders w ! j)) (rw_targets w)\<rparr>)
                | Suc n \<Rightarrow> feeder_to j (FeedHandle n) w))
      | FeedOver \<Rightarrow> w)"

definition has_sender :: "nat \<Rightarrow> reaper_world \<Rightarrow> bool" where
  "has_sender r w \<longleftrightarrow>
     list_ex (\<lambda>(_, s). s = r) (rw_slots w) \<or> r \<in> set (rw_feeds w) \<or>
     list_ex (\<lambda>fe. case fe_pc fe of FeedSend s _ \<Rightarrow> s = r | _ \<Rightarrow> False) (rw_feeders w)"

section \<open>Steps\<close>

text \<open>What happens: the calls and reapers above, and on the actors' side what others do to tasks, lanes, cells and records.\<close>

datatype reaper_op =
    Arm nat arming
  | ArmAt nat nat arming
  | TakeFeed nat
  | DropFeed nat
  | FeederGo nat
  | ReaperGo nat reaper_branch
  | ReaperLost nat
  | ReaperFinishes nat
  | SystemDropped
  | TaskFinishes nat
  | LaneBy nat lane_op
  | CellTo nat u16
  | RecordTo nat abort_record
  | LinkedTo nat bool
  | TimeTo instant

text \<open>An entry is built, which owes its target the abort, and the call that hands it to a reaper begins.\<close>

definition arming_begins :: "feeder_pc \<Rightarrow> nat \<Rightarrow> arming \<Rightarrow> reaper_world \<Rightarrow> reaper_world" where
  "arming_begins pc rt a w =
     w\<lparr>rw_targets := owe_target (entry_new a) (rw_targets w), rw_armed := rw_armed w @ [a],
       rw_feeders := rw_feeders w @ [\<lparr>fe_entry = entry_new a, fe_runtime = rt, fe_pc = pc\<rparr>]\<rparr>"

definition reaper_becomes :: "nat \<Rightarrow> reaper \<times> targets \<Rightarrow> reaper_world \<Rightarrow> reaper_world" where
  "reaper_becomes r x w = w\<lparr>rw_reapers := (rw_reapers w)[r := fst x], rw_targets := snd x\<rparr>"

fun targets_step :: "targets \<Rightarrow> reaper_op \<Rightarrow> targets" where
  "targets_step ta (TaskFinishes t) = ta\<lparr>ta_finished := (ta_finished ta)(t := True)\<rparr>"
| "targets_step ta (LaneBy l op) = ta\<lparr>ta_lanes := (ta_lanes ta)(l := lane_step (ta_lanes ta l) op)\<rparr>"
| "targets_step ta (CellTo c v) = ta\<lparr>ta_cells := (ta_cells ta)(c := v)\<rparr>"
| "targets_step ta (RecordTo n r) = ta\<lparr>ta_records := (ta_records ta)(n := r)\<rparr>"
| "targets_step ta (LinkedTo n b) = ta\<lparr>ta_linked := (ta_linked ta)(n := b)\<rparr>"
| "targets_step ta (TimeTo now) = ta\<lparr>ta_now := max now (ta_now ta)\<rparr>"
| "targets_step ta _ = ta"

fun reaper_step :: "reaper_world \<Rightarrow> reaper_op \<Rightarrow> reaper_world" where
  "reaper_step w (Arm rt a) = arming_begins (FeedHandle 1) rt a w"
| "reaper_step w (ArmAt r rt a) = (if r < length (rw_reapers w) then arming_begins (FeedSend r 2) rt a w else w)"
| "reaper_step w (TakeFeed rt) = (case reaper_handle rt w of (r, w') \<Rightarrow> w'\<lparr>rw_feeds := rw_feeds w' @ [r]\<rparr>)"
| "reaper_step w (DropFeed r) = w\<lparr>rw_feeds := remove1 r (rw_feeds w)\<rparr>"
| "reaper_step w (FeederGo j) = (if j < length (rw_feeders w) then feeder_go j w else w)"
| "reaper_step w (ReaperGo r branch) =
     (if r < length (rw_reapers w)
      then reaper_becomes r (reaper_turn (has_sender r w) branch (rw_reapers w ! r) (rw_targets w)) w else w)"
| "reaper_step w (ReaperLost r) =
     (if r < length (rw_reapers w) then reaper_becomes r (reaper_lost (rw_reapers w ! r) (rw_targets w)) w else w)"
| "reaper_step w (ReaperFinishes r) =
     (if r < length (rw_reapers w) \<and> rp_life (rw_reapers w ! r) = ReaperDropped
      then w\<lparr>rw_reapers := (rw_reapers w)[r := (rw_reapers w ! r)\<lparr>rp_life := ReaperFinished\<rparr>]\<rparr> else w)"
| "reaper_step w SystemDropped = w\<lparr>rw_slots := []\<rparr>"
| "reaper_step w op = w\<lparr>rw_targets := targets_step (rw_targets w) op\<rparr>"

section \<open>What reapers do to their targets\<close>

fun task_of :: "arming \<Rightarrow> nat" where
  "task_of (ArmAbort deadline task record_of) = task"
| "task_of (ArmKill kill_at lane deadline task step) = task"

lemma task_of_entry [simp]: "re_task (entry_new a) = task_of a" "\<not> re_fired (entry_new a)"
  by (cases a; simp)+

text \<open>A task that needs no entry any more: it has finished or was aborted.\<close>

definition settled :: "nat \<Rightarrow> targets \<Rightarrow> bool" where
  "settled t ta \<longleftrightarrow> ta_finished ta t \<or> t \<in> fst ` set (ta_aborts ta)"

definition onward :: "targets \<Rightarrow> targets \<Rightarrow> bool" where
  "onward ta ta' \<longleftrightarrow>
     (\<forall>t. ta_finished ta t \<longrightarrow> ta_finished ta' t) \<and> set (ta_aborts ta) \<subseteq> set (ta_aborts ta') \<and>
     set (ta_kills ta) \<subseteq> set (ta_kills ta')"

lemma onward_refl [simp]: "onward ta ta"
  by (simp add: onward_def)

lemma onward_trans: "onward a b \<Longrightarrow> onward b c \<Longrightarrow> onward a c"
  by (auto simp: onward_def)

lemma settled_onward: "settled t ta \<Longrightarrow> onward ta ta' \<Longrightarrow> settled t ta'"
  by (auto simp: settled_def onward_def)

lemma owe_target_simps [frame_simps]:
  "ta_finished (owe_target e ta) = ta_finished ta" "ta_aborts (owe_target e ta) = ta_aborts ta"
  "ta_kills (owe_target e ta) = ta_kills ta" "ta_now (owe_target e ta) = ta_now ta"
  by (simp_all add: owe_target_def split: prod.split)

lemma abort_target_simps [frame_simps]:
  "ta_finished (abort_target c e ta) = ta_finished ta" "ta_kills (abort_target c e ta) = ta_kills ta"
  "ta_now (abort_target c e ta) = ta_now ta"
  "ta_aborts (abort_target c e ta) =
     (if ta_finished ta (re_task e) then ta_aborts ta else ta_aborts ta @ [(re_task e, ta_now ta, c)])"
  by (simp_all add: abort_target_def abort_def split: prod.split)

lemma entry_drop_simps [frame_simps]:
  "ta_finished (entry_drop e ta) = ta_finished ta" "ta_kills (entry_drop e ta) = ta_kills ta"
  "ta_now (entry_drop e ta) = ta_now ta"
  "ta_aborts (entry_drop e ta) =
     (if re_fired e \<or> ta_finished ta (re_task e) then ta_aborts ta else ta_aborts ta @ [(re_task e, ta_now ta, EntryDropped)])"
  by (simp_all add: entry_drop_def frame_simps)

lemma raise_first_stage_simps [frame_simps]:
  "ta_finished (raise_first_stage l st ta) = ta_finished ta" "ta_aborts (raise_first_stage l st ta) = ta_aborts ta"
  "ta_now (raise_first_stage l st ta) = ta_now ta" "ta_kills (raise_first_stage l st ta) = ta_kills ta @ [(l, ta_now ta)]"
  by (simp_all add: raise_first_stage_def split: prod.split option.split)

lemma drops_onward: "onward ta (fold entry_drop es ta)" "ta_now (fold entry_drop es ta) = ta_now ta"
  "ta_kills (fold entry_drop es ta) = ta_kills ta"
proof (induction es arbitrary: ta)
  case (Cons e es)
  case 1 show ?case using Cons(1) [of "entry_drop e ta"] by (auto simp: onward_def frame_simps)
  case 2 show ?case using Cons(2) by (simp add: frame_simps)
  case 3 show ?case using Cons(3) by (simp add: frame_simps)
qed simp_all

lemma drops_settle: "e \<in> set es \<Longrightarrow> \<not> re_fired e \<Longrightarrow> settled (re_task e) (fold entry_drop es ta)"
proof (induction es arbitrary: ta)
  case (Cons d es)
  show ?case
  proof (cases "e = d")
    case True
    then have "settled (re_task e) (entry_drop d ta)" using Cons.prems by (simp add: settled_def frame_simps)
    then show ?thesis using settled_onward [OF _ drops_onward(1)] by simp
  qed (use Cons in simp)
qed simp

lemma drops_aborts: "x \<in> set (ta_aborts (fold entry_drop es ta)) \<Longrightarrow> x \<in> set (ta_aborts ta) \<or> snd (snd x) = EntryDropped"
  by (induction es arbitrary: ta) (force simp: frame_simps split: if_splits)+

text \<open>The two ways an entry is fired.\<close>

lemma fire_cases:
  assumes "fire e ta = (back, ta')"
  obtains (stage) kill_at lane grace where "re_kill_at e = Some (kill_at, lane, grace)" "\<not> ta_finished ta (re_task e)"
      "back = Some (e\<lparr>re_kill_at := None, re_deadline := max (re_deadline e) (saturating_deadline (ta_now ta) grace)\<rparr>)"
      "ta' = raise_first_stage lane (re_step e) ta"
    | (over) "back = None" "ta_finished ta (re_task e) \<or> re_kill_at e = None" "ta_kills ta' = ta_kills ta"
      "ta_finished ta' = ta_finished ta"
      "ta_aborts ta' = (if ta_finished ta (re_task e) then ta_aborts ta else ta_aborts ta @ [(re_task e, ta_now ta, StageDue)])"
proof (cases "re_kill_at e")
  case None
  then show thesis using assms that(2) by (cases "ta_finished ta (re_task e)") (auto simp: fire_def Let_def frame_simps)
next
  case (Some k)
  then show thesis using assms that
    by (cases k; cases "ta_finished ta (re_task e)") (auto simp: fire_def Let_def frame_simps)
qed

section \<open>Invariant\<close>

text \<open>The entries some reaper or some call still holds.\<close>

definition inside :: "reaper \<Rightarrow> reaper_entry set" where
  "inside rp = (if rp_life rp = ReaperPolled then set (rp_rx rp) \<union> set (rp_heap rp) else {})"

definition in_hand :: "feeder \<Rightarrow> reaper_entry set" where
  "in_hand fe = (if fe_pc fe = FeedOver then {} else {fe_entry fe})"

definition held :: "reaper_world \<Rightarrow> reaper_entry set" where
  "held w = \<Union> (in_hand ` set (rw_feeders w)) \<union> \<Union> (inside ` set (rw_reapers w))"

text \<open>An entry as it was armed, or with its first stage taken at an instant \<open>k\<close>.\<close>

definition stage_taken :: "arming \<Rightarrow> (nat \<times> instant) list \<Rightarrow> reaper_entry \<Rightarrow> bool" where
  "stage_taken a kills e \<longleftrightarrow>
     (case a of
        ArmKill kill_at lane deadline task step \<Rightarrow>
          \<exists>k. (lane, k) \<in> set kills \<and> kill_at \<le> k \<and>
            e = (entry_new a)\<lparr>re_kill_at := None,
                  re_deadline := max deadline (saturating_deadline k (saturating_duration_since deadline kill_at))\<rparr>
      | _ \<Rightarrow> False)"

definition entry_ok :: "arming list \<Rightarrow> (nat \<times> instant) list \<Rightarrow> reaper_entry \<Rightarrow> bool" where
  "entry_ok armed kills e \<longleftrightarrow> (\<exists>a \<in> set armed. e = entry_new a \<or> stage_taken a kills e)"

text \<open>
  An abort at \<open>at\<close> is in time for an arming: not before its deadline, and for a two-stage one not before the kill grace
  has passed after a \<open>Kill\<close> that was raised on the lane, itself not before its instant.
\<close>

definition in_time :: "(nat \<times> instant) list \<Rightarrow> instant \<Rightarrow> arming \<Rightarrow> bool" where
  "in_time kills at' a \<longleftrightarrow>
     (case a of
        ArmAbort deadline task record_of \<Rightarrow> deadline \<le> at'
      | ArmKill kill_at lane deadline task step \<Rightarrow>
          deadline \<le> at' \<and>
          list_ex (\<lambda>(l, k). l = lane \<and> kill_at \<le> k \<and>
            saturating_deadline k (saturating_duration_since deadline kill_at) \<le> at') kills)"

definition abort_ok :: "reaper_world \<Rightarrow> nat \<times> instant \<times> abort_cause \<Rightarrow> bool" where
  "abort_ok w x =
     (case x of (t, at', cause) \<Rightarrow>
        case cause of
          StageDue \<Rightarrow> list_ex (\<lambda>a. task_of a = t \<and> in_time (ta_kills (rw_targets w)) at' a) (rw_armed w)
        | EntryDropped \<Rightarrow> list_ex (\<lambda>rp. rp_life rp \<noteq> ReaperPolled) (rw_reapers w))"

definition kill_ok :: "arming list \<Rightarrow> nat \<times> instant \<Rightarrow> bool" where
  "kill_ok armed x \<longleftrightarrow>
     list_ex (\<lambda>a. case a of ArmKill kill_at lane _ _ _ \<Rightarrow> lane = fst x \<and> kill_at \<le> snd x | _ \<Rightarrow> False) armed"

definition reaper_inv :: "reaper_world \<Rightarrow> bool" where
  "reaper_inv w \<longleftrightarrow>
     (\<forall>e \<in> held w. entry_ok (rw_armed w) (ta_kills (rw_targets w)) e) \<and>
     (\<forall>a \<in> set (rw_armed w). settled (task_of a) (rw_targets w) \<or> task_of a \<in> re_task ` held w) \<and>
     (\<forall>x \<in> set (ta_aborts (rw_targets w)). abort_ok w x) \<and>
     (\<forall>x \<in> set (ta_kills (rw_targets w)). kill_ok (rw_armed w) x)"

lemma entry_ok_mono: "entry_ok armed kills e \<Longrightarrow> set armed \<subseteq> set armed' \<Longrightarrow> set kills \<subseteq> set kills' \<Longrightarrow> entry_ok armed' kills' e"
proof -
  assume e: "entry_ok armed kills e" and s: "set armed \<subseteq> set armed'" "set kills \<subseteq> set kills'"
  have "stage_taken a kills' e" if "stage_taken a kills e" for a
    using that s(2) by (auto simp: stage_taken_def split: arming.splits)
  then show ?thesis using e s(1) by (auto simp: entry_ok_def)
qed

lemma in_time_mono: "in_time kills at' a \<Longrightarrow> set kills \<subseteq> set kills' \<Longrightarrow> in_time kills' at' a"
  by (cases a) (auto simp: in_time_def list_ex_iff)

lemma stage_taken_simps: "stage_taken a kills e \<Longrightarrow> \<not> re_fired e \<and> re_kill_at e = None \<and> re_task e = task_of a"
  by (cases a) (auto simp: stage_taken_def)

lemma entry_ok_unfired: "entry_ok armed kills e \<Longrightarrow> \<not> re_fired e"
  using stage_taken_simps by (auto simp: entry_ok_def)

lemma reaper_inv_intro:
  assumes inv: "reaper_inv w" and grows: "set (rw_armed w) \<subseteq> set (rw_armed w')" "onward (rw_targets w) (rw_targets w')"
    and entries: "\<And>e. e \<in> held w' \<Longrightarrow> e \<in> held w \<or> entry_ok (rw_armed w') (ta_kills (rw_targets w')) e"
    and covers: "\<And>e. e \<in> held w \<Longrightarrow> re_task e \<in> re_task ` held w' \<or> settled (re_task e) (rw_targets w')"
    and fresh: "\<And>a. a \<in> set (rw_armed w') \<Longrightarrow> a \<in> set (rw_armed w) \<or> task_of a \<in> re_task ` held w'"
    and aborts: "\<And>x. x \<in> set (ta_aborts (rw_targets w')) \<Longrightarrow> x \<in> set (ta_aborts (rw_targets w)) \<or> abort_ok w' x"
    and kills: "\<And>x. x \<in> set (ta_kills (rw_targets w')) \<Longrightarrow> x \<in> set (ta_kills (rw_targets w)) \<or> kill_ok (rw_armed w') x"
    and lost: "list_ex (\<lambda>rp. rp_life rp \<noteq> ReaperPolled) (rw_reapers w) \<Longrightarrow> list_ex (\<lambda>rp. rp_life rp \<noteq> ReaperPolled) (rw_reapers w')"
  shows "reaper_inv w'"
proof -
  let ?k = "set (ta_kills (rw_targets w)) \<subseteq> set (ta_kills (rw_targets w'))"
  have k: ?k using grows(2) by (simp add: onward_def)
  have "abort_ok w' x" if "x \<in> set (ta_aborts (rw_targets w))" for x
  proof -
    have "abort_ok w x" using inv that by (simp add: reaper_inv_def)
    then show ?thesis using grows(1) k lost
      by (cases x) (auto simp: abort_ok_def list_ex_iff split: abort_cause.splits intro: in_time_mono)
  qed
  moreover have "kill_ok (rw_armed w') x" if "x \<in> set (ta_kills (rw_targets w))" for x
  proof -
    have "kill_ok (rw_armed w) x" using inv that by (simp add: reaper_inv_def)
    then show ?thesis using grows(1) unfolding kill_ok_def list_ex_iff by blast
  qed
  moreover have "entry_ok (rw_armed w') (ta_kills (rw_targets w')) e" if "e \<in> held w" for e
    using inv that entry_ok_mono [OF _ grows(1) k] by (simp add: reaper_inv_def)
  moreover have "settled (task_of a) (rw_targets w') \<or> task_of a \<in> re_task ` held w'" if a: "a \<in> set (rw_armed w)" for a
  proof -
    from inv a consider "settled (task_of a) (rw_targets w)" | e where "e \<in> held w" "re_task e = task_of a"
      by (force simp: reaper_inv_def)
    then show ?thesis
    proof cases
      case 1 then show ?thesis using settled_onward grows(2) by blast
    next
      case 2 then show ?thesis using covers [OF 2(1)] by auto
    qed
  qed
  ultimately show ?thesis using entries fresh aborts kills unfolding reaper_inv_def by blast
qed

section \<open>Preservation\<close>

lemma sub_union: "n \<subseteq> o' \<union> f \<Longrightarrow> n \<union> i \<subseteq> o' \<union> i \<union> f"
  by blast

lemma update_union:
  "i < length xs \<Longrightarrow> \<Union> (f ` set (xs[i := y])) \<subseteq> \<Union> (f ` set xs) \<union> f y"
  "\<Union> (f ` set xs) \<subseteq> \<Union> (f ` set (xs[i := y])) \<union> f (xs ! i)"
  "i < length xs \<Longrightarrow> f y \<subseteq> \<Union> (f ` set (xs[i := y]))"
proof -
  show "i < length xs \<Longrightarrow> \<Union> (f ` set (xs[i := y])) \<subseteq> \<Union> (f ` set xs) \<union> f y"
    using set_update_subset_insert [of xs i y] by auto
  show "i < length xs \<Longrightarrow> f y \<subseteq> \<Union> (f ` set (xs[i := y]))"
    using set_update_memI [of i xs y] by auto
  have "x \<in> set (xs[i := y]) \<or> x = xs ! i" if x: "x \<in> set xs" for x
  proof -
    obtain k where k: "k < length xs" "x = xs ! k" using x by (auto simp: in_set_conv_nth)
    then show ?thesis using nth_mem [of k "xs[i := y]"] by (cases "k = i") auto
  qed
  then show "\<Union> (f ` set xs) \<subseteq> \<Union> (f ` set (xs[i := y])) \<union> f (xs ! i)" by auto
qed

lemma take_nth_set:
  assumes "i < length xs"
  shows "set xs = insert (xs ! i) (set (take_nth i xs))"
proof -
  have "set xs = set (take i xs @ xs ! i # drop (Suc i) xs)" using assms by (metis id_take_nth_drop)
  then show ?thesis by (simp add: take_nth_def)
qed

text \<open>What a turn, or the loss of its task, makes of the entries inside a reaper.\<close>

lemma lost_entries:
  assumes "reaper_lost rp ta = (rp', ta')" "\<forall>e \<in> inside rp. \<not> re_fired e"
  shows "inside rp' = {}" "e \<in> inside rp \<Longrightarrow> settled (re_task e) ta'" "onward ta ta'" "ta_kills ta' = ta_kills ta"
    "x \<in> set (ta_aborts ta') \<Longrightarrow> x \<in> set (ta_aborts ta) \<or> snd (snd x) = EntryDropped" "rp_life rp' \<noteq> ReaperPolled"
proof -
  show "inside rp' = {}" "rp_life rp' \<noteq> ReaperPolled" using assms(1) by (auto simp: reaper_lost_def inside_def split: if_splits)
  show "onward ta ta'" "ta_kills ta' = ta_kills ta"
    using assms(1) drops_onward(1) [of ta "rp_rx rp @ rp_heap rp"] drops_onward(3) [of "rp_rx rp @ rp_heap rp" ta]
    by (auto simp: reaper_lost_def simp del: fold_append split: if_splits)
  show "settled (re_task e) ta'" if "e \<in> inside rp"
  proof -
    have "ta' = fold entry_drop (rp_rx rp @ rp_heap rp) ta" "e \<in> set (rp_rx rp @ rp_heap rp)"
      using assms(1) that by (auto simp: reaper_lost_def inside_def split: if_splits)
    then show ?thesis using drops_settle assms(2) that by blast
  qed
  show "x \<in> set (ta_aborts ta) \<or> snd (snd x) = EntryDropped" if "x \<in> set (ta_aborts ta')"
    using assms(1) that drops_aborts [of x "rp_rx rp @ rp_heap rp" ta]
    by (auto simp: reaper_lost_def simp del: fold_append split: if_splits)
qed

text \<open>The turns of a reaper: nothing changes, an entry moves to the heap, the feed closes, the loop ends, an entry is fired.\<close>

lemma turn_cases:
  assumes "reaper_turn senders branch rp ta = (rp', ta')" "rp_life rp = ReaperPolled"
  obtains (quiet) "inside rp' = inside rp" "ta' = ta" "rp_life rp' = ReaperPolled"
    | (over) "reaper_lost rp ta = (rp', ta')"
    | (fired) i heap where "branch = BranchDue i" "is_soonest i (rp_heap rp)" "due (rp_heap rp ! i) \<le> ta_now ta"
      "fire_due i (rp_heap rp) ta = (heap, ta')" "rp' = rp\<lparr>rp_heap := heap\<rparr>"
proof (cases "\<not> rp_open rp \<and> rp_heap rp = []")
  case True
  then show thesis using assms that(2) by (simp add: reaper_turn_def)
next
  case False
  show thesis
  proof (cases branch)
    case BranchRecv
    then have "inside rp' = inside rp \<and> ta' = ta \<and> rp_life rp' = ReaperPolled"
      using assms False by (auto simp: reaper_turn_def inside_def split: if_splits list.splits)
    then show thesis using that(1) by blast
  next
    case (BranchDue i)
    show thesis
    proof (cases "is_soonest i (rp_heap rp) \<and> due (rp_heap rp ! i) \<le> ta_now ta")
      case True
      then show thesis using assms False that(3) [OF BranchDue] by (auto simp: BranchDue reaper_turn_def split: prod.splits)
    next
      case no: False
      then have "rp' = rp" "ta' = ta" using assms False by (simp_all add: BranchDue reaper_turn_def split: if_splits)
      then show thesis using that(1) assms(2) by simp
    qed
  qed
qed

lemma becomes_simps [simp]:
  "rw_targets (reaper_becomes r x w) = snd x" "rw_armed (reaper_becomes r x w) = rw_armed w"
  "rw_reapers (reaper_becomes r x w) = (rw_reapers w)[r := fst x]" "rw_feeders (reaper_becomes r x w) = rw_feeders w"
  by (simp_all add: reaper_becomes_def)

lemma held_becomes:
  assumes "r < length (rw_reapers w)"
  shows "held (reaper_becomes r x w) \<subseteq> held w \<union> inside (fst x)" "held w \<subseteq> held (reaper_becomes r x w) \<union> inside (rw_reapers w ! r)"
    "inside (fst x) \<subseteq> held (reaper_becomes r x w)" "inside (rw_reapers w ! r) \<subseteq> held w"
proof -
  let ?hand = "\<Union> (in_hand ` set (rw_feeders w))" and ?old = "\<Union> (inside ` set (rw_reapers w))"
    and ?new = "\<Union> (inside ` set ((rw_reapers w)[r := fst x]))"
  have h: "held w = ?hand \<union> ?old" "held (reaper_becomes r x w) = ?hand \<union> ?new" by (simp_all add: held_def)
  have u: "?new \<subseteq> ?old \<union> inside (fst x)" "?old \<subseteq> ?new \<union> inside (rw_reapers w ! r)" "inside (fst x) \<subseteq> ?new"
    using update_union(1) [OF assms, of inside "fst x"] update_union(2) [of inside "rw_reapers w" r "fst x"]
      update_union(3) [OF assms, of inside "fst x"] .
  show "held (reaper_becomes r x w) \<subseteq> held w \<union> inside (fst x)" unfolding h using u(1) by (simp add: Un_assoc le_supI2)
  show "held w \<subseteq> held (reaper_becomes r x w) \<union> inside (rw_reapers w ! r)" unfolding h using u(2) by (simp add: Un_assoc le_supI2)
  show "inside (fst x) \<subseteq> held (reaper_becomes r x w)" unfolding h using u(3) by (rule le_supI2)
  show "inside (rw_reapers w ! r) \<subseteq> held w" using nth_mem [OF assms] unfolding held_def by (intro le_supI2 UN_upper)
qed

lemma lives_update:
  assumes "list_ex (\<lambda>rp. rp_life rp \<noteq> ReaperPolled) reapers" "r < length reapers"
    and "rp_life (reapers ! r) \<noteq> ReaperPolled \<Longrightarrow> rp_life rp' \<noteq> ReaperPolled"
  shows "list_ex (\<lambda>rp. rp_life rp \<noteq> ReaperPolled) (reapers[r := rp'])"
proof -
  obtain k where k: "k < length reapers" "rp_life (reapers ! k) \<noteq> ReaperPolled"
    using assms(1) by (auto simp: list_ex_iff in_set_conv_nth)
  then have "rp_life (reapers[r := rp'] ! k) \<noteq> ReaperPolled" using assms(2,3) by (cases "k = r") auto
  then show ?thesis using k(1) nth_mem [of k "reapers[r := rp']"] unfolding list_ex_iff by auto
qed

lemma inv_lost:
  assumes "reaper_inv w" "r < length (rw_reapers w)" "reaper_lost (rw_reapers w ! r) (rw_targets w) = (rp', ta')"
  shows "reaper_inv (reaper_becomes r (rp', ta') w)"
proof -
  note h = held_becomes(1-3) [OF assms(2), of "(rp', ta')"] held_becomes(4) [OF assms(2)]
  have "\<not> re_fired e" if "e \<in> held w" for e using assms(1) that entry_ok_unfired by (auto simp: reaper_inv_def)
  then have "\<forall>e \<in> inside (rw_reapers w ! r). \<not> re_fired e" using h(4) by blast
  note l = lost_entries [OF assms(3) this]
  show ?thesis
  proof (rule reaper_inv_intro [OF assms(1)])
    show "onward (rw_targets w) (rw_targets (reaper_becomes r (rp', ta') w))" using l(3) by simp
    show "e \<in> held w \<or> entry_ok (rw_armed (reaper_becomes r (rp', ta') w)) (ta_kills (rw_targets (reaper_becomes r (rp', ta') w))) e"
      if "e \<in> held (reaper_becomes r (rp', ta') w)" for e using that h(1) l(1) by auto
    show "re_task e \<in> re_task ` held (reaper_becomes r (rp', ta') w) \<or> settled (re_task e) (rw_targets (reaper_becomes r (rp', ta') w))"
      if "e \<in> held w" for e using that h(2) l(2) by fastforce
    show "x \<in> set (ta_aborts (rw_targets w)) \<or> abort_ok (reaper_becomes r (rp', ta') w) x"
      if "x \<in> set (ta_aborts (rw_targets (reaper_becomes r (rp', ta') w)))" for x
    proof -
      have "rp' \<in> set ((rw_reapers w)[r := rp'])" using assms(2) by (simp add: set_update_memI)
      then have "list_ex (\<lambda>rp. rp_life rp \<noteq> ReaperPolled) ((rw_reapers w)[r := rp'])" using l(6) unfolding list_ex_iff by blast
      then show ?thesis using that l(5) [of x] by (cases x) (auto simp: abort_ok_def)
    qed
    show "x \<in> set (ta_kills (rw_targets w)) \<or> kill_ok (rw_armed (reaper_becomes r (rp', ta') w)) x"
      if "x \<in> set (ta_kills (rw_targets (reaper_becomes r (rp', ta') w)))" for x using that l(4) by simp
    show "list_ex (\<lambda>rp. rp_life rp \<noteq> ReaperPolled) (rw_reapers (reaper_becomes r (rp', ta') w))"
      if "list_ex (\<lambda>rp. rp_life rp \<noteq> ReaperPolled) (rw_reapers w)" using lives_update [OF that assms(2)] l(6) by simp
  qed simp_all
qed

text \<open>An entry that is due is fired.\<close>

lemma due_in_time:
  assumes "entry_ok armed kills e" "re_kill_at e = None" "due e \<le> now"
  shows "list_ex (\<lambda>a. task_of a = re_task e \<and> in_time kills now a) armed"
proof -
  from assms(1) obtain a where a: "a \<in> set armed" "e = entry_new a \<or> stage_taken a kills e" by (auto simp: entry_ok_def)
  have "task_of a = re_task e \<and> in_time kills now a"
  proof (cases a)
    case (ArmAbort d t n)
    then show ?thesis using a(2) assms(3) by (auto simp: stage_taken_def in_time_def due_def)
  next
    case (ArmKill ka lane d t st)
    then have "stage_taken a kills e" using a(2) assms(2) by auto
    then show ?thesis using assms(3) by (auto simp: ArmKill stage_taken_def in_time_def due_def list_ex_iff)
  qed
  then show ?thesis using a(1) by (auto simp: list_ex_iff)
qed

lemma stage_of_entry:
  assumes "entry_ok armed kills e" "re_kill_at e = Some (ka, lane, grace)" "ka \<le> now"
    and "e' = e\<lparr>re_kill_at := None, re_deadline := max (re_deadline e) (saturating_deadline now grace)\<rparr>"
  shows "entry_ok armed (kills @ [(lane, now)]) e'" "kill_ok armed (lane, now)"
proof -
  from assms(1) obtain a where a: "a \<in> set armed" "e = entry_new a \<or> stage_taken a kills e" by (auto simp: entry_ok_def)
  with assms(2) have e: "e = entry_new a" using stage_taken_simps by fastforce
  then obtain d t st where k: "a = ArmKill ka lane d t st" "grace = saturating_duration_since d ka" using assms(2) by (cases a) auto
  have "stage_taken a (kills @ [(lane, now)]) e'" unfolding stage_taken_def k assms(4) e
    using assms(3) by (auto intro!: exI [of _ now])
  then show "entry_ok armed (kills @ [(lane, now)]) e'" using a(1) by (auto simp: entry_ok_def)
  show "kill_ok armed (lane, now)" using a(1) assms(3) unfolding k by (force simp: kill_ok_def list_ex_iff)
qed

lemma inv_fired:
  assumes inv: "reaper_inv w" and r: "r < length (rw_reapers w)" "rw_reapers w ! r = rp" "rp_life rp = ReaperPolled"
    and i: "is_soonest i (rp_heap rp)" "due (rp_heap rp ! i) \<le> ta_now (rw_targets w)"
    and f: "fire_due i (rp_heap rp) (rw_targets w) = (heap, ta')"
  shows "reaper_inv (reaper_becomes r (rp\<lparr>rp_heap := heap\<rparr>, ta') w)"
proof -
  let ?e = "rp_heap rp ! i" and ?w = "reaper_becomes r (rp\<lparr>rp_heap := heap\<rparr>, ta') w" and ?ta = "rw_targets w"
  let ?rest = "set (rp_rx rp) \<union> set (take_nth i (rp_heap rp))"
  note h = held_becomes(1-3) [OF r(1), of "(rp\<lparr>rp_heap := heap\<rparr>, ta')"] held_becomes(4) [OF r(1)]
  obtain left where b: "fire ?e ?ta = (left, ta')" "heap = take_nth i (rp_heap rp) @ (case left of Some d \<Rightarrow> [d] | None \<Rightarrow> [])"
    using f by (auto simp: fire_due_def split: prod.splits option.splits)
  have ins: "inside rp = insert ?e ?rest" "inside (rp\<lparr>rp_heap := heap\<rparr>) = ?rest \<union> set_option left"
    using r(3) take_nth_set [of i "rp_heap rp"] i(1) b(2) by (auto simp: inside_def is_soonest_def split: option.splits)
  then have e: "?e \<in> held w" using h(4) r(2) by auto
  then have ok: "entry_ok (rw_armed w) (ta_kills ?ta) ?e" using inv by (simp add: reaper_inv_def)
  have "?rest \<subseteq> held ?w" "held w \<subseteq> held ?w \<union> insert ?e ?rest" using h(2,3) ins r(2) by simp_all
  then have kept: "re_task d \<in> re_task ` held ?w \<or> d = ?e" if "d \<in> held w" for d using that by blast
  have "?rest \<subseteq> held w" "held ?w \<subseteq> held w \<union> (?rest \<union> set_option left)" using h(1,4) ins r(2) by simp_all
  then have came: "d \<in> held w \<or> d \<in> set_option left" if "d \<in> held ?w" for d using that by blast
  have lost: "list_ex (\<lambda>rp. rp_life rp \<noteq> ReaperPolled) (rw_reapers w) \<Longrightarrow> list_ex (\<lambda>rp. rp_life rp \<noteq> ReaperPolled) (rw_reapers ?w)"
    using lives_update [OF _ r(1)] r(2,3) by simp
  from b(1) show ?thesis
  proof (cases rule: fire_cases)
    case (stage ka lane grace)
    let ?d = "?e\<lparr>re_kill_at := None, re_deadline := max (re_deadline ?e) (saturating_deadline (ta_now ?ta) grace)\<rparr>"
    have "ka \<le> ta_now ?ta" using i(2) stage(1) by (simp add: due_def)
    note st = stage_of_entry [OF ok stage(1) this refl]
    have t: "onward ?ta ta'" "ta_aborts ta' = ta_aborts ?ta" "ta_kills ta' = ta_kills ?ta @ [(lane, ta_now ?ta)]"
      using stage(4) by (auto simp: onward_def frame_simps)
    have d: "?d \<in> held ?w" using h(3) ins(2) stage(3) by auto
    show ?thesis
    proof (rule reaper_inv_intro [OF inv])
      show "d \<in> held w \<or> entry_ok (rw_armed ?w) (ta_kills (rw_targets ?w)) d" if "d \<in> held ?w" for d
        using came [OF that] stage(3) st(1) t(3) by auto
      show "re_task d \<in> re_task ` held ?w \<or> settled (re_task d) (rw_targets ?w)" if "d \<in> held w" for d
        using kept [OF that] imageI [OF d, of re_task] by auto
      show "x \<in> set (ta_kills ?ta) \<or> kill_ok (rw_armed ?w) x" if "x \<in> set (ta_kills (rw_targets ?w))" for x
        using that t(3) st(2) by auto
    qed (use t lost in simp_all)
  next
    case over
    have t: "onward ?ta ta'" using over by (auto simp: onward_def)
    show ?thesis
    proof (rule reaper_inv_intro [OF inv])
      show "d \<in> held w \<or> entry_ok (rw_armed ?w) (ta_kills (rw_targets ?w)) d" if "d \<in> held ?w" for d
        using came [OF that] over(1) by auto
      have "settled (re_task ?e) ta'" using over(4,5) by (auto simp: settled_def)
      then show "re_task d \<in> re_task ` held ?w \<or> settled (re_task d) (rw_targets ?w)" if "d \<in> held w" for d
        using kept [OF that] by auto
      show "x \<in> set (ta_aborts ?ta) \<or> abort_ok ?w x" if "x \<in> set (ta_aborts (rw_targets ?w))" for x
        using that over(2,3,5) due_in_time [OF ok _ i(2)] by (auto simp: abort_ok_def split: if_splits)
    qed (use t over(3) lost in simp_all)
  qed
qed

lemma inv_turn:
  assumes "reaper_inv w" "r < length (rw_reapers w)"
  shows "reaper_inv (reaper_becomes r (reaper_turn senders branch (rw_reapers w ! r) (rw_targets w)) w)"
proof -
  obtain rp' ta' where t: "reaper_turn senders branch (rw_reapers w ! r) (rw_targets w) = (rp', ta')" by fastforce
  show ?thesis
  proof (cases "rp_life (rw_reapers w ! r) = ReaperPolled")
    case True
    show ?thesis unfolding t using t True
    proof (cases rule: turn_cases)
      case quiet
      let ?w = "reaper_becomes r (rp', ta') w"
      note hb = held_becomes(1-3) [OF assms(2), of "(rp', ta')"] held_becomes(4) [OF assms(2)]
      have "held ?w \<subseteq> held w" "held w \<subseteq> held ?w"
        using order_trans [OF hb(1)] order_trans [OF hb(2)] hb(3,4) quiet(1) by simp_all
      then have h: "held ?w = held w" by (rule subset_antisym)
      show "reaper_inv ?w"
        by (rule reaper_inv_intro [OF assms(1)]) (use quiet h lives_update [OF _ assms(2)] True in simp_all)
    next
      case over
      then show "reaper_inv (reaper_becomes r (rp', ta') w)" using inv_lost assms by blast
    next
      case (fired i heap)
      then show "reaper_inv (reaper_becomes r (rp', ta') w)" using inv_fired [OF assms refl True] by simp
    qed
  next
    case False
    then have "reaper_becomes r (reaper_turn senders branch (rw_reapers w ! r) (rw_targets w)) w = w"
      by (simp add: reaper_turn_def reaper_becomes_def)
    then show ?thesis using assms(1) by simp
  qed
qed

text \<open>The slots and the calls that are about to send name reapers that exist.\<close>

fun sends_below :: "nat \<Rightarrow> feeder_pc \<Rightarrow> bool" where
  "sends_below n (FeedSend r again) = (r < n)"
| "sends_below n _ = True"

lemma sends_below_mono: "sends_below n pc \<Longrightarrow> n \<le> m \<Longrightarrow> sends_below m pc"
  by (cases pc) auto

definition names_reapers :: "reaper_world \<Rightarrow> bool" where
  "names_reapers w \<longleftrightarrow>
     (\<forall>x \<in> set (rw_slots w). snd x < length (rw_reapers w)) \<and>
     (\<forall>fe \<in> set (rw_feeders w). sends_below (length (rw_reapers w)) (fe_pc fe))"

definition reapers_inv :: "reaper_world \<Rightarrow> bool" where
  "reapers_inv w \<longleftrightarrow> reaper_inv w \<and> names_reapers w"

lemma handle_frame:
  assumes "reaper_handle rt w = (r, w')"
  shows "rw_targets w' = rw_targets w" "rw_armed w' = rw_armed w" "rw_feeders w' = rw_feeders w" "held w' = held w"
    "\<exists>more. rw_reapers w' = rw_reapers w @ more \<and> (\<forall>rp \<in> set more. rp = reaper_new)"
proof -
  show f: "rw_targets w' = rw_targets w" "rw_armed w' = rw_armed w" "rw_feeders w' = rw_feeders w"
    using assms by (auto simp: reaper_handle_def Let_def split: option.splits if_splits)
  have "rw_reapers w' = rw_reapers w \<or> rw_reapers w' = rw_reapers w @ [reaper_new]"
    using assms by (auto simp: reaper_handle_def Let_def split: option.splits if_splits)
  then obtain more where m: "rw_reapers w' = rw_reapers w @ more" "\<forall>rp \<in> set more. rp = reaper_new"
    by (metis append_Nil2 empty_iff empty_set list.set_cases list.set_intros(1) set_ConsD)
  then show "\<exists>more. rw_reapers w' = rw_reapers w @ more \<and> (\<forall>rp \<in> set more. rp = reaper_new)" by blast
  have "inside rp = {}" if "rp \<in> set more" for rp using that m(2) by (auto simp: inside_def reaper_new_def)
  then have "\<Union> (inside ` set more) = {}" by simp
  then show "held w' = held w" by (simp add: held_def m(1) f(3) Un_assoc)
qed

lemma handle_names:
  assumes "reaper_handle rt w = (r, w')" "names_reapers w"
  shows "r < length (rw_reapers w')" "names_reapers w'"
proof -
  have n: "\<forall>x \<in> set (rw_slots w). snd x < length (rw_reapers w)"
    "\<forall>fe \<in> set (rw_feeders w). sends_below (length (rw_reapers w)) (fe_pc fe)"
    using assms(2) by (simp_all add: names_reapers_def)
  let ?slots = "hput rt (length (rw_reapers w)) (filter (\<lambda>(_, r). \<not> slot_finished (rw_reapers w) r) (rw_slots w))"
  consider "w' = w" "hget (rw_slots w) rt = Some r"
    | "r = length (rw_reapers w)" "w' = w\<lparr>rw_slots := ?slots, rw_reapers := rw_reapers w @ [reaper_new]\<rparr>"
  proof (cases "hget (rw_slots w) rt")
    case None
    show thesis by (rule that(2)) (use None assms(1) in \<open>auto simp: reaper_handle_def Let_def\<close>)
  next
    case (Some q)
    show thesis
    proof (cases "slot_finished (rw_reapers w) q")
      case True
      show thesis by (rule that(2)) (use Some True assms(1) in \<open>auto simp: reaper_handle_def Let_def\<close>)
    next
      case False
      show thesis by (rule that(1)) (use Some False assms(1) in \<open>auto simp: reaper_handle_def Let_def\<close>)
    qed
  qed
  then have "r < length (rw_reapers w') \<and> names_reapers w'"
  proof cases
    case 1
    have "(rt, r) \<in> set (rw_slots w)" using 1(2) by (rule map_of_SomeD)
    with n(1) have "r < length (rw_reapers w)" by fastforce
    then show ?thesis using 1 assms(2) by simp
  next
    case 2
    have "x \<in> set (rw_slots w) \<or> x = (rt, r)" if "x \<in> set (rw_slots w')" for x
      using that update_entries(1) [of rt r "filter (\<lambda>(_, r). \<not> slot_finished (rw_reapers w) r) (rw_slots w)"] 2
      by auto
    moreover have "snd x < length (rw_reapers w')" if "x \<in> set (rw_slots w) \<or> x = (rt, r)" for x
      using that n(1) 2 by auto
    ultimately have "\<forall>x \<in> set (rw_slots w'). snd x < length (rw_reapers w')" by blast
    moreover have "\<forall>fe \<in> set (rw_feeders w'). sends_below (length (rw_reapers w')) (fe_pc fe)"
      using n(2) sends_below_mono [of "length (rw_reapers w)" _ "length (rw_reapers w')"] 2(2) by simp
    ultimately show ?thesis using 2 by (auto simp: names_reapers_def)
  qed
  then show "r < length (rw_reapers w')" "names_reapers w'" by simp_all
qed

text \<open>The held entries once a feeder has gone on.\<close>

lemma held_feeder:
  assumes "j < length (rw_feeders w)" "w' = w\<lparr>rw_feeders := (rw_feeders w)[j := fe]\<rparr>"
  shows "held w' \<subseteq> held w \<union> in_hand fe" "held w \<subseteq> held w' \<union> in_hand (rw_feeders w ! j)" "in_hand fe \<subseteq> held w'"
proof -
  let ?old = "\<Union> (in_hand ` set (rw_feeders w))" and ?new = "\<Union> (in_hand ` set ((rw_feeders w)[j := fe]))"
    and ?in = "\<Union> (inside ` set (rw_reapers w))"
  have h: "held w = ?old \<union> ?in" "held w' = ?new \<union> ?in" by (simp_all add: held_def assms(2))
  have u: "?new \<subseteq> ?old \<union> in_hand fe" "?old \<subseteq> ?new \<union> in_hand (rw_feeders w ! j)" "in_hand fe \<subseteq> ?new"
    using update_union(1) [OF assms(1), of in_hand fe] update_union(2) [of in_hand "rw_feeders w" j fe]
      update_union(3) [OF assms(1), of in_hand fe] .
  show "held w' \<subseteq> held w \<union> in_hand fe" unfolding h using u(1) by (rule sub_union)
  show "held w \<subseteq> held w' \<union> in_hand (rw_feeders w ! j)" unfolding h using u(2) by (rule sub_union)
  show "in_hand fe \<subseteq> held w'" unfolding h using u(3) by (rule le_supI1)
qed

lemma inv_same:
  assumes "reaper_inv w" "held w' = held w" "rw_targets w' = rw_targets w" "rw_armed w' = rw_armed w"
    and "list_ex (\<lambda>rp. rp_life rp \<noteq> ReaperPolled) (rw_reapers w) \<Longrightarrow> list_ex (\<lambda>rp. rp_life rp \<noteq> ReaperPolled) (rw_reapers w')"
  shows "reaper_inv w'"
  by (rule reaper_inv_intro [OF assms(1)]) (use assms(2-5) in simp_all)

lemma feeder_to_simps [simp]:
  "rw_targets (feeder_to j pc w) = rw_targets w" "rw_armed (feeder_to j pc w) = rw_armed w"
  "rw_reapers (feeder_to j pc w) = rw_reapers w" "rw_slots (feeder_to j pc w) = rw_slots w"
  by (simp_all add: feeder_to_def)

lemma held_feeder_to:
  assumes "j < length (rw_feeders w)" "fe_pc (rw_feeders w ! j) \<noteq> FeedOver"
  shows "pc \<noteq> FeedOver \<Longrightarrow> held (feeder_to j pc w) = held w" "held (feeder_to j pc w) \<subseteq> held w"
    "held w \<subseteq> insert (fe_entry (rw_feeders w ! j)) (held (feeder_to j pc w))" "fe_entry (rw_feeders w ! j) \<in> held w"
proof -
  let ?fe = "rw_feeders w ! j"
  note h = held_feeder [OF assms(1), of "feeder_to j pc w" "?fe\<lparr>fe_pc := pc\<rparr>", OF feeder_to_def]
  have old: "in_hand ?fe = {fe_entry ?fe}" using assms(2) by (simp add: in_hand_def)
  have new: "in_hand (?fe\<lparr>fe_pc := pc\<rparr>) = (if pc = FeedOver then {} else {fe_entry ?fe})" by (simp add: in_hand_def)
  have "in_hand ?fe \<subseteq> held w" using nth_mem [OF assms(1)] unfolding held_def by (intro le_supI1 UN_upper)
  then show e: "fe_entry ?fe \<in> held w" using old by simp
  show "held w \<subseteq> insert (fe_entry ?fe) (held (feeder_to j pc w))" using h(2) old by simp
  then show "held (feeder_to j pc w) \<subseteq> held w" "pc \<noteq> FeedOver \<Longrightarrow> held (feeder_to j pc w) = held w"
    using h(1,3) new e by (auto split: if_splits)
qed

lemma names_feeder_to:
  assumes "names_reapers w" "sends_below (length (rw_reapers w)) pc"
  shows "names_reapers (feeder_to j pc w)"
proof -
  have "sends_below (length (rw_reapers w)) (fe_pc fe)"
    if "fe \<in> insert ((rw_feeders w ! j)\<lparr>fe_pc := pc\<rparr>) (set (rw_feeders w))" for fe
    using that assms by (auto simp: names_reapers_def)
  moreover have "set (rw_feeders (feeder_to j pc w)) \<subseteq> insert ((rw_feeders w ! j)\<lparr>fe_pc := pc\<rparr>) (set (rw_feeders w))"
    by (simp add: feeder_to_def set_update_subset_insert)
  ultimately show ?thesis using assms(1) by (auto simp: names_reapers_def)
qed

text \<open>The accepted send: the entry goes from the call to the feed.\<close>

lemma inv_sent:
  assumes inv: "reaper_inv w" and j: "j < length (rw_feeders w)" "fe_pc (rw_feeders w ! j) \<noteq> FeedOver"
    and r: "r < length (rw_reapers w)" "rp_life (rw_reapers w ! r) = ReaperPolled"
    and w': "w' = w\<lparr>rw_reapers := (rw_reapers w)[r := (rw_reapers w ! r)\<lparr>rp_rx := rp_rx (rw_reapers w ! r) @ [fe_entry (rw_feeders w ! j)]\<rparr>]\<rparr>"
  shows "reaper_inv (feeder_to j FeedOver w')"
proof -
  let ?e = "fe_entry (rw_feeders w ! j)" and ?rp = "(rw_reapers w ! r)\<lparr>rp_rx := rp_rx (rw_reapers w ! r) @ [fe_entry (rw_feeders w ! j)]\<rparr>"
  have b: "w' = reaper_becomes r (?rp, rw_targets w) w" by (simp add: w' reaper_becomes_def)
  note h = held_becomes(1-3) [OF r(1), of "(?rp, rw_targets w)"] held_becomes(4) [OF r(1)]
  have ins: "inside ?rp = insert ?e (inside (rw_reapers w ! r))" using r(2) by (simp add: inside_def)
  have e: "?e \<in> held w" by (rule held_feeder_to(4) [OF j])
  have sub: "held w' \<subseteq> held w" "held w \<subseteq> held w'"
    using order_trans [OF h(1)] order_trans [OF h(2)] h(3,4) ins e unfolding b by auto
  have j': "j < length (rw_feeders w')" "fe_pc (rw_feeders w' ! j) \<noteq> FeedOver" "fe_entry (rw_feeders w' ! j) = ?e" using j w' by simp_all
  note f = held_feeder_to(2,3) [OF j'(1,2), where pc = FeedOver]
  have "inside ?rp \<subseteq> held (feeder_to j FeedOver w')"
    using set_update_memI [OF r(1), of ?rp] unfolding held_def feeder_to_simps w' by (intro le_supI2 UN_upper) simp
  then have "?e \<in> held (feeder_to j FeedOver w')" using ins by blast
  then have "held (feeder_to j FeedOver w') = held w" using sub f j'(3) by auto
  then show ?thesis
    by (rule inv_same [OF inv]) (use lives_update [OF _ r(1)] r(2) in \<open>simp_all add: w'\<close>)
qed

lemma inv_refused:
  assumes inv: "reaper_inv w" and j: "j < length (rw_feeders w)" "fe_pc (rw_feeders w ! j) \<noteq> FeedOver"
    and r: "r < length (rw_reapers w)" "rp_life (rw_reapers w ! r) \<noteq> ReaperPolled"
  shows "reaper_inv (feeder_to j FeedOver (w\<lparr>rw_targets := entry_drop (fe_entry (rw_feeders w ! j)) (rw_targets w)\<rparr>))"
    (is "reaper_inv (feeder_to j FeedOver ?v)")
proof -
  let ?e = "fe_entry (rw_feeders w ! j)" and ?w = "feeder_to j FeedOver ?v"
  have v: "held ?v = held w" by (simp add: held_def)
  have jv: "j < length (rw_feeders ?v)" "fe_pc (rw_feeders ?v ! j) \<noteq> FeedOver" "fe_entry (rw_feeders ?v ! j) = ?e" using j by simp_all
  have f: "held ?w \<subseteq> held w" "held w \<subseteq> insert ?e (held ?w)" "?e \<in> held w"
    using held_feeder_to(2,3) [OF jv(1,2), where pc = FeedOver] held_feeder_to(4) [OF j] unfolding v jv(3) .
  have "\<not> re_fired ?e" using inv f(3) entry_ok_unfired by (auto simp: reaper_inv_def)
  then have done_e: "settled (re_task ?e) (rw_targets ?w)" by (simp add: settled_def frame_simps)
  have dead: "list_ex (\<lambda>rp. rp_life rp \<noteq> ReaperPolled) (rw_reapers w)" using r nth_mem [OF r(1)] unfolding list_ex_iff by blast
  show ?thesis
  proof (rule reaper_inv_intro [OF inv])
    show "onward (rw_targets w) (rw_targets ?w)" by (auto simp: onward_def frame_simps)
    show "d \<in> held w \<or> entry_ok (rw_armed ?w) (ta_kills (rw_targets ?w)) d" if "d \<in> held ?w" for d using that f(1) by blast
    show "re_task d \<in> re_task ` held ?w \<or> settled (re_task d) (rw_targets ?w)" if "d \<in> held w" for d
      using that f(2) done_e by blast
    show "x \<in> set (ta_aborts (rw_targets w)) \<or> abort_ok ?w x" if "x \<in> set (ta_aborts (rw_targets ?w))" for x
      using that dead by (auto simp: frame_simps abort_ok_def split: if_splits)
  qed (use dead in \<open>simp_all add: frame_simps\<close>)
qed

lemma inv_feeder:
  assumes "reapers_inv w" "j < length (rw_feeders w)"
  shows "reapers_inv (feeder_go j w)"
proof -
  have inv: "reaper_inv w" "names_reapers w" using assms(1) by (simp_all add: reapers_inv_def)
  let ?fe = "rw_feeders w ! j"
  have b: "sends_below (length (rw_reapers w)) (fe_pc ?fe)" using inv(2) nth_mem [OF assms(2)] by (simp add: names_reapers_def)
  show ?thesis
  proof (cases "fe_pc ?fe")
    case (FeedHandle again)
    obtain r w1 where h: "reaper_handle (fe_runtime ?fe) w = (r, w1)" by fastforce
    note f = handle_frame [OF h] and n = handle_names [OF h inv(2)]
    have "held (feeder_to j (FeedSend r again) w1) = held w1" using held_feeder_to(1) [of j w1 "FeedSend r again"] f(3) assms(2) FeedHandle by simp
    moreover have "list_ex (\<lambda>rp. rp_life rp \<noteq> ReaperPolled) (rw_reapers w) \<Longrightarrow> list_ex (\<lambda>rp. rp_life rp \<noteq> ReaperPolled) (rw_reapers w1)"
      using f(5) by auto
    ultimately have "reaper_inv (feeder_to j (FeedSend r again) w1)" using inv_same [OF inv(1)] f by simp
    then show ?thesis using names_feeder_to [OF n(2)] n(1) by (simp add: reapers_inv_def feeder_go_def FeedHandle h)
  next
    case (FeedSend r again)
    have r: "r < length (rw_reapers w)" and over: "fe_pc ?fe \<noteq> FeedOver" using b FeedSend by simp_all
    show ?thesis
    proof (cases "rp_life (rw_reapers w ! r) = ReaperPolled")
      case True
      have "reaper_inv (feeder_go j w)" using inv_sent [OF inv(1) assms(2) over r True refl] True FeedSend by (simp add: feeder_go_def feed_send_def)
      moreover have "names_reapers (feeder_go j w)" using True FeedSend inv(2)
        by (simp add: feeder_go_def feed_send_def, intro names_feeder_to) (simp_all add: names_reapers_def)
      ultimately show ?thesis by (simp add: reapers_inv_def)
    next
      case dead: False
      show ?thesis
      proof (cases again)
        case 0
        have "reaper_inv (feeder_go j w)" using inv_refused [OF inv(1) assms(2) over r dead] dead FeedSend 0 by (simp add: feeder_go_def feed_send_def)
        moreover have "names_reapers (feeder_go j w)" using 0 dead FeedSend inv(2)
          by (simp add: feeder_go_def feed_send_def, intro names_feeder_to) (simp_all add: names_reapers_def)
        ultimately show ?thesis by (simp add: reapers_inv_def)
      next
        case (Suc n)
        then have "feeder_go j w = feeder_to j (FeedHandle n) w" using dead FeedSend by (simp add: feeder_go_def feed_send_def)
        moreover have "reaper_inv (feeder_to j (FeedHandle n) w)"
          by (rule inv_same [OF inv(1)]) (use held_feeder_to(1) [OF assms(2) over] in simp_all)
        ultimately show ?thesis using names_feeder_to [OF inv(2)] by (simp add: reapers_inv_def)
      qed
    qed
  qed (use assms in \<open>simp add: feeder_go_def\<close>)
qed

lemma inv_armed:
  assumes "reapers_inv w" "pc \<noteq> FeedOver" "sends_below (length (rw_reapers w)) pc"
  shows "reapers_inv (arming_begins pc rt a w)"
proof -
  let ?w = "arming_begins pc rt a w"
  have inv: "reaper_inv w" "names_reapers w" using assms(1) by (simp_all add: reapers_inv_def)
  have h: "held ?w = insert (entry_new a) (held w)" using assms(2) by (auto simp: arming_begins_def held_def in_hand_def)
  have "reaper_inv ?w"
  proof (rule reaper_inv_intro [OF inv(1)])
    show "onward (rw_targets w) (rw_targets ?w)" by (simp add: arming_begins_def onward_def frame_simps)
    show "d \<in> held w \<or> entry_ok (rw_armed ?w) (ta_kills (rw_targets ?w)) d" if "d \<in> held ?w" for d
      using that h by (auto simp: arming_begins_def entry_ok_def)
    show "re_task d \<in> re_task ` held ?w \<or> settled (re_task d) (rw_targets ?w)" if "d \<in> held w" for d using that h by auto
    show "b \<in> set (rw_armed w) \<or> task_of b \<in> re_task ` held ?w" if "b \<in> set (rw_armed ?w)" for b
      using that unfolding h by (auto simp: arming_begins_def)
  qed (auto simp: arming_begins_def frame_simps)
  moreover have "names_reapers ?w" using inv(2) assms(3) by (simp add: arming_begins_def names_reapers_def)
  ultimately show ?thesis by (simp add: reapers_inv_def)
qed

lemma names_becomes: "names_reapers w \<Longrightarrow> names_reapers (reaper_becomes r x w)"
  by (simp add: names_reapers_def reaper_becomes_def)

lemma targets_step_onward: "onward ta (targets_step ta op)" "ta_kills (targets_step ta op) = ta_kills ta" "ta_aborts (targets_step ta op) = ta_aborts ta"
  by (cases op; simp add: onward_def)+

lemma inv_targets:
  assumes "reapers_inv w"
  shows "reapers_inv (w\<lparr>rw_targets := targets_step (rw_targets w) op\<rparr>)" (is "reapers_inv ?w")
proof -
  have "held ?w = held w" by (simp add: held_def)
  then have "reaper_inv ?w" using assms unfolding reapers_inv_def
    by (intro reaper_inv_intro [of w ?w]) (simp_all add: targets_step_onward)
  then show ?thesis using assms by (simp add: reapers_inv_def names_reapers_def)
qed

lemma inv_finishes:
  assumes "reapers_inv w" "r < length (rw_reapers w)" "rp_life (rw_reapers w ! r) = ReaperDropped"
  shows "reapers_inv (w\<lparr>rw_reapers := (rw_reapers w)[r := (rw_reapers w ! r)\<lparr>rp_life := ReaperFinished\<rparr>]\<rparr>)"
proof -
  let ?rp = "(rw_reapers w ! r)\<lparr>rp_life := ReaperFinished\<rparr>"
  let ?w = "w\<lparr>rw_reapers := (rw_reapers w)[r := ?rp]\<rparr>"
  have b: "?w = reaper_becomes r (?rp, rw_targets w) w" by (simp add: reaper_becomes_def)
  have i: "inside ?rp = {}" "inside (rw_reapers w ! r) = {}" using assms(3) by (simp_all add: inside_def)
  have "held ?w \<subseteq> held w" "held w \<subseteq> held ?w"
    using held_becomes(1,2) [OF assms(2), of "(?rp, rw_targets w)"] i unfolding b by simp_all
  then have h: "held ?w = held w" by (rule subset_antisym)
  have inv: "reaper_inv w" using assms(1) by (simp add: reapers_inv_def)
  have "reaper_inv ?w" by (rule inv_same [OF inv h]) (use lives_update [OF _ assms(2)] in simp_all)
  then show ?thesis using assms(1) by (simp add: reapers_inv_def names_reapers_def)
qed

lemma inv_system_dropped:
  assumes "reapers_inv w"
  shows "reapers_inv (w\<lparr>rw_slots := []\<rparr>)"
proof -
  have inv: "reaper_inv w" using assms by (simp add: reapers_inv_def)
  have "reaper_inv (w\<lparr>rw_slots := []\<rparr>)" by (rule inv_same [OF inv]) (simp_all add: held_def)
  then show ?thesis using assms by (simp add: reapers_inv_def names_reapers_def)
qed

lemma inv_drop_feed:
  assumes "reapers_inv w"
  shows "reapers_inv (w\<lparr>rw_feeds := fs\<rparr>)"
proof -
  have inv: "reaper_inv w" using assms by (simp add: reapers_inv_def)
  have "reaper_inv (w\<lparr>rw_feeds := fs\<rparr>)" by (rule inv_same [OF inv]) (simp_all add: held_def)
  then show ?thesis using assms by (simp add: reapers_inv_def names_reapers_def)
qed

lemma inv_handle:
  assumes "reapers_inv w" "reaper_handle rt w = (r, w')"
  shows "reapers_inv w'"
proof -
  note f = handle_frame [OF assms(2)]
  have inv: "reaper_inv w" "names_reapers w" using assms(1) by (simp_all add: reapers_inv_def)
  have "reaper_inv w'" by (rule inv_same [OF inv(1)]) (use f in auto)
  then show ?thesis using handle_names(2) [OF assms(2) inv(2)] by (simp add: reapers_inv_def)
qed

lemma inv_take_feed: "reapers_inv w \<Longrightarrow> reapers_inv (reaper_step w (TakeFeed rt))"
  using inv_handle inv_drop_feed by (auto split: prod.split)

lemma reaper_step_inv: "reapers_inv w \<Longrightarrow> reapers_inv (reaper_step w op)"
proof (cases op)
  case (ReaperGo r branch)
  assume "reapers_inv w"
  then show ?thesis using inv_turn names_becomes unfolding ReaperGo reaper_step.simps reapers_inv_def by simp
next
  case (ReaperLost r)
  assume w: "reapers_inv w"
  show ?thesis
  proof (cases "r < length (rw_reapers w)")
    case True
    obtain rp' ta' where l: "reaper_lost (rw_reapers w ! r) (rw_targets w) = (rp', ta')" by fastforce
    then show ?thesis using w True inv_lost [OF _ True l] names_becomes by (simp add: ReaperLost reapers_inv_def)
  qed (use w in \<open>simp add: ReaperLost\<close>)
next
  case (Arm rt a)
  then show "reapers_inv w \<Longrightarrow> ?thesis" using inv_armed [of w "FeedHandle 1" rt a] by simp
next
  case (ArmAt r rt a)
  then show "reapers_inv w \<Longrightarrow> ?thesis" using inv_armed [of w "FeedSend r 2" rt a] by simp
next
  case (TakeFeed rt)
  then show "reapers_inv w \<Longrightarrow> ?thesis" using inv_take_feed by simp
next
  case (DropFeed r)
  then show "reapers_inv w \<Longrightarrow> ?thesis" using inv_drop_feed by simp
next
  case (ReaperFinishes r)
  then show "reapers_inv w \<Longrightarrow> ?thesis" using inv_finishes by simp
qed (simp_all only: reaper_step.simps inv_targets inv_system_dropped, simp add: inv_feeder)

interpretation reapers: invariant_machine reaper_step reapers_inv
  by unfold_locales (rule reaper_step_inv)

lemma reapers_inv_new: "reapers_inv (reaper_world_new now)"
  by (simp add: reapers_inv_def reaper_inv_def names_reapers_def reaper_world_new_def targets_new_def held_def)

lemma reapers_reachable: "reapers_inv (run reaper_step (reaper_world_new now) ops)"
  by (rule reapers.run_inv) (rule reapers_inv_new)

lemma armed_covered:
  assumes inv: "reaper_inv w" and a: "a \<in> set (rw_armed w)"
  shows "ta_finished (rw_targets w) (task_of a) \<or> list_ex (\<lambda>(t, at', cause). t = task_of a) (ta_aborts (rw_targets w)) \<or>
    (\<exists>e \<in> held w. re_task e = task_of a \<and> \<not> re_fired e)"
proof -
  from inv a consider "settled (task_of a) (rw_targets w)" | e where "e \<in> held w" "re_task e = task_of a"
    by (force simp: reaper_inv_def)
  then show ?thesis
  proof cases
    case 1
    then show ?thesis by (auto simp: settled_def list_ex_iff)
  next
    case 2
    then have "\<not> re_fired e" using inv entry_ok_unfired by (auto simp: reaper_inv_def)
    with 2 show ?thesis by blast
  qed
qed

section \<open>The turns of one reaper\<close>

text \<open>What a reaper has to do: for each entry its stages, and one turn to take it out of the feed.\<close>

definition stages :: "reaper_entry \<Rightarrow> nat" where
  "stages e = (if re_kill_at e = None then 1 else 2)"

definition reaper_work :: "reaper \<Rightarrow> nat" where
  "reaper_work rp = sum_list (map (\<lambda>e. Suc (stages e)) (rp_rx rp)) + sum_list (map stages (rp_heap rp))"

definition fed_turn :: "reaper \<times> targets \<Rightarrow> reaper_branch \<Rightarrow> reaper \<times> targets" where
  "fed_turn s b = reaper_turn True b (fst s) (snd s)"

text \<open>A sequence of turns each of which finds its branch ready.\<close>

fun ready_turns :: "reaper \<times> targets \<Rightarrow> reaper_branch list \<Rightarrow> bool" where
  "ready_turns s [] = True"
| "ready_turns s (b # bs) = (fed_turn s b \<noteq> s \<and> ready_turns (fed_turn s b) bs)"

definition polled :: "reaper \<times> targets \<Rightarrow> bool" where
  "polled s \<longleftrightarrow> rp_life (fst s) = ReaperPolled \<and> rp_open (fst s)"

lemma take_nth_work:
  fixes f :: "'a \<Rightarrow> nat"
  assumes "i < length xs"
  shows "sum_list (map f xs) = f (xs ! i) + sum_list (map f (take_nth i xs))"
proof -
  have "sum_list (map f xs) = sum_list (map f (take i xs @ xs ! i # drop (Suc i) xs))"
    using assms by (metis id_take_nth_drop)
  then show ?thesis by (simp add: take_nth_def)
qed

lemma fire_work:
  assumes "fire e ta = (back', ta')"
  shows "(case back' of None \<Rightarrow> 0 | Some d \<Rightarrow> stages d) < stages e" "ta_now ta' = ta_now ta"
proof -
  from assms show "(case back' of None \<Rightarrow> 0 | Some d \<Rightarrow> stages d) < stages e" by (cases rule: fire_cases) (simp_all add: stages_def)
  show "ta_now ta' = ta_now ta" using assms
    by (cases "re_kill_at e"; cases "ta_finished ta (re_task e)") (auto simp: fire_def Let_def frame_simps)
qed

lemma fire_due_work:
  assumes "fire_due i heap ta = (heap', ta')" "i < length heap"
  shows "sum_list (map stages heap') < sum_list (map stages heap)" "ta_now ta' = ta_now ta"
proof -
  obtain d where d: "fire (heap ! i) ta = (d, ta')" "heap' = take_nth i heap @ (case d of None \<Rightarrow> [] | Some e \<Rightarrow> [e])"
    using assms(1) by (auto simp: fire_due_def split: prod.splits option.splits)
  have "sum_list (map stages heap') = sum_list (map stages (take_nth i heap)) + (case d of None \<Rightarrow> 0 | Some e \<Rightarrow> stages e)"
    using d(2) by (simp split: option.split)
  then show "sum_list (map stages heap') < sum_list (map stages heap)"
    using fire_work(1) [OF d(1)] take_nth_work [OF assms(2), of stages] by linarith
  show "ta_now ta' = ta_now ta" using fire_work(2) d(1) .
qed

text \<open>A turn whose branch is ready does some of the work.\<close>

lemma fed_turn_work:
  assumes "polled s" "fed_turn s b \<noteq> s"
  shows "polled (fed_turn s b)" "reaper_work (fst (fed_turn s b)) < reaper_work (fst s)"
    "ta_now (snd (fed_turn s b)) = ta_now (snd s)"
proof -
  obtain rp ta where s: "s = (rp, ta)" by (cases s)
  have l: "rp_life rp = ReaperPolled" "rp_open rp" using assms(1) by (simp_all add: polled_def s)
  have "polled (fed_turn s b) \<and> reaper_work (fst (fed_turn s b)) < reaper_work (fst s) \<and> ta_now (snd (fed_turn s b)) = ta_now (snd s)"
  proof (cases b)
    case BranchRecv
    then obtain e rest where "rp_rx rp = e # rest" using assms(2) l
      by (cases "rp_rx rp") (auto simp: fed_turn_def reaper_turn_def s)
    then show ?thesis using l by (simp add: BranchRecv fed_turn_def reaper_turn_def s polled_def reaper_work_def)
  next
    case (BranchDue i)
    have i: "is_soonest i (rp_heap rp) \<and> due (rp_heap rp ! i) \<le> ta_now ta"
      using assms(2) l by (rule_tac ccontr) (simp add: BranchDue fed_turn_def reaper_turn_def s)
    obtain heap ta' where f: "fire_due i (rp_heap rp) ta = (heap, ta')" by fastforce
    have "i < length (rp_heap rp)" using i by (simp add: is_soonest_def)
    note w = fire_due_work [OF f this]
    show ?thesis using w l i f by (simp add: BranchDue fed_turn_def reaper_turn_def s polled_def reaper_work_def)
  qed
  then show "polled (fed_turn s b)" "reaper_work (fst (fed_turn s b)) < reaper_work (fst s)"
    "ta_now (snd (fed_turn s b)) = ta_now (snd s)" by simp_all
qed

text \<open>An entry with the least instant.\<close>

lemma soonest_exists: "heap \<noteq> [] \<Longrightarrow> \<exists>i. is_soonest i heap"
proof -
  assume "heap \<noteq> []"
  then have "Min (due ` set heap) \<in> due ` set heap" by (intro Min_in) simp_all
  then obtain e where e: "e \<in> set heap" "due e = Min (due ` set heap)" by auto
  then obtain i where "i < length heap" "heap ! i = e" by (auto simp: in_set_conv_nth)
  then show ?thesis using e by (auto simp: is_soonest_def list_all_iff)
qed

lemma fired_turn_differs:
  assumes "polled (rp, ta)" "is_soonest i (rp_heap rp)" "due (rp_heap rp ! i) \<le> ta_now ta"
  shows "fed_turn (rp, ta) (BranchDue i) \<noteq> (rp, ta)"
proof -
  obtain heap ta' where f: "fire_due i (rp_heap rp) ta = (heap, ta')" by fastforce
  have "sum_list (map stages heap) < sum_list (map stages (rp_heap rp))"
    using fire_due_work(1) [OF f] assms(2) by (simp add: is_soonest_def)
  then have "heap \<noteq> rp_heap rp" by blast
  moreover have "rp_heap (fst (fed_turn (rp, ta) (BranchDue i))) = heap" using assms f by (simp add: fed_turn_def reaper_turn_def polled_def)
  ultimately show ?thesis by auto
qed

lemma stuck_caught_up:
  assumes "polled (rp, ta)" "\<And>b. fed_turn (rp, ta) b = (rp, ta)"
  shows "rp_rx rp = [] \<and> list_all (\<lambda>e. ta_now ta < due e) (rp_heap rp)"
proof
  show "rp_rx rp = []" using assms(1) arg_cong [OF assms(2) [of BranchRecv], of "\<lambda>s. length (rp_rx (fst s))"]
    by (cases "rp_rx rp") (simp_all add: fed_turn_def reaper_turn_def polled_def)
  show "list_all (\<lambda>e. ta_now ta < due e) (rp_heap rp)"
  proof (cases "rp_heap rp = []")
    case False
    then obtain i where i: "is_soonest i (rp_heap rp)" using soonest_exists by blast
    then have "ta_now ta < due (rp_heap rp ! i)" using fired_turn_differs [OF assms(1) i] assms(2) by (meson not_less)
    then show ?thesis using i by (auto simp: is_soonest_def list_all_iff intro: less_le_trans)
  qed simp
qed

lemma ready_turns_work:
  "polled s \<Longrightarrow> ready_turns s bs \<Longrightarrow>
   polled (run fed_turn s bs) \<and> length bs + reaper_work (fst (run fed_turn s bs)) \<le> reaper_work (fst s) \<and>
   ta_now (snd (run fed_turn s bs)) = ta_now (snd s)"
proof (induction bs arbitrary: s)
  case (Cons b bs)
  have b: "fed_turn s b \<noteq> s" "ready_turns (fed_turn s b) bs" using Cons.prems(2) by simp_all
  note t = fed_turn_work [OF Cons.prems(1) b(1)]
  show ?case using Cons.IH [OF t(1) b(2)] t by simp
qed simp

section \<open>Properties\<close>

text \<open>
  C17. No scheduled abort is lost.  Whatever reapers and runtimes go away, whenever, each task an abort was scheduled for has
  finished or been aborted, or some call or some live reaper still holds an entry for it that has not fired.
\<close>

theorem armed_abort_never_lost:
  assumes "w = run reaper_step (reaper_world_new now) ops" "a \<in> set (rw_armed w)"
  shows "ta_finished (rw_targets w) (task_of a) \<or> list_ex (\<lambda>(t, at', cause). t = task_of a) (ta_aborts (rw_targets w)) \<or>
    (\<exists>e \<in> held w. re_task e = task_of a \<and> \<not> re_fired e)"
  using armed_covered [OF _ assms(2)] reapers_reachable [of now ops] unfolding assms(1) reapers_inv_def by blast

theorem armed_abort_never_lost_witness:
  "list_ex (\<lambda>(t, at', cause). t = 7) (ta_aborts (rw_targets
     (run reaper_step (reaper_world_new 0) [Arm 1 (ArmAbort 90 7 7), FeederGo 0, FeederGo 0, ReaperLost 0])))"
  using armed_abort_never_lost [of _ 0 "[Arm 1 (ArmAbort 90 7 7), FeederGo 0, FeederGo 0, ReaperLost 0]" "ArmAbort 90 7 7", OF refl]
  by (simp add: reaper_world_new_def targets_new_def arming_begins_def feeder_go_def feeder_to_def reaper_handle_def feed_send_def reaper_new_def
      reaper_becomes_def reaper_lost_def owe_target_def owe_for_def owe_def record_chain_def abort_record_new_def each_token_def
      entry_drop_def abort_target_def abort_def record_abort_def mark_drop_def held_def in_hand_def inside_def)

text \<open>
  C18. A reaper cuts no grace short.  An abort that a stage of an entry issues is not before the deadline the entry was armed
  with, and for a two-stage entry not before its grace has passed after the \<open>Kill\<close> the entry raised, which itself was not
  raised before its instant; only the loss of a reaper aborts a task sooner.
\<close>

theorem reaper_keeps_graces:
  assumes "w = run reaper_step (reaper_world_new now) ops" "(t, at', cause) \<in> set (ta_aborts (rw_targets w))"
  shows "case cause of
      StageDue \<Rightarrow> list_ex (\<lambda>a. task_of a = t \<and> in_time (ta_kills (rw_targets w)) at' a) (rw_armed w)
    | EntryDropped \<Rightarrow> list_ex (\<lambda>rp. rp_life rp \<noteq> ReaperPolled) (rw_reapers w)"
proof -
  have "reaper_inv w" using reapers_reachable [of now ops] assms(1) by (simp add: reapers_inv_def)
  then have "abort_ok w (t, at', cause)" using assms(2) by (auto simp: reaper_inv_def)
  then show ?thesis by (simp add: abort_ok_def)
qed

definition two_stage_run :: "reaper_op list" where
  "two_stage_run =
     [Arm 1 (ArmKill 10 4 15 7 None), FeederGo 0, FeederGo 0, ReaperGo 0 BranchRecv, TimeTo 20, ReaperGo 0 (BranchDue 0),
      TimeTo 25, ReaperGo 0 (BranchDue 0)]"

lemma two_stage_run_aborts:
  "ta_aborts (rw_targets (run reaper_step (reaper_world_new 0) two_stage_run)) = [(7, 25, StageDue)]"
  by (simp add: two_stage_run_def reaper_world_new_def targets_new_def arming_begins_def feeder_go_def feeder_to_def reaper_handle_def feed_send_def
      reaper_new_def reaper_becomes_def reaper_turn_def fire_due_def fire_def is_soonest_def due_def take_nth_def
      raise_first_stage_def owe_target_def owe_for_def owe_def record_chain_def abort_record_new_def each_token_def
      entry_drop_def abort_target_def abort_def record_abort_def mark_drop_def saturating_duration_since_def saturating_deadline_def
      checked_add_instant_def instant_bound_def FAR_FUTURE_def secs_def nanos_per_sec_def)

theorem reaper_keeps_graces_witness:
  "list_ex (\<lambda>a. task_of a = 7 \<and> in_time (ta_kills (rw_targets (run reaper_step (reaper_world_new 0) two_stage_run))) 25 a)
     (rw_armed (run reaper_step (reaper_world_new 0) two_stage_run))"
  using reaper_keeps_graces [of _ 0 two_stage_run 7 25 StageDue, OF refl] by (simp add: two_stage_run_aborts)

text \<open>
  C19. A reaper catches up: whichever ready branch each turn of its loop takes, it makes at most as many turns as its entries
  have stages and places in the feed, and when no branch is ready its feed is empty and nothing in its heap is due.
\<close>

theorem reaper_catches_up:
  assumes "rp_life rp = ReaperPolled" "rp_open rp" "ready_turns (rp, ta) bs"
  shows "length bs \<le> reaper_work rp \<and>
    (case run fed_turn (rp, ta) bs of (rp', ta') \<Rightarrow>
       (\<forall>b. fed_turn (rp', ta') b = (rp', ta')) \<longrightarrow> rp_rx rp' = [] \<and> list_all (\<lambda>e. ta_now ta < due e) (rp_heap rp'))"
proof -
  have "polled (rp, ta)" using assms(1,2) by (simp add: polled_def)
  note r = ready_turns_work [OF this assms(3)]
  obtain rp' ta' where e: "run fed_turn (rp, ta) bs = (rp', ta')" by fastforce
  show ?thesis using r stuck_caught_up [of rp' ta'] unfolding e by auto
qed

theorem reaper_catches_up_witness:
  "rp_rx (fst (run fed_turn (\<lparr>rp_rx = [entry_new (ArmAbort 90 7 7)], rp_heap = [], rp_open = True, rp_life = ReaperPolled\<rparr>,
     targets_new 0) [BranchRecv])) = [] \<and>
   list_all (\<lambda>e. 0 < due e) (rp_heap (fst (run fed_turn (\<lparr>rp_rx = [entry_new (ArmAbort 90 7 7)], rp_heap = [], rp_open = True,
     rp_life = ReaperPolled\<rparr>, targets_new 0) [BranchRecv])))"
proof -
  let ?rp = "\<lparr>rp_rx = [entry_new (ArmAbort 90 7 7)], rp_heap = [], rp_open = True, rp_life = ReaperPolled\<rparr>"
    and ?rp' = "\<lparr>rp_rx = [], rp_heap = [entry_new (ArmAbort 90 7 7)], rp_open = True, rp_life = ReaperPolled\<rparr>"
  have t: "fed_turn (?rp, targets_new 0) BranchRecv = (?rp', targets_new 0)" by (simp add: fed_turn_def reaper_turn_def)
  have "fed_turn (?rp', targets_new 0) b = (?rp', targets_new 0)" for b
    by (cases b) (auto simp: fed_turn_def reaper_turn_def is_soonest_def due_def targets_new_def)
  then show ?thesis using reaper_catches_up [of ?rp "targets_new 0" "[BranchRecv]"] t by (simp add: targets_new_def)
qed

end
