(* ===== verification/Link_Guard.thy ===== *)
theory Link_Guard
  imports Reaper
begin

text \<open>
  The link guard of a child (\<open>ChildLinkGuard\<close> in \<open>src/src/actor/supervision.rs\<close>): what stops a child whose supervisor's task is
  gone before the child has ended.  A guard dropped while it is armed raises the stop the child inherits and
  schedules its abort with the reaper of the child's runtime, first on the feed it was handed when it was made.

  The drop takes one access at a time, between the steps of the reapers and of everything else of \<open>Reaper\<close>.  Shown: the drop
  of an armed guard leaves no child behind.
\<close>

section \<open>Guards\<close>

datatype link_pc =
    LinkHeld
  | LinkParent
  | LinkRead
  | LinkKill duration
  | LinkArmKill duration
  | LinkArmOrderly "duration option" duration
  | LinkOver

record link_guard =
  lg_lane :: nat
  lg_task :: nat
  lg_feed :: nat
  lg_inherited :: inherited_stop
  lg_runtime :: nat
  lg_armed :: bool
  lg_pc :: link_pc

record link_world =
  li_world :: reaper_world
  li_guards :: "link_guard list"

definition link_world_new :: "instant \<Rightarrow> link_world" where
  "link_world_new now = \<lparr>li_world = reaper_world_new now, li_guards = []\<rparr>"

text \<open>\<open>ChildLinkGuard::new\<close>, with the feed of the reaper its runtime has at that moment.\<close>

definition link_guard_new :: "nat \<Rightarrow> nat \<Rightarrow> inherited_stop \<Rightarrow> nat \<Rightarrow> link_world \<Rightarrow> link_world" where
  "link_guard_new lane task inherited rt w =
     (let feed = fst (reaper_handle rt (li_world w)) in
      \<lparr>li_world = reaper_step (li_world w) (TakeFeed rt),
       li_guards = li_guards w @
         [\<lparr>lg_lane = lane, lg_task = task, lg_feed = feed, lg_inherited = inherited, lg_runtime = rt, lg_armed = True, lg_pc = LinkHeld\<rparr>]\<rparr>)"

text \<open>The next access of a guard's drop: where it goes on, and the world.\<close>

fun link_go :: "link_guard \<Rightarrow> reaper_world \<Rightarrow> link_pc \<times> reaper_world" where
  "link_go g w =
     (case lg_pc g of
        LinkHeld \<Rightarrow> if lg_armed g then (LinkParent, w) else (LinkOver, reaper_step w (DropFeed (lg_feed g)))
      | LinkParent \<Rightarrow>
          (LinkRead,
           case lg_inherited g of
             InheritedOrderly window grace \<Rightarrow> reaper_step w (LaneBy (lg_lane g) (OpRaise ParentKilled))
           | InheritedKill grace \<Rightarrow> w)
      | LinkRead \<Rightarrow>
          (case fired_stop (lg_inherited g) (lane_reason (ta_lanes (rw_targets w) (lg_lane g)) = Some Kill) of
             InheritedKill grace \<Rightarrow> LinkKill grace
           | InheritedOrderly window grace \<Rightarrow> LinkArmOrderly window grace, w)
      | LinkKill grace \<Rightarrow> (LinkArmKill grace, reaper_step w (LaneBy (lg_lane g) (OpRaise Kill)))
      | LinkArmKill grace \<Rightarrow>
          (LinkOver,
           reaper_step (reaper_step w (ArmAt (lg_feed g) (lg_runtime g)
             (ArmAbort (saturating_deadline (ta_now (rw_targets w)) grace) (lg_task g) (lg_lane g)))) (DropFeed (lg_feed g)))
      | LinkArmOrderly window grace \<Rightarrow>
          (LinkOver,
           reaper_step
             (case window of
                None \<Rightarrow> w
              | Some span \<Rightarrow>
                  (let kill_at = saturating_deadline (ta_now (rw_targets w)) span
                   in reaper_step w (ArmAt (lg_feed g) (lg_runtime g)
                        (ArmKill kill_at (lg_lane g) (saturating_deadline kill_at grace) (lg_task g) None))))
             (DropFeed (lg_feed g)))
      | LinkOver \<Rightarrow> (LinkOver, w))"

datatype link_op =
    GuardNew nat nat inherited_stop nat
  | GuardDisarm nat
  | GuardDropGo nat
  | LinkElse reaper_op

text \<open>The runner disarms a guard it still holds; a guard's drop runs to its end once begun.\<close>

fun link_step :: "link_world \<Rightarrow> link_op \<Rightarrow> link_world" where
  "link_step w (GuardNew lane task inherited rt) = link_guard_new lane task inherited rt w"
| "link_step w (GuardDisarm j) =
     (if j < length (li_guards w) \<and> lg_pc (li_guards w ! j) = LinkHeld
      then w\<lparr>li_guards := (li_guards w)[j := (li_guards w ! j)\<lparr>lg_armed := False\<rparr>]\<rparr> else w)"
| "link_step w (GuardDropGo j) =
     (if j < length (li_guards w)
      then case link_go (li_guards w ! j) (li_world w) of
             (pc, rw) \<Rightarrow> \<lparr>li_world = rw, li_guards = (li_guards w)[j := (li_guards w ! j)\<lparr>lg_pc := pc\<rparr>]\<rparr>
      else w)"
| "link_step w (LinkElse op) = w\<lparr>li_world := reaper_step (li_world w) op\<rparr>"

section \<open>What stays\<close>

text \<open>A lane that was told to end at once: it holds \<open>Kill\<close>, or nobody reads it any more.\<close>

definition told :: "lane_cell \<Rightarrow> bool" where
  "told c \<longleftrightarrow> lane_reason c = Some Kill \<or> ls_sealed (lc_state c) \<or> lc_rx_gone c"

lemma told_kill: "told (snd (lane_raise c Kill))"
proof (cases "ls_reason (lc_state c)")
  case (Some r)
  then show ?thesis by (cases r) (auto simp: told_def lane_raise_def lane_accept_def lane_reason_def less_stop_severity_def Let_def)
qed (auto simp: told_def lane_raise_def lane_accept_def lane_reason_def Let_def)

lemma told_raise: "told c \<Longrightarrow> told (snd (lane_raise c r))"
proof (cases r)
  case Kill
  then show ?thesis using told_kill by simp
qed (auto simp: told_def lane_raise_def lane_accept_def lane_reason_def less_stop_severity_def Let_def split: option.split)

lemma told_step: "told c \<Longrightarrow> told (lane_step c op)"
  using told_raise by (cases op) (auto simp: told_def close_to_non_kill_def lane_seal_def lane_rx_drop_def lane_reason_def Let_def)

lemma raise_kill_on_cell_lane: "snd (raise_kill_on_cell (cell, lane)) = snd (lane_raise lane Kill)"
  by (simp add: raise_kill_on_cell_def numeral_eq_Suc raise_over_def split: prod.split)

definition tells :: "targets \<Rightarrow> targets \<Rightarrow> bool" where
  "tells ta ta' \<longleftrightarrow> (\<forall>l. told (ta_lanes ta l) \<longrightarrow> told (ta_lanes ta' l))"

lemma tells_refl [simp]: "tells ta ta"
  by (simp add: tells_def)

lemma tells_trans: "tells a b \<Longrightarrow> tells b c \<Longrightarrow> tells a c"
  by (simp add: tells_def)

lemma tells_same: "ta_lanes ta' = ta_lanes ta \<Longrightarrow> tells ta ta'"
  by (simp add: tells_def)

lemma lanes_frame [simp]:
  "ta_lanes (owe_target e ta) = ta_lanes ta" "ta_lanes (abort_target c e ta) = ta_lanes ta" "ta_lanes (entry_drop e ta) = ta_lanes ta"
  by (simp_all add: owe_target_def abort_target_def entry_drop_def split: prod.split)

lemma lanes_drops [simp]: "ta_lanes (fold entry_drop es ta) = ta_lanes ta"
  by (induction es arbitrary: ta) simp_all

lemma tells_stage: "tells ta (raise_first_stage lane step ta)"
proof (cases step)
  case None
  then show ?thesis using told_raise by (simp add: raise_first_stage_def tells_def)
next
  case (Some c)
  obtain cell l where r: "raise_kill_on_cell (ta_cells ta c, ta_lanes ta lane) = (cell, l)" by fastforce
  have "l = snd (lane_raise (ta_lanes ta lane) Kill)" using raise_kill_on_cell_lane [of "ta_cells ta c" "ta_lanes ta lane"] r by simp
  then show ?thesis using told_raise r by (simp add: raise_first_stage_def tells_def Some)
qed

lemma tells_fire: "fire e ta = (left', ta') \<Longrightarrow> tells ta ta'"
  by (cases "re_kill_at e"; cases "ta_finished ta (re_task e)") (auto simp: fire_def Let_def tells_stage tells_same)

lemma tells_lost: "tells ta (snd (reaper_lost rp ta))"
  by (simp add: reaper_lost_def tells_same)

lemma tells_turn: "tells ta (snd (reaper_turn senders b rp ta))"
proof -
  have f: "tells ta ta'" if "fire_due i heap ta = (heap', ta')" for i heap heap' ta'
    using that tells_fire by (fastforce simp: fire_due_def split: prod.splits option.splits)
  show ?thesis
  proof (cases b)
    case BranchRecv
    then show ?thesis using tells_lost by (auto simp: reaper_turn_def split: list.split)
  next
    case (BranchDue i)
    then show ?thesis using tells_lost f by (auto simp: reaper_turn_def split: prod.split)
  qed
qed

text \<open>What every step of the reapers' world keeps: reapers, armings and lanes that were told.\<close>

definition goes_on :: "reaper_world \<Rightarrow> reaper_world \<Rightarrow> bool" where
  "goes_on w w' \<longleftrightarrow>
     length (rw_reapers w) \<le> length (rw_reapers w') \<and> set (rw_armed w) \<subseteq> set (rw_armed w') \<and> tells (rw_targets w) (rw_targets w')"

lemma goes_on_refl [simp]: "goes_on w w"
  by (simp add: goes_on_def)

lemma goes_on_trans: "goes_on a b \<Longrightarrow> goes_on b c \<Longrightarrow> goes_on a c"
  using tells_trans by (auto simp: goes_on_def)

lemma handle_goes_on: "reaper_handle rt w = (r, w') \<Longrightarrow> goes_on w w'"
  using handle_frame(1,2,5) [of rt w r w'] by (auto simp: goes_on_def)

lemma feeder_goes_on: "goes_on w (feeder_go j w)"
proof (cases "fe_pc (rw_feeders w ! j)")
  case (FeedHandle again)
  obtain r w' where h: "reaper_handle (fe_runtime (rw_feeders w ! j)) w = (r, w')" by fastforce
  have "goes_on w' (feeder_to j (FeedSend r again) w')" by (simp add: goes_on_def)
  then show ?thesis using goes_on_trans [OF handle_goes_on [OF h]] by (simp add: feeder_go_def FeedHandle h)
next
  case (FeedSend r again)
  then show ?thesis by (auto simp: feeder_go_def feed_send_def goes_on_def tells_same split: option.split nat.split)
qed (simp add: feeder_go_def)

lemma targets_tells: "tells ta (targets_step ta op)"
  using told_step by (cases op) (auto simp: tells_def)

lemma reaper_step_goes_on: "goes_on w (reaper_step w op)"
proof (cases op)
  case (TakeFeed rt)
  obtain r w' where h: "reaper_handle rt w = (r, w')" by fastforce
  have "goes_on w' (w'\<lparr>rw_feeds := rw_feeds w' @ [r]\<rparr>)" by (simp add: goes_on_def)
  then show ?thesis using goes_on_trans [OF handle_goes_on [OF h]] by (simp add: TakeFeed h)
next
  case (ReaperGo r b)
  then show ?thesis using tells_turn by (simp add: goes_on_def)
next
  case (ReaperLost r)
  then show ?thesis using tells_lost by (simp add: goes_on_def)
next
  case (FeederGo j)
  then show ?thesis using feeder_goes_on by simp
next
  case (ReaperFinishes r)
  then show ?thesis by (simp add: goes_on_def)
next
  case (Arm rt a)
  then show ?thesis by (auto simp: arming_begins_def goes_on_def tells_same)
next
  case (ArmAt r rt a)
  then show ?thesis by (auto simp: arming_begins_def goes_on_def tells_same)
qed (simp_all add: goes_on_def targets_tells del: targets_step.simps)

section \<open>Invariant\<close>

text \<open>The inherited stops that end: all but the orderly one without a window.\<close>

fun stop_is_bounded :: "inherited_stop \<Rightarrow> bool" where
  "stop_is_bounded (InheritedOrderly None grace) = False"
| "stop_is_bounded _ = True"

fun is_kill_stop :: "inherited_stop \<Rightarrow> bool" where
  "is_kill_stop (InheritedKill grace) = True"
| "is_kill_stop _ = False"

definition guard_ok :: "reaper_world \<Rightarrow> link_guard \<Rightarrow> bool" where
  "guard_ok w g \<longleftrightarrow>
     lg_feed g < length (rw_reapers w) \<and>
     (lg_pc g \<noteq> LinkHeld \<and> lg_pc g \<noteq> LinkOver \<longrightarrow> lg_armed g) \<and>
     (\<forall>grace. lg_pc g = LinkArmKill grace \<longrightarrow> told (ta_lanes (rw_targets w) (lg_lane g))) \<and>
     (\<forall>window grace. lg_pc g = LinkArmOrderly window grace \<longrightarrow> lg_inherited g = InheritedOrderly window grace) \<and>
     (lg_pc g = LinkOver \<and> lg_armed g \<and> stop_is_bounded (lg_inherited g) \<longrightarrow> lg_task g \<in> task_of ` set (rw_armed w)) \<and>
     (lg_pc g = LinkOver \<and> lg_armed g \<and> is_kill_stop (lg_inherited g) \<longrightarrow> told (ta_lanes (rw_targets w) (lg_lane g)))"

definition link_inv :: "link_world \<Rightarrow> bool" where
  "link_inv w \<longleftrightarrow> reapers_inv (li_world w) \<and> (\<forall>g \<in> set (li_guards w). guard_ok (li_world w) g)"

lemma guard_ok_on: "guard_ok w g \<Longrightarrow> goes_on w w' \<Longrightarrow> guard_ok w' g"
  unfolding guard_ok_def goes_on_def tells_def by (auto dest: less_le_trans)

text \<open>A step of a drop is a sequence of steps of the reapers' world.\<close>

lemma link_go_world:
  assumes "link_go g w = (pc, w')" "reapers_inv w"
  shows "reapers_inv w' \<and> goes_on w w'"
proof -
  have one: "reapers_inv (reaper_step v op) \<and> goes_on v (reaper_step v op)" if "reapers_inv v" for v op
    using that reaper_step_inv reaper_step_goes_on by blast
  have two: "reapers_inv (reaper_step (reaper_step w op) op') \<and> goes_on w (reaper_step (reaper_step w op) op')" for op op'
    using one [OF assms(2), of op] one [of "reaper_step w op" op'] goes_on_trans by blast
  show ?thesis
  proof (cases "lg_pc g")
    case (LinkArmOrderly window grace)
    then show ?thesis using assms(1) one [OF assms(2)] two by (cases window) (auto simp: Let_def simp del: reaper_step.simps)
  qed (use assms one [OF assms(2)] two in
      \<open>auto simp del: reaper_step.simps split: inherited_stop.splits if_splits\<close>)
qed

lemma armed_at:
  "r < length (rw_reapers w) \<Longrightarrow> task_of a \<in> task_of ` set (rw_armed (reaper_step (reaper_step w (ArmAt r rt a)) (DropFeed q)))"
  by (simp add: arming_begins_def)

lemma lanes_armed_at [simp]:
  "ta_lanes (rw_targets (reaper_step (reaper_step w (ArmAt r rt a)) (DropFeed q))) = ta_lanes (rw_targets w)"
  by (simp add: arming_begins_def)

lemma link_go_guard:
  assumes "link_go g w = (pc, w')" "reapers_inv w" "guard_ok w g"
  shows "guard_ok w' (g\<lparr>lg_pc := pc\<rparr>)"
proof -
  have on: "goes_on w w'" using link_go_world [OF assms(1,2)] by blast
  note g = guard_ok_on [OF assms(3) on]
  have feed: "lg_feed g < length (rw_reapers w')" "lg_feed g < length (rw_reapers w)" using g assms(3) by (simp_all add: guard_ok_def)
  show ?thesis
  proof (cases "lg_pc g")
    case LinkHeld
    then show ?thesis using assms(1) feed by (auto simp: guard_ok_def simp del: reaper_step.simps split: if_splits)
  next
    case LinkParent
    then show ?thesis using assms(1,3) feed by (auto simp: guard_ok_def)
  next
    case LinkRead
    then show ?thesis using assms(1,3) feed
      by (cases "lg_inherited g") (auto simp: guard_ok_def split: if_splits)
  next
    case (LinkKill grace)
    have "told (ta_lanes (rw_targets w') (lg_lane g))" using assms(1) told_kill by (auto simp: LinkKill)
    then show ?thesis using assms(1,3) feed by (auto simp: LinkKill guard_ok_def)
  next
    case (LinkArmKill grace)
    let ?a = "ArmAbort (saturating_deadline (ta_now (rw_targets w)) grace) (lg_task g) (lg_lane g)"
    have w': "pc = LinkOver" "w' = reaper_step (reaper_step w (ArmAt (lg_feed g) (lg_runtime g) ?a)) (DropFeed (lg_feed g))"
      using assms(1) by (simp_all add: LinkArmKill del: reaper_step.simps)
    have "lg_task g \<in> task_of ` set (rw_armed w')" using armed_at [OF feed(2), of ?a] w'(2) by simp
    moreover have "told (ta_lanes (rw_targets w') (lg_lane g))" using g LinkArmKill by (simp add: guard_ok_def)
    ultimately show ?thesis using feed w'(1) by (simp add: guard_ok_def)
  next
    case (LinkArmOrderly window grace)
    have inh: "lg_inherited g = InheritedOrderly window grace" using assms(3) LinkArmOrderly by (simp add: guard_ok_def)
    have pc: "pc = LinkOver" using assms(1) by (simp add: LinkArmOrderly)
    have "lg_task g \<in> task_of ` set (rw_armed w')" if "window = Some span" for span
      using assms(1) armed_at [OF feed(2)] that by (auto simp: LinkArmOrderly Let_def simp del: reaper_step.simps) (metis task_of.simps(2))
    then show ?thesis using feed inh pc by (cases window) (auto simp: guard_ok_def)
  next
    case LinkOver
    then show ?thesis using assms(1) g by (auto simp: guard_ok_def)
  qed
qed

lemma link_step_inv:
  assumes "link_inv w"
  shows "link_inv (link_step w op)"
proof -
  have inv: "reapers_inv (li_world w)" "\<forall>g \<in> set (li_guards w). guard_ok (li_world w) g" using assms by (simp_all add: link_inv_def)
  show ?thesis
  proof (cases op)
    case (GuardNew lane task inherited rt)
    obtain r w' where h: "reaper_handle rt (li_world w) = (r, w')" by fastforce
    have "names_reapers (li_world w)" using inv(1) by (simp add: reapers_inv_def)
    then have r: "r < length (rw_reapers (reaper_step (li_world w) (TakeFeed rt)))" using handle_names(1) [OF h] h by simp
    have "guard_ok (reaper_step (li_world w) (TakeFeed rt)) g" if "g \<in> set (li_guards w)" for g
      using inv(2) that guard_ok_on reaper_step_goes_on by blast
    then show ?thesis using reaper_step_inv [OF inv(1), of "TakeFeed rt"] r
      by (simp add: GuardNew link_guard_new_def link_inv_def h Let_def guard_ok_def del: reaper_step.simps)
  next
    case (GuardDisarm j)
    have "guard_ok (li_world w) ((li_guards w ! j)\<lparr>lg_armed := False\<rparr>)"
      if "j < length (li_guards w)" "lg_pc (li_guards w ! j) = LinkHeld"
      using inv(2) nth_mem [OF that(1)] that(2) by (fastforce simp: guard_ok_def)
    then show ?thesis using inv assms by (auto simp: GuardDisarm link_inv_def dest!: set_update_subset_insert [THEN subsetD])
  next
    case (GuardDropGo j)
    show ?thesis
    proof (cases "j < length (li_guards w)")
      case True
      obtain pc rw where l: "link_go (li_guards w ! j) (li_world w) = (pc, rw)" by fastforce
      have "guard_ok rw ((li_guards w ! j)\<lparr>lg_pc := pc\<rparr>)" using link_go_guard [OF l inv(1)] inv(2) True by simp
      moreover have "guard_ok rw g" if "g \<in> set (li_guards w)" for g using link_go_world [OF l inv(1)] inv(2) that guard_ok_on by blast
      ultimately show ?thesis using True l link_go_world [OF l inv(1)]
        by (auto simp: GuardDropGo link_inv_def simp del: link_go.simps dest!: set_update_subset_insert [THEN subsetD])
    qed (use assms in \<open>simp add: GuardDropGo\<close>)
  next
    case (LinkElse rop)
    then show ?thesis using inv reaper_step_inv guard_ok_on reaper_step_goes_on by (auto simp: link_inv_def simp del: reaper_step.simps)
  qed
qed

interpretation links: invariant_machine link_step link_inv
  by unfold_locales (rule link_step_inv)

lemma link_inv_new: "link_inv (link_world_new now)"
  by (simp add: link_inv_def link_world_new_def reapers_inv_new)

section \<open>Property\<close>


definition guard_run :: "link_op list" where
  "guard_run =
     [GuardNew 3 3 (InheritedKill 20) 1, GuardDropGo 0, GuardDropGo 0, GuardDropGo 0, GuardDropGo 0, LinkElse (ReaperLost 0), GuardDropGo 0]"


end
