(* ===== verification/Shutdown_Sweep.thy ===== *)
theory Shutdown_Sweep
  imports Status_Plane Stop_Step Stop_Budgets
begin

text \<open>
  The deadline of a system's final sweeps and the verdicts that read it (\<open>fold_sweep_deadline\<close>, \<open>current_sweep_deadline\<close>,
  \<open>leftover_outcome\<close>, \<open>terminal_outcome\<close> and the drop of \<open>ShutdownInFlight\<close> in \<open>src/src/system.rs\<close>).

  Several shutdowns of one system can be in flight at once.  Each folds its own deadline into the one the system holds, and
  each reports a leftover it found by comparing the instant its end became final with the system's deadline.  A fold is two
  steps, its read of the clock and its change of the shared value, and any other step can come between them.  Shown: an end
  reads one way whichever sweep reports it, as long as no sweep has its clock reading from before the end still to store;
  and with such a sweep, one end can get two verdicts.
\<close>

section \<open>Verdicts\<close>

record stop_report =
  sr_outcome :: stop_outcome
  sr_reason :: "stop_reason option"

definition read_status :: "status_cell \<Rightarrow> actor_status" where
  "read_status c = (if status_has_changed c 0 = None then StStopped else status_read c)"

definition terminal_reason :: "status_cell \<Rightarrow> stop_reason" where
  "terminal_reason c = reason_or_kill (sc_value c)"

definition terminal_outcome :: "status_cell \<Rightarrow> stop_outcome \<Rightarrow> stop_outcome" where
  "terminal_outcome c req = (if status_read c = StStopped then req else StopAborted)"

definition terminal_report :: "status_cell \<Rightarrow> stop_outcome \<Rightarrow> stop_report" where
  "terminal_report c req = \<lparr>sr_outcome = terminal_outcome c req, sr_reason = Some (terminal_reason c)\<rparr>"

definition unresponsive :: stop_report where
  "unresponsive = \<lparr>sr_outcome = StopUnresponsive, sr_reason = None\<rparr>"

definition leftover_outcome :: "status_cell \<Rightarrow> bool \<Rightarrow> instant \<Rightarrow> stop_outcome" where
  "leftover_outcome c took deadline =
     (if sv_status (sc_value c) \<noteq> StStopped then StopAborted
      else if took \<or> (case sv_final_at (sc_value c) of None \<Rightarrow> True | Some at' \<Rightarrow> deadline \<le> at') then StopKilled
      else StopGraceful)"

definition leftover_report :: "status_cell \<Rightarrow> bool \<Rightarrow> instant \<Rightarrow> stop_report" where
  "leftover_report c took deadline =
     \<lparr>sr_outcome = leftover_outcome c took deadline, sr_reason = Some (terminal_reason c)\<rparr>"

section \<open>Sweeps of one system\<close>

datatype sweep_pc = SweepEntered | SweepFloor instant | SweepHolds instant | SweepLeft

record sweep =
  sw_own :: instant
  sw_pc :: sweep_pc

record sweeps =
  ss_now :: instant
  ss_deadline :: "instant option"
  ss_completed :: bool
  ss_planes :: "nat \<Rightarrow> status_cell"
  ss_sweeps :: "sweep list"

definition sweeps_new :: "instant \<Rightarrow> sweeps" where
  "sweeps_new now =
     \<lparr>ss_now = now, ss_deadline = None, ss_completed = False, ss_planes = (\<lambda>_. status_cell_new), ss_sweeps = []\<rparr>"

definition sweep_to :: "nat \<Rightarrow> sweep_pc \<Rightarrow> sweeps \<Rightarrow> sweeps" where
  "sweep_to j pc w = w\<lparr>ss_sweeps := (ss_sweeps w)[j := (ss_sweeps w ! j)\<lparr>sw_pc := pc\<rparr>]\<rparr>"

text \<open>\<open>fold_sweep_deadline\<close>: the floor from the clock, then the change of the watch's value.\<close>

definition fold_floor :: "instant \<Rightarrow> instant \<Rightarrow> instant" where
  "fold_floor own now = max own (saturating_deadline now 1)"

definition fold_stored :: "instant \<Rightarrow> instant option \<Rightarrow> instant" where
  "fold_stored floor stored = (case stored of None \<Rightarrow> floor | Some earlier \<Rightarrow> min earlier floor)"

definition fold_go :: "nat \<Rightarrow> sweeps \<Rightarrow> sweeps" where
  "fold_go j w =
     (case sw_pc (ss_sweeps w ! j) of
        SweepEntered \<Rightarrow> sweep_to j (SweepFloor (fold_floor (sw_own (ss_sweeps w ! j)) (ss_now w))) w
      | SweepFloor floor \<Rightarrow>
          (let folded = fold_stored floor (ss_deadline w)
           in sweep_to j (SweepHolds folded) (w\<lparr>ss_deadline := Some folded\<rparr>))
      | _ \<Rightarrow> w)"

definition current_sweep_deadline :: "instant \<Rightarrow> instant option \<Rightarrow> instant" where
  "current_sweep_deadline own stored = (case stored of None \<Rightarrow> own | Some held \<Rightarrow> min held own)"

text \<open>The verdict sweep \<open>j\<close> gives a leftover on which it raised nothing.\<close>

definition sweep_verdict :: "nat \<Rightarrow> nat \<Rightarrow> sweeps \<Rightarrow> stop_outcome option" where
  "sweep_verdict j t w =
     (case sw_pc (ss_sweeps w ! j) of
        SweepHolds own \<Rightarrow> Some (leftover_outcome (ss_planes w t) False (current_sweep_deadline own (ss_deadline w)))
      | _ \<Rightarrow> None)"

text \<open>A shutdown that ends: the last one clears the deadline when some shutdown has completed.\<close>

definition sweep_leaves :: "nat \<Rightarrow> bool \<Rightarrow> sweeps \<Rightarrow> sweeps" where
  "sweep_leaves j completed w =
     (let w1 = (sweep_to j SweepLeft w)\<lparr>ss_completed := completed \<or> ss_completed w\<rparr>
      in if list_all (\<lambda>s. sw_pc s = SweepLeft) (ss_sweeps w1) \<and> ss_completed w1 then w1\<lparr>ss_deadline := None\<rparr> else w1)"

datatype sweep_op =
    EnterSweep instant
  | FoldGo nat
  | LeaveSweep nat bool
  | ReactivateSystem
  | OnPlane nat plane_op
  | SweepClock instant

text \<open>A write of a reason stamps the instant it is made at.\<close>

fun stamped :: "instant \<Rightarrow> plane_op \<Rightarrow> plane_op" where
  "stamped now (PlaneWriteReason at' r stopped) = PlaneWriteReason now r stopped"
| "stamped now (PlaneAbortReason at' r) = PlaneAbortReason now r"
| "stamped now op = op"

fun sweep_step :: "sweeps \<Rightarrow> sweep_op \<Rightarrow> sweeps" where
  "sweep_step w (EnterSweep own) = w\<lparr>ss_sweeps := ss_sweeps w @ [\<lparr>sw_own = own, sw_pc = SweepEntered\<rparr>]\<rparr>"
| "sweep_step w (FoldGo j) = (if j < length (ss_sweeps w) then fold_go j w else w)"
| "sweep_step w (LeaveSweep j completed) =
     (if j < length (ss_sweeps w) \<and> sw_pc (ss_sweeps w ! j) \<noteq> SweepLeft then sweep_leaves j completed w else w)"
| "sweep_step w ReactivateSystem =
     (if list_all (\<lambda>s. sw_pc s = SweepLeft) (ss_sweeps w) \<and> ss_completed w then w\<lparr>ss_completed := False\<rparr> else w)"
| "sweep_step w (OnPlane t op) =
     w\<lparr>ss_planes := (ss_planes w)(t := plane_step (ss_planes w t) (stamped (ss_now w) op))\<rparr>"
| "sweep_step w (SweepClock now) = w\<lparr>ss_now := max now (ss_now w)\<rparr>"

section \<open>Invariant\<close>

text \<open>The system's deadline is no later than what any sweep holds, and no end is stamped in the future.\<close>

definition sweeps_inv :: "sweeps \<Rightarrow> bool" where
  "sweeps_inv w \<longleftrightarrow>
     (\<forall>s \<in> set (ss_sweeps w). \<forall>own. sw_pc s = SweepHolds own \<longrightarrow> (\<exists>held. ss_deadline w = Some held \<and> held \<le> own)) \<and>
     (\<forall>t at'. sv_final_at (sc_value (ss_planes w t)) = Some at' \<longrightarrow> at' \<le> ss_now w)"

lemma sweeps_inv_held:
  "sweeps_inv w \<Longrightarrow> s \<in> set (ss_sweeps w) \<Longrightarrow> sw_pc s = SweepHolds own \<Longrightarrow> \<exists>held. ss_deadline w = Some held \<and> held \<le> own"
  unfolding sweeps_inv_def by blast

lemma stamped_final:
  assumes "sv_final_at (sc_value (plane_step c (stamped now op))) = Some at'"
  shows "sv_final_at (sc_value c) = Some at' \<or> at' = now"
  using assms by (cases op) (auto simp: plane_op_defs split: if_splits)

lemma fold_go_inv:
  assumes "sweeps_inv w" "j < length (ss_sweeps w)"
  shows "sweeps_inv (fold_go j w)"
proof (cases "sw_pc (ss_sweeps w ! j)")
  case SweepEntered
  then show ?thesis using assms(1) by (auto simp: fold_go_def sweep_to_def sweeps_inv_def dest!: set_update_cases)
next
  case (SweepFloor floor)
  let ?d = "fold_stored floor (ss_deadline w)"
  have low: "?d \<le> held" if "ss_deadline w = Some held" for held using that by (simp add: fold_stored_def)
  have "\<exists>held. Some ?d = Some held \<and> held \<le> own"
    if s: "s \<in> set ((ss_sweeps w)[j := (ss_sweeps w ! j)\<lparr>sw_pc := SweepHolds ?d\<rparr>])" "sw_pc s = SweepHolds own" for s own
  proof -
    from set_update_cases [OF s(1)] consider "own = ?d" | "s \<in> set (ss_sweeps w)" using s(2) by auto
    then show ?thesis
    proof cases
      case 2
      then obtain held where "ss_deadline w = Some held" "held \<le> own" using sweeps_inv_held [OF assms(1) _ s(2)] by blast
      then show ?thesis using low by force
    qed simp
  qed
  then show ?thesis using assms(1) SweepFloor by (simp add: fold_go_def sweep_to_def sweeps_inv_def Let_def)
qed (use assms in \<open>simp_all add: fold_go_def\<close>)

lemma sweep_leaves_inv:
  assumes "sweeps_inv w"
  shows "sweeps_inv (sweep_leaves j completed w)"
proof -
  let ?ss = "(ss_sweeps w)[j := (ss_sweeps w ! j)\<lparr>sw_pc := SweepLeft\<rparr>]"
  have "\<exists>held. ss_deadline w = Some held \<and> held \<le> own" if "s \<in> set ?ss" "sw_pc s = SweepHolds own" for s own
    using set_update_cases [OF that(1)] that(2) assms by (auto simp: sweeps_inv_def)
  moreover have "sw_pc s \<noteq> SweepHolds own" if "list_all (\<lambda>s. sw_pc s = SweepLeft) ?ss" "s \<in> set ?ss" for s own
    using that by (auto simp: list_all_iff)
  ultimately show ?thesis using assms by (auto simp: sweep_leaves_def sweep_to_def sweeps_inv_def Let_def)
qed

lemma sweep_step_inv: "sweeps_inv w \<Longrightarrow> sweeps_inv (sweep_step w op)"
proof (cases op)
  case (OnPlane t pop)
  assume "sweeps_inv w"
  then show ?thesis by (auto simp: OnPlane sweeps_inv_def dest!: stamped_final)
next
  case (SweepClock now)
  assume "sweeps_inv w"
  then show ?thesis by (force simp: SweepClock sweeps_inv_def)
qed (auto simp: fold_go_inv sweep_leaves_inv, auto simp: sweeps_inv_def)

interpretation sweeps_machine: invariant_machine sweep_step sweeps_inv
  by unfold_locales (rule sweep_step_inv)

lemma sweeps_inv_new: "sweeps_inv (sweeps_new now)"
  by (simp add: sweeps_inv_def sweeps_new_def status_cell_new_def status_value_new_def)

section \<open>One end, one verdict\<close>

text \<open>What keeps a verdict on an end at \<open>at'\<close>: the side of the system's deadline it is on, and the floors still to be stored.\<close>

definition floors_after :: "instant \<Rightarrow> sweeps \<Rightarrow> bool" where
  "floors_after at' w \<longleftrightarrow> list_all (\<lambda>s. case sw_pc s of SweepFloor floor \<Rightarrow> at' < floor | _ \<Rightarrow> True) (ss_sweeps w)"

definition past_deadline :: "instant \<Rightarrow> bool \<Rightarrow> sweeps \<Rightarrow> bool" where
  "past_deadline at' late w \<longleftrightarrow> (\<exists>held. ss_deadline w = Some held \<and> (held \<le> at') = late)"

definition in_flight_sweep :: "nat \<Rightarrow> sweeps \<Rightarrow> bool" where
  "in_flight_sweep i w \<longleftrightarrow> i < length (ss_sweeps w) \<and> sw_pc (ss_sweeps w ! i) \<noteq> SweepLeft"

lemma floors_afterD: "floors_after at' w \<Longrightarrow> s \<in> set (ss_sweeps w) \<Longrightarrow> sw_pc s = SweepFloor floor \<Longrightarrow> at' < floor"
  by (force simp: floors_after_def list_all_iff)

lemma floors_after_to:
  assumes "floors_after at' w" "\<And>floor. pc = SweepFloor floor \<Longrightarrow> at' < floor"
  shows "floors_after at' (sweep_to j pc w)"
  using assms by (auto simp: floors_after_def sweep_to_def list_all_iff split: sweep_pc.splits dest!: set_update_cases)

text \<open>A floor read after an end lies after it.\<close>

lemma fold_floor_after:
  assumes "at' \<le> now" "now + 1 < instant_bound"
  shows "at' < fold_floor own now"
proof -
  have "saturating_deadline now 1 = now + 1"
    using assms(2) by (simp add: saturating_deadline_def checked_add_instant_def FAR_FUTURE_def secs_def nanos_per_sec_def)
  then show ?thesis using assms(1) by (simp add: fold_floor_def)
qed

lemma sweep_step_time: "ss_now w \<le> ss_now (sweep_step w op)"
  by (cases op) (auto simp: fold_go_def sweep_to_def sweep_leaves_def Let_def split: sweep_pc.splits)

lemma run_time: "ss_now w \<le> ss_now (run sweep_step w ops)"
  by (induction ops arbitrary: w) (auto intro: order_trans [OF sweep_step_time])

lemma left_stays:
  assumes "i < length (ss_sweeps w)" "\<not> in_flight_sweep i w"
  shows "i < length (ss_sweeps (sweep_step w op)) \<and> \<not> in_flight_sweep i (sweep_step w op)"
  using assms
  by (cases op) (auto simp: in_flight_sweep_def fold_go_def sweep_to_def sweep_leaves_def Let_def nth_append nth_list_update split: sweep_pc.splits)

lemma left_stays_run:
  "i < length (ss_sweeps w) \<Longrightarrow> \<not> in_flight_sweep i w \<Longrightarrow> \<not> in_flight_sweep i (run sweep_step w ops)"
proof (induction ops arbitrary: w)
  case (Cons op ops)
  then show ?case using left_stays [of i w op] by simp
qed simp

lemma sweeps_grow: "length (ss_sweeps w) \<le> length (ss_sweeps (sweep_step w op))"
  by (cases op) (auto simp: fold_go_def sweep_to_def sweep_leaves_def Let_def split: sweep_pc.splits)

lemma leaves_keeps:
  assumes "floors_after at' w" "past_deadline at' late w" "in_flight_sweep i (sweep_leaves j completed w)"
  shows "floors_after at' (sweep_leaves j completed w) \<and> past_deadline at' late (sweep_leaves j completed w)"
proof -
  let ?ss = "(ss_sweeps w)[j := (ss_sweeps w ! j)\<lparr>sw_pc := SweepLeft\<rparr>]"
  have i: "i < length ?ss" "sw_pc (?ss ! i) \<noteq> SweepLeft" using assms(3) by (auto simp: in_flight_sweep_def sweep_leaves_def sweep_to_def Let_def split: if_splits)
  then have "\<not> list_all (\<lambda>s. sw_pc s = SweepLeft) ?ss" by (auto simp: list_all_length)
  then have e: "sweep_leaves j completed w = (sweep_to j SweepLeft w)\<lparr>ss_completed := completed \<or> ss_completed w\<rparr>"
    by (simp add: sweep_leaves_def sweep_to_def Let_def)
  show ?thesis using floors_after_to [OF assms(1), of SweepLeft j] assms(2) unfolding e
    by (simp add: floors_after_def past_deadline_def sweep_to_def)
qed

lemma fold_keeps:
  assumes "floors_after at' w" "past_deadline at' late w" "at' \<le> ss_now w" "ss_now w + 1 < instant_bound" "j < length (ss_sweeps w)"
  shows "floors_after at' (fold_go j w) \<and> past_deadline at' late (fold_go j w)"
proof (cases "sw_pc (ss_sweeps w ! j)")
  case SweepEntered
  have "at' < fold_floor (sw_own (ss_sweeps w ! j)) (ss_now w)" using fold_floor_after assms(3,4) by blast
  then have "floors_after at' (sweep_to j (SweepFloor (fold_floor (sw_own (ss_sweeps w ! j)) (ss_now w))) w)"
    by (intro floors_after_to [OF assms(1)]) simp
  then show ?thesis using assms(2) SweepEntered by (simp add: fold_go_def) (simp add: past_deadline_def sweep_to_def)
next
  case (SweepFloor floor)
  let ?d = "fold_stored floor (ss_deadline w)"
  have "at' < floor" using floors_afterD [OF assms(1) nth_mem [OF assms(5)] SweepFloor] .
  moreover obtain held where "ss_deadline w = Some held" "(held \<le> at') = late" using assms(2) by (auto simp: past_deadline_def)
  ultimately have "(?d \<le> at') = late" by (auto simp: fold_stored_def min_def)
  then show ?thesis using floors_after_to [OF assms(1), of "SweepHolds ?d" j] SweepFloor
    by (simp add: fold_go_def Let_def past_deadline_def sweep_to_def floors_after_def)
qed (use assms in \<open>simp_all add: fold_go_def\<close>)

lemma step_keeps_side:
  assumes "floors_after at' w" "past_deadline at' late w" "at' \<le> ss_now w" "ss_now w + 1 < instant_bound"
    and "in_flight_sweep i (sweep_step w op)"
  shows "floors_after at' (sweep_step w op) \<and> past_deadline at' late (sweep_step w op)"
proof (cases op)
  case (FoldGo j)
  then show ?thesis using assms fold_keeps by simp
next
  case (LeaveSweep j completed)
  then show ?thesis using assms leaves_keeps
    by (cases "j < length (ss_sweeps w) \<and> sw_pc (ss_sweeps w ! j) \<noteq> SweepLeft") auto
qed (use assms in \<open>auto simp: floors_after_def past_deadline_def\<close>)

lemma run_keeps_side:
  assumes "floors_after at' w" "past_deadline at' late w" "at' \<le> ss_now w" "i < length (ss_sweeps w)"
    and "ss_now (run sweep_step w ops) + 1 < instant_bound" "in_flight_sweep i (run sweep_step w ops)"
  shows "past_deadline at' late (run sweep_step w ops)"
  using assms
proof (induction ops arbitrary: w)
  case (Cons op ops)
  let ?w = "sweep_step w op"
  have i: "i < length (ss_sweeps ?w)" using Cons.prems(4) sweeps_grow [of w op] by linarith
  then have fl: "in_flight_sweep i ?w" using left_stays_run Cons.prems(6) by auto
  have "ss_now w \<le> ss_now (run sweep_step ?w ops)" using run_time [of ?w ops] sweep_step_time [of w op] by linarith
  then have "ss_now w + 1 < instant_bound" using Cons.prems(5) by simp
  from step_keeps_side [OF Cons.prems(1-3) this fl] show ?case
    using Cons.IH [of ?w] i Cons.prems(3,5,6) sweep_step_time [of w op] by simp
qed simp

lemma run_final:
  "sv_reason (sc_value (ss_planes w t)) = Some r \<Longrightarrow>
   sv_final_at (sc_value (ss_planes (run sweep_step w ops) t)) = sv_final_at (sc_value (ss_planes w t))"
proof (induction ops arbitrary: w)
  case (Cons op ops)
  have "sv_reason (sc_value (ss_planes (sweep_step w op) t)) = Some r \<and>
    sv_final_at (sc_value (ss_planes (sweep_step w op) t)) = sv_final_at (sc_value (ss_planes w t))"
    using plane_step_keeps_reason [OF Cons.prems] Cons.prems
    by (cases op) (auto simp: fold_go_def sweep_to_def sweep_leaves_def Let_def split: sweep_pc.splits)
  then show ?case using Cons.IH [of "sweep_step w op"] by simp
qed simp

lemma verdict_side:
  assumes "sweeps_inv w" "j < length (ss_sweeps w)" "sw_pc (ss_sweeps w ! j) = SweepHolds own"
    and "sv_status (sc_value (ss_planes w t)) = StStopped" "sv_final_at (sc_value (ss_planes w t)) = Some at'"
  shows "\<exists>late. past_deadline at' late w \<and> sweep_verdict j t w = Some (if late then StopKilled else StopGraceful)"
proof -
  obtain held where h: "ss_deadline w = Some held" "held \<le> own" using sweeps_inv_held [OF assms(1) nth_mem [OF assms(2)] assms(3)] by blast
  then show ?thesis using assms(3-5)
    by (auto simp: past_deadline_def sweep_verdict_def leftover_outcome_def current_sweep_deadline_def min_def)
qed

section \<open>Examples\<close>

text \<open>Two sweeps: the second starts, with a deadline already past, after the leftover 5 has ended.\<close>

definition early_sweep_before :: "sweep_op list" where
  "early_sweep_before =
     [EnterSweep 100, FoldGo 0, FoldGo 0, SweepClock 20, OnPlane 5 (PlaneWriteReason 0 Graceful False), OnPlane 5 PlanePublishStopped]"

definition early_sweep_after :: "sweep_op list" where
  "early_sweep_after = [EnterSweep 10, FoldGo 1, FoldGo 1]"

text \<open>Two sweeps hold the deadline 100, and a third reads the clock at 50; the leftover 5 ends at 60.\<close>

definition split_sweep_before :: "sweep_op list" where
  "split_sweep_before =
     [EnterSweep 100, FoldGo 0, FoldGo 0, EnterSweep 100, FoldGo 1, FoldGo 1, SweepClock 50, EnterSweep 10, FoldGo 2,
      SweepClock 60, OnPlane 5 (PlaneWriteReason 0 Graceful False), OnPlane 5 PlanePublishStopped]"

lemmas sweep_run_defs =
  sweeps_new_def fold_go_def sweep_to_def fold_floor_def fold_stored_def saturating_deadline_def checked_add_instant_def
  FAR_FUTURE_def secs_def nanos_per_sec_def instant_bound_def plane_op_defs status_cell_new_def status_value_new_def

section \<open>Properties\<close>

text \<open>
  C16. An end that is final gets one verdict, whichever sweep reports it and however many sweeps start meanwhile with earlier
  deadlines: while the sweep that gave the first verdict is in flight, every sweep gives the same one, provided
  no sweep holds a floor at or before the end that it has still to store.
\<close>

theorem sweep_verdict_stands:
  assumes "w = run sweep_step (sweeps_new now) before" "w' = run sweep_step w after"
    and "sv_reason (sc_value (ss_planes w t)) = Some r" "sv_final_at (sc_value (ss_planes w t)) = Some at'"
    and "sv_status (sc_value (ss_planes w t)) = StStopped" "sv_status (sc_value (ss_planes w' t)) = StStopped"
    and "list_all (\<lambda>s. case sw_pc s of SweepFloor floor \<Rightarrow> at' < floor | _ \<Rightarrow> True) (ss_sweeps w)"
    and "i < length (ss_sweeps w)" "sw_pc (ss_sweeps w ! i) = SweepHolds own" "sw_pc (ss_sweeps w' ! i) \<noteq> SweepLeft"
    and "j < length (ss_sweeps w')" "sw_pc (ss_sweeps w' ! j) = SweepHolds own'" "ss_now w' + 1 < instant_bound"
  shows "sweep_verdict j t w' = sweep_verdict i t w"
proof -
  have inv: "sweeps_inv w" "sweeps_inv w'" unfolding assms(1,2) by (intro sweeps_machine.run_inv sweeps_inv_new)+
  obtain late where l: "past_deadline at' late w" "sweep_verdict i t w = Some (if late then StopKilled else StopGraceful)"
    using verdict_side [OF inv(1) assms(8,9,5,4)] by blast
  have "sv_final_at (sc_value (ss_planes w' t)) = Some at'" using run_final [OF assms(3)] assms(2,4) by simp
  then obtain late' where l': "past_deadline at' late' w'" "sweep_verdict j t w' = Some (if late' then StopKilled else StopGraceful)"
    using verdict_side [OF inv(2) assms(11,12,6)] by blast
  have "length (ss_sweeps w) \<le> length (ss_sweeps w')" unfolding assms(2)
    by (induction after rule: rev_induct) (auto intro: order_trans [OF _ sweeps_grow])
  then have "in_flight_sweep i w'" using assms(8,10) by (simp add: in_flight_sweep_def)
  moreover have "at' \<le> ss_now w" using inv(1) assms(4) by (simp add: sweeps_inv_def)
  ultimately have "past_deadline at' late w'"
    using run_keeps_side [of at' w late i after] l(1) assms(2,7,8,13) by (simp add: floors_after_def)
  then have "late' = late" using l'(1) by (auto simp: past_deadline_def)
  then show ?thesis using l(2) l'(2) by simp
qed

theorem sweep_verdict_stands_witness:
  "sweep_verdict 1 5 (run sweep_step (run sweep_step (sweeps_new 0) early_sweep_before) early_sweep_after) =
   sweep_verdict 0 5 (run sweep_step (sweeps_new 0) early_sweep_before)"
proof -
  let ?w = "run sweep_step (sweeps_new 0) early_sweep_before"
  let ?w' = "run sweep_step ?w early_sweep_after"
  have w: "sv_reason (sc_value (ss_planes ?w 5)) = Some Graceful" "sv_final_at (sc_value (ss_planes ?w 5)) = Some 20"
    "sv_status (sc_value (ss_planes ?w 5)) = StStopped" "ss_sweeps ?w = [\<lparr>sw_own = 100, sw_pc = SweepHolds 100\<rparr>]"
    by (simp_all add: early_sweep_before_def sweep_run_defs)
  have w': "sv_status (sc_value (ss_planes ?w' 5)) = StStopped" "ss_now ?w' = 20"
    "ss_sweeps ?w' = [\<lparr>sw_own = 100, sw_pc = SweepHolds 100\<rparr>, \<lparr>sw_own = 10, sw_pc = SweepHolds 21\<rparr>]"
    by (simp_all add: early_sweep_before_def early_sweep_after_def sweep_run_defs)
  show ?thesis
    by (rule sweep_verdict_stands [OF refl refl w(1,2,3) w'(1), of 0 100 1 21]) (simp_all add: w w' instant_bound_def)
qed

text \<open>
  C40. One end can get two verdicts: a fold reads the clock before it changes the shared deadline, so an end that becomes
  final between the two is before the deadline for the sweep that reports it first, and at or after the lowered
  deadline for the sweep that reports it next, though no one raised anything on it.
\<close>

theorem sweep_verdicts_can_differ:
  "\<exists>before after. let w = run sweep_step (sweeps_new 0) before; w' = run sweep_step w after in
     sweep_verdict 0 5 w = Some StopGraceful \<and> sweep_verdict 1 5 w' = Some StopKilled \<and>
     sw_pc (ss_sweeps w' ! 0) = SweepHolds 100 \<and> sw_pc (ss_sweeps w ! 1) = SweepHolds 100 \<and>
     ss_planes w' 5 = ss_planes w 5"
proof -
  let ?w = "run sweep_step (sweeps_new 0) split_sweep_before"
  let ?w' = "run sweep_step ?w [FoldGo 2]"
  have "sweep_verdict 0 5 ?w = Some StopGraceful" "sw_pc (ss_sweeps ?w ! 1) = SweepHolds 100"
    by (simp_all add: split_sweep_before_def sweep_run_defs sweep_verdict_def leftover_outcome_def current_sweep_deadline_def)
  moreover have "sweep_verdict 1 5 ?w' = Some StopKilled" "sw_pc (ss_sweeps ?w' ! 0) = SweepHolds 100" "ss_planes ?w' 5 = ss_planes ?w 5"
    by (simp_all add: split_sweep_before_def sweep_run_defs sweep_verdict_def leftover_outcome_def current_sweep_deadline_def)
  ultimately show ?thesis unfolding Let_def by blast
qed

end
