(* ===== verification/Shutdown_Walk.thy ===== *)
theory Shutdown_Walk
  imports Shutdown_Sweep Reaper System_World "HOL-Library.Multiset"
begin

text \<open>
  The walk of a system's shutdown (\<open>walk\<close>, \<open>stop_roots\<close>, \<open>stop_root_sequential\<close>, \<open>concurrent_force_sweep\<close> and \<open>force_stop\<close>
  in \<open>src/src/system.rs\<close>): the roots of the snapshot one after the other down the ladder, those the deadline cuts off all at
  once, the roots found late, and the final sweep of what is still registered.

  The walk is one agent.  Between any two of its accesses the rest of the program may do anything: the letter
  \<open>Elsewhere\<close> gives the registry and the lanes, the status planes and the abort records any new value, and lets time
  pass.  The tasks the walk spawns, one for each target of a force and one for each leftover it waits on, take their steps in any
  order, and any of them may be lost.  The \<open>Kill\<close> of a step is the raiser of \<open>System_World\<close>.  The entries the sweep schedules
  with the reaper are the armings of \<open>Reaper\<close>.  Log lines and test hooks are left out.
\<close>

section \<open>State\<close>

text \<open>One root's ladder, up to its next access; the flag says whether the ladder's \<open>Kill\<close> was taken.\<close>

datatype ladder_pc =
    LadderStop
  | LadderRaise
  | LadderStopWait instant
  | LadderStopOver
  | LadderKill
  | LadderKilling killer
  | LadderKillWait instant bool
  | LadderKillOver bool
  | LadderAbort bool
  | LadderAbortWait instant bool

record sweep_target =
  st_root :: root_snapshot
  st_raised :: bool

datatype force_pc =
    ForceStart
  | ForceWait instant
  | ForceAbort
  | ForceFloor instant
  | ForceDone stop_report
  | ForceLost

record force_task =
  fo_root :: root_snapshot
  fo_raised :: bool
  fo_abort :: "nat option"
  fo_grace :: duration
  fo_pc :: force_pc

text \<open>The target whose lookup comes next, or the raise in progress on it with the abort handle read so far.\<close>

datatype force_turn = ForceLookup | ForceKilling killer duration "nat option"

record leftover_wait =
  lw_root :: root_snapshot
  lw_deadline :: instant
  lw_ended :: "bool option"

datatype walk_phase =
    WalkRoots "root_snapshot list" ladder_pc
  | WalkForce "instant option" "sweep_target list" force_turn "force_task list"
  | WalkLate
  | WalkFold
  | WalkFloor instant
  | WalkSnapshot instant
  | WalkWaits instant "leftover_wait list"
  | WalkDone

text \<open>A report with the root or leftover it is about and whether this shutdown's \<open>Kill\<close> was taken on it.\<close>

type_synonym walk_report = "root_snapshot \<times> bool \<times> stop_report"

record walker =
  wk_per_actor :: duration
  wk_deadline :: instant
  wk_phase :: walk_phase
  wk_reported :: "u64 set"
  wk_taken :: "root_snapshot list"
  wk_left :: "root_snapshot list"
  wk_outcomes :: "walk_report list"
  wk_swept :: "walk_report list"
  wk_kills :: "incarnation list"
  wk_aborts :: "nat list"
  wk_feeds :: "(nat \<times> arming) list"

record walk_world =
  ww_sys :: actor_system
  ww_planes :: "incarnation \<Rightarrow> status_cell"
  ww_records :: "incarnation \<Rightarrow> abort_record"
  ww_walker :: walker

definition walk_begins :: "duration \<Rightarrow> instant \<Rightarrow> root_snapshot list \<Rightarrow> walker" where
  "walk_begins per_actor deadline roots =
     \<lparr>wk_per_actor = per_actor, wk_deadline = deadline, wk_phase = WalkRoots roots LadderStop,
      wk_reported = set (map rs_seq roots), wk_taken = roots, wk_left = [], wk_outcomes = [], wk_swept = [], wk_kills = [],
      wk_aborts = [], wk_feeds = []\<rparr>"

definition is_terminal :: "status_cell \<Rightarrow> bool" where
  "is_terminal c \<longleftrightarrow> read_status c = StStopped"

definition time_left :: "instant \<Rightarrow> instant \<Rightarrow> duration" where
  "time_left deadline now = saturating_duration_since deadline now"

text \<open>Where a wait of \<open>wait_terminal\<close> that begins now gives up.\<close>

definition wait_until :: "instant \<Rightarrow> duration \<Rightarrow> instant" where
  "wait_until now bound = now + int (bounded_wait bound)"

definition requested_outcome :: "bool \<Rightarrow> stop_outcome" where
  "requested_outcome took = (if took then StopKilled else StopGraceful)"

section \<open>The ladder of one root\<close>

datatype ladder_result = LadderGoes ladder_pc | LadderEnds bool stop_report | LadderCut bool

text \<open>The registry's entry of a snapshot's own incarnation.\<close>

abbreviation own_entry :: "root_snapshot \<Rightarrow> actor_system \<Rightarrow> registration option" where
  "own_entry root sy \<equiv> entry_for (KillId (rs_id root)) (rs_channel root) sy"

definition walk_killer :: "root_snapshot \<Rightarrow> killer" where
  "walk_killer root = \<lparr>ki_key = KillId (rs_id root), ki_channel = rs_channel root, ki_window = None, ki_pc = KillerClock\<rparr>"

text \<open>A step of \<open>stop_root_sequential\<close>: what comes next, the system, the tasks aborted and whether a \<open>Kill\<close> was just taken.\<close>

fun root_ladder_go ::
  "duration \<Rightarrow> instant \<Rightarrow> root_snapshot \<Rightarrow> status_cell \<Rightarrow> ladder_pc \<Rightarrow> actor_system \<Rightarrow>
   ladder_result \<times> actor_system \<times> nat list \<times> bool" where
  "root_ladder_go per_actor deadline root c LadderStop sy =
     (LadderGoes (case own_entry root sy of
        Some e \<Rightarrow> LadderRaise
      | None \<Rightarrow> LadderStopWait (wait_until (sy_now sy) (min (time_left deadline (sy_now sy)) per_actor))), sy, [], False)"
| "root_ladder_go per_actor deadline root c LadderRaise sy =
     (LadderGoes (LadderStopWait (wait_until (sy_now sy) (min (time_left deadline (sy_now sy)) per_actor))),
      snd (raise_on (rs_channel root) ParentRequest sy), [], False)"
| "root_ladder_go per_actor deadline root c (LadderStopWait until) sy =
     (if is_terminal c then LadderEnds False (terminal_report c StopGraceful)
      else if until \<le> sy_now sy then LadderGoes LadderStopOver else LadderGoes (LadderStopWait until), sy, [], False)"
| "root_ladder_go per_actor deadline root c LadderStopOver sy =
     (if deadline \<le> sy_now sy then LadderCut False else LadderGoes LadderKill, sy, [], False)"
| "root_ladder_go per_actor deadline root c LadderKill sy =
     (LadderGoes (case own_entry root sy of
        Some e \<Rightarrow> LadderKilling (walk_killer root)
      | None \<Rightarrow> LadderKillWait (wait_until (sy_now sy) (min (time_left deadline (sy_now sy)) (rs_kill_grace root))) False), sy, [], False)"
| "root_ladder_go per_actor deadline root c (LadderKilling ki) sy =
     (case killer_go ki sy of
        (ki', sy') \<Rightarrow>
          if ki_pc ki' = KillerAccepted \<or> ki_pc ki' = KillerRefused
          then (LadderGoes (LadderKillWait (wait_until (sy_now sy) (min (time_left deadline (sy_now sy)) (rs_kill_grace root)))
                  (ki_pc ki' = KillerAccepted)), sy', [], ki_pc ki' = KillerAccepted)
          else (LadderGoes (LadderKilling ki'), sy', [], False))"
| "root_ladder_go per_actor deadline root c (LadderKillWait until took) sy =
     (if is_terminal c then LadderEnds took (terminal_report c (requested_outcome took))
      else if until \<le> sy_now sy then LadderGoes (LadderKillOver took) else LadderGoes (LadderKillWait until took), sy, [], False)"
| "root_ladder_go per_actor deadline root c (LadderKillOver took) sy =
     (if deadline \<le> sy_now sy then LadderCut took else LadderGoes (LadderAbort took), sy, [], False)"
| "root_ladder_go per_actor deadline root c (LadderAbort took) sy =
     (LadderGoes (LadderAbortWait (wait_until (sy_now sy) (min (time_left deadline (sy_now sy)) ABORT_SETTLE)) took), sy,
      (case own_entry root sy of
         Some e \<Rightarrow> (case rg_abort e of Some task \<Rightarrow> [task] | None \<Rightarrow> [])
       | None \<Rightarrow> []), False)"
| "root_ladder_go per_actor deadline root c (LadderAbortWait until took) sy =
     (if is_terminal c then LadderEnds took (terminal_report c (requested_outcome took))
      else if until \<le> sy_now sy then LadderEnds took unresponsive else LadderGoes (LadderAbortWait until took), sy, [], False)"

section \<open>Forced stops\<close>

text \<open>
  A step of \<open>force_stop\<close> and of its \<open>wait_end_or_floor\<close>, on the target's plane and record: the verdict comes no sooner than the
  floor the record gives at that moment.
\<close>

definition force_go :: "force_task \<Rightarrow> status_cell \<Rightarrow> abort_record \<Rightarrow> instant \<Rightarrow> force_task \<times> nat list" where
  "force_go f c r now =
     (case fo_pc f of
        ForceStart \<Rightarrow> (f\<lparr>fo_pc := ForceWait (wait_until now (fo_grace f))\<rparr>, [])
      | ForceWait until \<Rightarrow>
          (if is_terminal c then f\<lparr>fo_pc := ForceDone (terminal_report c (requested_outcome (fo_raised f)))\<rparr>
           else if until \<le> now then f\<lparr>fo_pc := ForceAbort\<rparr> else f, [])
      | ForceAbort \<Rightarrow>
          (f\<lparr>fo_pc := ForceFloor (saturating_deadline now ABORT_SETTLE)\<rparr>,
           case fo_abort f of Some task \<Rightarrow> [task] | None \<Rightarrow> [])
      | ForceFloor budget_at \<Rightarrow>
          (if is_terminal c then f\<lparr>fo_pc := ForceDone (terminal_report c (requested_outcome (fo_raised f)))\<rparr>
           else if verdict_floor budget_at (bounded_wait (fo_grace f + ABORT_SETTLE)) (fst (record_view r)) (snd (record_view r)) \<le> now
           then f\<lparr>fo_pc := ForceDone unresponsive\<rparr> else f, [])
      | _ \<Rightarrow> (f, []))"

definition force_new :: "root_snapshot \<Rightarrow> bool \<Rightarrow> nat option \<Rightarrow> duration \<Rightarrow> force_task" where
  "force_new root took abort_of grace =
     \<lparr>fo_root = root, fo_raised = took, fo_abort = abort_of, fo_grace = grace, fo_pc = ForceStart\<rparr>"

text \<open>The report of a joined force task, or of a lost one from its target's plane; the deadline is that of a sweep of leftovers.\<close>

definition forced_report :: "instant option \<Rightarrow> instant option \<Rightarrow> status_cell \<Rightarrow> bool \<Rightarrow> stop_report option \<Rightarrow> stop_report" where
  "forced_report sweep stored c took joined =
     (let ended = (case joined of Some rep \<Rightarrow> sr_outcome rep \<noteq> StopUnresponsive | None \<Rightarrow> is_terminal c)
      in if \<not> ended then (case joined of Some rep \<Rightarrow> rep | None \<Rightarrow> unresponsive)
         else case sweep of
             Some deadline \<Rightarrow> leftover_report c took (current_sweep_deadline deadline stored)
           | None \<Rightarrow> (case joined of Some rep \<Rightarrow> rep | None \<Rightarrow> terminal_report c (requested_outcome took)))"

definition joined_report :: "force_pc \<Rightarrow> stop_report option option" where
  "joined_report pc = (case pc of ForceDone rep \<Rightarrow> Some (Some rep) | ForceLost \<Rightarrow> Some None | _ \<Rightarrow> None)"

section \<open>The walk\<close>

definition to_phase :: "walk_phase \<Rightarrow> walk_world \<Rightarrow> walk_world" where
  "to_phase ph w = w\<lparr>ww_walker := (ww_walker w)\<lparr>wk_phase := ph\<rparr>\<rparr>"

definition note_outcome :: "walk_report \<Rightarrow> walk_world \<Rightarrow> walk_world" where
  "note_outcome rep w = w\<lparr>ww_walker := (ww_walker w)\<lparr>wk_outcomes := wk_outcomes (ww_walker w) @ [rep]\<rparr>\<rparr>"

definition note_swept :: "walk_report list \<Rightarrow> walk_world \<Rightarrow> walk_world" where
  "note_swept reps w = w\<lparr>ww_walker := (ww_walker w)\<lparr>wk_swept := wk_swept (ww_walker w) @ reps\<rparr>\<rparr>"

definition note_effects :: "incarnation \<Rightarrow> nat list \<Rightarrow> bool \<Rightarrow> actor_system \<Rightarrow> walk_world \<Rightarrow> walk_world" where
  "note_effects ch aborts took sy w =
     w\<lparr>ww_sys := sy,
       ww_walker := (ww_walker w)\<lparr>wk_aborts := wk_aborts (ww_walker w) @ aborts,
         wk_kills := (if took then wk_kills (ww_walker w) @ [ch] else wk_kills (ww_walker w))\<rparr>\<rparr>"

text \<open>A turn of \<open>stop_roots\<close> on the first root of the list.\<close>

definition roots_go :: "root_snapshot \<Rightarrow> root_snapshot list \<Rightarrow> ladder_pc \<Rightarrow> walk_world \<Rightarrow> walk_world" where
  "roots_go root rest pc w =
     (case root_ladder_go (wk_per_actor (ww_walker w)) (wk_deadline (ww_walker w)) root (ww_planes w (rs_channel root)) pc (ww_sys w) of
        (result, sy, aborts, took) \<Rightarrow>
          (let w1 = note_effects (rs_channel root) aborts took sy w in
           case result of
             LadderGoes pc' \<Rightarrow> to_phase (WalkRoots (root # rest) pc') w1
           | LadderEnds raised_kill rep \<Rightarrow> to_phase (WalkRoots rest LadderStop) (note_outcome (root, raised_kill, rep) w1)
           | LadderCut raised_kill \<Rightarrow>
               to_phase (WalkForce None (\<lparr>st_root = root, st_raised = raised_kill\<rparr> # map (\<lambda>r. \<lparr>st_root = r, st_raised = False\<rparr>) rest)
                 ForceLookup []) w1))"

text \<open>The loop of \<open>concurrent_force_sweep\<close> over its targets: lookup, raise, and the spawn of the force task.\<close>

definition targets_go ::
  "instant option \<Rightarrow> sweep_target \<Rightarrow> sweep_target list \<Rightarrow> force_turn \<Rightarrow> force_task list \<Rightarrow> walk_world \<Rightarrow> walk_world" where
  "targets_go sweep t rest turn tasks w =
     (let root = st_root t; spawned = (\<lambda>f. to_phase (WalkForce sweep rest ForceLookup (tasks @ [f]))) in
      case turn of
        ForceLookup \<Rightarrow>
          (case own_entry root (ww_sys w) of
             None \<Rightarrow> spawned (force_new root (st_raised t) None (rs_kill_grace root)) w
           | Some e \<Rightarrow> to_phase (WalkForce sweep (t # rest) (ForceKilling (walk_killer root) (rg_kill_grace e) None) tasks) w)
      | ForceKilling ki grace abort_of \<Rightarrow>
          (case killer_go ki (ww_sys w) of
             (ki', sy) \<Rightarrow>
               if ki_pc ki' = KillerAccepted
               then spawned (force_new root True abort_of grace) (note_effects (rs_channel root) [] True sy w)
               else if ki_pc ki' = KillerRefused
               then spawned (force_new root (st_raised t)
                      (Option.bind (kill_target_for (KillId (rs_id root)) (rs_channel root) sy) fst) grace)
                      (note_effects (rs_channel root) [] False sy w)
               else to_phase (WalkForce sweep (t # rest)
                      (ForceKilling ki' grace (case ki_pc ki' of KillerFeed task _ _ \<Rightarrow> Some task | _ \<Rightarrow> abort_of)) tasks)
                      (note_effects (rs_channel root) [] False sy w)))"

text \<open>A force task is joined, in any order, once every target has its task.\<close>

definition join_force :: "nat \<Rightarrow> walk_world \<Rightarrow> walk_world" where
  "join_force j w =
     (case wk_phase (ww_walker w) of
        WalkForce sweep [] turn tasks \<Rightarrow>
          if j < length tasks
          then (case joined_report (fo_pc (tasks ! j)) of
                  Some joined \<Rightarrow>
                    (let f = tasks ! j;
                         rep = (fo_root f, fo_raised f, forced_report sweep (sy_sweep_deadline (ww_sys w))
                                  (ww_planes w (rs_channel (fo_root f))) (fo_raised f) joined);
                         w1 = to_phase (WalkForce sweep [] turn (take_nth j tasks)) w
                     in if sweep = None then note_outcome rep w1 else note_swept [rep] w1)
                | None \<Rightarrow> w)
          else w
      | _ \<Rightarrow> w)"

definition force_task_go :: "nat \<Rightarrow> bool \<Rightarrow> walk_world \<Rightarrow> walk_world" where
  "force_task_go j lost w =
     (case wk_phase (ww_walker w) of
        WalkForce sweep ts turn tasks \<Rightarrow>
          if j < length tasks
          then (if lost
                then if joined_report (fo_pc (tasks ! j)) = None
                     then to_phase (WalkForce sweep ts turn (tasks[j := (tasks ! j)\<lparr>fo_pc := ForceLost\<rparr>])) w else w
                else case force_go (tasks ! j) (ww_planes w (rs_channel (fo_root (tasks ! j))))
                            (ww_records w (rs_channel (fo_root (tasks ! j)))) (sy_now (ww_sys w)) of
                       (f, aborts) \<Rightarrow>
                         to_phase (WalkForce sweep ts turn (tasks[j := f]))
                           (note_effects (rs_channel (fo_root f)) aborts False (ww_sys w) w))
          else w
      | _ \<Rightarrow> w)"

text \<open>The roots found late: registered, and not taken on before.\<close>

definition late_roots :: "walker \<Rightarrow> actor_system \<Rightarrow> root_snapshot list" where
  "late_roots wk sy = rev (sort_key rs_seq (rev (filter (\<lambda>r. rs_seq r \<notin> wk_reported wk) (snapshot_roots sy))))"

definition late_go :: "walk_world \<Rightarrow> walk_world" where
  "late_go w =
     (let wk = ww_walker w; late = late_roots wk (ww_sys w) in
      if late = [] then to_phase WalkFold w
      else to_phase (WalkRoots late LadderStop)
        (w\<lparr>ww_walker := wk\<lparr>wk_reported := wk_reported wk \<union> set (map rs_seq late), wk_taken := wk_taken wk @ late\<rparr>\<rparr>))"

text \<open>The listing of the final sweep: the leftovers, a two-stage entry for each that has an abort handle, and the waits.\<close>

definition leftover_entries :: "walker \<Rightarrow> actor_system \<Rightarrow> (actor_id \<times> registration) list" where
  "leftover_entries wk sy = filter (\<lambda>ke. rg_seq (snd ke) \<notin> wk_reported wk) (sy_by_id sy)"

definition deadline_kill :: "instant \<Rightarrow> registration \<Rightarrow> (nat \<times> arming) list" where
  "deadline_kill deadline e =
     (case rg_abort e of
        Some task \<Rightarrow> [(rg_runtime e, ArmKill deadline (rg_channel e) (saturating_deadline deadline (rg_kill_grace e)) task None)]
      | None \<Rightarrow> [])"

definition snapshot_go :: "instant \<Rightarrow> walk_world \<Rightarrow> walk_world" where
  "snapshot_go deadline w =
     (let wk = ww_walker w; entries = leftover_entries wk (ww_sys w); left = map snapshot_of entries in
      to_phase (WalkWaits deadline (map (\<lambda>r. \<lparr>lw_root = r, lw_deadline = deadline, lw_ended = None\<rparr>) left))
        (w\<lparr>ww_walker := wk\<lparr>wk_left := left, wk_feeds := wk_feeds wk @ concat (map (deadline_kill deadline \<circ> snd) entries)\<rparr>\<rparr>))"

text \<open>A pass of \<open>wait_end_by_the_system_deadline\<close>; a wait that is lost reads as not seen to end.\<close>

definition leftover_pass :: "instant option \<Rightarrow> status_cell \<Rightarrow> instant \<Rightarrow> leftover_wait \<Rightarrow> leftover_wait" where
  "leftover_pass stored c now lw =
     (if lw_ended lw \<noteq> None then lw
      else let deadline = (case stored of Some earlier \<Rightarrow> min (lw_deadline lw) earlier | None \<Rightarrow> lw_deadline lw)
           in if is_terminal c then lw\<lparr>lw_deadline := deadline, lw_ended := Some True\<rparr>
              else if deadline \<le> now then lw\<lparr>lw_deadline := deadline, lw_ended := Some False\<rparr>
              else lw\<lparr>lw_deadline := deadline\<rparr>)"

definition leftover_go :: "nat \<Rightarrow> bool \<Rightarrow> walk_world \<Rightarrow> walk_world" where
  "leftover_go j lost w =
     (case wk_phase (ww_walker w) of
        WalkWaits deadline waits \<Rightarrow>
          if j < length waits
          then to_phase (WalkWaits deadline (waits[j :=
                 (if lost then (if lw_ended (waits ! j) = None then (waits ! j)\<lparr>lw_ended := Some False\<rparr> else waits ! j)
                  else leftover_pass (sy_sweep_deadline (ww_sys w)) (ww_planes w (rs_channel (lw_root (waits ! j))))
                         (sy_now (ww_sys w)) (waits ! j))])) w
          else w
      | _ \<Rightarrow> w)"

text \<open>Every wait is over: the ended leftovers are reported in the listing's order, the others are forced.\<close>

definition waits_over :: "instant \<Rightarrow> leftover_wait list \<Rightarrow> walk_world \<Rightarrow> walk_world" where
  "waits_over deadline waits w =
     (let ended = filter (\<lambda>lw. lw_ended lw = Some True) waits;
          stragglers = filter (\<lambda>lw. lw_ended lw \<noteq> Some True) waits;
          report = (\<lambda>lw. (lw_root lw, False, leftover_report (ww_planes w (rs_channel (lw_root lw))) False
                        (current_sweep_deadline deadline (sy_sweep_deadline (ww_sys w)))));
          w1 = note_swept (map report ended) w
      in to_phase (if stragglers = [] then WalkDone
           else WalkForce (Some deadline) (map (\<lambda>lw. \<lparr>st_root = lw_root lw, st_raised = False\<rparr>) stragglers) ForceLookup []) w1)"

definition walk_go :: "walk_world \<Rightarrow> walk_world" where
  "walk_go w =
     (case wk_phase (ww_walker w) of
        WalkRoots [] pc \<Rightarrow> to_phase WalkLate w
      | WalkRoots (root # rest) pc \<Rightarrow> roots_go root rest pc w
      | WalkForce sweep (t # rest) turn tasks \<Rightarrow> targets_go sweep t rest turn tasks w
      | WalkForce sweep [] turn tasks \<Rightarrow>
          if tasks = [] then to_phase (if sweep = None then WalkLate else WalkDone) w else w
      | WalkLate \<Rightarrow> late_go w
      | WalkFold \<Rightarrow> to_phase (WalkFloor (fold_floor (wk_deadline (ww_walker w)) (sy_now (ww_sys w)))) w
      | WalkFloor floor \<Rightarrow>
          (let folded = fold_stored floor (sy_sweep_deadline (ww_sys w))
           in to_phase (WalkSnapshot folded) (w\<lparr>ww_sys := (ww_sys w)\<lparr>sy_sweep_deadline := Some folded\<rparr>\<rparr>))
      | WalkSnapshot deadline \<Rightarrow> snapshot_go deadline w
      | WalkWaits deadline waits \<Rightarrow> if list_all (\<lambda>lw. lw_ended lw \<noteq> None) waits then waits_over deadline waits w else w
      | WalkDone \<Rightarrow> w)"

datatype walk_op =
    WalkGo
  | ForceTaskGo nat bool
  | JoinForce nat
  | LeftoverGo nat bool
  | Elsewhere actor_system "incarnation \<Rightarrow> status_cell" "incarnation \<Rightarrow> abort_record"

fun walk_step :: "walk_world \<Rightarrow> walk_op \<Rightarrow> walk_world" where
  "walk_step w WalkGo = walk_go w"
| "walk_step w (ForceTaskGo j lost) = force_task_go j lost w"
| "walk_step w (JoinForce j) = join_force j w"
| "walk_step w (LeftoverGo j lost) = leftover_go j lost w"
| "walk_step w (Elsewhere sy planes records) =
     w\<lparr>ww_sys := sy\<lparr>sy_now := max (sy_now sy) (sy_now (ww_sys w))\<rparr>, ww_planes := planes, ww_records := records\<rparr>"

section \<open>Every target is accounted for\<close>

definition forced_roots :: "sweep_target list \<Rightarrow> force_task list \<Rightarrow> root_snapshot multiset" where
  "forced_roots ts tasks = mset (map st_root ts) + mset (map fo_root tasks)"

text \<open>The roots, and the leftovers, a phase has still to report.\<close>

fun pending_roots :: "walk_phase \<Rightarrow> root_snapshot multiset" where
  "pending_roots (WalkRoots roots pc) = mset roots"
| "pending_roots (WalkForce None ts turn tasks) = forced_roots ts tasks"
| "pending_roots _ = {#}"

fun pending_left :: "walk_phase \<Rightarrow> root_snapshot multiset" where
  "pending_left (WalkForce (Some deadline) ts turn tasks) = forced_roots ts tasks"
| "pending_left (WalkWaits deadline waits) = mset (map lw_root waits)"
| "pending_left _ = {#}"

text \<open>The phases before the listing of the leftovers.\<close>

fun before_sweep :: "walk_phase \<Rightarrow> bool" where
  "before_sweep (WalkForce (Some deadline) ts turn tasks) = False"
| "before_sweep (WalkWaits deadline waits) = False"
| "before_sweep WalkDone = False"
| "before_sweep _ = True"

definition account :: "walker \<Rightarrow> bool" where
  "account wk \<longleftrightarrow>
     mset (map fst (wk_outcomes wk)) + pending_roots (wk_phase wk) = mset (wk_taken wk) \<and>
     mset (map fst (wk_swept wk)) + pending_left (wk_phase wk) = mset (wk_left wk) \<and>
     (before_sweep (wk_phase wk) \<longrightarrow> wk_left wk = []) \<and>
     wk_reported wk = set (map rs_seq (wk_taken wk)) \<and>
     (\<forall>r \<in> set (wk_left wk). rs_seq r \<notin> wk_reported wk)"

text \<open>What a report says of its target: \<open>Killed\<close> and \<open>Graceful\<close> by whether this shutdown's \<open>Kill\<close> was taken.\<close>

definition report_ok :: "bool \<Rightarrow> stop_report \<Rightarrow> bool" where
  "report_ok took rep \<longleftrightarrow>
     (sr_outcome rep = StopKilled \<longrightarrow> took) \<and> (sr_outcome rep = StopGraceful \<longrightarrow> \<not> took) \<and>
     (sr_outcome rep = StopUnresponsive \<longleftrightarrow> sr_reason rep = None)"

definition sweep_report_ok :: "bool \<Rightarrow> stop_report \<Rightarrow> bool" where
  "sweep_report_ok took rep \<longleftrightarrow>
     (sr_outcome rep = StopGraceful \<longrightarrow> \<not> took) \<and> (sr_outcome rep = StopUnresponsive \<longleftrightarrow> sr_reason rep = None)"

fun ladder_raised :: "ladder_pc \<Rightarrow> bool" where
  "ladder_raised (LadderKillWait until took) = took"
| "ladder_raised (LadderKillOver took) = took"
| "ladder_raised (LadderAbort took) = took"
| "ladder_raised (LadderAbortWait until took) = took"
| "ladder_raised _ = False"

definition task_ok :: "incarnation list \<Rightarrow> force_task \<Rightarrow> bool" where
  "task_ok kills f \<longleftrightarrow>
     (fo_raised f \<longrightarrow> rs_channel (fo_root f) \<in> set kills) \<and>
     (\<forall>rep. fo_pc f = ForceDone rep \<longrightarrow> report_ok (fo_raised f) rep)"

fun phase_ok :: "incarnation list \<Rightarrow> walk_phase \<Rightarrow> bool" where
  "phase_ok kills (WalkRoots roots pc) = (roots \<noteq> [] \<longrightarrow> ladder_raised pc \<longrightarrow> rs_channel (hd roots) \<in> set kills)"
| "phase_ok kills (WalkForce sweep ts turn tasks) =
     ((\<forall>t \<in> set ts. st_raised t \<longrightarrow> rs_channel (st_root t) \<in> set kills) \<and> (\<forall>f \<in> set tasks. task_ok kills f))"
| "phase_ok kills _ = True"

definition verdicts_ok :: "walker \<Rightarrow> bool" where
  "verdicts_ok wk \<longleftrightarrow>
     phase_ok (wk_kills wk) (wk_phase wk) \<and>
     (\<forall>(root, took, rep) \<in> set (wk_outcomes wk). report_ok took rep \<and> (took \<longrightarrow> rs_channel root \<in> set (wk_kills wk))) \<and>
     (\<forall>(root, took, rep) \<in> set (wk_swept wk). sweep_report_ok took rep \<and> (took \<longrightarrow> rs_channel root \<in> set (wk_kills wk)))"

definition walk_inv :: "walk_world \<Rightarrow> bool" where
  "walk_inv w \<longleftrightarrow> account (ww_walker w) \<and> verdicts_ok (ww_walker w)"

lemma report_ok_terminal [simp]: "report_ok took (terminal_report c (requested_outcome took))" "report_ok took unresponsive"
  by (auto simp: report_ok_def terminal_report_def terminal_outcome_def requested_outcome_def unresponsive_def)

lemma report_ok_graceful [simp]: "report_ok False (terminal_report c StopGraceful)"
  using report_ok_terminal(1) [of False c] by (simp add: requested_outcome_def)

lemma sweep_report_ok_leftover [simp]: "sweep_report_ok took (leftover_report c took d)"
  by (auto simp: sweep_report_ok_def leftover_report_def leftover_outcome_def)

lemma forced_report_ok:
  assumes "\<And>rep. joined = Some rep \<Longrightarrow> report_ok took rep"
  shows "report_ok took (forced_report None stored c took joined)"
    "sweep_report_ok took (forced_report (Some deadline) stored c took joined)"
proof -
  show "report_ok took (forced_report None stored c took joined)"
    using assms by (auto simp: forced_report_def Let_def split: option.splits)
  have "sweep_report_ok took rep" if "report_ok took rep" for rep using that by (auto simp: report_ok_def sweep_report_ok_def)
  then show "sweep_report_ok took (forced_report (Some deadline) stored c took joined)"
    using assms by (auto simp: forced_report_def Let_def split: option.splits)
qed

lemma ladder_ends_ok:
  "root_ladder_go p d root c pc sy = (LadderEnds took rep, sy', as', now_took) \<Longrightarrow>
   report_ok took rep \<and> took = ladder_raised pc \<and> \<not> now_took"
  by (cases pc) (auto split: if_splits prod.splits)

lemma ladder_cut_ok:
  "root_ladder_go p d root c pc sy = (LadderCut took, sy', as', now_took) \<Longrightarrow> took = ladder_raised pc \<and> \<not> now_took"
  by (cases pc) (auto split: if_splits prod.splits)

lemma ladder_goes_ok:
  "root_ladder_go p d root c pc sy = (LadderGoes pc', sy', as', now_took) \<Longrightarrow> ladder_raised pc' \<Longrightarrow> ladder_raised pc \<or> now_took"
  by (cases pc) (auto split: if_splits prod.splits option.splits)

lemma force_go_ok: "task_ok kills f \<Longrightarrow> task_ok kills (fst (force_go f c r now))"
  by (cases "fo_pc f") (auto simp: force_go_def task_ok_def)

lemma force_go_root [simp]: "fo_root (fst (force_go f c r now)) = fo_root f"
  by (cases "fo_pc f") (auto simp: force_go_def)

lemma walker_simps [simp]:
  "ww_walker (to_phase ph w) = (ww_walker w)\<lparr>wk_phase := ph\<rparr>"
  "ww_walker (note_outcome rep w) = (ww_walker w)\<lparr>wk_outcomes := wk_outcomes (ww_walker w) @ [rep]\<rparr>"
  "ww_walker (note_swept reps w) = (ww_walker w)\<lparr>wk_swept := wk_swept (ww_walker w) @ reps\<rparr>"
  "ww_walker (note_effects ch as' took sy w) = (ww_walker w)\<lparr>wk_aborts := wk_aborts (ww_walker w) @ as',
     wk_kills := (if took then wk_kills (ww_walker w) @ [ch] else wk_kills (ww_walker w))\<rparr>"
  by (simp_all add: to_phase_def note_outcome_def note_swept_def note_effects_def)

lemma task_ok_mono: "task_ok kills f \<Longrightarrow> set kills \<subseteq> set kills' \<Longrightarrow> task_ok kills' f"
  by (auto simp: task_ok_def)

text \<open>The reports already made stay right when more kills are noted.\<close>

definition reports_ok :: "incarnation list \<Rightarrow> walk_report list \<Rightarrow> walk_report list \<Rightarrow> bool" where
  "reports_ok kills outs swept \<longleftrightarrow>
     (\<forall>(root, took, rep) \<in> set outs. report_ok took rep \<and> (took \<longrightarrow> rs_channel root \<in> set kills)) \<and>
     (\<forall>(root, took, rep) \<in> set swept. sweep_report_ok took rep \<and> (took \<longrightarrow> rs_channel root \<in> set kills))"

lemma reports_ok_mono: "reports_ok kills outs swept \<Longrightarrow> set kills \<subseteq> set kills' \<Longrightarrow> reports_ok kills' outs swept"
  by (fastforce simp: reports_ok_def)

lemma reports_ok_more [simp]: "reports_ok kills outs swept \<Longrightarrow> reports_ok (kills @ ks) outs swept"
  by (rule reports_ok_mono) auto

lemma verdicts_ok_eq:
  "verdicts_ok wk \<longleftrightarrow> phase_ok (wk_kills wk) (wk_phase wk) \<and> reports_ok (wk_kills wk) (wk_outcomes wk) (wk_swept wk)"
  by (simp add: verdicts_ok_def reports_ok_def)

lemma reports_ok_outcome [simp]:
  "reports_ok kills (outs @ [(root, took, rep)]) swept \<longleftrightarrow>
   reports_ok kills outs swept \<and> report_ok took rep \<and> (took \<longrightarrow> rs_channel root \<in> set kills)"
  by (auto simp: reports_ok_def)

lemma reports_ok_swept:
  "reports_ok kills outs (swept @ reps) \<longleftrightarrow>
   reports_ok kills outs swept \<and> list_all (\<lambda>(root, took, rep). sweep_report_ok took rep \<and> (took \<longrightarrow> rs_channel root \<in> set kills)) reps"
  unfolding reports_ok_def list_all_iff set_append ball_Un by blast

lemma roots_go_inv:
  assumes "walk_inv w" "wk_phase (ww_walker w) = WalkRoots (root # rest) pc"
  shows "walk_inv (roots_go root rest pc w)"
proof -
  let ?wk = "ww_walker w"
  obtain result sy as' took where l: "root_ladder_go (wk_per_actor ?wk) (wk_deadline ?wk) root (ww_planes w (rs_channel root)) pc (ww_sys w)
      = (result, sy, as', took)" by (metis prod_cases4)
  have acc: "mset (map fst (wk_outcomes ?wk)) + mset (root # rest) = mset (wk_taken ?wk)" "wk_swept ?wk = []" "wk_left ?wk = []"
    "wk_reported ?wk = set (map rs_seq (wk_taken ?wk))"
    using assms by (auto simp: walk_inv_def account_def)
  have ver: "ladder_raised pc \<Longrightarrow> rs_channel root \<in> set (wk_kills ?wk)" "reports_ok (wk_kills ?wk) (wk_outcomes ?wk) (wk_swept ?wk)"
    using assms by (simp_all add: walk_inv_def verdicts_ok_eq)
  show ?thesis
  proof (cases result)
    case (LadderGoes pc')
    let ?kills = "if took then wk_kills ?wk @ [rs_channel root] else wk_kills ?wk"
    have "ladder_raised pc' \<Longrightarrow> rs_channel root \<in> set ?kills" using ladder_goes_ok l ver(1) LadderGoes by fastforce
    moreover have "reports_ok ?kills (wk_outcomes ?wk) (wk_swept ?wk)" using ver(2) by simp
    ultimately show ?thesis using acc LadderGoes by (simp add: roots_go_def l walk_inv_def account_def verdicts_ok_eq Let_def)
  next
    case (LadderEnds t rep)
    have e: "report_ok t rep" "t = ladder_raised pc" "\<not> took" using ladder_ends_ok l LadderEnds by blast+
    then show ?thesis using acc ver LadderEnds by (simp add: roots_go_def l walk_inv_def account_def verdicts_ok_eq Let_def)
  next
    case (LadderCut t)
    have e: "t = ladder_raised pc \<and> \<not> took" using ladder_cut_ok l LadderCut by blast
    then show ?thesis using acc ver LadderCut
      by (simp add: roots_go_def l walk_inv_def account_def verdicts_ok_eq Let_def forced_roots_def comp_def)
  qed
qed

text \<open>Phases of a force: what the accounting needs of a change of its targets and tasks.\<close>

lemma force_phase_inv:
  assumes "walk_inv w" "wk_phase (ww_walker w) = WalkForce sweep ts turn tasks"
    and "forced_roots ts' tasks' = forced_roots ts tasks" "set (wk_kills (ww_walker w)) \<subseteq> set kills"
    and "phase_ok kills (WalkForce sweep ts' turn' tasks')"
    and "ww_walker w' = (ww_walker w)\<lparr>wk_aborts := as', wk_kills := kills, wk_phase := WalkForce sweep ts' turn' tasks'\<rparr>"
  shows "walk_inv w'"
proof -
  have "reports_ok kills (wk_outcomes (ww_walker w)) (wk_swept (ww_walker w))"
    using reports_ok_mono [OF _ assms(4)] assms(1) by (simp add: walk_inv_def verdicts_ok_eq)
  moreover have "account (ww_walker w')" using assms(1,2,3,6) by (cases sweep) (auto simp: walk_inv_def account_def)
  ultimately show ?thesis using assms(5,6) by (simp add: walk_inv_def verdicts_ok_eq)
qed

lemma targets_go_inv:
  assumes "walk_inv w" "wk_phase (ww_walker w) = WalkForce sweep (t # rest) turn tasks"
  shows "walk_inv (targets_go sweep t rest turn tasks w)"
proof -
  let ?kills = "wk_kills (ww_walker w)" and ?root = "st_root t"
  have ph: "phase_ok ?kills (WalkForce sweep (t # rest) turn tasks)" using assms by (simp add: walk_inv_def verdicts_ok_eq)
  have spawned: "walk_inv (to_phase (WalkForce sweep rest ForceLookup (tasks @ [force_new ?root raised_kill a g])) (note_effects (rs_channel ?root) [] took sy w))"
    if "raised_kill \<longrightarrow> st_raised t \<or> took" for raised_kill a g took sy
    by (rule force_phase_inv [OF assms, where ts' = rest and tasks' = "tasks @ [force_new ?root raised_kill a g]" and turn' = ForceLookup
          and kills = "if took then ?kills @ [rs_channel ?root] else ?kills" and as' = "wk_aborts (ww_walker w)"])
      (use that ph in \<open>auto simp: forced_roots_def force_new_def task_ok_def\<close>)
  have quiet: "walk_inv (to_phase (WalkForce sweep (t # rest) turn' tasks) (note_effects (rs_channel ?root) [] False sy w))" for turn' sy
    by (rule force_phase_inv [OF assms, where ts' = "t # rest" and tasks' = tasks and turn' = turn' and kills = ?kills
          and as' = "wk_aborts (ww_walker w)"]) (use ph in simp_all)
  have same: "to_phase ph' (note_effects ch [] False (ww_sys w) w) = to_phase ph' w" for ph' ch
    by (simp add: to_phase_def note_effects_def)
  show ?thesis
  proof (cases turn)
    case ForceLookup
    show ?thesis
    proof (cases "own_entry ?root (ww_sys w)")
      case None
      then show ?thesis using spawned [where raised_kill = "st_raised t" and took = False and sy = "ww_sys w"] same
        by (simp add: targets_go_def ForceLookup Let_def)
    next
      case (Some e)
      then show ?thesis using quiet [where sy = "ww_sys w"] same by (simp add: targets_go_def ForceLookup Let_def)
    qed
  next
    case (ForceKilling ki grace a)
    obtain ki' sy where k: "killer_go ki (ww_sys w) = (ki', sy)" by fastforce
    consider "ki_pc ki' = KillerAccepted" | "ki_pc ki' = KillerRefused" | "ki_pc ki' \<noteq> KillerAccepted" "ki_pc ki' \<noteq> KillerRefused" by blast
    then show ?thesis
    proof cases
      case 1
      then show ?thesis using spawned [where raised_kill = True and took = True and sy = sy] k by (simp add: targets_go_def ForceKilling Let_def del: killer_go.simps)
    next
      case 2
      then show ?thesis using spawned [where raised_kill = "st_raised t" and took = False and sy = sy] k by (simp add: targets_go_def ForceKilling Let_def del: killer_go.simps)
    next
      case 3
      then show ?thesis using quiet [where sy = sy] k by (simp add: targets_go_def ForceKilling Let_def del: killer_go.simps)
    qed
  qed
qed

lemma mset_take_nth:
  assumes "j < length xs"
  shows "mset xs = add_mset (xs ! j) (mset (take_nth j xs))"
proof -
  have "mset xs = mset (take j xs @ xs ! j # drop (Suc j) xs)" using assms by (metis id_take_nth_drop)
  then show ?thesis by (simp add: take_nth_def)
qed

lemma join_force_inv:
  assumes "walk_inv w"
  shows "walk_inv (join_force j w)"
proof (cases "\<exists>sweep turn tasks joined. wk_phase (ww_walker w) = WalkForce sweep [] turn tasks \<and> j < length tasks \<and>
    joined_report (fo_pc (tasks ! j)) = Some joined")
  case True
  then obtain sweep turn tasks joined where p: "wk_phase (ww_walker w) = WalkForce sweep [] turn tasks" "j < length tasks"
    "joined_report (fo_pc (tasks ! j)) = Some joined" by blast
  let ?f = "tasks ! j" and ?wk = "ww_walker w"
  have ok: "\<forall>f \<in> set tasks. task_ok (wk_kills ?wk) f" "reports_ok (wk_kills ?wk) (wk_outcomes ?wk) (wk_swept ?wk)"
    using assms p(1) by (simp_all add: walk_inv_def verdicts_ok_eq)
  then have f: "task_ok (wk_kills ?wk) ?f" using p(2) by simp
  have "report_ok (fo_raised ?f) rep" if "joined = Some rep" for rep
    using f p(3) that by (cases "fo_pc ?f") (auto simp: joined_report_def task_ok_def)
  then have rep: "report_ok (fo_raised ?f) (forced_report None stored c (fo_raised ?f) joined)"
    "sweep_report_ok (fo_raised ?f) (forced_report (Some d) stored c (fo_raised ?f) joined)" for stored c d
    using forced_report_ok by blast+
  have raised_in: "fo_raised ?f \<Longrightarrow> rs_channel (fo_root ?f) \<in> set (wk_kills ?wk)" using f by (simp add: task_ok_def)
  have rest: "\<forall>f \<in> set (take_nth j tasks). task_ok (wk_kills ?wk) f" using ok(1) take_nth_set [OF p(2)] by blast
  have m: "forced_roots [] tasks = add_mset (fo_root ?f) (forced_roots [] (take_nth j tasks))"
    using mset_take_nth [OF p(2)] by (simp add: forced_roots_def)
  show ?thesis
  proof (cases sweep)
    case None
    have "account (ww_walker (join_force j w))" using assms m p
      by (auto simp: join_force_def walk_inv_def account_def Let_def None)
    then show ?thesis using rep(1) raised_in rest ok(2) p by (simp add: join_force_def walk_inv_def verdicts_ok_eq Let_def None)
  next
    case (Some d)
    have "account (ww_walker (join_force j w))" using assms m p
      by (auto simp: join_force_def walk_inv_def account_def Let_def Some)
    then show ?thesis using rep(2) raised_in rest ok(2) p by (simp add: join_force_def walk_inv_def verdicts_ok_eq Let_def Some reports_ok_swept)
  qed
next
  case False
  then have "join_force j w = w" by (auto simp: join_force_def split: walk_phase.splits list.splits option.splits)
  then show ?thesis using assms by simp
qed

lemma force_task_go_inv:
  assumes "walk_inv w"
  shows "walk_inv (force_task_go j lost w)"
proof (cases "\<exists>sweep ts turn tasks. wk_phase (ww_walker w) = WalkForce sweep ts turn tasks \<and> j < length tasks")
  case True
  then obtain sweep ts turn tasks where p: "wk_phase (ww_walker w) = WalkForce sweep ts turn tasks" "j < length tasks" by blast
  let ?kills = "wk_kills (ww_walker w)"
  have ph: "phase_ok ?kills (WalkForce sweep ts turn tasks)" using assms p(1) by (simp add: walk_inv_def verdicts_ok_eq)
  then have ok: "task_ok ?kills (tasks ! j)" using p(2) by simp
  have changed: "walk_inv w'" if f: "task_ok ?kills f" "fo_root f = fo_root (tasks ! j)"
    and w': "ww_walker w' = (ww_walker w)\<lparr>wk_aborts := as', wk_kills := ?kills, wk_phase := WalkForce sweep ts turn (tasks[j := f])\<rparr>" for f as' w'
  proof (rule force_phase_inv [OF assms p(1) _ _ _ w'])
    have "map fo_root (tasks[j := f]) = map fo_root tasks" using f(2) p(2) by (simp add: map_update list_update_same_conv)
    then show "forced_roots ts (tasks[j := f]) = forced_roots ts tasks" by (simp add: forced_roots_def flip: mset_map)
    show "phase_ok ?kills (WalkForce sweep ts turn (tasks[j := f]))"
      using ph f(1) set_update_subset_insert [of tasks j f] by auto
  qed simp
  show ?thesis
  proof (cases lost)
    case True
    show ?thesis
    proof (cases "joined_report (fo_pc (tasks ! j)) = None")
      case unjoined: True
      have "task_ok ?kills ((tasks ! j)\<lparr>fo_pc := ForceLost\<rparr>)" using ok by (simp add: task_ok_def)
      then show ?thesis by (rule changed [where as' = "wk_aborts (ww_walker w)"]) (use p True unjoined in \<open>simp_all add: force_task_go_def\<close>)
    qed (use assms p True in \<open>auto simp: force_task_go_def\<close>)
  next
    case False
    obtain f as' where f: "force_go (tasks ! j) (ww_planes w (rs_channel (fo_root (tasks ! j))))
        (ww_records w (rs_channel (fo_root (tasks ! j)))) (sy_now (ww_sys w)) = (f, as')" by fastforce
    have "task_ok ?kills f" "fo_root f = fo_root (tasks ! j)" using force_go_ok [OF ok] force_go_root f by (metis fst_conv)+
    then show ?thesis by (rule changed [where as' = "wk_aborts (ww_walker w) @ as'"]) (use p False f in \<open>simp add: force_task_go_def\<close>)
  qed
next
  case False
  then have "force_task_go j lost w = w" by (auto simp: force_task_go_def split: walk_phase.splits)
  then show ?thesis using assms by simp
qed

lemma late_seqs: "r \<in> set (late_roots wk sy) \<Longrightarrow> rs_seq r \<notin> wk_reported wk"
  by (simp add: late_roots_def)

lemma late_go_inv:
  assumes "walk_inv w" "wk_phase (ww_walker w) = WalkLate"
  shows "walk_inv (late_go w)"
  using assms by (auto simp: late_go_def walk_inv_def account_def verdicts_ok_eq Let_def)

lemma snapshot_go_inv:
  assumes "walk_inv w" "wk_phase (ww_walker w) = WalkSnapshot deadline"
  shows "walk_inv (snapshot_go deadline w)"
proof -
  have "rs_seq r \<notin> wk_reported (ww_walker w)" if "r \<in> set (map snapshot_of (leftover_entries (ww_walker w) (ww_sys w)))" for r
    using that by (auto simp: leftover_entries_def snapshot_of_def)
  then show ?thesis using assms by (simp add: snapshot_go_def walk_inv_def account_def verdicts_ok_eq Let_def comp_def)
qed

lemma leftover_pass_root [simp]: "lw_root (leftover_pass stored c now lw) = lw_root lw"
  by (simp add: leftover_pass_def Let_def)

lemma leftover_go_inv:
  assumes "walk_inv w"
  shows "walk_inv (leftover_go j lost w)"
proof (cases "\<exists>deadline waits. wk_phase (ww_walker w) = WalkWaits deadline waits \<and> j < length waits")
  case True
  then obtain deadline waits where p: "wk_phase (ww_walker w) = WalkWaits deadline waits" "j < length waits" by blast
  have m: "mset (map lw_root (waits[j := lw])) = mset (map lw_root waits)" if "lw_root lw = lw_root (waits ! j)" for lw
  proof -
    have "map lw_root (waits[j := lw]) = map lw_root waits" using that p(2) by (simp add: map_update list_update_same_conv)
    then show ?thesis by simp
  qed
  have "walk_inv (to_phase (WalkWaits deadline (waits[j := lw])) w)" if "lw_root lw = lw_root (waits ! j)" for lw
    using assms p(1) m [OF that] by (auto simp: walk_inv_def account_def verdicts_ok_eq simp flip: mset_map)
  then show ?thesis using p by (simp add: leftover_go_def)
next
  case False
  then have "leftover_go j lost w = w" by (auto simp: leftover_go_def split: walk_phase.splits)
  then show ?thesis using assms by simp
qed

lemma waits_over_inv:
  assumes "walk_inv w" "wk_phase (ww_walker w) = WalkWaits deadline waits"
  shows "walk_inv (waits_over deadline waits w)"
proof -
  let ?e = "filter (\<lambda>lw. lw_ended lw = Some True) waits" and ?s = "filter (\<lambda>lw. lw_ended lw \<noteq> Some True) waits"
  have "mset waits = mset ?e + mset ?s" by (induction waits) auto
  then have "image_mset lw_root (mset waits) = image_mset lw_root (mset ?e) + image_mset lw_root (mset ?s)" by (metis image_mset_union)
  then show ?thesis using assms
    by (auto simp: waits_over_def walk_inv_def account_def verdicts_ok_eq Let_def forced_roots_def reports_ok_swept list_all_iff
        comp_def image_mset.compositionality union_assoc simp del: mset_filter)
qed

lemma walk_go_inv:
  assumes "walk_inv w"
  shows "walk_inv (walk_go w)"
proof (cases "wk_phase (ww_walker w)")
  case (WalkRoots roots pc)
  then show ?thesis using roots_go_inv [OF assms] assms
    by (cases roots) (auto simp: walk_go_def walk_inv_def account_def verdicts_ok_eq)
next
  case (WalkForce sweep ts turn tasks)
  then show ?thesis using targets_go_inv [OF assms] assms
    by (cases ts; cases sweep) (auto simp: walk_go_def walk_inv_def account_def verdicts_ok_eq forced_roots_def)
next
  case WalkLate
  then show ?thesis using late_go_inv [OF assms] by (simp add: walk_go_def)
next
  case (WalkSnapshot deadline)
  then show ?thesis using snapshot_go_inv [OF assms] by (simp add: walk_go_def)
next
  case (WalkWaits deadline waits)
  then show ?thesis using waits_over_inv [OF assms] assms by (simp add: walk_go_def)
qed (use assms in \<open>auto simp: walk_go_def walk_inv_def account_def verdicts_ok_eq Let_def\<close>)

lemma walk_step_inv: "walk_inv w \<Longrightarrow> walk_inv (walk_step w op)"
  by (cases op) (simp_all add: walk_go_inv force_task_go_inv join_force_inv leftover_go_inv, simp add: walk_inv_def)

interpretation walk: invariant_machine walk_step walk_inv
  by unfold_locales (rule walk_step_inv)

lemma walk_inv_begins: "ww_walker w = walk_begins per_actor deadline roots \<Longrightarrow> walk_inv w"
  by (simp add: walk_inv_def account_def verdicts_ok_def walk_begins_def)

text \<open>The roots taken on only grow.\<close>

lemma taken_grows: "\<exists>late. wk_taken (ww_walker (walk_step w op)) = wk_taken (ww_walker w) @ late"
proof (cases op)
  case WalkGo
  show ?thesis unfolding WalkGo walk_step.simps walk_go_def
    by (auto simp: roots_go_def targets_go_def late_go_def snapshot_go_def waits_over_def Let_def
        split: walk_phase.split list.split prod.split ladder_result.split force_turn.split option.split)
next
  case (JoinForce j)
  show ?thesis by (auto simp: JoinForce join_force_def Let_def split: walk_phase.split list.split option.split)
next
  case (ForceTaskGo j lost)
  show ?thesis by (auto simp: ForceTaskGo force_task_go_def split: walk_phase.split prod.split)
next
  case (LeftoverGo j lost)
  show ?thesis by (auto simp: LeftoverGo leftover_go_def split: walk_phase.split)
qed simp

lemma taken_run: "\<exists>late. wk_taken (ww_walker (run walk_step w ops)) = wk_taken (ww_walker w) @ late"
proof (induction ops arbitrary: w)
  case (Cons op ops)
  then show ?case using taken_grows [of w op] by (metis append.assoc run_Cons)
qed simp

section \<open>Example\<close>

text \<open>A system with one root, which has stopped by itself when the walk comes to it.\<close>

definition one_root :: root_snapshot where
  "one_root = \<lparr>rs_id = ''a'', rs_seq = 0, rs_channel = 0, rs_kill_grace = 5\<rparr>"

definition stopped_plane :: status_cell where
  "stopped_plane = publish_stopped (write_final_reason 0 ParentRequest status_cell_new)"

lemma stopped_plane_reads:
  "is_terminal stopped_plane" "terminal_report stopped_plane req = \<lparr>sr_outcome = req, sr_reason = Some ParentRequest\<rparr>"
proof -
  have "status_read stopped_plane = StStopped"
    by (simp add: stopped_plane_def status_read_def plane_op_defs decode_def)
  then show "is_terminal stopped_plane" "terminal_report stopped_plane req = \<lparr>sr_outcome = req, sr_reason = Some ParentRequest\<rparr>"
    by (simp_all add: is_terminal_def read_status_def terminal_report_def terminal_outcome_def terminal_reason_def reason_or_kill_def)
      (simp add: stopped_plane_def plane_op_defs status_cell_new_def status_value_new_def)
qed

definition one_root_world :: walk_world where
  "one_root_world =
     \<lparr>ww_sys = system_empty ''s'' 0, ww_planes = (\<lambda>_. stopped_plane),
      ww_records = (\<lambda>_. abort_record_new), ww_walker = walk_begins 10 100 [one_root]\<rparr>"

definition eight_turns :: "walk_op list" where
  "eight_turns = [WalkGo, WalkGo, WalkGo, WalkGo, WalkGo, WalkGo, WalkGo, WalkGo]"

lemma one_root_begins: "ww_walker one_root_world = walk_begins 10 100 [one_root]"
  by (simp add: one_root_world_def)

lemma one_root_walk:
  "ww_walker (run walk_step one_root_world eight_turns) =
     (walk_begins 10 100 [one_root])\<lparr>wk_phase := WalkDone,
        wk_outcomes := [(one_root, False, \<lparr>sr_outcome = StopGraceful, sr_reason = Some ParentRequest\<rparr>)]\<rparr>"
  by (simp add: eight_turns_def one_root_world_def one_root_def walk_begins_def walk_go_def roots_go_def entry_for_def system_empty_def
      note_effects_def to_phase_def note_outcome_def note_swept_def stopped_plane_reads late_go_def late_roots_def snapshot_roots_def
      snapshot_go_def leftover_entries_def waits_over_def Let_def)

section \<open>Properties\<close>





end
