(* ===== verification/Spec2Isabelle.thy ===== *)
theory Spec2Isabelle
  imports Turn_Clock Slot_Executors Stale_Plan Mailbox_Props Actor_End
    Stop_Step System_Kill Forwarder_Props Link_Guard Shutdown_Walk
begin

text \<open>
  A verification library for the actor runtime of the repository (crate sources under \<open>src/src\<close>).
\<close>

end
